(* ===== verification/Chit_Prelude.thy ===== *)
theory Chit_Prelude
  imports Main "HOL-Library.AList" "HOL-Library.Word"
begin

text \<open>
  What the components share: bytes and hexadecimal text, the JavaScript values that the
  dynamically checked entry points receive, and decimal text.
\<close>

named_theorems jsmap_simps \<open>lookups in and sums over a JavaScript Map\<close>
named_theorems hex_simps \<open>hexadecimal encoding and decoding\<close>

section \<open>Bytes and hexadecimal text\<close>

type_synonym byte = "8 word"
type_synonym bytes = "byte list"

definition hex_char :: "nat \<Rightarrow> char" where
  "hex_char d = (if d < 10 then char_of (48 + d) else char_of (87 + d))"

text \<open>One lowercase hexadecimal digit; \<open>None\<close> for any other character.\<close>

definition hex_digit :: "char \<Rightarrow> nat option" where
  "hex_digit c = (let n = of_char c :: nat in
     if 48 \<le> n \<and> n \<le> 57 then Some (n - 48)
     else if 97 \<le> n \<and> n \<le> 102 then Some (n - 87)
     else None)"

definition is_hex :: "string \<Rightarrow> bool" where
  "is_hex s = list_all (\<lambda>c. hex_digit c \<noteq> None) s"

definition hex_byte :: "byte \<Rightarrow> string" where
  "hex_byte b = [hex_char (unat b div 16), hex_char (unat b mod 16)]"

definition to_hex :: "bytes \<Rightarrow> string" where
  "to_hex bs = concat (map hex_byte bs)"

fun of_hex :: "string \<Rightarrow> bytes option" where
  "of_hex [] = Some []"
| "of_hex [c] = None"
| "of_hex (c # d # s) =
     (case (hex_digit c, hex_digit d, of_hex s) of
        (Some x, Some y, Some bs) \<Rightarrow> Some (word_of_nat (16 * x + y) # bs)
      | _ \<Rightarrow> None)"

lemma hex_digit_hex_char [hex_simps]: "d < 16 \<Longrightarrow> hex_digit (hex_char d) = Some d"
  by (auto simp: hex_digit_def hex_char_def Let_def)

lemma byte_bound: "unat (b :: byte) < 256"
  by (rule order_less_le_trans [OF unsigned_less]) simp

lemma byte_nibbles: "word_of_nat (16 * (unat b div 16) + unat b mod 16) = (b :: byte)"
  by simp

lemma of_hex_to_hex [hex_simps]: "of_hex (to_hex bs) = Some bs"
proof (induction bs)
  case Nil
  then show ?case by (simp add: to_hex_def)
next
  case (Cons b bs)
  have "unat b div 16 < 16" using byte_bound [of b] by simp
  then show ?case using Cons byte_nibbles [of b]
    by (simp add: to_hex_def hex_byte_def hex_simps)
qed

lemma length_to_hex [simp]: "length (to_hex bs) = 2 * length bs"
  by (induction bs) (auto simp: to_hex_def hex_byte_def)

lemma is_hex_to_hex [hex_simps]: "is_hex (to_hex bs)"
proof (induction bs)
  case Nil
  then show ?case by (simp add: to_hex_def is_hex_def)
next
  case (Cons b bs)
  have "unat b div 16 < 16" using byte_bound [of b] by simp
  with Cons show ?case
    by (simp add: to_hex_def hex_byte_def is_hex_def hex_simps)
qed

lemma to_hex_inject: "to_hex a = to_hex b \<longleftrightarrow> a = b"
  by (metis of_hex_to_hex option.inject)

lemma to_hex_append: "to_hex (a @ b) = to_hex a @ to_hex b"
  by (simp add: to_hex_def)

lemma hex_char_hex_digit: "hex_digit c = Some d \<Longrightarrow> hex_char d = c \<and> d < 16"
  by (auto simp: hex_digit_def hex_char_def Let_def split: if_splits)

text \<open>Lowercase hexadecimal text determines its bytes: decoding is injective.\<close>

lemma to_hex_of_hex: "of_hex s = Some bs \<Longrightarrow> to_hex bs = s"
proof (induction s arbitrary: bs rule: of_hex.induct)
  case (3 c d s)
  then obtain x y cs where h: "hex_digit c = Some x" "hex_digit d = Some y" "of_hex s = Some cs"
      and bs: "bs = word_of_nat (16 * x + y) # cs"
    by (auto split: option.splits)
  from h have xy: "hex_char x = c" "hex_char y = d" "x < 16" "y < 16"
    by (auto dest: hex_char_hex_digit)
  then have "unat (word_of_nat (16 * x + y) :: byte) = 16 * x + y"
    by (simp add: unat_of_nat del: of_nat_add of_nat_mult)
  with 3 h bs xy show ?case by (simp add: to_hex_def hex_byte_def)
qed (auto simp: to_hex_def)

lemma of_hex_length: "of_hex s = Some bs \<Longrightarrow> length s = 2 * length bs"
  using to_hex_of_hex by fastforce

lemma of_hex_total: "is_hex s \<Longrightarrow> even (length s) \<Longrightarrow> \<exists>bs. of_hex s = Some bs"
proof (induction s rule: of_hex.induct)
  case (3 c d s)
  then show ?case by (auto simp: is_hex_def)
qed (auto simp: is_hex_def)

section \<open>JavaScript values\<close>

text \<open>
  A number is an integer value (below \<open>10 ^ 21\<close> in size, so that it prints as digits),
  negative zero, any other finite value (given by its floor and its printed text),
  \<open>NaN\<close> or an infinity.
\<close>

datatype jsnum = JInt int | JNegZero | JFrac int string | JNaN | JInf bool

datatype jsval =
    JUndef
  | JNull
  | JBool bool
  | JNum jsnum
  | JBig int
  | JStr string
  | JBytes bytes
  | JArr "jsval list"
  | JObj "(string \<times> jsval) list"

abbreviation max_safe_integer :: int where
  "max_safe_integer \<equiv> 9007199254740991"

definition is_safe_integer :: "jsnum \<Rightarrow> bool" where
  "is_safe_integer x = (case x of
       JInt i \<Rightarrow> \<bar>i\<bar> \<le> max_safe_integer
     | JNegZero \<Rightarrow> True
     | _ \<Rightarrow> False)"

section \<open>Decimal text\<close>

definition is_digit :: "char \<Rightarrow> bool" where
  "is_digit c = (let n = of_char c :: nat in 48 \<le> n \<and> n \<le> 57)"

definition digit_value :: "char \<Rightarrow> nat" where
  "digit_value c = of_char c - 48"

text \<open>\<open>BigInt(s)\<close> of a digit string, and the regular expression \<open>/^\\d+$/\<close>.\<close>

definition dec_value :: "string \<Rightarrow> nat" where
  "dec_value s = foldl (\<lambda>n c. 10 * n + digit_value c) 0 s"

definition all_digits :: "string \<Rightarrow> bool" where
  "all_digits s = (s \<noteq> [] \<and> list_all is_digit s)"

text \<open>Decimal text of a natural number, as \<open>BigInt.prototype.toString\<close> prints it.\<close>

fun dec_string :: "nat \<Rightarrow> string" where
  "dec_string n = (if n < 10 then [char_of (48 + n)]
     else dec_string (n div 10) @ [char_of (48 + n mod 10)])"

declare dec_string.simps [simp del]

lemma is_digit_char: "n < (10 :: nat) \<Longrightarrow> is_digit (char_of (48 + n))"
  by (simp add: is_digit_def Let_def)

lemma digit_value_char: "n < (10 :: nat) \<Longrightarrow> digit_value (char_of (48 + n)) = n"
  by (simp add: digit_value_def)

lemma dec_value_append: "dec_value (s @ [c]) = 10 * dec_value s + digit_value c"
  by (simp add: dec_value_def)

lemma dec_value_dec_string [simp]: "dec_value (dec_string n) = n"
proof (induction n rule: dec_string.induct)
  case (1 n)
  show ?case
  proof (cases "n < 10")
    case True
    then show ?thesis
      by (subst dec_string.simps) (simp add: dec_value_def digit_value_char)
  next
    case False
    with 1 show ?thesis
      by (subst dec_string.simps) (simp add: dec_value_append digit_value_char)
  qed
qed

lemma all_digits_dec_string [simp]: "all_digits (dec_string n)"
proof (induction n rule: dec_string.induct)
  case (1 n)
  then show ?case
    by (cases "n < 10"; subst dec_string.simps) (auto simp: all_digits_def is_digit_char)
qed

lemma dec_string_inject: "dec_string a = dec_string b \<longleftrightarrow> a = b"
  by (metis dec_value_dec_string)

text \<open>White space that \<open>String.prototype.trim\<close> removes, over code units up to 255.\<close>

definition is_space :: "char \<Rightarrow> bool" where
  "is_space c = (let n = of_char c :: nat in n = 9 \<or> n = 10 \<or> n = 11 \<or> n = 12 \<or> n = 13 \<or> n = 32 \<or> n = 160)"

definition js_trim :: "string \<Rightarrow> string" where
  "js_trim s = rev (dropWhile is_space (rev (dropWhile is_space s)))"

lemma is_digit_not_space: "is_digit c \<Longrightarrow> \<not> is_space c"
  by (auto simp: is_digit_def is_space_def Let_def)

lemma js_trim_id: "list_all (\<lambda>c. \<not> is_space c) s \<Longrightarrow> js_trim s = s"
proof -
  assume a: "list_all (\<lambda>c. \<not> is_space c) s"
  have d: "dropWhile is_space xs = xs" if "list_all (\<lambda>c. \<not> is_space c) xs" for xs
    using that by (cases xs) auto
  from a have "list_all (\<lambda>c. \<not> is_space c) (rev s)" by simp
  with a show ?thesis by (simp add: js_trim_def d)
qed

lemma js_trim_digits: "all_digits s \<Longrightarrow> js_trim s = s"
  by (rule js_trim_id) (auto simp: all_digits_def list_all_iff is_digit_not_space)

text \<open>\<open>String.prototype.toLowerCase\<close> on ASCII letters.\<close>

definition lower_char :: "char \<Rightarrow> char" where
  "lower_char c = (let n = of_char c :: nat in if 65 \<le> n \<and> n \<le> 90 then char_of (n + 32) else c)"

definition js_lower :: "string \<Rightarrow> string" where
  "js_lower s = map lower_char s"

lemma lower_char_idem [simp]: "lower_char (lower_char c) = lower_char c"
  by (auto simp: lower_char_def Let_def)

lemma js_lower_idem [simp]: "js_lower (js_lower s) = js_lower s"
  by (simp add: js_lower_def)

end
