(* ===== verification/Sha256.thy ===== *)
theory Sha256
  imports Chit_Prelude
begin

text \<open>
  SHA-256 (FIPS 180-4), which the sources reach through \<open>createHash('sha256')\<close> of
  \<open>node:crypto\<close>. The proofs use only that a digest has 32 bytes; the function itself is
  executable so that the model has no unspecified hash.
\<close>

unbundle bit_operations_syntax

type_synonym w32 = "32 word"

text \<open>
  The constants are the first 32 bits of the fractional parts of the cube roots (round
  constants) and square roots (initial state) of the first primes, computed as integer roots.
\<close>

definition int_root :: "nat \<Rightarrow> int \<Rightarrow> int" where
  "int_root k x = foldr (\<lambda>b r. if (r + 2 ^ b) ^ k \<le> x then r + 2 ^ b else r) [0..<40] 0"

definition sha_primes :: "int list" where
  "sha_primes = filter (\<lambda>n. list_all (\<lambda>d. n mod d \<noteq> 0) [2..n - 1]) [2..311]"

definition sha_k :: "w32 list" where
  "sha_k = map (\<lambda>p. word_of_int (int_root 3 (p * 2 ^ 96))) sha_primes"

definition rotr :: "nat \<Rightarrow> w32 \<Rightarrow> w32" where
  "rotr n x = (drop_bit n x) OR (push_bit (32 - n) x)"

definition big_sigma0 :: "w32 \<Rightarrow> w32" where
  "big_sigma0 x = (rotr 2 x XOR rotr 13 x) XOR rotr 22 x"

definition big_sigma1 :: "w32 \<Rightarrow> w32" where
  "big_sigma1 x = (rotr 6 x XOR rotr 11 x) XOR rotr 25 x"

definition small_sigma0 :: "w32 \<Rightarrow> w32" where
  "small_sigma0 x = (rotr 7 x XOR rotr 18 x) XOR drop_bit 3 x"

definition small_sigma1 :: "w32 \<Rightarrow> w32" where
  "small_sigma1 x = (rotr 17 x XOR rotr 19 x) XOR drop_bit 10 x"

definition sha_ch :: "w32 \<Rightarrow> w32 \<Rightarrow> w32 \<Rightarrow> w32" where
  "sha_ch x y z = (x AND y) XOR (NOT x AND z)"

definition sha_maj :: "w32 \<Rightarrow> w32 \<Rightarrow> w32 \<Rightarrow> w32" where
  "sha_maj x y z = ((x AND y) XOR (x AND z)) XOR (y AND z)"

text \<open>The eight working variables.\<close>

record sha_state =
  sa :: w32
  sb :: w32
  sc :: w32
  sd :: w32
  se :: w32
  sf :: w32
  sg :: w32
  sh :: w32

definition sha_h0 :: "nat \<Rightarrow> w32" where
  "sha_h0 i = word_of_int (int_root 2 (sha_primes ! i * 2 ^ 64))"

definition sha_init :: sha_state where
  "sha_init = \<lparr>sa = sha_h0 0, sb = sha_h0 1, sc = sha_h0 2, sd = sha_h0 3,
     se = sha_h0 4, sf = sha_h0 5, sg = sha_h0 6, sh = sha_h0 7\<rparr>"

definition sha_round :: "sha_state \<Rightarrow> w32 \<times> w32 \<Rightarrow> sha_state" where
  "sha_round s kw = (case kw of (k, w) \<Rightarrow>
     let t1 = sh s + big_sigma1 (se s) + sha_ch (se s) (sf s) (sg s) + k + w;
         t2 = big_sigma0 (sa s) + sha_maj (sa s) (sb s) (sc s)
     in \<lparr>sa = t1 + t2, sb = sa s, sc = sb s, sd = sc s,
         se = sd s + t1, sf = se s, sg = sf s, sh = sg s\<rparr>)"

text \<open>
  The message schedule, latest word first: the next word comes from the words 2, 7, 15
  and 16 places back.
\<close>

fun sha_schedule :: "nat \<Rightarrow> w32 list \<Rightarrow> w32 list" where
  "sha_schedule 0 ws = rev ws"
| "sha_schedule (Suc n) ws =
     sha_schedule n ((small_sigma1 (ws ! 1) + ws ! 6 + small_sigma0 (ws ! 14) + ws ! 15) # ws)"

definition sha_compress :: "sha_state \<Rightarrow> w32 list \<Rightarrow> sha_state" where
  "sha_compress s blk =
     (let t = foldl sha_round s (zip sha_k (sha_schedule 48 (rev blk)))
      in \<lparr>sa = sa s + sa t, sb = sb s + sb t, sc = sc s + sc t, sd = sd s + sd t,
          se = se s + se t, sf = sf s + sf t, sg = sg s + sg t, sh = sh s + sh t\<rparr>)"

fun sha_words :: "bytes \<Rightarrow> w32 list" where
  "sha_words (a # b # c # d # bs) =
     (push_bit 24 (ucast a) OR push_bit 16 (ucast b) OR push_bit 8 (ucast c) OR ucast d) # sha_words bs"
| "sha_words _ = []"

function sha_blocks :: "sha_state \<Rightarrow> w32 list \<Rightarrow> sha_state" where
  "sha_blocks s ws = (if length ws < 16 then s
     else sha_blocks (sha_compress s (take 16 ws)) (drop 16 ws))"
  by pat_completeness auto
termination
  by (relation "measure (\<lambda>(s, ws). length ws)") auto

declare sha_blocks.simps [simp del]

definition be32 :: "w32 \<Rightarrow> bytes" where
  "be32 w = [ucast (drop_bit 24 w), ucast (drop_bit 16 w), ucast (drop_bit 8 w), ucast w]"

text \<open>Padding: a one bit, zeros up to 56 modulo 64, and the length in bits as 64 bits.\<close>

definition sha_pad :: "bytes \<Rightarrow> bytes" where
  "sha_pad m = (let l = length m; z = (119 - l mod 64) mod 64
     in m @ [0x80] @ replicate z 0
        @ be32 (word_of_int (8 * int l div 4294967296)) @ be32 (word_of_int (8 * int l)))"

definition sha256 :: "bytes \<Rightarrow> bytes" where
  "sha256 m = (let s = sha_blocks sha_init (sha_words (sha_pad m))
     in concat (map be32 [sa s, sb s, sc s, sd s, se s, sf s, sg s, sh s]))"

lemma length_be32 [simp]: "length (be32 w) = 4"
  by (simp add: be32_def)

lemma length_sha256 [simp]: "length (sha256 m) = 32"
  by (simp add: sha256_def Let_def)

text \<open>Two inputs with one digest.\<close>

definition sha_collision :: "bytes \<Rightarrow> bytes \<Rightarrow> bool" where
  "sha_collision x y \<longleftrightarrow> x \<noteq> y \<and> sha256 x = sha256 y"

end
