(* ===== verification/Pairing.thy ===== *)
theory Pairing
  imports Chit_Prelude
begin

text \<open>
  Binary hash trees over a list of node values, for any function \<open>H\<close> that combines two
  nodes. The tree is split at the largest power of two below its size, as the code builds
  it from the top, and it is shown to be the same tree as the one obtained by pairing a level
  from the left and promoting a last odd node, as the verifiers walk it from the bottom.
\<close>

section \<open>The split point\<close>

text \<open>\<open>while (k * 2 < n) k *= 2\<close>; the loop starts at 1, so \<open>k\<close> is never 0.\<close>

function lp2_loop :: "nat \<Rightarrow> nat \<Rightarrow> nat" where
  "lp2_loop k n = (if 0 < k \<and> k * 2 < n then lp2_loop (k * 2) n else k)"
  by pat_completeness auto
termination
  by (relation "measure (\<lambda>(k, n). n - k)") auto

declare lp2_loop.simps [simp del]

definition largestPowerOfTwoLessThan :: "nat \<Rightarrow> nat" where
  "largestPowerOfTwoLessThan n = lp2_loop 1 n"

lemma lp2_loop_spec:
  "2 ^ i < n \<Longrightarrow> \<exists>j. lp2_loop (2 ^ i) n = 2 ^ j \<and> 2 ^ j < n \<and> n \<le> 2 * 2 ^ j"
proof (induction "2 ^ i :: nat" n arbitrary: i rule: lp2_loop.induct)
  case (1 n)
  show ?case
  proof (cases "2 ^ i * 2 < n")
    case True
    then have e: "lp2_loop (2 ^ i) n = lp2_loop (2 ^ Suc i) n"
      by (subst lp2_loop.simps) (simp add: mult.commute)
    from True have "2 ^ Suc i < n" by simp
    with 1(1) [of "Suc i"] True show ?thesis by (simp add: e mult.commute)
  next
    case False
    then have "lp2_loop (2 ^ i) n = 2 ^ i" by (subst lp2_loop.simps) simp
    with False 1(2) show ?thesis by (intro exI [of _ i]) simp
  qed
qed

lemma lp2_spec:
  assumes "2 \<le> n"
  obtains j where "largestPowerOfTwoLessThan n = 2 ^ j" "2 ^ j < n" "n \<le> 2 * 2 ^ j"
  using lp2_loop_spec [of 0 n] assms by (auto simp: largestPowerOfTwoLessThan_def)

lemma lp2_less: "2 \<le> n \<Longrightarrow> largestPowerOfTwoLessThan n < n"
  by (erule lp2_spec) simp

lemma lp2_pos: "2 \<le> n \<Longrightarrow> 0 < largestPowerOfTwoLessThan n"
  by (erule lp2_spec) simp

text \<open>The bounds determine the split point.\<close>

lemma pow2_between_unique:
  fixes n :: nat
  assumes "2 ^ i < n" "n \<le> 2 * 2 ^ i" "2 ^ j < n" "n \<le> 2 * 2 ^ j"
  shows "i = j"
proof (rule ccontr)
  assume "i \<noteq> j"
  moreover have False if "a < b" "n \<le> 2 * 2 ^ a" "2 ^ b < n" for a b :: nat
  proof -
    from \<open>a < b\<close> have "(2::nat) ^ Suc a \<le> 2 ^ b" by (intro power_increasing) auto
    with that show False by simp
  qed
  ultimately show False using assms by (metis linorder_neqE_nat)
qed

lemma lp2_eqI:
  assumes "2 ^ j < n" "n \<le> 2 * 2 ^ j"
  shows "largestPowerOfTwoLessThan n = 2 ^ j"
proof -
  from assms have "2 \<le> n"
    by (metis One_nat_def Suc_leI le_less_trans nat_one_le_power numeral_2_eq_2 one_le_numeral)
  then obtain i where "largestPowerOfTwoLessThan n = 2 ^ i" "2 ^ i < n" "n \<le> 2 * 2 ^ i"
    by (rule lp2_spec)
  with assms show ?thesis using pow2_between_unique by blast
qed

lemma lp2_even:
  assumes "3 \<le> n"
  shows "even (largestPowerOfTwoLessThan n)" "2 \<le> largestPowerOfTwoLessThan n"
    "largestPowerOfTwoLessThan ((n + 1) div 2) = largestPowerOfTwoLessThan n div 2"
proof -
  from assms have "2 \<le> n" by simp
  then obtain j where j: "largestPowerOfTwoLessThan n = 2 ^ j" "2 ^ j < n" "n \<le> 2 * 2 ^ j"
    by (rule lp2_spec)
  with assms have "j \<noteq> 0" by (intro notI) simp
  then obtain i where i: "j = Suc i" by (cases j) auto
  with j show "even (largestPowerOfTwoLessThan n)" "2 \<le> largestPowerOfTwoLessThan n"
    by auto
  from i j have "2 ^ i < (n + 1) div 2" "(n + 1) div 2 \<le> 2 * 2 ^ i"
    by auto
  then have "largestPowerOfTwoLessThan ((n + 1) div 2) = 2 ^ i" by (rule lp2_eqI)
  with i j show "largestPowerOfTwoLessThan ((n + 1) div 2) = largestPowerOfTwoLessThan n div 2"
    by simp
qed

lemma lp2_two [simp]: "largestPowerOfTwoLessThan 2 = 1"
  using lp2_eqI [of 0 2] by simp

lemma lp2_Suc_two [simp]: "largestPowerOfTwoLessThan (Suc (Suc 0)) = 1"
  using lp2_two by (simp add: numeral_2_eq_2 del: lp2_two)

lemma lp2_diff: "\<not> n < 2 \<Longrightarrow> n - largestPowerOfTwoLessThan n < n"
  using lp2_pos [of n] by simp

section \<open>The tree from the top\<close>

function tree_root :: "('h \<Rightarrow> 'h \<Rightarrow> 'h) \<Rightarrow> 'h list \<Rightarrow> 'h" where
  "tree_root H xs = (if length xs < 2 then hd xs
     else let k = largestPowerOfTwoLessThan (length xs)
          in H (tree_root H (take k xs)) (tree_root H (drop k xs)))"
  by pat_completeness auto
termination
  by (relation "measure (\<lambda>(H, xs). length xs)") (auto simp: lp2_less lp2_diff)

function tree_path :: "('h \<Rightarrow> 'h \<Rightarrow> 'h) \<Rightarrow> 'h list \<Rightarrow> nat \<Rightarrow> 'h list" where
  "tree_path H xs i = (if length xs < 2 then []
     else let k = largestPowerOfTwoLessThan (length xs)
          in if i < k then tree_path H (take k xs) i @ [tree_root H (drop k xs)]
             else tree_path H (drop k xs) (i - k) @ [tree_root H (take k xs)])"
  by pat_completeness auto
termination
  by (relation "measure (\<lambda>(H, xs, i). length xs)") (auto simp: lp2_less lp2_diff)

text \<open>The pairs of nodes the tree combines.\<close>

function tree_nodes :: "('h \<Rightarrow> 'h \<Rightarrow> 'h) \<Rightarrow> 'h list \<Rightarrow> ('h \<times> 'h) list" where
  "tree_nodes H xs = (if length xs < 2 then []
     else let k = largestPowerOfTwoLessThan (length xs)
          in (tree_root H (take k xs), tree_root H (drop k xs))
             # tree_nodes H (take k xs) @ tree_nodes H (drop k xs))"
  by pat_completeness auto
termination
  by (relation "measure (\<lambda>(H, xs). length xs)") (auto simp: lp2_less lp2_diff)

declare tree_root.simps [simp del] tree_path.simps [simp del] tree_nodes.simps [simp del]

lemma tree_single [simp]:
  "tree_root H [x] = x" "tree_path H [x] i = []" "tree_nodes H [x] = []"
  by (simp_all add: tree_root.simps tree_path.simps tree_nodes.simps)

lemma tree_root_split:
  "2 \<le> length xs \<Longrightarrow> tree_root H xs =
     H (tree_root H (take (largestPowerOfTwoLessThan (length xs)) xs))
       (tree_root H (drop (largestPowerOfTwoLessThan (length xs)) xs))"
  by (subst tree_root.simps) (simp add: Let_def)

lemma tree_path_split:
  "2 \<le> length xs \<Longrightarrow> tree_path H xs i =
     (let k = largestPowerOfTwoLessThan (length xs)
      in if i < k then tree_path H (take k xs) i @ [tree_root H (drop k xs)]
         else tree_path H (drop k xs) (i - k) @ [tree_root H (take k xs)])"
  by (subst tree_path.simps) simp

lemma tree_nodes_split:
  "2 \<le> length xs \<Longrightarrow> tree_nodes H xs =
     (let k = largestPowerOfTwoLessThan (length xs)
      in (tree_root H (take k xs), tree_root H (drop k xs))
           # tree_nodes H (take k xs) @ tree_nodes H (drop k xs))"
  by (subst tree_nodes.simps) simp

lemma tree_two [simp]:
  "tree_root H [a, b] = H a b"
  "tree_path H [a, b] 0 = [b]"
  "tree_path H [a, b] (Suc 0) = [a]"
  "tree_nodes H [a, b] = [(a, b)]"
  by (simp_all add: tree_root_split tree_path_split tree_nodes_split Let_def)

lemma nonempty_list_cases:
  assumes "0 < length xs"
  obtains (single) x where "xs = [x]" | (more) "2 \<le> length xs"
  using assms by (cases xs; cases "tl xs") auto

section \<open>The tree from the bottom\<close>

fun pair_up :: "('h \<Rightarrow> 'h \<Rightarrow> 'h) \<Rightarrow> 'h list \<Rightarrow> 'h list" where
  "pair_up H (a # b # xs) = H a b # pair_up H xs"
| "pair_up H [x] = [x]"
| "pair_up H [] = []"

fun level_pairs :: "'h list \<Rightarrow> ('h \<times> 'h) list" where
  "level_pairs (a # b # xs) = (a, b) # level_pairs xs"
| "level_pairs xs = []"

lemma length_pair_up [simp]: "length (pair_up H xs) = (length xs + 1) div 2"
  by (induction H xs rule: pair_up.induct) auto

lemma pair_up_take: "even k \<Longrightarrow> pair_up H (take k xs) = take (k div 2) (pair_up H xs)"
proof (induction H xs arbitrary: k rule: pair_up.induct)
  case (1 H a b xs)
  show ?case
  proof (cases k)
    case (Suc k')
    with 1(2) obtain k'' where k: "k = Suc (Suc k'')" "even k''"
      by (cases k') auto
    with 1(1) [of k''] show ?thesis by simp
  qed simp
next
  case (2 H v)
  show ?case
  proof (cases "k = 0")
    case False
    with \<open>even k\<close> have "2 \<le> k" by (auto elim: evenE)
    then show ?thesis by (auto simp: take_Cons')
  qed simp
qed simp

lemma pair_up_drop: "even k \<Longrightarrow> pair_up H (drop k xs) = drop (k div 2) (pair_up H xs)"
proof (induction H xs arbitrary: k rule: pair_up.induct)
  case (1 H a b xs)
  show ?case
  proof (cases k)
    case (Suc k')
    with 1(2) obtain k'' where k: "k = Suc (Suc k'')" "even k''"
      by (cases k') auto
    with 1(1) [of k''] show ?thesis by simp
  qed simp
next
  case (2 H v)
  show ?case
  proof (cases "k = 0")
    case False
    with \<open>even k\<close> have "2 \<le> k" by (auto elim: evenE)
    then show ?thesis by (auto simp: drop_Cons')
  qed simp
qed simp

lemma pair_up_nth:
  "2 * i + 1 < length xs \<Longrightarrow> pair_up H xs ! i = H (xs ! (2 * i)) (xs ! (2 * i + 1))"
proof (induction H xs arbitrary: i rule: pair_up.induct)
  case (1 H a b xs)
  then show ?case by (cases i) auto
qed auto

lemma pair_up_nth_last:
  "length xs = 2 * i + 1 \<Longrightarrow> pair_up H xs ! i = xs ! (2 * i)"
proof (induction H xs arbitrary: i rule: pair_up.induct)
  case (1 H a b xs)
  then show ?case by (cases i) auto
qed auto

lemma tree_root_pair_up:
  "2 \<le> length xs \<Longrightarrow> tree_root H (pair_up H xs) = tree_root H xs"
proof (induction "length xs" arbitrary: xs rule: less_induct)
  case less
  show ?case
  proof (cases "length xs = 2")
    case True
    then obtain a b where "xs = [a, b]" by (auto simp: numeral_2_eq_2 length_Suc_conv)
    then show ?thesis by simp
  next
    case False
    with less.prems have n: "3 \<le> length xs" by simp
    let ?k = "largestPowerOfTwoLessThan (length xs)"
    note k = lp2_even [OF n] lp2_less [OF less.prems]
    have IH: "tree_root H (pair_up H ys) = tree_root H ys"
      if "0 < length ys" "length ys < length xs" for ys
      using that less.hyps [of ys] by (cases rule: nonempty_list_cases [of ys]) simp_all
    have l: "2 \<le> length (pair_up H xs)" using n by simp
    have "tree_root H (pair_up H xs) =
        H (tree_root H (pair_up H (take ?k xs))) (tree_root H (pair_up H (drop ?k xs)))"
      using k by (simp add: tree_root_split [OF l] pair_up_take pair_up_drop)
    also have "\<dots> = tree_root H xs"
      using k IH [of "take ?k xs"] IH [of "drop ?k xs"]
      by (simp add: tree_root_split [OF less.prems])
    finally show ?thesis .
  qed
qed

text \<open>The inclusion path, one level up.\<close>

definition sibling_step :: "'h list \<Rightarrow> nat \<Rightarrow> 'h list" where
  "sibling_step xs i =
     (if odd i then [xs ! (i - 1)] else if i + 1 < length xs then [xs ! (i + 1)] else [])"

lemma sibling_step_take: "even k \<Longrightarrow> i < k \<Longrightarrow> k \<le> length xs \<Longrightarrow>
    sibling_step (take k xs) i = sibling_step xs i"
proof -
  assume a: "even k" "i < k" "k \<le> length xs"
  have "i + 1 < k" if "even i"
    using a that by presburger
  with a show ?thesis by (auto simp: sibling_step_def)
qed

lemma sibling_step_drop: "even k \<Longrightarrow> k \<le> i \<Longrightarrow> i < length xs \<Longrightarrow>
    sibling_step (drop k xs) (i - k) = sibling_step xs i"
proof -
  assume a: "even k" "k \<le> i" "i < length xs"
  have "i \<noteq> k" if "odd i" using a that by auto
  with a show ?thesis
    by (auto simp: sibling_step_def algebra_simps)
qed

lemma tree_path_pair_up:
  "2 \<le> length xs \<Longrightarrow> i < length xs \<Longrightarrow>
     tree_path H xs i = sibling_step xs i @ tree_path H (pair_up H xs) (i div 2)"
proof (induction "length xs" arbitrary: xs i rule: less_induct)
  case less
  show ?case
  proof (cases "length xs = 2")
    case True
    then obtain a b where "xs = [a, b]" by (auto simp: numeral_2_eq_2 length_Suc_conv)
    moreover from this less.prems have "i = 0 \<or> i = Suc 0" by auto
    ultimately show ?thesis by (auto simp: sibling_step_def)
  next
    case False
    with less.prems have n: "3 \<le> length xs" by simp
    let ?k = "largestPowerOfTwoLessThan (length xs)"
    note k = lp2_even [OF n] lp2_less [OF less.prems(1)]
    have IH: "tree_path H ys j = sibling_step ys j @ tree_path H (pair_up H ys) (j div 2)"
      if "j < length ys" "length ys < length xs" for ys j
    proof (cases "length ys = 1")
      case True
      with that show ?thesis by (auto simp: length_Suc_conv sibling_step_def)
    next
      case False
      with that have "2 \<le> length ys" by simp
      with that show ?thesis using less.hyps by blast
    qed
    have R: "tree_root H (pair_up H ys) = tree_root H ys" if "0 < length ys" for ys
      using that tree_root_pair_up [of ys H]
      by (cases rule: nonempty_list_cases [of ys]) simp_all
    have l: "2 \<le> length (pair_up H xs)" using n by simp
    have half: "i div 2 < ?k div 2 \<longleftrightarrow> i < ?k" using k(1) by auto
    have sub: "(i - ?k) div 2 = i div 2 - ?k div 2" if "?k \<le> i" using k(1) that by auto
    show ?thesis
    proof (cases "i < ?k")
      case True
      with IH [of i "take ?k xs"] k show ?thesis
        by (simp add: tree_path_split [OF less.prems(1)] tree_path_split [OF l] Let_def half R
            sibling_step_take flip: pair_up_take pair_up_drop)
    next
      case False
      with IH [of "i - ?k" "drop ?k xs"] k less.prems show ?thesis
        by (simp add: tree_path_split [OF less.prems(1)] tree_path_split [OF l] Let_def half R sub
            sibling_step_drop flip: pair_up_take pair_up_drop)
    qed
  qed
qed

lemma level_pairs_append:
  "even (length xs) \<Longrightarrow> level_pairs (xs @ ys) = level_pairs xs @ level_pairs ys"
  by (induction xs rule: level_pairs.induct) auto

lemma tree_nodes_pair_up:
  "2 \<le> length xs \<Longrightarrow>
     set (tree_nodes H xs) = set (level_pairs xs) \<union> set (tree_nodes H (pair_up H xs))"
proof (induction "length xs" arbitrary: xs rule: less_induct)
  case less
  show ?case
  proof (cases "length xs = 2")
    case True
    then obtain a b where "xs = [a, b]" by (auto simp: numeral_2_eq_2 length_Suc_conv)
    then show ?thesis by simp
  next
    case False
    with less.prems have n: "3 \<le> length xs" by simp
    let ?k = "largestPowerOfTwoLessThan (length xs)"
    note k = lp2_even [OF n] lp2_less [OF less.prems]
    have IH: "set (tree_nodes H ys) = set (level_pairs ys) \<union> set (tree_nodes H (pair_up H ys))"
      if "0 < length ys" "length ys < length xs" for ys
      using that less.hyps [of ys] by (cases rule: nonempty_list_cases [of ys]) simp_all
    have R: "tree_root H (pair_up H ys) = tree_root H ys" if "0 < length ys" for ys
      using that tree_root_pair_up [of ys H]
      by (cases rule: nonempty_list_cases [of ys]) simp_all
    have l: "2 \<le> length (pair_up H xs)" using n by simp
    have "level_pairs (take ?k xs @ drop ?k xs) = level_pairs (take ?k xs) @ level_pairs (drop ?k xs)"
      using k by (intro level_pairs_append) simp
    then have "set (level_pairs xs) = set (level_pairs (take ?k xs)) \<union> set (level_pairs (drop ?k xs))"
      by simp
    with IH [of "take ?k xs"] IH [of "drop ?k xs"] k show ?thesis
      by (simp add: tree_nodes_split [OF less.prems] tree_nodes_split [OF l] Let_def R
          ac_simps flip: pair_up_take pair_up_drop)
  qed
qed

lemma level_pairs_nth:
  "2 * i + 1 < length xs \<Longrightarrow> (xs ! (2 * i), xs ! (2 * i + 1)) \<in> set (level_pairs xs)"
proof (induction xs arbitrary: i rule: level_pairs.induct)
  case (1 a b xs)
  then show ?case by (cases i) auto
qed auto

end
