(* ===== verification/Tree_Proofs.thy ===== *)
theory Tree_Proofs
  imports Pairing
begin

text \<open>
  The two verification loops over a hash tree, for any node combiner \<open>H\<close>: the walk that
  checks an inclusion path and the walk that checks a consistency proof, with the prover's
  side of the consistency proof. Completeness: what the prover builds is accepted. Soundness:
  an accepted proof is the tree's own, or the walk and the tree combined two different pairs
  into the same node.
\<close>

section \<open>The loops\<close>

text \<open>\<open>while (!lsb(fn) && fn !== 0) { fn = shr(fn); sn = shr(sn); }\<close>\<close>

function skip_even :: "nat \<Rightarrow> nat \<Rightarrow> nat \<times> nat" where
  "skip_even fn sn = (if even fn \<and> fn \<noteq> 0 then skip_even (fn div 2) (sn div 2) else (fn, sn))"
  by pat_completeness auto
termination
  by (relation "measure fst") auto

text \<open>\<open>while (lsb(fn)) { fn = shr(fn); sn = shr(sn); }\<close>\<close>

function skip_odd :: "nat \<Rightarrow> nat \<Rightarrow> nat \<times> nat" where
  "skip_odd fn sn = (if odd fn then skip_odd (fn div 2) (sn div 2) else (fn, sn))"
  by pat_completeness auto
termination
  by (relation "measure fst") (auto elim: oddE)

declare skip_even.simps [simp del] skip_odd.simps [simp del]

text \<open>
  The body of the inclusion walk. \<open>None\<close> is the exit with \<open>proof_too_long\<close>; otherwise
  the final \<open>sn\<close> and the reconstructed root.
\<close>

fun incl_loop :: "('h \<Rightarrow> 'h \<Rightarrow> 'h) \<Rightarrow> nat \<Rightarrow> nat \<Rightarrow> 'h \<Rightarrow> 'h list \<Rightarrow> (nat \<times> 'h) option" where
  "incl_loop H fn sn r [] = Some (sn, r)"
| "incl_loop H fn sn r (p # ps) =
     (if sn = 0 then None
      else if odd fn \<or> fn = sn then
        (let (fn', sn') = (if even fn then skip_even fn sn else (fn, sn))
         in incl_loop H (fn' div 2) (sn' div 2) (H p r) ps)
      else incl_loop H (fn div 2) (sn div 2) (H r p) ps)"

text \<open>The pairs of nodes the walk combines.\<close>

fun incl_pairs :: "('h \<Rightarrow> 'h \<Rightarrow> 'h) \<Rightarrow> nat \<Rightarrow> nat \<Rightarrow> 'h \<Rightarrow> 'h list \<Rightarrow> ('h \<times> 'h) list" where
  "incl_pairs H fn sn r [] = []"
| "incl_pairs H fn sn r (p # ps) =
     (if sn = 0 then []
      else if odd fn \<or> fn = sn then
        (let (fn', sn') = (if even fn then skip_even fn sn else (fn, sn))
         in (p, r) # incl_pairs H (fn' div 2) (sn' div 2) (H p r) ps)
      else (r, p) # incl_pairs H (fn div 2) (sn div 2) (H r p) ps)"

text \<open>The consistency walk carries the old root \<open>fr\<close> and the new root \<open>sr\<close>.\<close>

fun cons_loop :: "('h \<Rightarrow> 'h \<Rightarrow> 'h) \<Rightarrow> nat \<Rightarrow> nat \<Rightarrow> 'h \<Rightarrow> 'h \<Rightarrow> 'h list \<Rightarrow> (nat \<times> 'h \<times> 'h) option" where
  "cons_loop H fn sn fr sr [] = Some (sn, fr, sr)"
| "cons_loop H fn sn fr sr (c # cs) =
     (if sn = 0 then None
      else if odd fn \<or> fn = sn then
        (let (fn', sn') = (if even fn then skip_even fn sn else (fn, sn))
         in cons_loop H (fn' div 2) (sn' div 2) (H c fr) (H c sr) cs)
      else cons_loop H (fn div 2) (sn div 2) fr (H sr c) cs)"

lemma cons_loop_incl_loop:
  "map_option (\<lambda>(s, f, r). (s, r)) (cons_loop H fn sn fr sr cs) = incl_loop H fn sn sr cs"
  by (induction H fn sn fr sr cs rule: cons_loop.induct) (auto split: prod.splits)

text \<open>An even last node has no sibling on its level: the walk skips the level.\<close>

lemma skip_even_half: "even i \<Longrightarrow> i \<noteq> 0 \<Longrightarrow> skip_even i j = skip_even (i div 2) (j div 2)"
  by (subst skip_even.simps) simp

lemma skip_even_odd [simp]: "odd i \<Longrightarrow> skip_even i j = (i, j)"
  by (subst skip_even.simps) simp

lemma incl_loop_promoted:
  "even i \<Longrightarrow> i \<noteq> 0 \<Longrightarrow> incl_loop H i i r (p # ps) = incl_loop H (i div 2) (i div 2) r (p # ps)"
  by (cases "even (i div 2)") (auto simp: skip_even_half elim!: evenE)

lemma incl_pairs_promoted:
  "even i \<Longrightarrow> i \<noteq> 0 \<Longrightarrow> incl_pairs H i i r (p # ps) = incl_pairs H (i div 2) (i div 2) r (p # ps)"
  by (cases "even (i div 2)") (auto simp: skip_even_half elim!: evenE)

lemma cons_loop_promoted:
  "even i \<Longrightarrow> i \<noteq> 0 \<Longrightarrow>
     cons_loop H i i fr sr (c # cs) = cons_loop H (i div 2) (i div 2) fr sr (c # cs)"
  by (cases "even (i div 2)") (auto simp: skip_even_half elim!: evenE)

text \<open>The sizes of the next level.\<close>

lemma next_level:
  "2 \<le> n \<Longrightarrow> Suc n div 2 - Suc 0 = (n - Suc 0) div (2::nat)"
  by simp

lemma next_index: "i < n \<Longrightarrow> i div 2 < (n + 1) div (2::nat)"
  by simp

lemma tree_path_nonempty: "2 \<le> length xs \<Longrightarrow> tree_path H xs i \<noteq> []"
  by (simp add: tree_path_split Let_def)

section \<open>Completeness of the walks\<close>

text \<open>
  The consistency walk along the path of node \<open>j\<close> computes the root of the whole level
  \<open>ys\<close> and the root of the level \<open>zs\<close> that stops at \<open>j\<close>.
\<close>

lemma cons_loop_complete:
  "j < length ys \<Longrightarrow> length zs = j + 1 \<Longrightarrow> (\<And>i. i < j \<Longrightarrow> zs ! i = ys ! i) \<Longrightarrow>
     cons_loop H j (length ys - 1) (zs ! j) (ys ! j) (tree_path H ys j) =
       Some (0, tree_root H zs, tree_root H ys)"
proof (induction "length ys" arbitrary: ys zs j rule: less_induct)
  case less
  from less.prems(1) have "0 < length ys" by linarith
  then show ?case
  proof (cases rule: nonempty_list_cases)
    case (single y)
    with less.prems show ?thesis by (auto simp: length_Suc_conv)
  next
    case more
    let ?ys = "pair_up H ys" and ?zs = "pair_up H zs" and ?j = "j div 2"
    have Rz: "tree_root H ?zs = tree_root H zs"
    proof -
      have "0 < length zs" using less.prems(2) by simp
      then show ?thesis
        by (cases rule: nonempty_list_cases) (simp_all add: tree_root_pair_up)
    qed
    have Ry: "tree_root H ?ys = tree_root H ys" using more by (rule tree_root_pair_up)
    have eq: "?zs ! i = ?ys ! i" if "i < ?j" for i
    proof -
      from that have "2 * i + 1 < j" "2 * i < j" by auto
      with less.prems show ?thesis by (simp add: pair_up_nth)
    qed
    have IH: "cons_loop H ?j ((length ys - 1) div 2) (?zs ! ?j) (?ys ! ?j) (tree_path H ?ys ?j) =
        Some (0, tree_root H zs, tree_root H ys)"
      using less.hyps [of ?ys ?j ?zs] more less.prems eq
      by (simp add: Rz Ry next_level next_index)
    note path = tree_path_pair_up [OF more less.prems(1), of H]
    consider (odd) "odd j" | (last) "even j" "j = length ys - 1" | (inner) "even j" "j + 1 < length ys"
      using less.prems(1) by fastforce
    then show ?thesis
    proof cases
      case odd
      then obtain i where i: "j = 2 * i + 1" by (elim oddE)
      with less.prems IH path odd show ?thesis
        by (simp add: sibling_step_def pair_up_nth)
    next
      case last
      then obtain i where i: "j = 2 * i" by (elim evenE)
      from last more have j: "j \<noteq> 0" "3 \<le> length ys" by presburger+
      then have l2: "2 \<le> length ?ys" by simp
      then obtain c cs where p: "tree_path H ?ys ?j = c # cs"
        using tree_path_nonempty [OF l2, of H ?j] by (auto simp: neq_Nil_conv)
      have "?zs ! i = zs ! j" "?ys ! i = ys ! j"
        using i last j less.prems by (simp_all add: pair_up_nth_last)
      then have "cons_loop H ?j (j div 2) (zs ! j) (ys ! j) (c # cs) =
          Some (0, tree_root H zs, tree_root H ys)"
        using IH p i last(2) by simp
      then have "cons_loop H j j (zs ! j) (ys ! j) (c # cs) =
          Some (0, tree_root H zs, tree_root H ys)"
        using cons_loop_promoted [OF last(1) j(1), of H "zs ! j" "ys ! j" c cs] by (simp only:)
      moreover have "tree_path H ys j = c # cs"
        using path p last by (simp add: sibling_step_def)
      ultimately show ?thesis using last(2) by (simp only:)
    next
      case inner
      then obtain i where i: "j = 2 * i" by (elim evenE)
      have "?zs ! i = zs ! j" "?ys ! i = H (ys ! j) (ys ! (j + 1))"
        using i inner less.prems by (simp_all add: pair_up_nth_last pair_up_nth)
      moreover have "j \<noteq> length ys - 1" "length ys - 1 \<noteq> 0" using inner by auto
      ultimately show ?thesis using inner i IH path
        by (simp add: sibling_step_def)
    qed
  qed
qed

lemma incl_loop_complete:
  assumes "i < length xs"
  shows "incl_loop H i (length xs - 1) (xs ! i) (tree_path H xs i) = Some (0, tree_root H xs)"
proof -
  have "cons_loop H i (length xs - 1) (take (i + 1) xs ! i) (xs ! i) (tree_path H xs i) =
      Some (0, tree_root H (take (i + 1) xs), tree_root H xs)"
    using assms by (intro cons_loop_complete) auto
  then show ?thesis
    using cons_loop_incl_loop [of H i "length xs - 1" "take (i + 1) xs ! i" "xs ! i" "tree_path H xs i"]
    by simp
qed

section \<open>Soundness of the inclusion walk\<close>

definition node_clash :: "('h \<Rightarrow> 'h \<Rightarrow> 'h) \<Rightarrow> ('h \<times> 'h) list \<Rightarrow> ('h \<times> 'h) list \<Rightarrow> bool" where
  "node_clash H ps qs \<longleftrightarrow>
     (\<exists>p \<in> set ps. \<exists>q \<in> set qs. p \<noteq> q \<and> H (fst p) (snd p) = H (fst q) (snd q))"

lemma node_clash_mono:
  "node_clash H ps qs \<Longrightarrow> set ps \<subseteq> set ps' \<Longrightarrow> set qs \<subseteq> set qs' \<Longrightarrow> node_clash H ps' qs'"
  unfolding node_clash_def by (meson subsetD)

lemma node_clashI:
  "H a b = H c d \<Longrightarrow> (a, b) \<in> set ps \<Longrightarrow> (c, d) \<in> set qs \<Longrightarrow>
     (a = c \<and> b = d) \<or> node_clash H ps qs"
  by (force simp: node_clash_def)

lemma incl_loop_sound:
  "i < length xs \<Longrightarrow> incl_loop H i (length xs - 1) h ps = Some (0, tree_root H xs) \<Longrightarrow>
     (h = xs ! i \<and> ps = tree_path H xs i) \<or>
     node_clash H (incl_pairs H i (length xs - 1) h ps) (tree_nodes H xs)"
proof (induction "length xs" arbitrary: xs i h ps rule: less_induct)
  case less
  from less.prems(1) have "0 < length xs" by linarith
  then show ?case
  proof (cases rule: nonempty_list_cases)
    case (single x)
    with less.prems show ?thesis by (cases ps) auto
  next
    case more
    let ?xs = "pair_up H xs" and ?i = "i div 2"
    have Rx: "tree_root H ?xs = tree_root H xs" using more by (rule tree_root_pair_up)
    have sub: "set (tree_nodes H ?xs) \<subseteq> set (tree_nodes H xs)"
      "set (level_pairs xs) \<subseteq> set (tree_nodes H xs)"
      using tree_nodes_pair_up [OF more, of H] by auto
    have IH: "(h' = ?xs ! ?i \<and> ps' = tree_path H ?xs ?i) \<or>
        node_clash H (incl_pairs H ?i ((length xs - 1) div 2) h' ps') (tree_nodes H xs)"
      if "incl_loop H ?i ((length xs - 1) div 2) h' ps' = Some (0, tree_root H xs)" for h' ps'
    proof -
      have "(h' = ?xs ! ?i \<and> ps' = tree_path H ?xs ?i) \<or>
          node_clash H (incl_pairs H ?i ((length xs - 1) div 2) h' ps') (tree_nodes H ?xs)"
        using less.hyps [of ?xs ?i h' ps'] more less.prems(1) that
        by (simp add: Rx next_level next_index)
      with sub show ?thesis by (blast intro: node_clash_mono)
    qed
    note path = tree_path_pair_up [OF more less.prems(1), of H]
    obtain p ps' where ps: "ps = p # ps'"
      using less.prems more by (cases ps) auto
    consider (odd) "odd i" | (last) "even i" "i = length xs - 1" | (inner) "even i" "i + 1 < length xs"
      using less.prems(1) by fastforce
    then show ?thesis
    proof cases
      case odd
      then obtain j where j: "i = 2 * j + 1" by (elim oddE)
      have walk: "incl_pairs H i (length xs - 1) h ps =
          (p, h) # incl_pairs H ?i ((length xs - 1) div 2) (H p h) ps'"
        using odd ps more by simp
      have "incl_loop H ?i ((length xs - 1) div 2) (H p h) ps' = Some (0, tree_root H xs)"
        using less.prems(2) odd ps more by simp
      from IH [OF this] show ?thesis
      proof
        assume c: "H p h = ?xs ! ?i \<and> ps' = tree_path H ?xs ?i"
        with j less.prems have "H p h = H (xs ! (2 * j)) (xs ! (2 * j + 1))"
          by (simp add: pair_up_nth)
        then have "(p = xs ! (2 * j) \<and> h = xs ! (2 * j + 1)) \<or>
            node_clash H (incl_pairs H i (length xs - 1) h ps) (tree_nodes H xs)"
          using walk sub(2) level_pairs_nth [of j xs] j less.prems by (intro node_clashI) auto
        with c path ps j odd show ?thesis by (auto simp: sibling_step_def)
      next
        assume "node_clash H (incl_pairs H ?i ((length xs - 1) div 2) (H p h) ps') (tree_nodes H xs)"
        then show ?thesis unfolding walk by (intro disjI2) (auto elim: node_clash_mono)
      qed
    next
      case last
      then obtain j where j: "i = 2 * j" by (elim evenE)
      from last more have i: "i \<noteq> 0" by auto
      have "incl_loop H ?i ((length xs - 1) div 2) h ps = Some (0, tree_root H xs)"
        using less.prems(2) last i ps by (simp add: incl_loop_promoted del: incl_loop.simps)
      moreover have "incl_pairs H i (length xs - 1) h ps = incl_pairs H ?i ((length xs - 1) div 2) h ps"
        using last i ps by (simp add: incl_pairs_promoted del: incl_pairs.simps)
      moreover have "?xs ! ?i = xs ! i" "sibling_step xs i = []"
        using last j i less.prems(1) by (simp_all add: pair_up_nth_last sibling_step_def)
      ultimately show ?thesis using IH [of h ps] path by simp
    next
      case inner
      then obtain j where j: "i = 2 * j" by (elim evenE)
      have "i \<noteq> length xs - 1" using inner by auto
      then have walk: "incl_pairs H i (length xs - 1) h ps =
          (h, p) # incl_pairs H ?i ((length xs - 1) div 2) (H h p) ps'"
        using inner ps more by simp
      have "incl_loop H ?i ((length xs - 1) div 2) (H h p) ps' = Some (0, tree_root H xs)"
        using less.prems(2) inner \<open>i \<noteq> length xs - 1\<close> ps more by simp
      from IH [OF this] show ?thesis
      proof
        assume c: "H h p = ?xs ! ?i \<and> ps' = tree_path H ?xs ?i"
        with j inner have "H h p = H (xs ! (2 * j)) (xs ! (2 * j + 1))"
          by (simp add: pair_up_nth)
        then have "(h = xs ! (2 * j) \<and> p = xs ! (2 * j + 1)) \<or>
            node_clash H (incl_pairs H i (length xs - 1) h ps) (tree_nodes H xs)"
          using walk sub(2) level_pairs_nth [of j xs] j inner by (intro node_clashI) auto
        with c path ps j inner show ?thesis by (auto simp: sibling_step_def)
      next
        assume "node_clash H (incl_pairs H ?i ((length xs - 1) div 2) (H h p) ps') (tree_nodes H xs)"
        then show ?thesis unfolding walk by (intro disjI2) (auto elim: node_clash_mono)
      qed
    qed
  qed
qed

lemma length_tree_path: "length xs \<le> 2 ^ d \<Longrightarrow> i < length xs \<Longrightarrow> length (tree_path H xs i) \<le> d"
proof (induction d arbitrary: xs i)
  case 0
  then have "0 < length xs" by linarith
  then show ?case using 0 by (cases rule: nonempty_list_cases) simp_all
next
  case (Suc d)
  from Suc.prems have "0 < length xs" by linarith
  then show ?case
  proof (cases rule: nonempty_list_cases)
    case more
    have "length (tree_path H (pair_up H xs) (i div 2)) \<le> d"
      using Suc.prems by (intro Suc.IH) auto
    moreover have "length (sibling_step xs i) \<le> 1" by (simp add: sibling_step_def)
    ultimately show ?thesis using tree_path_pair_up [OF more Suc.prems(2), of H] by simp
  qed simp
qed

section \<open>Consistency proofs\<close>

text \<open>
  \<open>subproof\<close> on the node list of a tree: \<open>m\<close> leaves of the \<open>length xs\<close>. The guard
  on lists below two nodes is never reached from \<open>0 < m \<le> length xs\<close>.
\<close>

function tree_subproof :: "('h \<Rightarrow> 'h \<Rightarrow> 'h) \<Rightarrow> 'h list \<Rightarrow> nat \<Rightarrow> bool \<Rightarrow> 'h list" where
  "tree_subproof H xs m known =
     (if m = length xs \<or> length xs < 2 then (if known then [] else [tree_root H xs])
      else let k = largestPowerOfTwoLessThan (length xs)
           in if m \<le> k then tree_subproof H (take k xs) m known @ [tree_root H (drop k xs)]
              else tree_subproof H (drop k xs) (m - k) False @ [tree_root H (take k xs)])"
  by pat_completeness auto
termination
  by (relation "measure (\<lambda>(H, xs, m, b). length xs)") (auto simp: lp2_less lp2_diff)

declare tree_subproof.simps [simp del]

lemma tree_subproof_all [simp]:
  "tree_subproof H xs (length xs) known = (if known then [] else [tree_root H xs])"
  by (subst tree_subproof.simps) simp

lemma tree_subproof_split:
  "m < length xs \<Longrightarrow> 0 < m \<Longrightarrow> tree_subproof H xs m known =
     (let k = largestPowerOfTwoLessThan (length xs)
      in if m \<le> k then tree_subproof H (take k xs) m known @ [tree_root H (drop k xs)]
         else tree_subproof H (drop k xs) (m - k) False @ [tree_root H (take k xs)])"
  by (subst tree_subproof.simps) auto

definition is_pow2 :: "nat \<Rightarrow> bool" where
  "is_pow2 m \<longleftrightarrow> (\<exists>i. m = 2 ^ i)"

lemma is_pow2_one [simp]: "is_pow2 1" "is_pow2 (Suc 0)"
  by (auto simp: is_pow2_def intro: exI [of _ 0])

lemma is_pow2_even: "even m \<Longrightarrow> 0 < m \<Longrightarrow> is_pow2 m \<longleftrightarrow> is_pow2 (m div 2)"
proof
  assume a: "even m" "0 < m" "is_pow2 m"
  then obtain i where "m = 2 ^ i" by (auto simp: is_pow2_def)
  with a show "is_pow2 (m div 2)" by (cases i) (auto simp: is_pow2_def)
next
  assume a: "even m" "0 < m" "is_pow2 (m div 2)"
  then obtain i where "m div 2 = 2 ^ i" by (auto simp: is_pow2_def)
  with a have "m = 2 ^ Suc i" by auto
  then show "is_pow2 m" unfolding is_pow2_def by blast
qed

lemma is_pow2_odd: "odd m \<Longrightarrow> is_pow2 m \<longleftrightarrow> m = 1"
proof
  assume "odd m" "is_pow2 m"
  then obtain i where "m = 2 ^ i" by (auto simp: is_pow2_def)
  with \<open>odd m\<close> show "m = 1" by (cases i) auto
qed simp

lemma lp2_is_pow2: "2 \<le> n \<Longrightarrow> is_pow2 (largestPowerOfTwoLessThan n)"
  by (erule lp2_spec) (auto simp: is_pow2_def)

lemma tree_subproof_odd:
  "odd m \<Longrightarrow> m < length xs \<or> m = length xs \<and> m = 1 \<Longrightarrow>
     tree_subproof H xs m b =
       (if b \<and> m = 1 then [] else [xs ! (m - 1)]) @ tree_path H xs (m - 1)"
proof (induction "length xs" arbitrary: xs m b rule: less_induct)
  case less
  show ?case
  proof (cases "m = length xs")
    case True
    with less.prems obtain x where "xs = [x]" by (auto simp: length_Suc_conv)
    with True show ?thesis using tree_subproof_all [of H "[x]" b] by simp
  next
    case False
    with less.prems have m: "m < length xs" "0 < m" by (auto elim: oddE)
    then have n: "2 \<le> length xs" by simp
    let ?k = "largestPowerOfTwoLessThan (length xs)"
    note k = lp2_less [OF n] lp2_pos [OF n]
    note split = tree_subproof_split [OF m]
    have k1: "length xs = 2 \<and> ?k = 1 \<or> even ?k"
      using lp2_even(1) [of "length xs"] n by (cases "length xs = 2") auto
    show ?thesis
    proof (cases "m \<le> ?k")
      case True
      with k1 less.prems have "m < ?k \<or> m = ?k \<and> m = 1" by auto
      then have "tree_subproof H (take ?k xs) m b =
          (if b \<and> m = 1 then [] else [take ?k xs ! (m - 1)]) @ tree_path H (take ?k xs) (m - 1)"
        using k less.prems(1) by (intro less.hyps) auto
      moreover have "m - 1 < ?k" using True m by simp
      ultimately show ?thesis
        using True by (simp only: split tree_path_split [OF n] Let_def if_True nth_take append_assoc)
    next
      case False
      with k1 m less.prems have "even ?k" by auto
      with False less.prems have "odd (m - ?k)" by simp
      moreover have "m - ?k - 1 = m - 1 - ?k" "m \<noteq> 1" "\<not> m - 1 < ?k" "?k + (m - ?k - 1) = m - 1"
        using False k by auto
      moreover have "tree_subproof H (drop ?k xs) (m - ?k) False =
          [drop ?k xs ! (m - ?k - 1)] @ tree_path H (drop ?k xs) (m - ?k - 1)"
      proof -
        have "m - ?k < length (drop ?k xs)" "length (drop ?k xs) < length xs"
          using False k m by auto
        with less.hyps [of "drop ?k xs" "m - ?k" False] \<open>odd (m - ?k)\<close> show ?thesis
          by (simp only: simp_thms if_False)
      qed
      moreover have "drop ?k xs ! (m - ?k - 1) = xs ! (m - 1)"
        using calculation k m by (simp only: nth_drop less_imp_le)
      ultimately show ?thesis
        using False m by (simp add: split tree_path_split [OF n] Let_def)
    qed
  qed
qed

lemma tree_subproof_even:
  "even m \<Longrightarrow> 0 < m \<Longrightarrow> m < length xs \<or> m = length xs \<and> is_pow2 m \<Longrightarrow>
     tree_subproof H xs m b = tree_subproof H (pair_up H xs) (m div 2) b"
proof (induction "length xs" arbitrary: xs m b rule: less_induct)
  case less
  have R: "tree_root H (pair_up H ys) = tree_root H ys" if "0 < length ys" for ys
    using that tree_root_pair_up [of ys H]
    by (cases rule: nonempty_list_cases [of ys]) simp_all
  show ?case
  proof (cases "m = length xs")
    case True
    with less.prems have h: "m div 2 = length (pair_up H xs)" by auto
    have "tree_root H (pair_up H xs) = tree_root H xs"
      using True less.prems by (intro R) simp
    then show ?thesis unfolding h using True by (simp del: length_pair_up)
  next
    case False
    with less.prems have m: "m < length xs" "0 < m" by auto
    with \<open>even m\<close> have n: "3 \<le> length xs" by (auto elim!: evenE)
    then have n2: "2 \<le> length xs" by simp
    let ?k = "largestPowerOfTwoLessThan (length xs)"
    note k = lp2_even [OF n] lp2_less [OF n2] lp2_is_pow2 [OF n2]
    have half: "m div 2 \<le> ?k div 2 \<longleftrightarrow> m \<le> ?k" using k(1) less.prems(1) by (auto elim!: evenE)
    have m2: "m div 2 < length (pair_up H xs)" "0 < m div 2"
      using m less.prems(1) by (auto elim!: evenE)
    note split = tree_subproof_split [OF m] tree_subproof_split [OF m2]
    show ?thesis
    proof (cases "m \<le> ?k")
      case True
      then have "tree_subproof H (take ?k xs) m b =
          tree_subproof H (pair_up H (take ?k xs)) (m div 2) b"
        using k m less.prems(1) by (intro less.hyps) (auto simp: le_less)
      with True k show ?thesis
        by (simp add: split Let_def half R flip: pair_up_take pair_up_drop)
    next
      case False
      have "(m - ?k) div 2 = m div 2 - ?k div 2" "even (m - ?k)"
        using False k(1) less.prems(1) by (auto elim!: evenE)
      moreover from this have "tree_subproof H (drop ?k xs) (m - ?k) False =
          tree_subproof H (pair_up H (drop ?k xs)) ((m - ?k) div 2) False"
        using k m False by (intro less.hyps) auto
      ultimately show ?thesis using False k
        by (simp add: split Let_def half R flip: pair_up_take pair_up_drop)
    qed
  qed
qed

text \<open>
  The check on a list of nodes: the first node seeds both roots, and the walk starts at
  the level where the old tree's last complete subtree ends.
\<close>

definition cons_check :: "('h \<Rightarrow> 'h \<Rightarrow> 'h) \<Rightarrow> nat \<Rightarrow> nat \<Rightarrow> 'h list \<Rightarrow> (nat \<times> 'h \<times> 'h) option" where
  "cons_check H m n nodes =
     (let (fn, sn) = skip_odd (m - 1) (n - 1)
      in cons_loop H fn sn (hd nodes) (hd nodes) (tl nodes))"

definition cons_pairs :: "('h \<Rightarrow> 'h \<Rightarrow> 'h) \<Rightarrow> nat \<Rightarrow> nat \<Rightarrow> 'h list \<Rightarrow> ('h \<times> 'h) list" where
  "cons_pairs H m n nodes =
     (let (fn, sn) = skip_odd (m - 1) (n - 1)
      in incl_pairs H fn sn (hd nodes) (tl nodes))"

lemma skip_odd_even [simp]: "even i \<Longrightarrow> skip_odd i j = (i, j)"
  by (subst skip_odd.simps) simp

lemma skip_odd_half:
  assumes "even m" "0 < m" "m < n"
  shows "skip_odd (m - 1) (n - 1) = skip_odd (m div 2 - 1) ((n + 1) div 2 - 1)"
proof -
  from assms obtain k where k: "m = 2 * k" "0 < k" by (auto elim!: evenE)
  then have "(m - 1) div 2 = m div 2 - 1" "odd (m - 1)" by auto
  moreover have "(n - 1) div 2 = (n + 1) div 2 - 1" using assms by simp
  ultimately show ?thesis by (subst skip_odd.simps) simp
qed

lemma take_root_pair_up:
  assumes "even m" "0 < m" "m \<le> length xs"
  shows "tree_root H (take (m div 2) (pair_up H xs)) = tree_root H (take m xs)"
proof -
  from assms have "2 \<le> length (take m xs)" by (auto elim!: evenE)
  then show ?thesis using assms(1) tree_root_pair_up [of "take m xs" H]
    by (simp add: pair_up_take)
qed

lemma cons_check_complete:
  "0 < m \<Longrightarrow> m < length xs \<Longrightarrow>
     cons_check H m (length xs)
       ((if is_pow2 m then [tree_root H (take m xs)] else []) @ tree_subproof H xs m True) =
     Some (0, tree_root H (take m xs), tree_root H xs)"
proof (induction m arbitrary: xs rule: less_induct)
  case (less m)
  show ?case
  proof (cases "even m")
    case True
    with less.prems have m: "m div 2 < m" "0 < m div 2" "m div 2 < length (pair_up H xs)"
      by (auto elim!: evenE)
    have n: "2 \<le> length xs" using less.prems by simp
    note eqs = skip_odd_half [OF True less.prems] is_pow2_even [OF True less.prems(1)]
      take_root_pair_up [OF True less.prems(1) less_imp_le [OF less.prems(2)], of H]
      tree_subproof_even [OF True less.prems(1) disjI1 [OF less.prems(2)], of H True]
    from less.IH [OF m] n show ?thesis
      unfolding cons_check_def eqs by (simp add: tree_root_pair_up)
  next
    case False
    then have sk: "skip_odd (m - 1) (length xs - 1) = (m - 1, length xs - 1)" by simp
    have walk: "cons_loop H (m - 1) (length xs - 1) (xs ! (m - 1)) (xs ! (m - 1))
        (tree_path H xs (m - 1)) = Some (0, tree_root H (take m xs), tree_root H xs)"
      using cons_loop_complete [of "m - 1" xs "take m xs" H] less.prems by simp
    have "take 1 xs = [xs ! 0]" using less.prems by (cases xs) auto
    with walk sk False less.prems show ?thesis
      by (cases "m = 1") (simp_all add: cons_check_def tree_subproof_odd is_pow2_odd)
  qed
qed

lemma cons_check_sound:
  "0 < m \<Longrightarrow> m < length xs \<Longrightarrow> nodes \<noteq> [] \<Longrightarrow>
     cons_check H m (length xs) nodes = Some (0, r, tree_root H xs) \<Longrightarrow>
     r = tree_root H (take m xs) \<or>
     node_clash H (cons_pairs H m (length xs) nodes) (tree_nodes H xs)"
proof (induction m arbitrary: xs rule: less_induct)
  case (less m)
  show ?case
  proof (cases "even m")
    case True
    with less.prems have m: "m div 2 < m" "0 < m div 2" "m div 2 < length (pair_up H xs)"
      by (auto elim!: evenE)
    have n: "2 \<le> length xs" using less.prems by simp
    note eqs = skip_odd_half [OF True less.prems(1,2)]
      take_root_pair_up [OF True less.prems(1) less_imp_le [OF less.prems(2)], of H]
    have "r = tree_root H (take (m div 2) (pair_up H xs)) \<or>
        node_clash H (cons_pairs H (m div 2) (length (pair_up H xs)) nodes) (tree_nodes H (pair_up H xs))"
      using less.IH [OF m less.prems(3)] less.prems(4) n
      unfolding cons_check_def eqs by (simp add: tree_root_pair_up)
    moreover have "set (tree_nodes H (pair_up H xs)) \<subseteq> set (tree_nodes H xs)"
      using tree_nodes_pair_up [OF n, of H] by blast
    moreover have "cons_pairs H m (length xs) nodes = cons_pairs H (m div 2) (length (pair_up H xs)) nodes"
      unfolding cons_pairs_def eqs by simp
    ultimately show ?thesis using eqs(2) by (auto intro: node_clash_mono)
  next
    case False
    then have sk: "skip_odd (m - 1) (length xs - 1) = (m - 1, length xs - 1)" by simp
    let ?h = "hd nodes" and ?ps = "tl nodes"
    have walk: "cons_loop H (m - 1) (length xs - 1) ?h ?h ?ps = Some (0, r, tree_root H xs)"
      using less.prems(4) sk by (simp add: cons_check_def)
    then have incl: "incl_loop H (m - 1) (length xs - 1) ?h ?ps = Some (0, tree_root H xs)"
      using cons_loop_incl_loop [of H "m - 1" "length xs - 1" ?h ?h ?ps] by simp
    have "m - 1 < length xs" using less.prems by simp
    from incl_loop_sound [OF this incl] consider
        (path) "?h = xs ! (m - 1)" "?ps = tree_path H xs (m - 1)"
      | (clash) "node_clash H (incl_pairs H (m - 1) (length xs - 1) ?h ?ps) (tree_nodes H xs)"
      by (elim disjE conjE)
    then show ?thesis
    proof cases
      case path
      then show ?thesis
        using walk cons_loop_complete [of "m - 1" xs "take m xs" H] less.prems by simp
    next
      case clash
      with sk show ?thesis by (simp add: cons_pairs_def)
    qed
  qed
qed

lemma length_tree_subproof:
  "length xs \<le> 2 ^ d \<Longrightarrow> 0 < m \<Longrightarrow> m < length xs \<Longrightarrow> length (tree_subproof H xs m b) \<le> d + 1"
proof (induction d arbitrary: xs m)
  case 0
  then show ?case by simp
next
  case (Suc d)
  show ?case
  proof (cases "even m")
    case True
    with Suc.prems have "0 < m div 2" "m div 2 < length (pair_up H xs)" by (auto elim!: evenE)
    then have "length (tree_subproof H (pair_up H xs) (m div 2) b) \<le> d + 1"
      using Suc.prems by (intro Suc.IH) auto
    with True Suc.prems show ?thesis by (simp add: tree_subproof_even)
  next
    case False
    have "length (tree_path H xs (m - 1)) \<le> Suc d"
      using Suc.prems by (intro length_tree_path) auto
    with False Suc.prems show ?thesis
      by (cases "m = 1") (simp_all add: tree_subproof_odd)
  qed
qed

lemma tree_subproof_nonempty: "0 < m \<Longrightarrow> m < length xs \<Longrightarrow> tree_subproof H xs m b \<noteq> []"
  by (simp add: tree_subproof_split Let_def)

end
