(* ===== verification/Hash_Domain.thy ===== *)
theory Hash_Domain
  imports Sha256 Tree_Proofs
begin

text \<open>
  The contract between a hash tree and the hash functions it is built from: a leaf and a
  node are digests of inputs that never coincide and that determine what was hashed. The
  lemmas turn a coincidence of nodes in a tree into a pair of colliding SHA-256 inputs, both
  of which were really hashed.
\<close>

definition collision_between :: "bytes list \<Rightarrow> bytes list \<Rightarrow> bool" where
  "collision_between as bs \<longleftrightarrow> (\<exists>x \<in> set as. \<exists>y \<in> set bs. sha_collision x y)"

lemma collision_between_mono:
  "collision_between as bs \<Longrightarrow> set as \<subseteq> set as' \<Longrightarrow> set bs \<subseteq> set bs' \<Longrightarrow> collision_between as' bs'"
  unfolding collision_between_def by (meson subsetD)

lemma collision_betweenI:
  "sha256 x = sha256 y \<Longrightarrow> x \<in> set as \<Longrightarrow> y \<in> set bs \<Longrightarrow> x = y \<or> collision_between as bs"
  by (auto simp: collision_between_def sha_collision_def)

locale tree_hash =
  fixes leaf_in :: "'d \<Rightarrow> bytes"
    and node_in :: "bytes \<Rightarrow> bytes \<Rightarrow> bytes"
    and leaf_h :: "'d \<Rightarrow> bytes"
    and node_h :: "bytes \<Rightarrow> bytes \<Rightarrow> bytes"
  assumes leaf_digest: "leaf_h d = sha256 (leaf_in d)"
    and node_digest: "node_h l r = sha256 (node_in l r)"
    and leaf_in_inject: "leaf_in d = leaf_in d' \<longleftrightarrow> d = d'"
    and node_in_inject: "length l = 32 \<Longrightarrow> length l' = 32 \<Longrightarrow>
          node_in l r = node_in l' r' \<longleftrightarrow> l = l' \<and> r = r'"
    and leaf_not_node: "leaf_in d \<noteq> node_in l r"
begin

lemma leaf_length: "length (leaf_h d) = 32"
  by (simp add: leaf_digest)

lemma node_length: "length (node_h l r) = 32"
  by (simp add: node_digest)

lemma leaf_eqD:
  "leaf_h d = leaf_h d' \<Longrightarrow> leaf_in d \<in> set as \<Longrightarrow> leaf_in d' \<in> set bs \<Longrightarrow>
     d = d' \<or> collision_between as bs"
  by (metis collision_betweenI leaf_digest leaf_in_inject)

lemma node_eqD:
  "node_h l r = node_h l' r' \<Longrightarrow> length l = 32 \<Longrightarrow> length l' = 32 \<Longrightarrow>
     node_in l r \<in> set as \<Longrightarrow> node_in l' r' \<in> set bs \<Longrightarrow>
     (l = l' \<and> r = r') \<or> collision_between as bs"
  by (metis collision_betweenI node_digest node_in_inject)

lemma leaf_node_eqD:
  "leaf_h d = node_h l r \<Longrightarrow> leaf_in d \<in> set as \<Longrightarrow> node_in l r \<in> set bs \<Longrightarrow> collision_between as bs"
  by (metis collision_betweenI leaf_digest leaf_not_node node_digest)

lemma node_clash_collision:
  assumes "node_clash node_h ps qs"
    and "\<And>p. p \<in> set ps \<Longrightarrow> length (fst p) = 32"
    and "\<And>q. q \<in> set qs \<Longrightarrow> length (fst q) = 32"
  shows "collision_between (map (\<lambda>p. node_in (fst p) (snd p)) ps) (map (\<lambda>q. node_in (fst q) (snd q)) qs)"
proof -
  from assms(1) obtain p q where pq: "p \<in> set ps" "q \<in> set qs" "p \<noteq> q"
      "node_h (fst p) (snd p) = node_h (fst q) (snd q)"
    by (auto simp: node_clash_def)
  then have "node_in (fst p) (snd p) \<noteq> node_in (fst q) (snd q)"
    using assms(2,3) by (simp add: node_in_inject prod_eq_iff)
  with pq show ?thesis
    by (force simp: collision_between_def sha_collision_def node_digest)
qed

text \<open>Every node of a tree over 32-byte leaves has 32 bytes.\<close>

lemma tree_root_length:
  "xs \<noteq> [] \<Longrightarrow> (\<And>x. x \<in> set xs \<Longrightarrow> length x = 32) \<Longrightarrow> length (tree_root node_h xs) = 32"
  by (subst tree_root.simps) (auto simp: Let_def node_length)

lemma tree_nodes_length:
  "(\<And>x. x \<in> set xs \<Longrightarrow> length x = 32) \<Longrightarrow> p \<in> set (tree_nodes node_h xs) \<Longrightarrow>
     length (fst p) = 32 \<and> length (snd p) = 32"
proof (induction "length xs" arbitrary: xs rule: less_induct)
  case less
  show ?case
  proof (cases "length xs < 2")
    case True
    with less.prems(2) show ?thesis by (simp add: tree_nodes.simps)
  next
    case False
    then have n: "2 \<le> length xs" by simp
    let ?k = "largestPowerOfTwoLessThan (length xs)"
    have k: "0 < ?k" "?k < length xs" using n by (simp_all add: lp2_pos lp2_less)
    have parts: "\<And>x. x \<in> set (take ?k xs) \<Longrightarrow> length x = 32"
      "\<And>x. x \<in> set (drop ?k xs) \<Longrightarrow> length x = 32"
      using less.prems(1) by (auto dest: in_set_takeD in_set_dropD)
    have roots: "length (tree_root node_h (take ?k xs)) = 32"
      "length (tree_root node_h (drop ?k xs)) = 32"
      using k parts by (auto intro!: tree_root_length)
    from less.prems(2) consider "p = (tree_root node_h (take ?k xs), tree_root node_h (drop ?k xs))"
      | "p \<in> set (tree_nodes node_h (take ?k xs))" | "p \<in> set (tree_nodes node_h (drop ?k xs))"
      by (auto simp: tree_nodes_split [OF n] Let_def)
    then show ?thesis
    proof cases
      case 1
      with roots show ?thesis by simp
    next
      case 2
      then show ?thesis using less.hyps [of "take ?k xs"] parts k by simp
    next
      case 3
      then show ?thesis using less.hyps [of "drop ?k xs"] parts k by simp
    qed
  qed
qed

lemma tree_path_length:
  "(\<And>x. x \<in> set xs \<Longrightarrow> length x = 32) \<Longrightarrow> i < length xs \<Longrightarrow>
     p \<in> set (tree_path node_h xs i) \<Longrightarrow> length p = 32"
proof (induction "length xs" arbitrary: xs i rule: less_induct)
  case less
  show ?case
  proof (cases "length xs < 2")
    case True
    with less.prems(3) show ?thesis by (simp add: tree_path.simps)
  next
    case False
    then have n: "2 \<le> length xs" by simp
    let ?k = "largestPowerOfTwoLessThan (length xs)"
    have k: "0 < ?k" "?k < length xs" using n by (simp_all add: lp2_pos lp2_less)
    have parts: "\<And>x. x \<in> set (take ?k xs) \<Longrightarrow> length x = 32"
      "\<And>x. x \<in> set (drop ?k xs) \<Longrightarrow> length x = 32"
      using less.prems(1) by (auto dest: in_set_takeD in_set_dropD)
    have roots: "length (tree_root node_h (take ?k xs)) = 32"
      "length (tree_root node_h (drop ?k xs)) = 32"
      using k parts by (auto intro!: tree_root_length)
    show ?thesis
    proof (cases "i < ?k")
      case True
      with less.prems(3) roots less.hyps [of "take ?k xs" i] parts k show ?thesis
        by (auto simp: tree_path_split [OF n] Let_def)
    next
      case False
      with less.prems(2,3) roots less.hyps [of "drop ?k xs" "i - ?k"] parts k show ?thesis
        by (auto simp: tree_path_split [OF n] Let_def)
    qed
  qed
qed

lemma tree_subproof_length:
  "(\<And>x. x \<in> set xs \<Longrightarrow> length x = 32) \<Longrightarrow> 0 < m \<Longrightarrow> m \<le> length xs \<Longrightarrow>
     p \<in> set (tree_subproof node_h xs m known) \<Longrightarrow> length p = 32"
proof (induction "length xs" arbitrary: xs m known rule: less_induct)
  case less
  show ?case
  proof (cases "m = length xs")
    case True
    with less.prems tree_root_length [of xs] show ?thesis by (auto split: if_splits)
  next
    case False
    with less.prems have m: "m < length xs" by simp
    then have n: "2 \<le> length xs" using less.prems(2) by simp
    let ?k = "largestPowerOfTwoLessThan (length xs)"
    have k: "0 < ?k" "?k < length xs" using n by (simp_all add: lp2_pos lp2_less)
    have parts: "\<And>x. x \<in> set (take ?k xs) \<Longrightarrow> length x = 32"
      "\<And>x. x \<in> set (drop ?k xs) \<Longrightarrow> length x = 32"
      using less.prems(1) by (auto dest: in_set_takeD in_set_dropD)
    have roots: "length (tree_root node_h (take ?k xs)) = 32"
      "length (tree_root node_h (drop ?k xs)) = 32"
      using k parts by (auto intro!: tree_root_length)
    note split = tree_subproof_split [OF m less.prems(2)]
    show ?thesis
    proof (cases "m \<le> ?k")
      case True
      with less.prems roots less.hyps [of "take ?k xs" m known] parts k show ?thesis
        by (auto simp: split Let_def)
    next
      case False
      with less.prems roots less.hyps [of "drop ?k xs" "m - ?k" False] parts k m show ?thesis
        by (auto simp: split Let_def)
    qed
  qed
qed

lemma incl_pairs_length:
  "length r = 32 \<Longrightarrow> (\<And>p. p \<in> set ps \<Longrightarrow> length p = 32) \<Longrightarrow>
     q \<in> set (incl_pairs node_h fn sn r ps) \<Longrightarrow> length (fst q) = 32 \<and> length (snd q) = 32"
proof (induction ps arbitrary: fn sn r)
  case (Cons p ps)
  from Cons.prems(3) have "q = (p, r) \<or> q = (r, p) \<or>
      (\<exists>a b c d. q \<in> set (incl_pairs node_h a b (node_h c d) ps))"
    by (auto split: if_splits prod.splits)
  then show ?case
    using Cons.prems(1,2) Cons.IH [OF node_length] by fastforce
qed simp

end

end
