(* ===== verification/Merkle.thy ===== *)
theory Merkle
  imports Hash_Domain
begin

text \<open>
  The RFC 9162 Merkle module \<open>packages/cs2-core/merkle/index.js\<close>: tree hash, inclusion and
  consistency proofs and their verifiers, over the untyped values the exported functions
  accept. A result \<open>{ ok: false, reason }\<close> is \<open>Inl reason\<close>, a result \<open>{ ok: true, .. }\<close>
  is \<open>Inr\<close>. JavaScript division by two of a safe integer is exact division of naturals.
\<close>

section \<open>Hashing\<close>

definition EMPTY_ROOT :: bytes where
  "EMPTY_ROOT = sha256 []"

definition hashLeaf :: "bytes \<Rightarrow> bytes" where
  "hashLeaf data = sha256 (0 # data)"

definition hashPair :: "bytes \<Rightarrow> bytes \<Rightarrow> bytes" where
  "hashPair left right = sha256 (1 # left @ right)"

interpretation rfc9162: tree_hash "\<lambda>d. 0 # d" "\<lambda>l r. 1 # l @ r" hashLeaf hashPair
  by unfold_locales (auto simp: hashLeaf_def hashPair_def)

section \<open>Argument checks\<close>

datatype merkle_reason =
    Bad_type | Bad_leaf | Bad_size | Bad_index | Bad_hex | Bad_proof_element | Bad_length
  | Proof_too_long | Proof_too_short | Proof_not_empty | Index_out_of_range
  | Root_mismatch | M_gt_n

abbreviation MAX_TREE_SIZE :: int where
  "MAX_TREE_SIZE \<equiv> max_safe_integer"

definition MAX_PROOF_HASHES :: nat where
  "MAX_PROOF_HASHES = 64"

fun check_leaves :: "jsval list \<Rightarrow> merkle_reason + bytes list" where
  "check_leaves [] = Inr []"
| "check_leaves (JBytes b # vs) =
     (case check_leaves vs of Inl e \<Rightarrow> Inl e | Inr bs \<Rightarrow> Inr (b # bs))"
| "check_leaves (_ # vs) = Inl Bad_leaf"

definition checkEntries :: "jsval \<Rightarrow> merkle_reason + bytes list" where
  "checkEntries entries = (case entries of JArr vs \<Rightarrow> check_leaves vs | _ \<Rightarrow> Inl Bad_type)"

definition checkSize :: "jsval \<Rightarrow> merkle_reason + nat" where
  "checkSize v = (case v of
       JNum x \<Rightarrow>
         (if \<not> is_safe_integer x then Inl Bad_size
          else case x of
              JInt i \<Rightarrow> if i < 0 then Inl Bad_size
                        else if MAX_TREE_SIZE < i then Inl Bad_size else Inr (nat i)
            | _ \<Rightarrow> Inl Bad_size)
     | _ \<Rightarrow> Inl Bad_size)"

definition checkIndex :: "jsval \<Rightarrow> merkle_reason + nat" where
  "checkIndex v = (case v of
       JNum x \<Rightarrow>
         (if \<not> is_safe_integer x then Inl Bad_index
          else case x of
              JInt i \<Rightarrow> if i < 0 then Inl Bad_index else Inr (nat i)
            | _ \<Rightarrow> Inl Bad_index)
     | _ \<Rightarrow> Inl Bad_index)"

definition parseWireHash :: "jsval \<Rightarrow> merkle_reason + bytes" where
  "parseWireHash v = (case v of
       JStr s \<Rightarrow>
         (if \<not> is_hex s then Inl Bad_hex
          else if odd (length s) then Inl Bad_proof_element
          else case of_hex s of
              None \<Rightarrow> Inl Bad_hex
            | Some raw \<Rightarrow> if length raw \<noteq> 32 then Inl Bad_proof_element else Inr raw)
     | _ \<Rightarrow> Inl Bad_hex)"

fun parse_nodes :: "jsval list \<Rightarrow> merkle_reason + bytes list" where
  "parse_nodes [] = Inr []"
| "parse_nodes (v # vs) =
     (case parseWireHash v of
        Inl e \<Rightarrow> Inl e
      | Inr h \<Rightarrow> (case parse_nodes vs of Inl e \<Rightarrow> Inl e | Inr hs \<Rightarrow> Inr (h # hs)))"

definition parseProof :: "jsval \<Rightarrow> merkle_reason + bytes list" where
  "parseProof v = (case v of
       JArr vs \<Rightarrow> if MAX_PROOF_HASHES < length vs then Inl Proof_too_long else parse_nodes vs
     | _ \<Rightarrow> Inl Bad_type)"

definition leafHash :: "jsval \<Rightarrow> merkle_reason + bytes" where
  "leafHash v = (case v of JBytes data \<Rightarrow> Inr (hashLeaf data) | _ \<Rightarrow> Inl Bad_leaf)"

definition nodeHash :: "jsval \<Rightarrow> jsval \<Rightarrow> merkle_reason + bytes" where
  "nodeHash left right = (case left of
       JBytes l \<Rightarrow>
         (if length l \<noteq> 32 then Inl Bad_length
          else case right of
              JBytes r \<Rightarrow> if length r \<noteq> 32 then Inl Bad_length else Inr (hashPair l r)
            | _ \<Rightarrow> Inl Bad_length)
     | _ \<Rightarrow> Inl Bad_length)"

text \<open>\<open>while (x % 2 === 0) x = Math.floor(x / 2)\<close> on a positive \<open>x\<close>.\<close>

function strip_twos :: "nat \<Rightarrow> nat" where
  "strip_twos x = (if x \<noteq> 0 \<and> even x then strip_twos (x div 2) else x)"
  by pat_completeness auto
termination
  by (relation "measure id") auto

declare strip_twos.simps [simp del]

definition isPowerOfTwo :: "nat \<Rightarrow> bool" where
  "isPowerOfTwo m = (if m = 0 then False else strip_twos m = 1)"

section \<open>The tree hash and the proofs, over ranges of the entries\<close>

lemma lp2_range:
  "2 \<le> e - s \<Longrightarrow> e - (s + largestPowerOfTwoLessThan (e - s)) < e - (s::nat)"
  "2 \<le> e - s \<Longrightarrow> s + largestPowerOfTwoLessThan (e - s) < e"
  using lp2_pos [of "e - s"] lp2_less [of "e - s"] by auto

text \<open>
  \<open>pathRange\<close> and \<open>subproof\<close> are called on non-empty ranges with the index inside and
  \<open>0 < m \<le> size\<close>; the guard on the size covers the ranges they are never called on.
\<close>

function mthRange :: "bytes list \<Rightarrow> nat \<Rightarrow> nat \<Rightarrow> bytes" where
  "mthRange entries start end' =
     (let n = end' - start
      in if n = 0 then EMPTY_ROOT
         else if n = 1 then hashLeaf (entries ! start)
         else let k = largestPowerOfTwoLessThan n
              in hashPair (mthRange entries start (start + k)) (mthRange entries (start + k) end'))"
  by pat_completeness auto
termination
  by (relation "measure (\<lambda>(es, s, e). e - s)")
    (auto simp: not_less Suc_le_eq lp2_less lp2_range)

function pathRange :: "bytes list \<Rightarrow> nat \<Rightarrow> nat \<Rightarrow> nat \<Rightarrow> string list" where
  "pathRange entries start end' index =
     (let size' = end' - start
      in if size' < 2 then []
         else let k = largestPowerOfTwoLessThan size'
              in if index - start < k
                 then pathRange entries start (start + k) index
                        @ [to_hex (mthRange entries (start + k) end')]
                 else pathRange entries (start + k) end' index
                        @ [to_hex (mthRange entries start (start + k))])"
  by pat_completeness auto
termination
  by (relation "measure (\<lambda>(es, s, e, i). e - s)")
    (auto simp: not_less Suc_le_eq lp2_less lp2_range)

function subproof :: "bytes list \<Rightarrow> nat \<Rightarrow> nat \<Rightarrow> nat \<Rightarrow> bool \<Rightarrow> string list" where
  "subproof entries start end' m known =
     (let size' = end' - start
      in if m = size' \<or> size' < 2
         then (if known then [] else [to_hex (mthRange entries start end')])
         else let k = largestPowerOfTwoLessThan size'
              in if m \<le> k
                 then subproof entries start (start + k) m known
                        @ [to_hex (mthRange entries (start + k) end')]
                 else subproof entries (start + k) end' (m - k) False
                        @ [to_hex (mthRange entries start (start + k))])"
  by pat_completeness auto
termination
  by (relation "measure (\<lambda>(es, s, e, m, b). e - s)")
    (auto simp: not_less Suc_le_eq lp2_less lp2_range)

declare mthRange.simps [simp del] pathRange.simps [simp del] subproof.simps [simp del]

definition mth :: "jsval \<Rightarrow> merkle_reason + bytes" where
  "mth entries = (case checkEntries entries of
       Inl e \<Rightarrow> Inl e
     | Inr es \<Rightarrow> Inr (mthRange es 0 (length es)))"

definition inclusionProof :: "jsval \<Rightarrow> jsval \<Rightarrow> merkle_reason + string list" where
  "inclusionProof entries index = (case checkEntries entries of
       Inl e \<Rightarrow> Inl e
     | Inr es \<Rightarrow> (case checkIndex index of
           Inl e \<Rightarrow> Inl e
         | Inr i \<Rightarrow> if length es \<le> i then Inl Index_out_of_range
                    else Inr (pathRange es 0 (length es) i)))"

definition verifyInclusion ::
    "jsval \<Rightarrow> jsval \<Rightarrow> jsval \<Rightarrow> jsval \<Rightarrow> jsval \<Rightarrow> merkle_reason + unit" where
  "verifyInclusion leaf index treeSize root proof =
     (case parseWireHash leaf of Inl e \<Rightarrow> Inl e | Inr leafH \<Rightarrow>
      (case parseWireHash root of Inl e \<Rightarrow> Inl e | Inr rootH \<Rightarrow>
       (case checkSize treeSize of Inl e \<Rightarrow> Inl e | Inr n \<Rightarrow>
        (case checkIndex index of Inl e \<Rightarrow> Inl e | Inr i \<Rightarrow>
         (if n \<le> i then Inl Index_out_of_range
          else case parseProof proof of Inl e \<Rightarrow> Inl e | Inr nodes \<Rightarrow>
            (case incl_loop hashPair i (n - 1) leafH nodes of
               None \<Rightarrow> Inl Proof_too_long
             | Some (sn, r) \<Rightarrow>
                 if sn \<noteq> 0 then Inl Proof_too_short
                 else if r \<noteq> rootH then Inl Root_mismatch
                 else Inr ()))))))"

definition consistencyProof :: "jsval \<Rightarrow> jsval \<Rightarrow> jsval \<Rightarrow> merkle_reason + string list" where
  "consistencyProof entries m n =
     (case checkEntries entries of Inl e \<Rightarrow> Inl e | Inr es \<Rightarrow>
      (case checkSize m of Inl e \<Rightarrow> Inl e | Inr ms \<Rightarrow>
       (case checkSize n of Inl e \<Rightarrow> Inl e | Inr ns \<Rightarrow>
         (if length es < ns then Inl Bad_size
          else if ns < ms then Inl M_gt_n
          else if ms = 0 \<or> ms = ns then Inr []
          else Inr (subproof es 0 ns ms True)))))"

definition verifyConsistency ::
    "jsval \<Rightarrow> jsval \<Rightarrow> jsval \<Rightarrow> jsval \<Rightarrow> jsval \<Rightarrow> merkle_reason + unit" where
  "verifyConsistency m n oldRoot newRoot proof =
     (case checkSize m of Inl e \<Rightarrow> Inl e | Inr ms \<Rightarrow>
      (case checkSize n of Inl e \<Rightarrow> Inl e | Inr ns \<Rightarrow>
       (case parseWireHash oldRoot of Inl e \<Rightarrow> Inl e | Inr oldH \<Rightarrow>
        (case parseWireHash newRoot of Inl e \<Rightarrow> Inl e | Inr newH \<Rightarrow>
         (case parseProof proof of Inl e \<Rightarrow> Inl e | Inr pnodes \<Rightarrow>
           (if ns < ms then Inl M_gt_n
            else if ms = 0 then
              (if pnodes \<noteq> [] then Inl Proof_not_empty
               else if oldH \<noteq> EMPTY_ROOT then Inl Root_mismatch
               else if ns = 0 \<and> newH \<noteq> EMPTY_ROOT then Inl Root_mismatch
               else Inr ())
            else if ms = ns then
              (if pnodes \<noteq> [] then Inl Proof_not_empty
               else if oldH \<noteq> newH then Inl Root_mismatch
               else Inr ())
            else if pnodes = [] then Inl Proof_too_short
            else
              (let nodes = (if isPowerOfTwo ms then oldH # pnodes else pnodes)
               in case cons_check hashPair ms ns nodes of
                    None \<Rightarrow> Inl Proof_too_long
                  | Some (sn, fr, sr) \<Rightarrow>
                      if sn \<noteq> 0 then Inl Proof_too_short
                      else if fr \<noteq> oldH then Inl Root_mismatch
                      else if sr \<noteq> newH then Inl Root_mismatch
                      else Inr ())))))))"

section \<open>The ranges are the abstract tree\<close>

definition range_leaves :: "bytes list \<Rightarrow> nat \<Rightarrow> nat \<Rightarrow> bytes list" where
  "range_leaves es s e = map hashLeaf (take (e - s) (drop s es))"

lemma range_leaves_all [simp]: "range_leaves es 0 (length es) = map hashLeaf es"
  by (simp add: range_leaves_def)

lemma length_range_leaves: "e \<le> length es \<Longrightarrow> length (range_leaves es s e) = e - s"
  by (simp add: range_leaves_def)

lemma range_leaves_split:
  assumes "k \<le> e - s"
  shows "take k (range_leaves es s e) = range_leaves es s (s + k)"
    "drop k (range_leaves es s e) = range_leaves es (s + k) e"
  using assms by (simp_all add: range_leaves_def take_map drop_map drop_take min_def add.commute)

lemma range_leaves_single: "s < length es \<Longrightarrow> range_leaves es s (Suc s) = [hashLeaf (es ! s)]"
  by (simp add: range_leaves_def take_Suc hd_drop_conv_nth)

lemma mthRange_tree:
  "s < e \<Longrightarrow> e \<le> length es \<Longrightarrow> mthRange es s e = tree_root hashPair (range_leaves es s e)"
proof (induction es s e rule: mthRange.induct)
  case (1 es s e)
  show ?case
  proof (cases "e - s = 1")
    case True
    with 1(3,4) have "e = Suc s" by simp
    with 1(4) show ?thesis by (simp add: mthRange.simps range_leaves_single)
  next
    case False
    with 1(3) have n: "2 \<le> e - s" "e - s \<noteq> 0" "e - s \<noteq> 1" by simp_all
    let ?k = "largestPowerOfTwoLessThan (e - s)"
    have k: "s + ?k < e" "0 < ?k" using n by (simp_all add: lp2_range lp2_pos)
    have l: "2 \<le> length (range_leaves es s e)" using n 1(4) by (simp add: length_range_leaves)
    have "mthRange es s e = hashPair (mthRange es s (s + ?k)) (mthRange es (s + ?k) e)"
      using n by (subst mthRange.simps) (simp add: Let_def)
    also have "\<dots> = hashPair (tree_root hashPair (range_leaves es s (s + ?k)))
        (tree_root hashPair (range_leaves es (s + ?k) e))"
      using 1(1) [OF refl n(2,3) refl] 1(2) [OF refl n(2,3) refl] k 1(4) by simp
    also have "\<dots> = tree_root hashPair (range_leaves es s e)"
      using 1(4) k by (simp add: tree_root_split [OF l] length_range_leaves range_leaves_split)
    finally show ?thesis .
  qed
qed

lemma mthRange_all:
  assumes "i < length es"
  shows "mthRange es 0 (length es) = tree_root hashPair (map hashLeaf es)"
proof -
  from assms have "0 < length es" by linarith
  then show ?thesis by (subst mthRange_tree) auto
qed

lemma pathRange_tree:
  "s \<le> i \<Longrightarrow> i < e \<Longrightarrow> e \<le> length es \<Longrightarrow>
     pathRange es s e i = map to_hex (tree_path hashPair (range_leaves es s e) (i - s))"
proof (induction es s e i rule: pathRange.induct)
  case (1 es s e i)
  show ?case
  proof (cases "e - s < 2")
    case True
    with 1 have "length (range_leaves es s e) = 1" by (simp add: length_range_leaves)
    then show ?thesis using True by (simp add: pathRange.simps tree_path.simps)
  next
    case False
    then have n: "2 \<le> e - s" by simp
    let ?k = "largestPowerOfTwoLessThan (e - s)"
    have k: "s + ?k < e" "0 < ?k" using n by (simp_all add: lp2_range lp2_pos)
    have l: "2 \<le> length (range_leaves es s e)" using n 1(5) by (simp add: length_range_leaves)
    have mth: "mthRange es (s + ?k) e = tree_root hashPair (range_leaves es (s + ?k) e)"
      "mthRange es s (s + ?k) = tree_root hashPair (range_leaves es s (s + ?k))"
      using k 1(5) by (simp_all add: mthRange_tree)
    show ?thesis
    proof (cases "i - s < ?k")
      case True
      moreover from True 1(3) have "i < s + ?k" by simp
      ultimately have "pathRange es s (s + ?k) i =
          map to_hex (tree_path hashPair (range_leaves es s (s + ?k)) (i - s))"
        using 1 False k by simp
      with True False k 1(5) mth show ?thesis
        by (subst pathRange.simps)
          (simp add: Let_def tree_path_split [OF l] length_range_leaves range_leaves_split)
    next
      case out: False
      then have "pathRange es (s + ?k) e i =
          map to_hex (tree_path hashPair (range_leaves es (s + ?k) e) (i - (s + ?k)))"
        using 1 False k by simp
      with out False k 1(5) mth show ?thesis
        by (subst pathRange.simps)
          (simp add: Let_def tree_path_split [OF l] length_range_leaves range_leaves_split)
    qed
  qed
qed

lemma subproof_tree:
  "0 < m \<Longrightarrow> m \<le> e - s \<Longrightarrow> e \<le> length es \<Longrightarrow>
     subproof es s e m known = map to_hex (tree_subproof hashPair (range_leaves es s e) m known)"
proof (induction es s e m known rule: subproof.induct)
  case (1 es s e m known)
  have len: "length (range_leaves es s e) = e - s" using 1(5) by (rule length_range_leaves)
  show ?case
  proof (cases "m = e - s \<or> e - s < 2")
    case True
    with 1(3,4) have m: "m = length (range_leaves es s e)" "s < e" using len by auto
    then have "tree_subproof hashPair (range_leaves es s e) m known =
        (if known then [] else [tree_root hashPair (range_leaves es s e)])"
      by (simp only: tree_subproof_all)
    with True m 1(5) show ?thesis
      by (subst subproof.simps) (simp add: mthRange_tree)
  next
    case False
    then have n: "2 \<le> e - s" by simp
    let ?k = "largestPowerOfTwoLessThan (e - s)"
    have k: "s + ?k < e" "0 < ?k" using n by (simp_all add: lp2_range lp2_pos)
    have m: "m < length (range_leaves es s e)" using False 1(4) len by simp
    have mth: "mthRange es (s + ?k) e = tree_root hashPair (range_leaves es (s + ?k) e)"
      "mthRange es s (s + ?k) = tree_root hashPair (range_leaves es s (s + ?k))"
      using k 1(5) by (simp_all add: mthRange_tree)
    show ?thesis
    proof (cases "m \<le> ?k")
      case True
      then have "subproof es s (s + ?k) m known =
          map to_hex (tree_subproof hashPair (range_leaves es s (s + ?k)) m known)"
        using 1 False k by simp
      with True False k 1(5) mth len show ?thesis
        by (subst subproof.simps)
          (simp add: Let_def tree_subproof_split [OF m 1(3)] range_leaves_split)
    next
      case out: False
      then have "subproof es (s + ?k) e (m - ?k) False =
          map to_hex (tree_subproof hashPair (range_leaves es (s + ?k) e) (m - ?k) False)"
        using 1 False k by simp
      with out False k 1(5) mth len show ?thesis
        by (subst subproof.simps)
          (simp add: Let_def tree_subproof_split [OF m 1(3)] range_leaves_split)
    qed
  qed
qed

lemma isPowerOfTwo_iff: "isPowerOfTwo m \<longleftrightarrow> is_pow2 m"
proof (cases "m = 0")
  case True
  then show ?thesis by (simp add: isPowerOfTwo_def is_pow2_def)
next
  case False
  have "0 < x \<Longrightarrow> strip_twos x = 1 \<longleftrightarrow> is_pow2 x" for x
  proof (induction x rule: strip_twos.induct)
    case (1 x)
    then show ?case
      by (cases "even x"; subst strip_twos.simps) (auto simp: is_pow2_even is_pow2_odd elim!: evenE)
  qed
  with False show ?thesis by (simp add: isPowerOfTwo_def)
qed

section \<open>Round trips of the wire forms\<close>

lemma parseWireHash_to_hex: "length b = 32 \<Longrightarrow> parseWireHash (JStr (to_hex b)) = Inr b"
  by (simp add: parseWireHash_def hex_simps)

lemma parseWireHash_Inr:
  "parseWireHash v = Inr h \<Longrightarrow> v = JStr (to_hex h) \<and> length h = 32"
  by (auto simp: parseWireHash_def to_hex_of_hex split: jsval.splits if_splits option.splits)

lemma parse_nodes_to_hex:
  "(\<And>b. b \<in> set bs \<Longrightarrow> length b = 32) \<Longrightarrow> parse_nodes (map JStr (map to_hex bs)) = Inr bs"
  by (induction bs) (auto simp: parseWireHash_to_hex)

lemma parse_nodes_Inr:
  "parse_nodes vs = Inr bs \<Longrightarrow> vs = map JStr (map to_hex bs) \<and> (\<forall>b \<in> set bs. length b = 32)"
  by (induction vs arbitrary: bs) (auto dest: parseWireHash_Inr split: sum.splits)

lemma parseProof_Inr:
  "parseProof v = Inr bs \<Longrightarrow>
     v = JArr (map JStr (map to_hex bs)) \<and> (\<forall>b \<in> set bs. length b = 32) \<and> length bs \<le> 64"
  by (auto simp: parseProof_def MAX_PROOF_HASHES_def dest: parse_nodes_Inr
      split: jsval.splits if_splits)

lemma parseProof_to_hex:
  "(\<And>b. b \<in> set bs \<Longrightarrow> length b = 32) \<Longrightarrow> length bs \<le> 64 \<Longrightarrow>
     parseProof (JArr (map JStr (map to_hex bs))) = Inr bs"
  using parse_nodes_to_hex [of bs] by (simp add: parseProof_def MAX_PROOF_HASHES_def)

lemma check_leaves_bytes [simp]: "check_leaves (map JBytes es) = Inr es"
  by (induction es) auto

lemma checkEntries_bytes [simp]: "checkEntries (JArr (map JBytes es)) = Inr es"
  by (simp add: checkEntries_def)

lemma check_leaves_Inr: "check_leaves vs = Inr es \<Longrightarrow> vs = map JBytes es"
  by (induction vs arbitrary: es rule: check_leaves.induct) (auto split: sum.splits)

lemma checkEntries_Inr: "checkEntries v = Inr es \<Longrightarrow> v = JArr (map JBytes es)"
  by (auto simp: checkEntries_def dest: check_leaves_Inr split: jsval.splits)

lemma checkSize_nat: "int n \<le> MAX_TREE_SIZE \<Longrightarrow> checkSize (JNum (JInt (int n))) = Inr n"
  by (simp add: checkSize_def is_safe_integer_def)

lemma checkIndex_nat: "int n \<le> MAX_TREE_SIZE \<Longrightarrow> checkIndex (JNum (JInt (int n))) = Inr n"
  by (simp add: checkIndex_def is_safe_integer_def)

lemma mthRange_length: "s < e \<Longrightarrow> e \<le> length es \<Longrightarrow> length (mthRange es s e) = 32"
  by (subst mthRange.simps) (simp add: Let_def hashLeaf_def hashPair_def)

lemma leaves_length: "x \<in> set (map hashLeaf es) \<Longrightarrow> length x = 32"
  by (auto simp: hashLeaf_def)

text \<open>A tree of a size within the limit has proofs within the limit.\<close>

lemma size_pow: "int n \<le> MAX_TREE_SIZE \<Longrightarrow> n \<le> 2 ^ 53"
  by simp

lemma mthRange_length_le: "s \<le> e \<Longrightarrow> e \<le> length es \<Longrightarrow> length (mthRange es s e) = 32"
  by (subst mthRange.simps) (simp add: Let_def hashLeaf_def hashPair_def EMPTY_ROOT_def)

lemma mthRange_prefix:
  assumes "m \<le> length es"
  shows "mthRange (take m es) 0 (length (take m es)) = mthRange es 0 m"
proof (cases "m = 0")
  case False
  with assms show ?thesis
    by (simp add: mthRange_tree range_leaves_def)
qed (simp add: mthRange.simps)

section \<open>The inputs that were hashed\<close>

text \<open>The byte strings the tree hash of a range feeds to SHA-256.\<close>

function mthInputs :: "bytes list \<Rightarrow> nat \<Rightarrow> nat \<Rightarrow> bytes list" where
  "mthInputs entries start end' =
     (let n = end' - start
      in if n = 0 then [[]]
         else if n = 1 then [0 # entries ! start]
         else let k = largestPowerOfTwoLessThan n
              in (1 # mthRange entries start (start + k) @ mthRange entries (start + k) end')
                 # mthInputs entries start (start + k) @ mthInputs entries (start + k) end')"
  by pat_completeness auto
termination
  by (relation "measure (\<lambda>(es, s, e). e - s)")
    (auto simp: not_less Suc_le_eq lp2_less lp2_range)

declare mthInputs.simps [simp del]

text \<open>The byte strings the two verification walks feed to SHA-256.\<close>

definition inclusionInputs :: "nat \<Rightarrow> nat \<Rightarrow> bytes \<Rightarrow> bytes list \<Rightarrow> bytes list" where
  "inclusionInputs i n leafH nodes =
     map (\<lambda>p. 1 # fst p @ snd p) (incl_pairs hashPair i (n - 1) leafH nodes)"

definition consistencyInputs :: "nat \<Rightarrow> nat \<Rightarrow> bytes list \<Rightarrow> bytes list" where
  "consistencyInputs m n nodes = map (\<lambda>p. 1 # fst p @ snd p) (cons_pairs hashPair m n nodes)"

lemma mthInputs_split:
  assumes "2 \<le> e - s"
  shows "mthInputs es s e =
      (let k = largestPowerOfTwoLessThan (e - s)
       in (1 # mthRange es s (s + k) @ mthRange es (s + k) e)
          # mthInputs es s (s + k) @ mthInputs es (s + k) e)"
  using assms by (subst mthInputs.simps) (simp add: Let_def)

lemma mthRange_split:
  assumes "2 \<le> e - s"
  shows "mthRange es s e =
      (let k = largestPowerOfTwoLessThan (e - s)
       in hashPair (mthRange es s (s + k)) (mthRange es (s + k) e))"
proof -
  from assms have "e - s \<noteq> 0" "e - s \<noteq> 1" by simp_all
  then show ?thesis
    by (subst mthRange.simps) (simp only: Let_def if_False)
qed

lemma mthInputs_nodes:
  "s < e \<Longrightarrow> e \<le> length es \<Longrightarrow> p \<in> set (tree_nodes hashPair (range_leaves es s e)) \<Longrightarrow>
     1 # fst p @ snd p \<in> set (mthInputs es s e)"
proof (induction "e - s" arbitrary: s e rule: less_induct)
  case less
  show ?case
  proof (cases "2 \<le> e - s")
    case False
    with less.prems show ?thesis by (simp add: tree_nodes.simps length_range_leaves)
  next
    case True
    let ?k = "largestPowerOfTwoLessThan (e - s)"
    have k: "s + ?k < e" "0 < ?k" using True by (simp_all add: lp2_range lp2_pos)
    have l: "2 \<le> length (range_leaves es s e)"
      using True less.prems(2) by (simp add: length_range_leaves)
    from less.prems(3) consider
        "p = (mthRange es s (s + ?k), mthRange es (s + ?k) e)"
      | "p \<in> set (tree_nodes hashPair (range_leaves es s (s + ?k)))"
      | "p \<in> set (tree_nodes hashPair (range_leaves es (s + ?k) e))"
      using k less.prems(2)
      by (auto simp: tree_nodes_split [OF l] Let_def length_range_leaves range_leaves_split mthRange_tree)
    then show ?thesis
    proof cases
      case 1
      then show ?thesis by (simp add: mthInputs_split [OF True] Let_def)
    next
      case 2
      with less.hyps [of "s + ?k" s] k less.prems(2) show ?thesis
        by (simp add: mthInputs_split [OF True] Let_def)
    next
      case 3
      with less.hyps [of e "s + ?k"] k less.prems(2) show ?thesis
        by (simp add: mthInputs_split [OF True] Let_def)
    qed
  qed
qed

lemma tree_clash_collision:
  assumes "node_clash hashPair ps (tree_nodes hashPair (map hashLeaf es))" "es \<noteq> []"
    and "\<And>p. p \<in> set ps \<Longrightarrow> length (fst p) = 32"
  shows "collision_between (map (\<lambda>p. 1 # fst p @ snd p) ps) (mthInputs es 0 (length es))"
proof -
  have "collision_between (map (\<lambda>p. 1 # fst p @ snd p) ps)
      (map (\<lambda>q. 1 # fst q @ snd q) (tree_nodes hashPair (map hashLeaf es)))"
  proof (rule rfc9162.node_clash_collision [OF assms(1,3)])
    fix q assume "q \<in> set (tree_nodes hashPair (map hashLeaf es))"
    then show "length (fst q) = 32"
      using rfc9162.tree_nodes_length [of "map hashLeaf es" q] leaves_length by blast
  qed
  then show ?thesis
    using mthInputs_nodes [of 0 "length es" es] assms(2)
    by (auto elim!: collision_between_mono)
qed

section \<open>Properties\<close>

text \<open>Every proof \<open>inclusionProof\<close> builds is accepted by \<open>verifyInclusion\<close>.\<close>

lemma inclusion_complete:
  assumes "int (length es) \<le> MAX_TREE_SIZE" "i < length es"
  shows "verifyInclusion (JStr (to_hex (hashLeaf (es ! i)))) (JNum (JInt (int i)))
      (JNum (JInt (int (length es)))) (JStr (to_hex (mthRange es 0 (length es))))
      (JArr (map JStr (pathRange es 0 (length es) i))) = Inr ()"
proof -
  let ?xs = "map hashLeaf es"
  let ?path = "tree_path hashPair ?xs i"
  have path: "pathRange es 0 (length es) i = map to_hex ?path"
    using assms(2) by (simp add: pathRange_tree)
  have root: "mthRange es 0 (length es) = tree_root hashPair ?xs"
    using assms(2) by (rule mthRange_all)
  have "length ?path \<le> 53"
    using assms size_pow by (intro length_tree_path) auto
  moreover have "length b = 32" if "b \<in> set ?path" for b
    using rfc9162.tree_path_length [of ?xs i b] that assms(2) leaves_length by simp
  ultimately have parsed: "parseProof (JArr (map JStr (map to_hex ?path))) = Inr ?path"
    by (intro parseProof_to_hex) auto
  have walk: "incl_loop hashPair i (length es - 1) (hashLeaf (es ! i)) ?path =
      Some (0, tree_root hashPair ?xs)"
    using incl_loop_complete [of i ?xs hashPair] assms(2) by simp
  have "?xs \<noteq> []" using assms(2) by auto
  then have "length (tree_root hashPair ?xs) = 32"
    using rfc9162.tree_root_length leaves_length by blast
  moreover have "int i \<le> MAX_TREE_SIZE" using assms by simp
  moreover have "length (hashLeaf (es ! i)) = 32" by (rule rfc9162.leaf_length)
  moreover have "\<not> length es \<le> i" using assms(2) by simp
  ultimately show ?thesis
    using assms by (simp only: verifyInclusion_def path root parsed walk parseWireHash_to_hex
        checkSize_nat checkIndex_nat sum.case option.case prod.case if_False if_True
        simp_thms)
qed

lemma verifyInclusion_Inr:
  "verifyInclusion leaf index size' root proof = Inr () \<Longrightarrow>
     \<exists>leafH rootH n i nodes. parseWireHash leaf = Inr leafH \<and> parseWireHash root = Inr rootH \<and>
       checkSize size' = Inr n \<and> checkIndex index = Inr i \<and> i < n \<and>
       parseProof proof = Inr nodes \<and>
       incl_loop hashPair i (n - 1) leafH nodes = Some (0, rootH)"
  by (auto simp: verifyInclusion_def split: sum.splits option.splits prod.splits if_splits)

lemma inclusion_sound:
  assumes acc: "verifyInclusion leaf index (JNum (JInt (int (length es))))
        (JStr (to_hex (mthRange es 0 (length es)))) proof = Inr ()"
    and size: "int (length es) \<le> MAX_TREE_SIZE"
    and leaf: "parseWireHash leaf = Inr leafH" and i: "checkIndex index = Inr i"
    and nodes: "parseProof proof = Inr nodes"
  shows "i < length es \<and>
     (leafH = hashLeaf (es ! i) \<and> map to_hex nodes = pathRange es 0 (length es) i \<or>
      collision_between (inclusionInputs i (length es) leafH nodes) (mthInputs es 0 (length es)))"
proof -
  let ?xs = "map hashLeaf es"
  from verifyInclusion_Inr [OF acc] obtain rootH
    where lt: "i < length es" and root: "parseWireHash (JStr (to_hex (mthRange es 0 (length es)))) = Inr rootH"
      and walk: "incl_loop hashPair i (length es - 1) leafH nodes = Some (0, rootH)"
    using leaf i nodes size by (auto simp: checkSize_nat)
  from root have "rootH = mthRange es 0 (length es)"
    by (auto dest!: parseWireHash_Inr simp: to_hex_inject)
  with lt have "rootH = tree_root hashPair ?xs" by (simp add: mthRange_all)
  with walk lt have "(leafH = ?xs ! i \<and> nodes = tree_path hashPair ?xs i) \<or>
      node_clash hashPair (incl_pairs hashPair i (length ?xs - 1) leafH nodes) (tree_nodes hashPair ?xs)"
    by (intro incl_loop_sound) auto
  then show ?thesis
  proof
    assume "leafH = ?xs ! i \<and> nodes = tree_path hashPair ?xs i"
    with lt show ?thesis by (simp add: pathRange_tree)
  next
    assume c: "node_clash hashPair (incl_pairs hashPair i (length ?xs - 1) leafH nodes) (tree_nodes hashPair ?xs)"
    have "length leafH = 32" "\<And>p. p \<in> set nodes \<Longrightarrow> length p = 32"
      using parseWireHash_Inr [OF leaf] parseProof_Inr [OF nodes] by auto
    from rfc9162.incl_pairs_length [OF this]
    have "length (fst p) = 32"
      if "p \<in> set (incl_pairs hashPair i (length ?xs - 1) leafH nodes)" for p
      using that by blast
    moreover have "es \<noteq> []" using lt by auto
    ultimately have "collision_between (map (\<lambda>p. 1 # fst p @ snd p)
        (incl_pairs hashPair i (length ?xs - 1) leafH nodes)) (mthInputs es 0 (length es))"
      using tree_clash_collision [OF c] by blast
    with lt show ?thesis by (simp add: inclusionInputs_def)
  qed
qed

lemma consistency_complete:
  assumes "int (length es) \<le> MAX_TREE_SIZE" "0 < m" "m < length es"
  shows "verifyConsistency (JNum (JInt (int m))) (JNum (JInt (int (length es))))
      (JStr (to_hex (mthRange es 0 m))) (JStr (to_hex (mthRange es 0 (length es))))
      (JArr (map JStr (subproof es 0 (length es) m True))) = Inr ()"
proof -
  let ?xs = "map hashLeaf es"
  let ?pf = "tree_subproof hashPair ?xs m True"
  have pf: "subproof es 0 (length es) m True = map to_hex ?pf"
    using assms by (simp add: subproof_tree)
  have roots: "mthRange es 0 (length es) = tree_root hashPair ?xs"
    "mthRange es 0 m = tree_root hashPair (take m ?xs)"
    using assms by (simp_all add: mthRange_all mthRange_tree range_leaves_def take_map)
  have "length ?pf \<le> 53 + 1"
    using assms size_pow by (intro length_tree_subproof) auto
  moreover have "length b = 32" if "b \<in> set ?pf" for b
    using rfc9162.tree_subproof_length [of ?xs m b True] that assms leaves_length by simp
  ultimately have parsed: "parseProof (JArr (map JStr (map to_hex ?pf))) = Inr ?pf"
    by (intro parseProof_to_hex) auto
  have ne: "?pf \<noteq> []" using assms by (simp add: tree_subproof_nonempty)
  have walk: "cons_check hashPair m (length es)
      (if is_pow2 m then tree_root hashPair (take m ?xs) # ?pf else ?pf) =
      Some (0, tree_root hashPair (take m ?xs), tree_root hashPair ?xs)"
    using cons_check_complete [of m ?xs hashPair] assms by (cases "is_pow2 m") simp_all
  have "0 < length es" using assms by linarith
  then have len: "length (mthRange es 0 m) = 32" "length (mthRange es 0 (length es)) = 32"
    using assms by (auto intro!: mthRange_length)
  have "int m \<le> MAX_TREE_SIZE" using assms by simp
  moreover have "\<not> length es < m" "m \<noteq> 0" "m \<noteq> length es" using assms by auto
  ultimately show ?thesis using ne walk assms(1)
    by (simp only: verifyConsistency_def pf parsed parseWireHash_to_hex len checkSize_nat
        isPowerOfTwo_iff Let_def sum.case if_False if_True)
      (cases "is_pow2 m"; simp add: roots)
qed

lemma consistency_sound:
  assumes acc: "verifyConsistency m (JNum (JInt (int (length es)))) oldRoot
        (JStr (to_hex (mthRange es 0 (length es)))) proof = Inr ()"
    and size: "int (length es) \<le> MAX_TREE_SIZE"
    and old: "parseWireHash oldRoot = Inr oldH" and m: "checkSize m = Inr ms"
    and nodes: "parseProof proof = Inr pnodes"
  shows "ms \<le> length es \<and>
     (oldH = mthRange es 0 ms \<or>
      collision_between
        (consistencyInputs ms (length es) (if isPowerOfTwo ms then oldH # pnodes else pnodes))
        (mthInputs es 0 (length es)))"
proof -
  let ?xs = "map hashLeaf es" and ?n = "length es"
  let ?nodes = "if isPowerOfTwo ms then oldH # pnodes else pnodes"
  have new: "parseWireHash (JStr (to_hex (mthRange es 0 ?n))) = Inr newH \<Longrightarrow> newH = mthRange es 0 ?n" for newH
    by (auto dest!: parseWireHash_Inr simp: to_hex_inject)
  consider (zero) "ms = 0" "oldH = EMPTY_ROOT"
    | (same) "ms = ?n" "oldH = mthRange es 0 ?n"
    | (walk) "0 < ms" "ms < ?n" "pnodes \<noteq> []"
        "cons_check hashPair ms ?n ?nodes = Some (0, oldH, mthRange es 0 ?n)"
    using acc old m nodes size
    by (auto simp: verifyConsistency_def checkSize_nat Let_def dest!: new
        split: sum.splits option.splits prod.splits if_splits)
  then show ?thesis
  proof cases
    case zero
    then show ?thesis by (simp add: mthRange.simps)
  next
    case same
    then show ?thesis by simp
  next
    case walk
    have "mthRange es 0 ?n = tree_root hashPair ?xs" using walk(2) by (rule mthRange_all)
    moreover have "?nodes \<noteq> []" using walk(3) by simp
    ultimately have "oldH = tree_root hashPair (take ms ?xs) \<or>
        node_clash hashPair (cons_pairs hashPair ms (length ?xs) ?nodes) (tree_nodes hashPair ?xs)"
      using walk by (intro cons_check_sound) auto
    then show ?thesis
    proof
      assume "oldH = tree_root hashPair (take ms ?xs)"
      with walk show ?thesis by (simp add: mthRange_tree range_leaves_def take_map)
    next
      assume c: "node_clash hashPair (cons_pairs hashPair ms (length ?xs) ?nodes) (tree_nodes hashPair ?xs)"
      have "length oldH = 32" "\<And>p. p \<in> set pnodes \<Longrightarrow> length p = 32"
        using parseWireHash_Inr [OF old] parseProof_Inr [OF nodes] by auto
      then have n32: "\<And>p. p \<in> set ?nodes \<Longrightarrow> length p = 32" by (auto split: if_splits)
      have "length (fst q) = 32" if "q \<in> set (cons_pairs hashPair ms (length ?xs) ?nodes)" for q
      proof -
        have "length (hd ?nodes) = 32"
          using n32 [OF hd_in_set [OF \<open>?nodes \<noteq> []\<close>]] .
        moreover have "length p = 32" if "p \<in> set (tl ?nodes)" for p
          using n32 [OF list.set_sel(2) [OF \<open>?nodes \<noteq> []\<close> that]] .
        ultimately have "length (hd ?nodes) = 32" "\<And>p. p \<in> set (tl ?nodes) \<Longrightarrow> length p = 32"
          by auto
        from rfc9162.incl_pairs_length [OF this] that show ?thesis
          unfolding cons_pairs_def Let_def case_prod_beta by blast
      qed
      moreover have "es \<noteq> []" using walk(2) by auto
      ultimately have "collision_between (map (\<lambda>p. 1 # fst p @ snd p)
          (cons_pairs hashPair ms (length ?xs) ?nodes)) (mthInputs es 0 ?n)"
        using tree_clash_collision [OF c] by blast
      with walk show ?thesis by (simp add: consistencyInputs_def)
    qed
  qed
qed

text \<open>
  The tree hash binds its entries: two ranges with one hash hold the same entries, in the same
  number, or two different strings that were hashed for them collide.
\<close>

lemma mthInputs_leaf: "mthInputs es s (Suc s) = [0 # es ! s]"
  by (subst mthInputs.simps) simp

lemma mthRange_leaf: "mthRange es s (Suc s) = sha256 (0 # es ! s)"
  by (subst mthRange.simps) (simp add: hashLeaf_def)

lemma mthRange_empty: "mthRange es s s = sha256 []" "mthInputs es s s = [[]]"
  by (simp_all add: mthRange.simps mthInputs.simps EMPTY_ROOT_def)

text \<open>The string whose digest is the hash of the range is one of its inputs.\<close>

definition top_input :: "bytes list \<Rightarrow> nat \<Rightarrow> nat \<Rightarrow> bytes" where
  "top_input es s e = hd (mthInputs es s e)"

lemma range_size_cases:
  assumes "s \<le> (e::nat)"
  obtains (empty) "e = s" | (one) "e = Suc s" | (more) "2 \<le> e - s"
  using assms by (metis One_nat_def Suc_leI add_diff_inverse_nat diff_is_0_eq
      le_antisym less_2_cases_iff linorder_not_less nat_le_linear plus_1_eq_Suc add.commute add_0)

lemma top_input_mem: "s \<le> e \<Longrightarrow> top_input es s e \<in> set (mthInputs es s e)"
  by (erule range_size_cases [of s e])
    (auto simp: top_input_def mthRange_empty mthInputs_leaf mthInputs_split Let_def)

lemma top_input_hash: "s \<le> e \<Longrightarrow> mthRange es s e = sha256 (top_input es s e)"
  by (erule range_size_cases [of s e])
    (auto simp: top_input_def mthRange_empty mthInputs_leaf mthRange_leaf mthInputs_split
      mthRange_split hashPair_def Let_def)

lemma take_drop_split:
  assumes "s + k \<le> e"
  shows "take (e - s) (drop s es) = take k (drop s es) @ take (e - (s + k)) (drop (s + k) es)"
proof -
  have "take (k + (e - (s + k))) (drop s es) = take k (drop s es) @ take (e - (s + k)) (drop k (drop s es))"
    by (rule take_add)
  with assms show ?thesis by (simp add: add.commute)
qed

lemma mthRange_binds:
  "s \<le> e \<Longrightarrow> e \<le> length es \<Longrightarrow> s' \<le> e' \<Longrightarrow> e' \<le> length es' \<Longrightarrow>
     mthRange es s e = mthRange es' s' e' \<Longrightarrow>
     take (e - s) (drop s es) = take (e' - s') (drop s' es') \<or>
     collision_between (mthInputs es s e) (mthInputs es' s' e')"
proof (induction "e - s" arbitrary: s e s' e' rule: less_induct)
  case less
  let ?C = "collision_between (mthInputs es s e) (mthInputs es' s' e')"
  have top: "top_input es s e = top_input es' s' e' \<or> ?C"
    using less.prems by (intro collision_betweenI) (auto simp: top_input_hash intro: top_input_mem)
  show ?case
  proof (cases "?C")
    case True
    then show ?thesis by simp
  next
    case False
    with top have eq: "top_input es s e = top_input es' s' e'" by simp
    from less.prems(1) show ?thesis
    proof (cases rule: range_size_cases)
      case empty
      with eq less.prems(3) show ?thesis
        by (elim range_size_cases [of s' e'])
          (auto simp: top_input_def mthRange_empty mthInputs_leaf mthInputs_split Let_def)
    next
      case one
      with eq less.prems show ?thesis
        by (elim range_size_cases [of s' e'])
          (auto simp: top_input_def mthRange_empty mthInputs_leaf mthInputs_split Let_def
            take_Suc hd_drop_conv_nth)
    next
      case more
      let ?k = "largestPowerOfTwoLessThan (e - s)"
      have k: "s + ?k < e" "0 < ?k" "?k < e - s"
        using more by (simp_all add: lp2_range lp2_pos lp2_less)
      have more': "2 \<le> e' - s'"
        using eq less.prems(3) more
        by (elim range_size_cases [of s' e'])
          (auto simp: top_input_def mthRange_empty mthInputs_leaf mthInputs_split Let_def)
      let ?k' = "largestPowerOfTwoLessThan (e' - s')"
      have k': "s' + ?k' < e'" "0 < ?k'" using more' by (simp_all add: lp2_range lp2_pos)
      have halves: "mthRange es s (s + ?k) = mthRange es' s' (s' + ?k')"
        "mthRange es (s + ?k) e = mthRange es' (s' + ?k') e'"
        using eq k k' less.prems
        by (auto simp: top_input_def mthInputs_split [OF more] mthInputs_split [OF more'] Let_def
            mthRange_length)
      have sub: "set (mthInputs es s (s + ?k)) \<subseteq> set (mthInputs es s e)"
        "set (mthInputs es (s + ?k) e) \<subseteq> set (mthInputs es s e)"
        "set (mthInputs es' s' (s' + ?k')) \<subseteq> set (mthInputs es' s' e')"
        "set (mthInputs es' (s' + ?k') e') \<subseteq> set (mthInputs es' s' e')"
        by (auto simp: mthInputs_split [OF more] mthInputs_split [OF more'] Let_def)
      have "take ?k (drop s es) = take ?k' (drop s' es')"
        using less.hyps [of "s + ?k" s s' "s' + ?k'"] halves(1) k k' less.prems False
          collision_between_mono [OF _ sub(1) sub(3)] by auto
      moreover have "take (e - (s + ?k)) (drop (s + ?k) es) =
          take (e' - (s' + ?k')) (drop (s' + ?k') es')"
      proof -
        have "e - (s + ?k) < e - s" using k by linarith
        then show ?thesis
          using less.hyps [of e "s + ?k" "s' + ?k'" e'] halves(2) k k' less.prems False
            collision_between_mono [OF _ sub(2) sub(4)] by auto
      qed
      ultimately show ?thesis
        using k k' by (simp add: take_drop_split [of s ?k e] take_drop_split [of s' ?k' e'])
    qed
  qed
qed

subsection \<open>The claims\<close>

lemma mth_bytes: "mth (JArr (map JBytes es)) = Inr (mthRange es 0 (length es))"
  by (simp add: mth_def)

text \<open>
  For every list of byte entries (at most the safe-integer limit) and every
  index into it, \<open>inclusionProof\<close> succeeds and \<open>verifyInclusion\<close> accepts what it returns
  for that leaf hash, index, size and the root that \<open>mth\<close> computes. In particular the
  proof never exceeds the 64-hash limit of the parser.
\<close>

theorem merkle_inclusion_accepts:
  assumes "checkEntries entries = Inr es" "int (length es) \<le> MAX_TREE_SIZE" "i < length es"
  shows "\<exists>root proof. mth entries = Inr root \<and>
     inclusionProof entries (JNum (JInt (int i))) = Inr proof \<and>
     verifyInclusion (JStr (to_hex (hashLeaf (es ! i)))) (JNum (JInt (int i)))
       (JNum (JInt (int (length es)))) (JStr (to_hex root)) (JArr (map JStr proof)) = Inr ()"
  using assms inclusion_complete [OF assms(2,3)]
  by (simp add: mth_def inclusionProof_def checkIndex_nat)

theorem merkle_inclusion_accepts_witness:
  "\<exists>root proof. mth (JArr (map JBytes [[1], [2], [3]])) = Inr root \<and>
     inclusionProof (JArr (map JBytes [[1], [2], [3]])) (JNum (JInt (int 2))) = Inr proof \<and>
     verifyInclusion (JStr (to_hex (hashLeaf ([[1], [2], [3]] ! 2)))) (JNum (JInt (int 2)))
       (JNum (JInt (int (length [[1], [2], [3 :: byte]])))) (JStr (to_hex root))
       (JArr (map JStr proof)) = Inr ()"
  by (rule merkle_inclusion_accepts [OF checkEntries_bytes]) simp_all

text \<open>
  Property C7. If \<open>verifyInclusion\<close> accepts a leaf hash at an index against the root and the
  size of a tree, then the leaf hash is the hash of the entry at that index and the proof is
  the one \<open>inclusionProof\<close> builds, or a string the verifier hashed and a string the tree
  hash hashed are an explicit SHA-256 collision.
\<close>

theorem merkle_inclusion_binds:
  assumes "checkEntries entries = Inr es" "mth entries = Inr root"
    and "int (length es) \<le> MAX_TREE_SIZE"
    and "parseWireHash leaf = Inr leafH" "checkIndex index = Inr i" "parseProof proof = Inr nodes"
    and "verifyInclusion leaf index (JNum (JInt (int (length es)))) (JStr (to_hex root)) proof = Inr ()"
  shows "i < length es \<and>
     (leafH = hashLeaf (es ! i) \<and> inclusionProof entries index = Inr (map to_hex nodes) \<or>
      collision_between (inclusionInputs i (length es) leafH nodes) (mthInputs es 0 (length es)))"
  using inclusion_sound [of leaf index es "proof" leafH i nodes] assms
  by (auto simp: mth_def inclusionProof_def)

theorem merkle_inclusion_binds_witness:
  "(let es = [[1], [2 :: byte]];
        nodes = [hashLeaf [2]]
    in 0 < length es \<and>
     (hashLeaf [1] = hashLeaf (es ! 0) \<and>
        inclusionProof (JArr (map JBytes es)) (JNum (JInt 0)) = Inr (map to_hex nodes) \<or>
      collision_between (inclusionInputs 0 (length es) (hashLeaf [1]) nodes) (mthInputs es 0 (length es))))"
proof -
  let ?es = "[[1], [2 :: byte]]"
  have path: "pathRange ?es 0 (length ?es) 0 = [to_hex (hashLeaf [2])]"
    using pathRange_tree [of 0 0 "length ?es" ?es]
    by (simp only: range_leaves_all diff_zero) simp
  have acc: "verifyInclusion (JStr (to_hex (hashLeaf [1]))) (JNum (JInt 0))
      (JNum (JInt (int (length ?es)))) (JStr (to_hex (mthRange ?es 0 (length ?es))))
      (JArr (map JStr (map to_hex [hashLeaf [2]]))) = Inr ()"
    using inclusion_complete [of ?es 0] path by simp
  have l32: "length (hashLeaf d) = 32" for d by (rule rfc9162.leaf_length)
  show ?thesis
    unfolding Let_def
    by (rule merkle_inclusion_binds [OF checkEntries_bytes mth_bytes _ parseWireHash_to_hex [OF l32] _
          parseProof_to_hex acc])
      (use checkIndex_nat [of 0] l32 in auto)
qed

text \<open>
  For every pair of sizes within a list of entries, the proof that
  \<open>consistencyProof\<close> builds between the prefix and the whole is accepted by
  \<open>verifyConsistency\<close> with the two tree hashes, the genesis and the equal-size case
  included.
\<close>

theorem merkle_consistency_accepts:
  assumes "checkEntries entries = Inr es" "int (length es) \<le> MAX_TREE_SIZE" "m \<le> length es"
  shows "\<exists>old new proof. mth (JArr (map JBytes (take m es))) = Inr old \<and> mth entries = Inr new \<and>
     consistencyProof entries (JNum (JInt (int m))) (JNum (JInt (int (length es)))) = Inr proof \<and>
     verifyConsistency (JNum (JInt (int m))) (JNum (JInt (int (length es))))
       (JStr (to_hex old)) (JStr (to_hex new)) (JArr (map JStr proof)) = Inr ()"
proof -
  have old: "mth (JArr (map JBytes (take m es))) = Inr (mthRange es 0 m)"
    using mthRange_prefix [OF assms(3)] by (simp only: mth_def checkEntries_bytes sum.case)
  have "int m \<le> MAX_TREE_SIZE" using assms by simp
  note sizes = checkSize_nat [OF this] checkSize_nat [OF assms(2)]
  consider "m = 0" | "0 < m" "m = length es" | "0 < m" "m < length es" using assms(3) by linarith
  then show ?thesis
  proof cases
    case 1
    have "length (mthRange es 0 0) = 32" "length (mthRange es 0 (length es)) = 32"
      by (simp_all add: mthRange_length_le)
    with 1 assms sizes old show ?thesis
      by (simp add: mth_def consistencyProof_def verifyConsistency_def parseWireHash_to_hex
          parseProof_def MAX_PROOF_HASHES_def mthRange_empty EMPTY_ROOT_def)
  next
    case 2
    have "length (mthRange es 0 (length es)) = 32" by (simp add: mthRange_length_le)
    with 2 assms sizes old show ?thesis
      by (simp add: mth_def consistencyProof_def verifyConsistency_def parseWireHash_to_hex
          parseProof_def MAX_PROOF_HASHES_def)
  next
    case 3
    then show ?thesis
      using assms sizes old consistency_complete [OF assms(2) 3]
      by (simp add: mth_def consistencyProof_def)
  qed
qed

theorem merkle_consistency_accepts_witness:
  "\<exists>old new proof. mth (JArr (map JBytes (take 2 [[1], [2], [3]]))) = Inr old \<and>
     mth (JArr (map JBytes [[1], [2], [3]])) = Inr new \<and>
     consistencyProof (JArr (map JBytes [[1], [2], [3]])) (JNum (JInt (int 2)))
       (JNum (JInt (int (length [[1], [2], [3 :: byte]])))) = Inr proof \<and>
     verifyConsistency (JNum (JInt (int 2))) (JNum (JInt (int (length [[1], [2], [3 :: byte]]))))
       (JStr (to_hex old)) (JStr (to_hex new)) (JArr (map JStr proof)) = Inr ()"
  by (rule merkle_consistency_accepts [OF checkEntries_bytes]) simp_all

text \<open>
  Property C1. An append-only guarantee: if \<open>verifyConsistency\<close> accepts an old root at size
  \<open>m\<close> against the root and the size of a tree, then \<open>m\<close> is at most that size and the old
  root is the tree hash of the first \<open>m\<close> entries, or two strings that the verifier and the
  tree hash really hashed collide.
\<close>

theorem merkle_consistency_binds:
  assumes "checkEntries entries = Inr es" "mth entries = Inr new"
    and "int (length es) \<le> MAX_TREE_SIZE"
    and "checkSize m = Inr ms" "parseWireHash oldRoot = Inr oldH" "parseProof proof = Inr nodes"
    and "verifyConsistency m (JNum (JInt (int (length es)))) oldRoot (JStr (to_hex new)) proof = Inr ()"
  shows "ms \<le> length es \<and>
     (mth (JArr (map JBytes (take ms es))) = Inr oldH \<or>
      collision_between
        (consistencyInputs ms (length es) (if isPowerOfTwo ms then oldH # nodes else nodes))
        (mthInputs es 0 (length es)))"
proof -
  have "ms \<le> length es \<and> (oldH = mthRange es 0 ms \<or>
      collision_between
        (consistencyInputs ms (length es) (if isPowerOfTwo ms then oldH # nodes else nodes))
        (mthInputs es 0 (length es)))"
    using assms by (intro consistency_sound) (auto simp: mth_def)
  then show ?thesis
    using mthRange_prefix [of ms es] by (auto simp only: mth_def checkEntries_bytes sum.case)
qed

theorem merkle_consistency_binds_witness:
  "(let es = [[1], [2 :: byte]]
    in 1 \<le> length es \<and>
     (mth (JArr (map JBytes (take 1 es))) = Inr (mthRange es 0 1) \<or>
      collision_between
        (consistencyInputs 1 (length es)
          (if isPowerOfTwo 1 then mthRange es 0 1 # [hashLeaf [2]] else [hashLeaf [2]]))
        (mthInputs es 0 (length es))))"
proof -
  let ?es = "[[1], [2 :: byte]]"
  have pf: "subproof ?es 0 (length ?es) 1 True = [to_hex (hashLeaf [2])]"
    using subproof_tree [of 1 "length ?es" 0 ?es True]
      tree_subproof_odd [of 1 "[hashLeaf [1], hashLeaf [2 :: byte]]" hashPair True]
    by (simp only: range_leaves_all) simp
  have acc: "verifyConsistency (JNum (JInt (int 1))) (JNum (JInt (int (length ?es))))
      (JStr (to_hex (mthRange ?es 0 1))) (JStr (to_hex (mthRange ?es 0 (length ?es))))
      (JArr (map JStr (map to_hex [hashLeaf [2]]))) = Inr ()"
    using consistency_complete [of ?es 1] pf by simp
  have l32: "length (hashLeaf d) = 32" for d by (rule rfc9162.leaf_length)
  have m32: "length (mthRange ?es 0 1) = 32" by (simp add: mthRange_length)
  show ?thesis
    unfolding Let_def
    by (rule merkle_consistency_binds [OF checkEntries_bytes mth_bytes _ _ parseWireHash_to_hex [OF m32]
          parseProof_to_hex acc])
      (use checkSize_nat [of 1] l32 in auto)
qed

text \<open>
  The tree hash binds the entries: two entry lists, of whatever lengths, with one
  tree hash are equal, or two of the strings hashed for them collide (the leaf and node
  prefixes and the empty tree included).
\<close>

theorem mth_binds_entries:
  assumes "checkEntries entries = Inr es" "checkEntries entries' = Inr es'"
    and "mth entries = mth entries'"
  shows "entries = entries' \<or>
     collision_between (mthInputs es 0 (length es)) (mthInputs es' 0 (length es'))"
  using mthRange_binds [of 0 "length es" es 0 "length es'" es'] assms
  by (auto simp: mth_def dest!: checkEntries_Inr)

theorem mth_binds_entries_witness:
  "JArr (map JBytes [[7], [8 :: byte]]) = JArr (map JBytes [[7], [8]]) \<or>
     collision_between (mthInputs [[7], [8]] 0 (length [[7], [8 :: byte]]))
       (mthInputs [[7], [8]] 0 (length [[7], [8 :: byte]]))"
  by (rule mth_binds_entries [OF checkEntries_bytes checkEntries_bytes refl])

end
