(* ===== verification/Js_Store.thy ===== *)
theory Js_Store
  imports Chit_Prelude
begin

text \<open>
  The insertion-ordered \<open>Map\<close> of JavaScript, as an association list that \<open>AList.update\<close>
  and \<open>AList.delete\<close> maintain: \<open>set\<close> on a present key keeps its position, on a new key
  appends, and iteration is list order. Sums over the values carry the accounting
  invariants. Two contracts follow that several stores keep: \<open>invariant_run\<close> (an
  invariant of every run of operations) and \<open>single_use\<close> (a key is accepted at most
  once in a run).
\<close>

section \<open>Maps\<close>

type_synonym ('k, 'v) jsmap = "('k \<times> 'v) list"

abbreviation jm_get :: "('k, 'v) jsmap \<Rightarrow> 'k \<Rightarrow> 'v option" where
  "jm_get m k \<equiv> map_of m k"

abbreviation jm_set :: "'k \<Rightarrow> 'v \<Rightarrow> ('k, 'v) jsmap \<Rightarrow> ('k, 'v) jsmap" where
  "jm_set k v m \<equiv> AList.update k v m"

abbreviation jm_delete :: "'k \<Rightarrow> ('k, 'v) jsmap \<Rightarrow> ('k, 'v) jsmap" where
  "jm_delete k m \<equiv> AList.delete k m"

definition jm_has :: "('k, 'v) jsmap \<Rightarrow> 'k \<Rightarrow> bool" where
  "jm_has m k = (map_of m k \<noteq> None)"

abbreviation jm_keys :: "('k, 'v) jsmap \<Rightarrow> 'k list" where
  "jm_keys m \<equiv> map fst m"

abbreviation jm_values :: "('k, 'v) jsmap \<Rightarrow> 'v list" where
  "jm_values m \<equiv> map snd m"

text \<open>Well-formedness of the representation: one entry per key.\<close>

definition jm_ok :: "('k, 'v) jsmap \<Rightarrow> bool" where
  "jm_ok m = distinct (map fst m)"

text \<open>In-place mutation of every value, as a loop over \<open>values()\<close> does it.\<close>

definition jm_map :: "('v \<Rightarrow> 'v) \<Rightarrow> ('k, 'v) jsmap \<Rightarrow> ('k, 'v) jsmap" where
  "jm_map f m = map (\<lambda>(k, v). (k, f v)) m"

definition jm_all :: "('k \<Rightarrow> 'v \<Rightarrow> bool) \<Rightarrow> ('k, 'v) jsmap \<Rightarrow> bool" where
  "jm_all P m = list_all (\<lambda>(k, v). P k v) m"

definition jm_sum :: "('v \<Rightarrow> nat) \<Rightarrow> ('k, 'v) jsmap \<Rightarrow> nat" where
  "jm_sum f m = sum_list (map (\<lambda>(k, v). f v) m)"

lemma jm_get_set [jsmap_simps]: "jm_get (jm_set k v m) k' = (if k' = k then Some v else jm_get m k')"
  by (simp add: update_conv')

lemma jm_get_delete [jsmap_simps]: "jm_get (jm_delete k m) k' = (if k' = k then None else jm_get m k')"
  by (simp add: delete_conv')

lemma jm_has_set [jsmap_simps]: "jm_has (jm_set k v m) k' \<longleftrightarrow> k' = k \<or> jm_has m k'"
  by (simp add: jm_has_def jsmap_simps)

lemma jm_has_delete [jsmap_simps]: "jm_has (jm_delete k m) k' \<longleftrightarrow> k' \<noteq> k \<and> jm_has m k'"
  by (simp add: jm_has_def jsmap_simps)

lemma jm_has_Nil [simp]: "\<not> jm_has [] k"
  by (simp add: jm_has_def)

lemma jm_has_dom: "jm_has m k \<longleftrightarrow> k \<in> fst ` set m"
  by (simp add: jm_has_def map_of_eq_None_iff)

lemma jm_get_map [jsmap_simps]: "jm_get (jm_map f m) k = map_option f (jm_get m k)"
  by (induction m) (auto simp: jm_map_def)

lemma jm_keys_map [jsmap_simps]: "map fst (jm_map f m) = map fst m"
  by (auto simp: jm_map_def)

lemma jm_values_map [jsmap_simps]: "map snd (jm_map f m) = map f (map snd m)"
  by (auto simp: jm_map_def)

lemma jm_map_id: "(\<And>v. v \<in> set (map snd m) \<Longrightarrow> f v = v) \<Longrightarrow> jm_map f m = m"
  by (induction m) (auto simp: jm_map_def)

lemma jm_ok_Nil [simp]: "jm_ok []"
  by (simp add: jm_ok_def)

lemma jm_ok_set [simp, intro]: "jm_ok m \<Longrightarrow> jm_ok (jm_set k v m)"
  by (simp add: jm_ok_def distinct_update)

lemma jm_ok_delete [simp, intro]: "jm_ok m \<Longrightarrow> jm_ok (jm_delete k m)"
  by (simp add: jm_ok_def distinct_delete)

lemma jm_ok_map [simp]: "jm_ok (jm_map f m) = jm_ok m"
  by (simp add: jm_ok_def jsmap_simps)

lemma jm_all_get: "jm_all P m \<Longrightarrow> jm_get m k = Some v \<Longrightarrow> P k v"
  by (auto simp: jm_all_def list_all_iff dest: map_of_SomeD)

lemma jm_all_iff: "jm_ok m \<Longrightarrow> jm_all P m \<longleftrightarrow> (\<forall>k v. jm_get m k = Some v \<longrightarrow> P k v)"
  by (auto simp: jm_all_def jm_ok_def list_all_iff dest: map_of_SomeD)

lemma jm_all_set: "jm_all P m \<Longrightarrow> P k v \<Longrightarrow> jm_all P (jm_set k v m)"
  by (induction m) (auto simp: jm_all_def)

lemma jm_all_delete: "jm_all P m \<Longrightarrow> jm_all P (jm_delete k m)"
  by (induction m) (auto simp: jm_all_def)

lemma jm_all_map: "jm_all P m \<Longrightarrow> (\<And>k v. P k v \<Longrightarrow> Q k (f v)) \<Longrightarrow> jm_all Q (jm_map f m)"
  by (auto simp: jm_all_def jm_map_def list_all_iff)

lemma jm_all_Nil [simp]: "jm_all P []"
  by (simp add: jm_all_def)

lemma jm_all_conj: "jm_all (\<lambda>k v. P k v \<and> Q k v) m \<longleftrightarrow> jm_all P m \<and> jm_all Q m"
  by (auto simp: jm_all_def list_all_iff)

lemma jm_all_mono: "jm_all P m \<Longrightarrow> (\<And>k v. P k v \<Longrightarrow> Q k v) \<Longrightarrow> jm_all Q m"
  by (auto simp: jm_all_def list_all_iff)

section \<open>Sums over the values\<close>

lemma jm_sum_Nil [simp]: "jm_sum f [] = 0"
  by (simp add: jm_sum_def)

lemma jm_sum_Cons [simp]: "jm_sum f ((k, v) # m) = f v + jm_sum f m"
  by (simp add: jm_sum_def)

text \<open>Setting a key exchanges its old contribution for the new one.\<close>

lemma jm_sum_set:
  "jm_ok m \<Longrightarrow> jm_sum f (jm_set k v m) + (case jm_get m k of Some u \<Rightarrow> f u | None \<Rightarrow> 0) = jm_sum f m + f v"
proof (induction m)
  case (Cons p m)
  obtain k' v' where p: "p = (k', v')" by (cases p)
  show ?case
  proof (cases "k' = k")
    case True
    with Cons p show ?thesis by simp
  next
    case False
    with Cons p show ?thesis by (simp add: jm_ok_def)
  qed
qed simp

lemma jm_sum_set_new: "jm_get m k = None \<Longrightarrow> jm_sum f (jm_set k v m) = jm_sum f m + f v"
  by (induction m) (auto split: if_splits)

lemma jm_sum_delete_le: "jm_sum f (jm_delete k m) \<le> jm_sum f m"
  by (induction m) auto

lemma jm_sum_map: "jm_sum f (jm_map g m) = jm_sum (f \<circ> g) m"
  by (auto simp: jm_sum_def jm_map_def comp_def intro!: arg_cong [of _ _ sum_list])

lemma jm_sum_mono: "(\<And>v. f v \<le> g v) \<Longrightarrow> jm_sum f m \<le> jm_sum g m"
  by (induction m) (auto simp: add_mono)

lemma jm_sum_add: "jm_sum f m + jm_sum g m = jm_sum (\<lambda>v. f v + g v) m"
  by (induction m) auto

lemma jm_sum_le_set:
  assumes "jm_ok m" "jm_get m k = Some u" "f v \<le> f u"
  shows "jm_sum f (jm_set k v m) \<le> jm_sum f m"
  using jm_sum_set [OF assms(1), of f k v] assms(2, 3) by simp

lemma jm_sum_zero: "jm_sum f m = 0 \<longleftrightarrow> (\<forall>v \<in> snd ` set m. f v = 0)"
  by (induction m) auto

lemma jm_sum_cong: "(\<And>k v. (k, v) \<in> set m \<Longrightarrow> f v = g v) \<Longrightarrow> jm_sum f m = jm_sum g m"
  unfolding jm_sum_def by (rule arg_cong [of _ _ sum_list]) (auto intro!: map_cong)

lemma jm_sum_filter: "jm_sum f m = sum_list (map f (jm_values m))"
  by (induction m) auto

section \<open>Runs of operations\<close>

text \<open>
  The contract of a store whose every operation keeps an invariant, for the operations
  that satisfy a side condition.
\<close>

locale invariant_run =
  fixes step :: "'s \<Rightarrow> 'o \<Rightarrow> 's" and inv :: "'s \<Rightarrow> bool" and allowed :: "'o \<Rightarrow> bool"
  assumes step_inv: "inv s \<Longrightarrow> allowed x \<Longrightarrow> inv (step s x)"
begin

lemma run_inv: "inv s \<Longrightarrow> list_all allowed xs \<Longrightarrow> inv (foldl step s xs)"
  by (induction xs arbitrary: s) (auto intro: step_inv)

end

text \<open>
  The contract of a store that accepts a key once: an accepted operation found its key
  unused and leaves it used, and no operation makes a used key unused again.
\<close>

fun accepted_keys :: "('s \<Rightarrow> 'o \<Rightarrow> 's \<times> bool) \<Rightarrow> ('o \<Rightarrow> 'k) \<Rightarrow> 's \<Rightarrow> 'o list \<Rightarrow> 'k list" where
  "accepted_keys consume key s [] = []"
| "accepted_keys consume key s (x # xs) =
     (let (s', ok) = consume s x; ks = accepted_keys consume key s' xs
      in if ok then key x # ks else ks)"

locale single_use =
  fixes consume :: "'s \<Rightarrow> 'o \<Rightarrow> 's \<times> bool" and key :: "'o \<Rightarrow> 'k"
    and used :: "'s \<Rightarrow> 'k \<Rightarrow> bool" and inv :: "'s \<Rightarrow> bool"
  assumes keep: "inv s \<Longrightarrow> consume s x = (s', b) \<Longrightarrow> inv s'"
    and fresh: "inv s \<Longrightarrow> consume s x = (s', True) \<Longrightarrow> \<not> used s (key x)"
    and spent: "inv s \<Longrightarrow> consume s x = (s', True) \<Longrightarrow> used s' (key x)"
    and mono: "inv s \<Longrightarrow> consume s x = (s', b) \<Longrightarrow> used s k \<Longrightarrow> used s' k"
begin

lemma accepted_unused: "inv s \<Longrightarrow> k \<in> set (accepted_keys consume key s xs) \<Longrightarrow> \<not> used s k"
proof (induction xs arbitrary: s)
  case (Cons x xs)
  obtain s' b where c: "consume s x = (s', b)" by (cases "consume s x")
  have i: "inv s'" using keep [OF Cons.prems(1) c] .
  show ?case
  proof (cases "b \<and> k = key x")
    case True
    with c fresh [OF Cons.prems(1)] show ?thesis by auto
  next
    case False
    with Cons.prems(2) c have "k \<in> set (accepted_keys consume key s' xs)"
      by (auto simp: Let_def split: if_splits)
    with Cons.IH [OF i] have "\<not> used s' k" by blast
    with mono [OF Cons.prems(1) c] show ?thesis by blast
  qed
qed simp

lemma accepted_once: "inv s \<Longrightarrow> distinct (accepted_keys consume key s xs)"
proof (induction xs arbitrary: s)
  case (Cons x xs)
  obtain s' b where c: "consume s x = (s', b)" by (cases "consume s x")
  have i: "inv s'" using keep [OF Cons.prems c] .
  have "key x \<notin> set (accepted_keys consume key s' xs)" if b
    using accepted_unused [OF i] spent [OF Cons.prems, of x s'] c that by (cases b) auto
  with Cons.IH [OF i] c show ?case by (simp add: Let_def)
qed simp

end

end
