(* ===== verification/Js_Values.thy ===== *)
theory Js_Values
  imports Chit_Prelude
begin

text \<open>
  Conversions of JavaScript values that the sources rely on: truthiness, property access,
  \<open>String\<close>, \<open>Number\<close> and \<open>parseInt\<close>, and \<open>Date.prototype.toISOString\<close>. Number
  conversion is exact decimal arithmetic; rounding to a double (integers beyond \<open>2 ^ 53\<close>)
  is not modelled.
\<close>

section \<open>Truthiness and properties\<close>

fun js_truthy :: "jsval \<Rightarrow> bool" where
  "js_truthy JUndef = False"
| "js_truthy JNull = False"
| "js_truthy (JBool b) = b"
| "js_truthy (JNum x) = (x \<noteq> JInt 0 \<and> x \<noteq> JNegZero \<and> x \<noteq> JNaN)"
| "js_truthy (JBig i) = (i \<noteq> 0)"
| "js_truthy (JStr s) = (s \<noteq> [])"
| "js_truthy _ = True"

definition js_nullish :: "jsval \<Rightarrow> bool" where
  "js_nullish v \<longleftrightarrow> v = JUndef \<or> v = JNull"

text \<open>\<open>a ?? b\<close> and \<open>a || b\<close>.\<close>

definition js_coalesce :: "jsval \<Rightarrow> jsval \<Rightarrow> jsval" where
  "js_coalesce a b = (if js_nullish a then b else a)"

definition js_or :: "jsval \<Rightarrow> jsval \<Rightarrow> jsval" where
  "js_or a b = (if js_truthy a then a else b)"

text \<open>\<open>o?.k\<close>: the value of the last property with that name, \<open>undefined\<close> when there is none.\<close>

definition jget :: "jsval \<Rightarrow> string \<Rightarrow> jsval" where
  "jget v k = (case v of
       JObj ps \<Rightarrow> (case map_of (rev ps) k of Some x \<Rightarrow> x | None \<Rightarrow> JUndef)
     | _ \<Rightarrow> JUndef)"

section \<open>Text\<close>

definition int_string :: "int \<Rightarrow> string" where
  "int_string i = (if i < 0 then CHR ''-'' # dec_string (nat (- i)) else dec_string (nat i))"

fun num_string :: "jsnum \<Rightarrow> string" where
  "num_string (JInt i) = int_string i"
| "num_string JNegZero = ''0''"
| "num_string (JFrac f t) = t"
| "num_string JNaN = ''NaN''"
| "num_string (JInf p) = (if p then ''Infinity'' else ''-Infinity'')"

fun join_with :: "string \<Rightarrow> string list \<Rightarrow> string" where
  "join_with sep [] = []"
| "join_with sep [s] = s"
| "join_with sep (s # t # ss) = s @ sep @ join_with sep (t # ss)"

fun js_String :: "jsval \<Rightarrow> string" where
  "js_String JUndef = ''undefined''"
| "js_String JNull = ''null''"
| "js_String (JBool b) = (if b then ''true'' else ''false'')"
| "js_String (JNum x) = num_string x"
| "js_String (JBig i) = int_string i"
| "js_String (JStr s) = s"
| "js_String (JBytes bs) = join_with '','' (map (\<lambda>b. dec_string (unat b)) bs)"
| "js_String (JArr vs) =
     join_with '','' (map (\<lambda>v. if v = JUndef \<or> v = JNull then [] else js_String v) vs)"
| "js_String (JObj ps) = ''[object Object]''"

section \<open>Numbers\<close>

definition is_sign :: "char \<Rightarrow> bool" where
  "is_sign c \<longleftrightarrow> c = CHR ''+'' \<or> c = CHR ''-''"

text \<open>An unsigned decimal literal as mantissa and power of ten.\<close>

definition decimal_exponent :: "string \<Rightarrow> int option" where
  "decimal_exponent r = (case r of
       [] \<Rightarrow> Some 0
     | c # r1 \<Rightarrow>
         if c \<noteq> CHR ''e'' \<and> c \<noteq> CHR ''E'' then None
         else (case r1 of
             [] \<Rightarrow> None
           | d # r2 \<Rightarrow>
               if is_sign d then
                 (if all_digits r2
                  then Some (if d = CHR ''-'' then - int (dec_value r2) else int (dec_value r2))
                  else None)
               else if all_digits r1 then Some (int (dec_value r1)) else None))"

definition decimal_literal :: "string \<Rightarrow> (nat \<times> int) option" where
  "decimal_literal s =
     (let ip = takeWhile is_digit s; r = dropWhile is_digit s;
          dot = (case r of [] \<Rightarrow> False | c # _ \<Rightarrow> c = CHR ''.'');
          fp = (if dot then takeWhile is_digit (tl r) else []);
          r' = (if dot then dropWhile is_digit (tl r) else r)
      in if ip = [] \<and> fp = [] then None
         else map_option (\<lambda>e. (dec_value (ip @ fp), e - int (length fp))) (decimal_exponent r'))"

text \<open>The number with that mantissa and exponent; \<open>t\<close> is its text when it is no integer.\<close>

definition decimal_number :: "bool \<Rightarrow> nat \<Rightarrow> int \<Rightarrow> string \<Rightarrow> jsnum" where
  "decimal_number neg m e t =
     (let sgn = (if neg then - 1 else 1 :: int)
      in if m = 0 then (if neg then JNegZero else JInt 0)
         else if 0 \<le> e then
           (if 2 ^ 1024 \<le> int m * 10 ^ nat e then JInf (\<not> neg) else JInt (sgn * (int m * 10 ^ nat e)))
         else
           (let d = 10 ^ nat (- e)
            in if int m * 2 ^ 1075 \<le> d then (if neg then JNegZero else JInt 0)
               else if int m mod d = 0 then JInt (sgn * (int m div d))
               else JFrac ((sgn * int m) div d) t))"

definition radix_value :: "nat \<Rightarrow> string \<Rightarrow> nat option" where
  "radix_value r s =
     (let ds = map (hex_digit \<circ> lower_char) s
      in if s \<noteq> [] \<and> list_all (\<lambda>d. case d of Some x \<Rightarrow> x < r | None \<Rightarrow> False) ds
         then Some (foldl (\<lambda>n d. r * n + the d) 0 ds) else None)"

definition string_number :: "string \<Rightarrow> jsnum" where
  "string_number s0 =
     (let s = js_trim s0;
          neg = (s \<noteq> [] \<and> hd s = CHR ''-'');
          body = (if s \<noteq> [] \<and> is_sign (hd s) then tl s else s);
          radix = (if length s < 2 \<or> hd s \<noteq> CHR ''0'' then None
                   else if lower_char (s ! 1) = CHR ''x'' then Some 16
                   else if lower_char (s ! 1) = CHR ''o'' then Some 8
                   else if lower_char (s ! 1) = CHR ''b'' then Some (2::nat) else None)
      in if s = [] then JInt 0
         else case radix of
             Some r \<Rightarrow> (case radix_value r (drop 2 s) of Some n \<Rightarrow> JInt (int n) | None \<Rightarrow> JNaN)
           | None \<Rightarrow>
               if body = ''Infinity'' then JInf (\<not> neg)
               else (case decimal_literal body of
                   Some (m, e) \<Rightarrow> decimal_number neg m e s
                 | None \<Rightarrow> JNaN))"

fun js_Number :: "jsval \<Rightarrow> jsnum" where
  "js_Number JUndef = JNaN"
| "js_Number JNull = JInt 0"
| "js_Number (JBool b) = JInt (if b then 1 else 0)"
| "js_Number (JNum x) = x"
| "js_Number (JBig i) = JInt i"
| "js_Number (JStr s) = string_number s"
| "js_Number (JObj ps) = JNaN"
| "js_Number v = string_number (js_String v)"

text \<open>\<open>Number.isInteger\<close> and \<open>Number.isFinite\<close>; the integer that an integral number is.\<close>

definition num_int :: "jsnum \<Rightarrow> int option" where
  "num_int x = (case x of JInt i \<Rightarrow> Some i | JNegZero \<Rightarrow> Some 0 | _ \<Rightarrow> None)"

definition num_finite :: "jsnum \<Rightarrow> bool" where
  "num_finite x = (case x of JNaN \<Rightarrow> False | JInf _ \<Rightarrow> False | _ \<Rightarrow> True)"

text \<open>\<open>parseInt(s, 10)\<close>: white space, a sign and the longest run of digits.\<close>

definition js_parseInt :: "string \<Rightarrow> jsnum" where
  "js_parseInt s =
     (let t = dropWhile is_space s;
          neg = (t \<noteq> [] \<and> hd t = CHR ''-'');
          body = (if t \<noteq> [] \<and> is_sign (hd t) then tl t else t);
          ds = takeWhile is_digit body
      in if ds = [] then JNaN
         else if neg then (if dec_value ds = 0 then JNegZero else JInt (- int (dec_value ds)))
         else JInt (int (dec_value ds)))"

text \<open>
  \<open>===\<close> and \<open><\<close> on numbers. Two fractions with one integer part are told apart only by
  their text, and neither is below the other.
\<close>

definition num_same :: "jsnum \<Rightarrow> jsnum \<Rightarrow> bool" where
  "num_same x y =
     (case (num_int x, num_int y) of
        (Some a, Some b) \<Rightarrow> a = b
      | _ \<Rightarrow> x = y \<and> x \<noteq> JNaN)"

fun num_lt :: "jsnum \<Rightarrow> jsnum \<Rightarrow> bool" where
  "num_lt JNaN y = False"
| "num_lt x JNaN = False"
| "num_lt (JInf p) y = (\<not> p \<and> y \<noteq> JInf False)"
| "num_lt x (JInf p) = p"
| "num_lt (JFrac f t) (JFrac g u) = (f < g)"
| "num_lt (JFrac f t) y = (case num_int y of Some b \<Rightarrow> f < b | None \<Rightarrow> False)"
| "num_lt x (JFrac g u) = (case num_int x of Some a \<Rightarrow> a \<le> g | None \<Rightarrow> False)"
| "num_lt x y = (case (num_int x, num_int y) of (Some a, Some b) \<Rightarrow> a < b | _ \<Rightarrow> False)"

text \<open>\<open>BigInt(v)\<close>; \<open>None\<close> when it throws.\<close>

definition js_BigInt :: "jsval \<Rightarrow> int option" where
  "js_BigInt v =
     (case v of
        JBig i \<Rightarrow> Some i
      | JBool b \<Rightarrow> Some (if b then 1 else 0)
      | JNum x \<Rightarrow> num_int x
      | JUndef \<Rightarrow> None
      | JNull \<Rightarrow> None
      | _ \<Rightarrow>
          (let s = js_trim (js_String v);
               neg = (s \<noteq> [] \<and> hd s = CHR ''-'');
               body = (if s \<noteq> [] \<and> is_sign (hd s) then tl s else s)
           in if s = [] then Some 0
              else if all_digits body then
                Some (if neg then - int (dec_value body) else int (dec_value body))
              else (case string_number s of
                  JInt n \<Rightarrow>
                    if 2 \<le> length s \<and> hd s = CHR ''0'' \<and> \<not> is_digit (s ! 1) \<and> s ! 1 \<noteq> CHR ''.''
                       \<and> lower_char (s ! 1) \<noteq> CHR ''e''
                    then Some n else None
                | _ \<Rightarrow> None)))"

section \<open>Dates\<close>

text \<open>
  The civil date of a day number (days since 1970-01-01), and the ISO text of a time in
  milliseconds for the years 0 to 9999, where the text has four year digits.
\<close>

definition civil_date :: "int \<Rightarrow> int \<times> int \<times> int" where
  "civil_date days =
     (let z = days + 719468;
          era = z div 146097;
          doe = z mod 146097;
          yoe = (doe - doe div 1460 + doe div 36524 - doe div 146096) div 365;
          doy = doe - (365 * yoe + yoe div 4 - yoe div 100);
          mp = (5 * doy + 2) div 153;
          d = doy - (153 * mp + 2) div 5 + 1;
          m = (if mp < 10 then mp + 3 else mp - 9);
          y = yoe + era * 400 + (if m \<le> 2 then 1 else 0)
      in (y, m, d))"

definition pad_digits :: "nat \<Rightarrow> int \<Rightarrow> string" where
  "pad_digits n i = (let t = dec_string (nat i) in replicate (n - length t) CHR ''0'' @ t)"

definition iso_string :: "int \<Rightarrow> string" where
  "iso_string ms =
     (let (y, m, d) = civil_date (ms div 86400000);
          t = ms mod 86400000
      in pad_digits 4 y @ ''-'' @ pad_digits 2 m @ ''-'' @ pad_digits 2 d @ ''T''
         @ pad_digits 2 (t div 3600000) @ '':'' @ pad_digits 2 (t div 60000 mod 60) @ '':''
         @ pad_digits 2 (t div 1000 mod 60) @ ''.'' @ pad_digits 3 (t mod 1000) @ ''Z'')"

section \<open>Lemmas\<close>

lemma js_String_dec [simp]: "js_String (JStr s) = s"
  by simp

lemma int_string_nat [simp]: "int_string (int n) = dec_string n"
  by (simp add: int_string_def)

lemma all_digits_span: "all_digits s \<Longrightarrow> takeWhile is_digit s = s \<and> dropWhile is_digit s = []"
  by (auto simp: all_digits_def list_all_iff)

lemma all_digits_head: "all_digits s \<Longrightarrow> \<not> is_sign (hd s) \<and> s \<noteq> []"
  by (cases s) (auto simp: all_digits_def is_digit_def is_sign_def)

lemma js_parseInt_dec: "js_parseInt (dec_string n) = JInt (int n)"
proof -
  let ?s = "dec_string n"
  note d = all_digits_dec_string [of n]
  have t: "dropWhile is_space ?s = ?s"
    using d by (cases ?s) (auto simp: all_digits_def is_digit_not_space)
  from all_digits_head [OF d] have "?s \<noteq> []" "\<not> is_sign (hd ?s)" "hd ?s \<noteq> CHR ''-''"
    by (auto simp: is_sign_def)
  moreover have "takeWhile is_digit ?s = ?s" using all_digits_span [OF d] by blast
  ultimately show ?thesis using t
    by (simp add: js_parseInt_def Let_def del: takeWhile_eq_all_conv)
qed

end
