(* ===== verification/Spend_Hold.thy ===== *)
theory Spend_Hold
  imports Js_Store Js_Values
begin

text \<open>
  The prepaid spend ceiling, services/gateway/src/spend-hold.js: a paid call reserves its
  worst-case cost, success consumes the hold at the actual cost, failure releases it and a
  time limit expires it. The store is the \<open>Map\<close> from request ids to holds. Every operation
  is a function of the store, the clock and, for each write of the state file, whether the
  disk took it (\<open>True\<close>: written, or no file is kept; \<open>False\<close>: \<open>_save\<close> threw). The lock makes
  each operation one step. A reply carries the hold; \<open>hold_public\<close> is its public rendering.
  Clocks and expiry times are integers of milliseconds in the years 0 to 9999.
\<close>

section \<open>Amounts and configuration\<close>

definition CEILING_EXCEEDED :: string where
  "CEILING_EXCEEDED = ''CEILING_EXCEEDED''"

definition DEFAULT_HOLD_TTL_MS :: int where
  "DEFAULT_HOLD_TTL_MS = 10 * 60 * 1000"

definition spendHoldEnabled :: "jsval \<Rightarrow> bool" where
  "spendHoldEnabled env \<longleftrightarrow> jget env ''SPEND_HOLD_ENABLED'' = JStr ''true''"

definition spendHoldTtlMs :: "jsval \<Rightarrow> int" where
  "spendHoldTtlMs env =
     (case js_parseInt (js_String (js_coalesce (jget env ''SPEND_HOLD_TTL_MS'') (JStr []))) of
        JInt n \<Rightarrow> if n < 1 then DEFAULT_HOLD_TTL_MS else n
      | _ \<Rightarrow> DEFAULT_HOLD_TTL_MS)"

fun parseAtomic :: "jsval \<Rightarrow> nat option" where
  "parseAtomic (JBig i) = (if 0 \<le> i then Some (nat i) else None)"
| "parseAtomic v =
     (if js_nullish v then None
      else let s = js_trim (js_String v) in if all_digits s then Some (dec_value s) else None)"

definition reservationAmount :: "jsval \<Rightarrow> jsval \<Rightarrow> nat option" where
  "reservationAmount quoted floor =
     (case (parseAtomic quoted, parseAtomic floor) of
        (None, None) \<Rightarrow> None
      | (None, Some f) \<Rightarrow> if 0 < f then Some f else None
      | (Some q, f) \<Rightarrow>
          if q = 0 then (case f of Some f \<Rightarrow> if 0 < f then Some f else None | None \<Rightarrow> None)
          else (case f of None \<Rightarrow> Some q | Some f \<Rightarrow> Some (if f < q then q else f)))"

section \<open>Ceilings\<close>

text \<open>
  A ceiling as a caller passes it: scope, key and cap of any JavaScript type, and what the
  \<open>settled\<close> callback returns when there is one (\<open>Some None\<close>: it throws).
\<close>

record ceiling_arg =
  ca_scope :: jsval
  ca_key :: jsval
  ca_cap :: jsval
  ca_settled :: "jsval option option"

record leg =
  leg_scope :: string
  leg_key :: string
  leg_cap :: nat

record ceiling = leg +
  ceil_settled :: "jsval option option"

definition ceilingLegsFromContext ::
    "jsval \<Rightarrow> jsval \<Rightarrow> jsval option option \<Rightarrow> jsval \<Rightarrow> ceiling list" where
  "ceilingLegsFromContext agentId budget settledByAgent session =
     (if \<not> js_nullish agentId \<and> \<not> js_nullish budget \<and> js_trim (js_String budget) \<noteq> [] then
        (case (parseAtomic budget, num_int (js_Number agentId)) of
           (Some cap, Some i) \<Rightarrow>
             if 1 \<le> i then
               [\<lparr>leg_scope = ''agent'', leg_key = int_string i, leg_cap = cap,
                 ceil_settled = Some (case settledByAgent of Some r \<Rightarrow> r | None \<Rightarrow> Some (JBig 0))\<rparr>]
             else []
         | _ \<Rightarrow> [])
      else []) @
     (let hash = jget session ''delegation_hash''; max = jget session ''max_cumulative_spend''
      in if js_truthy hash \<and> \<not> js_nullish max \<and> js_trim (js_String max) \<noteq> [] then
           (case parseAtomic max of
              Some cap \<Rightarrow>
                [\<lparr>leg_scope = ''session'', leg_key = js_lower (js_String hash), leg_cap = cap,
                  ceil_settled = None\<rparr>]
            | None \<Rightarrow> [])
         else [])"

definition normalizeCeilings :: "ceiling_arg list \<Rightarrow> ceiling list" where
  "normalizeCeilings args =
     concat (map (\<lambda>a.
       case parseAtomic (ca_cap a) of
         None \<Rightarrow> []
       | Some cap \<Rightarrow>
           if \<not> js_truthy (ca_scope a) \<or> js_nullish (ca_key a) then []
           else [\<lparr>leg_scope = js_String (ca_scope a),
                  leg_key = (if ca_scope a = JStr ''session'' then js_lower (js_String (ca_key a))
                             else js_String (ca_key a)),
                  leg_cap = cap, ceil_settled = ca_settled a\<rparr>]) args)"

section \<open>Holds and the store\<close>

definition OPEN :: jsval where "OPEN = JStr ''open''"
definition CONSUMED :: jsval where "CONSUMED = JStr ''consumed''"
definition RELEASED :: jsval where "RELEASED = JStr ''released''"
definition EXPIRED :: jsval where "EXPIRED = JStr ''expired''"

lemmas hold_states = OPEN_def CONSUMED_def RELEASED_def EXPIRED_def

record hold =
  h_id :: string
  h_request :: string
  h_reserved :: nat
  h_consumed :: nat
  h_shortfall :: nat
  h_state :: jsval
  h_legs :: "leg list"
  h_created :: int
  h_expires :: int
  h_consumed_at :: jsval
  h_released_at :: jsval

type_synonym holds = "(string, hold) jsmap"

definition on_leg :: "string \<Rightarrow> string \<Rightarrow> hold \<Rightarrow> bool" where
  "on_leg scope key h \<longleftrightarrow> list_ex (\<lambda>l. leg_scope l = scope \<and> leg_key l = key) (h_legs h)"

definition due :: "int \<Rightarrow> hold \<Rightarrow> bool" where
  "due now h \<longleftrightarrow> h_state h = OPEN \<and> h_expires h \<le> now"

definition expire_hold :: "int \<Rightarrow> hold \<Rightarrow> hold" where
  "expire_hold now h =
     (if due now h then h\<lparr>h_state := EXPIRED, h_released_at := JStr (iso_string now)\<rparr> else h)"

text \<open>\<open>_expire\<close>: \<open>None\<close> when the write failed, every touched row then restored.\<close>

definition expire_due :: "holds \<Rightarrow> int \<Rightarrow> bool \<Rightarrow> holds option" where
  "expire_due s now ok =
     (if \<not> list_ex (due now) (jm_values s) then Some s
      else if ok then Some (jm_map (expire_hold now) s)
      else None)"

definition openSum :: "holds \<Rightarrow> string \<Rightarrow> string \<Rightarrow> int \<Rightarrow> nat" where
  "openSum s scope key now =
     jm_sum (\<lambda>h. if h_state h \<noteq> OPEN \<or> h_expires h \<le> now then 0
                 else if \<not> on_leg scope key h then 0 else h_reserved h) s"

definition consumedSum :: "holds \<Rightarrow> string \<Rightarrow> string \<Rightarrow> nat" where
  "consumedSum s scope key =
     jm_sum (\<lambda>h. if h_state h \<noteq> CONSUMED then 0
                 else if \<not> on_leg scope key h then 0 else h_consumed h) s"

definition settled_of :: "holds \<Rightarrow> ceiling \<Rightarrow> nat" where
  "settled_of s c =
     (case ceil_settled c of
        Some (Some v) \<Rightarrow> (case parseAtomic v of Some n \<Rightarrow> n | None \<Rightarrow> 0)
      | Some None \<Rightarrow> 0
      | None \<Rightarrow> consumedSum s (leg_scope c) (leg_key c))"

record excess =
  ex_ceiling :: string
  ex_scope_key :: string
  ex_cap :: nat
  ex_spent :: nat
  ex_held :: nat
  ex_remaining :: nat
  ex_requested :: nat

fun verdict :: "holds \<Rightarrow> ceiling list \<Rightarrow> nat \<Rightarrow> int \<Rightarrow> excess option" where
  "verdict s [] amount now = None"
| "verdict s (c # cs) amount now =
     (let settled = settled_of s c;
          held = openSum s (leg_scope c) (leg_key c) now;
          committed = settled + held;
          remaining = (if committed < leg_cap c then leg_cap c - committed else 0)
      in if leg_cap c < committed + amount
         then Some \<lparr>ex_ceiling = leg_scope c, ex_scope_key = leg_key c, ex_cap = leg_cap c,
                    ex_spent = settled, ex_held = held, ex_remaining = remaining,
                    ex_requested = amount\<rparr>
         else verdict s cs amount now)"

section \<open>Operations\<close>

text \<open>
  What a call answers: an accepted call with its hold and the idempotence mark, a refusal,
  or the error thrown by a failed write.
\<close>

datatype reply =
    Held hold bool
  | Settled hold bool nat nat
  | Unlimited
  | Fits nat
  | Excess excess
  | InvalidAmount
  | RequestIdRequired
  | HoldNotFound
  | HoldNotOpen hold
  | Swept
  | PersistFailed

definition existingLive :: "holds \<Rightarrow> string \<Rightarrow> hold option" where
  "existingLive s r =
     (case jm_get s r of
        None \<Rightarrow> None
      | Some h \<Rightarrow> if h_state h = OPEN \<or> h_state h = CONSUMED then Some h else None)"

definition plain_leg :: "ceiling \<Rightarrow> leg" where
  "plain_leg c = \<lparr>leg_scope = leg_scope c, leg_key = leg_key c, leg_cap = leg_cap c\<rparr>"

text \<open>\<open>uuid\<close> is the fresh random UUID, \<open>ttl\<close> the time limit of the store.\<close>

definition new_hold :: "string \<Rightarrow> int \<Rightarrow> string \<Rightarrow> nat \<Rightarrow> ceiling list \<Rightarrow> int \<Rightarrow> hold" where
  "new_hold uuid ttl r amount cs now =
     \<lparr>h_id = ''hold_'' @ uuid, h_request = r, h_reserved = amount, h_consumed = 0,
      h_shortfall = 0, h_state = OPEN, h_legs = map plain_leg cs, h_created = now,
      h_expires = now + ttl, h_consumed_at = JNull, h_released_at = JNull\<rparr>"

definition commit :: "holds \<Rightarrow> string \<Rightarrow> int \<Rightarrow> string \<Rightarrow> nat \<Rightarrow> ceiling list \<Rightarrow> int \<Rightarrow> bool \<Rightarrow> holds \<times> reply" where
  "commit s uuid ttl r amount cs now ok =
     (let h = new_hold uuid ttl r amount cs now; s' = jm_set r h s
      in if ok then (s', Held h False) else (jm_delete r s', PersistFailed))"

text \<open>A write's outcome per operation: the sweep's, then the operation's own.\<close>

record disk =
  sweep_ok :: bool
  save_ok :: bool

definition preview :: "holds \<Rightarrow> disk \<Rightarrow> ceiling_arg list \<Rightarrow> jsval \<Rightarrow> int \<Rightarrow> holds \<times> reply" where
  "preview s d ceilings amount at =
     (case expire_due s at (sweep_ok d) of
        None \<Rightarrow> (s, PersistFailed)
      | Some s \<Rightarrow>
          (case parseAtomic amount of
             None \<Rightarrow> (s, InvalidAmount)
           | Some requested \<Rightarrow>
               if requested = 0 then (s, InvalidAmount)
               else let legs = normalizeCeilings ceilings
                 in if legs = [] then (s, Unlimited)
                    else (case verdict s legs requested at of
                        Some e \<Rightarrow> (s, Excess e)
                      | None \<Rightarrow> (s, Fits requested))))"

definition reserve ::
    "holds \<Rightarrow> disk \<Rightarrow> string \<Rightarrow> int \<Rightarrow> jsval \<Rightarrow> jsval \<Rightarrow> ceiling_arg list \<Rightarrow> int \<Rightarrow> holds \<times> reply" where
  "reserve s d uuid ttl requestId amount ceilings at =
     (case expire_due s at (sweep_ok d) of
        None \<Rightarrow> (s, PersistFailed)
      | Some s \<Rightarrow>
          if \<not> js_truthy requestId then (s, RequestIdRequired)
          else (case existingLive s (js_String requestId) of
              Some h \<Rightarrow> (s, Held h True)
            | None \<Rightarrow>
                (case parseAtomic amount of
                   None \<Rightarrow> (s, InvalidAmount)
                 | Some requested \<Rightarrow>
                     if requested = 0 then (s, InvalidAmount)
                     else let legs = normalizeCeilings ceilings
                       in if legs = [] then (s, Unlimited)
                          else (case verdict s legs requested at of
                              Some e \<Rightarrow> (s, Excess e)
                            | None \<Rightarrow>
                                commit s uuid ttl (js_String requestId) requested legs at (save_ok d)))))"

definition consume_hold :: "hold \<Rightarrow> jsval \<Rightarrow> int \<Rightarrow> hold" where
  "consume_hold h actual at =
     (let wanted = (if js_nullish actual then h_reserved h
                    else case parseAtomic actual of None \<Rightarrow> h_reserved h | Some n \<Rightarrow> n);
          applied = (if h_reserved h < wanted then h_reserved h else wanted)
      in h\<lparr>h_state := CONSUMED, h_consumed := applied,
           h_shortfall := (if h_reserved h < wanted then wanted - h_reserved h else 0),
           h_consumed_at := JStr (iso_string at)\<rparr>)"

definition consume :: "holds \<Rightarrow> disk \<Rightarrow> jsval \<Rightarrow> jsval \<Rightarrow> int \<Rightarrow> holds \<times> reply" where
  "consume s d requestId actual at =
     (case expire_due s at (sweep_ok d) of
        None \<Rightarrow> (s, PersistFailed)
      | Some s \<Rightarrow>
          (let r = js_String (js_or requestId (JStr []))
           in case jm_get s r of
                None \<Rightarrow> (s, HoldNotFound)
              | Some h \<Rightarrow>
                  if h_state h = CONSUMED then (s, Held h True)
                  else if h_state h \<noteq> OPEN then (s, HoldNotOpen h)
                  else let h' = consume_hold h actual at
                    in if save_ok d
                       then (jm_set r h' s,
                             Settled h' False (h_reserved h' - h_consumed h') (h_shortfall h'))
                       else (s, PersistFailed)))"

definition release_hold :: "hold \<Rightarrow> int \<Rightarrow> hold" where
  "release_hold h at = h\<lparr>h_state := RELEASED, h_released_at := JStr (iso_string at)\<rparr>"

definition release :: "holds \<Rightarrow> disk \<Rightarrow> jsval \<Rightarrow> int \<Rightarrow> holds \<times> reply" where
  "release s d requestId at =
     (case expire_due s at (sweep_ok d) of
        None \<Rightarrow> (s, PersistFailed)
      | Some s \<Rightarrow>
          (let r = js_String (js_or requestId (JStr []))
           in case jm_get s r of
                None \<Rightarrow> (s, HoldNotFound)
              | Some h \<Rightarrow>
                  if h_state h = RELEASED \<or> h_state h = EXPIRED \<or> h_state h = CONSUMED
                  then (s, Held h True)
                  else let h' = release_hold h at
                    in if save_ok d then (jm_set r h' s, Held h' False) else (s, PersistFailed)))"

definition expireDue :: "holds \<Rightarrow> disk \<Rightarrow> int \<Rightarrow> holds \<times> reply" where
  "expireDue s d at =
     (case expire_due s at (sweep_ok d) of None \<Rightarrow> (s, PersistFailed) | Some s \<Rightarrow> (s, Swept))"

definition openReserved :: "holds \<Rightarrow> disk \<Rightarrow> jsval \<Rightarrow> jsval \<Rightarrow> int \<Rightarrow> holds \<times> nat option" where
  "openReserved s d scope key now =
     (case expire_due s now (sweep_ok d) of
        None \<Rightarrow> (s, None)
      | Some s \<Rightarrow> (s, Some (openSum s (js_String scope) (js_String key) now)))"

definition snapshot :: "holds \<Rightarrow> disk \<Rightarrow> int \<Rightarrow> holds \<times> hold list option" where
  "snapshot s d now =
     (case expire_due s now (sweep_ok d) of
        None \<Rightarrow> (s, None)
      | Some s \<Rightarrow>
          (s, Some (filter (\<lambda>h. h_state h = OPEN \<or> h_state h = CONSUMED) (jm_values s))))"

section \<open>Rendering and the state file\<close>

text \<open>\<open>a || null\<close>, and the items of \<open>a || []\<close> in a \<open>for of\<close> loop; \<open>None\<close> for a \<open>TypeError\<close>.\<close>

definition or_null :: "jsval \<Rightarrow> jsval" where
  "or_null v = js_or v JNull"

definition iter_items :: "jsval \<Rightarrow> jsval list option" where
  "iter_items v =
     (case js_or v (JArr []) of
        JArr vs \<Rightarrow> Some vs
      | JStr s \<Rightarrow> Some (map (\<lambda>c. JStr [c]) s)
      | _ \<Rightarrow> None)"

definition nat_text :: "nat \<Rightarrow> jsval" where
  "nat_text n = JStr (dec_string n)"

definition leg_row :: "leg \<Rightarrow> jsval" where
  "leg_row l = JObj [(''scope'', JStr (leg_scope l)), (''key'', JStr (leg_key l)),
                     (''cap'', nat_text (leg_cap l))]"

definition hold_public :: "hold \<Rightarrow> jsval" where
  "hold_public h = JObj
     [(''id'', JStr (h_id h)), (''request_id'', JStr (h_request h)),
      (''reserved'', nat_text (h_reserved h)),
      (''consumed_amount'', if h_state h = CONSUMED then nat_text (h_consumed h) else JNull),
      (''released'', if h_state h = CONSUMED
         then JStr (int_string (int (h_reserved h) - int (h_consumed h))) else JNull),
      (''shortfall'', if 0 < h_shortfall h then nat_text (h_shortfall h) else JStr ''0''),
      (''state'', h_state h), (''ceilings'', JArr (map leg_row (h_legs h))),
      (''created_at'', JStr (iso_string (h_created h))),
      (''expires_at'', JStr (iso_string (h_expires h))),
      (''consumed_at'', or_null (h_consumed_at h)), (''released_at'', or_null (h_released_at h))]"

text \<open>The refusal body: \<open>{ ...error, ...extra }\<close> keeps the position of a repeated key.\<close>

definition ceilingErrorBody :: "jsval \<Rightarrow> (string \<times> jsval) list \<Rightarrow> jsval" where
  "ceilingErrorBody decision extra =
     (let field = (\<lambda>k. js_coalesce (jget decision k) JNull);
          key = jget decision ''scope_key'';
          error =
            [(''message'', JStr ''Prepaid spend ceiling would be exceeded by this call''),
             (''type'', JStr ''ceiling_exceeded''), (''code'', JStr CEILING_EXCEEDED),
             (''remaining'', field ''remaining''), (''requested'', field ''requested''),
             (''ceiling'', field ''ceiling''), (''cap'', field ''cap''),
             (''spent'', field ''spent''), (''held'', field ''held'')] @
            (if jget decision ''ceiling'' = JStr ''agent'' \<and> \<not> js_nullish key
             then [(''agent_id'', key)] else []) @
            (if jget decision ''ceiling'' = JStr ''session'' \<and> \<not> js_nullish key
             then [(''delegation_hash'', key)] else [])
      in JObj [(''error'', JObj (foldl (\<lambda>m (k, v). AList.update k v m) error extra))])"

definition hold_row :: "hold \<Rightarrow> jsval" where
  "hold_row h = JObj
     [(''id'', JStr (h_id h)), (''request_id'', JStr (h_request h)),
      (''reserved'', nat_text (h_reserved h)), (''consumed_amount'', nat_text (h_consumed h)),
      (''shortfall'', nat_text (h_shortfall h)), (''state'', h_state h),
      (''legs'', JArr (map leg_row (h_legs h))),
      (''created_at'', JNum (JInt (h_created h))), (''expires_at'', JNum (JInt (h_expires h))),
      (''consumed_at'', or_null (h_consumed_at h)), (''released_at'', or_null (h_released_at h))]"

text \<open>The value that \<open>_save\<close> prints; \<open>JSON.parse\<close> reads it back from the file.\<close>

definition save_body :: "holds \<Rightarrow> jsval" where
  "save_body s = JObj [(''holds'', JArr (map hold_row (jm_values s)))]"

text \<open>
  \<open>Number(x) || 0\<close> as a time. A fraction is rounded up and an infinity is put beyond the last
  \<open>Date\<close>: both compare with an integer clock as the number does.
\<close>

definition clock_of :: "jsval \<Rightarrow> int" where
  "clock_of v = (case js_Number v of
       JInt i \<Rightarrow> i | JNegZero \<Rightarrow> 0 | JNaN \<Rightarrow> 0 | JFrac f t \<Rightarrow> f + 1
     | JInf p \<Rightarrow> if p then 8640000000000001 else - 8640000000000001)"

definition leg_fromDisk :: "jsval \<Rightarrow> leg list" where
  "leg_fromDisk v =
     (case parseAtomic (jget v ''cap'') of
        None \<Rightarrow> []
      | Some cap \<Rightarrow>
          if \<not> js_truthy (jget v ''scope'') \<or> js_nullish (jget v ''key'') then []
          else [\<lparr>leg_scope = js_String (jget v ''scope''), leg_key = js_String (jget v ''key''),
                 leg_cap = cap\<rparr>])"

definition nat_or_zero :: "nat option \<Rightarrow> nat" where
  "nat_or_zero x = (case x of Some n \<Rightarrow> n | None \<Rightarrow> 0)"

text \<open>\<open>None\<close>: a \<open>TypeError\<close>; \<open>Some None\<close>: the row is skipped.\<close>

definition fromDisk :: "jsval \<Rightarrow> hold option option" where
  "fromDisk row =
     (if \<not> js_truthy (jget row ''request_id'') \<or> \<not> js_truthy (jget row ''id'') then Some None
      else (case parseAtomic (jget row ''reserved'') of
          None \<Rightarrow> Some None
        | Some reserved \<Rightarrow>
            (case iter_items (jget row ''legs'') of
               None \<Rightarrow> None
             | Some ls \<Rightarrow> Some (Some
                 \<lparr>h_id = js_String (jget row ''id''), h_request = js_String (jget row ''request_id''),
                  h_reserved = reserved,
                  h_consumed = nat_or_zero (parseAtomic (jget row ''consumed_amount'')),
                  h_shortfall = nat_or_zero (parseAtomic (jget row ''shortfall'')),
                  h_state = js_or (jget row ''state'') OPEN,
                  h_legs = concat (map leg_fromDisk ls),
                  h_created = clock_of (jget row ''created_at''),
                  h_expires = clock_of (jget row ''expires_at''),
                  h_consumed_at = or_null (jget row ''consumed_at''),
                  h_released_at = or_null (jget row ''released_at'')\<rparr>))))"

fun load_rows :: "jsval list \<Rightarrow> holds \<Rightarrow> holds option" where
  "load_rows [] s = Some s"
| "load_rows (r # rs) s =
     (case fromDisk r of
        None \<Rightarrow> None
      | Some None \<Rightarrow> load_rows rs s
      | Some (Some h) \<Rightarrow> load_rows rs (jm_set (h_request h) h s))"

text \<open>
  The constructor's load: the file's value when it is there and parses (an unreadable file
  leaves the store empty), then a sweep whose failed write is thrown.
\<close>

definition load_holds :: "jsval option \<Rightarrow> int \<Rightarrow> bool \<Rightarrow> holds option" where
  "load_holds file now ok =
     (case file of
        None \<Rightarrow> Some []
      | Some data \<Rightarrow>
          if js_nullish data then None
          else (case iter_items (jget data ''holds'') of
              None \<Rightarrow> None
            | Some rs \<Rightarrow>
                (case load_rows rs [] of None \<Rightarrow> None | Some s \<Rightarrow> expire_due s now ok)))"

section \<open>Runs\<close>

datatype hold_op =
    Reserve disk string int jsval jsval "ceiling_arg list" int
  | Preview disk "ceiling_arg list" jsval int
  | Consume disk jsval jsval int
  | Release disk jsval int
  | ExpireDue disk int
  | OpenReserved disk jsval jsval int
  | Snapshot disk int

fun hold_step :: "holds \<Rightarrow> hold_op \<Rightarrow> holds" where
  "hold_step s (Reserve d u ttl r a cs t) = fst (reserve s d u ttl r a cs t)"
| "hold_step s (Preview d cs a t) = fst (preview s d cs a t)"
| "hold_step s (Consume d r a t) = fst (consume s d r a t)"
| "hold_step s (Release d r t) = fst (release s d r t)"
| "hold_step s (ExpireDue d t) = fst (expireDue s d t)"
| "hold_step s (OpenReserved d sc k t) = fst (openReserved s d sc k t)"
| "hold_step s (Snapshot d t) = fst (snapshot s d t)"

text \<open>
  Every operation is a sweep followed by at most one change of one row: an expired or
  absent row becomes a fresh open hold, an open row is consumed or released, or the row of
  a failed reservation is dropped.
\<close>

inductive hold_change :: "holds \<Rightarrow> hold_op \<Rightarrow> holds \<Rightarrow> bool" where
  hc_same: "hold_change s x s"
| hc_new: "existingLive s (js_String r) = None \<Longrightarrow> js_truthy r \<Longrightarrow> parseAtomic a = Some n \<Longrightarrow> 0 < n \<Longrightarrow>
     cs = normalizeCeilings args \<Longrightarrow> cs \<noteq> [] \<Longrightarrow> verdict s cs n t = None \<Longrightarrow>
     hold_change s (Reserve d u ttl r a args t)
       (jm_set (js_String r) (new_hold u ttl (js_String r) n cs t) s)"
| hc_drop: "existingLive s r = None \<Longrightarrow> hold_change s x (jm_delete r s)"
| hc_consume: "jm_get s r = Some h \<Longrightarrow> h_state h = OPEN \<Longrightarrow>
     hold_change s x (jm_set r (consume_hold h a t) s)"
| hc_release: "jm_get s r = Some h \<Longrightarrow> h_state h \<noteq> CONSUMED \<Longrightarrow>
     hold_change s x (jm_set r (release_hold h t) s)"

fun op_time :: "hold_op \<Rightarrow> int" where
  "op_time (Reserve d u ttl r a cs t) = t"
| "op_time (Preview d cs a t) = t"
| "op_time (Consume d r a t) = t"
| "op_time (Release d r t) = t"
| "op_time (ExpireDue d t) = t"
| "op_time (OpenReserved d sc k t) = t"
| "op_time (Snapshot d t) = t"

definition swept :: "holds \<Rightarrow> int \<Rightarrow> holds" where
  "swept s t = jm_map (expire_hold t) s"

lemma swept_none_due: "\<not> list_ex (due t) (jm_values s) \<Longrightarrow> swept s t = s"
  unfolding swept_def
  by (rule jm_map_id) (auto simp: expire_hold_def list_ex_iff)

lemma expire_due_cases:
  "expire_due s t ok = Some s' \<Longrightarrow> s' = swept s t"
  using swept_none_due [of t s] by (simp add: expire_due_def swept_def split: if_splits)

lemma expire_due_ok [simp]: "expire_due s t True = Some (swept s t)"
  using swept_none_due [of t s] by (simp add: expire_due_def swept_def)

lemma jm_delete_set: "jm_delete k (jm_set k v m) = jm_delete k m"
  by (induction m) (auto split: if_splits)

text \<open>The operations refine the abstract step.\<close>

lemma hold_step_change:
  "hold_step s x = s \<or> hold_change (swept s (op_time x)) x (hold_step s x)"
proof (cases x)
  case (Reserve d u ttl r a args t)
  show ?thesis
  proof (cases "expire_due s t (sweep_ok d)")
    case None
    with Reserve show ?thesis by (simp add: reserve_def)
  next
    case (Some s1)
    then have s1: "swept s t = s1" by (rule expire_due_cases [symmetric])
    show ?thesis
      using Reserve Some s1
      by (auto simp: reserve_def Let_def commit_def jm_delete_set
               split: option.split intro: hold_change.intros)
  qed
qed (auto simp: preview_def consume_def release_def expireDue_def openReserved_def snapshot_def Let_def
      split: option.split dest: expire_due_cases intro: hold_change.intros)

section \<open>The ceiling\<close>

text \<open>
  What a hold counts against a ceiling it lies on: its reservation while open, the settled
  amount once consumed, nothing after release or expiry. The sum does not read a clock.
\<close>

definition counted :: "string \<Rightarrow> string \<Rightarrow> hold \<Rightarrow> nat" where
  "counted scope key h =
     (if \<not> on_leg scope key h then 0
      else if h_state h = OPEN then h_reserved h
      else if h_state h = CONSUMED then h_consumed h else 0)"

definition committed :: "holds \<Rightarrow> string \<Rightarrow> string \<Rightarrow> nat" where
  "committed s scope key = jm_sum (counted scope key) s"



lemma hold_states_distinct [simp]:
  "OPEN \<noteq> CONSUMED" "OPEN \<noteq> RELEASED" "OPEN \<noteq> EXPIRED" "CONSUMED \<noteq> OPEN" "CONSUMED \<noteq> RELEASED"
  "CONSUMED \<noteq> EXPIRED" "RELEASED \<noteq> OPEN" "RELEASED \<noteq> CONSUMED" "RELEASED \<noteq> EXPIRED"
  "EXPIRED \<noteq> OPEN" "EXPIRED \<noteq> CONSUMED" "EXPIRED \<noteq> RELEASED"
  by (simp_all add: hold_states)

lemma on_leg_update [simp]:
  "on_leg sc k (h\<lparr>h_state := x\<rparr>) = on_leg sc k h"
  "on_leg sc k (h\<lparr>h_released_at := v\<rparr>) = on_leg sc k h"
  "on_leg sc k (h\<lparr>h_consumed := n\<rparr>) = on_leg sc k h"
  "on_leg sc k (h\<lparr>h_shortfall := n\<rparr>) = on_leg sc k h"
  "on_leg sc k (h\<lparr>h_consumed_at := v\<rparr>) = on_leg sc k h"
  by (simp_all add: on_leg_def)

lemma on_leg_new [simp]:
  "on_leg sc k (new_hold u ttl r n cs t) \<longleftrightarrow> list_ex (\<lambda>c. leg_scope c = sc \<and> leg_key c = k) cs"
  by (simp add: on_leg_def new_hold_def plain_leg_def list_ex_iff)




lemma jm_ok_swept [simp]: "jm_ok (swept s t) = jm_ok s"
  by (simp add: swept_def)



lemma jm_get_swept: "jm_get (swept s t) r = map_option (expire_hold t) (jm_get s r)"
  by (simp add: swept_def jsmap_simps)

lemma verdict_fits:
  "verdict s cs n t = None \<longleftrightarrow>
     list_all (\<lambda>c. settled_of s c + openSum s (leg_scope c) (leg_key c) t + n \<le> leg_cap c) cs"
  by (induction cs) (auto simp: Let_def)

lemma verdict_excess:
  "verdict s cs n t = Some e \<Longrightarrow>
     \<exists>c \<in> set cs. ex_ceiling e = leg_scope c \<and> ex_scope_key e = leg_key c \<and> ex_cap e = leg_cap c \<and>
       ex_spent e = settled_of s c \<and> ex_held e = openSum s (leg_scope c) (leg_key c) t \<and>
       ex_requested e = n \<and> ex_remaining e = ex_cap e - (ex_spent e + ex_held e) \<and>
       ex_cap e < ex_spent e + ex_held e + n"
  by (induction cs) (auto simp: Let_def split: if_splits)






section \<open>Consumed holds and the state file\<close>

definition settled_row :: "string \<Rightarrow> hold \<Rightarrow> holds \<Rightarrow> bool" where
  "settled_row r h s \<longleftrightarrow> jm_get s r = Some h \<and> h_state h = CONSUMED"

lemma settled_row_change:
  assumes "hold_change (swept s t) x s'" "settled_row r h s"
  shows "settled_row r h s'"
proof -
  from assms(2) have g: "jm_get (swept s t) r = Some h" "h_state h = CONSUMED"
    by (auto simp: settled_row_def jm_get_swept expire_hold_def due_def)
  with assms(1) show ?thesis
    by (cases rule: hold_change.cases)
       (auto simp: settled_row_def jsmap_simps existingLive_def split: if_splits)
qed

lemma settled_row_step: "settled_row r h s \<Longrightarrow> settled_row r h (hold_step s x)"
  using hold_step_change [of s x] by (auto dest: settled_row_change)

interpretation settled_run: invariant_run hold_step "settled_row r h" "\<lambda>x. True" for r h
  by unfold_locales (rule settled_row_step)

text \<open>What a row written by the store satisfies, so that it reads back.\<close>

definition row_ok :: "string \<Rightarrow> hold \<Rightarrow> bool" where
  "row_ok r h \<longleftrightarrow> h_request h = r \<and> r \<noteq> [] \<and> h_id h \<noteq> [] \<and> js_truthy (h_state h) \<and>
     list_all (\<lambda>l. leg_scope l \<noteq> []) (h_legs h) \<and>
     or_null (h_consumed_at h) = h_consumed_at h \<and> or_null (h_released_at h) = h_released_at h"

definition store_ok :: "holds \<Rightarrow> bool" where
  "store_ok s \<longleftrightarrow> jm_ok s \<and> jm_all row_ok s"

fun named_op :: "hold_op \<Rightarrow> bool" where
  "named_op (Reserve d u ttl r a args t) \<longleftrightarrow>
     js_String r \<noteq> [] \<and> list_all (\<lambda>c. leg_scope c \<noteq> []) (normalizeCeilings args)"
| "named_op x \<longleftrightarrow> True"

lemma iso_string_nonempty [simp]: "iso_string t \<noteq> []"
  by (simp add: iso_string_def Let_def split: prod.split)

lemma or_null_simps [simp]: "or_null JNull = JNull" "or_null (JStr (iso_string t)) = JStr (iso_string t)"
  by (simp_all add: or_null_def js_or_def)

lemma row_ok_expire: "row_ok r h \<Longrightarrow> row_ok r (expire_hold t h)"
  by (simp add: row_ok_def expire_hold_def hold_states)

lemma row_ok_consume: "row_ok r h \<Longrightarrow> row_ok r (consume_hold h a t)"
  by (simp add: row_ok_def consume_hold_def Let_def hold_states)

lemma row_ok_release: "row_ok r h \<Longrightarrow> row_ok r (release_hold h t)"
  by (simp add: row_ok_def release_hold_def hold_states)

lemma row_ok_new:
  "r \<noteq> [] \<Longrightarrow> list_all (\<lambda>c. leg_scope c \<noteq> []) cs \<Longrightarrow> row_ok r (new_hold u ttl r n cs t)"
  by (simp add: row_ok_def new_hold_def hold_states plain_leg_def list_all_iff)

lemma store_ok_swept: "store_ok s \<Longrightarrow> store_ok (swept s t)"
  by (auto simp: store_ok_def swept_def intro: jm_all_map row_ok_expire)

lemma store_ok_change:
  assumes "hold_change s x s'" "store_ok s" "named_op x"
  shows "store_ok s'"
  using assms
proof (cases rule: hold_change.cases)
  case (hc_new r am n cs args t' d u ttl)
  with assms show ?thesis by (auto simp: store_ok_def intro!: jm_all_set row_ok_new)
next
  case (hc_consume r h am t')
  with assms show ?thesis
    by (auto simp: store_ok_def intro!: jm_all_set row_ok_consume dest: jm_all_get)
next
  case (hc_release r h t')
  with assms show ?thesis
    by (auto simp: store_ok_def intro!: jm_all_set row_ok_release dest: jm_all_get)
qed (auto simp: store_ok_def jm_all_delete)

lemma store_ok_step: "store_ok s \<Longrightarrow> named_op x \<Longrightarrow> store_ok (hold_step s x)"
  using hold_step_change [of s x] store_ok_change store_ok_swept by metis

interpretation stored_run: invariant_run hold_step store_ok named_op
  by unfold_locales (rule store_ok_step)

lemma parseAtomic_nat_text [simp]: "parseAtomic (nat_text n) = Some n"
  by (simp add: nat_text_def js_nullish_def js_trim_digits)

lemma leg_fromDisk_row: "leg_scope l \<noteq> [] \<Longrightarrow> leg_fromDisk (leg_row l) = [l]"
  by (simp add: leg_fromDisk_def leg_row_def jget_def js_nullish_def)

lemma legs_fromDisk_rows:
  "list_all (\<lambda>l. leg_scope l \<noteq> []) ls \<Longrightarrow> concat (map leg_fromDisk (map leg_row ls)) = ls"
  by (induction ls) (auto simp: leg_fromDisk_row)

lemma iter_items_arr [simp]: "iter_items (JArr vs) = Some vs"
  by (simp add: iter_items_def js_or_def)

lemma hold_row_fields:
  "jget (hold_row h) ''id'' = JStr (h_id h)"
  "jget (hold_row h) ''request_id'' = JStr (h_request h)"
  "jget (hold_row h) ''reserved'' = nat_text (h_reserved h)"
  "jget (hold_row h) ''consumed_amount'' = nat_text (h_consumed h)"
  "jget (hold_row h) ''shortfall'' = nat_text (h_shortfall h)"
  "jget (hold_row h) ''state'' = h_state h"
  "jget (hold_row h) ''legs'' = JArr (map leg_row (h_legs h))"
  "jget (hold_row h) ''created_at'' = JNum (JInt (h_created h))"
  "jget (hold_row h) ''expires_at'' = JNum (JInt (h_expires h))"
  "jget (hold_row h) ''consumed_at'' = or_null (h_consumed_at h)"
  "jget (hold_row h) ''released_at'' = or_null (h_released_at h)"
  by (simp_all add: hold_row_def jget_def)

lemma fromDisk_row: "row_ok r h \<Longrightarrow> fromDisk (hold_row h) = Some (Some h)"
  using legs_fromDisk_rows [of "h_legs h"]
  by (simp add: fromDisk_def hold_row_fields row_ok_def nat_or_zero_def clock_of_def js_or_def)

lemma jm_set_new: "jm_get m k = None \<Longrightarrow> jm_set k v m = m @ [(k, v)]"
  by (induction m) (auto split: if_splits)

lemma load_rows_save:
  "jm_ok (acc @ s) \<Longrightarrow> jm_all row_ok s \<Longrightarrow> load_rows (map hold_row (jm_values s)) acc = Some (acc @ s)"
proof (induction s arbitrary: acc)
  case (Cons p s)
  obtain r h where p: "p = (r, h)" by (cases p)
  with Cons.prems have rh: "row_ok r h" "jm_all row_ok s" "jm_get acc r = None"
    by (auto simp: jm_all_def jm_ok_def map_of_eq_None_iff)
  from rh have "h_request h = r" by (simp add: row_ok_def)
  with rh p Cons show ?case by (simp add: fromDisk_row jm_set_new)
qed simp

lemma load_save:
  "store_ok s \<Longrightarrow> load_holds (Some (save_body s)) t True = Some (swept s t)"
  using load_rows_save [of "[]" s] swept_none_due [of t s]
  by (simp add: load_holds_def save_body_def js_nullish_def jget_def store_ok_def expire_due_def swept_def)

section \<open>Properties\<close>


definition example_cap :: "ceiling_arg list" where
  "example_cap = [\<lparr>ca_scope = JStr ''session'', ca_key = JStr ''AB'', ca_cap = JStr ''100'', ca_settled = None\<rparr>]"

definition example_run :: "hold_op list" where
  "example_run =
     [Reserve \<lparr>sweep_ok = True, save_ok = True\<rparr> ''u1'' 1000 (JStr ''r1'') (JNum (JInt 60)) example_cap 5,
      Reserve \<lparr>sweep_ok = True, save_ok = True\<rparr> ''u2'' 1000 (JStr ''r2'') (JNum (JInt 60)) example_cap 6,
      Consume \<lparr>sweep_ok = True, save_ok = True\<rparr> (JStr ''r1'') (JNum (JInt 50)) 7]"


text \<open>
  A reservation on a request id with no live hold is granted exactly when the
  write succeeds and settled spend plus open reservations plus the amount fit every
  ceiling; a refusal names a ceiling that does not fit, the amount that would still fit
  under it, and leaves the swept store.
\<close>

theorem reserve_decides:
  assumes "sweep_ok d" "js_truthy requestId" "existingLive (swept s at) (js_String requestId) = None"
    and "parseAtomic amount = Some n" "0 < n" "normalizeCeilings ceilings \<noteq> []"
  shows "let fits = (\<lambda>c. settled_of (swept s at) c + openSum (swept s at) (leg_scope c) (leg_key c) at + n
                         \<le> leg_cap c);
             (s', answer) = reserve s d uuid ttl requestId amount ceilings at
         in ((\<exists>h. answer = Held h False) \<longleftrightarrow> save_ok d \<and> list_all fits (normalizeCeilings ceilings)) \<and>
            (\<not> list_all fits (normalizeCeilings ceilings) \<longrightarrow>
               s' = swept s at \<and>
               (\<exists>e. answer = Excess e \<and> ex_cap e < ex_spent e + ex_held e + n \<and>
                    ex_remaining e = ex_cap e - (ex_spent e + ex_held e)))"
proof -
  from assms(1) have e: "expire_due s at (sweep_ok d) = Some (swept s at)" by simp
  show ?thesis
  proof (cases "verdict (swept s at) (normalizeCeilings ceilings) n at")
    case None
    with e assms have "reserve s d uuid ttl requestId amount ceilings at =
        commit (swept s at) uuid ttl (js_String requestId) n (normalizeCeilings ceilings) at (save_ok d)"
      by (simp add: reserve_def Let_def)
    with verdict_fits [THEN iffD1, OF None] show ?thesis
      by (simp add: Let_def commit_def)
  next
    case (Some x)
    then have "\<not> list_all (\<lambda>c. settled_of (swept s at) c
        + openSum (swept s at) (leg_scope c) (leg_key c) at + n \<le> leg_cap c) (normalizeCeilings ceilings)"
      using verdict_fits by (metis option.distinct(1))
    with Some e assms verdict_excess [OF Some] show ?thesis
      by (auto simp: reserve_def Let_def)
  qed
qed

definition example_disk :: disk where
  "example_disk = \<lparr>sweep_ok = True, save_ok = True\<rparr>"

definition example_new :: hold where
  "example_new = new_hold ''u1'' 1000 ''r1'' 60 (normalizeCeilings example_cap) 5"

theorem reserve_decides_witness:
  "\<exists>h. snd (reserve [] example_disk ''u1'' 1000 (JStr ''r1'') (JStr ''60'') example_cap 5) = Held h False"
proof -
  have n: "parseAtomic (JStr ''60'') = Some 60" "normalizeCeilings example_cap \<noteq> []"
    by code_simp+
  have f: "list_all (\<lambda>c. settled_of (swept [] 5) c + openSum (swept [] 5) (leg_scope c) (leg_key c) 5 + 60
      \<le> leg_cap c) (normalizeCeilings example_cap)"
    by code_simp
  have e: "existingLive (swept [] 5) (js_String (JStr ''r1'')) = None" by code_simp
  have d: "sweep_ok example_disk" "save_ok example_disk" "js_truthy (JStr ''r1'')" "0 < (60::nat)"
    by (simp_all add: example_disk_def)
  show ?thesis
    using reserve_decides [OF d(1,3) e n(1) d(4) n(2), of "''u1''" 1000] f d(2)
    by (simp add: Let_def case_prod_beta)
qed

text \<open>
  Settling an open hold charges at most the reservation, reports the rest of the
  wanted amount as shortfall, and gives the unused part of the reservation back to every
  ceiling the hold lies on.
\<close>

theorem consume_settles:
  assumes "jm_ok s" "sweep_ok d" "save_ok d" "r \<noteq> []" "jm_get (swept s at) r = Some h" "h_state h = OPEN"
  shows "\<exists>h'. consume s d (JStr r) actual at =
             (jm_set r h' (swept s at), Settled h' False (h_reserved h - h_consumed h') (h_shortfall h')) \<and>
           h_state h' = CONSUMED \<and> h_reserved h' = h_reserved h \<and> h_consumed h' \<le> h_reserved h \<and>
           h_consumed h' + h_shortfall h' =
             (if js_nullish actual then h_reserved h
              else case parseAtomic actual of None \<Rightarrow> h_reserved h | Some n \<Rightarrow> n) \<and>
           (\<forall>sc k. on_leg sc k h \<longrightarrow>
              committed (jm_set r h' (swept s at)) sc k + (h_reserved h - h_consumed h') =
              committed (swept s at) sc k)"
proof -
  let ?h = "consume_hold h actual at"
  from assms(2) have e: "expire_due s at (sweep_ok d) = Some (swept s at)" by simp
  have h': "h_state ?h = CONSUMED" "h_reserved ?h = h_reserved h" "h_consumed ?h \<le> h_reserved h"
    by (simp_all add: consume_hold_def Let_def)
  have "committed (jm_set r ?h (swept s at)) sc k + (h_reserved h - h_consumed ?h) =
        committed (swept s at) sc k" if "on_leg sc k h" for sc k
  proof -
    have "on_leg sc k ?h" using that by (simp add: on_leg_def consume_hold_def Let_def)
    then have "counted sc k ?h = h_consumed ?h" "counted sc k h = h_reserved h"
      using that h' assms(6) by (simp_all add: counted_def)
    then show ?thesis
      using jm_sum_set [of "swept s at" "counted sc k" r ?h] assms(1, 5) h'
      by (simp add: committed_def)
  qed
  moreover have "h_consumed ?h + h_shortfall ?h =
      (if js_nullish actual then h_reserved h
       else case parseAtomic actual of None \<Rightarrow> h_reserved h | Some n \<Rightarrow> n)"
    by (simp add: consume_hold_def Let_def)
  moreover have "consume s d (JStr r) actual at =
      (jm_set r ?h (swept s at), Settled ?h False (h_reserved h - h_consumed ?h) (h_shortfall ?h))"
    using e assms h'(2) by (simp add: consume_def js_or_def Let_def)
  ultimately show ?thesis using h' by blast
qed

theorem consume_settles_witness:
  "\<exists>h'. consume [(''r1'', example_new)] example_disk (JStr ''r1'') (JStr ''75'') 7 =
         ([(''r1'', h')], Settled h' False (60 - h_consumed h') (h_shortfall h')) \<and>
      h_consumed h' \<le> 60 \<and> h_consumed h' + h_shortfall h' = 75"
proof -
  have h: "jm_get (swept [(''r1'', example_new)] 7) ''r1'' = Some example_new"
    "h_state example_new = OPEN" "jm_ok [(''r1'', example_new)]" "''r1'' \<noteq> []"
    "sweep_ok example_disk" "save_ok example_disk"
    by code_simp+
  have v: "parseAtomic (JStr ''75'') = Some 75" "h_reserved example_new = 60"
    "jm_set ''r1'' x (swept [(''r1'', example_new)] 7) = [(''r1'', x)]" for x
    by (code_simp, code_simp, simp add: swept_def jm_map_def)
  show ?thesis
    using consume_settles [OF h(3) h(5,6) h(4) h(1,2), of "JStr ''75''"] v
    by (auto simp: js_nullish_def)
qed

text \<open>
  A consumed hold is settled spend: no later operation changes or removes it,
  and reserving its request id again returns it instead of holding twice.
\<close>

theorem consumed_is_final:
  assumes "jm_get s r = Some h" "h_state h = CONSUMED"
  shows "jm_get (foldl hold_step s ops) r = Some h \<and>
    (sweep_ok d \<and> r \<noteq> [] \<longrightarrow>
       snd (reserve (foldl hold_step s ops) d uuid ttl (JStr r) amount ceilings at) = Held h True)"
proof -
  from assms have *: "settled_row r h (foldl hold_step s ops)"
    by (intro settled_run.run_inv) (auto simp: settled_row_def list_all_iff)
  then have g: "jm_get (foldl hold_step s ops) r = Some h" by (simp add: settled_row_def)
  then have "jm_get (swept (foldl hold_step s ops) at) r = Some h"
    using assms by (simp add: jm_get_swept expire_hold_def due_def)
  with g assms show ?thesis by (simp add: reserve_def existingLive_def)
qed

theorem consumed_is_final_witness:
  "jm_get (foldl hold_step [(''r1'', consume_hold example_new (JStr ''50'') 7)] example_run) ''r1'' =
     Some (consume_hold example_new (JStr ''50'') 7)"
  by (rule consumed_is_final [THEN conjunct1]) (simp_all add: consume_hold_def Let_def)

text \<open>
  Every store reached by operations on named requests reads back from its file
  as it was, up to the holds whose time limit passed meanwhile.
\<close>

theorem holds_survive_restart:
  assumes "list_all named_op ops"
  shows "load_holds (Some (save_body (foldl hold_step [] ops))) now True =
         Some (swept (foldl hold_step [] ops) now)"
proof -
  have "store_ok (foldl hold_step [] ops)"
    by (rule stored_run.run_inv [OF _ assms]) (simp add: store_ok_def)
  then show ?thesis by (rule load_save)
qed

theorem holds_survive_restart_witness:
  "load_holds (Some (save_body (foldl hold_step [] example_run))) 9 True =
   Some (swept (foldl hold_step [] example_run) 9)"
proof -
  have "list_all named_op example_run" by code_simp
  then show ?thesis by (rule holds_survive_restart)
qed

end
