(* ===== verification/Byte_Ints.thy ===== *)
theory Byte_Ints
  imports Chit_Prelude
begin

text \<open>
  packages/cs2-core/ecdsa/bytes.js: big-endian integers, hexadecimal text and the
  concatenation and comparison of byte strings. A fallible function answers \<open>Inl\<close> of the
  error's \<open>code\<close>.
\<close>

type_synonym 'a outcome = "string + 'a"

definition bytesToBig :: "bytes \<Rightarrow> nat" where
  "bytesToBig bs = foldl (\<lambda>n b. n * 256 + unat b) 0 bs"

text \<open>The loop of \<open>bigToBytes\<close>: the low bytes from the last position down, and what is left.\<close>

fun big_bytes_loop :: "nat \<Rightarrow> nat \<Rightarrow> bytes \<Rightarrow> nat \<times> bytes" where
  "big_bytes_loop 0 v out = (v, out)"
| "big_bytes_loop (Suc i) v out = big_bytes_loop i (v div 256) (word_of_nat (v mod 256) # out)"

definition bigToBytes :: "int \<Rightarrow> nat \<Rightarrow> bytes outcome" where
  "bigToBytes value n =
     (if value < 0 then Inl ''bad_scalar''
      else let (v, out) = big_bytes_loop n (nat value) []
        in if v \<noteq> 0 then Inl ''bad_scalar'' else Inr out)"

definition concatBytes :: "bytes list \<Rightarrow> bytes" where
  "concatBytes parts = concat parts"

definition equalBytes :: "bytes \<Rightarrow> bytes \<Rightarrow> bool" where
  "equalBytes a b =
     (if length a \<noteq> length b then False
      else foldl (\<lambda>d (x, y). or d (xor x y)) 0 (zip a b) = 0)"

definition bytesToHex :: "bytes \<Rightarrow> string" where
  "bytesToHex bs = to_hex bs"

definition strip_0x :: "string \<Rightarrow> string" where
  "strip_0x s = (case s of
       c # x # r \<Rightarrow> if c = CHR ''0'' \<and> (x = CHR ''x'' \<or> x = CHR ''X'') then r else s
     | _ \<Rightarrow> s)"

definition hexToBytes :: "string \<Rightarrow> bytes outcome" where
  "hexToBytes value =
     (let hex = strip_0x value
      in if odd (length hex) then Inl ''bad_hex''
         else case of_hex (js_lower hex) of Some bs \<Rightarrow> Inr bs | None \<Rightarrow> Inl ''bad_hex'')"

text \<open>\<open>buf.subarray(a, b)\<close>.\<close>

definition slice :: "'a list \<Rightarrow> nat \<Rightarrow> nat \<Rightarrow> 'a list" where
  "slice xs a b = take (b - a) (drop a xs)"

text \<open>The bytes of a number without leading zeros, as the loops of \<open>encodeLen\<close> and \<open>rlpInt\<close> build them.\<close>

fun min_bytes_acc :: "nat \<Rightarrow> bytes \<Rightarrow> bytes" where
  "min_bytes_acc v acc =
     (if v = 0 then acc else min_bytes_acc (v div 256) (word_of_nat (v mod 256) # acc))"

declare min_bytes_acc.simps [simp del]

definition min_bytes :: "nat \<Rightarrow> bytes" where
  "min_bytes v = min_bytes_acc v []"

section \<open>Lemmas\<close>

lemma unat_low_byte [simp]: "unat (word_of_nat (v mod 256) :: byte) = v mod 256"
  by (simp add: unat_of_nat)

lemma byte_pos: "0 < unat (b :: byte) \<longleftrightarrow> b \<noteq> 0"
  by (metis neq0_conv unat_0 unsigned_word_eqI)

lemma bytesToBig_acc: "foldl (\<lambda>n b. n * 256 + unat b) a bs = a * 256 ^ length bs + bytesToBig bs"
proof (induction bs arbitrary: a)
  case (Cons b bs)
  have "bytesToBig (b # bs) = unat b * 256 ^ length bs + bytesToBig bs"
    using Cons [of "unat b"] by (simp add: bytesToBig_def)
  with Cons [of "a * 256 + unat b"] show ?case by (simp add: algebra_simps)
qed (simp add: bytesToBig_def)

lemma bytesToBig_Nil [simp]: "bytesToBig [] = 0"
  by (simp add: bytesToBig_def)

lemma bytesToBig_Cons: "bytesToBig (b # bs) = unat b * 256 ^ length bs + bytesToBig bs"
  using bytesToBig_acc [of "unat b" bs] by (simp add: bytesToBig_def)

lemma bytesToBig_append: "bytesToBig (a @ b) = bytesToBig a * 256 ^ length b + bytesToBig b"
  using bytesToBig_acc [of "bytesToBig a" b] by (simp add: bytesToBig_def)

lemma bytesToBig_bound: "bytesToBig bs < 256 ^ length bs"
proof (induction bs)
  case (Cons b bs)
  have "unat b + 1 \<le> 256" using byte_bound [of b] by simp
  then have "(unat b + 1) * 256 ^ length bs \<le> 256 * 256 ^ length bs"
    by (rule mult_le_mono1)
  then have "unat b * 256 ^ length bs + 256 ^ length bs \<le> 256 * 256 ^ length bs"
    by (simp only: distrib_right mult_1)
  with Cons have "unat b * 256 ^ length bs + bytesToBig bs < 256 * 256 ^ length bs" by linarith
  then show ?case by (simp add: bytesToBig_Cons)
qed simp

lemma bytesToBig_inject:
  "length a = length b \<Longrightarrow> bytesToBig a = bytesToBig b \<Longrightarrow> a = b"
proof (induction a b rule: list_induct2)
  case (Cons x xs y ys)
  let ?p = "256 ^ length xs :: nat"
  have e: "unat x * ?p + bytesToBig xs = unat y * ?p + bytesToBig ys"
    using Cons by (simp add: bytesToBig_Cons)
  have b: "bytesToBig xs < ?p" "bytesToBig ys < ?p"
    using bytesToBig_bound [of xs] bytesToBig_bound [of ys] Cons.hyps by simp_all
  from b have "(unat x * ?p + bytesToBig xs) div ?p = unat x"
    "(unat y * ?p + bytesToBig ys) div ?p = unat y" by simp_all
  with e have u: "unat x = unat y" by simp
  then have "x = y" by (rule unsigned_word_eqI)
  with e Cons.IH show ?case by simp
qed simp

lemma big_bytes_loop_inv:
  "big_bytes_loop n v out = (w, bs) \<Longrightarrow>
     \<exists>pre. bs = pre @ out \<and> length pre = n \<and> v = w * 256 ^ n + bytesToBig pre"
proof (induction n arbitrary: v out)
  case (Suc n)
  from Suc.prems have "big_bytes_loop n (v div 256) (word_of_nat (v mod 256) # out) = (w, bs)" by simp
  from Suc.IH [OF this] obtain pre where
    p: "bs = pre @ word_of_nat (v mod 256) # out" "length pre = n"
       "v div 256 = w * 256 ^ n + bytesToBig pre" by blast
  have "v = 256 * (v div 256) + v mod 256" by simp
  also have "\<dots> = w * 256 ^ Suc n + bytesToBig (pre @ [word_of_nat (v mod 256)])"
    using p by (simp add: bytesToBig_append bytesToBig_Cons algebra_simps)
  finally show ?case using p
    by (intro exI [of _ "pre @ [word_of_nat (v mod 256)]"]) simp
qed simp

lemma bigToBytes_value:
  "bigToBytes value n = Inr bs \<Longrightarrow> length bs = n \<and> value = int (bytesToBig bs)"
proof -
  assume a: "bigToBytes value n = Inr bs"
  obtain w out where l: "big_bytes_loop n (nat value) [] = (w, out)" by (cases "big_bytes_loop n (nat value) []")
  from a l have "0 \<le> value" "w = 0" "out = bs" by (auto simp: bigToBytes_def split: if_splits)
  with big_bytes_loop_inv [OF l] show ?thesis by auto
qed

lemma bigToBytes_bytesToBig [simp]: "length bs = n \<Longrightarrow> bigToBytes (int (bytesToBig bs)) n = Inr bs"
proof -
  assume n: "length bs = n"
  obtain w out where l: "big_bytes_loop n (bytesToBig bs) [] = (w, out)"
    by (cases "big_bytes_loop n (bytesToBig bs) []")
  from big_bytes_loop_inv [OF l] have o: "length out = n" "bytesToBig bs = w * 256 ^ n + bytesToBig out"
    by auto
  with bytesToBig_bound [of bs] n have "w = 0" by (cases w) auto
  with o n have "out = bs" by (auto intro: bytesToBig_inject)
  with \<open>w = 0\<close> l show ?thesis by (simp add: bigToBytes_def)
qed

lemma min_bytes_acc_append: "min_bytes_acc v acc = min_bytes_acc v [] @ acc"
proof (induction v arbitrary: acc rule: less_induct)
  case (less v)
  show ?case
  proof (cases "v = 0")
    case False
    then have "v div 256 < v" by simp
    note ih = less [OF this]
    have "min_bytes_acc v acc = min_bytes_acc (v div 256) [] @ word_of_nat (v mod 256) # acc"
      using False ih [of "word_of_nat (v mod 256) # acc"] by (subst min_bytes_acc.simps) simp
    moreover have "min_bytes_acc v [] = min_bytes_acc (v div 256) [] @ [word_of_nat (v mod 256)]"
      using False ih [of "[word_of_nat (v mod 256)]"] by (subst min_bytes_acc.simps) simp
    ultimately show ?thesis by simp
  qed (simp add: min_bytes_acc.simps)
qed

lemma min_bytes_0 [simp]: "min_bytes 0 = []"
  by (simp add: min_bytes_def min_bytes_acc.simps)

lemma min_bytes_rec: "v \<noteq> 0 \<Longrightarrow> min_bytes v = min_bytes (v div 256) @ [word_of_nat (v mod 256)]"
  unfolding min_bytes_def
  by (subst min_bytes_acc.simps) (simp only: if_False min_bytes_acc_append [of "v div 256" "[_]"])

lemma bytesToBig_min_bytes [simp]: "bytesToBig (min_bytes v) = v"
proof (induction v rule: less_induct)
  case (less v)
  show ?case
  proof (cases "v = 0")
    case False
    then have "bytesToBig (min_bytes (v div 256)) = v div 256" by (intro less) simp
    with min_bytes_rec [OF False] show ?thesis by (simp add: bytesToBig_append bytesToBig_Cons)
  qed simp
qed

lemma min_bytes_head: "v \<noteq> 0 \<Longrightarrow> min_bytes v \<noteq> [] \<and> hd (min_bytes v) \<noteq> 0"
proof (induction v rule: less_induct)
  case (less v)
  show ?case
  proof (cases "v div 256 = 0")
    case True
    then have "v < 256" by simp
    then have "word_of_nat v \<noteq> (0 :: byte)"
      using less.prems by (metis mod_less unat_low_byte unat_0)
    with True less.prems \<open>v < 256\<close> show ?thesis by (simp add: min_bytes_rec)
  next
    case False
    with less have "min_bytes (v div 256) \<noteq> []" "hd (min_bytes (v div 256)) \<noteq> 0" by simp_all
    with min_bytes_rec [OF less.prems] show ?thesis by simp
  qed
qed

lemma length_min_bytes: "v < 256 ^ n \<Longrightarrow> length (min_bytes v) \<le> n"
proof (induction n arbitrary: v)
  case (Suc n)
  show ?case
  proof (cases "v = 0")
    case False
    from Suc.prems have "v div 256 < 256 ^ n" by (simp add: less_mult_imp_div_less mult.commute)
    with Suc.IH False show ?thesis by (simp add: min_bytes_rec)
  qed simp
qed simp

text \<open>Only the minimal form has no leading zero.\<close>

lemma min_bytes_unique: "bs = [] \<or> hd bs \<noteq> 0 \<Longrightarrow> min_bytes (bytesToBig bs) = bs"
proof (induction bs rule: rev_induct)
  case (snoc b bs)
  let ?v = "bytesToBig (bs @ [b])"
  have v: "?v = bytesToBig bs * 256 + unat b" by (simp add: bytesToBig_append bytesToBig_Cons)
  have d: "?v div 256 = bytesToBig bs" "?v mod 256 = unat b"
    using byte_bound [of b] v by simp_all
  have "?v \<noteq> 0"
  proof (cases "bs = []")
    case True
    with snoc.prems show ?thesis by (simp add: bytesToBig_Cons byte_pos [THEN iffD2])
  next
    case False
    with snoc.prems have "hd bs \<noteq> 0" by simp
    with False have "0 < unat (hd bs)" by (simp add: byte_pos)
    then have "0 < bytesToBig bs" using False
      by (cases bs) (auto simp: bytesToBig_Cons)
    with v show ?thesis by simp
  qed
  moreover have "min_bytes (bytesToBig bs) = bs" using snoc by (cases "bs = []") auto
  ultimately show ?case using d by (simp add: min_bytes_rec)
qed simp

lemma xor_zero: "xor x y = (0 :: byte) \<longleftrightarrow> x = y"
proof
  assume "xor x y = 0"
  then have "xor (xor x y) y = xor 0 y" by simp
  then show "x = y" by (simp add: xor.assoc)
qed simp

lemma equalBytes_fold:
  "length a = length b \<Longrightarrow>
     foldl (\<lambda>d (x, y). or d (xor x y)) e (zip a b) = (0 :: byte) \<longleftrightarrow> e = 0 \<and> a = b"
proof (induction a b arbitrary: e rule: list_induct2)
  case (Cons x xs y ys)
  then show ?case by (simp add: or_eq_0_iff xor_zero)
qed simp

lemma equalBytes_eq: "equalBytes a b \<longleftrightarrow> a = b"
  using equalBytes_fold [of a b 0] by (auto simp: equalBytes_def)

lemma bytesToHex_hexToBytes: "hexToBytes (bytesToHex bs) = Inr bs"
proof -
  have low: "js_lower (to_hex bs) = to_hex bs"
  proof -
    have "lower_char c = c" if "hex_digit c \<noteq> None" for c
      using that by (auto simp: hex_digit_def lower_char_def Let_def split: if_splits)
    with is_hex_to_hex [of bs] show ?thesis
      by (auto simp: is_hex_def js_lower_def list_all_iff intro: map_idI)
  qed
  have "strip_0x (to_hex bs) = to_hex bs"
  proof (cases "to_hex bs")
    case (Cons c r)
    show ?thesis
    proof (cases r)
      case (Cons d s)
      with \<open>to_hex bs = c # r\<close> is_hex_to_hex [of bs] have "hex_digit d \<noteq> None" by (simp add: is_hex_def)
      then have "d \<noteq> CHR ''x''" "d \<noteq> CHR ''X''" by (auto simp: hex_digit_def Let_def)
      with Cons \<open>to_hex bs = c # r\<close> show ?thesis by (simp add: strip_0x_def)
    qed (simp add: strip_0x_def \<open>to_hex bs = c # r\<close>)
  qed (simp add: strip_0x_def)
  with low show ?thesis by (simp add: hexToBytes_def bytesToHex_def Let_def of_hex_to_hex)
qed

lemma length_slice [simp]: "b \<le> length xs \<Longrightarrow> length (slice xs a b) = b - a"
  by (simp add: slice_def)

lemma slice_at: "a = length p \<Longrightarrow> b = a + length q \<Longrightarrow> slice (p @ q @ r) a b = q"
  by (simp add: slice_def)

lemma slice_split: "a \<le> b \<Longrightarrow> b \<le> c \<Longrightarrow> slice xs a c = slice xs a b @ slice xs b c"
proof -
  assume "a \<le> b" "b \<le> c"
  then have "c - a = (b - a) + (c - b)" "drop b xs = drop (b - a) (drop a xs)" by simp_all
  then show ?thesis by (simp only: slice_def take_add)
qed

lemma slice_Cons: "a < length xs \<Longrightarrow> a < b \<Longrightarrow> slice xs a b = xs ! a # slice xs (Suc a) b"
  by (simp add: slice_def flip: Cons_nth_drop_Suc) (metis Suc_diff_Suc take_Suc_Cons)

lemma slice_same [simp]: "slice xs a a = []"
  by (simp add: slice_def)

lemma slice_one: "a < length xs \<Longrightarrow> slice xs a (Suc a) = [xs ! a]"
  by (simp add: slice_Cons)

lemma slice_nth0: "a < length xs \<Longrightarrow> a < b \<Longrightarrow> slice xs a b ! 0 = xs ! a"
  by (simp add: slice_Cons)

lemma bytesToBig_zeros: "bytesToBig (replicate k 0 @ bs) = bytesToBig bs"
  by (induction k) (simp_all add: bytesToBig_Cons)

end
