(* ===== verification/Rlp.thy ===== *)
theory Rlp
  imports Byte_Ints
begin

text \<open>
  packages/cs2-core/ecdsa/rlp.js and eip1559.js: the Ethereum RLP encoder and its strict
  decoder, and the type-2 transaction built on them. The decoder works on offsets into one
  buffer as the source does; its recursion carries fuel for the nesting depth, and \<open>rlpDecode\<close>
  starts it with the length of the buffer and one, which is always enough. A thrown error is
  \<open>Inl\<close> of its code. A value is a byte string or a list of values.
\<close>

section \<open>Encoder\<close>

datatype rlp = RStr bytes | RLst "rlp list"

definition encodeLen :: "nat \<Rightarrow> bytes" where
  "encodeLen len = min_bytes len"

definition rlp_prefix :: "nat \<Rightarrow> bytes \<Rightarrow> bytes" where
  "rlp_prefix shortBase payload =
     (if length payload \<le> 55 then word_of_nat (shortBase + length payload) # payload
      else let lenBytes = encodeLen (length payload)
        in word_of_nat (shortBase + 55 + length lenBytes) # lenBytes @ payload)"

definition rlpBytes :: "bytes \<Rightarrow> bytes" where
  "rlpBytes b = (if length b = 1 \<and> unat (b ! 0) < 128 then b else rlp_prefix 128 b)"

definition rlpList :: "bytes list \<Rightarrow> bytes" where
  "rlpList items = rlp_prefix 192 (concatBytes items)"

definition rlpInt :: "int \<Rightarrow> bytes outcome" where
  "rlpInt v =
     (if v < 0 then Inl ''rlp_negative''
      else if v = 0 then Inr [128]
      else Inr (rlpBytes (min_bytes (nat v))))"

text \<open>The encoding of a value, as the callers nest \<open>rlpBytes\<close> and \<open>rlpList\<close>.\<close>

fun rlp_encode :: "rlp \<Rightarrow> bytes" where
  "rlp_encode (RStr b) = rlpBytes b"
| "rlp_encode (RLst ts) = rlpList (map rlp_encode ts)"

section \<open>Decoder\<close>

datatype rlp_error = RlpInvalid | NoFuel

definition readLen :: "bytes \<Rightarrow> nat \<Rightarrow> nat \<Rightarrow> rlp_error + nat \<times> nat" where
  "readLen buf offset count =
     (if count = 0 \<or> length buf < offset + count then Inl RlpInvalid
      else if buf ! offset = 0 then Inl RlpInvalid
      else Inr (bytesToBig (slice buf offset (offset + count)), offset + count))"

text \<open>The loop of \<open>readList\<close>, at most \<open>n\<close> rounds, over the reader of one item.\<close>

primrec readItems ::
    "nat \<Rightarrow> (nat \<Rightarrow> rlp_error + rlp \<times> nat) \<Rightarrow> nat \<Rightarrow> nat \<Rightarrow> rlp list \<Rightarrow> rlp_error + rlp list" where
  "readItems 0 item offset endp items = Inl NoFuel"
| "readItems (Suc n) item offset endp items =
     (if offset < endp then
        (case item offset of
           Inl e \<Rightarrow> Inl e
         | Inr (t, nxt) \<Rightarrow>
             if endp < nxt then Inl RlpInvalid
             else readItems n item nxt endp (items @ [t]))
      else Inr items)"

definition readList ::
    "bytes \<Rightarrow> (nat \<Rightarrow> rlp_error + rlp \<times> nat) \<Rightarrow> nat \<Rightarrow> nat \<Rightarrow> rlp_error + rlp \<times> nat" where
  "readList buf item start endp =
     (if length buf < endp then Inl RlpInvalid
      else (case readItems (Suc (endp - start)) item start endp [] of
          Inl e \<Rightarrow> Inl e
        | Inr ts \<Rightarrow> Inr (RLst ts, endp)))"

primrec readItem :: "nat \<Rightarrow> bytes \<Rightarrow> nat \<Rightarrow> rlp_error + rlp \<times> nat" where
  "readItem 0 buf offset = Inl NoFuel"
| "readItem (Suc f) buf offset =
     (if length buf \<le> offset then Inl RlpInvalid
      else let prefixByte = unat (buf ! offset) in
        if prefixByte < 128 then Inr (RStr (slice buf offset (offset + 1)), offset + 1)
        else if prefixByte \<le> 183 then
          (let len = prefixByte - 128; start = offset + 1
           in if length buf < start + len then Inl RlpInvalid
              else if len = 1 \<and> unat (buf ! start) < 128 then Inl RlpInvalid
              else Inr (RStr (slice buf start (start + len)), start + len))
        else if prefixByte \<le> 191 then
          (case readLen buf (offset + 1) (prefixByte - 183) of
             Inl e \<Rightarrow> Inl e
           | Inr (len, nxt) \<Rightarrow>
               if len < 56 \<or> length buf < nxt + len then Inl RlpInvalid
               else Inr (RStr (slice buf nxt (nxt + len)), nxt + len))
        else if prefixByte \<le> 247 then
          (let len = prefixByte - 192
           in readList buf (readItem f buf) (offset + 1) (offset + 1 + len))
        else
          (case readLen buf (offset + 1) (prefixByte - 247) of
             Inl e \<Rightarrow> Inl e
           | Inr (len, nxt) \<Rightarrow>
               if len < 56 then Inl RlpInvalid
               else readList buf (readItem f buf) nxt (nxt + len)))"

definition rlpDecode :: "bytes \<Rightarrow> rlp_error + rlp" where
  "rlpDecode buf =
     (case readItem (length buf + 1) buf 0 of
        Inl e \<Rightarrow> Inl e
      | Inr (t, nxt) \<Rightarrow> if nxt \<noteq> length buf then Inl RlpInvalid else Inr t)"

definition rlpIntValue :: "bytes \<Rightarrow> nat" where
  "rlpIntValue bs = (if length bs = 0 then 0 else bytesToBig bs)"

section \<open>What the decoder reads is the canonical encoding\<close>

lemma unat_byte [simp]: "n < 256 \<Longrightarrow> unat (word_of_nat n :: byte) = n"
  by (simp add: unat_of_nat)

lemma word_unat_eq: "unat (b :: byte) = n \<Longrightarrow> word_of_nat n = b"
  by auto

lemma readLen_read:
  assumes "readLen buf off count = Inr (len, nxt)"
  shows "nxt = off + count \<and> 0 < count \<and> nxt \<le> length buf \<and>
         slice buf off nxt = encodeLen len \<and> length (encodeLen len) = count"
proof -
  from assms have c: "count \<noteq> 0" "off + count \<le> length buf" "buf ! off \<noteq> 0"
    "len = bytesToBig (slice buf off (off + count))" "nxt = off + count"
    by (auto simp: readLen_def split: if_splits)
  let ?s = "slice buf off (off + count)"
  have "?s = buf ! off # slice buf (Suc off) (off + count)"
    using c by (intro slice_Cons) auto
  then have "hd ?s \<noteq> 0" using c by simp
  then have "min_bytes (bytesToBig ?s) = ?s" by (intro min_bytes_unique) simp
  with c show ?thesis by (simp add: encodeLen_def)
qed

definition reads_item :: "bytes \<Rightarrow> nat \<Rightarrow> rlp \<Rightarrow> nat \<Rightarrow> bool" where
  "reads_item buf off t nxt \<longleftrightarrow> off < nxt \<and> nxt \<le> length buf \<and> slice buf off nxt = rlp_encode t"

definition reads_items :: "bytes \<Rightarrow> nat \<Rightarrow> rlp list \<Rightarrow> nat \<Rightarrow> bool" where
  "reads_items buf off ts nxt \<longleftrightarrow> off \<le> nxt \<and> nxt \<le> length buf \<and>
     slice buf off nxt = concatBytes (map rlp_encode ts)"

lemma reads_short:
  assumes "unat (buf ! off) = base + len" "len \<le> 55" "off + 1 + len \<le> length buf"
  shows "slice buf off (off + 1 + len) = rlp_prefix base (slice buf (off + 1) (off + 1 + len))"
proof -
  have "word_of_nat (base + len) = buf ! off" using assms(1) by (rule word_unat_eq)
  moreover have "slice buf off (off + 1 + len) = buf ! off # slice buf (off + 1) (off + 1 + len)"
    using assms by (subst slice_Cons) auto
  ultimately show ?thesis using assms by (simp add: rlp_prefix_def)
qed

lemma reads_long:
  assumes "unat (buf ! off) = base + 55 + count" "readLen buf (off + 1) count = Inr (len, nxt)"
    and "56 \<le> len" "nxt + len \<le> length buf"
  shows "off < nxt \<and> slice buf off (nxt + len) = rlp_prefix base (slice buf nxt (nxt + len))"
proof -
  from readLen_read [OF assms(2)] have n: "nxt = off + 1 + count" "0 < count" "nxt \<le> length buf"
    "slice buf (off + 1) nxt = encodeLen len" "length (encodeLen len) = count" by auto
  have "slice buf off (nxt + len) = slice buf off (off + 1) @ slice buf (off + 1) nxt @ slice buf nxt (nxt + len)"
    using n by (metis le_add1 slice_split trans_le_add1)
  moreover have "slice buf off (off + 1) = [buf ! off]"
    using n by (subst slice_Cons) auto
  moreover have "word_of_nat (base + 55 + count) = buf ! off" using assms(1) by (rule word_unat_eq)
  ultimately show ?thesis using n assms by (simp add: rlp_prefix_def)
qed

lemma readItems_reads:
  assumes item: "\<And>p t n. item p = Inr (t, n) \<Longrightarrow> reads_item buf p t n"
    and len: "endp \<le> length buf"
  shows "readItems k item off endp acc = Inr ts \<Longrightarrow> off \<le> endp \<Longrightarrow>
     \<exists>us. ts = acc @ us \<and> reads_items buf off us endp"
proof (induction k arbitrary: off acc)
  case (Suc k)
  show ?case
  proof (cases "off < endp")
    case True
    with Suc.prems obtain t n where i: "item off = Inr (t, n)" "n \<le> endp"
      "readItems k item n endp (acc @ [t]) = Inr ts"
      by (auto split: sum.splits if_splits)
    from Suc.IH [OF i(3, 2)] obtain us where us: "ts = acc @ t # us" "reads_items buf n us endp" by auto
    from item [OF i(1)] have r: "off < n" "slice buf off n = rlp_encode t"
      by (simp_all add: reads_item_def)
    have "slice buf off endp = slice buf off n @ slice buf n endp"
      using r i(2) by (intro slice_split) auto
    with us r i(2) len have "reads_items buf off (t # us) endp"
      by (simp add: reads_items_def concatBytes_def)
    with us(1) show ?thesis by blast
  next
    case False
    with Suc.prems len show ?thesis by (auto simp: reads_items_def concatBytes_def)
  qed
qed simp

lemma readList_reads:
  assumes "\<And>p t n. item p = Inr (t, n) \<Longrightarrow> reads_item buf p t n"
    and "readList buf item start endp = Inr (t, nxt)" "start \<le> endp"
  shows "\<exists>us. t = RLst us \<and> nxt = endp \<and> reads_items buf start us endp"
proof -
  from assms(2) obtain us where u: "readItems (Suc (endp - start)) item start endp [] = Inr us"
    "endp \<le> length buf" "t = RLst us" "nxt = endp"
    by (auto simp: readList_def simp del: readItems.simps split: sum.splits if_splits)
  from readItems_reads [OF assms(1) u(2,1) assms(3)] u(3,4) show ?thesis by auto
qed

lemma readItem_list_reads:
  assumes ih: "\<And>p t n. readItem f buf p = Inr (t, n) \<Longrightarrow> reads_item buf p t n"
    and pre: "off < start" "start \<le> endp"
    and enc: "\<And>us. reads_items buf start us endp \<Longrightarrow> slice buf off endp = rlp_encode (RLst us)"
    and r: "readList buf (readItem f buf) start endp = Inr (t, nxt)"
  shows "reads_item buf off t nxt"
proof -
  from readList_reads [OF ih r pre(2)] obtain us where "t = RLst us" "nxt = endp" "reads_items buf start us endp"
    by blast
  with enc [of us] pre show ?thesis by (simp add: reads_item_def reads_items_def)
qed

text \<open>The five ranges of the prefix byte.\<close>

lemma readItem_byte:
  "off < length buf \<Longrightarrow> unat (buf ! off) < 128 \<Longrightarrow>
     readItem (Suc f) buf off = Inr (RStr (slice buf off (off + 1)), off + 1)"
  by (simp add: Let_def)

lemma readItem_short:
  "off < length buf \<Longrightarrow> unat (buf ! off) = 128 + len \<Longrightarrow> len \<le> 55 \<Longrightarrow>
     readItem (Suc f) buf off =
       (if length buf < off + 1 + len then Inl RlpInvalid
        else if len = 1 \<and> unat (buf ! (off + 1)) < 128 then Inl RlpInvalid
        else Inr (RStr (slice buf (off + 1) (off + 1 + len)), off + 1 + len))"
  by (simp add: Let_def)

lemma readItem_long:
  "off < length buf \<Longrightarrow> unat (buf ! off) = 183 + count \<Longrightarrow> 0 < count \<Longrightarrow> count \<le> 8 \<Longrightarrow>
     readItem (Suc f) buf off =
       (case readLen buf (off + 1) count of
          Inl e \<Rightarrow> Inl e
        | Inr (len, nxt) \<Rightarrow>
            if len < 56 \<or> length buf < nxt + len then Inl RlpInvalid
            else Inr (RStr (slice buf nxt (nxt + len)), nxt + len))"
  by (simp add: Let_def)

lemma readItem_short_list:
  "off < length buf \<Longrightarrow> unat (buf ! off) = 192 + len \<Longrightarrow> len \<le> 55 \<Longrightarrow>
     readItem (Suc f) buf off = readList buf (readItem f buf) (off + 1) (off + 1 + len)"
  by (simp add: Let_def)

lemma readItem_long_list:
  "off < length buf \<Longrightarrow> unat (buf ! off) = 247 + count \<Longrightarrow> 0 < count \<Longrightarrow>
     readItem (Suc f) buf off =
       (case readLen buf (off + 1) count of
          Inl e \<Rightarrow> Inl e
        | Inr (len, nxt) \<Rightarrow>
            if len < 56 then Inl RlpInvalid
            else readList buf (readItem f buf) nxt (nxt + len))"
  by (simp add: Let_def)

lemma sum_case_Inr:
  "(case x of Inl e \<Rightarrow> Inl e | Inr p \<Rightarrow> f p) = Inr r \<longleftrightarrow> (\<exists>p. x = Inr p \<and> f p = Inr r)"
  by (cases x) auto

lemma readItem_longD:
  assumes "off < length buf" "unat (buf ! off) = 183 + count" "0 < count" "count \<le> 8"
    and "readItem (Suc f) buf off = Inr (t, nxt)"
  shows "\<exists>len m. readLen buf (off + 1) count = Inr (len, m) \<and> 56 \<le> len \<and> m + len \<le> length buf \<and>
    t = RStr (slice buf m (m + len)) \<and> nxt = m + len"
proof -
  from assms(5) [unfolded readItem_long [OF assms(1-4)] sum_case_Inr] obtain p where
    p: "readLen buf (off + 1) count = Inr p"
       "(case p of (len, m) \<Rightarrow> if len < 56 \<or> length buf < m + len then Inl RlpInvalid
          else Inr (RStr (slice buf m (m + len)), m + len)) = Inr (t, nxt)" by blast
  then show ?thesis by (cases p) (auto split: if_splits)
qed

lemma readItem_long_listD:
  assumes "off < length buf" "unat (buf ! off) = 247 + count" "0 < count"
    and "readItem (Suc f) buf off = Inr (t, nxt)"
  shows "\<exists>len m. readLen buf (off + 1) count = Inr (len, m) \<and> 56 \<le> len \<and>
    readList buf (readItem f buf) m (m + len) = Inr (t, nxt)"
proof -
  from assms(4) [unfolded readItem_long_list [OF assms(1-3)] sum_case_Inr] obtain p where
    p: "readLen buf (off + 1) count = Inr p"
       "(case p of (len, m) \<Rightarrow> if len < 56 then Inl RlpInvalid
          else readList buf (readItem f buf) m (m + len)) = Inr (t, nxt)" by blast
  then show ?thesis by (cases p) (auto split: if_splits)
qed

lemma readItem_start: "readItem (Suc f) buf off = Inr r \<Longrightarrow> off < length buf"
  by (cases "length buf \<le> off") simp_all

lemma readItem_0 [simp]: "readItem 0 buf off = Inl NoFuel"
  by simp

declare readItem.simps [simp del]

lemma prefix_range:
  fixes b :: byte
  obtains (byte) "unat b < 128" | (short) n where "unat b = 128 + n" "n \<le> 55"
    | (long) n where "unat b = 183 + n" "0 < n" "n \<le> 8" | (short_list) n where "unat b = 192 + n" "n \<le> 55"
    | (long_list) n where "unat b = 247 + n" "0 < n" "n \<le> 8"
proof -
  have "unat b < 256" by (rule byte_bound)
  then consider "unat b < 128" | "128 \<le> unat b \<and> unat b \<le> 183" | "183 < unat b \<and> unat b \<le> 191"
    | "192 \<le> unat b \<and> unat b \<le> 247" | "247 < unat b \<and> unat b \<le> 255"
    by linarith
  then show thesis
  proof cases
    case 2
    then have "unat b = 128 + (unat b - 128)" "unat b - 128 \<le> 55" by linarith+
    then show ?thesis by (rule short)
  next
    case 3
    then have "unat b = 183 + (unat b - 183)" "0 < unat b - 183" "unat b - 183 \<le> 8" by linarith+
    then show ?thesis by (rule long)
  next
    case 4
    then have "unat b = 192 + (unat b - 192)" "unat b - 192 \<le> 55" by linarith+
    then show ?thesis by (rule short_list)
  next
    case 5
    then have "unat b = 247 + (unat b - 247)" "0 < unat b - 247" "unat b - 247 \<le> 8" by linarith+
    then show ?thesis by (rule long_list)
  qed (rule byte)
qed

lemma readItem_reads: "readItem f buf off = Inr (t, nxt) \<Longrightarrow> reads_item buf off t nxt"
proof (induction f arbitrary: off t nxt)
  case (Suc f)
  from Suc.prems have off: "off < length buf" by (rule readItem_start)
  note r = Suc.prems
  show ?case
  proof (cases rule: prefix_range [of "buf ! off"])
    case byte
    with r readItem_byte [OF off byte] off have t: "t = RStr [buf ! off]" "nxt = off + 1"
      by (auto simp: slice_one)
    with byte off show ?thesis by (simp add: reads_item_def rlpBytes_def slice_one)
  next
    case (short n)
    with r readItem_short [OF off short]
    have t: "t = RStr (slice buf (off + 1) (off + 1 + n))" "nxt = off + 1 + n" "off + 1 + n \<le> length buf"
      "\<not> (n = 1 \<and> unat (buf ! (off + 1)) < 128)"
      by (auto split: if_splits)
    have "slice buf off (off + 1 + n) = rlp_prefix 128 (slice buf (off + 1) (off + 1 + n))"
      using short t by (intro reads_short) auto
    moreover have "rlpBytes (slice buf (off + 1) (off + 1 + n)) = rlp_prefix 128 (slice buf (off + 1) (off + 1 + n))"
      using t(3,4) slice_nth0 [of "off + 1" buf "off + 1 + n"] by (auto simp: rlpBytes_def)
    ultimately show ?thesis using t by (simp add: reads_item_def)
  next
    case (long n)
    from readItem_longD [OF off long r] obtain len m where c: "readLen buf (off + 1) n = Inr (len, m)"
      "56 \<le> len" "m + len \<le> length buf" "t = RStr (slice buf m (m + len))" "nxt = m + len"
      by blast
    have "off < m \<and> slice buf off (m + len) = rlp_prefix 128 (slice buf m (m + len))"
      using long c by (intro reads_long [of _ _ _ n]) auto
    with c show ?thesis by (auto simp: reads_item_def rlpBytes_def)
  next
    case (short_list n)
    with r readItem_short_list [OF off short_list]
    have c: "readList buf (readItem f buf) (off + 1) (off + 1 + n) = Inr (t, nxt)" by simp
    show ?thesis
    proof (rule readItem_list_reads [OF Suc.IH _ _ _ c])
      fix us assume u: "reads_items buf (off + 1) us (off + 1 + n)"
      then have "slice buf off (off + 1 + n) = rlp_prefix 192 (slice buf (off + 1) (off + 1 + n))"
        using short_list by (intro reads_short) (auto simp: reads_items_def)
      with u show "slice buf off (off + 1 + n) = rlp_encode (RLst us)"
        by (simp add: reads_items_def rlpList_def)
    qed auto
  next
    case (long_list n)
    from readItem_long_listD [OF off long_list(1,2) r] obtain len m where c: "readLen buf (off + 1) n = Inr (len, m)"
      "56 \<le> len" "readList buf (readItem f buf) m (m + len) = Inr (t, nxt)"
      by blast
    from readLen_read [OF c(1)] have m: "off < m" by auto
    show ?thesis
    proof (rule readItem_list_reads [OF Suc.IH m _ _ c(3)])
      fix us assume u: "reads_items buf m us (m + len)"
      then have "slice buf off (m + len) = rlp_prefix 192 (slice buf m (m + len))"
        using long_list c by (intro reads_long [of _ _ _ n, THEN conjunct2]) (auto simp: reads_items_def)
      with u show "slice buf off (m + len) = rlp_encode (RLst us)"
        by (simp add: reads_items_def rlpList_def)
    qed auto
  qed
qed simp

section \<open>Fuel\<close>

lemma readItems_fuel:
  assumes item: "\<And>p. start \<le> p \<Longrightarrow> item p \<noteq> Inl NoFuel"
    and prog: "\<And>p t n. item p = Inr (t, n) \<Longrightarrow> p < n"
  shows "endp - off < k \<Longrightarrow> start \<le> off \<Longrightarrow> readItems k item off endp acc \<noteq> Inl NoFuel"
proof (induction k arbitrary: off acc)
  case (Suc k)
  show ?case
  proof (cases "off < endp")
    case True
    show ?thesis
    proof (cases "item off")
      case (Inl e)
      with True item [OF Suc.prems(2)] show ?thesis by auto
    next
      case (Inr r)
      obtain t n where r: "r = (t, n)" by (cases r)
      from Inr r prog have n: "off < n" by blast
      with Suc.IH [of n "acc @ [t]"] Suc.prems True Inr r show ?thesis by simp
    qed
  qed simp
qed simp

lemma readItem_progress: "readItem f buf p = Inr (t, n) \<Longrightarrow> p < n"
  using readItem_reads by (auto simp: reads_item_def)

lemma readList_fuel:
  assumes "\<And>p. start \<le> p \<Longrightarrow> readItem f buf p \<noteq> Inl NoFuel"
  shows "readList buf (readItem f buf) start endp \<noteq> Inl NoFuel"
proof (cases "length buf < endp")
  case False
  have "readItems (Suc (endp - start)) (readItem f buf) start endp [] \<noteq> Inl NoFuel"
    by (rule readItems_fuel [OF assms readItem_progress]) auto
  with False show ?thesis by (simp add: readList_def del: readItems.simps split: sum.splits) blast
qed (simp add: readList_def)

lemma readLen_fuel: "readLen buf off count \<noteq> Inl NoFuel"
  by (simp add: readLen_def)

lemma sum_case_NoFuel:
  "x \<noteq> Inl NoFuel \<Longrightarrow> (\<And>p. x = Inr p \<Longrightarrow> g p \<noteq> Inl NoFuel) \<Longrightarrow>
     (case x of Inl e \<Rightarrow> Inl e | Inr p \<Rightarrow> g p) \<noteq> Inl NoFuel"
  by (cases x) auto

lemma readItem_fuel: "length buf - off < f \<Longrightarrow> readItem f buf off \<noteq> Inl NoFuel"
proof (induction f arbitrary: off)
  case (Suc f)
  show ?case
  proof (cases "off < length buf")
    case False
    then show ?thesis by (simp add: readItem.simps)
  next
    case off: True
    have ih: "readItem f buf p \<noteq> Inl NoFuel" if "off < p" for p
      using Suc off that by (intro Suc.IH) linarith
    show ?thesis
    proof (cases rule: prefix_range [of "buf ! off"])
      case byte
      from readItem_byte [OF off byte] show ?thesis by simp
    next
      case (short n)
      from readItem_short [OF off short] show ?thesis by simp
    next
      case (long n)
      show ?thesis unfolding readItem_long [OF off long]
        by (intro sum_case_NoFuel readLen_fuel) (simp split: prod.split)
    next
      case (short_list n)
      show ?thesis unfolding readItem_short_list [OF off short_list]
        by (intro readList_fuel ih) simp
    next
      case (long_list n)
      show ?thesis unfolding readItem_long_list [OF off long_list(1,2)]
      proof (intro sum_case_NoFuel readLen_fuel)
        fix r assume r: "readLen buf (off + 1) n = Inr r"
        obtain len m where p: "r = (len, m)" by (cases r)
        from readLen_read [of buf "off + 1" n len m] r p have "off < m" by auto
        then have "readList buf (readItem f buf) m (m + len) \<noteq> Inl NoFuel"
          by (intro readList_fuel ih) simp
        with p show "(case r of (len, nxt) \<Rightarrow> if len < 56 then Inl RlpInvalid
            else readList buf (readItem f buf) nxt (nxt + len)) \<noteq> Inl NoFuel" by simp
      qed
    qed
  qed
qed simp

section \<open>What the encoder writes is read back\<close>

lemma readLen_write:
  assumes "n \<noteq> 0"
  shows "readLen (p @ encodeLen n @ q) (length p) (length (encodeLen n)) =
    Inr (n, length p + length (encodeLen n))"
proof -
  have "encodeLen n \<noteq> []" "hd (encodeLen n) \<noteq> 0"
    using min_bytes_head [OF assms] by (auto simp: encodeLen_def)
  then have "(p @ encodeLen n @ q) ! length p \<noteq> 0"
    by (simp add: nth_append hd_conv_nth)
  with \<open>encodeLen n \<noteq> []\<close> show ?thesis
    by (simp add: readLen_def slice_at) (simp add: encodeLen_def)
qed

lemma length_encodeLen: "n < 2 ^ 64 \<Longrightarrow> length (encodeLen n) \<le> 8"
  unfolding encodeLen_def by (rule length_min_bytes) simp

lemma rlp_prefix_length: "length payload < length (rlp_prefix base payload)"
  by (simp add: rlp_prefix_def Let_def)

lemma rlp_encode_nonempty: "0 < length (rlp_encode t)"
proof (cases t)
  case (RStr b)
  then show ?thesis using rlp_prefix_length [of b 128] by (auto simp: rlpBytes_def)
next
  case (RLst ts)
  then show ?thesis using rlp_prefix_length [of "concatBytes (map rlp_encode ts)" 192]
    by (simp add: rlpList_def del: length_greater_0_conv)
qed

lemma length_le_concat: "length ts \<le> length (concatBytes (map rlp_encode ts))"
proof (induction ts)
  case (Cons t ts)
  with rlp_encode_nonempty [of t] show ?case
    by (simp add: concatBytes_def del: length_greater_0_conv)
qed simp

lemma item_le_concat: "t \<in> set ts \<Longrightarrow> length (rlp_encode t) \<le> length (concatBytes (map rlp_encode ts))"
  by (induction ts) (auto simp: concatBytes_def)

definition writes :: "nat \<Rightarrow> rlp \<Rightarrow> bool" where
  "writes f t \<longleftrightarrow> (\<forall>p q. readItem f (p @ rlp_encode t @ q) (length p) =
     Inr (t, length p + length (rlp_encode t)))"

lemma readItems_write:
  assumes "\<And>t. t \<in> set ts \<Longrightarrow> writes f t" "length ts < k"
  shows "readItems k (readItem f (p @ concatBytes (map rlp_encode ts) @ q)) (length p)
           (length p + length (concatBytes (map rlp_encode ts))) acc = Inr (acc @ ts)"
  using assms
proof (induction ts arbitrary: p acc k)
  case Nil
  then show ?case by (cases k) (auto simp: concatBytes_def)
next
  case (Cons t ts)
  then obtain k' where k: "k = Suc k'" by (cases k) auto
  let ?c = "concatBytes (map rlp_encode ts)"
  have b: "p @ concatBytes (map rlp_encode (t # ts)) @ q = p @ rlp_encode t @ ?c @ q"
    by (simp add: concatBytes_def)
  have "readItem f (p @ rlp_encode t @ ?c @ q) (length p) = Inr (t, length p + length (rlp_encode t))"
    using Cons.prems(1) [of t] by (simp add: writes_def)
  moreover have "readItems k' (readItem f ((p @ rlp_encode t) @ ?c @ q)) (length (p @ rlp_encode t))
      (length (p @ rlp_encode t) + length ?c) (acc @ [t]) = Inr ((acc @ [t]) @ ts)"
    using Cons.prems k by (intro Cons.IH) auto
  ultimately show ?case using k rlp_encode_nonempty [of t] unfolding b
    by (simp add: concatBytes_def ac_simps)
qed

lemma readList_write:
  assumes "\<And>t. t \<in> set ts \<Longrightarrow> writes f t" "c = concatBytes (map rlp_encode ts)"
    and "buf = p @ c @ q" "start = length p"
  shows "readList buf (readItem f buf) start (start + length c) = Inr (RLst ts, start + length c)"
  using readItems_write [OF assms(1), where k = "Suc (length c)" and p = p and q = q and acc = "[]"] length_le_concat [of ts] assms(2-4)
  by (simp add: readList_def less_Suc_eq_le del: readItems.simps)

lemma head_byte: "n < 256 \<Longrightarrow> unat ((p @ (word_of_nat n :: byte) # r) ! length p) = n"
  by (simp only: nth_append_length unat_byte)

lemma readItem_write_bytes: "length (rlp_encode (RStr b)) < 2 ^ 64 \<Longrightarrow> writes (Suc f) (RStr b)"
proof -
  assume len: "length (rlp_encode (RStr b)) < 2 ^ 64"
  have "readItem (Suc f) (p @ rlpBytes b @ q) (length p) = Inr (RStr b, length p + length (rlpBytes b))" for p q
  proof -
    consider "length b = 1 \<and> unat (b ! 0) < 128" | "\<not> (length b = 1 \<and> unat (b ! 0) < 128)" "length b \<le> 55"
      | "56 \<le> length b" by linarith
    then show ?thesis
    proof cases
      case 1
      then obtain x where x: "b = [x]" "unat x < 128" by (cases b) auto
      then show ?thesis
        using readItem_byte [of "length p" "p @ b @ q" f] slice_at [of "length p" p "Suc (length p)" b q]
        by (simp add: rlpBytes_def)
    next
      case 2
      let ?h = "word_of_nat (128 + length b) :: byte"
      let ?buf = "p @ ?h # b @ q"
      have e: "rlpBytes b = ?h # b" using 2 by (auto simp: rlpBytes_def rlp_prefix_def)
      have h: "unat (?buf ! length p) = 128 + length b" by (rule head_byte) (use 2 in simp)
      have s: "slice ?buf (length p + 1) (length p + 1 + length b) = b"
        using slice_at [of "length p + 1" "p @ [?h]" "length p + 1 + length b" b q] by simp
      have n: "\<not> (length b = 1 \<and> unat (?buf ! (length p + 1)) < 128)"
        using 2 by (auto simp: nth_append)
      show ?thesis unfolding e
        using readItem_short [of "length p" ?buf "length b" f, OF _ h 2(2)] s n by simp
    next
      case 3
      let ?l = "encodeLen (length b)"
      let ?h = "word_of_nat (183 + length ?l) :: byte"
      let ?buf = "p @ ?h # ?l @ b @ q"
      have e: "rlpBytes b = ?h # ?l @ b" using 3 by (simp add: rlpBytes_def rlp_prefix_def Let_def)
      have l: "length ?l \<le> 8" using len 3 rlp_prefix_length [of b 128]
        by (intro length_encodeLen) (simp add: rlpBytes_def)
      have nz: "length b \<noteq> 0" using 3 by linarith
      have l0: "0 < length ?l" using min_bytes_head [OF nz] by (simp add: encodeLen_def)
      have h: "unat (?buf ! length p) = 183 + length ?l" by (rule head_byte) (use l in simp)
      have r: "readLen ?buf (length p + 1) (length ?l) = Inr (length b, length p + 1 + length ?l)"
        using readLen_write [OF nz, of "p @ [?h]" "b @ q"] by simp
      have s: "slice ?buf (length p + 1 + length ?l) (length p + 1 + length ?l + length b) = b"
        using slice_at [of "length p + 1 + length ?l" "p @ ?h # ?l" "length p + 1 + length ?l + length b" b q] by simp
      show ?thesis unfolding e
        using readItem_long [of "length p" ?buf "length ?l" f, OF _ h l0 l] r s 3 by simp
    qed
  qed
  then show ?thesis by (simp add: writes_def)
qed

lemma readItem_write_list:
  assumes "length (rlp_encode (RLst ts)) < 2 ^ 64" "\<And>t. t \<in> set ts \<Longrightarrow> writes f t"
  shows "writes (Suc f) (RLst ts)"
proof -
  let ?c = "concatBytes (map rlp_encode ts)"
  have "readItem (Suc f) (p @ rlpList (map rlp_encode ts) @ q) (length p) =
      Inr (RLst ts, length p + length (rlpList (map rlp_encode ts)))" for p q
  proof (cases "length ?c \<le> 55")
    case True
    let ?h = "word_of_nat (192 + length ?c) :: byte"
    let ?buf = "p @ ?h # ?c @ q"
    have e: "rlpList (map rlp_encode ts) = ?h # ?c" using True by (simp add: rlpList_def rlp_prefix_def)
    have h: "unat (?buf ! length p) = 192 + length ?c" by (rule head_byte) (use True in simp)
    show ?thesis unfolding e
      using readItem_short_list [of "length p" ?buf "length ?c" f, OF _ h True]
        readList_write [OF assms(2) refl, where buf = ?buf and p = "p @ [?h]" and q = q and start = "length p + 1"] by simp
  next
    case False
    let ?l = "encodeLen (length ?c)"
    let ?h = "word_of_nat (247 + length ?l) :: byte"
    let ?buf = "p @ ?h # ?l @ ?c @ q"
    have e: "rlpList (map rlp_encode ts) = ?h # ?l @ ?c"
      using False by (simp add: rlpList_def rlp_prefix_def Let_def)
    have l: "length ?l \<le> 8" using assms(1) rlp_prefix_length [of ?c 192]
      by (intro length_encodeLen) (simp add: rlpList_def)
    have nz: "length ?c \<noteq> 0" using False by linarith
    have l0: "0 < length ?l" using min_bytes_head [OF nz] by (simp add: encodeLen_def)
    have h: "unat (?buf ! length p) = 247 + length ?l" by (rule head_byte) (use l in simp)
    have r: "readLen ?buf (length p + 1) (length ?l) = Inr (length ?c, length p + 1 + length ?l)"
      using readLen_write [OF nz, of "p @ [?h]" "?c @ q"] by simp
    show ?thesis unfolding e
      using readItem_long_list [of "length p" ?buf "length ?l" f, OF _ h l0] r False
        readList_write [OF assms(2) refl, where buf = ?buf and p = "p @ ?h # ?l" and q = q and start = "length p + 1 + length ?l"] by simp
  qed
  then show ?thesis by (simp add: writes_def)
qed

lemma readItem_write: "length (rlp_encode t) < 2 ^ 64 \<Longrightarrow> length (rlp_encode t) \<le> f \<Longrightarrow> writes f t"
proof (induction t arbitrary: f)
  case (RStr b)
  with rlp_encode_nonempty [of "RStr b"] obtain g where "f = Suc g" by (cases f) auto
  with RStr show ?case by (simp add: readItem_write_bytes)
next
  case (RLst ts)
  with rlp_encode_nonempty [of "RLst ts"] obtain g where f: "f = Suc g" by (cases f) auto
  have "writes g t" if t: "t \<in> set ts" for t
  proof -
    have "length (rlp_encode t) < length (rlp_encode (RLst ts))"
      using item_le_concat [OF t] rlp_prefix_length [of "concatBytes (map rlp_encode ts)" 192]
      by (simp add: rlpList_def)
    with RLst f t show ?thesis by (intro RLst.IH) auto
  qed
  with RLst f show ?case by (simp add: readItem_write_list)
qed

lemma decode_encode:
  assumes "length (rlp_encode t) < 2 ^ 64"
  shows "rlpDecode (rlp_encode t) = Inr t"
proof -
  have "writes (length (rlp_encode t) + 1) t" using assms by (intro readItem_write) auto
  then have "readItem (length (rlp_encode t) + 1) ([] @ rlp_encode t @ []) (length ([] :: bytes)) =
      Inr (t, length ([] :: bytes) + length (rlp_encode t))" unfolding writes_def by blast
  then show ?thesis by (simp add: rlpDecode_def)
qed

lemma rlp_encode_inject:
  "rlp_encode a = rlp_encode b \<Longrightarrow> length (rlp_encode a) < 2 ^ 64 \<Longrightarrow> a = b"
  by (metis decode_encode sum.inject(2))

section \<open>Properties\<close>

text \<open>
  Decoding gives back every value that was encoded, for encodings below \<open>2 ^ 64\<close> bytes
  (the width of an RLP length).
\<close>

theorem rlp_decode_encode:
  assumes "length (rlp_encode t) < 2 ^ 64"
  shows "rlpDecode (rlp_encode t) = Inr t"
  by (rule decode_encode [OF assms])

definition example_rlp :: rlp where
  "example_rlp = RLst [RStr [1], RStr [200, 2], RLst []]"

theorem rlp_decode_encode_witness: "rlpDecode (rlp_encode example_rlp) = Inr example_rlp"
proof -
  have "length (rlp_encode example_rlp) < 2 ^ 64"
    by (simp add: example_rlp_def rlpBytes_def rlpList_def rlp_prefix_def concatBytes_def)
  then show ?thesis by (rule rlp_decode_encode)
qed

text \<open>
  Property C38. The decoder is strict and always returns: it either refuses the bytes or they are the
  one canonical encoding of the value it answers, so no value has a second accepted encoding.
\<close>
theorem rlp_decode_canonical:
  "rlpDecode buf = Inl RlpInvalid \<or> (\<exists>t. rlpDecode buf = Inr t \<and> rlp_encode t = buf)"
proof -
  have f: "readItem (length buf + 1) buf 0 \<noteq> Inl NoFuel" by (rule readItem_fuel) simp
  show ?thesis
  proof (cases "readItem (length buf + 1) buf 0")
    case (Inl e)
    with f show ?thesis by (cases e) (auto simp: rlpDecode_def)
  next
    case (Inr r)
    obtain t n where r: "r = (t, n)" by (cases r)
    with Inr readItem_reads have "reads_item buf 0 t n" by blast
    then have "n = length buf \<Longrightarrow> rlp_encode t = buf" by (simp add: reads_item_def slice_def)
    with Inr r show ?thesis by (simp add: rlpDecode_def)
  qed
qed

end
