(* ===== verification/Eip1559.thy ===== *)
theory Eip1559
  imports Rlp
begin

text \<open>
  packages/cs2-core/ecdsa/eip1559.js: the type-2 transaction, its signing bytes and its signed
  bytes. Integers are what \<open>BigInt\<close> reads from the caller; \<open>to\<close> and \<open>data\<close> are text or
  bytes. The Keccak digest is a function of the signing bytes and is not modelled. In
  \<open>eip1559Decode\<close> a field that holds a non-empty list is refused here; the source would coerce
  it element by element.
\<close>

definition outcome_bind :: "'a outcome \<Rightarrow> ('a \<Rightarrow> 'b outcome) \<Rightarrow> 'b outcome" where
  "outcome_bind x f = (case x of Inl e \<Rightarrow> Inl e | Inr v \<Rightarrow> f v)"

lemma outcome_bind_Inr [simp]: "outcome_bind x f = Inr r \<longleftrightarrow> (\<exists>v. x = Inr v \<and> f v = Inr r)"
  by (cases x) (auto simp: outcome_bind_def)

lemma outcome_bind_of_Inr [simp]: "outcome_bind (Inr v) f = f v"
  by (simp add: outcome_bind_def)

text \<open>The items of an array literal are evaluated left to right; the first error is thrown.\<close>

fun outcome_all :: "'a outcome list \<Rightarrow> 'a list outcome" where
  "outcome_all [] = Inr []"
| "outcome_all (x # xs) = outcome_bind x (\<lambda>v. outcome_bind (outcome_all xs) (\<lambda>vs. Inr (v # vs)))"

record tx =
  tx_chainId :: int
  tx_nonce :: int
  tx_maxPriorityFeePerGas :: int
  tx_maxFeePerGas :: int
  tx_gasLimit :: int
  tx_to :: jsval
  tx_value :: "int option"
  tx_data :: jsval

record tx_sig =
  sig_yParity :: int
  sig_r :: bytes
  sig_s :: bytes

definition addressBytes :: "jsval \<Rightarrow> bytes outcome" where
  "addressBytes v =
     outcome_bind (case v of JStr s \<Rightarrow> hexToBytes s | JBytes b \<Rightarrow> Inr b | _ \<Rightarrow> Inl ''bad_tx'')
       (\<lambda>b. if length b \<noteq> 20 then Inl ''bad_tx'' else Inr b)"

definition dataBytes :: "jsval \<Rightarrow> bytes outcome" where
  "dataBytes v = (case v of
       JStr s \<Rightarrow> if s = ''0x'' then Inr [] else hexToBytes s
     | JBytes b \<Rightarrow> Inr b
     | _ \<Rightarrow> Inr [])"

definition requireZeroValue :: "int option \<Rightarrow> int outcome" where
  "requireZeroValue v =
     (let n = (case v of None \<Rightarrow> 0 | Some n \<Rightarrow> n) in if n \<noteq> 0 then Inl ''bad_tx'' else Inr 0)"

definition eip1559Body :: "tx \<Rightarrow> bytes list outcome" where
  "eip1559Body t = outcome_all
     [rlpInt (tx_chainId t), rlpInt (tx_nonce t), rlpInt (tx_maxPriorityFeePerGas t),
      rlpInt (tx_maxFeePerGas t), rlpInt (tx_gasLimit t),
      outcome_bind (addressBytes (tx_to t)) (\<lambda>b. Inr (rlpBytes b)),
      outcome_bind (requireZeroValue (tx_value t)) rlpInt,
      outcome_bind (dataBytes (tx_data t)) (\<lambda>b. Inr (rlpBytes b)),
      Inr (rlpList [])]"

definition eip1559Unsigned :: "tx \<Rightarrow> bytes outcome" where
  "eip1559Unsigned t = outcome_bind (eip1559Body t) (\<lambda>fs. Inr (concatBytes [[2], rlpList fs]))"

definition eip1559Serialize :: "tx \<Rightarrow> tx_sig \<Rightarrow> bytes outcome" where
  "eip1559Serialize t sg =
     (if sig_yParity sg \<noteq> 0 \<and> sig_yParity sg \<noteq> 1 then Inl ''bad_tx''
      else if length (sig_r sg) \<noteq> 32 \<or> length (sig_s sg) \<noteq> 32 then Inl ''bad_tx''
      else outcome_bind (eip1559Body t) (\<lambda>fs.
        outcome_bind (outcome_all [rlpInt (sig_yParity sg), rlpInt (int (bytesToBig (sig_r sg))),
                                   rlpInt (int (bytesToBig (sig_s sg)))]) (\<lambda>gs.
        Inr (concatBytes [[2], rlpList (fs @ gs)]))))"

record decoded_tx =
  d_chainId :: nat
  d_nonce :: nat
  d_maxPriorityFeePerGas :: nat
  d_maxFeePerGas :: nat
  d_gasLimit :: nat
  d_to :: string
  d_value :: nat
  d_data :: string
  d_yParity :: "nat option"
  d_r :: "string option"
  d_s :: "string option"

definition field_bytes :: "rlp list \<Rightarrow> nat \<Rightarrow> bytes outcome" where
  "field_bytes ts i = (case ts ! i of RStr b \<Rightarrow> Inr b | RLst us \<Rightarrow> if us = [] then Inr [] else Inl ''field'')"

definition padStart0 :: "nat \<Rightarrow> string \<Rightarrow> string" where
  "padStart0 n s = replicate (n - length s) CHR ''0'' @ s"

definition decoded_fields :: "bytes list \<Rightarrow> bytes list \<Rightarrow> decoded_tx" where
  "decoded_fields fs gs =
     \<lparr>d_chainId = rlpIntValue (fs ! 0), d_nonce = rlpIntValue (fs ! 1),
      d_maxPriorityFeePerGas = rlpIntValue (fs ! 2), d_maxFeePerGas = rlpIntValue (fs ! 3),
      d_gasLimit = rlpIntValue (fs ! 4), d_to = bytesToHex (fs ! 5),
      d_value = rlpIntValue (fs ! 6), d_data = bytesToHex (fs ! 7),
      d_yParity = (if gs = [] then None else Some (rlpIntValue (gs ! 0))),
      d_r = (if gs = [] then None else Some (padStart0 64 (bytesToHex (gs ! 1)))),
      d_s = (if gs = [] then None else Some (padStart0 64 (bytesToHex (gs ! 2))))\<rparr>"

definition eip1559Decode :: "jsval \<Rightarrow> decoded_tx outcome" where
  "eip1559Decode raw =
     outcome_bind (case raw of JStr s \<Rightarrow> hexToBytes s | JBytes b \<Rightarrow> Inr b | _ \<Rightarrow> Inl ''bad_tx'') (\<lambda>bs.
       if bs = [] \<or> hd bs \<noteq> 2 then Inl ''bad_tx''
       else case rlpDecode (tl bs) of
           Inl e \<Rightarrow> Inl ''rlp_invalid''
         | Inr (RStr b) \<Rightarrow> Inl ''bad_tx''
         | Inr (RLst ts) \<Rightarrow>
             if length ts \<noteq> 9 \<and> length ts \<noteq> 12 then Inl ''bad_tx''
             else outcome_bind (outcome_all (map (field_bytes ts) [0..<8])) (\<lambda>fs.
               outcome_bind (outcome_all (map (field_bytes ts) (if length ts = 12 then [9, 10, 11] else []))) (\<lambda>gs.
               Inr (decoded_fields fs gs))))"

section \<open>Lemmas\<close>

text \<open>The eight fields a transaction signs, as byte strings.\<close>

definition tx_fields :: "tx \<Rightarrow> bytes \<Rightarrow> bytes \<Rightarrow> bytes list" where
  "tx_fields t to data =
     [min_bytes (nat (tx_chainId t)), min_bytes (nat (tx_nonce t)),
      min_bytes (nat (tx_maxPriorityFeePerGas t)), min_bytes (nat (tx_maxFeePerGas t)),
      min_bytes (nat (tx_gasLimit t)), to, [], data]"

lemma rlpInt_encode: "rlpInt v = Inr bs \<longleftrightarrow> 0 \<le> v \<and> bs = rlp_encode (RStr (min_bytes (nat v)))"
  by (auto simp: rlpInt_def rlpBytes_def rlp_prefix_def)

definition tx_nonneg :: "tx \<Rightarrow> bool" where
  "tx_nonneg t \<longleftrightarrow> 0 \<le> tx_chainId t \<and> 0 \<le> tx_nonce t \<and> 0 \<le> tx_maxPriorityFeePerGas t \<and>
     0 \<le> tx_maxFeePerGas t \<and> 0 \<le> tx_gasLimit t"

lemma outcome_all_Cons_Inr:
  "outcome_all (x # xs) = Inr r \<longleftrightarrow> (\<exists>v vs. x = Inr v \<and> outcome_all xs = Inr vs \<and> r = v # vs)"
  by auto

lemma zero_value_encode:
  "outcome_bind (requireZeroValue v) rlpInt = Inr bs \<Longrightarrow> bs = rlp_encode (RStr [])"
  by (auto simp: requireZeroValue_def rlpInt_def rlpBytes_def rlp_prefix_def split: if_splits)

lemma eip1559Body_encode:
  assumes "eip1559Body t = Inr fs"
  shows "\<exists>to data. addressBytes (tx_to t) = Inr to \<and> dataBytes (tx_data t) = Inr data \<and>
    tx_nonneg t \<and> fs = map rlp_encode (map RStr (tx_fields t to data) @ [RLst []])"
proof -
  from assms obtain a b c d e f g h where
    i: "rlpInt (tx_chainId t) = Inr a" "rlpInt (tx_nonce t) = Inr b"
       "rlpInt (tx_maxPriorityFeePerGas t) = Inr c" "rlpInt (tx_maxFeePerGas t) = Inr d"
       "rlpInt (tx_gasLimit t) = Inr e" and
    f: "outcome_bind (addressBytes (tx_to t)) (\<lambda>b. Inr (rlpBytes b)) = Inr f"
       "outcome_bind (requireZeroValue (tx_value t)) rlpInt = Inr g"
       "outcome_bind (dataBytes (tx_data t)) (\<lambda>b. Inr (rlpBytes b)) = Inr h" and
    fs: "fs = [a, b, c, d, e, f, g, h, rlpList []]"
    unfolding eip1559Body_def outcome_all_Cons_Inr by auto
  from f obtain to data where "addressBytes (tx_to t) = Inr to" "f = rlpBytes to"
    "dataBytes (tx_data t) = Inr data" "h = rlpBytes data" by auto
  moreover have "g = rlp_encode (RStr [])" by (rule zero_value_encode [OF f(2)])
  ultimately show ?thesis using i fs
    by (simp add: rlpInt_encode tx_fields_def tx_nonneg_def)
qed

lemma eip1559Unsigned_encode:
  assumes "eip1559Unsigned t = Inr raw"
  shows "\<exists>to data. addressBytes (tx_to t) = Inr to \<and> dataBytes (tx_data t) = Inr data \<and>
    tx_nonneg t \<and> raw = 2 # rlp_encode (RLst (map RStr (tx_fields t to data) @ [RLst []]))"
proof -
  from assms obtain fs where b: "eip1559Body t = Inr fs" and r: "raw = 2 # rlpList fs"
    by (auto simp: eip1559Unsigned_def concatBytes_def)
  from eip1559Body_encode [OF b] r show ?thesis by (auto simp del: map_append map_map)
qed

text \<open>The signature fields.\<close>

lemma eip1559Serialize_encode:
  assumes "eip1559Serialize t sg = Inr raw"
  shows "\<exists>to data. addressBytes (tx_to t) = Inr to \<and> dataBytes (tx_data t) = Inr data \<and>
    tx_nonneg t \<and> (sig_yParity sg = 0 \<or> sig_yParity sg = 1) \<and>
    length (sig_r sg) = 32 \<and> length (sig_s sg) = 32 \<and>
    raw = 2 # rlp_encode (RLst (map RStr (tx_fields t to data) @ RLst [] #
      map RStr [min_bytes (nat (sig_yParity sg)), min_bytes (bytesToBig (sig_r sg)),
                min_bytes (bytesToBig (sig_s sg))]))"
proof -
  from assms obtain fs x y z where b: "eip1559Body t = Inr fs"
    and g: "rlpInt (sig_yParity sg) = Inr x" "rlpInt (int (bytesToBig (sig_r sg))) = Inr y"
      "rlpInt (int (bytesToBig (sig_s sg))) = Inr z"
    and r: "raw = 2 # rlpList (fs @ [x, y, z])"
    and c: "sig_yParity sg = 0 \<or> sig_yParity sg = 1" "length (sig_r sg) = 32" "length (sig_s sg) = 32"
    by (auto simp: eip1559Serialize_def concatBytes_def split: if_splits)
  from eip1559Body_encode [OF b] obtain to data where
    "addressBytes (tx_to t) = Inr to" "dataBytes (tx_data t) = Inr data" "tx_nonneg t"
    "fs = map rlp_encode (map RStr (tx_fields t to data) @ [RLst []])" by blast
  moreover from g have "x = rlp_encode (RStr (min_bytes (nat (sig_yParity sg))))"
    "y = rlp_encode (RStr (min_bytes (bytesToBig (sig_r sg))))"
    "z = rlp_encode (RStr (min_bytes (bytesToBig (sig_s sg))))"
    by (simp_all add: rlpInt_encode)
  ultimately show ?thesis using c r by (simp del: rlp_encode.simps(1))
qed

lemma min_bytes_inject: "min_bytes a = min_bytes b \<longleftrightarrow> a = b"
  by (metis bytesToBig_min_bytes)

lemma strip_zeros: "replicate (length bs - length (min_bytes (bytesToBig bs))) 0 @ min_bytes (bytesToBig bs) = bs"
proof (rule bytesToBig_inject)
  have "length (min_bytes (bytesToBig bs)) \<le> length bs"
    by (rule length_min_bytes [OF bytesToBig_bound])
  then show "length (replicate (length bs - length (min_bytes (bytesToBig bs))) 0 @ min_bytes (bytesToBig bs)) = length bs"
    by simp
qed (simp add: bytesToBig_zeros)

lemma to_hex_zeros: "to_hex (replicate k 0) = replicate (2 * k) CHR ''0''"
proof -
  have "hex_char 0 = CHR ''0''" by code_simp
  then show ?thesis by (induction k) (simp_all add: to_hex_def hex_byte_def)
qed

text \<open>A 32-byte scalar comes back from its minimal form by padding the text to 64 digits.\<close>

lemma pad_scalar:
  assumes "length bs = 32"
  shows "padStart0 64 (bytesToHex (min_bytes (bytesToBig bs))) = to_hex bs"
proof -
  let ?m = "min_bytes (bytesToBig bs)"
  have "to_hex bs = to_hex (replicate (32 - length ?m) 0 @ ?m)"
    using strip_zeros [of bs] assms by simp
  then show ?thesis
    by (simp add: padStart0_def bytesToHex_def to_hex_append to_hex_zeros right_diff_distrib')
qed

lemma decode_fields:
  "outcome_all (map (field_bytes (map RStr bs @ ts)) [0..<length bs]) = Inr bs"
proof -
  have "map (field_bytes (map RStr bs @ ts)) [0..<length bs] = map Inr bs"
    by (rule nth_equalityI) (auto simp: field_bytes_def nth_append)
  moreover have "outcome_all (map Inr bs) = Inr bs" by (induction bs) auto
  ultimately show ?thesis by simp
qed

section \<open>Properties\<close>

text \<open>
  The signing bytes bind the transaction: two transactions with the same signing bytes
  have the same chain, nonce, fees, gas limit, target and data, whatever text the target and
  the data were given as.
\<close>

theorem eip1559_unsigned_binds:
  assumes "eip1559Unsigned t = Inr raw" "eip1559Unsigned u = Inr raw" "length raw \<le> 2 ^ 64"
  shows "tx_chainId t = tx_chainId u \<and> tx_nonce t = tx_nonce u \<and>
    tx_maxPriorityFeePerGas t = tx_maxPriorityFeePerGas u \<and>
    tx_maxFeePerGas t = tx_maxFeePerGas u \<and> tx_gasLimit t = tx_gasLimit u \<and>
    addressBytes (tx_to t) = addressBytes (tx_to u) \<and> dataBytes (tx_data t) = dataBytes (tx_data u)"
proof -
  from eip1559Unsigned_encode [OF assms(1)] obtain to data where
    t: "addressBytes (tx_to t) = Inr to" "dataBytes (tx_data t) = Inr data" "tx_nonneg t"
      "raw = 2 # rlp_encode (RLst (map RStr (tx_fields t to data) @ [RLst []]))" by blast
  from eip1559Unsigned_encode [OF assms(2)] obtain to' data' where
    u: "addressBytes (tx_to u) = Inr to'" "dataBytes (tx_data u) = Inr data'" "tx_nonneg u"
      "raw = 2 # rlp_encode (RLst (map RStr (tx_fields u to' data') @ [RLst []]))" by blast
  have "RLst (map RStr (tx_fields t to data) @ [RLst []]) = RLst (map RStr (tx_fields u to' data') @ [RLst []])"
    using t(4) u(4) assms(3) by (intro rlp_encode_inject) auto
  then have "tx_fields t to data = tx_fields u to' data'"
    by (simp add: inj_map_eq_map inj_def)
  with t u show ?thesis by (simp add: tx_fields_def min_bytes_inject tx_nonneg_def eq_nat_nat_iff)
qed

definition example_tx :: tx where
  "example_tx = \<lparr>tx_chainId = 10, tx_nonce = 0, tx_maxPriorityFeePerGas = 1, tx_maxFeePerGas = 3,
     tx_gasLimit = 100, tx_to = JBytes (replicate 20 17), tx_value = None, tx_data = JStr ''0x''\<rparr>"

definition example_tx' :: tx where
  "example_tx' = example_tx\<lparr>tx_value := Some 0, tx_data := JNull\<rparr>"

lemma example_unsigned:
  "eip1559Unsigned example_tx = Inr (2 # rlp_encode (RLst (map RStr (tx_fields example_tx (replicate 20 17) []) @ [RLst []])))"
  "eip1559Unsigned example_tx' = eip1559Unsigned example_tx"
  by (simp_all add: eip1559Unsigned_def eip1559Body_def example_tx_def example_tx'_def addressBytes_def
      dataBytes_def requireZeroValue_def rlpInt_def tx_fields_def concatBytes_def rlpList_def
      rlpBytes_def rlp_prefix_def)

theorem eip1559_unsigned_binds_witness:
  "addressBytes (tx_to example_tx) = addressBytes (tx_to example_tx') \<and>
   dataBytes (tx_data example_tx) = dataBytes (tx_data example_tx')"
proof -
  let ?raw = "2 # rlp_encode (RLst (map RStr (tx_fields example_tx (replicate 20 17) []) @ [RLst []]))"
  have t: "eip1559Unsigned example_tx = Inr ?raw" by (rule example_unsigned(1))
  have u: "eip1559Unsigned example_tx' = Inr ?raw" using example_unsigned by (simp only:)
  have "min_bytes n = [word_of_nat n]" if "n \<noteq> 0" "n < 256" for n
    using that by (simp add: min_bytes_rec)
  then have "length ?raw \<le> 2 ^ 64"
    by (simp add: tx_fields_def example_tx_def rlpList_def rlp_prefix_def rlpBytes_def concatBytes_def)
  from eip1559_unsigned_binds [OF t u this] show ?thesis by blast
qed

text \<open>
  Decoding a signed transaction gives back every field it was serialized from, the
  parity bit and the two 32-byte scalars with their leading zeros.
\<close>

theorem eip1559_decode_serialize:
  assumes "eip1559Serialize t sg = Inr raw" "length raw \<le> 2 ^ 64"
  shows "\<exists>to data d. addressBytes (tx_to t) = Inr to \<and> dataBytes (tx_data t) = Inr data \<and>
    eip1559Decode (JBytes raw) = Inr d \<and>
    int (d_chainId d) = tx_chainId t \<and> int (d_nonce d) = tx_nonce t \<and>
    int (d_maxPriorityFeePerGas d) = tx_maxPriorityFeePerGas t \<and>
    int (d_maxFeePerGas d) = tx_maxFeePerGas t \<and> int (d_gasLimit d) = tx_gasLimit t \<and>
    d_to d = to_hex to \<and> d_value d = 0 \<and> d_data d = to_hex data \<and>
    d_yParity d = Some (nat (sig_yParity sg)) \<and>
    d_r d = Some (to_hex (sig_r sg)) \<and> d_s d = Some (to_hex (sig_s sg))"
proof -
  from eip1559Serialize_encode [OF assms(1)] obtain to data where
    a: "addressBytes (tx_to t) = Inr to" "dataBytes (tx_data t) = Inr data" "tx_nonneg t"
      "length (sig_r sg) = 32" "length (sig_s sg) = 32" and
    raw: "raw = 2 # rlp_encode (RLst (map RStr (tx_fields t to data) @ RLst [] #
      map RStr [min_bytes (nat (sig_yParity sg)), min_bytes (bytesToBig (sig_r sg)),
                min_bytes (bytesToBig (sig_s sg))]))"
    by blast
  let ?fs = "tx_fields t to data"
  let ?gs = "[min_bytes (nat (sig_yParity sg)), min_bytes (bytesToBig (sig_r sg)),
              min_bytes (bytesToBig (sig_s sg))]"
  let ?ts = "map RStr ?fs @ RLst [] # map RStr ?gs"
  have len: "length ?fs = 8" by (simp add: tx_fields_def)
  have "length (rlp_encode (RLst ?ts)) < 2 ^ 64" using assms(2) raw by simp
  then have dec: "rlpDecode (tl raw) = Inr (RLst ?ts)" unfolding raw list.sel by (rule decode_encode)
  have g: "map (field_bytes ?ts) [9, 10, 11] = map Inr ?gs"
    using len by (simp add: field_bytes_def nth_append)
  have f: "outcome_all (map (field_bytes ?ts) [0..<8]) = Inr ?fs"
    using decode_fields [of ?fs "RLst [] # map RStr ?gs"] len by simp
  have "eip1559Decode (JBytes raw) = Inr (decoded_fields ?fs ?gs)"
    using raw len dec f g by (simp add: eip1559Decode_def)
  moreover have "rlpIntValue (min_bytes n) = n" for n
    by (cases "n = 0") (use min_bytes_head [of n] in \<open>auto simp: rlpIntValue_def\<close>)
  ultimately show ?thesis using a
    by (simp add: decoded_fields_def tx_fields_def tx_nonneg_def pad_scalar)
       (simp add: bytesToHex_def rlpIntValue_def)
qed

definition example_sig :: tx_sig where
  "example_sig = \<lparr>sig_yParity = 1, sig_r = replicate 31 0 @ [5], sig_s = replicate 31 0 @ [6]\<rparr>"

definition example_raw :: bytes where
  "example_raw = 2 # rlp_encode (RLst (map RStr (tx_fields example_tx (replicate 20 17) []) @ RLst [] #
     map RStr [[1], [5], [6]]))"

theorem eip1559_decode_serialize_witness:
  "\<exists>d. eip1559Decode (JBytes example_raw) = Inr d \<and> d_chainId d = 10 \<and> d_yParity d = Some 1 \<and>
       d_s d = Some (to_hex (replicate 31 0 @ [6]))"
proof -
  have m: "min_bytes n = [word_of_nat n]" if "n \<noteq> 0" "n < 256" for n
    using that by (simp add: min_bytes_rec)
  have b: "bytesToBig (replicate 31 0 @ [5]) = 5" "bytesToBig (replicate 31 0 @ [6]) = 6"
    by (simp_all only: bytesToBig_zeros) (simp_all add: bytesToBig_Cons)
  have s: "eip1559Serialize example_tx example_sig = Inr example_raw"
    by (simp add: eip1559Serialize_def eip1559Body_def example_tx_def example_sig_def example_raw_def b
        addressBytes_def dataBytes_def requireZeroValue_def rlpInt_def tx_fields_def concatBytes_def
        rlpList_def rlpBytes_def rlp_prefix_def m)
  have l: "length example_raw \<le> 2 ^ 64"
    by (simp add: example_raw_def tx_fields_def example_tx_def rlpList_def rlp_prefix_def rlpBytes_def
        concatBytes_def m)
  from eip1559_decode_serialize [OF s l] show ?thesis
    by (auto simp: example_tx_def example_sig_def)
qed

end
