(* ===== verification/Claim_Settlement.thy ===== *)
theory Claim_Settlement
  imports Js_Store Js_Values
begin

text \<open>
  services/gateway/src/claim-settlement.js: a claim id is open until the first receipt
  settles it, and it does not move back. The store is the \<open>Map\<close> from claim ids to rows;
  the flag of an operation says whether the state file took the write.
\<close>

section \<open>The store\<close>

definition settlementClaimId :: "jsval \<Rightarrow> string option" where
  "settlementClaimId v =
     (case v of
        JUndef \<Rightarrow> None | JNull \<Rightarrow> None | JBytes _ \<Rightarrow> None | JArr _ \<Rightarrow> None | JObj _ \<Rightarrow> None
      | _ \<Rightarrow> (let text = js_trim (js_String v) in if text = [] then None else Some text))"

record claim_row =
  cl_claim_id :: string
  cl_state :: string
  cl_task_id :: string
  cl_payment_ref :: string
  cl_receipt :: jsval

type_synonym claims = "(string, claim_row) jsmap"

record claim_input =
  in_claimId :: jsval
  in_taskId :: jsval
  in_paymentRef :: jsval
  in_receipt :: jsval

datatype claim_reply =
    InvalidClaim
  | ClaimSettled claim_row bool
  | ClaimAlreadySettled claim_row
  | ClaimPersistFailed

definition trimmed :: "jsval \<Rightarrow> string" where
  "trimmed v = (if js_nullish v then [] else js_trim (js_String v))"

definition claim_commit :: "claims \<Rightarrow> bool \<Rightarrow> claim_input \<Rightarrow> claims \<times> claim_reply" where
  "claim_commit rows ok x =
     (let task = trimmed (in_taskId x); ref = trimmed (in_paymentRef x)
      in case settlementClaimId (in_claimId x) of
           None \<Rightarrow> (rows, InvalidClaim)
         | Some cid \<Rightarrow>
             if task = [] \<or> ref = [] then (rows, InvalidClaim)
             else (case jm_get rows cid of
                 Some old \<Rightarrow>
                   if cl_state old = ''settled'' \<and> cl_task_id old = task \<and> cl_payment_ref old = ref
                   then (rows, ClaimSettled old True)
                   else (rows, ClaimAlreadySettled old)
               | None \<Rightarrow>
                   (let row = \<lparr>cl_claim_id = cid, cl_state = ''settled'', cl_task_id = task,
                               cl_payment_ref = ref, cl_receipt = js_coalesce (in_receipt x) JNull\<rparr>;
                        rows' = jm_set cid row rows
                    in if ok then (rows', ClaimSettled row False)
                       else (jm_delete cid rows', ClaimPersistFailed))))"

text \<open>The rollback of a failed release puts the row back at the end of the \<open>Map\<close>.\<close>

definition claim_release :: "claims \<Rightarrow> bool \<Rightarrow> jsval \<Rightarrow> jsval \<Rightarrow> jsval \<Rightarrow> claims \<times> bool" where
  "claim_release rows ok claimId taskId paymentRef =
     (case settlementClaimId claimId of
        None \<Rightarrow> (rows, False)
      | Some cid \<Rightarrow>
          (case jm_get rows cid of
             None \<Rightarrow> (rows, False)
           | Some row \<Rightarrow>
               if cl_task_id row \<noteq> js_String taskId \<or> cl_payment_ref row \<noteq> js_String paymentRef
               then (rows, False)
               else let rows' = jm_delete cid rows
                 in if ok then (rows', True) else (jm_set cid row rows', False)))"

definition shouldCloseClaim :: "jsval \<Rightarrow> jsval \<Rightarrow> jsval \<Rightarrow> bool" where
  "shouldCloseClaim receipt agentId singleUseClaim =
     (if singleUseClaim = JBool False then False
      else case settlementClaimId (jget receipt ''claim_id'') of
          None \<Rightarrow> False
        | Some claimKey \<Rightarrow>
            if singleUseClaim = JBool True then True
            else (case settlementClaimId agentId of
                None \<Rightarrow> True
              | Some seat \<Rightarrow> claimKey \<noteq> seat))"

section \<open>The state file\<close>

definition claim_json :: "claim_row \<Rightarrow> jsval" where
  "claim_json r = JObj
     [(''claim_id'', JStr (cl_claim_id r)), (''state'', JStr (cl_state r)),
      (''task_id'', JStr (cl_task_id r)), (''payment_ref'', JStr (cl_payment_ref r)),
      (''receipt'', cl_receipt r)]"

definition claims_json :: "claims \<Rightarrow> jsval" where
  "claims_json rows = JObj [(''claims'', JArr (map claim_json (jm_values rows)))]"

fun load_claims :: "jsval list \<Rightarrow> claims \<Rightarrow> claims" where
  "load_claims [] rows = rows"
| "load_claims (v # vs) rows =
     (case settlementClaimId (jget v ''claim_id'') of
        None \<Rightarrow> load_claims vs rows
      | Some cid \<Rightarrow>
          if jget v ''state'' \<noteq> JStr ''settled'' \<or> \<not> js_truthy (jget v ''task_id'')
             \<or> \<not> js_truthy (jget v ''payment_ref'') then load_claims vs rows
          else if jm_has rows cid then load_claims vs rows
          else load_claims vs (jm_set cid
                 \<lparr>cl_claim_id = cid, cl_state = ''settled'', cl_task_id = js_String (jget v ''task_id''),
                  cl_payment_ref = js_String (jget v ''payment_ref''),
                  cl_receipt = js_coalesce (jget v ''receipt'') JNull\<rparr> rows))"

definition load_claim_file :: "jsval option \<Rightarrow> claims" where
  "load_claim_file parsed =
     (case parsed of
        None \<Rightarrow> []
      | Some p \<Rightarrow> (case jget p ''claims'' of JArr vs \<Rightarrow> load_claims vs [] | _ \<Rightarrow> []))"

section \<open>Single use\<close>

definition claim_key :: "bool \<times> claim_input \<Rightarrow> string" where
  "claim_key x = (case settlementClaimId (in_claimId (snd x)) of Some c \<Rightarrow> c | None \<Rightarrow> [])"

definition claim_settle :: "claims \<Rightarrow> bool \<times> claim_input \<Rightarrow> claims \<times> bool" where
  "claim_settle rows x =
     (let (rows', r) = claim_commit rows (fst x) (snd x)
      in (rows', case r of ClaimSettled row again \<Rightarrow> \<not> again | _ \<Rightarrow> False))"

lemma claim_commit_cases:
  obtains (same) "fst (claim_commit rows ok x) = rows" "\<forall>row. snd (claim_commit rows ok x) \<noteq> ClaimSettled row False"
  | (drop) cid where "jm_get rows cid = None" "fst (claim_commit rows ok x) = jm_delete cid rows"
      "\<forall>row. snd (claim_commit rows ok x) \<noteq> ClaimSettled row False"
  | (new) cid row where "settlementClaimId (in_claimId x) = Some cid" "jm_get rows cid = None"
      "claim_commit rows ok x = (jm_set cid row rows, ClaimSettled row False)"
      "cl_claim_id row = cid" "cl_state row = ''settled''"
proof (cases "settlementClaimId (in_claimId x)")
  case None
  then show ?thesis by (intro same) (auto simp: claim_commit_def Let_def)
next
  case (Some cid)
  show ?thesis
  proof (cases "trimmed (in_taskId x) = [] \<or> trimmed (in_paymentRef x) = [] \<or> jm_get rows cid \<noteq> None")
    case True
    with Some show ?thesis by (intro same) (auto simp: claim_commit_def Let_def split: option.splits)
  next
    case False
    have d: "jm_delete cid (jm_set cid row rows) = jm_delete cid rows" for row
      by (induction rows) (auto split: if_splits)
    show ?thesis
    proof (cases ok)
      case True
      with Some False show ?thesis by (intro new [of cid]) (auto simp: claim_commit_def Let_def)
    next
      case no: False
      with Some False d show ?thesis by (intro drop [of cid]) (auto simp: claim_commit_def Let_def)
    qed
  qed
qed

lemma claim_settle_keeps:
  assumes "claim_settle rows x = (rows', b)" "jm_has rows k"
  shows "jm_has rows' k"
  using assms
  by (cases rule: claim_commit_cases [of rows "fst x" "snd x"])
     (auto simp: claim_settle_def jsmap_simps jm_has_def Let_def split: prod.splits)

lemma claim_settle_accepts:
  assumes "claim_settle rows x = (rows', True)"
  shows "\<not> jm_has rows (claim_key x) \<and> jm_has rows' (claim_key x)"
  using assms
  by (cases rule: claim_commit_cases [of rows "fst x" "snd x"])
     (auto simp: claim_settle_def claim_key_def jsmap_simps jm_has_def Let_def
           split: prod.splits claim_reply.splits)

interpretation claim_once: single_use claim_settle claim_key jm_has "\<lambda>rows. True"
  by unfold_locales (auto dest: claim_settle_accepts claim_settle_keeps)

section \<open>A closed claim\<close>

datatype claim_op = Settle bool claim_input | ReleaseClaim bool jsval jsval jsval

fun claim_step :: "claims \<Rightarrow> claim_op \<Rightarrow> claims" where
  "claim_step rows (Settle ok x) = fst (claim_commit rows ok x)"
| "claim_step rows (ReleaseClaim ok c t p) = fst (claim_release rows ok c t p)"

text \<open>Every operation but the release that names the claim, its task and its payment.\<close>

fun other_op :: "string \<Rightarrow> claim_row \<Rightarrow> claim_op \<Rightarrow> bool" where
  "other_op cid row (Settle ok x) \<longleftrightarrow> True"
| "other_op cid row (ReleaseClaim ok c t p) \<longleftrightarrow>
     \<not> (settlementClaimId c = Some cid \<and> js_String t = cl_task_id row \<and> js_String p = cl_payment_ref row)"

lemma closed_step:
  assumes "jm_get rows cid = Some row" "other_op cid row x"
  shows "jm_get (claim_step rows x) cid = Some row"
proof (cases x)
  case (Settle ok y)
  show ?thesis using assms Settle
    by (cases rule: claim_commit_cases [of rows ok y]) (auto simp: jsmap_simps)
next
  case (ReleaseClaim ok c t p)
  with assms show ?thesis
    by (auto simp: claim_release_def jsmap_simps Let_def split: option.split)
qed

interpretation closed_run: invariant_run claim_step "\<lambda>rows. jm_get rows cid = Some row" "other_op cid row"
  for cid row
  by unfold_locales (rule closed_step)

section \<open>Properties\<close>

text \<open>
  Property C34. In any sequence of settlements, whatever writes fail, a claim id is newly
  settled at most once.
\<close>
theorem claim_settles_once: "distinct (accepted_keys claim_settle claim_key rows xs)"
  by (rule claim_once.accepted_once) simp

text \<open>
  Once settled, a claim answers every later settlement the same way until its own
  task and payment release it: the settling pair gets the stored receipt back, every other
  pair is refused with it.
\<close>

theorem settled_claim_answers:
  assumes "jm_get rows cid = Some row" "cl_state row = ''settled''" "list_all (other_op cid row) ops"
    and "settlementClaimId (in_claimId x) = Some cid"
    and "trimmed (in_taskId x) \<noteq> []" "trimmed (in_paymentRef x) \<noteq> []"
  shows "snd (claim_commit (foldl claim_step rows ops) ok x) =
    (if trimmed (in_taskId x) = cl_task_id row \<and> trimmed (in_paymentRef x) = cl_payment_ref row
     then ClaimSettled row True else ClaimAlreadySettled row)"
proof -
  have "jm_get (foldl claim_step rows ops) cid = Some row"
    by (rule closed_run.run_inv [OF assms(1,3)])
  with assms show ?thesis by (simp add: claim_commit_def Let_def)
qed

definition example_row :: claim_row where
  "example_row = \<lparr>cl_claim_id = ''c1'', cl_state = ''settled'', cl_task_id = ''t1'',
     cl_payment_ref = ''p1'', cl_receipt = JNull\<rparr>"

definition example_input :: claim_input where
  "example_input = \<lparr>in_claimId = JStr '' c1'', in_taskId = JStr ''t2'', in_paymentRef = JStr ''p1'',
     in_receipt = JNull\<rparr>"

theorem settled_claim_answers_witness:
  "snd (claim_commit (foldl claim_step [(''c1'', example_row)]
      [ReleaseClaim True (JStr ''c1'') (JStr ''t2'') (JStr ''p1'')]) True example_input) =
   ClaimAlreadySettled example_row"
proof -
  have h: "jm_get [(''c1'', example_row)] ''c1'' = Some example_row" "cl_state example_row = ''settled''"
    "list_all (other_op ''c1'' example_row) [ReleaseClaim True (JStr ''c1'') (JStr ''t2'') (JStr ''p1'')]"
    "settlementClaimId (in_claimId example_input) = Some ''c1''"
    "trimmed (in_taskId example_input) \<noteq> []" "trimmed (in_paymentRef example_input) \<noteq> []"
    "\<not> (trimmed (in_taskId example_input) = cl_task_id example_row)"
    by code_simp+
  from settled_claim_answers [OF h(1-6)] h(7) show ?thesis by simp
qed

end
