(* ===== verification/Issuance_Cap.thy ===== *)
theory Issuance_Cap
  imports Js_Store Js_Values
begin

text \<open>
  services/gateway/src/issuance-cap.js: at most so many receipts are signed per hour and per
  day. The table of the sqlite database is the \<open>Map\<close> from (window, span) to counts, one
  transaction is one step, and the times are integers of milliseconds.
\<close>

definition HOUR_MS :: int where "HOUR_MS = 3600000"
definition DAY_MS :: int where "DAY_MS = 86400000"

definition intEnv :: "jsval \<Rightarrow> nat option" where
  "intEnv raw =
     (if js_nullish raw \<or> js_trim (js_String raw) = [] then None
      else case num_int (js_Number raw) of
          None \<Rightarrow> None
        | Some n \<Rightarrow> if n < 0 then None else Some (nat n))"

record cap_cfg =
  cap_hour :: "nat option"
  cap_day :: "nat option"
  cap_softPct :: nat
  cap_enabled :: bool

definition capConfig :: "jsval \<Rightarrow> cap_cfg" where
  "capConfig env =
     (let hour = intEnv (jget env ''ISSUER_CAP_RECEIPTS_PER_HOUR'');
          day = intEnv (jget env ''ISSUER_CAP_RECEIPTS_PER_DAY'');
          soft = (case intEnv (jget env ''ISSUER_CAP_SOFT_PCT'') of None \<Rightarrow> 80 | Some n \<Rightarrow> n);
          soft = (if soft < 1 then 1 else soft);
          soft = (if 100 < soft then 100 else soft)
      in \<lparr>cap_hour = hour, cap_day = day, cap_softPct = soft, cap_enabled = hour \<noteq> None \<or> day \<noteq> None\<rparr>)"

definition capWindows :: "int \<Rightarrow> int \<times> int" where
  "capWindows now = (now div HOUR_MS * HOUR_MS, now div DAY_MS * DAY_MS)"

type_synonym cap_counts = "(int \<times> string, nat) jsmap"

definition readCount :: "cap_counts \<Rightarrow> int \<Rightarrow> string \<Rightarrow> nat" where
  "readCount db w span = (case jm_get db (w, span) of Some n \<Rightarrow> n | None \<Rightarrow> 0)"

definition bump :: "cap_counts \<Rightarrow> int \<Rightarrow> string \<Rightarrow> cap_counts" where
  "bump db w span = jm_set (w, span) (case jm_get db (w, span) of Some n \<Rightarrow> n + 1 | None \<Rightarrow> 1) db"

definition atOrAbove :: "nat \<Rightarrow> nat option \<Rightarrow> nat \<Rightarrow> bool" where
  "atOrAbove used limit pct = (case limit of None \<Rightarrow> False | Some l \<Rightarrow> l * pct \<le> used * 100)"

definition readCapUsage :: "cap_counts \<Rightarrow> cap_cfg \<Rightarrow> int \<Rightarrow> nat \<times> nat" where
  "readCapUsage db cfg now =
     (if \<not> cap_enabled cfg then (0, 0)
      else (readCount db (fst (capWindows now)) ''hour'', readCount db (snd (capWindows now)) ''day''))"

datatype cap_state = CapOff | CapHard | CapSoft | CapOpen

definition capState :: "nat \<times> nat \<Rightarrow> cap_cfg \<Rightarrow> cap_state" where
  "capState usage cfg =
     (if \<not> cap_enabled cfg then CapOff
      else if atOrAbove (fst usage) (cap_hour cfg) 100 \<or> atOrAbove (snd usage) (cap_day cfg) 100 then CapHard
      else if atOrAbove (fst usage) (cap_hour cfg) (cap_softPct cfg)
              \<or> atOrAbove (snd usage) (cap_day cfg) (cap_softPct cfg) then CapSoft
      else CapOpen)"

record cap_gate =
  gate_paused :: bool
  gate_state :: cap_state
  gate_hour_used :: nat
  gate_day_used :: nat

definition capGate :: "cap_counts \<Rightarrow> cap_cfg \<Rightarrow> int \<Rightarrow> cap_gate" where
  "capGate db cfg now =
     (let usage = readCapUsage db cfg now; state = capState usage cfg
      in \<lparr>gate_paused = state = CapSoft \<or> state = CapHard, gate_state = state,
          gate_hour_used = fst usage, gate_day_used = snd usage\<rparr>)"

definition issuanceCapHealth :: "cap_counts \<Rightarrow> cap_cfg \<Rightarrow> int \<Rightarrow> nat \<times> nat \<times> cap_state" where
  "issuanceCapHealth db cfg now =
     (let gate = capGate db cfg now in (gate_hour_used gate, gate_day_used gate, gate_state gate))"

datatype slot_reply = Uncounted | Counted nat nat | CapError

definition consumeReceiptSlot :: "cap_counts \<Rightarrow> cap_cfg \<Rightarrow> int \<Rightarrow> cap_counts \<times> slot_reply" where
  "consumeReceiptSlot db cfg now =
     (if \<not> cap_enabled cfg then (db, Uncounted)
      else let (hour, day) = capWindows now;
               hourUsed = readCount db hour ''hour'';
               dayUsed = readCount db day ''day''
        in if atOrAbove hourUsed (cap_hour cfg) 100 \<or> atOrAbove dayUsed (cap_day cfg) 100
           then (db, CapError)
           else let db1 = bump db hour ''hour''; db2 = bump db1 day ''day''
             in (db2, Counted (readCount db1 hour ''hour'') (readCount db2 day ''day'')))"

definition receiptIdOnly :: "jsval \<Rightarrow> jsval" where
  "receiptIdOnly v =
     (if js_nullish v then JNull
      else let text = js_String v in if text = [] \<or> 200 < length text then JNull else JStr text)"

text \<open>
  \<open>noteIssuanceCapLost\<close>: the log of raised alerts, the caller's \<open>park\<close> (\<open>None\<close>: not a
  function; otherwise what it returns), and the answer (parked, lost).
\<close>

definition noteIssuanceCapLost ::
    "jsval list \<Rightarrow> jsval \<Rightarrow> jsval \<Rightarrow> jsval option \<Rightarrow> jsval list \<times> bool \<times> bool" where
  "noteIssuanceCapLost raised receiptId env park =
     (let rid = receiptIdOnly receiptId;
          late = jget env ''X402_LATE_ISSUE'';
          lateOn = (late = JStr ''1'' \<or> late = JStr ''true'')
      in if lateOn \<and> (case park of Some r \<Rightarrow> js_truthy r | None \<Rightarrow> False) then (raised, True, False)
         else (raised @ [JObj [(''alert'', JStr ''issuance_cap''), (''receipt_id'', rid)]], False, True))"

section \<open>Runs of the signer\<close>

text \<open>The times at which a run of requests got a slot.\<close>

fun issued :: "cap_counts \<Rightarrow> (cap_cfg \<times> int) list \<Rightarrow> int list" where
  "issued db [] = []"
| "issued db ((cfg, now) # xs) =
     (let (db', r) = consumeReceiptSlot db cfg now
      in case r of CapError \<Rightarrow> issued db' xs | _ \<Rightarrow> now # issued db' xs)"

definition in_hour :: "int \<Rightarrow> int list \<Rightarrow> nat" where
  "in_hour w ts = length (filter (\<lambda>t. fst (capWindows t) = w) ts)"

definition in_day :: "int \<Rightarrow> int list \<Rightarrow> nat" where
  "in_day w ts = length (filter (\<lambda>t. snd (capWindows t) = w) ts)"

lemma readCount_bump:
  "readCount (bump db w span) w' span' = readCount db w' span' + (if w' = w \<and> span' = span then 1 else 0)"
  by (simp add: readCount_def bump_def jsmap_simps split: option.split)

lemma atOrAbove_full: "atOrAbove used (Some l) 100 \<longleftrightarrow> l \<le> used"
  by (simp add: atOrAbove_def)

lemma consume_counts:
  assumes "consumeReceiptSlot db cfg now = (db', r)" "cap_enabled cfg"
  shows "(r = CapError \<and> db' = db \<or>
      r \<noteq> CapError \<and> \<not> atOrAbove (readCount db (fst (capWindows now)) ''hour'') (cap_hour cfg) 100 \<and>
      \<not> atOrAbove (readCount db (snd (capWindows now)) ''day'') (cap_day cfg) 100 \<and>
      (\<forall>w. readCount db' w ''hour'' = readCount db w ''hour'' + (if w = fst (capWindows now) then 1 else 0)) \<and>
      (\<forall>w. readCount db' w ''day'' = readCount db w ''day'' + (if w = snd (capWindows now) then 1 else 0)))"
  using assms
  by (auto simp: consumeReceiptSlot_def Let_def readCount_bump split: prod.splits if_splits)

lemma issued_hour:
  assumes "list_all (\<lambda>(cfg, now). cap_enabled cfg \<and> (\<exists>h. cap_hour cfg = Some h \<and> h \<le> H)) xs"
  shows "readCount db w ''hour'' \<le> H \<Longrightarrow> readCount db w ''hour'' + in_hour w (issued db xs) \<le> H"
  using assms
proof (induction xs arbitrary: db)
  case (Cons x xs)
  obtain cfg now where x: "x = (cfg, now)" by (cases x)
  obtain db' r where c: "consumeReceiptSlot db cfg now = (db', r)" by (cases "consumeReceiptSlot db cfg now")
  from Cons.prems x obtain h where e: "cap_enabled cfg" "cap_hour cfg = Some h" "h \<le> H" by auto
  show ?case
  proof (cases "r = CapError")
    case True
    with consume_counts [OF c e(1)] Cons c x show ?thesis by simp
  next
    case False
    have i: "issued db (x # xs) = now # issued db' xs"
      using False c x by (cases r) auto
    from False consume_counts [OF c e(1)] e(2)
    have lt: "readCount db (fst (capWindows now)) ''hour'' < h"
      and up: "readCount db' w ''hour'' = readCount db w ''hour'' + (if w = fst (capWindows now) then 1 else 0)"
      by (auto simp: atOrAbove_full)
    have "readCount db' w ''hour'' \<le> H" using lt up e(3) Cons.prems(1) by (cases "w = fst (capWindows now)") auto
    with Cons.IH [of db'] Cons.prems(2) have "readCount db' w ''hour'' + in_hour w (issued db' xs) \<le> H" by simp
    with up i show ?thesis by (auto simp: in_hour_def)
  qed
qed (simp add: in_hour_def)

lemma issued_day:
  assumes "list_all (\<lambda>(cfg, now). cap_enabled cfg \<and> (\<exists>d. cap_day cfg = Some d \<and> d \<le> D)) xs"
  shows "readCount db w ''day'' \<le> D \<Longrightarrow> readCount db w ''day'' + in_day w (issued db xs) \<le> D"
  using assms
proof (induction xs arbitrary: db)
  case (Cons x xs)
  obtain cfg now where x: "x = (cfg, now)" by (cases x)
  obtain db' r where c: "consumeReceiptSlot db cfg now = (db', r)" by (cases "consumeReceiptSlot db cfg now")
  from Cons.prems x obtain h where e: "cap_enabled cfg" "cap_day cfg = Some h" "h \<le> D" by auto
  show ?case
  proof (cases "r = CapError")
    case True
    with consume_counts [OF c e(1)] Cons c x show ?thesis by simp
  next
    case False
    have i: "issued db (x # xs) = now # issued db' xs"
      using False c x by (cases r) auto
    from False consume_counts [OF c e(1)] e(2)
    have lt: "readCount db (snd (capWindows now)) ''day'' < h"
      and up: "readCount db' w ''day'' = readCount db w ''day'' + (if w = snd (capWindows now) then 1 else 0)"
      by (auto simp: atOrAbove_full)
    have "readCount db' w ''day'' \<le> D" using lt up e(3) Cons.prems(1) by (cases "w = snd (capWindows now)") auto
    with Cons.IH [of db'] Cons.prems(2) have "readCount db' w ''day'' + in_day w (issued db' xs) \<le> D" by simp
    with up i show ?thesis by (auto simp: in_day_def)
  qed
qed (simp add: in_day_def)

section \<open>Properties\<close>

text \<open>
  Property C35. Starting from an empty table, the signer never issues more receipts in any clock hour
  than the hourly cap, nor in any day than the daily cap, whatever order the clock readings
  come in.
\<close>
theorem issuance_within_caps:
  assumes "list_all (\<lambda>(cfg, now). cap_enabled cfg \<and> (\<exists>h. cap_hour cfg = Some h \<and> h \<le> H)) xs"
    and "list_all (\<lambda>(cfg, now). cap_enabled cfg \<and> (\<exists>d. cap_day cfg = Some d \<and> d \<le> D)) xs"
  shows "in_hour w (issued [] xs) \<le> H \<and> in_day v (issued [] xs) \<le> D"
  using issued_hour [OF assms(1), of "[]" w] issued_day [OF assms(2), of "[]" v]
  by (simp add: readCount_def)

definition example_cfg :: cap_cfg where
  "example_cfg = capConfig (JObj [(''ISSUER_CAP_RECEIPTS_PER_HOUR'', JStr ''2''),
     (''ISSUER_CAP_RECEIPTS_PER_DAY'', JStr '' 3 '')])"

theorem issuance_within_caps_witness:
  "in_hour 0 (issued [] (replicate 5 (example_cfg, 1000))) \<le> 2 \<and>
   in_day 0 (issued [] (replicate 5 (example_cfg, 1000))) \<le> 3"
proof -
  have "cap_enabled example_cfg" "cap_hour example_cfg = Some 2" "cap_day example_cfg = Some 3"
    by code_simp+
  then show ?thesis by (intro issuance_within_caps) (simp_all add: list_all_iff)
qed

text \<open>
  The paid-route gate is conservative: when it does not pause the route under an
  enabled cap, the very next receipt at that time gets a slot.
\<close>

theorem open_gate_grants_slot:
  assumes "cap_enabled cfg" "\<not> gate_paused (capGate db cfg now)"
  shows "\<exists>h d. snd (consumeReceiptSlot db cfg now) = Counted h d"
  using assms
  by (auto simp: capGate_def capState_def readCapUsage_def consumeReceiptSlot_def Let_def
           split: if_splits prod.splits)

theorem open_gate_grants_slot_witness:
  "\<exists>h d. snd (consumeReceiptSlot [] example_cfg 1000) = Counted h d"
proof -
  have "cap_enabled example_cfg" "\<not> gate_paused (capGate [] example_cfg 1000)"
    by code_simp+
  then show ?thesis by (rule open_gate_grants_slot)
qed

end
