(* ===== verification/Relayer_Auth.thy ===== *)
theory Relayer_Auth
  imports Js_Store Js_Values
begin

text \<open>
  services/gateway/src/relayer-auth.js: a relayer's signature over an audience, a request and a
  nonce, and the store that marks nonces used until an expiry. Signature recovery
  (\<open>verifyMessage\<close> of the ethers package) is the parameter \<open>recover\<close>. Times are integers
  of milliseconds; a timestamp finer than that is cut to the millisecond. The flag of a
  call says whether the file took the write.
\<close>

definition MAX_AGE_MS :: int where "MAX_AGE_MS = 300 * 1000"

definition relayerAudience :: "jsval \<Rightarrow> string option" where
  "relayerAudience env =
     (let raw = jget env ''M2M_RELAYER_AUDIENCE''
      in if js_nullish raw \<or> js_trim (js_String raw) = [] then None else Some (js_trim (js_String raw)))"

definition relayerSignedMessage :: "jsval \<Rightarrow> jsval \<Rightarrow> jsval \<Rightarrow> jsval \<Rightarrow> jsval \<Rightarrow> jsval \<Rightarrow> string" where
  "relayerSignedMessage audience meth path bodySha timestamp nonce =
     join_with [CHR 10] (map js_String [audience, meth, path, bodySha, timestamp, nonce])"

section \<open>The nonce store\<close>

type_synonym nonces = "(string, int) jsmap"

definition nonce_gc :: "int \<Rightarrow> nonces \<Rightarrow> nonces" where
  "nonce_gc now used = filter (\<lambda>(n, e). \<not> e \<le> now) used"

datatype auth_reply = AuthYes | AuthNo | AuthThrows

definition nonce_consume :: "nonces \<Rightarrow> bool \<Rightarrow> int \<Rightarrow> string \<Rightarrow> int \<Rightarrow> nonces \<times> auth_reply" where
  "nonce_consume used ok gcNow nonce expiresAt =
     (let used = nonce_gc gcNow used
      in if nonce = [] \<or> jm_has used nonce then (used, AuthNo)
         else let used' = jm_set nonce expiresAt used
           in if ok then (used', AuthYes) else (jm_delete nonce used', AuthThrows))"

text \<open>Reading the state file: the entries of \<open>used\<close> whose expiry is a finite number.\<close>

definition load_nonces :: "jsval \<Rightarrow> nonces" where
  "load_nonces parsed =
     (case js_or (jget parsed ''used'') (JObj []) of
        JObj ps \<Rightarrow>
          foldl (\<lambda>m (k, v). case v of
              JNum (JInt i) \<Rightarrow> jm_set k i m
            | JNum JNegZero \<Rightarrow> jm_set k 0 m
            | JNum (JFrac f t) \<Rightarrow> jm_set k (f + 1) m
            | _ \<Rightarrow> m) [] ps
      | _ \<Rightarrow> [])"

definition nonces_json :: "nonces \<Rightarrow> jsval" where
  "nonces_json used = JObj [(''used'', JObj (map (\<lambda>(k, v). (k, JNum (JInt v))) used))]"

section \<open>Verification\<close>

text \<open>\<open>Number(timestamp)\<close> in milliseconds; \<open>None\<close> when it is not finite.\<close>

definition timestamp_ms :: "jsval \<Rightarrow> int option" where
  "timestamp_ms v =
     (case js_Number v of
        JInt i \<Rightarrow> Some (1000 * i)
      | JNegZero \<Rightarrow> Some 0
      | JFrac f t \<Rightarrow>
          (let body = (if t \<noteq> [] \<and> is_sign (hd t) then tl t else t)
           in case decimal_literal body of
                Some (m, e) \<Rightarrow>
                  (let sgn = (if t \<noteq> [] \<and> hd t = CHR ''-'' then - 1 else 1 :: int)
                   in Some (if 0 \<le> e + 3 then sgn * (int m * 10 ^ nat (e + 3))
                            else (sgn * int m) div 10 ^ nat (- (e + 3))))
              | None \<Rightarrow> Some (1000 * f))
      | _ \<Rightarrow> None)"

record auth_request =
  au_signature :: jsval
  au_timestamp :: jsval
  au_nonce :: jsval
  au_method :: jsval
  au_path :: jsval
  au_bodySha :: jsval
  au_addresses :: "string list option"
  au_audience :: jsval

text \<open>One call: the clock read for the age, the clock read by the sweep, the disk, the request.\<close>

record auth_call =
  call_now :: int
  call_gc :: int
  call_ok :: bool
  call_req :: auth_request

definition verifyRelayerAuth :: "(string \<Rightarrow> jsval \<Rightarrow> string option) \<Rightarrow> nonces \<Rightarrow> auth_call \<Rightarrow> nonces \<times> auth_reply" where
  "verifyRelayerAuth recover used c =
     (let r = call_req c in
      if \<not> js_truthy (au_signature r) \<or> js_nullish (au_timestamp r) \<or> au_timestamp r = JStr []
         \<or> \<not> js_truthy (au_nonce r) \<or> \<not> js_truthy (au_audience r) then (used, AuthNo)
      else case au_addresses r of
        None \<Rightarrow> (used, AuthNo)
      | Some addrs \<Rightarrow>
          if addrs = [] then (used, AuthNo)
          else (case timestamp_ms (au_timestamp r) of
            None \<Rightarrow> (used, AuthNo)
          | Some ts \<Rightarrow>
              let age = \<bar>call_now c - ts\<bar> in
              if MAX_AGE_MS < age then (used, AuthNo)
              else (case recover (relayerSignedMessage (au_audience r) (au_method r) (au_path r)
                                    (au_bodySha r) (au_timestamp r) (au_nonce r)) (au_signature r) of
                None \<Rightarrow> (used, AuthNo)
              | Some addr \<Rightarrow>
                  if js_lower addr \<notin> set addrs then (used, AuthNo)
                  else nonce_consume used (call_ok c) (call_gc c) (js_String (au_nonce r))
                         (call_now c + max 0 (MAX_AGE_MS - age)))))"

section \<open>Marks live until their expiry\<close>

lemma jm_get_gc: "jm_ok used \<Longrightarrow> jm_get (nonce_gc now used) n =
    (case jm_get used n of Some e \<Rightarrow> if e \<le> now then None else Some e | None \<Rightarrow> None)"
proof (induction used)
  case (Cons p used)
  obtain k e where p: "p = (k, e)" by (cases p)
  have none: "k \<notin> fst ` set used \<Longrightarrow> jm_get (nonce_gc now used) k = None"
    by (auto simp: map_of_eq_None_iff nonce_gc_def)
  from Cons p none show ?case by (auto simp: nonce_gc_def jm_ok_def)
qed (simp add: nonce_gc_def)

lemma jm_ok_gc [simp]: "jm_ok used \<Longrightarrow> jm_ok (nonce_gc now used)"
  by (simp add: jm_ok_def nonce_gc_def distinct_map_filter)

text \<open>A mark is held when its expiry is at least \<open>T\<close>; before \<open>T\<close> no call drops it.\<close>

definition marked :: "string \<Rightarrow> int \<Rightarrow> nonces \<Rightarrow> bool" where
  "marked n T used \<longleftrightarrow> jm_ok used \<and> (\<exists>e. jm_get used n = Some e \<and> T \<le> e)"

lemma jm_delete_set_other: "jm_get (jm_delete k (jm_set k v m)) n = (if n = k then None else jm_get m n)"
  by (simp add: jsmap_simps)

lemma nonce_consume_marked:
  assumes "marked n T used" "gc < T"
  shows "marked n T (fst (nonce_consume used ok gc k e)) \<and> (k = n \<longrightarrow> snd (nonce_consume used ok gc k e) \<noteq> AuthYes)"
proof -
  from assms obtain x where x: "jm_ok used" "jm_get used n = Some x" "T \<le> x" by (auto simp: marked_def)
  with assms have g: "jm_get (nonce_gc gc used) n = Some x" by (simp add: jm_get_gc)
  with x show ?thesis
    by (auto simp: nonce_consume_def Let_def marked_def jm_has_def jsmap_simps)
qed

lemma verify_marked:
  assumes "marked n T used" "call_gc c < T"
  shows "marked n T (fst (verifyRelayerAuth recover used c)) \<and>
    (js_String (au_nonce (call_req c)) = n \<longrightarrow> snd (verifyRelayerAuth recover used c) \<noteq> AuthYes)"
  using assms nonce_consume_marked [OF assms]
  by (auto simp: verifyRelayerAuth_def Let_def split: option.split)

definition auth_step :: "(string \<Rightarrow> jsval \<Rightarrow> string option) \<Rightarrow> nonces \<Rightarrow> auth_call \<Rightarrow> nonces" where
  "auth_step recover used c = fst (verifyRelayerAuth recover used c)"

interpretation marked_run: invariant_run "auth_step recover" "marked n T" "\<lambda>c. call_gc c < T" for recover n T
  by unfold_locales (simp add: auth_step_def verify_marked)

lemma jm_ok_consume: "jm_ok used \<Longrightarrow> jm_ok (fst (nonce_consume used ok gc k e))"
  by (simp add: nonce_consume_def Let_def)

lemma verify_accepts:
  assumes "jm_ok used" "snd (verifyRelayerAuth recover used c) = AuthYes"
  shows "\<exists>ts. timestamp_ms (au_timestamp (call_req c)) = Some ts \<and> \<bar>call_now c - ts\<bar> \<le> MAX_AGE_MS \<and>
    marked (js_String (au_nonce (call_req c))) (call_now c + (MAX_AGE_MS - \<bar>call_now c - ts\<bar>))
      (fst (verifyRelayerAuth recover used c))"
proof -
  let ?r = "call_req c"
  from assms(2) obtain addrs ts addr where a: "au_addresses ?r = Some addrs"
    "timestamp_ms (au_timestamp ?r) = Some ts" "\<not> MAX_AGE_MS < \<bar>call_now c - ts\<bar>"
    and v: "verifyRelayerAuth recover used c =
       nonce_consume used (call_ok c) (call_gc c) (js_String (au_nonce ?r))
         (call_now c + max 0 (MAX_AGE_MS - \<bar>call_now c - ts\<bar>))"
    by (auto simp: verifyRelayerAuth_def Let_def split: option.splits if_splits)
  from assms v have y: "snd (nonce_consume used (call_ok c) (call_gc c) (js_String (au_nonce ?r))
      (call_now c + max 0 (MAX_AGE_MS - \<bar>call_now c - ts\<bar>))) = AuthYes" by simp
  then have "jm_get (fst (nonce_consume used (call_ok c) (call_gc c) (js_String (au_nonce ?r))
      (call_now c + max 0 (MAX_AGE_MS - \<bar>call_now c - ts\<bar>)))) (js_String (au_nonce ?r)) =
      Some (call_now c + max 0 (MAX_AGE_MS - \<bar>call_now c - ts\<bar>))"
    by (auto simp: nonce_consume_def Let_def jsmap_simps split: if_splits)
  with a v assms(1) jm_ok_consume show ?thesis
    by (auto simp: marked_def)
qed

section \<open>Properties\<close>

text \<open>
  A request accepted when its timestamp was not in the future is not accepted again,
  whatever calls come between, while every sweep reads a clock before the end of the
  timestamp's window.
\<close>

theorem relayer_nonce_single_use:
  assumes "jm_ok used" "snd (verifyRelayerAuth recover used c) = AuthYes"
    and "timestamp_ms (au_timestamp (call_req c)) = Some ts" "ts \<le> call_now c"
    and "list_all (\<lambda>d. call_gc d < ts + MAX_AGE_MS) (ds @ [e])"
    and "js_String (au_nonce (call_req e)) = js_String (au_nonce (call_req c))"
  shows "snd (verifyRelayerAuth recover
    (foldl (auth_step recover) (fst (verifyRelayerAuth recover used c)) ds) e) \<noteq> AuthYes"
proof -
  let ?n = "js_String (au_nonce (call_req c))"
  from verify_accepts [OF assms(1,2)] assms(3,4)
  have "marked ?n (ts + MAX_AGE_MS) (fst (verifyRelayerAuth recover used c))"
    by (auto simp: ac_simps)
  then have "marked ?n (ts + MAX_AGE_MS)
      (foldl (auth_step recover) (fst (verifyRelayerAuth recover used c)) ds)"
    using assms(5) by (intro marked_run.run_inv) (auto simp: list_all_iff)
  with verify_marked [of ?n "ts + MAX_AGE_MS" _ e recover] assms(5,6) show ?thesis by auto
qed

definition example_request :: "string \<Rightarrow> auth_request" where
  "example_request ts =
     \<lparr>au_signature = JStr ''sig'', au_timestamp = JStr ts, au_nonce = JStr ''n1'', au_method = JStr ''POST'',
      au_path = JStr ''/v1'', au_bodySha = JStr ''ab'', au_addresses = Some [''0xaa''], au_audience = JStr ''gw''\<rparr>"

definition example_call :: "string \<Rightarrow> int \<Rightarrow> auth_call" where
  "example_call ts now = \<lparr>call_now = now, call_gc = now, call_ok = True, call_req = example_request ts\<rparr>"

definition example_recover :: "string \<Rightarrow> jsval \<Rightarrow> string option" where
  "example_recover message signature = (if signature = JStr ''sig'' then Some ''0xAA'' else None)"

theorem relayer_nonce_single_use_witness:
  "snd (verifyRelayerAuth example_recover
     (foldl (auth_step example_recover)
        (fst (verifyRelayerAuth example_recover [] (example_call ''1000'' 1000000)))
        [example_call ''1000'' 1200000])
     (example_call ''1000'' 1299999)) \<noteq> AuthYes"
proof (rule relayer_nonce_single_use [where ts = 1000000])
  show "snd (verifyRelayerAuth example_recover [] (example_call ''1000'' 1000000)) = AuthYes"
    by code_simp
  show "timestamp_ms (au_timestamp (call_req (example_call ''1000'' 1000000))) = Some 1000000"
    by code_simp
qed (simp_all add: example_call_def example_request_def MAX_AGE_MS_def)

text \<open>
  The mark does not cover the window of a timestamp that is ahead of the clock: a
  request stamped five minutes ahead is accepted, and accepted again one millisecond later
  with the same nonce and signature, because its mark expired at once.
\<close>

theorem relayer_future_timestamp_replays:
  "let first = verifyRelayerAuth example_recover [] (example_call ''1300'' 1000000);
       second = verifyRelayerAuth example_recover (fst first) (example_call ''1300'' 1000001)
   in snd first = AuthYes \<and> snd second = AuthYes"
  by code_simp

end
