(* ===== verification/Ecdsa_Der.thy ===== *)
theory Ecdsa_Der
  imports Byte_Ints
begin

text \<open>
  packages/cs2-core/ecdsa/der.js and the DER writer of sign.js: strict DER signatures to the
  64-byte form and low-S, for the order of the curve that the caller passes, and the modular
  power of recover.js. The curve of the source is read only for its order. A signature
  that is refused is \<open>Inl ''der_invalid''\<close>.
\<close>

section \<open>Reader\<close>

abbreviation der_error :: "'a outcome" where
  "der_error \<equiv> Inl ''der_invalid''"

definition readLength :: "bytes \<Rightarrow> nat \<Rightarrow> (nat \<times> nat) outcome" where
  "readLength buf offset =
     (if length buf \<le> offset then der_error
      else let first = unat (buf ! offset) in
        if first < 128 then Inr (first, offset + 1)
        else let count = first - 128 in
          if count = 0 \<or> 2 < count then der_error
          else if length buf < offset + 1 + count then der_error
          else if buf ! (offset + 1) = 0 then der_error
          else let len = bytesToBig (slice buf (offset + 1) (offset + 1 + count))
            in if len < 128 then der_error else Inr (len, offset + 1 + count))"

text \<open>Skip leading zeros but the last byte: the \<open>while\<close> loop of \<open>readScalar\<close> and \<open>derInt\<close>.\<close>

fun drop_zeros :: "bytes \<Rightarrow> bytes" where
  "drop_zeros [] = []"
| "drop_zeros [x] = [x]"
| "drop_zeros (x # y # r) = (if x = 0 then drop_zeros (y # r) else x # y # r)"

definition readScalar :: "bytes \<Rightarrow> nat \<Rightarrow> nat \<Rightarrow> nat \<Rightarrow> (bytes \<times> nat \<times> nat) outcome" where
  "readScalar buf offset endp order =
     (if endp \<le> offset \<or> buf ! offset \<noteq> 2 then der_error
      else case readLength buf (offset + 1) of
          Inl e \<Rightarrow> Inl e
        | Inr (len, start) \<Rightarrow>
            if len < 1 then der_error
            else if endp < start + len then der_error
            else if 128 \<le> unat (buf ! start) then der_error
            else if buf ! start = 0 \<and> (len = 1 \<or> unat (buf ! (start + 1)) < 128) then der_error
            else let body = slice buf start (start + len); raw = drop_zeros body
              in if 32 < length raw then der_error
                 else let value = bytesToBig body
                   in if value = 0 \<or> order \<le> value then der_error
                      else case bigToBytes (int value) 32 of
                          Inl e \<Rightarrow> Inl e
                        | Inr out \<Rightarrow> Inr (out, value, start + len))"

definition derToRaw :: "bytes \<Rightarrow> nat \<Rightarrow> bytes outcome" where
  "derToRaw buf order =
     (if length buf < 8 \<or> buf ! 0 \<noteq> 48 then der_error
      else case readLength buf 1 of
          Inl e \<Rightarrow> Inl e
        | Inr (len, nxt) \<Rightarrow>
            if nxt + len \<noteq> length buf then der_error
            else (case readScalar buf nxt (length buf) order of
                Inl e \<Rightarrow> Inl e
              | Inr (r, rv, rn) \<Rightarrow>
                  (case readScalar buf rn (length buf) order of
                     Inl e \<Rightarrow> Inl e
                   | Inr (s, sv, sn) \<Rightarrow>
                       if sn \<noteq> length buf then der_error else Inr (r @ s))))"

definition lowS :: "bytes \<Rightarrow> nat \<Rightarrow> bytes outcome" where
  "lowS sig order =
     (if length sig \<noteq> 64 then der_error
      else let s = bytesToBig (slice sig 32 64)
        in if s = 0 \<or> order \<le> s then der_error
           else if s \<le> order div 2 then Inr sig
           else case bigToBytes (int order - int s) 32 of
               Inl e \<Rightarrow> Inl e
             | Inr t \<Rightarrow> Inr (slice sig 0 32 @ t))"

definition normalizeDer :: "bytes \<Rightarrow> nat \<Rightarrow> bytes outcome" where
  "normalizeDer der order = (case derToRaw der order of Inl e \<Rightarrow> Inl e | Inr raw \<Rightarrow> lowS raw order)"

section \<open>Writer\<close>

definition derInt :: "bytes \<Rightarrow> bytes outcome" where
  "derInt bs =
     (let body = drop_zeros bs;
          body = (if body \<noteq> [] \<and> 128 \<le> unat (body ! 0) then 0 # body else body)
      in if 128 \<le> length body then der_error else Inr (2 # word_of_nat (length body) # body))"

definition derSeq :: "bytes \<Rightarrow> bytes \<Rightarrow> bytes outcome" where
  "derSeq r s =
     (case derInt r of
        Inl e \<Rightarrow> Inl e
      | Inr ri \<Rightarrow>
          (case derInt s of
             Inl e \<Rightarrow> Inl e
           | Inr si \<Rightarrow>
               let body = ri @ si
               in if 128 \<le> length body then der_error else Inr (48 # word_of_nat (length body) # body)))"

section \<open>Modular power\<close>

text \<open>The loop of \<open>modPow\<close>, with the exponent halved each round.\<close>

fun modPow_loop :: "nat \<Rightarrow> nat \<Rightarrow> nat \<Rightarrow> nat \<Rightarrow> nat" where
  "modPow_loop m result b e =
     (if e = 0 then result
      else modPow_loop m (if odd e then result * b mod m else result) (b * b mod m) (e div 2))"

declare modPow_loop.simps [simp del]

definition modPow :: "nat \<Rightarrow> nat \<Rightarrow> nat \<Rightarrow> nat" where
  "modPow base e m = modPow_loop m 1 (base mod m) e"

definition modInv :: "nat \<Rightarrow> nat \<Rightarrow> nat option" where
  "modInv a m =
     (if a = 0 then None
      else let inv = modPow a (m - 2) m in if inv * a mod m \<noteq> 1 then None else Some inv)"

definition modSqrt :: "nat \<Rightarrow> nat \<Rightarrow> nat option" where
  "modSqrt a p =
     (let aa = a mod p
      in if aa = 0 then Some 0
         else let root = modPow aa ((p + 1) div 4) p
           in if root * root mod p \<noteq> aa then None else Some root)"

section \<open>One integer\<close>

lemma drop_zeros_min: "bytesToBig bs \<noteq> 0 \<Longrightarrow> drop_zeros bs = min_bytes (bytesToBig bs)"
proof (induction bs rule: drop_zeros.induct)
  case (3 x y r)
  show ?case
  proof (cases "x = 0")
    case True
    then have "bytesToBig (x # y # r) = bytesToBig (y # r)" by (simp add: bytesToBig_Cons)
    with 3 True show ?thesis by simp
  next
    case False
    then have "min_bytes (bytesToBig (x # y # r)) = x # y # r" by (intro min_bytes_unique) simp
    with False show ?thesis by simp
  qed
next
  case (2 v)
  then have "v \<noteq> 0" by (auto simp: bytesToBig_Cons)
  then have "min_bytes (bytesToBig [v]) = [v]" by (intro min_bytes_unique) simp
  then show ?case by simp
qed simp

text \<open>The contents of a DER INTEGER: minimal, with a sign byte when the high bit is set.\<close>

definition der_body :: "nat \<Rightarrow> bytes" where
  "der_body v = (let m = min_bytes v in if 128 \<le> unat (m ! 0) then 0 # m else m)"

lemma der_body_value [simp]: "bytesToBig (der_body v) = v"
  by (simp add: der_body_def Let_def bytesToBig_Cons)

lemma der_body_nonempty: "v \<noteq> 0 \<Longrightarrow> der_body v \<noteq> []"
  using min_bytes_head [of v] by (auto simp: der_body_def Let_def)

lemma length_der_body: "v < 2 ^ 256 \<Longrightarrow> length (der_body v) \<le> 33"
proof -
  assume "v < 2 ^ 256"
  then have "v < 256 ^ 32" by simp
  then have "length (min_bytes v) \<le> 32" by (rule length_min_bytes)
  then show ?thesis by (simp add: der_body_def Let_def)
qed

lemma derInt_body:
  assumes "bytesToBig bs \<noteq> 0" "bytesToBig bs < 2 ^ 256"
  shows "derInt bs = Inr (2 # word_of_nat (length (der_body (bytesToBig bs))) # der_body (bytesToBig bs))"
proof -
  have "length (der_body (bytesToBig bs)) < 128" using length_der_body [OF assms(2)] by simp
  moreover have "drop_zeros bs = min_bytes (bytesToBig bs)" by (rule drop_zeros_min [OF assms(1)])
  ultimately show ?thesis using min_bytes_head [OF assms(1)]
    by (simp add: derInt_def der_body_def Let_def split: if_splits)
qed

text \<open>A body that passes the reader's checks is that body.\<close>

lemma der_body_unique:
  assumes "bs \<noteq> []" "unat (bs ! 0) < 128" "bytesToBig bs \<noteq> 0"
    and "bs ! 0 = 0 \<longrightarrow> length bs \<noteq> 1 \<and> 128 \<le> unat (bs ! 1)"
  shows "bs = der_body (bytesToBig bs)"
proof (cases "bs ! 0 = 0")
  case False
  with assms have "hd bs \<noteq> 0" by (simp add: hd_conv_nth)
  then have "min_bytes (bytesToBig bs) = bs" by (intro min_bytes_unique) simp
  with assms show ?thesis by (simp add: der_body_def Let_def)
next
  case True
  with assms obtain c where c: "bs = 0 # c" by (cases bs) auto
  with assms True have h: "c \<noteq> []" "128 \<le> unat (c ! 0)" by auto
  then have "hd c \<noteq> 0" by (auto simp: hd_conv_nth)
  then have m: "min_bytes (bytesToBig c) = c" by (intro min_bytes_unique) simp
  have "bytesToBig bs = bytesToBig c" using c by (simp add: bytesToBig_Cons)
  with m h c show ?thesis by (simp add: der_body_def Let_def)
qed

lemma readLength_short:
  "readLength buf off = Inr (len, nxt) \<Longrightarrow> len < 128 \<Longrightarrow>
     off < length buf \<and> nxt = off + 1 \<and> buf ! off = word_of_nat len"
  by (auto simp: readLength_def Let_def split: if_splits)

text \<open>The bytes of one INTEGER in its only accepted form.\<close>

definition der_int :: "nat \<Rightarrow> bytes" where
  "der_int v = 2 # word_of_nat (length (der_body v)) # der_body v"

lemma drop_zeros_split:
  "bytesToBig bs \<noteq> 0 \<Longrightarrow> bs ! 0 = 0 \<longrightarrow> length bs \<noteq> 1 \<and> 128 \<le> unat (bs ! 1) \<Longrightarrow>
     length bs \<le> length (drop_zeros bs) + 1"
proof (cases bs rule: drop_zeros.cases)
  case (3 x y r)
  assume "bs ! 0 = 0 \<longrightarrow> length bs \<noteq> 1 \<and> 128 \<le> unat (bs ! 1)"
  moreover have "drop_zeros (y # r) = y # r" if "128 \<le> unat y"
    using that by (cases r) auto
  ultimately show ?thesis using 3 by auto
qed auto

lemma slice_bound: "length (slice xs a b) \<le> b - a"
  by (simp add: slice_def)

lemma readScalar_read:
  assumes "readScalar buf off endp order = Inr (out, v, nxt)" "endp \<le> length buf"
  shows "off < nxt \<and> nxt \<le> endp \<and> slice buf off nxt = der_int v \<and> 0 < v \<and> v < order \<and>
    length out = 32 \<and> bytesToBig out = v"
proof -
  obtain len start where l: "readLength buf (off + 1) = Inr (len, start)"
    using assms(1) by (cases "readLength buf (off + 1)") (auto simp: readScalar_def split: if_splits)
  with assms(1) have c: "off < endp" "buf ! off = 2" "1 \<le> len" "start + len \<le> endp" "unat (buf ! start) < 128"
      "buf ! start = 0 \<longrightarrow> len \<noteq> 1 \<and> 128 \<le> unat (buf ! (start + 1))"
      "length (drop_zeros (slice buf start (start + len))) \<le> 32"
    and v: "v = bytesToBig (slice buf start (start + len))" "v \<noteq> 0" "v < order"
      "bigToBytes (int v) 32 = Inr out" "nxt = start + len"
    by (auto simp: readScalar_def Let_def not_le not_less split: if_splits sum.splits)
  let ?b = "slice buf start (start + len)"
  have lb: "length ?b = len" using c assms(2) by simp
  have b0: "?b ! 0 = buf ! start" using c assms(2) by (intro slice_nth0) auto
  have b1: "?b ! 1 = buf ! (start + 1)" if "len \<noteq> 1" using c assms(2) that by (simp add: slice_def)
  have chk: "?b ! 0 = 0 \<longrightarrow> length ?b \<noteq> 1 \<and> 128 \<le> unat (?b ! 1)" using b0 b1 lb c(6) by metis
  have body: "?b = der_body v" unfolding v(1)
    using b0 lb c v chk by (intro der_body_unique) auto
  have len: "len \<le> 33" using drop_zeros_split [OF _ chk] lb c(7) v by simp
  then have s: "off + 1 < length buf" "start = off + 2" "buf ! (off + 1) = word_of_nat len"
    using readLength_short [OF l] by auto
  have "slice buf off nxt = buf ! off # buf ! (off + 1) # slice buf start nxt"
    using s c v assms(2) by (simp add: slice_Cons)
  also have "\<dots> = der_int v" using s c body lb v by (simp add: der_int_def flip: body)
  finally show ?thesis using v s c bigToBytes_value [OF v(4)] by simp
qed

lemma readScalar_write:
  assumes "0 < v" "v < order" "v < 2 ^ 256" "buf = p @ der_int v @ q" "length p + length (der_int v) \<le> endp"
    "endp \<le> length buf" "length out = 32" "bytesToBig out = v"
  shows "readScalar buf (length p) endp order = Inr (out, v, length p + length (der_int v))"
proof -
  let ?b = "der_body v" and ?s = "length p + 2"
  have l: "length ?b \<le> 33" "?b \<noteq> []" using length_der_body [OF assms(3)] der_body_nonempty assms(1) by auto
  have buf: "buf = p @ 2 # word_of_nat (length ?b) # ?b @ q" using assms(4) by (simp add: der_int_def)
  have at: "buf ! length p = 2" "buf ! (length p + 1) = word_of_nat (length ?b)"
    unfolding buf by (simp_all add: nth_append)
  have "unat (buf ! (length p + 1)) = length ?b" using at l by (simp add: unat_of_nat)
  then have rl: "readLength buf (length p + 1) = Inr (length ?b, ?s)"
    using l buf by (simp add: readLength_def)
  have sl: "slice buf ?s (?s + length ?b) = ?b"
    unfolding buf using slice_at [of ?s "p @ [2, word_of_nat (length ?b)]" "?s + length ?b" ?b q] by simp
  have m: "min_bytes v \<noteq> []" "hd (min_bytes v) \<noteq> 0" using min_bytes_head [of v] assms(1) by auto
  have nth: "buf ! (?s + i) = ?b ! i" if "i < length ?b" for i
    unfolding buf using that by (simp add: nth_append)
  have h0: "unat (?b ! 0) < 128" by (simp add: der_body_def Let_def)
  have h1: "?b ! 0 = 0 \<longrightarrow> length ?b \<noteq> 1 \<and> 128 \<le> unat (?b ! 1)"
    using m by (auto simp: der_body_def Let_def hd_conv_nth)
  have dz: "drop_zeros ?b = min_bytes v" using drop_zeros_min [of ?b] assms(1) by simp
  have lm: "length (min_bytes v) \<le> 32" using assms(3) by (intro length_min_bytes) simp
  have big: "bigToBytes (int v) 32 = Inr out" using assms(7,8) by (metis bigToBytes_bytesToBig)
  have e: "length p + length (der_int v) = ?s + length ?b" by (simp add: der_int_def)
  have g0: "unat (buf ! ?s) < 128" using h0 nth [of 0] l by simp
  have g1: "\<not> (buf ! ?s = 0 \<and> (length ?b = 1 \<or> unat (buf ! (?s + 1)) < 128))"
    using h1 nth [of 0] nth [of 1] l by (cases "length ?b") (auto simp: not_le)
  have e': "length p + 2 + length ?b \<le> endp" using assms(5) e by simp
  have "length p < endp" using e' by simp
  then show ?thesis
    using rl at g0 g1 e e' sl dz lm big assms(1,2) l
    by (simp add: readScalar_def Let_def)
qed

section \<open>Whole signatures\<close>

definition scalar_ok :: "nat \<Rightarrow> bytes \<Rightarrow> bool" where
  "scalar_ok order bs \<longleftrightarrow> length bs = 32 \<and> 0 < bytesToBig bs \<and> bytesToBig bs < order"

lemma length_der_int: "v < 2 ^ 256 \<Longrightarrow> length (der_int v) \<le> 35"
  using length_der_body [of v] by (simp add: der_int_def)

lemma derSeq_der_int:
  assumes "scalar_ok order r" "scalar_ok order s" "order \<le> 2 ^ 256"
  shows "derSeq r s = Inr (48 # word_of_nat (length (der_int (bytesToBig r) @ der_int (bytesToBig s)))
    # der_int (bytesToBig r) @ der_int (bytesToBig s))"
proof -
  from assms have b: "bytesToBig r < 2 ^ 256" "bytesToBig s < 2 ^ 256" "bytesToBig r \<noteq> 0" "bytesToBig s \<noteq> 0"
    by (simp_all add: scalar_ok_def)
  have "derInt r = Inr (der_int (bytesToBig r))" "derInt s = Inr (der_int (bytesToBig s))"
    using derInt_body [OF b(3,1)] derInt_body [OF b(4,2)] by (simp_all add: der_int_def)
  moreover have "length (der_int (bytesToBig r) @ der_int (bytesToBig s)) < 128"
    using length_der_int [OF b(1)] length_der_int [OF b(2)] by simp
  ultimately show ?thesis by (simp add: derSeq_def Let_def)
qed

lemma derToRaw_read:
  assumes "derToRaw der order = Inr raw" "order \<le> 2 ^ 256"
  shows "\<exists>r s. scalar_ok order r \<and> scalar_ok order s \<and> raw = r @ s \<and> derSeq r s = Inr der"
proof -
  obtain len nxt where l: "readLength der 1 = Inr (len, nxt)"
    using assms(1) by (cases "readLength der 1") (auto simp: derToRaw_def split: if_splits)
  from assms(1) l have n: "nxt + len = length der" "der ! 0 = 48" "8 \<le> length der"
    by (auto simp: derToRaw_def split: if_splits)
  obtain r rv rn where r: "readScalar der nxt (length der) order = Inr (r, rv, rn)"
    using assms(1) l n
    by (cases "readScalar der nxt (length der) order") (auto simp: derToRaw_def)
  obtain s sv sn where s: "readScalar der rn (length der) order = Inr (s, sv, sn)"
    using assms(1) l n r
    by (cases "readScalar der rn (length der) order") (auto simp: derToRaw_def)
  from assms(1) l n r s have e: "sn = length der" "raw = r @ s"
    by (auto simp: derToRaw_def split: if_splits)
  note R = readScalar_read [OF r order_refl] and S = readScalar_read [OF s order_refl]
  from R S have ok: "scalar_ok order r" "scalar_ok order s" "bytesToBig r = rv" "bytesToBig s = sv"
    by (auto simp: scalar_ok_def)
  have body: "slice der nxt (length der) = der_int rv @ der_int sv"
    using R S e slice_split [of nxt rn "length der" der] by auto
  moreover have "length (slice der nxt (length der)) = len" using n by simp
  ultimately have len: "len = length (der_int rv @ der_int sv)" by simp
  have "len < 128" using len length_der_int [of rv] length_der_int [of sv] R S assms(2) by simp
  with readLength_short [OF l] have h: "nxt = 2" "der ! 1 = word_of_nat len" "1 < length der" by auto
  have "der = slice der 0 (length der)" by (simp add: slice_def)
  also have "\<dots> = der ! 0 # der ! 1 # slice der 2 (length der)"
    using slice_Cons [of 0 der "length der"] slice_Cons [of 1 der "length der"] h(3)
    by (cases der) (simp_all add: numeral_2_eq_2)
  finally have "der = 48 # word_of_nat len # der_int rv @ der_int sv" using n h body by simp
  with derSeq_der_int [OF ok(1,2) assms(2)] ok len e show ?thesis by auto
qed

lemma derToRaw_write:
  assumes "scalar_ok order r" "scalar_ok order s" "order \<le> 2 ^ 256" "derSeq r s = Inr der"
  shows "derToRaw der order = Inr (r @ s)"
proof -
  let ?ri = "der_int (bytesToBig r)" and ?si = "der_int (bytesToBig s)"
  define n where "n = length (?ri @ ?si)"
  let ?h = "word_of_nat n :: byte"
  have der: "der = [48, ?h] @ ?ri @ ?si"
    using derSeq_der_int [OF assms(1-3)] assms(4) unfolding n_def by simp
  from assms have b: "0 < bytesToBig r" "bytesToBig r < order" "0 < bytesToBig s" "bytesToBig s < order"
    "bytesToBig r < 2 ^ 256" "bytesToBig s < 2 ^ 256" "length r = 32" "length s = 32"
    by (simp_all add: scalar_ok_def)
  have len: "n < 128"
    using length_der_int [OF b(5)] length_der_int [OF b(6)] by (simp add: n_def)
  have l2: "length der = 2 + n" using der by (simp add: n_def)
  have "unat (der ! 1) = n" using der len by (simp add: unat_of_nat)
  then have rl: "readLength der 1 = Inr (n, 2)"
    using len l2 by (simp add: readLength_def)
  have two: "length [48, ?h] = 2" by simp
  have e1: "der = [48, ?h] @ ?ri @ ?si" "length [48, ?h] + length ?ri \<le> length der"
    using der l2 by (simp_all add: n_def)
  have e2: "der = ([48, ?h] @ ?ri) @ ?si @ []" "length ([48, ?h] @ ?ri) + length ?si \<le> length der"
    "length ([48, ?h] @ ?ri) = 2 + length ?ri" "2 + length ?ri + length ?si = length der"
    using der l2 by (simp_all add: n_def)
  have rr: "readScalar der 2 (length der) order = Inr (r, bytesToBig r, 2 + length ?ri)"
    using readScalar_write [OF b(1,2,5) e1 order_refl b(7) refl] unfolding two .
  have ss: "readScalar der (2 + length ?ri) (length der) order = Inr (s, bytesToBig s, length der)"
    using readScalar_write [OF b(3,4,6) e2(1,2) order_refl b(8) refl] unfolding e2(3,4) .
  have "3 \<le> length (der_int v)" if "0 < v" for v
    using der_body_nonempty [of v] that by (cases "der_body v") (auto simp: der_int_def)
  from this [OF b(1)] this [OF b(3)] have "8 \<le> length der" using l2 by (simp add: n_def)
  moreover have "der ! 0 = 48" using der by simp
  ultimately show ?thesis using rl rr ss l2 by (simp add: derToRaw_def)
qed

lemma lowS_cases:
  assumes "scalar_ok order r" "scalar_ok order s" "order \<le> 2 ^ 256"
  shows "\<exists>t. lowS (r @ s) order = Inr (r @ t) \<and> scalar_ok order t \<and> bytesToBig t \<le> order div 2 \<and>
    bytesToBig t = (if bytesToBig s \<le> order div 2 then bytesToBig s else order - bytesToBig s)"
proof (cases "bytesToBig s \<le> order div 2")
  case True
  with assms show ?thesis by (intro exI [of _ s]) (auto simp: lowS_def scalar_ok_def slice_def)
next
  case False
  from assms have b: "0 < bytesToBig s" "bytesToBig s < order" "length r = 32" "length s = 32"
    by (simp_all add: scalar_ok_def)
  let ?v = "order - bytesToBig s"
  have v: "?v < 256 ^ 32" "int order - int (bytesToBig s) = int ?v" using b assms(3) by auto
  let ?m = "min_bytes ?v"
  let ?t = "replicate (32 - length ?m) 0 @ ?m"
  have t: "length ?t = 32" "bytesToBig ?t = ?v"
    using length_min_bytes [OF v(1)] by (simp_all add: bytesToBig_zeros)
  then have "bigToBytes (int ?v) 32 = Inr ?t" by (metis bigToBytes_bytesToBig)
  with False b v have "lowS (r @ s) order = Inr (r @ ?t)" by (simp add: lowS_def slice_def Let_def)
  moreover have "?v \<le> order div 2" using False by presburger
  ultimately show ?thesis using t b False by (intro exI [of _ ?t]) (auto simp: scalar_ok_def)
qed

lemma modPow_loop_correct: "1 < m \<Longrightarrow> modPow_loop m result b e mod m = result * b ^ e mod m"
proof (induction m result b e rule: modPow_loop.induct)
  case (1 m result b e)
  show ?case
  proof (cases "e = 0")
    case False
    have e: "b ^ e = (if odd e then b else 1) * (b * b) ^ (e div 2)"
    proof -
      have "b ^ e = b ^ (2 * (e div 2) + e mod 2)" by simp
      also have "\<dots> = (b * b) ^ (e div 2) * b ^ (e mod 2)"
        by (simp only: power_add power_mult power2_eq_square)
      finally show ?thesis by (cases "odd e") (simp_all add: odd_iff_mod_2_eq_one even_iff_mod_2_eq_zero)
    qed
    have "modPow_loop m result b e mod m =
        (if odd e then result * b mod m else result) * (b * b mod m) ^ (e div 2) mod m"
      using 1 False by (subst modPow_loop.simps) simp
    also have "\<dots> = result * b ^ e mod m"
      unfolding e by (cases "odd e") (simp_all add: mod_mult_left_eq mod_mult_right_eq power_mod mult.assoc
        mod_mult_cong [OF refl power_mod])
    finally show ?thesis .
  qed (simp add: modPow_loop.simps)
qed

lemma modPow_loop_less: "result < m \<Longrightarrow> modPow_loop m result b e < m"
proof (induction m result b e rule: modPow_loop.induct)
  case (1 m result b e)
  then show ?case by (subst modPow_loop.simps) (simp add: Let_def)
qed

section \<open>Properties\<close>

text \<open>
  The reader accepts exactly the writer's form: it answers \<open>r || s\<close> for a byte string
  if and only if both scalars lie in \<open>[1, order)\<close> and the string is what the writer makes
  of them, so a signature has one accepted DER encoding.
\<close>

theorem der_strict:
  assumes "order \<le> 2 ^ 256"
  shows "derToRaw der order = Inr raw \<longleftrightarrow>
    (\<exists>r s. raw = r @ s \<and> scalar_ok order r \<and> scalar_ok order s \<and> derSeq r s = Inr der)"
  using derToRaw_read [OF _ assms] derToRaw_write [OF _ _ assms] by metis

definition example_r :: bytes where "example_r = replicate 31 0 @ [200]"
definition example_s :: bytes where "example_s = replicate 31 0 @ [5]"
definition example_der :: bytes where "example_der = [48, 7, 2, 2, 0, 200, 2, 1, 5]"

lemma example_scalars: "scalar_ok 1000 example_r" "scalar_ok 1000 example_s" "derSeq example_r example_s = Inr example_der"
  by code_simp+

theorem der_strict_witness: "derToRaw example_der 1000 = Inr (example_r @ example_s)"
proof -
  have "(1000 :: nat) \<le> 2 ^ 256" by simp
  from der_strict [OF this, of example_der "example_r @ example_s"] example_scalars show ?thesis by blast
qed

text \<open>
  A signature and its mirror image \<open>(r, order - s)\<close> normalise to one 64-byte string,
  whose second scalar is at most half the order and stands unchanged under another pass.
\<close>

theorem normalize_unique:
  assumes "order \<le> 2 ^ 256" "odd order" "scalar_ok order r" "scalar_ok order s" "scalar_ok order s'"
    and "bytesToBig s + bytesToBig s' = order" "derSeq r s = Inr der" "derSeq r s' = Inr der'"
  shows "\<exists>t. normalizeDer der order = Inr (r @ t) \<and> normalizeDer der' order = Inr (r @ t) \<and>
    length t = 32 \<and> bytesToBig t \<le> order div 2 \<and> lowS (r @ t) order = Inr (r @ t)"
proof -
  have d: "derToRaw der order = Inr (r @ s)" "derToRaw der' order = Inr (r @ s')"
    using derToRaw_write assms by blast+
  obtain t where t: "lowS (r @ s) order = Inr (r @ t)" "scalar_ok order t" "bytesToBig t \<le> order div 2"
    "bytesToBig t = (if bytesToBig s \<le> order div 2 then bytesToBig s else order - bytesToBig s)"
    using lowS_cases [OF assms(3,4,1)] by blast
  obtain t' where t': "lowS (r @ s') order = Inr (r @ t')" "scalar_ok order t'"
    "bytesToBig t' = (if bytesToBig s' \<le> order div 2 then bytesToBig s' else order - bytesToBig s')"
    using lowS_cases [OF assms(3,5,1)] by blast
  have "bytesToBig t = bytesToBig t'"
  proof -
    from assms(2) obtain k where k: "order = 2 * k + 1" by (elim oddE)
    then have "order div 2 = k" by simp
    with k assms(6) t(4) t'(3) show ?thesis by (auto split: if_splits)
  qed
  then have e: "t' = t" using t(2) t'(2) by (intro bytesToBig_inject) (auto simp: scalar_ok_def)
  have "lowS (r @ t) order = Inr (r @ t)"
    using t(2,3) assms(3) by (auto simp: lowS_def scalar_ok_def slice_def)
  with d t t'(1) e show ?thesis
    by (intro exI [of _ t]) (auto simp: normalizeDer_def scalar_ok_def)
qed

definition example_s' :: bytes where "example_s' = replicate 30 0 @ [3, 226]"
definition example_der' :: bytes where "example_der' = [48, 8, 2, 2, 0, 200, 2, 2, 3, 226]"

theorem normalize_unique_witness:
  "\<exists>t. normalizeDer example_der 999 = Inr (example_r @ t) \<and> normalizeDer example_der' 999 = Inr (example_r @ t)"
proof -
  have h: "scalar_ok 999 example_r" "scalar_ok 999 example_s" "scalar_ok 999 example_s'"
    "bytesToBig example_s + bytesToBig example_s' = 999"
    "derSeq example_r example_s = Inr example_der" "derSeq example_r example_s' = Inr example_der'"
    by code_simp+
  have "(999 :: nat) \<le> 2 ^ 256" "odd (999 :: nat)" by simp_all
  from normalize_unique [OF this h] show ?thesis by blast
qed

text \<open>
  Square-and-multiply computes the modular power, for every modulus above one.
\<close>

theorem modPow_correct:
  assumes "1 < m"
  shows "modPow base e m = base ^ e mod m"
proof -
  have "modPow base e m mod m = base ^ e mod m"
    using modPow_loop_correct [OF assms, of 1 "base mod m" e] by (simp add: modPow_def power_mod)
  moreover have "modPow base e m < m"
    unfolding modPow_def by (rule modPow_loop_less [OF assms])
  ultimately show ?thesis by simp
qed

theorem modPow_correct_witness: "modPow 7 5 13 = 7 ^ 5 mod 13"
  by (rule modPow_correct) simp

end
