(* ===== verification/Book_Dispute.thy ===== *)
theory Book_Dispute
  imports Js_Store Js_Values
begin

text \<open>
  services/gateway/src/book-dispute.js and the dispute window of issuance-commitment.js: a
  buyer files at most one dispute per task, the recheck of payment, output, model and
  duplicates suggests an outcome, and the outcome is final. The ledger, the receipt loader
  and the receipt verifier are arguments. A flag says of each write of the state file
  whether it succeeded; the maps in memory keep the change when it did not. The not-equal
  sign in one reason text is written \<open>!=\<close>, because HOL characters are single bytes.
\<close>

section \<open>Claims, outcomes and checks\<close>

definition OUTPUT_MISSING :: string where "OUTPUT_MISSING = ''output_missing''"
definition WRONG_MODEL :: string where "WRONG_MODEL = ''wrong_model''"
definition DOUBLE_CHARGE :: string where "DOUBLE_CHARGE = ''double_charge''"

definition CLAIM_TYPES :: "string list" where
  "CLAIM_TYPES = [OUTPUT_MISSING, WRONG_MODEL, DOUBLE_CHARGE]"

datatype outcome_type = Refund | Partial | Stand | Pending

record check =
  ck_checked :: bool
  ck_valid :: "bool option"
  ck_reason :: jsval

definition no_check :: check where
  "no_check = \<lparr>ck_checked = False, ck_valid = None, ck_reason = JNull\<rparr>"

definition checked_as :: "bool option \<Rightarrow> jsval \<Rightarrow> check" where
  "checked_as v r = \<lparr>ck_checked = True, ck_valid = v, ck_reason = r\<rparr>"

section \<open>The store\<close>

record dispute =
  dp_id :: string
  dp_agent :: jsnum
  dp_task :: string
  dp_claim :: string
  dp_evidence :: jsval
  dp_outcome :: outcome_type
  dp_reason :: jsval
  dp_amount :: jsval
  dp_filed_at :: string
  dp_resolved_at :: jsval

record disputes =
  ds_rows :: "(string, dispute) jsmap"
  ds_byTask :: "(string, string) jsmap"

definition dispute_get :: "disputes \<Rightarrow> jsval \<Rightarrow> dispute option" where
  "dispute_get d disputeId = jm_get (ds_rows d) (js_String disputeId)"

definition dispute_getByTask :: "disputes \<Rightarrow> jsval \<Rightarrow> dispute option" where
  "dispute_getByTask d taskId =
     (case jm_get (ds_byTask d) (js_String taskId) of
        None \<Rightarrow> None
      | Some i \<Rightarrow> if i = [] then None else jm_get (ds_rows d) i)"

definition dispute_listByAgent :: "disputes \<Rightarrow> jsval \<Rightarrow> dispute list" where
  "dispute_listByAgent d agentId =
     filter (\<lambda>x. num_same (dp_agent x) (js_Number agentId)) (jm_values (ds_rows d))"

record dispute_claim =
  dc_agent :: jsval
  dc_task :: jsval
  dc_type :: jsval
  dc_evidence :: jsval

datatype file_reply =
    Filed dispute
  | FileTaskRequired
  | FileInvalidClaim jsval
  | FileExists dispute
  | FileThrows

definition new_dispute :: "string \<Rightarrow> int \<Rightarrow> dispute_claim \<Rightarrow> dispute" where
  "new_dispute i now c =
     \<lparr>dp_id = i, dp_agent = js_Number (dc_agent c), dp_task = js_String (dc_task c),
      dp_claim = js_String (dc_type c), dp_evidence = js_or (dc_evidence c) (JObj []),
      dp_outcome = Pending, dp_reason = JNull, dp_amount = JNull,
      dp_filed_at = iso_string now, dp_resolved_at = JNull\<rparr>"

text \<open>\<open>nonce\<close> is the fresh random hexadecimal text.\<close>

definition dispute_file :: "disputes \<Rightarrow> bool \<Rightarrow> string \<Rightarrow> int \<Rightarrow> dispute_claim \<Rightarrow> disputes \<times> file_reply" where
  "dispute_file d ok nonce now c =
     (if \<not> js_truthy (dc_task c) then (d, FileTaskRequired)
      else if dc_type c \<notin> set (map JStr CLAIM_TYPES) then (d, FileInvalidClaim (dc_type c))
      else case dispute_getByTask d (dc_task c) of
          Some x \<Rightarrow> (d, FileExists x)
        | None \<Rightarrow>
            (let i = ''dispute-'' @ nonce;
                 x = new_dispute i now c;
                 d' = \<lparr>ds_rows = jm_set i x (ds_rows d), ds_byTask = jm_set (js_String (dc_task c)) i (ds_byTask d)\<rparr>
             in (d', if ok then Filed x else FileThrows)))"

datatype resolve_reply =
    Resolved dispute
  | ResolveNotFound
  | ResolveAlready
  | ResolveInvalid
  | ResolveThrows

definition dispute_resolve ::
    "disputes \<Rightarrow> bool \<Rightarrow> int \<Rightarrow> string \<Rightarrow> outcome_type \<Rightarrow> jsval \<Rightarrow> jsval \<Rightarrow> disputes \<times> resolve_reply" where
  "dispute_resolve d ok now i outcome reason amount =
     (case jm_get (ds_rows d) i of
        None \<Rightarrow> (d, ResolveNotFound)
      | Some x \<Rightarrow>
          if dp_outcome x \<noteq> Pending then (d, ResolveAlready)
          else if outcome = Pending then (d, ResolveInvalid)
          else let x' = x\<lparr>dp_outcome := outcome, dp_reason := reason, dp_amount := amount,
                          dp_resolved_at := JStr (iso_string now)\<rparr>;
                   d' = d\<lparr>ds_rows := jm_set i x' (ds_rows d)\<rparr>
            in (d', if ok then Resolved x' else ResolveThrows))"

section \<open>The dispute window\<close>

text \<open>The clock is the L1 timestamp when there is one, else the wall clock in seconds.\<close>

definition isDisputeWindowOpen :: "jsval \<Rightarrow> jsval \<Rightarrow> int \<Rightarrow> bool \<times> string" where
  "isDisputeWindowOpen window l1Timestamp wall_ms =
     (case window of
        JObj _ \<Rightarrow>
          (let now = (if \<not> js_nullish l1Timestamp then js_Number l1Timestamp else JInt (wall_ms div 1000))
           in if \<not> num_finite now then (False, ''invalid_clock'')
              else if num_lt now (js_Number (jget window ''opens_at'')) then (False, ''dispute_window_not_yet_open'')
              else if num_lt (js_Number (jget window ''closes_at'')) now then (False, ''dispute_window_closed'')
              else (True, ''within_window''))
      | _ \<Rightarrow> (False, ''no_dispute_window''))"

section \<open>Recheck\<close>

text \<open>
  What the handlers are given: the ledger (\<open>findByTask\<close>, \<open>None\<close> when it finds nothing, and
  its entries), the receipt loader (\<open>None\<close>: absent; its \<open>None\<close>: it throws or finds nothing)
  and the verifier (\<open>Inl\<close>: it throws that message).
\<close>

record book_deps =
  bd_findByTask :: "string \<Rightarrow> jsval option"
  bd_entries :: "jsval list"
  bd_loadReceipt :: "(string \<Rightarrow> jsval option) option"
  bd_verifyReceipt :: "(jsval \<Rightarrow> string + jsval) option"

definition loaded_receipt :: "book_deps \<Rightarrow> string \<Rightarrow> jsval" where
  "loaded_receipt b task =
     (case bd_loadReceipt b of
        None \<Rightarrow> JNull
      | Some f \<Rightarrow> (case f task of None \<Rightarrow> JNull | Some r \<Rightarrow> r))"

record dispute_checks =
  dk_payment_binding :: check
  dk_output_hash :: check
  dk_model_match :: check
  dk_duplicate :: check

definition no_checks :: dispute_checks where
  "no_checks = \<lparr>dk_payment_binding = no_check, dk_output_hash = no_check, dk_model_match = no_check,
                dk_duplicate = no_check\<rparr>"

record recheck =
  rk_ok :: bool
  rk_checks :: dispute_checks
  rk_outcome :: outcome_type
  rk_amount :: jsval

definition normalizeModel :: "jsval \<Rightarrow> string" where
  "normalizeModel model =
     filter (\<lambda>c. is_digit c \<or> (97 \<le> (of_char c :: nat) \<and> (of_char c :: nat) \<le> 122)) (js_lower (js_String (js_or model (JStr []))))"

definition half_amount :: "jsval \<Rightarrow> jsval option" where
  "half_amount amount =
     map_option (\<lambda>i. JStr (int_string (if 0 \<le> i then i div 2 else - ((- i) div 2))))
       (js_BigInt (js_or amount (JStr ''0'')))"

definition signature_check :: "book_deps \<Rightarrow> jsval \<Rightarrow> check" where
  "signature_check b receipt =
     (case bd_verifyReceipt b of
        None \<Rightarrow> no_check
      | Some verify \<Rightarrow>
          if \<not> js_truthy receipt then no_check
          else (case verify receipt of
              Inl message \<Rightarrow> checked_as (Some False) (JStr message)
            | Inr v \<Rightarrow> checked_as (Some (jget v ''valid'' = JBool True))
                (js_or (jget v ''reason'') (JStr (if js_truthy (jget v ''valid'') then ''signature valid'' else ''signature invalid'')))))"

definition duplicate_count :: "book_deps \<Rightarrow> jsval \<Rightarrow> nat" where
  "duplicate_count b entry =
     length (filter (\<lambda>e. jget e ''payment_ref'' = jget entry ''payment_ref'') (bd_entries b))"

text \<open>\<open>None\<close>: the recheck throws, because the ledger amount is no integer text.\<close>

definition recheckDispute :: "book_deps \<Rightarrow> dispute \<Rightarrow> recheck option" where
  "recheckDispute b x =
     (case bd_findByTask b (dp_task x) of
        None \<Rightarrow> Some \<lparr>rk_ok = False, rk_checks = no_checks, rk_outcome = Stand, rk_amount = JUndef\<rparr>
      | Some entry \<Rightarrow>
          (let receipt = loaded_receipt b (dp_task x);
               dup = duplicate_count b entry;
               k = (if dp_claim x \<noteq> DOUBLE_CHARGE then no_checks
                    else no_checks\<lparr>dk_duplicate :=
                      (if 1 < dup then checked_as (Some False)
                         (JStr (''payment_ref '' @ js_String (jget entry ''payment_ref'') @ '' appears ''
                                @ dec_string dup @ '' times''))
                       else checked_as (Some True) (JStr ''no duplicate found''))\<rparr>)
           in if dp_claim x = DOUBLE_CHARGE \<and> 1 < dup
              then Some \<lparr>rk_ok = True, rk_checks = k, rk_outcome = Refund, rk_amount = jget entry ''amount''\<rparr>
              else let k = k\<lparr>dk_payment_binding := signature_check b receipt\<rparr> in
                if dp_claim x = OUTPUT_MISSING then
                  (if js_truthy (jget (jget receipt ''output'') ''hash'')
                   then Some \<lparr>rk_ok = True,
                     rk_checks = k\<lparr>dk_output_hash := checked_as (Some True) (JStr ''output hash present'')\<rparr>,
                     rk_outcome = Stand, rk_amount = JNull\<rparr>
                   else Some \<lparr>rk_ok = True,
                     rk_checks = k\<lparr>dk_output_hash := checked_as (Some False) (JStr ''output hash missing'')\<rparr>,
                     rk_outcome = Refund, rk_amount = jget entry ''amount''\<rparr>)
                else if dp_claim x = WRONG_MODEL then
                  (let requested = jget (dp_evidence x) ''requested_model'';
                       served = js_or (jget entry ''model'') (jget (jget receipt ''route'') ''model'')
                   in if \<not> js_truthy requested then
                        Some \<lparr>rk_ok = True,
                          rk_checks = k\<lparr>dk_model_match := checked_as None (JStr ''requested_model not in evidence'')\<rparr>,
                          rk_outcome = Stand, rk_amount = JNull\<rparr>
                      else if \<not> js_truthy served \<or> normalizeModel requested \<noteq> normalizeModel served then
                        map_option (\<lambda>half. \<lparr>rk_ok = True,
                          rk_checks = k\<lparr>dk_model_match := checked_as (Some False)
                            (JStr (if \<not> js_truthy served then ''served model unknown''
                                   else ''requested '' @ js_String requested @ '' != served '' @ js_String served))\<rparr>,
                          rk_outcome = Partial, rk_amount = half\<rparr>) (half_amount (jget entry ''amount''))
                      else Some \<lparr>rk_ok = True,
                          rk_checks = k\<lparr>dk_model_match := checked_as (Some True) (JStr ''model matches'')\<rparr>,
                          rk_outcome = Stand, rk_amount = JNull\<rparr>)
                else Some \<lparr>rk_ok = True, rk_checks = k, rk_outcome = Stand, rk_amount = JNull\<rparr>))"

section \<open>File and adjudicate\<close>

definition check_text :: "string \<Rightarrow> check \<Rightarrow> string list" where
  "check_text name k = (if ck_checked k then [name @ '': '' @ js_String (ck_reason k)] else [])"

definition checks_reason :: "dispute_checks \<Rightarrow> string" where
  "checks_reason k = join_with ''; ''
     (check_text ''payment_binding'' (dk_payment_binding k) @ check_text ''output_hash'' (dk_output_hash k) @
      check_text ''model_match'' (dk_model_match k) @ check_text ''duplicate'' (dk_duplicate k))"

record adjudication =
  aj_ok :: bool
  aj_reason :: string
  aj_dispute :: "dispute option"
  aj_existing :: "dispute option"
  aj_checks :: "dispute_checks option"
  aj_auto :: bool

definition refused_claim :: "string \<Rightarrow> dispute option \<Rightarrow> adjudication" where
  "refused_claim reason ex =
     \<lparr>aj_ok = False, aj_reason = reason, aj_dispute = None, aj_existing = ex, aj_checks = None, aj_auto = False\<rparr>"

text \<open>
  \<open>None\<close>: the call throws. The flags are the writes of the filing and of the resolution. The part
  after the filing is a definition of its own.
\<close>

definition after_resolve ::
    "disputes \<times> resolve_reply \<Rightarrow> (resolve_reply \<Rightarrow> adjudication) \<Rightarrow> disputes \<times> adjudication option" where
  "after_resolve p f = (fst p, if snd p = ResolveThrows then None else Some (f (snd p)))"

definition adjudicate_filed ::
    "book_deps \<Rightarrow> disputes \<Rightarrow> bool \<Rightarrow> int \<Rightarrow> jsval \<Rightarrow> dispute \<Rightarrow> disputes \<times> adjudication option" where
  "adjudicate_filed b d ok now l1 x =
     (let receipt = loaded_receipt b (dp_task x);
          window = js_coalesce (js_coalesce (jget receipt ''dispute_window'')
                     (jget (jget receipt ''meta'') ''disputeWindow'')) JNull;
          why = snd (isDisputeWindowOpen window l1 now)
      in if js_truthy window \<and> \<not> fst (isDisputeWindowOpen window l1 now) then
           after_resolve
             (dispute_resolve d ok now (dp_id x) Stand (JStr (''dispute_window: '' @ why)) JNull)
             (\<lambda>r. \<lparr>aj_ok = False, aj_reason = why,
                aj_dispute = Some (case r of Resolved y \<Rightarrow> y | _ \<Rightarrow> x), aj_existing = None,
                aj_checks = None, aj_auto = True\<rparr>)
         else (case recheckDispute b x of
             None \<Rightarrow> (d, None)
           | Some k \<Rightarrow>
               (if rk_outcome k \<noteq> Pending then
                  after_resolve
                    (dispute_resolve d ok now (dp_id x) (rk_outcome k)
                       (JStr (checks_reason (rk_checks k))) (js_coalesce (rk_amount k) JNull))
                    (\<lambda>r. \<lparr>aj_ok = True, aj_reason = [],
                       aj_dispute = (case r of Resolved y \<Rightarrow> Some y | _ \<Rightarrow> None), aj_existing = None,
                       aj_checks = Some (rk_checks k), aj_auto = True\<rparr>)
                else (d, Some \<lparr>aj_ok = True, aj_reason = [], aj_dispute = Some x, aj_existing = None,
                        aj_checks = Some (rk_checks k), aj_auto = False\<rparr>))))"

definition fileAndAdjudicate ::
    "book_deps \<Rightarrow> disputes \<Rightarrow> bool \<times> bool \<Rightarrow> string \<Rightarrow> int \<Rightarrow> jsval \<Rightarrow> dispute_claim \<Rightarrow> disputes \<times> adjudication option" where
  "fileAndAdjudicate b d ok nonce now l1 c =
     (case dispute_file d (fst ok) nonce now c of
        (d1, FileThrows) \<Rightarrow> (d1, None)
      | (d1, FileTaskRequired) \<Rightarrow> (d1, Some (refused_claim ''task_id required'' None))
      | (d1, FileInvalidClaim v) \<Rightarrow> (d1, Some (refused_claim (''invalid claim_type: '' @ js_String v) None))
      | (d1, FileExists x) \<Rightarrow> (d1, Some (refused_claim ''dispute already filed for this task'' (Some x)))
      | (d1, Filed x) \<Rightarrow> adjudicate_filed b d1 (snd ok) now l1 x)"

section \<open>One dispute per task, one outcome per dispute\<close>

datatype dispute_op =
    DFile bool string int dispute_claim
  | DResolve bool int string outcome_type jsval jsval
  | DAdjudicate book_deps "bool \<times> bool" string int jsval dispute_claim

fun dispute_do :: "disputes \<Rightarrow> dispute_op \<Rightarrow> disputes \<times> bool" where
  "dispute_do d (DFile ok n t c) =
     (let (d', r) = dispute_file d ok n t c in (d', case r of Filed x \<Rightarrow> True | FileThrows \<Rightarrow> True | _ \<Rightarrow> False))"
| "dispute_do d (DResolve ok t i out r a) = (fst (dispute_resolve d ok t i out r a), False)"
| "dispute_do d (DAdjudicate b ok n t l1 c) =
     (fst (fileAndAdjudicate b d ok n t l1 c),
      case snd (dispute_file d (fst ok) n t c) of Filed x \<Rightarrow> True | FileThrows \<Rightarrow> True | _ \<Rightarrow> False)"

fun dispute_task :: "dispute_op \<Rightarrow> string" where
  "dispute_task (DFile ok n t c) = js_String (dc_task c)"
| "dispute_task (DResolve ok t i out r a) = []"
| "dispute_task (DAdjudicate b ok n t l1 c) = js_String (dc_task c)"

definition no_disputes :: disputes where
  "no_disputes = \<lparr>ds_rows = [], ds_byTask = []\<rparr>"

text \<open>Every task of the index has a row, under a non-empty id.\<close>

definition disputes_ok :: "disputes \<Rightarrow> bool" where
  "disputes_ok d \<longleftrightarrow> (\<forall>t i. jm_get (ds_byTask d) t = Some i \<longrightarrow> i \<noteq> [] \<and> jm_has (ds_rows d) i)"

definition task_disputed :: "disputes \<Rightarrow> string \<Rightarrow> bool" where
  "task_disputed d t \<longleftrightarrow> jm_has (ds_byTask d) t"

lemma getByTask_ok:
  "disputes_ok d \<Longrightarrow> dispute_getByTask d t = None \<longleftrightarrow> \<not> task_disputed d (js_String t)"
  by (fastforce simp: disputes_ok_def dispute_getByTask_def task_disputed_def jm_has_def split: option.splits)

lemma resolve_cases:
  obtains "dispute_resolve d ok now i out r a = (d, ResolveNotFound)" "jm_get (ds_rows d) i = None"
  | "fst (dispute_resolve d ok now i out r a) = d"
  | x where "jm_get (ds_rows d) i = Some x" "dp_outcome x = Pending" "out \<noteq> Pending"
      "dispute_resolve d ok now i out r a =
        (d\<lparr>ds_rows := jm_set i (x\<lparr>dp_outcome := out, dp_reason := r, dp_amount := a,
           dp_resolved_at := JStr (iso_string now)\<rparr>) (ds_rows d)\<rparr>,
         if ok then Resolved (x\<lparr>dp_outcome := out, dp_reason := r, dp_amount := a,
           dp_resolved_at := JStr (iso_string now)\<rparr>) else ResolveThrows)"
proof (cases "jm_get (ds_rows d) i")
  case None
  then show ?thesis using that(1) by (simp add: dispute_resolve_def)
next
  case (Some x)
  then show ?thesis
  proof (cases "dp_outcome x = Pending \<and> out \<noteq> Pending")
    case True
    with Some show ?thesis by (intro that(3) [of x]) (auto simp: dispute_resolve_def Let_def)
  next
    case False
    with Some show ?thesis by (intro that(2)) (auto simp: dispute_resolve_def)
  qed
qed

lemma resolve_keeps:
  assumes "disputes_ok d"
  shows "disputes_ok (fst (dispute_resolve d ok now i out r a)) \<and>
   ds_byTask (fst (dispute_resolve d ok now i out r a)) = ds_byTask d"
  by (rule resolve_cases [of d ok now i out r a]) (use assms in \<open>auto simp: disputes_ok_def jsmap_simps\<close>)

definition fileable :: "disputes \<Rightarrow> dispute_claim \<Rightarrow> bool" where
  "fileable d c \<longleftrightarrow> js_truthy (dc_task c) \<and> dc_type c \<in> set (map JStr CLAIM_TYPES) \<and>
     \<not> task_disputed d (js_String (dc_task c))"

lemma file_fresh:
  assumes "disputes_ok d" "fileable d c"
  shows "dispute_file d ok n now c =
    (\<lparr>ds_rows = jm_set (''dispute-'' @ n) (new_dispute (''dispute-'' @ n) now c) (ds_rows d),
      ds_byTask = jm_set (js_String (dc_task c)) (''dispute-'' @ n) (ds_byTask d)\<rparr>,
     if ok then Filed (new_dispute (''dispute-'' @ n) now c) else FileThrows)"
proof -
  have "dispute_getByTask d (dc_task c) = None"
    using assms by (simp add: getByTask_ok fileable_def)
  with assms(2) show ?thesis by (simp add: dispute_file_def fileable_def Let_def)
qed

lemma file_refused:
  assumes "disputes_ok d" "\<not> fileable d c"
  shows "fst (dispute_file d ok n now c) = d \<and>
    (\<forall>x. snd (dispute_file d ok n now c) \<noteq> Filed x) \<and> snd (dispute_file d ok n now c) \<noteq> FileThrows"
proof (cases "js_truthy (dc_task c) \<and> dc_type c \<in> set (map JStr CLAIM_TYPES)")
  case True
  with assms obtain x where "dispute_getByTask d (dc_task c) = Some x"
    using getByTask_ok [OF assms(1), of "dc_task c"] by (auto simp: fileable_def)
  with True show ?thesis by (simp add: dispute_file_def)
next
  case False
  then show ?thesis by (auto simp: dispute_file_def)
qed

lemma file_keeps: "disputes_ok d \<Longrightarrow> disputes_ok (fst (dispute_file d ok n now c))"
proof (cases "fileable d c")
  case True
  assume "disputes_ok d"
  with file_fresh [OF this True] show ?thesis by (auto simp: disputes_ok_def jsmap_simps)
qed (simp add: file_refused)

lemma fst_after_resolve [simp]: "fst (after_resolve p f) = fst p"
  by (simp add: after_resolve_def)

lemma adjudicate_filed_store:
  "fst (adjudicate_filed b d ok now l1 x) = d \<or>
   (\<exists>out r a. fst (adjudicate_filed b d ok now l1 x) = fst (dispute_resolve d ok now (dp_id x) out r a))"
  by (auto simp: adjudicate_filed_def Let_def split: option.split)

lemma adjudicate_store:
  "fst (fileAndAdjudicate b d ok n now l1 c) = fst (dispute_file d (fst ok) n now c) \<or>
   (\<exists>x. snd (dispute_file d (fst ok) n now c) = Filed x \<and>
      fst (fileAndAdjudicate b d ok n now l1 c) =
        fst (adjudicate_filed b (fst (dispute_file d (fst ok) n now c)) (snd ok) now l1 x))"
  by (cases "dispute_file d (fst ok) n now c" rule: prod.exhaust)
     (auto simp: fileAndAdjudicate_def split: file_reply.split)

lemma adjudicate_index:
  assumes "disputes_ok d"
  shows "disputes_ok (fst (fileAndAdjudicate b d ok n now l1 c)) \<and>
    ds_byTask (fst (fileAndAdjudicate b d ok n now l1 c)) = ds_byTask (fst (dispute_file d (fst ok) n now c))"
  using adjudicate_store [of b d ok n now l1 c] adjudicate_filed_store resolve_keeps
    file_keeps [OF assms, of "fst ok" n now c] by metis

lemma file_accepts:
  assumes "disputes_ok d"
  shows "(case snd (dispute_file d ok n t c) of Filed x \<Rightarrow> True | FileThrows \<Rightarrow> True | _ \<Rightarrow> False) \<longleftrightarrow> fileable d c"
proof (cases "fileable d c")
  case True
  with file_fresh [OF assms True, of ok n t] show ?thesis by simp
next
  case False
  with file_refused [OF assms False, of ok n t] show ?thesis
    by (auto split: file_reply.splits)
qed

lemma file_index:
  assumes "disputes_ok d"
  shows "task_disputed (fst (dispute_file d ok n t c)) k \<longleftrightarrow>
    task_disputed d k \<or> fileable d c \<and> k = js_String (dc_task c)"
proof (cases "fileable d c")
  case True
  with file_fresh [OF assms True, of ok n t] show ?thesis by (auto simp: task_disputed_def jsmap_simps)
next
  case False
  with file_refused [OF assms False, of ok n t] show ?thesis by simp
qed

lemma dispute_do_cases:
  assumes "disputes_ok d" "dispute_do d x = (d', b)"
  shows "disputes_ok d' \<and> (b \<longrightarrow> \<not> task_disputed d (dispute_task x) \<and> task_disputed d' (dispute_task x)) \<and>
    (task_disputed d k \<longrightarrow> task_disputed d' k)"
proof (cases x)
  case (DFile ok n t c)
  with assms file_accepts [OF assms(1), of ok n t c] file_index [OF assms(1), of ok n t c] file_keeps [OF assms(1), of ok n t c]
  show ?thesis by (auto simp: case_prod_beta fileable_def)
next
  case (DResolve ok t i out r a)
  with assms resolve_keeps [OF assms(1), of ok t i out r a] show ?thesis by (auto simp: task_disputed_def)
next
  case (DAdjudicate dd ok n t l1 c)
  with assms file_accepts [OF assms(1), of "fst ok" n t c] file_index [OF assms(1), of "fst ok" n t c]
    adjudicate_index [OF assms(1), of dd ok n t l1 c]
  show ?thesis by (auto simp: task_disputed_def fileable_def)
qed

interpretation one_dispute: single_use dispute_do dispute_task task_disputed disputes_ok
  by unfold_locales (use dispute_do_cases in blast)+

text \<open>A resolved row, and the operations that do not draw its random id again.\<close>

definition resolved_row :: "string \<Rightarrow> dispute \<Rightarrow> disputes \<Rightarrow> bool" where
  "resolved_row i x d \<longleftrightarrow> disputes_ok d \<and> jm_get (ds_rows d) i = Some x \<and> dp_outcome x \<noteq> Pending"

fun fresh_op :: "string \<Rightarrow> dispute_op \<Rightarrow> bool" where
  "fresh_op i (DFile ok n t c) \<longleftrightarrow> ''dispute-'' @ n \<noteq> i"
| "fresh_op i (DResolve ok t j out r a) \<longleftrightarrow> True"
| "fresh_op i (DAdjudicate b ok n t l1 c) \<longleftrightarrow> ''dispute-'' @ n \<noteq> i"

definition dispute_step :: "disputes \<Rightarrow> dispute_op \<Rightarrow> disputes" where
  "dispute_step d x = fst (dispute_do d x)"

lemma resolve_resolved_row:
  "resolved_row i x d \<Longrightarrow> resolved_row i x (fst (dispute_resolve d ok now j out r a))"
  by (rule resolve_cases [of d ok now j out r a])
     (auto simp: resolved_row_def jsmap_simps dest: resolve_keeps [of d ok now j out r a])

lemma file_resolved_row:
  assumes "resolved_row i x d" "''dispute-'' @ n \<noteq> i"
  shows "resolved_row i x (fst (dispute_file d ok n now c))"
proof (cases "fileable d c")
  case True
  from assms have o: "disputes_ok d" by (simp add: resolved_row_def)
  with assms file_fresh [OF o True, of ok n now] file_keeps [OF o, of ok n now c] show ?thesis
    by (auto simp: resolved_row_def jsmap_simps)
qed (use assms in \<open>simp add: resolved_row_def file_refused\<close>)

lemma adjudicate_resolved_row:
  assumes "resolved_row i x d" "''dispute-'' @ n \<noteq> i"
  shows "resolved_row i x (fst (fileAndAdjudicate b d ok n now l1 c))"
  using adjudicate_store [of b d ok n now l1 c] adjudicate_filed_store
    resolve_resolved_row file_resolved_row [OF assms, of "fst ok" now c] by metis

lemma dispute_step_resolved: "resolved_row i x d \<Longrightarrow> fresh_op i y \<Longrightarrow> resolved_row i x (dispute_step d y)"
  by (cases y)
     (auto simp: dispute_step_def case_prod_beta resolve_resolved_row file_resolved_row adjudicate_resolved_row)

interpretation resolved_run: invariant_run dispute_step "resolved_row i x" "fresh_op i" for i x
  by unfold_locales (rule dispute_step_resolved)

section \<open>Properties\<close>

text \<open>
  Whatever is filed, adjudicated and resolved, in any order and with any failing
  writes, at most one dispute is ever opened for a task.
\<close>

theorem one_dispute_per_task: "distinct (accepted_keys dispute_do dispute_task no_disputes xs)"
  by (rule one_dispute.accepted_once) (simp add: disputes_ok_def no_disputes_def)

text \<open>
  The recheck always suggests a final outcome, and its amount follows from the ledger
  amount: a refund is the full charge, a partial refund half of it rounded down, and a charge
  that stands gives nothing back.
\<close>

theorem recheck_amounts:
  assumes "bd_findByTask b (dp_task x) = Some entry" "jget entry ''amount'' = JStr (dec_string n)"
    and "recheckDispute b x = Some k"
  shows "(rk_outcome k = Refund \<and> rk_amount k = JStr (dec_string n)) \<or>
    (rk_outcome k = Partial \<and> rk_amount k = JStr (dec_string (n div 2))) \<or>
    (rk_outcome k = Stand \<and> rk_amount k = JNull)"
proof -
  have "dec_string n \<noteq> []" using all_digits_dec_string [of n] by (auto simp: all_digits_def)
  then have "js_BigInt (js_or (JStr (dec_string n)) (JStr ''0'')) = Some (int n)"
    using all_digits_head [OF all_digits_dec_string [of n]]
    by (auto simp: js_BigInt_def js_or_def js_trim_digits is_sign_def Let_def)
  then have h: "half_amount (jget entry ''amount'') = Some (JStr (dec_string (n div 2)))"
    using assms(2) int_string_nat [of "n div 2"] by (simp add: half_amount_def zdiv_int)
  show ?thesis
    using assms(1,2,3) h
    by (auto simp: recheckDispute_def Let_def split: if_splits)
qed

definition example_entry :: jsval where
  "example_entry = JObj [(''amount'', JStr (dec_string 41)), (''model'', JStr ''Llama 3.3'')]"

definition example_deps :: book_deps where
  "example_deps = \<lparr>bd_findByTask = (\<lambda>t. Some example_entry), bd_entries = [example_entry],
     bd_loadReceipt = None, bd_verifyReceipt = None\<rparr>"

definition example_claim :: dispute_claim where
  "example_claim = \<lparr>dc_agent = JNum (JInt 7), dc_task = JStr ''t1'', dc_type = JStr WRONG_MODEL,
     dc_evidence = JObj [(''requested_model'', JStr ''gpt'')]\<rparr>"

theorem recheck_amounts_witness:
  "\<exists>k. recheckDispute example_deps (new_dispute ''d'' 0 example_claim) = Some k \<and>
     (rk_amount k = JStr (dec_string 41) \<or> rk_amount k = JStr (dec_string 20) \<or> rk_amount k = JNull)"
proof -
  let ?x = "new_dispute ''d'' 0 example_claim"
  have h: "bd_findByTask example_deps (dp_task ?x) = Some example_entry"
    "jget example_entry ''amount'' = JStr (dec_string 41)"
    by (simp_all add: example_deps_def example_entry_def jget_def)
  have "recheckDispute example_deps ?x \<noteq> None" by code_simp
  then obtain k where k: "recheckDispute example_deps ?x = Some k" by blast
  from recheck_amounts [OF h k] k show ?thesis by auto
qed

text \<open>
  An outcome is final: once a dispute is resolved, no filing, adjudication or resolution
  changes its row, unless a later filing draws the same random id.
\<close>

theorem dispute_outcome_final:
  assumes "disputes_ok d" "jm_get (ds_rows d) i = Some x" "dp_outcome x \<noteq> Pending" "list_all (fresh_op i) ops"
  shows "jm_get (ds_rows (foldl dispute_step d ops)) i = Some x"
  using resolved_run.run_inv [of i x d ops] assms by (simp add: resolved_row_def)

definition example_resolved :: dispute where
  "example_resolved = (new_dispute ''dispute-aa'' 0 example_claim)\<lparr>dp_outcome := Partial\<rparr>"

theorem dispute_outcome_final_witness:
  "jm_get (ds_rows (foldl dispute_step
     \<lparr>ds_rows = [(''dispute-aa'', example_resolved)], ds_byTask = [(''t1'', ''dispute-aa'')]\<rparr>
     [DResolve True 5 ''dispute-aa'' Stand JNull JNull, DFile True ''bb'' 6 example_claim])) ''dispute-aa'' =
   Some example_resolved"
  by (rule dispute_outcome_final)
     (simp_all add: disputes_ok_def jm_has_def example_resolved_def new_dispute_def)

end
