(* ===== verification/Book_Escrow.thy ===== *)
theory Book_Escrow
  imports Book_Dispute
begin

text \<open>
  services/gateway/src/book-escrow.js: the escrow of a task on the ledger (open, release,
  clawback, expiry). Release and clawback wait for the receipt loader and for the dispute,
  so each is split where the source awaits: the guards before the wait, and the commit
  after it; \<open>handleEscrowAction\<close> joins them without an interruption. \<open>Date.parse\<close> on text
  that a caller gives is implementation-defined and is the argument \<open>ee_dateParse\<close>. A
  failed write leaves the maps changed and the call answers \<open>None\<close> (it throws). The long
  dash of a reason text is written as a hyphen.
\<close>

section \<open>Data\<close>

datatype escrow_status = EscrowOpen | EscrowReleased | EscrowClawedBack | EscrowExpired

fun status_text :: "escrow_status \<Rightarrow> string" where
  "status_text EscrowOpen = ''open''"
| "status_text EscrowReleased = ''released''"
| "status_text EscrowClawedBack = ''clawed_back''"
| "status_text EscrowExpired = ''expired''"

definition PROOF_TIERS :: "string list" where
  "PROOF_TIERS = [''settlement'', ''inference'']"

definition TIER_RANK :: "string \<Rightarrow> nat" where
  "TIER_RANK t = (if t = ''settlement'' then 1 else if t = ''inference'' then 2 else 0)"

definition ESCROW_EXPIRY_MS :: int where
  "ESCROW_EXPIRY_MS = 7 * 24 * 60 * 60 * 1000"

definition lower_text :: "jsval \<Rightarrow> string" where
  "lower_text v = js_lower (js_String (js_or v (JStr [])))"

definition escrow_normalizeHash :: "jsval \<Rightarrow> string" where
  "escrow_normalizeHash v =
     (let s = lower_text v in if take 2 s = ''0x'' then drop 2 s else s)"

definition tierMeets :: "jsval \<Rightarrow> jsval \<Rightarrow> bool \<times> string" where
  "tierMeets required actual =
     (if \<not> js_truthy required then (True, ''no tier required'')
      else let req = js_lower (js_String required); act = lower_text actual
        in if req \<notin> set PROOF_TIERS then (False, ''unknown required tier: '' @ js_String required)
           else if TIER_RANK req \<le> TIER_RANK act
           then (True, ''tier '' @ (if act = [] then ''none'' else act) @ '' meets '' @ req)
           else (False, ''tier '' @ (if act = [] then ''none'' else act) @ '' below required '' @ req))"

record escrow_checks =
  ek_ledger_hold :: check
  ek_output_hash :: check
  ek_proof_tier :: check
  ek_signature :: check

definition no_escrow_checks :: escrow_checks where
  "no_escrow_checks = \<lparr>ek_ledger_hold = no_check, ek_output_hash = no_check, ek_proof_tier = no_check,
     ek_signature = no_check\<rparr>"

datatype refund_instruction =
    LedgerAdjudication outcome_type jsval
  | StandInstruction
  | PendingInstruction

record escrow =
  es_id :: string
  es_agent :: jsnum
  es_task :: string
  es_amount :: string
  es_status :: escrow_status
  es_payment_ref :: jsval
  es_rail :: jsval
  es_output_hash :: "string option"
  es_proof_tier :: "string option"
  es_expires_at :: string
  es_opened_at :: string
  es_closed_at :: "string option"
  es_close_reason :: "string option"
  es_verification :: "escrow_checks option"
  es_dispute_id :: "string option"
  es_refund :: "refund_instruction option"

record escrows =
  ec_rows :: "(string, escrow) jsmap"
  ec_byTask :: "(string, string) jsmap"

record esc_env =
  ee_book :: book_deps
  ee_settlementOn :: bool
  ee_dateParse :: "string \<Rightarrow> int option"
  ee_baseUrl :: string

record book_state =
  bs_escrows :: escrows
  bs_disputes :: disputes

definition escrow_get :: "escrows \<Rightarrow> jsval \<Rightarrow> escrow option" where
  "escrow_get s i = jm_get (ec_rows s) (js_String i)"

definition escrow_getByTask :: "escrows \<Rightarrow> jsval \<Rightarrow> escrow option" where
  "escrow_getByTask s t =
     (case jm_get (ec_byTask s) (js_String t) of
        None \<Rightarrow> None
      | Some i \<Rightarrow> if i = [] then None else jm_get (ec_rows s) i)"

definition escrow_listByAgent :: "escrows \<Rightarrow> jsval \<Rightarrow> escrow list" where
  "escrow_listByAgent s agentId =
     filter (\<lambda>e. num_same (es_agent e) (js_Number agentId)) (jm_values (ec_rows s))"

definition put_escrow :: "escrow \<Rightarrow> escrows \<Rightarrow> escrows" where
  "put_escrow e s = s\<lparr>ec_rows := jm_set (es_id e) e (ec_rows s)\<rparr>"

section \<open>Expiry and verification\<close>

definition touch_due :: "esc_env \<Rightarrow> int \<Rightarrow> escrow \<Rightarrow> bool" where
  "touch_due v now e \<longleftrightarrow> es_status e = EscrowOpen \<and> es_expires_at e \<noteq> [] \<and>
     (case ee_dateParse v (es_expires_at e) of Some t \<Rightarrow> t \<le> now | None \<Rightarrow> False)"

definition expired_escrow :: "int \<Rightarrow> escrow \<Rightarrow> escrow" where
  "expired_escrow now e = e\<lparr>es_status := EscrowExpired, es_closed_at := Some (iso_string now),
     es_close_reason := Some ''expired''\<rparr>"

text \<open>\<open>_touchExpiry\<close>: the store, and the row or \<open>None\<close> when the save threw.\<close>

definition touchExpiry :: "esc_env \<Rightarrow> escrows \<Rightarrow> bool \<Rightarrow> int \<Rightarrow> escrow \<Rightarrow> escrows \<times> escrow option" where
  "touchExpiry v s ok now e =
     (if touch_due v now e
      then (put_escrow (expired_escrow now e) s, if ok then Some (expired_escrow now e) else None)
      else (s, Some e))"

definition receipt_tier :: "jsval \<Rightarrow> jsval" where
  "receipt_tier receipt =
     js_or (jget (jget receipt ''proof'') ''tier'')
       (js_or (jget (jget receipt ''proof'') ''zkp_tier'')
          (js_or (jget (jget receipt ''verified_inference'') ''tier'') JNull))"

text \<open>The checks and \<open>Inl\<close> of the refusal reason, or \<open>Inr ()\<close>.\<close>

definition verifyEscrowRelease ::
    "bool \<Rightarrow> escrow \<Rightarrow> jsval \<Rightarrow> jsval option \<Rightarrow> escrow_checks \<times> (string + unit)" where
  "verifyEscrowRelease settlementOn e receipt entry =
     (let refuse = (\<lambda>k r. (k, Inl r)) in
      case entry of
        None \<Rightarrow> refuse (no_escrow_checks\<lparr>ek_ledger_hold := checked_as (Some False) (JStr ''no collected ledger entry'')\<rparr>)
                  ''no collected ledger entry''
      | Some en \<Rightarrow>
          if \<not> js_truthy (jget en ''collected'')
          then refuse (no_escrow_checks\<lparr>ek_ledger_hold := checked_as (Some False) (JStr ''no collected ledger entry'')\<rparr>)
                 ''no collected ledger entry''
          else
            let k = no_escrow_checks\<lparr>ek_ledger_hold :=
                  checked_as (Some True) (JStr (''payment_ref '' @ js_String (jget en ''payment_ref'')))\<rparr>;
                actual = jget (jget receipt ''output'') ''hash'';
                hash_ok = (case es_output_hash e of None \<Rightarrow> True
                  | Some h \<Rightarrow> escrow_normalizeHash actual = escrow_normalizeHash (JStr h));
                need = (es_output_hash e \<noteq> None \<and> es_output_hash e \<noteq> Some []);
                k1 = (if need then k\<lparr>ek_output_hash :=
                       (if \<not> js_truthy actual then checked_as (Some False) (JStr ''receipt output hash missing'')
                        else if hash_ok then checked_as (Some True) (JStr ''hash matches'')
                        else checked_as (Some False) (JStr ''hash mismatch''))\<rparr> else k)
            in if need \<and> \<not> js_truthy actual then refuse k1 ''receipt output hash missing''
               else if need \<and> \<not> hash_ok then refuse k1 ''hash mismatch''
               else (case es_proof_tier e of
                   None \<Rightarrow> (k1, Inr ())
                 | Some t \<Rightarrow>
                     if t = [] then (k1, Inr ())
                     else if js_lower t = ''settlement'' \<and> \<not> settlementOn
                     then refuse (k1\<lparr>ek_proof_tier := checked_as (Some False)
                                     (JStr ''settlement tier unavailable; escrow held'')\<rparr>)
                            ''settlement tier unavailable; escrow held''
                     else let (met, why) = tierMeets (JStr t) (receipt_tier receipt);
                              k2 = k1\<lparr>ek_proof_tier := checked_as (Some met) (JStr why)\<rparr>
                       in if met then (k2, Inr ()) else refuse k2 why))"

section \<open>Handlers\<close>

record esc_input =
  ei_action :: jsval
  ei_agent :: jsval
  ei_escrow :: jsval
  ei_task :: jsval
  ei_amount :: jsval
  ei_expires :: jsval
  ei_required :: jsval
  ei_claim :: jsval
  ei_evidence :: jsval

datatype esc_reply =
    EscOk escrow "string option"
  | EscReleased escrow escrow_checks
  | EscClawed escrow "dispute option" "dispute_checks option"
  | EscRefused string
  | EscNotOffered
  | EscExisting escrow
  | EscNotOpen escrow
  | EscHeld string escrow_checks escrow

text \<open>The public view adds the receipt's address under the base URL, less one trailing slash.\<close>

definition verify_url :: "string \<Rightarrow> string \<Rightarrow> string option" where
  "verify_url base task =
     (if base = [] then None
      else Some ((if last base = CHR ''/'' then butlast base else base) @ ''/receipt/'' @ task))"

definition escrow_view :: "esc_env \<Rightarrow> escrow \<Rightarrow> esc_reply" where
  "escrow_view v e = EscOk e (verify_url (ee_baseUrl v) (es_task e))"

definition escrow_status_action ::
    "esc_env \<Rightarrow> escrows \<Rightarrow> bool \<Rightarrow> int \<Rightarrow> esc_input \<Rightarrow> escrows \<times> esc_reply option" where
  "escrow_status_action v s ok now x =
     (let found = (if js_truthy (ei_escrow x) then escrow_get s (ei_escrow x)
                   else if js_truthy (ei_task x) then escrow_getByTask s (ei_task x) else None)
      in if \<not> js_truthy (ei_escrow x) \<and> \<not> js_truthy (ei_task x)
         then (s, Some (EscRefused ''escrow_id or task_id required for status''))
         else case found of
             None \<Rightarrow> (s, Some (EscRefused ''escrow not found''))
           | Some e \<Rightarrow>
               if \<not> num_same (es_agent e) (js_Number (ei_agent x))
               then (s, Some (EscRefused ''escrow not found''))
               else (case touchExpiry v s ok now e of
                   (s', None) \<Rightarrow> (s', None)
                 | (s', Some e') \<Rightarrow> (s', Some (escrow_view v e'))))"

definition new_escrow :: "string \<Rightarrow> string \<Rightarrow> int \<Rightarrow> string \<Rightarrow> esc_input \<Rightarrow> jsval \<Rightarrow> escrow" where
  "new_escrow i task now expires x entry =
     (let hash = jget (js_or (ei_required x) (JObj [])) ''output_hash'';
          tier = jget (js_or (ei_required x) (JObj [])) ''proof_tier''
      in \<lparr>es_id = i, es_agent = js_Number (ei_agent x), es_task = task,
          es_amount = js_String (js_coalesce (ei_amount x) (js_coalesce (jget entry ''amount'') (JStr ''0''))),
          es_status = EscrowOpen, es_payment_ref = jget entry ''payment_ref'',
          es_rail = js_or (jget entry ''rail'') (JStr ''usdc''),
          es_output_hash = (if js_truthy hash then Some (js_String hash) else None),
          es_proof_tier = (if js_truthy tier then Some (js_lower (js_String tier)) else None),
          es_expires_at = expires, es_opened_at = iso_string now, es_closed_at = None,
          es_close_reason = None, es_verification = None, es_dispute_id = None, es_refund = None\<rparr>)"

text \<open>The ledger guards of \<open>open\<close>, then those of the amount and the expiry.\<close>

definition escrow_open_ledger ::
    "esc_env \<Rightarrow> int \<Rightarrow> esc_input \<Rightarrow> string \<Rightarrow> string \<Rightarrow> esc_reply + string \<times> jsval \<times> string" where
  "escrow_open_ledger v now x task expires =
     (case bd_findByTask (ee_book v) task of
        None \<Rightarrow> Inl (EscRefused ''task not on book - pay via x402 first'')
      | Some entry \<Rightarrow>
          if \<not> num_same (js_Number (jget entry ''agent_id'')) (js_Number (ei_agent x))
          then Inl (EscRefused ''task not owned by this agent'')
          else if \<not> js_truthy (jget entry ''collected'') then Inl (EscRefused ''ledger entry not collected'')
          else if \<not> js_nullish (ei_amount x)
                  \<and> js_String (ei_amount x) \<noteq> js_String (js_or (jget entry ''amount'') (JStr []))
          then Inl (EscRefused ''amount does not match ledger entry'')
          else if expires \<noteq> [] \<and> ee_dateParse v expires = None then Inl (EscRefused ''invalid expires_at'')
          else Inr (task, entry, if expires = [] then iso_string (now + ESCROW_EXPIRY_MS) else expires))"

text \<open>The guards of \<open>open\<close> in order; \<open>Inr\<close> of the task, the ledger entry and the expiry when all pass.\<close>

definition escrow_open_check ::
    "esc_env \<Rightarrow> escrows \<Rightarrow> int \<Rightarrow> esc_input \<Rightarrow> esc_reply + string \<times> jsval \<times> string" where
  "escrow_open_check v s now x =
     (let task = (if js_truthy (ei_task x) then js_String (ei_task x) else []);
          required = js_or (ei_required x) (JObj []);
          hash = jget required ''output_hash'';
          tier = jget required ''proof_tier'';
          expires = (if js_truthy (ei_expires x) then js_String (ei_expires x) else [])
      in if task = [] then Inl (EscRefused ''task_id required for open'')
         else if \<not> js_truthy hash \<and> \<not> js_truthy tier
         then Inl (EscRefused ''required.output_hash and/or required.proof_tier required'')
         else if js_truthy tier \<and> js_lower (js_String tier) \<notin> set PROOF_TIERS
         then Inl (EscRefused (''invalid proof_tier: '' @ js_String tier))
         else if lower_text tier = ''settlement'' \<and> \<not> ee_settlementOn v then Inl EscNotOffered
         else case escrow_getByTask s (JStr task) of
             Some e \<Rightarrow> if es_status e = EscrowOpen then Inl (EscExisting e)
                       else escrow_open_ledger v now x task expires
           | None \<Rightarrow> escrow_open_ledger v now x task expires)"

definition escrow_open_action ::
    "esc_env \<Rightarrow> escrows \<Rightarrow> bool \<Rightarrow> string \<Rightarrow> int \<Rightarrow> esc_input \<Rightarrow> escrows \<times> esc_reply option" where
  "escrow_open_action v s ok nonce now x =
     (case escrow_open_check v s now x of
        Inl r \<Rightarrow> (s, Some r)
      | Inr (task, entry, expires) \<Rightarrow>
          (let i = ''escrow-'' @ nonce;
               e = new_escrow i task now expires x entry;
               s' = \<lparr>ec_rows = jm_set i e (ec_rows s), ec_byTask = jm_set task i (ec_byTask s)\<rparr>
           in (s', if ok then Some (escrow_view v e) else None)))"

text \<open>The row that release or clawback is about, if this agent has it.\<close>

definition escrow_lookup :: "escrows \<Rightarrow> esc_input \<Rightarrow> string + escrow" where
  "escrow_lookup s x =
     (let i = (if js_truthy (ei_escrow x) then js_String (ei_escrow x)
               else if js_truthy (ei_task x) then
                 (case jm_get (ec_byTask s) (js_String (ei_task x)) of Some i \<Rightarrow> i | None \<Rightarrow> [])
               else [])
      in if \<not> js_truthy (ei_escrow x) \<and> i = [] then Inl ''escrow_id or task_id required''
         else case jm_get (ec_rows s) i of
             None \<Rightarrow> Inl ''escrow not found''
           | Some e \<Rightarrow>
               if \<not> num_same (es_agent e) (js_Number (ei_agent x)) then Inl ''escrow not found'' else Inr e)"

text \<open>
  What release and clawback do before they wait: find the row, sweep its expiry, and refuse
  unless it is open. \<open>Inr\<close> of the row to go on with; \<open>Inl None\<close> when the sweep threw.
\<close>

definition escrow_guard ::
    "esc_env \<Rightarrow> escrows \<Rightarrow> bool \<Rightarrow> int \<Rightarrow> esc_input \<Rightarrow> escrows \<times> (esc_reply option + escrow)" where
  "escrow_guard v s ok now x =
     (case escrow_lookup s x of
        Inl why \<Rightarrow> (s, Inl (Some (EscRefused why)))
      | Inr e \<Rightarrow>
          (fst (touchExpiry v s ok now e),
           case snd (touchExpiry v s ok now e) of
             None \<Rightarrow> Inl None
           | Some e' \<Rightarrow> if es_status e' \<noteq> EscrowOpen then Inl (Some (EscNotOpen e')) else Inr e'))"

definition escrow_signature :: "book_deps \<Rightarrow> jsval \<Rightarrow> check" where
  "escrow_signature b receipt =
     (case bd_verifyReceipt b of
        None \<Rightarrow> no_check
      | Some verify \<Rightarrow>
          if \<not> js_truthy receipt then no_check
          else (case verify receipt of
              Inl message \<Rightarrow> checked_as (Some False) (JStr message)
            | Inr r \<Rightarrow> checked_as (Some (jget r ''valid'' = JBool True))
                (js_or (jget r ''reason'') (JStr (if js_truthy (jget r ''valid'') then ''valid'' else ''invalid'')))))"

definition released_escrow :: "int \<Rightarrow> escrow_checks \<Rightarrow> escrow \<Rightarrow> escrow" where
  "released_escrow now k e = e\<lparr>es_status := EscrowReleased, es_closed_at := Some (iso_string now),
     es_close_reason := Some ''principal_release'', es_verification := Some k\<rparr>"

text \<open>
  The rest of \<open>release\<close>, on the row as it is in the store after the receipt arrived: the
  ledger is read before the wait, the row's requirements after it.
\<close>

definition escrow_release_commit ::
    "esc_env \<Rightarrow> escrows \<Rightarrow> bool \<Rightarrow> int \<Rightarrow> string \<Rightarrow> jsval option \<Rightarrow> jsval \<Rightarrow> escrows \<times> esc_reply option" where
  "escrow_release_commit v s ok now i entry receipt =
     (case jm_get (ec_rows s) i of
        None \<Rightarrow> (s, None)
      | Some e \<Rightarrow>
          (case verifyEscrowRelease (ee_settlementOn v) e receipt entry of
             (k, Inl why) \<Rightarrow> (s, Some (EscHeld why k e))
           | (k, Inr _) \<Rightarrow>
               (let k = k\<lparr>ek_signature := escrow_signature (ee_book v) receipt\<rparr>;
                    e' = released_escrow now k e
                in (put_escrow e' s, if ok then Some (EscReleased e' k) else None))))"

definition claim_of :: "esc_input \<Rightarrow> jsval" where
  "claim_of x = js_or (ei_claim x) (JStr OUTPUT_MISSING)"

definition refund_of :: "adjudication \<Rightarrow> refund_instruction option" where
  "refund_of a =
     (if \<not> aj_ok a then None
      else case aj_dispute a of
          None \<Rightarrow> None
        | Some d \<Rightarrow> Some (case dp_outcome d of
              Refund \<Rightarrow> LedgerAdjudication Refund (dp_amount d)
            | Partial \<Rightarrow> LedgerAdjudication Partial (dp_amount d)
            | Stand \<Rightarrow> StandInstruction
            | Pending \<Rightarrow> PendingInstruction))"

definition clawed_escrow :: "int \<Rightarrow> string \<Rightarrow> adjudication \<Rightarrow> escrow \<Rightarrow> escrow" where
  "clawed_escrow now claim a e =
     e\<lparr>es_dispute_id := (if aj_ok a then (case aj_dispute a of Some d \<Rightarrow> Some (dp_id d)
                                         | None \<Rightarrow> es_dispute_id e) else es_dispute_id e),
       es_status := EscrowClawedBack, es_closed_at := Some (iso_string now),
       es_close_reason := Some (''clawback:'' @ claim), es_refund := refund_of a\<rparr>"

text \<open>The rest of \<open>clawback\<close>, once the dispute is adjudicated.\<close>

definition escrow_clawback_commit ::
    "escrows \<Rightarrow> bool \<Rightarrow> int \<Rightarrow> string \<Rightarrow> string \<Rightarrow> adjudication \<Rightarrow> escrows \<times> esc_reply option" where
  "escrow_clawback_commit s ok now i claim a =
     (case jm_get (ec_rows s) i of
        None \<Rightarrow> (s, None)
      | Some e \<Rightarrow>
          (let e' = clawed_escrow now claim a e
           in (put_escrow e' s, if ok then Some (EscClawed e' (aj_dispute a) (aj_checks a)) else None)))"

text \<open>The writes and random identifiers of one call.\<close>

record esc_io =
  io_touch :: bool
  io_save :: bool
  io_dispute :: "bool \<times> bool"
  io_nonce :: string
  io_dispute_nonce :: string

definition handleEscrowAction ::
    "esc_env \<Rightarrow> book_state \<Rightarrow> esc_io \<Rightarrow> int \<Rightarrow> esc_input \<Rightarrow> book_state \<times> esc_reply option" where
  "handleEscrowAction v st io now x =
     (let action = lower_text (ei_action x);
          s = bs_escrows st;
          wrap = (\<lambda>p. (st\<lparr>bs_escrows := fst p\<rparr>, snd p))
      in if action \<notin> {''open'', ''release'', ''clawback'', ''status''}
         then (st, Some (EscRefused (''invalid action: '' @ js_String (ei_action x))))
         else if action = ''status'' then wrap (escrow_status_action v s (io_touch io) now x)
         else if action = ''open'' then wrap (escrow_open_action v s (io_save io) (io_nonce io) now x)
         else (case escrow_guard v s (io_touch io) now x of
             (s1, Inl r) \<Rightarrow> (st\<lparr>bs_escrows := s1\<rparr>, r)
           | (s1, Inr e) \<Rightarrow>
               if action = ''release'' then
                 wrap (escrow_release_commit v s1 (io_save io) now (es_id e)
                         (bd_findByTask (ee_book v) (es_task e)) (loaded_receipt (ee_book v) (es_task e)))
               else if claim_of x \<notin> set (map JStr CLAIM_TYPES)
               then (st\<lparr>bs_escrows := s1\<rparr>, Some (EscRefused (''invalid claim_type: '' @ js_String (claim_of x))))
               else (case fileAndAdjudicate (ee_book v) (bs_disputes st) (io_dispute io) (io_dispute_nonce io) now JNull
                       \<lparr>dc_agent = ei_agent x, dc_task = JStr (es_task e), dc_type = claim_of x,
                        dc_evidence = js_or (ei_evidence x) (JObj [])\<rparr> of
                   (d, None) \<Rightarrow> (\<lparr>bs_escrows = s1, bs_disputes = d\<rparr>, None)
                 | (d, Some a) \<Rightarrow>
                     (let (s2, r) = escrow_clawback_commit s1 (io_save io) now (es_id e) (js_String (claim_of x)) a
                      in (\<lparr>bs_escrows = s2, bs_disputes = d\<rparr>, r)))))"

section \<open>What an operation changes\<close>

text \<open>
  A row keeps its id and task, and an open row is the one its task points to. Every write is
  either a row that stays with its id and task, closed, or the opening of a task whose
  indexed row is not open.
\<close>

definition escrows_ok :: "escrows \<Rightarrow> bool" where
  "escrows_ok s \<longleftrightarrow> (\<forall>i e. jm_get (ec_rows s) i = Some e \<longrightarrow>
     es_id e = i \<and> i \<noteq> [] \<and> (es_status e = EscrowOpen \<longrightarrow> jm_get (ec_byTask s) (es_task e) = Some i))"

lemma escrows_okD:
  "escrows_ok s \<Longrightarrow> jm_get (ec_rows s) i = Some e \<Longrightarrow> es_id e = i \<and> i \<noteq> [] \<and>
     (es_status e = EscrowOpen \<longrightarrow> jm_get (ec_byTask s) (es_task e) = Some i)"
  by (simp add: escrows_ok_def)

lemma escrows_ok_close:
  "escrows_ok s \<Longrightarrow> jm_get (ec_rows s) i = Some e \<Longrightarrow> es_id e' = i \<Longrightarrow> es_status e' \<noteq> EscrowOpen \<Longrightarrow>
     escrows_ok (put_escrow e' s)"
  by (auto simp: escrows_ok_def put_escrow_def jsmap_simps)

lemma escrows_ok_open:
  assumes "escrows_ok s" "i \<noteq> []" "es_id e = i" "es_task e = t"
    and "\<And>x. escrow_getByTask s (JStr t) = Some x \<Longrightarrow> es_status x \<noteq> EscrowOpen"
  shows "escrows_ok \<lparr>ec_rows = jm_set i e (ec_rows s), ec_byTask = jm_set t i (ec_byTask s)\<rparr>"
proof -
  have no: "es_task x \<noteq> t" if x: "jm_get (ec_rows s) j = Some x" "es_status x = EscrowOpen" for j x
  proof
    assume "es_task x = t"
    with escrows_okD [OF assms(1) x(1)] x have "jm_get (ec_byTask s) t = Some j" "j \<noteq> []" by auto
    with x assms(5) [of x] show False by (simp add: escrow_getByTask_def)
  qed
  from no assms(1-4) show ?thesis by (auto simp: escrows_ok_def jsmap_simps)
qed

lemma touchExpiry_cases:
  "touchExpiry v s ok now e = (s', r) \<Longrightarrow>
     (s' = s \<and> r = Some e) \<or>
     (es_status e = EscrowOpen \<and> s' = put_escrow (expired_escrow now e) s \<and>
        (r = None \<or> r = Some (expired_escrow now e)))"
  by (auto simp: touchExpiry_def touch_due_def split: if_splits)

lemma expired_simps [simp]:
  "es_id (expired_escrow now e) = es_id e" "es_status (expired_escrow now e) = EscrowExpired"
  "es_task (expired_escrow now e) = es_task e"
  by (simp_all add: expired_escrow_def)

lemma touch_ok:
  "escrows_ok s \<Longrightarrow> jm_get (ec_rows s) i = Some e \<Longrightarrow> touchExpiry v s ok now e = (s', r) \<Longrightarrow> escrows_ok s'"
  using touchExpiry_cases [of v s ok now e s' r] escrows_okD [of s i e]
    escrows_ok_close [of s i e "expired_escrow now e"] by auto

text \<open>A closed row is never touched by a sweep.\<close>

lemma touch_closed:
  "escrows_ok s \<Longrightarrow> jm_get (ec_rows s) j = Some c \<Longrightarrow> es_status c \<noteq> EscrowOpen \<Longrightarrow>
   jm_get (ec_rows s) i = Some e \<Longrightarrow> touchExpiry v s ok now e = (s', r) \<Longrightarrow> jm_get (ec_rows s') j = Some c"
  using touchExpiry_cases [of v s ok now e s' r] escrows_okD [of s i e]
  by (auto simp: put_escrow_def jsmap_simps)

lemma status_cases:
  "fst (escrow_status_action v s ok now x) = s \<or>
   (\<exists>i e r. jm_get (ec_rows s) i = Some e \<and> touchExpiry v s ok now e = (fst (escrow_status_action v s ok now x), r))"
proof -
  have g: "\<exists>i. jm_get (ec_rows s) i = Some e"
    if "(if js_truthy (ei_escrow x) then escrow_get s (ei_escrow x)
         else if js_truthy (ei_task x) then escrow_getByTask s (ei_task x) else None) = Some e" for e
    using that by (auto simp: escrow_get_def escrow_getByTask_def split: if_splits option.splits)
  show ?thesis
    using g by (auto simp: escrow_status_action_def Let_def split: option.split prod.split) 
qed

lemma lookup_row: "escrow_lookup s x = Inr e \<Longrightarrow> \<exists>i. jm_get (ec_rows s) i = Some e"
  by (auto simp: escrow_lookup_def Let_def split: if_splits option.splits)

lemma guard_cases:
  "fst (escrow_guard v s ok now x) = s \<or>
   (\<exists>i e r. jm_get (ec_rows s) i = Some e \<and> touchExpiry v s ok now e = (fst (escrow_guard v s ok now x), r))"
proof (cases "escrow_lookup s x")
  case (Inr e)
  from lookup_row [OF this] Inr show ?thesis by (auto simp: escrow_guard_def) (metis prod.collapse)
qed (simp add: escrow_guard_def)

lemma guard_row:
  assumes "escrows_ok s" "escrow_guard v s ok now x = (s', Inr e)"
  shows "jm_get (ec_rows s') (es_id e) = Some e \<and> es_status e = EscrowOpen"
proof -
  from assms(2) obtain e0 where l: "escrow_lookup s x = Inr e0"
    by (auto simp: escrow_guard_def split: sum.splits)
  with assms(2) have t: "touchExpiry v s ok now e0 = (s', Some e)" "es_status e = EscrowOpen"
    by (auto simp: escrow_guard_def prod_eq_iff split: option.splits if_splits)
  from touchExpiry_cases [OF t(1)] t(2) have "s' = s" "e0 = e" by auto
  with lookup_row [OF l] escrows_okD [OF assms(1)] t(2) show ?thesis by auto
qed

lemma open_check_free:
  assumes "escrow_open_check v s now x = Inr (t, en, ex)" "escrow_getByTask s (JStr t) = Some e"
  shows "es_status e \<noteq> EscrowOpen"
  using assms
  by (auto simp: escrow_open_check_def escrow_open_ledger_def Let_def split: if_splits option.splits)

lemma open_cases:
  "fst (escrow_open_action v s ok n now x) = s \<or>
   (\<exists>t en ex. escrow_open_check v s now x = Inr (t, en, ex) \<and>
      fst (escrow_open_action v s ok n now x) =
        \<lparr>ec_rows = jm_set (''escrow-'' @ n) (new_escrow (''escrow-'' @ n) t now ex x en) (ec_rows s),
         ec_byTask = jm_set t (''escrow-'' @ n) (ec_byTask s)\<rparr>)"
  by (auto simp: escrow_open_action_def Let_def split: sum.split prod.split)

lemma new_escrow_simps [simp]:
  "es_id (new_escrow i t now ex x en) = i" "es_task (new_escrow i t now ex x en) = t"
  "es_status (new_escrow i t now ex x en) = EscrowOpen"
  by (simp_all add: new_escrow_def Let_def)

lemma closed_simps [simp]:
  "es_id (released_escrow now k e) = es_id e" "es_status (released_escrow now k e) = EscrowReleased"
  "es_id (clawed_escrow now cl a e) = es_id e" "es_status (clawed_escrow now cl a e) = EscrowClawedBack"
  by (simp_all add: released_escrow_def clawed_escrow_def)

lemma release_cases:
  "fst (escrow_release_commit v s ok now i en rc) = s \<or>
   (\<exists>e k. jm_get (ec_rows s) i = Some e \<and>
      fst (escrow_release_commit v s ok now i en rc) = put_escrow (released_escrow now k e) s)"
  by (auto simp: escrow_release_commit_def Let_def split: option.split prod.split sum.split)

lemma clawback_cases:
  "fst (escrow_clawback_commit s ok now i cl a) = s \<or>
   (\<exists>e. jm_get (ec_rows s) i = Some e \<and>
      fst (escrow_clawback_commit s ok now i cl a) = put_escrow (clawed_escrow now cl a e) s)"
  by (auto simp: escrow_clawback_commit_def Let_def split: option.split)

section \<open>Interleaved requests\<close>

text \<open>
  Requests of several clients interleave where a handler waits: a release or clawback that
  passed its guard is pending until its commit runs on the store of that moment. A commit
  may follow with any receipt, ledger entry or adjudication.
\<close>

datatype waiting = WaitRelease string | WaitClawback string

inductive esc_step :: "esc_env \<Rightarrow> escrows \<times> waiting list \<Rightarrow> escrows \<times> waiting list \<Rightarrow> bool" for v where
  es_status: "esc_step v (s, ws) (fst (escrow_status_action v s ok now x), ws)"
| es_open: "esc_step v (s, ws) (fst (escrow_open_action v s ok n now x), ws)"
| es_refused: "escrow_guard v s ok now x = (s', Inl r) \<Longrightarrow> esc_step v (s, ws) (s', ws)"
| es_begin_release: "escrow_guard v s ok now x = (s', Inr e) \<Longrightarrow>
     esc_step v (s, ws) (s', WaitRelease (es_id e) # ws)"
| es_begin_clawback: "escrow_guard v s ok now x = (s', Inr e) \<Longrightarrow>
     esc_step v (s, ws) (s', WaitClawback (es_id e) # ws)"
| es_release: "WaitRelease i \<in> set ws \<Longrightarrow>
     esc_step v (s, ws) (fst (escrow_release_commit v s ok now i entry receipt), remove1 (WaitRelease i) ws)"
| es_clawback: "WaitClawback i \<in> set ws \<Longrightarrow>
     esc_step v (s, ws) (fst (escrow_clawback_commit s ok now i claim a), remove1 (WaitClawback i) ws)"

inductive_cases esc_stepE: "esc_step v (s, ws) (s', ws')"

lemma guard_store_ok: "escrows_ok s \<Longrightarrow> escrow_guard v s ok now x = (s', r) \<Longrightarrow> escrows_ok s'"
  using guard_cases [of v s ok now x] touch_ok by fastforce

lemma status_store_ok: "escrows_ok s \<Longrightarrow> escrows_ok (fst (escrow_status_action v s ok now x))"
  using status_cases [of v s ok now x] touch_ok by metis

lemma open_store_ok:
  assumes "escrows_ok s"
  shows "escrows_ok (fst (escrow_open_action v s ok n now x))"
  using open_cases [of v s ok n now x]
proof (elim disjE exE conjE)
  fix t en ex
  assume c: "escrow_open_check v s now x = Inr (t, en, ex)"
    and s': "fst (escrow_open_action v s ok n now x) =
      \<lparr>ec_rows = jm_set (''escrow-'' @ n) (new_escrow (''escrow-'' @ n) t now ex x en) (ec_rows s),
       ec_byTask = jm_set t (''escrow-'' @ n) (ec_byTask s)\<rparr>"
  show ?thesis unfolding s'
    by (rule escrows_ok_open [OF assms]) (use open_check_free [OF c] in auto)
qed (simp add: assms)

lemma release_store_ok: "escrows_ok s \<Longrightarrow> escrows_ok (fst (escrow_release_commit v s ok now i en rc))"
  using release_cases [of v s ok now i en rc] escrows_ok_close escrows_okD by fastforce

lemma clawback_store_ok: "escrows_ok s \<Longrightarrow> escrows_ok (fst (escrow_clawback_commit s ok now i cl a))"
  using clawback_cases [of s ok now i cl a] escrows_ok_close escrows_okD by fastforce

lemma esc_step_ok: "esc_step v p q \<Longrightarrow> escrows_ok (fst p) \<Longrightarrow> escrows_ok (fst q)"
  by (induction rule: esc_step.induct)
     (auto intro: guard_store_ok status_store_ok open_store_ok release_store_ok clawback_store_ok)

lemma esc_steps_ok: "(esc_step v)\<^sup>*\<^sup>* p q \<Longrightarrow> escrows_ok (fst p) \<Longrightarrow> escrows_ok (fst q)"
  by (induction rule: rtranclp_induct) (auto dest: esc_step_ok)

definition no_escrows :: escrows where
  "no_escrows = \<lparr>ec_rows = [], ec_byTask = []\<rparr>"

lemma no_escrows_ok: "escrows_ok no_escrows"
  by (simp add: escrows_ok_def no_escrows_def)

section \<open>Uninterrupted requests\<close>

definition esc_request :: "esc_env \<Rightarrow> book_state \<Rightarrow> esc_io \<times> int \<times> esc_input \<Rightarrow> book_state" where
  "esc_request v st r = fst (handleEscrowAction v st (fst r) (fst (snd r)) (snd (snd r)))"

definition closed_row :: "string \<Rightarrow> escrow \<Rightarrow> book_state \<Rightarrow> bool" where
  "closed_row i c st \<longleftrightarrow> escrows_ok (bs_escrows st) \<and> jm_get (ec_rows (bs_escrows st)) i = Some c \<and>
     es_status c \<noteq> EscrowOpen"

text \<open>The escrow rows after an uninterrupted request come from one of the parts above.\<close>

lemma handle_store:
  obtains (same) "bs_escrows (fst (handleEscrowAction v st io now x)) = bs_escrows st"
  | (status) ok where "bs_escrows (fst (handleEscrowAction v st io now x)) =
      fst (escrow_status_action v (bs_escrows st) ok now x)"
  | (fresh) ok where "bs_escrows (fst (handleEscrowAction v st io now x)) =
      fst (escrow_open_action v (bs_escrows st) ok (io_nonce io) now x)"
  | (guard) ok where "bs_escrows (fst (handleEscrowAction v st io now x)) =
      fst (escrow_guard v (bs_escrows st) ok now x)"
  | (release) ok s e ok' en rc where "escrow_guard v (bs_escrows st) ok now x = (s, Inr e)"
      "bs_escrows (fst (handleEscrowAction v st io now x)) =
       fst (escrow_release_commit v s ok' now (es_id e) en rc)"
  | (clawback) ok s e ok' cl a where "escrow_guard v (bs_escrows st) ok now x = (s, Inr e)"
      "bs_escrows (fst (handleEscrowAction v st io now x)) =
       fst (escrow_clawback_commit s ok' now (es_id e) cl a)"
proof -
  let ?a = "lower_text (ei_action x)"
  obtain s r where g: "escrow_guard v (bs_escrows st) (io_touch io) now x = (s, r)"
    by (cases "escrow_guard v (bs_escrows st) (io_touch io) now x")
  consider "?a \<notin> {''open'', ''release'', ''clawback'', ''status''}" | "?a = ''status''" | "?a = ''open''"
    | "?a = ''release''" | "?a = ''clawback''" by auto
  then show ?thesis
  proof cases
    case 1
    then show ?thesis by (intro same) (simp add: handleEscrowAction_def Let_def)
  next
    case 2
    then show ?thesis by (intro status [of "io_touch io"]) (simp add: handleEscrowAction_def Let_def)
  next
    case 3
    then show ?thesis by (intro fresh [of "io_save io"]) (simp add: handleEscrowAction_def Let_def)
  next
    case 4
    show ?thesis
    proof (cases r)
      case (Inl q)
      with 4 g show ?thesis by (intro guard [of "io_touch io"]) (simp add: handleEscrowAction_def Let_def)
    next
      case (Inr e)
      with 4 g show ?thesis by (intro release [of "io_touch io" s e]) (simp_all add: handleEscrowAction_def Let_def)
    qed
  next
    case 5
    show ?thesis
    proof (cases r)
      case (Inl q)
      with 5 g show ?thesis by (intro guard [of "io_touch io"]) (simp add: handleEscrowAction_def Let_def)
    next
      case (Inr e)
      define f where "f = fileAndAdjudicate (ee_book v) (bs_disputes st) (io_dispute io) (io_dispute_nonce io) now JNull
         \<lparr>dc_agent = ei_agent x, dc_task = JStr (es_task e), dc_type = claim_of x,
          dc_evidence = js_or (ei_evidence x) (JObj [])\<rparr>"
      have h: "bs_escrows (fst (handleEscrowAction v st io now x)) =
          (if claim_of x \<notin> set (map JStr CLAIM_TYPES) then s
           else case snd f of None \<Rightarrow> s
             | Some a \<Rightarrow> fst (escrow_clawback_commit s (io_save io) now (es_id e) (js_String (claim_of x)) a))"
        using 5 g Inr
        by (simp add: handleEscrowAction_def Let_def f_def case_prod_beta split: option.split)
      show ?thesis
      proof (cases "claim_of x \<in> set (map JStr CLAIM_TYPES) \<and> snd f \<noteq> None")
        case True
        then obtain a where "snd f = Some a" by auto
        with True h g Inr show ?thesis by (intro clawback [of "io_touch io" s e]) simp_all
      next
        case False
        with h g show ?thesis by (intro guard [of "io_touch io"]) auto
      qed
    qed
  qed
qed

lemma put_closed:
  assumes "escrows_ok s" "jm_get (ec_rows s) i = Some c" "es_status c \<noteq> EscrowOpen"
    and "jm_get (ec_rows s) j = Some e" "es_status e = EscrowOpen" "es_id e' = es_id e"
  shows "jm_get (ec_rows (put_escrow e' s)) i = Some c"
  using assms escrows_okD [OF assms(1,4)] by (auto simp: put_escrow_def jsmap_simps)

lemma guard_closed:
  assumes "escrows_ok s" "jm_get (ec_rows s) i = Some c" "es_status c \<noteq> EscrowOpen"
  shows "jm_get (ec_rows (fst (escrow_guard v s ok now x))) i = Some c"
  using guard_cases [of v s ok now x] touch_closed [OF assms] assms(2) by fastforce

lemma closed_row_step:
  assumes "closed_row i c st" "''escrow-'' @ io_nonce (fst r) \<noteq> i"
  shows "closed_row i c (esc_request v st r)"
proof -
  obtain io now x where r: "r = (io, now, x)" by (cases r) auto
  let ?s = "bs_escrows st"
  from assms(1) have a: "escrows_ok ?s" "jm_get (ec_rows ?s) i = Some c" "es_status c \<noteq> EscrowOpen"
    by (simp_all add: closed_row_def)
  have "escrows_ok s' \<and> jm_get (ec_rows s') i = Some c"
    if s': "s' = bs_escrows (fst (handleEscrowAction v st io now x))" for s'
  proof (cases rule: handle_store [of v st io now x])
    case same
    with a s' show ?thesis by simp
  next
    case (status ok)
    with a s' status_store_ok [OF a(1)] status_cases [of v ?s ok now x] touch_closed [OF a]
    show ?thesis by fastforce
  next
    case (fresh ok)
    with a s' open_store_ok [OF a(1)] open_cases [of v ?s ok "io_nonce io" now x] assms(2) r
    show ?thesis by (auto simp: jsmap_simps)
  next
    case (guard ok)
    with a s' guard_closed [OF a, of v ok now x] guard_store_ok [OF a(1)] show ?thesis
      by (metis prod.collapse)
  next
    case (release ok s e ok' en rc)
    have s: "escrows_ok s" "jm_get (ec_rows s) i = Some c"
      using guard_closed [OF a, of v ok now x] guard_store_ok [OF a(1) release(1)] release(1) by simp_all
    from guard_row [OF a(1) release(1)] have e: "jm_get (ec_rows s) (es_id e) = Some e" "es_status e = EscrowOpen"
      by simp_all
    have "jm_get (ec_rows s') i = Some c"
      using release_cases [of v s ok' now "es_id e" en rc] s e
        put_closed [OF s a(3) e, of "released_escrow now k e" for k] release(2) s' by auto
    with release(2) s' release_store_ok [OF s(1)] show ?thesis by simp
  next
    case (clawback ok s e ok' cl b)
    have s: "escrows_ok s" "jm_get (ec_rows s) i = Some c"
      using guard_closed [OF a, of v ok now x] guard_store_ok [OF a(1) clawback(1)] clawback(1) by simp_all
    from guard_row [OF a(1) clawback(1)] have e: "jm_get (ec_rows s) (es_id e) = Some e" "es_status e = EscrowOpen"
      by simp_all
    have "jm_get (ec_rows s') i = Some c"
      using clawback_cases [of s ok' now "es_id e" cl b] s e
        put_closed [OF s a(3) e, of "clawed_escrow now cl b e"] clawback(2) s' by auto
    with clawback(2) s' clawback_store_ok [OF s(1)] show ?thesis by simp
  qed
  then show ?thesis using a(3) r by (simp add: closed_row_def esc_request_def)
qed

interpretation closed_escrow: invariant_run "esc_request v" "closed_row i c"
    "\<lambda>r. ''escrow-'' @ io_nonce (fst r) \<noteq> i" for v i c
  by unfold_locales (rule closed_row_step)

lemma verify_release_ok:
  assumes "verifyEscrowRelease on e receipt entry = (k, Inr u)"
  shows "\<exists>en. entry = Some en \<and> js_truthy (jget en ''collected'') \<and>
    (\<forall>h. es_output_hash e = Some h \<and> h \<noteq> [] \<longrightarrow>
       js_truthy (jget (jget receipt ''output'') ''hash'') \<and>
       escrow_normalizeHash (jget (jget receipt ''output'') ''hash'') = escrow_normalizeHash (JStr h)) \<and>
    (\<forall>t. es_proof_tier e = Some t \<and> t \<noteq> [] \<longrightarrow>
       fst (tierMeets (JStr t) (receipt_tier receipt)) \<and> (js_lower t = ''settlement'' \<longrightarrow> on))"
  using assms
  by (auto simp: verifyEscrowRelease_def Let_def split: option.splits if_splits prod.splits)

lemma release_reply:
  assumes "escrow_release_commit v s ok now i entry receipt = (s', Some (EscReleased e' k))"
  shows "\<exists>e k0. jm_get (ec_rows s) i = Some e \<and> e' = released_escrow now k e \<and>
    verifyEscrowRelease (ee_settlementOn v) e receipt entry = (k0, Inr ())"
  using assms
  by (auto simp: escrow_release_commit_def Let_def split: option.splits prod.splits sum.splits if_splits)

section \<open>Properties\<close>

text \<open>
  However the requests of several clients interleave, a task never has two open escrows.
\<close>

theorem one_open_escrow_per_task:
  assumes "(esc_step v)\<^sup>*\<^sup>* (no_escrows, []) (s, ws)"
    and "jm_get (ec_rows s) i = Some e" "es_status e = EscrowOpen"
    and "jm_get (ec_rows s) j = Some f" "es_status f = EscrowOpen" "es_task f = es_task e"
  shows "i = j"
proof -
  have "escrows_ok s" using esc_steps_ok [OF assms(1)] no_escrows_ok by simp
  with assms(2-6) escrows_okD [of s i e] escrows_okD [of s j f] show ?thesis by simp
qed

definition example_env :: esc_env where
  "example_env = \<lparr>ee_book = \<lparr>bd_findByTask = (\<lambda>t. Some (JObj [(''collected'', JBool True),
       (''agent_id'', JNum (JInt 7)), (''amount'', JStr ''50''), (''payment_ref'', JStr ''p1'')])),
       bd_entries = [], bd_loadReceipt = Some (\<lambda>t. Some (JObj [(''output'', JObj [(''hash'', JStr ''0xAB'')])])),
       bd_verifyReceipt = None\<rparr>,
     ee_settlementOn = False, ee_dateParse = (\<lambda>t. Some 1000), ee_baseUrl = []\<rparr>"

definition example_ask :: "string \<Rightarrow> esc_input" where
  "example_ask action = \<lparr>ei_action = JStr action, ei_agent = JNum (JInt 7), ei_escrow = JUndef,
     ei_task = JStr ''t1'', ei_amount = JUndef, ei_expires = JStr ''later'',
     ei_required = JObj [(''output_hash'', JStr ''ab'')], ei_claim = JUndef, ei_evidence = JUndef\<rparr>"

definition example_opened :: escrows where
  "example_opened = fst (escrow_open_action example_env no_escrows True ''01'' 5 (example_ask ''open''))"

definition example_escrow :: escrow where
  "example_escrow = the (jm_get (ec_rows example_opened) ''escrow-01'')"

lemma example_opened_row:
  "jm_get (ec_rows example_opened) ''escrow-01'' = Some example_escrow" "es_status example_escrow = EscrowOpen"
  by code_simp+

theorem one_open_escrow_per_task_witness: "''escrow-01'' = ''escrow-01'' \<and> es_status example_escrow = EscrowOpen"
proof -
  have "(esc_step example_env)\<^sup>*\<^sup>* (no_escrows, []) (example_opened, [])"
    unfolding example_opened_def by (intro r_into_rtranclp es_open)
  from one_open_escrow_per_task [OF this example_opened_row example_opened_row refl] example_opened_row
  show ?thesis by simp
qed

text \<open>
  Requests that run without interruption never reopen, release or claw back an escrow
  that is closed: its row stays as it is, unless a later opening draws the same random id.
\<close>

theorem closed_escrow_final:
  assumes "escrows_ok (bs_escrows st)" "jm_get (ec_rows (bs_escrows st)) i = Some c" "es_status c \<noteq> EscrowOpen"
    and "list_all (\<lambda>r. ''escrow-'' @ io_nonce (fst r) \<noteq> i) rs"
  shows "jm_get (ec_rows (bs_escrows (foldl (esc_request v) st rs))) i = Some c"
  using closed_escrow.run_inv [of i c st rs v] assms by (simp add: closed_row_def)

definition example_closed :: escrow where
  "example_closed = expired_escrow 9 example_escrow"

definition example_state :: book_state where
  "example_state = \<lparr>bs_escrows = \<lparr>ec_rows = [(''escrow-01'', example_closed)], ec_byTask = [(''t1'', ''escrow-01'')]\<rparr>,
     bs_disputes = no_disputes\<rparr>"

definition example_io :: esc_io where
  "example_io = \<lparr>io_touch = True, io_save = True, io_dispute = (True, True), io_nonce = ''02'', io_dispute_nonce = ''03''\<rparr>"

theorem closed_escrow_final_witness:
  "jm_get (ec_rows (bs_escrows (foldl (esc_request example_env) example_state
     [(example_io, 10, example_ask ''release''), (example_io, 11, example_ask ''clawback'')]))) ''escrow-01'' =
   Some example_closed"
proof (rule closed_escrow_final)
  have "es_id example_escrow = ''escrow-01''" by code_simp
  then show "escrows_ok (bs_escrows example_state)"
    by (simp add: example_state_def escrows_ok_def example_closed_def)
qed (simp_all add: example_state_def example_closed_def example_io_def)

text \<open>
  A release that is answered as released had a collected ledger entry for the escrow's
  task, a receipt whose output hash is the required one, and a receipt tier that meets the
  required one, never the settlement tier while settlement proofs are off.
\<close>

theorem release_requires_evidence:
  assumes "escrow_release_commit v s ok now i entry receipt = (s', Some (EscReleased e' k))"
  shows "\<exists>e en. jm_get (ec_rows s) i = Some e \<and> entry = Some en \<and> js_truthy (jget en ''collected'') \<and>
    (\<forall>h. es_output_hash e = Some h \<and> h \<noteq> [] \<longrightarrow>
       escrow_normalizeHash (jget (jget receipt ''output'') ''hash'') = escrow_normalizeHash (JStr h)) \<and>
    (\<forall>t. es_proof_tier e = Some t \<and> t \<noteq> [] \<longrightarrow>
       fst (tierMeets (JStr t) (receipt_tier receipt)) \<and> (js_lower t = ''settlement'' \<longrightarrow> ee_settlementOn v))"
  using release_reply [OF assms] verify_release_ok by blast

theorem release_requires_evidence_witness:
  "\<exists>en. bd_findByTask (ee_book example_env) ''t1'' = Some en \<and> js_truthy (jget en ''collected'')"
proof -
  let ?entry = "bd_findByTask (ee_book example_env) ''t1''"
  let ?receipt = "loaded_receipt (ee_book example_env) ''t1''"
  have "case snd (escrow_release_commit example_env example_opened True 7 ''escrow-01'' ?entry ?receipt) of
      Some (EscReleased e k) \<Rightarrow> True | _ \<Rightarrow> False"
    by code_simp
  then obtain s' e' k where
    "escrow_release_commit example_env example_opened True 7 ''escrow-01'' ?entry ?receipt = (s', Some (EscReleased e' k))"
    by (cases "escrow_release_commit example_env example_opened True 7 ''escrow-01'' ?entry ?receipt")
       (auto split: option.splits esc_reply.splits)
  from release_requires_evidence [OF this] show ?thesis by blast
qed

text \<open>
  The guard is not repeated after the wait: when a release and a clawback of one escrow
  both pass it before either commits, both are answered as done, and the released escrow
  ends as clawed back.
\<close>

theorem release_and_clawback_both_commit:
  "let env = example_env; s0 = example_opened;
       (s1, g1) = escrow_guard env s0 True 6 (example_ask ''release'');
       (s2, g2) = escrow_guard env s1 True 6 (example_ask ''clawback'');
       (s3, r3) = escrow_release_commit env s2 True 8 ''escrow-01'' (bd_findByTask (ee_book env) ''t1'')
         (loaded_receipt (ee_book env) ''t1'');
       (s4, r4) = escrow_clawback_commit s3 True 9 ''escrow-01'' OUTPUT_MISSING adjudicated
   in g1 = Inr example_escrow \<and> g2 = Inr example_escrow \<and>
      (\<exists>e k. r3 = Some (EscReleased e k)) \<and>
      (\<exists>e d k. r4 = Some (EscClawed e d k) \<and> es_status e = EscrowClawedBack)"
proof -
  let ?entry = "bd_findByTask (ee_book example_env) ''t1''"
  let ?receipt = "loaded_receipt (ee_book example_env) ''t1''"
  have g: "escrow_guard example_env example_opened True 6 (example_ask action) = (example_opened, Inr example_escrow)"
    for action
  proof -
    have "escrow_lookup example_opened (example_ask ''x'') = Inr example_escrow"
      "touchExpiry example_env example_opened True 6 example_escrow = (example_opened, Some example_escrow)"
      by code_simp+
    moreover have sel: "ei_escrow (example_ask a) = JUndef" "ei_task (example_ask a) = JStr ''t1''"
      "ei_agent (example_ask a) = JNum (JInt 7)" for a
      by (simp_all add: example_ask_def)
    have "escrow_lookup example_opened (example_ask action) = escrow_lookup example_opened (example_ask ''x'')"
      by (simp only: escrow_lookup_def sel)
    with calculation example_opened_row(2) show ?thesis by (simp add: escrow_guard_def)
  qed
  have "snd (verifyEscrowRelease False example_escrow ?receipt ?entry) = Inr ()"
    by code_simp
  moreover have "ee_settlementOn example_env = False" by (simp add: example_env_def)
  ultimately obtain k where "escrow_release_commit example_env example_opened True 8 ''escrow-01'' ?entry ?receipt =
      (put_escrow (released_escrow 8 k example_escrow) example_opened,
       Some (EscReleased (released_escrow 8 k example_escrow) k))"
    using example_opened_row(1)
    by (cases "verifyEscrowRelease False example_escrow ?receipt ?entry") (simp add: escrow_release_commit_def Let_def)
  moreover have "es_id (released_escrow 8 k example_escrow) = ''escrow-01''" for k
  proof -
    have "es_id example_escrow = ''escrow-01''" by code_simp
    then show ?thesis by simp
  qed
  ultimately show ?thesis using g
    by (simp add: escrow_clawback_commit_def put_escrow_def jsmap_simps Let_def)
qed

end
