(* ===== verification/A2a_Escrow.thy ===== *)
theory A2a_Escrow
  imports Book_Escrow
begin

text \<open>
  services/gateway/src/book-a2a-escrow.js: the job between two agents on top of the escrow and
  the dispute (open, fund, submit, release, clawback, a metered challenge, expiry). A request
  runs without interruption here; the export row that the caller's callback appends after a
  change is not part of the state. \<open>None\<close> is a thrown error; the maps keep what was changed
  before it.
\<close>

section \<open>Data\<close>

datatype job_status = JobOpened | JobFunded | JobSubmitted | JobReleased | JobClawedBack | JobChallenged | JobExpired

fun job_status_text :: "job_status \<Rightarrow> string" where
  "job_status_text JobOpened = ''opened''"
| "job_status_text JobFunded = ''funded''"
| "job_status_text JobSubmitted = ''submitted''"
| "job_status_text JobReleased = ''released''"
| "job_status_text JobClawedBack = ''clawed_back''"
| "job_status_text JobChallenged = ''challenged''"
| "job_status_text JobExpired = ''expired''"

definition job_live :: "job_status \<Rightarrow> bool" where
  "job_live st \<longleftrightarrow> st \<in> {JobOpened, JobFunded, JobSubmitted, JobChallenged}"

definition JOB_EXPIRY_MS :: int where
  "JOB_EXPIRY_MS = 14 * 24 * 60 * 60 * 1000"

definition MAX_CHALLENGES_PER_JOB :: nat where
  "MAX_CHALLENGES_PER_JOB = 3"

definition job_normalizeHash :: "jsval \<Rightarrow> string option" where
  "job_normalizeHash v =
     (let s = escrow_normalizeHash v
      in if length s = 64 \<and> is_hex s then Some (''0x'' @ s) else None)"

definition normalizeParties :: "jsval \<Rightarrow> jsnum \<Rightarrow> string + int \<times> int" where
  "normalizeParties parties principalAgentId =
     (if \<not> js_truthy parties \<or> (case parties of JObj _ \<Rightarrow> False | JArr _ \<Rightarrow> False | JBytes _ \<Rightarrow> False | _ \<Rightarrow> True)
      then Inl ''parties required''
      else let p = js_Number (js_coalesce (jget parties ''principal_agent_id'') (jget parties ''principal''));
               q = js_Number (js_coalesce (jget parties ''counterparty_agent_id'') (jget parties ''counterparty''))
        in case num_int p of
             None \<Rightarrow> Inl ''parties.principal_agent_id required''
           | Some pn \<Rightarrow>
               if pn < 1 then Inl ''parties.principal_agent_id required''
               else if \<not> num_same p principalAgentId
               then Inl ''principal_agent_id must match possession agent_id''
               else (case num_int q of
                   None \<Rightarrow> Inl ''parties.counterparty_agent_id required''
                 | Some qn \<Rightarrow>
                     if qn < 1 then Inl ''parties.counterparty_agent_id required''
                     else if qn = pn then Inl ''counterparty must differ from principal''
                     else Inr (pn, qn)))"

record job =
  jb_id :: string
  jb_spec :: string
  jb_amount :: string
  jb_principal :: int
  jb_counterparty :: int
  jb_status :: job_status
  jb_task :: "string option"
  jb_escrow :: "string option"
  jb_fulfillment :: "string option"
  jb_output :: "string option"
  jb_challenges :: nat
  jb_disputes :: "string list"
  jb_opened_at :: string
  jb_funded_at :: "string option"
  jb_submitted_at :: "string option"
  jb_closed_at :: "string option"
  jb_close_reason :: "string option"
  jb_expires_at :: string

text \<open>A field of a row is missing when it is null or the empty text.\<close>

definition text_set :: "string option \<Rightarrow> string option" where
  "text_set t = (case t of None \<Rightarrow> None | Some s \<Rightarrow> if s = [] then None else Some s)"

lemma text_set_Some [simp]: "text_set t = Some s \<longleftrightarrow> t = Some s \<and> s \<noteq> []"
  by (auto simp: text_set_def split: option.split)

record jobs =
  js_rows :: "(string, job) jsmap"
  js_bySpec :: "(string, string) jsmap"

record a2a_state = book_state +
  as_jobs :: jobs

record a2a_io = esc_io +
  io_job_touch :: bool
  io_job_save :: bool
  io_escrow_patch :: bool
  io_job_nonce :: string

record a2a_input =
  ai_action :: jsval
  ai_agent :: jsval
  ai_job :: jsval
  ai_spec :: jsval
  ai_amount :: jsval
  ai_parties :: jsval
  ai_expires :: jsval
  ai_task :: jsval
  ai_fulfillment_receipt :: jsval
  ai_fulfillment_task :: jsval
  ai_output_commitment :: jsval
  ai_output_hash :: jsval
  ai_claim :: jsval
  ai_evidence :: jsval

text \<open>An accepted request names the book phase it records; a status query records none.\<close>

datatype a2a_reply =
    JobOk job string
  | JobView job
  | JobRefused string
  | JobNotOffered
  | JobExists job
  | JobDone job
  | JobEscrowRefused esc_reply job

definition job_get :: "jobs \<Rightarrow> jsval \<Rightarrow> job option" where
  "job_get s i = jm_get (js_rows s) (js_String i)"

definition put_row :: "job \<Rightarrow> jobs \<Rightarrow> jobs" where
  "put_row j s = s\<lparr>js_rows := jm_set (jb_id j) j (js_rows s)\<rparr>"

definition put_job :: "job \<Rightarrow> a2a_state \<Rightarrow> a2a_state" where
  "put_job j st = st\<lparr>as_jobs := put_row j (as_jobs st)\<rparr>"

definition job_due :: "esc_env \<Rightarrow> int \<Rightarrow> job \<Rightarrow> bool" where
  "job_due v now j \<longleftrightarrow> job_live (jb_status j) \<and> jb_expires_at j \<noteq> [] \<and>
     (case ee_dateParse v (jb_expires_at j) of Some t \<Rightarrow> t \<le> now | None \<Rightarrow> False)"

definition expired_job :: "int \<Rightarrow> job \<Rightarrow> job" where
  "expired_job now j = j\<lparr>jb_status := JobExpired, jb_closed_at := Some (iso_string now),
     jb_close_reason := Some ''expired''\<rparr>"

definition touch_job :: "esc_env \<Rightarrow> a2a_state \<Rightarrow> bool \<Rightarrow> int \<Rightarrow> job \<Rightarrow> a2a_state \<times> job option" where
  "touch_job v st ok now j =
     (if job_due v now j then (put_job (expired_job now j) st, if ok then Some (expired_job now j) else None)
      else (st, Some j))"

section \<open>Actions\<close>

definition new_job :: "string \<Rightarrow> string \<Rightarrow> string \<Rightarrow> int \<times> int \<Rightarrow> int \<Rightarrow> string \<Rightarrow> job" where
  "new_job i spec amount parties now expires =
     \<lparr>jb_id = i, jb_spec = spec, jb_amount = amount, jb_principal = fst parties,
      jb_counterparty = snd parties, jb_status = JobOpened, jb_task = None, jb_escrow = None,
      jb_fulfillment = None, jb_output = None, jb_challenges = 0, jb_disputes = [],
      jb_opened_at = iso_string now, jb_funded_at = None, jb_submitted_at = None,
      jb_closed_at = None, jb_close_reason = None, jb_expires_at = expires\<rparr>"

definition job_open_insert ::
    "esc_env \<Rightarrow> a2a_state \<Rightarrow> a2a_io \<Rightarrow> int \<Rightarrow> string \<Rightarrow> string \<Rightarrow> string \<Rightarrow> int \<times> int \<Rightarrow> string \<Rightarrow> string \<Rightarrow>
     a2a_state \<times> a2a_reply option" where
  "job_open_insert v st io now key spec amount parties given expires =
     (if given \<noteq> [] \<and> ee_dateParse v given = None then (st, Some (JobRefused ''invalid expires_at''))
      else let i = ''a2ajob-'' @ io_job_nonce io; j = new_job i spec amount parties now expires;
               st' = st\<lparr>as_jobs := \<lparr>js_rows = jm_set i j (js_rows (as_jobs st)),
                                   js_bySpec = jm_set key i (js_bySpec (as_jobs st))\<rparr>\<rparr>
        in (st', if io_job_save io then Some (JobOk j ''open'') else None))"

text \<open>The row that the index by specification names.\<close>

definition existing_job :: "jobs \<Rightarrow> string \<Rightarrow> job option" where
  "existing_job s key =
     (case jm_get (js_bySpec s) key of
        None \<Rightarrow> None
      | Some i \<Rightarrow> if i = [] then None else jm_get (js_rows s) i)"

definition job_open ::
    "esc_env \<Rightarrow> a2a_state \<Rightarrow> a2a_io \<Rightarrow> int \<Rightarrow> a2a_input \<Rightarrow> a2a_state \<times> a2a_reply option" where
  "job_open v st io now x =
     (let principal = js_Number (ai_agent x);
          amount = (if js_nullish (ai_amount x) then [] else js_trim (js_String (ai_amount x)));
          given = (if js_truthy (ai_expires x) then js_String (ai_expires x) else []);
          expires = (if given = [] then iso_string (now + JOB_EXPIRY_MS) else given)
      in if \<not> ee_settlementOn v then (st, Some JobNotOffered)
         else case job_normalizeHash (ai_spec x) of
           None \<Rightarrow> (st, Some (JobRefused ''job_spec_hash required (32-byte hex)''))
         | Some spec \<Rightarrow>
             if \<not> all_digits amount then (st, Some (JobRefused ''amount required (USDC atomic units)''))
             else (case normalizeParties (ai_parties x) principal of
                 Inl why \<Rightarrow> (st, Some (JobRefused why))
               | Inr parties \<Rightarrow>
                   let key = num_string principal @ '':'' @ spec
                   in (case existing_job (as_jobs st) key of
                         Some j \<Rightarrow> if job_live (jb_status j) then (st, Some (JobExists j))
                                   else job_open_insert v st io now key spec amount parties given expires
                       | None \<Rightarrow> job_open_insert v st io now key spec amount parties given expires)))"

text \<open>The escrow handler on the book part of the state.\<close>

definition escrow_call ::
    "esc_env \<Rightarrow> a2a_state \<Rightarrow> a2a_io \<Rightarrow> int \<Rightarrow> esc_input \<Rightarrow> a2a_state \<times> esc_reply option" where
  "escrow_call v st io now x =
     (let (b, r) = handleEscrowAction v (book_state.truncate st) (esc_io.truncate io) now x
      in (st\<lparr>bs_escrows := bs_escrows b, bs_disputes := bs_disputes b\<rparr>, r))"

definition esc_ask :: "string \<Rightarrow> int \<Rightarrow> esc_input" where
  "esc_ask action agent = \<lparr>ei_action = JStr action, ei_agent = JNum (JInt agent), ei_escrow = JUndef,
     ei_task = JUndef, ei_amount = JUndef, ei_expires = JUndef, ei_required = JUndef, ei_claim = JUndef,
     ei_evidence = JUndef\<rparr>"

definition funded_job :: "string \<Rightarrow> string \<Rightarrow> int \<Rightarrow> job \<Rightarrow> job" where
  "funded_job task i now j = j\<lparr>jb_task := Some task, jb_escrow := Some i, jb_status := JobFunded,
     jb_funded_at := Some (iso_string now)\<rparr>"

text \<open>
  What follows an escrow call: the escrow's refusal, or the job's next row, saved. The
  functions ending in \<open>_result\<close> name the reply that an action accepts and the row it gives.
\<close>

definition after_escrow ::
    "(esc_reply \<Rightarrow> job option) \<Rightarrow> string \<Rightarrow> a2a_io \<Rightarrow> job \<Rightarrow> a2a_state \<times> esc_reply option \<Rightarrow>
     a2a_state \<times> a2a_reply option" where
  "after_escrow f phase io j p =
     (case snd p of
        None \<Rightarrow> (fst p, None)
      | Some r \<Rightarrow>
          (case f r of
             None \<Rightarrow> (fst p, Some (JobEscrowRefused r j))
           | Some j' \<Rightarrow> (put_job j' (fst p), if io_job_save io then Some (JobOk j' phase) else None)))"

fun opened_result :: "string \<Rightarrow> int \<Rightarrow> job \<Rightarrow> esc_reply \<Rightarrow> job option" where
  "opened_result task now j (EscOk e url) = Some (funded_job task (es_id e) now j)"
| "opened_result task now j _ = None"

definition job_fund ::
    "esc_env \<Rightarrow> a2a_state \<Rightarrow> a2a_io \<Rightarrow> int \<Rightarrow> a2a_input \<Rightarrow> job \<Rightarrow> a2a_state \<times> a2a_reply option" where
  "job_fund v st io now x j =
     (let task = (if js_truthy (ai_task x) then js_trim (js_String (ai_task x)) else [])
      in if \<not> ee_settlementOn v then (st, Some JobNotOffered)
         else if jb_status j \<noteq> JobOpened
         then (st, Some (JobRefused (''fund requires opened status (got '' @ job_status_text (jb_status j) @ '')'')))
         else if task = [] then (st, Some (JobRefused ''task_id required for fund''))
         else case bd_findByTask (ee_book v) task of
           None \<Rightarrow> (st, Some (JobRefused ''task not on book - pay via x402 first''))
         | Some entry \<Rightarrow>
             if \<not> num_same (js_Number (jget entry ''agent_id'')) (js_Number (ai_agent x))
             then (st, Some (JobRefused ''task not owned by principal agent''))
             else if \<not> js_truthy (jget entry ''collected'') then (st, Some (JobRefused ''ledger entry not collected''))
             else if js_String (js_or (jget entry ''amount'') (JStr [])) \<noteq> jb_amount j
             then (st, Some (JobRefused ''task amount does not match job amount''))
             else after_escrow (opened_result task now j) ''fund'' io j (escrow_call v st io now
                     ((esc_ask ''open'' (jb_principal j))\<lparr>ei_task := JStr task, ei_amount := JStr (jb_amount j),
                        ei_expires := JStr (jb_expires_at j),
                        ei_required := JObj [(''proof_tier'', JStr ''settlement'')]\<rparr>)))"

definition submitted_job :: "string \<Rightarrow> string option \<Rightarrow> int \<Rightarrow> job \<Rightarrow> job" where
  "submitted_job fid commitment now j =
     j\<lparr>jb_fulfillment := (if fid = [] then jb_fulfillment j else Some fid),
       jb_output := (case commitment of None \<Rightarrow> jb_output j | Some h \<Rightarrow> Some h),
       jb_status := JobSubmitted, jb_submitted_at := Some (iso_string now)\<rparr>"

text \<open>A submitted commitment becomes the output hash that the open escrow requires.\<close>

definition patch_escrow :: "job \<Rightarrow> string option \<Rightarrow> a2a_state \<Rightarrow> a2a_state \<times> bool" where
  "patch_escrow j commitment st =
     (case (text_set (jb_escrow j), commitment) of
        (Some i, Some h) \<Rightarrow>
          (case jm_get (ec_rows (bs_escrows st)) i of
             None \<Rightarrow> (st, False)
           | Some e \<Rightarrow>
               if es_status e \<noteq> EscrowOpen then (st, False)
               else (st\<lparr>bs_escrows := put_escrow (e\<lparr>es_output_hash := Some h,
                        es_proof_tier := (case es_proof_tier e of None \<Rightarrow> Some ''settlement'' | Some t \<Rightarrow>
                            if t = [] then Some ''settlement'' else Some t)\<rparr>) (bs_escrows st)\<rparr>, True))
      | _ \<Rightarrow> (st, False))"

definition put_submitted :: "job \<Rightarrow> string option \<Rightarrow> a2a_io \<Rightarrow> a2a_state \<Rightarrow> a2a_state \<times> a2a_reply option" where
  "put_submitted j' commitment io st =
     (let (st2, patched) = patch_escrow j' commitment (put_job j' st)
      in if patched \<and> \<not> io_escrow_patch io then (st2, None)
         else (st2, if io_job_save io then Some (JobOk j' ''submit'') else None))"

definition job_submit ::
    "a2a_state \<Rightarrow> a2a_io \<Rightarrow> int \<Rightarrow> a2a_input \<Rightarrow> job \<Rightarrow> a2a_state \<times> a2a_reply option" where
  "job_submit st io now x j =
     (let fid = (if js_truthy (ai_fulfillment_receipt x) then js_trim (js_String (ai_fulfillment_receipt x))
                 else if js_truthy (ai_fulfillment_task x) then js_trim (js_String (ai_fulfillment_task x)) else []);
          commitment = (if js_truthy (ai_output_commitment x) then job_normalizeHash (ai_output_commitment x)
                        else if js_truthy (ai_output_hash x) then job_normalizeHash (ai_output_hash x) else None)
      in if jb_status j \<noteq> JobFunded \<and> jb_status j \<noteq> JobChallenged
         then (st, Some (JobRefused (''submit requires funded or challenged status (got ''
                 @ job_status_text (jb_status j) @ '')'')))
         else if fid = [] \<and> commitment = None
         then (st, Some (JobRefused ''fulfillment_receipt_id and/or output_commitment required''))
         else put_submitted (submitted_job fid commitment now j) commitment io st)"

definition closed_job :: "job_status \<Rightarrow> string \<Rightarrow> string list \<Rightarrow> int \<Rightarrow> job \<Rightarrow> job" where
  "closed_job status reason ds now j = j\<lparr>jb_status := status, jb_closed_at := Some (iso_string now),
     jb_close_reason := Some reason, jb_disputes := jb_disputes j @ ds\<rparr>"

fun released_result :: "int \<Rightarrow> job \<Rightarrow> esc_reply \<Rightarrow> job option" where
  "released_result now j (EscReleased e k) = Some (closed_job JobReleased ''release'' [] now j)"
| "released_result now j _ = None"

definition job_release ::
    "esc_env \<Rightarrow> a2a_state \<Rightarrow> a2a_io \<Rightarrow> int \<Rightarrow> job \<Rightarrow> a2a_state \<times> a2a_reply option" where
  "job_release v st io now j =
     (case (text_set (jb_escrow j), text_set (jb_task j)) of
        (Some i, Some t) \<Rightarrow>
          after_escrow (released_result now j) ''release'' io j
            (escrow_call v st io now ((esc_ask ''release'' (jb_principal j))\<lparr>ei_escrow := JStr i\<rparr>))
      | _ \<Rightarrow> (st, Some (JobRefused ''job not funded'')))"

definition job_claim :: "string \<Rightarrow> a2a_input \<Rightarrow> jsval" where
  "job_claim d x = js_or (ai_claim x) (JStr d)"

fun clawed_result :: "jsval \<Rightarrow> int \<Rightarrow> job \<Rightarrow> esc_reply \<Rightarrow> job option" where
  "clawed_result claim now j (EscClawed e d k) =
     Some (closed_job JobClawedBack (''clawback:'' @ js_String claim)
             (case d of Some y \<Rightarrow> [dp_id y] | None \<Rightarrow> []) now j)"
| "clawed_result claim now j _ = None"

definition job_clawback ::
    "esc_env \<Rightarrow> a2a_state \<Rightarrow> a2a_io \<Rightarrow> int \<Rightarrow> a2a_input \<Rightarrow> job \<Rightarrow> a2a_state \<times> a2a_reply option" where
  "job_clawback v st io now x j =
     (case (text_set (jb_escrow j), text_set (jb_task j)) of
        (Some i, Some t) \<Rightarrow>
          after_escrow (clawed_result (job_claim OUTPUT_MISSING x) now j) ''clawback'' io j
            (escrow_call v st io now ((esc_ask ''clawback'' (jb_principal j))\<lparr>ei_escrow := JStr i,
               ei_claim := job_claim OUTPUT_MISSING x, ei_evidence := js_or (ai_evidence x) (JObj [])\<rparr>))
      | _ \<Rightarrow> (st, Some (JobRefused ''job not funded'')))"

definition challenged_job :: "dispute option \<Rightarrow> job \<Rightarrow> job" where
  "challenged_job d j = j\<lparr>jb_challenges := jb_challenges j + 1, jb_status := JobChallenged,
     jb_disputes := jb_disputes j @ (case d of Some y \<Rightarrow> [dp_id y] | None \<Rightarrow> [])\<rparr>"

definition opt_text :: "string option \<Rightarrow> jsval" where
  "opt_text t = (case t of Some s \<Rightarrow> JStr s | None \<Rightarrow> JNull)"

text \<open>The evidence: the caller's entries, the job's own ones overriding them.\<close>

definition job_evidence :: "job \<Rightarrow> (string \<times> jsval) list" where
  "job_evidence j =
     [(''a2a_job_id'', JStr (jb_id j)), (''job_spec_hash'', JStr (jb_spec j)),
      (''counterparty_agent_id'', JNum (JInt (jb_counterparty j))),
      (''fulfillment_receipt_id'', opt_text (jb_fulfillment j)),
      (''output_commitment'', opt_text (jb_output j))]"

definition challenge_evidence :: "a2a_input \<Rightarrow> job \<Rightarrow> jsval" where
  "challenge_evidence x j =
     JObj (filter (\<lambda>(k, _). k \<notin> fst ` set (job_evidence j))
             (case js_or (ai_evidence x) (JObj []) of JObj ps \<Rightarrow> ps | _ \<Rightarrow> []) @ job_evidence j)"

text \<open>The dispute of the task, filed now unless there is one already.\<close>

definition challenge_dispute ::
    "esc_env \<Rightarrow> a2a_state \<Rightarrow> a2a_io \<Rightarrow> int \<Rightarrow> a2a_input \<Rightarrow> job \<Rightarrow> string \<Rightarrow> disputes \<times> adjudication option" where
  "challenge_dispute v st io now x j t =
     fileAndAdjudicate (ee_book v) (bs_disputes st) (io_dispute io) (io_dispute_nonce io) now JNull
       \<lparr>dc_agent = JNum (JInt (jb_principal j)), dc_task = JStr t, dc_type = job_claim WRONG_MODEL x,
        dc_evidence = challenge_evidence x j\<rparr>"

definition mark_challenged ::
    "a2a_io \<Rightarrow> job \<Rightarrow> dispute option \<Rightarrow> a2a_state \<Rightarrow> a2a_state \<times> a2a_reply option" where
  "mark_challenged io j d st =
     (put_job (challenged_job d j) st,
      if io_job_save io then Some (JobOk (challenged_job d j) ''challenge'') else None)"

definition after_filing ::
    "a2a_state \<Rightarrow> a2a_io \<Rightarrow> job \<Rightarrow> disputes \<times> adjudication option \<Rightarrow> a2a_state \<times> a2a_reply option" where
  "after_filing st io j p =
     (let st1 = st\<lparr>bs_disputes := fst p\<rparr> in
      case snd p of
        None \<Rightarrow> (st1, None)
      | Some a \<Rightarrow>
          if \<not> aj_ok a \<and> aj_dispute a = None then (st1, Some (JobRefused (aj_reason a)))
          else mark_challenged io j (aj_dispute a) st1)"

definition job_challenge ::
    "esc_env \<Rightarrow> a2a_state \<Rightarrow> a2a_io \<Rightarrow> int \<Rightarrow> a2a_input \<Rightarrow> job \<Rightarrow> a2a_state \<times> a2a_reply option" where
  "job_challenge v st io now x j =
     (case text_set (jb_task j) of
        None \<Rightarrow> (st, Some (JobRefused ''job not funded''))
      | Some t \<Rightarrow>
          if MAX_CHALLENGES_PER_JOB \<le> jb_challenges j
          then (st, Some (JobRefused (''challenge meter exhausted (max '' @ dec_string MAX_CHALLENGES_PER_JOB @ '')'')))
          else (case dispute_getByTask (bs_disputes st) (JStr t) of
              Some d \<Rightarrow> mark_challenged io j (Some d) st
            | None \<Rightarrow> after_filing st io j (challenge_dispute v st io now x j t)))"

section \<open>The handler\<close>

text \<open>The row of a request by its principal, after the expiry sweep.\<close>

definition job_row ::
    "esc_env \<Rightarrow> a2a_state \<Rightarrow> a2a_io \<Rightarrow> int \<Rightarrow> a2a_input \<Rightarrow> string \<Rightarrow> a2a_state \<times> (a2a_reply option + job)" where
  "job_row v st io now x missing =
     (if \<not> js_truthy (ai_job x) \<or> js_String (ai_job x) = [] then (st, Inl (Some (JobRefused missing)))
      else case job_get (as_jobs st) (ai_job x) of
          None \<Rightarrow> (st, Inl (Some (JobRefused ''job not found'')))
        | Some j \<Rightarrow>
            if \<not> num_same (JInt (jb_principal j)) (js_Number (ai_agent x))
            then (st, Inl (Some (JobRefused ''job not found'')))
            else (fst (touch_job v st (io_job_touch io) now j),
                  case snd (touch_job v st (io_job_touch io) now j) of
                    None \<Rightarrow> Inl None | Some j' \<Rightarrow> Inr j'))"

definition job_actions :: "string list" where
  "job_actions = [''open'', ''fund'', ''submit'', ''release'', ''clawback'', ''challenge'', ''status'']"

definition job_dispatch ::
    "esc_env \<Rightarrow> a2a_state \<Rightarrow> a2a_io \<Rightarrow> int \<Rightarrow> a2a_input \<Rightarrow> string \<Rightarrow> job \<Rightarrow> a2a_state \<times> a2a_reply option" where
  "job_dispatch v st io now x action j =
     (if jb_status j = JobExpired then (st, Some (JobDone j))
      else if jb_status j = JobReleased \<or> jb_status j = JobClawedBack then (st, Some (JobDone j))
      else if action = ''fund'' then job_fund v st io now x j
      else if action = ''submit'' then job_submit st io now x j
      else if action = ''release'' then job_release v st io now j
      else if action = ''clawback'' then job_clawback v st io now x j
      else job_challenge v st io now x j)"

definition handleA2aJobAction ::
    "esc_env \<Rightarrow> a2a_state \<Rightarrow> a2a_io \<Rightarrow> int \<Rightarrow> a2a_input \<Rightarrow> a2a_state \<times> a2a_reply option" where
  "handleA2aJobAction v st io now x =
     (let action = lower_text (ai_action x)
      in if action \<notin> set job_actions
         then (st, Some (JobRefused (''invalid action: '' @ js_String (ai_action x))))
         else if action = ''open'' then job_open v st io now x
         else (case job_row v st io now x (if action = ''status'' then ''job_id required for status''
                                           else ''job_id required'') of
             (st1, Inl r) \<Rightarrow> (st1, r)
           | (st1, Inr j) \<Rightarrow>
               if action = ''status'' then (st1, Some (JobView j))
               else job_dispatch v st1 io now x action j))"

section \<open>The job's state machine\<close>

text \<open>
  The abstract life of one row: what may follow a row that is not closed. Nothing follows a
  released, clawed back or expired row.
\<close>

definition job_bound :: "job \<Rightarrow> bool" where
  "job_bound j \<longleftrightarrow> jb_task j \<noteq> None \<and> jb_escrow j \<noteq> None"

inductive job_next :: "job \<Rightarrow> job \<Rightarrow> bool" where
  jn_expire: "job_live (jb_status j) \<Longrightarrow> job_next j (expired_job now j)"
| jn_fund: "jb_status j = JobOpened \<Longrightarrow> job_next j (funded_job t i now j)"
| jn_submit: "jb_status j = JobFunded \<or> jb_status j = JobChallenged \<Longrightarrow> job_next j (submitted_job f c now j)"
| jn_release: "job_live (jb_status j) \<Longrightarrow> job_bound j \<Longrightarrow> job_next j (closed_job JobReleased r ds now j)"
| jn_clawback: "job_live (jb_status j) \<Longrightarrow> job_bound j \<Longrightarrow> job_next j (closed_job JobClawedBack r ds now j)"
| jn_challenge: "job_live (jb_status j) \<Longrightarrow> jb_task j \<noteq> None \<Longrightarrow> jb_challenges j < MAX_CHALLENGES_PER_JOB \<Longrightarrow>
     job_next j (challenged_job d j)"

inductive_cases job_nextE: "job_next j j'"

lemmas job_changes = expired_job_def funded_job_def submitted_job_def closed_job_def challenged_job_def

lemma job_next_id: "job_next j j' \<Longrightarrow> jb_id j' = jb_id j"
  by (erule job_nextE) (simp_all add: job_changes)

lemma job_next_live: "job_next j j' \<Longrightarrow> job_live (jb_status j)"
  by (erule job_nextE) (auto simp: job_live_def)

lemma closed_no_next: "job_next\<^sup>*\<^sup>* j j' \<Longrightarrow> \<not> job_live (jb_status j) \<Longrightarrow> j' = j"
  by (induction rule: rtranclp_induct) (auto dest: job_next_live)

text \<open>What a row satisfies in every reachable state.\<close>

definition job_ok :: "string \<Rightarrow> job \<Rightarrow> bool" where
  "job_ok i j \<longleftrightarrow> jb_id j = i \<and> jb_challenges j \<le> MAX_CHALLENGES_PER_JOB \<and>
     (jb_status j = JobOpened \<longrightarrow> jb_task j = None) \<and>
     (jb_status j \<notin> {JobOpened, JobExpired} \<longrightarrow> job_bound j) \<and>
     (jb_task j \<noteq> None \<longleftrightarrow> jb_escrow j \<noteq> None)"

lemma job_ok_next: "job_next j j' \<Longrightarrow> job_ok i j \<Longrightarrow> job_ok i j'"
  by (erule job_nextE) (auto simp: job_ok_def job_changes job_bound_def)

lemma job_ok_nexts: "job_next\<^sup>*\<^sup>* j j' \<Longrightarrow> job_ok i j \<Longrightarrow> job_ok i j'"
  by (induction rule: rtranclp_induct) (auto dest: job_ok_next)

lemma job_ok_new: "job_ok i (new_job i spec a p now ex)"
  by (simp add: job_ok_def new_job_def MAX_CHALLENGES_PER_JOB_def)

section \<open>Every request follows the machine\<close>

lemma escrow_call_jobs [simp]: "as_jobs (fst (escrow_call v st io now x)) = as_jobs st"
  by (simp add: escrow_call_def case_prod_beta)

lemma put_job_jobs [simp]: "as_jobs (put_job j st) = put_row j (as_jobs st)"
  by (simp add: put_job_def)

lemma patch_jobs [simp]: "as_jobs (fst (patch_escrow j c st)) = as_jobs st"
  by (simp add: patch_escrow_def split: option.split)

definition row_effect :: "job \<Rightarrow> jobs \<Rightarrow> jobs \<Rightarrow> bool" where
  "row_effect j s s' \<longleftrightarrow> s' = s \<or> (\<exists>j'. job_next j j' \<and> s' = put_row j' s)"

lemma row_effect_same [simp]: "row_effect j s s"
  by (simp add: row_effect_def)

lemma row_effect_put: "job_next j j' \<Longrightarrow> row_effect j s (put_row j' s)"
  by (auto simp: row_effect_def)

lemma put_job_effect: "job_next j j' \<Longrightarrow> row_effect j s (as_jobs (put_job j' st))" if "as_jobs st = s"
  using that by (simp add: row_effect_put)

lemma after_escrow_effect:
  assumes "\<And>r j'. f r = Some j' \<Longrightarrow> job_next j j'" "as_jobs (fst p) = s"
  shows "row_effect j s (as_jobs (fst (after_escrow f ph io j p)))"
  using assms by (auto simp: after_escrow_def row_effect_put split: option.split)

lemma opened_result_next: "jb_status j = JobOpened \<Longrightarrow> opened_result t now j r = Some j' \<Longrightarrow> job_next j j'"
  by (cases r) (auto intro: job_next.intros)

lemma released_result_next:
  "job_live (jb_status j) \<Longrightarrow> job_bound j \<Longrightarrow> released_result now j r = Some j' \<Longrightarrow> job_next j j'"
  by (cases r) (auto intro: job_next.intros)

lemma clawed_result_next:
  "job_live (jb_status j) \<Longrightarrow> job_bound j \<Longrightarrow> clawed_result c now j r = Some j' \<Longrightarrow> job_next j j'"
  by (cases r) (auto intro: job_next.intros)

lemma fund_effect: "row_effect j (as_jobs st) (as_jobs (fst (job_fund v st io now x j)))"
proof (cases "jb_status j = JobOpened")
  case True
  note eff = after_escrow_effect [OF opened_result_next [OF True] escrow_call_jobs]
  show ?thesis
    by (auto simp: job_fund_def Let_def eff split: option.split)
qed (simp add: job_fund_def Let_def)

lemma put_submitted_jobs [simp]: "as_jobs (fst (put_submitted j' c io st)) = put_row j' (as_jobs st)"
  by (simp add: put_submitted_def case_prod_beta)

lemma submit_effect: "row_effect j (as_jobs st) (as_jobs (fst (job_submit st io now x j)))"
proof (cases "jb_status j = JobFunded \<or> jb_status j = JobChallenged")
  case True
  note eff = row_effect_put [OF jn_submit [OF True]]
  from True show ?thesis by (simp only: job_submit_def Let_def) (auto simp: eff)
qed (simp add: job_submit_def Let_def)

lemma release_effect:
  "job_live (jb_status j) \<Longrightarrow> row_effect j (as_jobs st) (as_jobs (fst (job_release v st io now j)))"
  by (auto simp: job_release_def job_bound_def split: option.split
      intro!: after_escrow_effect [OF released_result_next escrow_call_jobs])

lemma clawback_effect:
  "job_live (jb_status j) \<Longrightarrow> row_effect j (as_jobs st) (as_jobs (fst (job_clawback v st io now x j)))"
  by (auto simp: job_clawback_def job_bound_def split: option.split
      intro!: after_escrow_effect [OF clawed_result_next escrow_call_jobs])

lemma mark_effect:
  assumes "job_live (jb_status j)" "jb_task j \<noteq> None" "jb_challenges j < MAX_CHALLENGES_PER_JOB" "as_jobs st = s"
  shows "row_effect j s (as_jobs (fst (mark_challenged io j d st)))"
  using assms by (auto simp: mark_challenged_def intro!: row_effect_put jn_challenge)

lemma challenge_effect:
  assumes "job_live (jb_status j)"
  shows "row_effect j (as_jobs st) (as_jobs (fst (job_challenge v st io now x j)))"
proof -
  have "row_effect j (as_jobs st) (as_jobs (fst (after_filing st io j p)))"
    if "jb_task j \<noteq> None" "jb_challenges j < MAX_CHALLENGES_PER_JOB" for p
    using mark_effect [OF assms that] by (auto simp: after_filing_def Let_def split: option.split)
  then show ?thesis
    using mark_effect [OF assms] by (auto simp: job_challenge_def split: option.split)
qed

lemma job_statuses: "job_live st \<or> st \<in> {JobReleased, JobClawedBack, JobExpired}"
  by (cases st) (simp_all add: job_live_def)

lemma dispatch_effect: "row_effect j (as_jobs st) (as_jobs (fst (job_dispatch v st io now x action j)))"
proof (cases "job_live (jb_status j)")
  case True
  then show ?thesis
    by (simp add: job_dispatch_def fund_effect submit_effect release_effect clawback_effect challenge_effect)
next
  case False
  with job_statuses [of "jb_status j"] show ?thesis by (auto simp: job_dispatch_def)
qed

text \<open>Row by row: every row there is moves along the machine, and no row appears.\<close>

definition jobs_ok :: "jobs \<Rightarrow> bool" where
  "jobs_ok s \<longleftrightarrow> (\<forall>i j. jm_get (js_rows s) i = Some j \<longrightarrow> job_ok i j)"

definition row_moves :: "job option \<Rightarrow> job option \<Rightarrow> bool" where
  "row_moves r r' \<longleftrightarrow> (case r of None \<Rightarrow> r' = None | Some j \<Rightarrow> \<exists>j'. r' = Some j' \<and> job_next\<^sup>*\<^sup>* j j')"

definition jobs_move :: "jobs \<Rightarrow> jobs \<Rightarrow> bool" where
  "jobs_move s s' \<longleftrightarrow> js_bySpec s' = js_bySpec s \<and> (\<forall>i. row_moves (jm_get (js_rows s) i) (jm_get (js_rows s') i))"

lemma row_moves_refl [simp]: "row_moves r r"
  by (simp add: row_moves_def split: option.split)

lemma row_moves_trans: "row_moves r r' \<Longrightarrow> row_moves r' r'' \<Longrightarrow> row_moves r r''"
  by (cases r) (auto simp: row_moves_def)

lemma jobs_move_refl [simp]: "jobs_move s s"
  by (simp add: jobs_move_def)

lemma jobs_move_trans: "jobs_move s t \<Longrightarrow> jobs_move t u \<Longrightarrow> jobs_move s u"
  unfolding jobs_move_def using row_moves_trans by metis

lemma jobs_okD: "jobs_ok s \<Longrightarrow> jm_get (js_rows s) i = Some j \<Longrightarrow> job_ok i j"
  by (simp add: jobs_ok_def)

lemma row_moves_ok: "row_moves r r' \<Longrightarrow> (\<And>j. r = Some j \<Longrightarrow> job_ok i j) \<Longrightarrow> r' = Some j' \<Longrightarrow> job_ok i j'"
  by (cases r) (auto simp: row_moves_def dest: job_ok_nexts)

lemma jobs_ok_move: "jobs_ok s \<Longrightarrow> jobs_move s s' \<Longrightarrow> jobs_ok s'"
  unfolding jobs_move_def jobs_ok_def using row_moves_ok by blast

lemma put_row_spec [simp]: "js_bySpec (put_row j s) = js_bySpec s"
  by (simp add: put_row_def)

lemma put_row_get: "jm_get (js_rows (put_row j s)) i = (if i = jb_id j then Some j else jm_get (js_rows s) i)"
  by (simp add: put_row_def jsmap_simps)

lemma effect_moves:
  assumes "row_effect j s s'" "jm_get (js_rows s) (jb_id j) = Some j"
  shows "jobs_move s s'"
  using assms(1) unfolding row_effect_def
proof (elim disjE exE conjE)
  fix j'
  assume "job_next j j'" "s' = put_row j' s"
  with assms(2) job_next_id [of j j'] show ?thesis
    by (auto simp: jobs_move_def put_row_get row_moves_def split: option.split)
qed simp

text \<open>The sweep, and the row that a request gets.\<close>

lemma touch_effect: "row_effect j (as_jobs st) (as_jobs (fst (touch_job v st ok now j)))"
  by (auto simp: touch_job_def job_due_def intro!: row_effect_put jn_expire)

lemma touch_row:
  assumes "snd (touch_job v st ok now j) = Some j'" "jm_get (js_rows (as_jobs st)) (jb_id j) = Some j"
  shows "jm_get (js_rows (as_jobs (fst (touch_job v st ok now j)))) (jb_id j') = Some j'"
  using assms by (auto simp: touch_job_def put_row_get expired_job_def split: if_splits)

lemma job_row_moves:
  assumes "jobs_ok (as_jobs st)"
  shows "jobs_move (as_jobs st) (as_jobs (fst (job_row v st io now x m)))"
proof -
  have "jobs_move (as_jobs st) (as_jobs (fst (touch_job v st ok now j)))"
    if "jm_get (js_rows (as_jobs st)) i = Some j" for i j ok
    using that jobs_okD [OF assms that] by (intro effect_moves [OF touch_effect]) (simp add: job_ok_def)
  then show ?thesis by (auto simp: job_row_def job_get_def split: option.split)
qed

lemma job_row_found:
  assumes "jobs_ok (as_jobs st)" "job_row v st io now x m = (st1, Inr j)"
  shows "jm_get (js_rows (as_jobs st1)) (jb_id j) = Some j"
proof -
  from assms(2) obtain j0 where j0: "jm_get (js_rows (as_jobs st)) (js_String (ai_job x)) = Some j0"
    and st1: "st1 = fst (touch_job v st (io_job_touch io) now j0)"
    and j: "snd (touch_job v st (io_job_touch io) now j0) = Some j"
    by (auto simp: job_row_def job_get_def split: if_splits option.splits)
  from jobs_okD [OF assms(1) j0] have "jb_id j0 = js_String (ai_job x)" by (simp add: job_ok_def)
  with touch_row [OF j] j0 st1 show ?thesis by simp
qed

text \<open>
  Opening adds one row and the index entry for its specification, unless the row that the
  index names is live.
\<close>

definition opened_jobs :: "string \<Rightarrow> job \<Rightarrow> jobs \<Rightarrow> jobs" where
  "opened_jobs key j s =
     \<lparr>js_rows = jm_set (jb_id j) j (js_rows s), js_bySpec = jm_set key (jb_id j) (js_bySpec s)\<rparr>"

definition spec_key :: "job \<Rightarrow> string" where
  "spec_key j = int_string (jb_principal j) @ '':'' @ jb_spec j"

lemma new_job_simps [simp]:
  "jb_id (new_job i spec a p now ex) = i" "jb_spec (new_job i spec a p now ex) = spec"
  "jb_principal (new_job i spec a p now ex) = fst p" "jb_status (new_job i spec a p now ex) = JobOpened"
  by (simp_all add: new_job_def)

definition spec_free :: "string \<Rightarrow> jobs \<Rightarrow> bool" where
  "spec_free key s \<longleftrightarrow> (\<forall>i j. jm_get (js_bySpec s) key = Some i \<longrightarrow> i \<noteq> [] \<longrightarrow> jm_get (js_rows s) i = Some j \<longrightarrow>
     \<not> job_live (jb_status j))"

definition opens :: "a2a_io \<Rightarrow> int \<Rightarrow> jobs \<Rightarrow> jobs \<Rightarrow> bool" where
  "opens io now s s' \<longleftrightarrow> s' = s \<or> (\<exists>spec a p ex j. j = new_job (''a2ajob-'' @ io_job_nonce io) spec a p now ex \<and>
     spec_free (spec_key j) s \<and> s' = opened_jobs (spec_key j) j s)"

lemma insert_opens:
  assumes "spec_free key (as_jobs st)" "key = int_string (fst p) @ '':'' @ spec"
  shows "opens io now (as_jobs st) (as_jobs (fst (job_open_insert v st io now key spec a p given ex)))"
proof (cases "given \<noteq> [] \<and> ee_dateParse v given = None")
  case False
  define j where "j = new_job (''a2ajob-'' @ io_job_nonce io) spec a p now ex"
  have k: "key = spec_key j" by (simp add: assms(2) spec_key_def j_def)
  have "as_jobs (fst (job_open_insert v st io now key spec a p given ex)) = opened_jobs key j (as_jobs st)"
    using False by (auto simp: job_open_insert_def opened_jobs_def j_def Let_def)
  with assms(1) k j_def show ?thesis unfolding opens_def by metis
qed (simp add: job_open_insert_def opens_def)

lemma parties_principal: "normalizeParties parties n = Inr p \<Longrightarrow> num_string n = int_string (fst p)"
  by (auto simp: normalizeParties_def Let_def num_int_def num_same_def split: if_splits option.splits jsnum.splits)

lemma spec_freeI:
  "(\<And>i j. jm_get (js_bySpec s) key = Some i \<Longrightarrow> i \<noteq> [] \<Longrightarrow> jm_get (js_rows s) i = Some j \<Longrightarrow>
     \<not> job_live (jb_status j)) \<Longrightarrow> spec_free key s"
  by (simp add: spec_free_def)

lemma existing_free:
  "(\<And>j. existing_job s key = Some j \<Longrightarrow> \<not> job_live (jb_status j)) \<Longrightarrow> spec_free key s"
  by (auto simp: existing_job_def spec_free_def)

lemma opens_refl [simp]: "opens io now s s"
  by (simp add: opens_def)

lemma open_opens: "opens io now (as_jobs st) (as_jobs (fst (job_open v st io now x)))"
proof (cases "job_normalizeHash (ai_spec x)")
  case (Some spec)
  show ?thesis
  proof (cases "normalizeParties (ai_parties x) (js_Number (ai_agent x))")
    case (Inr p)
    let ?key = "num_string (js_Number (ai_agent x)) @ '':'' @ spec"
    note eff = insert_opens [OF _ arg_cong [OF parties_principal [OF Inr], of "\<lambda>t. t @ '':'' @ spec"]]
    have f: "existing_job (as_jobs st) ?key = None \<Longrightarrow> spec_free ?key (as_jobs st)"
      "existing_job (as_jobs st) ?key = Some j \<Longrightarrow> \<not> job_live (jb_status j) \<Longrightarrow> spec_free ?key (as_jobs st)" for j
      using existing_free [of "as_jobs st" ?key] by auto
    show ?thesis
      using f Some Inr eff by (simp add: job_open_def Let_def split: option.split)
  qed (simp add: job_open_def Some Let_def)
qed (simp add: job_open_def Let_def)

lemma dispatch_moves:
  assumes "jobs_ok (as_jobs st)" "jm_get (js_rows (as_jobs st)) (jb_id j) = Some j"
  shows "jobs_move (as_jobs st) (as_jobs (fst (job_dispatch v st io now x action j)))"
  using effect_moves [OF dispatch_effect assms(2)] .

text \<open>One request: the rows move, or one is opened.\<close>

lemma handle_effect:
  assumes "jobs_ok (as_jobs st)"
  shows "jobs_move (as_jobs st) (as_jobs (fst (handleA2aJobAction v st io now x))) \<or>
    opens io now (as_jobs st) (as_jobs (fst (handleA2aJobAction v st io now x)))"
proof -
  let ?a = "lower_text (ai_action x)"
  define m where "m = (if ?a = ''status'' then ''job_id required for status'' else ''job_id required'')"
  obtain st1 r where row: "job_row v st io now x m = (st1, r)" by (cases "job_row v st io now x m")
  have mv: "jobs_move (as_jobs st) (as_jobs st1)" using job_row_moves [OF assms, of v io now x m] row by simp
  note ok1 = jobs_ok_move [OF assms mv]
  consider "?a \<notin> set job_actions" | "?a = ''open''" | "?a \<in> set job_actions" "?a \<noteq> ''open''" by auto
  then show ?thesis
  proof cases
    case 3
    have h: "handleA2aJobAction v st io now x = (case r of Inl q \<Rightarrow> (st1, q)
        | Inr j \<Rightarrow> if ?a = ''status'' then (st1, Some (JobView j)) else job_dispatch v st1 io now x ?a j)"
      using 3 row m_def by (auto simp: handleA2aJobAction_def Let_def split: sum.split)
    have "jobs_move (as_jobs st) (as_jobs (fst (job_dispatch v st1 io now x ?a j)))" if "r = Inr j" for j
      using jobs_move_trans [OF mv dispatch_moves [OF ok1 job_row_found [OF assms, of v io now x m]]] row that by simp
    with h mv show ?thesis by (auto split: sum.split)
  qed (simp_all add: handleA2aJobAction_def Let_def open_opens job_actions_def)
qed

lemma opened_jobs_get:
  "jm_get (js_rows (opened_jobs k j s)) i = (if i = jb_id j then Some j else jm_get (js_rows s) i)"
  "jm_get (js_bySpec (opened_jobs k j s)) k' = (if k' = k then Some (jb_id j) else jm_get (js_bySpec s) k')"
  by (simp_all add: opened_jobs_def jsmap_simps)

lemma job_next_key: "job_next j j' \<Longrightarrow> spec_key j' = spec_key j"
  by (erule job_nextE) (simp_all add: job_changes spec_key_def)

lemma job_nexts_key: "job_next\<^sup>*\<^sup>* j j' \<Longrightarrow> spec_key j' = spec_key j"
  by (induction rule: rtranclp_induct) (auto dest: job_next_key)

lemma job_nexts_live: "job_next\<^sup>*\<^sup>* j j' \<Longrightarrow> job_live (jb_status j') \<Longrightarrow> job_live (jb_status j)"
  using closed_no_next by blast

text \<open>The index by specification names every live row.\<close>

definition specs_ok :: "jobs \<Rightarrow> bool" where
  "specs_ok s \<longleftrightarrow> (\<forall>i j. jm_get (js_rows s) i = Some j \<longrightarrow> i \<noteq> [] \<and>
     (job_live (jb_status j) \<longrightarrow> jm_get (js_bySpec s) (spec_key j) = Some i))"

lemma specs_okD:
  "specs_ok s \<Longrightarrow> jm_get (js_rows s) i = Some j \<Longrightarrow> i \<noteq> [] \<and>
     (job_live (jb_status j) \<longrightarrow> jm_get (js_bySpec s) (spec_key j) = Some i)"
  by (simp add: specs_ok_def)

lemma jobs_moveD:
  assumes "jobs_move s s'" "jm_get (js_rows s') i = Some j'"
  shows "\<exists>j. jm_get (js_rows s) i = Some j \<and> job_next\<^sup>*\<^sup>* j j'"
proof -
  from assms(1) have "row_moves (jm_get (js_rows s) i) (jm_get (js_rows s') i)" by (simp add: jobs_move_def)
  with assms(2) show ?thesis by (cases "jm_get (js_rows s) i") (auto simp: row_moves_def)
qed

lemma specs_ok_move:
  assumes "specs_ok s" "jobs_move s s'"
  shows "specs_ok s'"
  unfolding specs_ok_def
proof (intro allI impI)
  fix i j'
  assume "jm_get (js_rows s') i = Some j'"
  from jobs_moveD [OF assms(2) this] obtain j where j: "jm_get (js_rows s) i = Some j" "job_next\<^sup>*\<^sup>* j j'" by blast
  from assms(2) have "js_bySpec s' = js_bySpec s" by (simp add: jobs_move_def)
  with specs_okD [OF assms(1) j(1)] job_nexts_key [OF j(2)] job_nexts_live [OF j(2)]
  show "i \<noteq> [] \<and> (job_live (jb_status j') \<longrightarrow> jm_get (js_bySpec s') (spec_key j') = Some i)" by auto
qed

lemma specs_ok_open:
  assumes "specs_ok s" "spec_free (spec_key j) s" "jb_id j \<noteq> []"
  shows "specs_ok (opened_jobs (spec_key j) j s)"
  unfolding specs_ok_def
proof (intro allI impI)
  fix i k
  assume k: "jm_get (js_rows (opened_jobs (spec_key j) j s)) i = Some k"
  show "i \<noteq> [] \<and> (job_live (jb_status k) \<longrightarrow> jm_get (js_bySpec (opened_jobs (spec_key j) j s)) (spec_key k) = Some i)"
  proof (cases "i = jb_id j")
    case False
    with k have g: "jm_get (js_rows s) i = Some k" by (simp add: opened_jobs_get)
    from specs_okD [OF assms(1) g] assms(2) g have "spec_key k \<noteq> spec_key j \<or> \<not> job_live (jb_status k)"
      by (auto simp: spec_free_def)
    with specs_okD [OF assms(1) g] show ?thesis by (auto simp: opened_jobs_get)
  qed (use k assms(3) in \<open>simp add: opened_jobs_get\<close>)
qed

definition jobs_inv :: "jobs \<Rightarrow> bool" where
  "jobs_inv s \<longleftrightarrow> jobs_ok s \<and> specs_ok s"

lemma jobs_ok_open: "jobs_ok s \<Longrightarrow> job_ok (jb_id j) j \<Longrightarrow> jobs_ok (opened_jobs k j s)"
  by (simp add: jobs_ok_def opened_jobs_get)

lemma opens_inv:
  assumes "opens io now s s'" "jobs_inv s"
  shows "jobs_inv s'"
proof (cases "s' = s")
  case False
  with assms(1) obtain spec a p ex j where j: "j = new_job (''a2ajob-'' @ io_job_nonce io) spec a p now ex"
    and f: "spec_free (spec_key j) s" and s': "s' = opened_jobs (spec_key j) j s"
    unfolding opens_def by blast
  from j have "jb_id j \<noteq> []" "job_ok (jb_id j) j" by (simp_all add: job_ok_new)
  with assms(2) f show ?thesis by (simp add: jobs_inv_def s' specs_ok_open jobs_ok_open)
qed (use assms(2) in simp)

lemma handle_inv: "jobs_inv (as_jobs st) \<Longrightarrow> jobs_inv (as_jobs (fst (handleA2aJobAction v st io now x)))"
  using handle_effect [of st v io now x] opens_inv jobs_ok_move specs_ok_move
  by (auto simp: jobs_inv_def)

section \<open>Runs of requests\<close>

definition a2a_request :: "esc_env \<Rightarrow> a2a_state \<Rightarrow> a2a_io \<times> int \<times> a2a_input \<Rightarrow> a2a_state" where
  "a2a_request v st r = fst (handleA2aJobAction v st (fst r) (fst (snd r)) (snd (snd r)))"

definition no_jobs :: jobs where
  "no_jobs = \<lparr>js_rows = [], js_bySpec = []\<rparr>"

lemma no_jobs_inv: "jobs_inv no_jobs"
  by (simp add: jobs_inv_def jobs_ok_def specs_ok_def no_jobs_def)

interpretation job_rows: invariant_run "a2a_request v" "\<lambda>st. jobs_inv (as_jobs st)" "\<lambda>_. True" for v
  by unfold_locales (simp add: a2a_request_def handle_inv)

lemma run_jobs_inv: "as_jobs st = no_jobs \<Longrightarrow> jobs_inv (as_jobs (foldl (a2a_request v) st rs))"
  by (rule job_rows.run_inv) (simp_all add: no_jobs_inv list_all_iff)

definition closed_job_row :: "string \<Rightarrow> job \<Rightarrow> a2a_state \<Rightarrow> bool" where
  "closed_job_row i c st \<longleftrightarrow> jobs_inv (as_jobs st) \<and> jm_get (js_rows (as_jobs st)) i = Some c \<and>
     \<not> job_live (jb_status c)"

lemma closed_job_step:
  assumes "closed_job_row i c st" "''a2ajob-'' @ io_job_nonce (fst r) \<noteq> i"
  shows "closed_job_row i c (a2a_request v st r)"
proof -
  obtain io now x where r: "r = (io, now, x)" by (cases r) auto
  let ?s = "as_jobs st" and ?s' = "as_jobs (fst (handleA2aJobAction v st io now x))"
  from assms(1) have i: "jobs_inv ?s" and g: "jm_get (js_rows ?s) i = Some c" and c: "\<not> job_live (jb_status c)"
    by (simp_all add: closed_job_row_def)
  from i have "jobs_ok ?s" by (simp add: jobs_inv_def)
  from handle_effect [OF this, of v io now x] have "jm_get (js_rows ?s') i = Some c"
  proof
    assume "jobs_move ?s ?s'"
    then have "row_moves (jm_get (js_rows ?s) i) (jm_get (js_rows ?s') i)" by (simp add: jobs_move_def)
    with g closed_no_next c show ?thesis by (auto simp: row_moves_def)
  next
    assume "opens io now ?s ?s'"
    with g assms(2) r show ?thesis by (auto simp: opens_def opened_jobs_get)
  qed
  with handle_inv [OF i] c r show ?thesis by (simp add: closed_job_row_def a2a_request_def)
qed

interpretation closed_job: invariant_run "a2a_request v" "closed_job_row i c"
    "\<lambda>r. ''a2ajob-'' @ io_job_nonce (fst r) \<noteq> i" for v i c
  by unfold_locales (rule closed_job_step)

text \<open>An accepted release went through the escrow.\<close>

lemma after_escrow_ok:
  assumes "after_escrow f ph io j p = (st', Some (JobOk j' ph'))"
  obtains r where "snd p = Some r" "f r = Some j'" "st' = put_job j' (fst p)"
  using assms by (auto simp: after_escrow_def split: option.splits if_splits)

lemma released_resultD: "released_result now j r = Some j' \<Longrightarrow>
    \<exists>e k. r = EscReleased e k \<and> j' = closed_job JobReleased ''release'' [] now j"
  by (cases r) auto

lemma commit_released:
  assumes "escrow_release_commit v s ok now i en rc = (s', Some (EscReleased e k))"
  shows "\<exists>e0. jm_get (ec_rows s) i = Some e0 \<and> s' = put_escrow e s \<and> e = released_escrow now k e0"
  using assms
  by (auto simp: escrow_release_commit_def Let_def split: option.splits prod.splits sum.splits if_splits)

lemma release_text: "lower_text (JStr ''release'') = ''release''"
  by code_simp

lemma guard_ask:
  assumes "escrows_ok s" "escrow_guard v s ok now x = (s1, Inr e)" "ei_escrow x = JStr i" "i \<noteq> []"
  shows "es_id e = i"
proof -
  from assms(2) obtain e0 where l: "escrow_lookup s x = Inr e0"
    by (auto simp: escrow_guard_def split: sum.splits)
  with assms(3,4) have "jm_get (ec_rows s) i = Some e0"
    by (auto simp: escrow_lookup_def Let_def split: option.splits if_splits)
  with escrows_okD [OF assms(1)] have "es_id e0 = i" by blast
  moreover have "es_id e = es_id e0"
    using assms(2) l touchExpiry_cases [of v s ok now e0]
    by (auto simp: escrow_guard_def prod_eq_iff touchExpiry_def split: option.splits if_splits)
  ultimately show ?thesis by simp
qed

lemma release_call:
  assumes "escrows_ok (bs_escrows st)" "ei_action x = JStr ''release''" "ei_escrow x = JStr i" "i \<noteq> []"
    and "snd (handleEscrowAction v st io now x) = Some (EscReleased e k)"
  shows "jm_get (ec_rows (bs_escrows (fst (handleEscrowAction v st io now x)))) i = Some e \<and> es_status e = EscrowReleased"
proof -
  obtain s1 r where g: "escrow_guard v (bs_escrows st) (io_touch io) now x = (s1, r)"
    by (cases "escrow_guard v (bs_escrows st) (io_touch io) now x")
  show ?thesis
  proof (cases r)
    case (Inr e0)
    define c where "c = escrow_release_commit v s1 (io_save io) now (es_id e0)
      (bd_findByTask (ee_book v) (es_task e0)) (loaded_receipt (ee_book v) (es_task e0))"
    have h: "handleEscrowAction v st io now x = (st\<lparr>bs_escrows := fst c\<rparr>, snd c)"
      using g Inr by (simp add: handleEscrowAction_def assms(2) release_text Let_def c_def)
    with assms(5) have c: "c = (fst c, Some (EscReleased e k))" by (simp add: prod_eq_iff)
    have "\<exists>e1. jm_get (ec_rows s1) (es_id e0) = Some e1 \<and> fst c = put_escrow e s1 \<and> e = released_escrow now k e1"
      by (rule commit_released [of v s1 "io_save io" now "es_id e0"
          "bd_findByTask (ee_book v) (es_task e0)" "loaded_receipt (ee_book v) (es_task e0)"])
        (fold c_def, rule c)
    with guard_ask [OF assms(1) g [unfolded Inr] assms(3,4)]
    obtain e1 where "jm_get (ec_rows s1) i = Some e1" "fst c = put_escrow e s1" "e = released_escrow now k e1" by blast
    moreover have "es_id e1 = i" using escrows_okD [OF guard_store_ok [OF assms(1) g]] calculation(1) by blast
    ultimately show ?thesis using h by (simp add: put_escrow_def jsmap_simps)
  next
    case (Inl q)
    from assms(5) g have "q = Some (EscReleased e k)"
      by (simp add: handleEscrowAction_def assms(2) release_text Let_def Inl)
    moreover have "q \<noteq> Some (EscReleased e k)"
      using g Inl by (auto simp: escrow_guard_def split: sum.splits option.splits if_splits)
    ultimately show ?thesis by simp
  qed
qed

lemma job_release_reply:
  assumes "escrows_ok (bs_escrows st)" "job_release v st io now j = (st', Some (JobOk j' ''release''))"
  shows "\<exists>i e. jb_escrow j' = Some i \<and> jm_get (ec_rows (bs_escrows st')) i = Some e \<and> es_status e = EscrowReleased"
proof -
  from assms(2) obtain i where i: "jb_escrow j = Some i" "i \<noteq> []" and a: "after_escrow (released_result now j) ''release'' io j
      (escrow_call v st io now ((esc_ask ''release'' (jb_principal j))\<lparr>ei_escrow := JStr i\<rparr>)) = (st', Some (JobOk j' ''release''))"
    by (auto simp: job_release_def split: option.splits)
  define x where "x = (esc_ask ''release'' (jb_principal j))\<lparr>ei_escrow := JStr i\<rparr>"
  from a obtain r where r: "snd (escrow_call v st io now x) = Some r" "released_result now j r = Some j'"
    "st' = put_job j' (fst (escrow_call v st io now x))" unfolding x_def by (rule after_escrow_ok)
  from released_resultD [OF r(2)] obtain e k where e: "r = EscReleased e k" "jb_escrow j' = Some i"
    by (auto simp: closed_job_def i)
  have "bs_escrows (book_state.truncate st) = bs_escrows st" by (simp add: book_state.truncate_def)
  with release_call [of "book_state.truncate st" x i v "esc_io.truncate io" now e k] assms(1) i r e
  show ?thesis by (auto simp: escrow_call_def x_def esc_ask_def put_job_def case_prod_beta)
qed

lemma release_request:
  assumes "jobs_ok (as_jobs st)" "escrows_ok (bs_escrows st)" "lower_text (ai_action x) = ''release''"
    and "handleA2aJobAction v st io now x = (st', Some (JobOk j' ph))"
  shows "\<exists>st1 j. bs_escrows st1 = bs_escrows st \<and> job_release v st1 io now j = (st', Some (JobOk j' ''release''))"
proof -
  obtain st1 r where row: "job_row v st io now x ''job_id required'' = (st1, r)"
    by (cases "job_row v st io now x ''job_id required''")
  have h: "handleA2aJobAction v st io now x = (case r of Inl q \<Rightarrow> (st1, q)
        | Inr j \<Rightarrow> job_dispatch v st1 io now x ''release'' j)"
    using row assms(3) by (auto simp: handleA2aJobAction_def job_actions_def Let_def split: sum.split)
  have esc: "bs_escrows st1 = bs_escrows st"
    using row by (auto simp: job_row_def touch_job_def put_job_def split: if_splits option.splits)
  have "r \<noteq> Inl (Some (JobOk j' ph))"
    using row by (auto simp: job_row_def split: if_splits option.splits)
  with h assms(4) obtain j where "job_dispatch v st1 io now x ''release'' j = (st', Some (JobOk j' ph))"
    by (auto split: sum.splits)
  then have "job_release v st1 io now j = (st', Some (JobOk j' ph))"
    by (simp add: job_dispatch_def split: if_splits)
  moreover from this have "ph = ''release''"
    by (auto simp: job_release_def after_escrow_def split: option.splits if_splits)
  ultimately show ?thesis using esc by blast
qed

section \<open>Properties\<close>

text \<open>A market of one principal and one task, on which the properties are evaluated.\<close>

definition market_env :: esc_env where
  "market_env = \<lparr>ee_book = \<lparr>bd_findByTask = (\<lambda>t. Some (JObj [(''collected'', JBool True),
       (''agent_id'', JNum (JInt 7)), (''amount'', JStr ''50''), (''payment_ref'', JStr ''p1'')])),
       bd_entries = [], bd_loadReceipt = Some (\<lambda>t. Some (JObj [(''proof'', JObj [(''tier'', JStr ''settlement'')])])),
       bd_verifyReceipt = None\<rparr>,
     ee_settlementOn = True, ee_dateParse = (\<lambda>t. Some 1000), ee_baseUrl = []\<rparr>"

definition job_ask :: "string \<Rightarrow> a2a_input" where
  "job_ask action = \<lparr>ai_action = JStr action, ai_agent = JNum (JInt 7), ai_job = JStr ''a2ajob-01'',
     ai_spec = JStr (replicate 64 (CHR ''a'')), ai_amount = JStr ''50'',
     ai_parties = JObj [(''principal'', JNum (JInt 7)), (''counterparty'', JNum (JInt 8))],
     ai_expires = JStr ''later'', ai_task = JStr ''t1'', ai_fulfillment_receipt = JUndef,
     ai_fulfillment_task = JUndef, ai_output_commitment = JUndef, ai_output_hash = JUndef,
     ai_claim = JUndef, ai_evidence = JUndef\<rparr>"

definition job_io :: "string \<Rightarrow> a2a_io" where
  "job_io n = \<lparr>io_touch = True, io_save = True, io_dispute = (True, True), io_nonce = n,
     io_dispute_nonce = n, io_job_touch = True, io_job_save = True, io_escrow_patch = True, io_job_nonce = n\<rparr>"

definition job_market :: a2a_state where
  "job_market = \<lparr>bs_escrows = no_escrows, bs_disputes = no_disputes, as_jobs = no_jobs\<rparr>"

definition market_opened :: a2a_state where
  "market_opened = a2a_request market_env job_market (job_io ''01'', 5, job_ask ''open'')"

definition market_funded :: a2a_state where
  "market_funded = a2a_request market_env market_opened (job_io ''02'', 6, job_ask ''fund'')"

definition market_expired :: a2a_state where
  "market_expired = a2a_request market_env market_opened (job_io ''02'', 1000, job_ask ''status'')"

definition job_01 :: "a2a_state \<Rightarrow> job" where
  "job_01 st = the (jm_get (js_rows (as_jobs st)) ''a2ajob-01'')"

lemma market_opened_row:
  "jm_get (js_rows (as_jobs market_opened)) ''a2ajob-01'' = Some (job_01 market_opened) \<and>
   jb_status (job_01 market_opened) = JobOpened"
proof -
  have "map_option jb_status (jm_get (js_rows (as_jobs market_opened)) ''a2ajob-01'') = Some JobOpened" by code_simp
  then show ?thesis by (auto simp: job_01_def)
qed

lemma market_expired_row:
  "jm_get (js_rows (as_jobs market_expired)) ''a2ajob-01'' = Some (job_01 market_expired) \<and>
   jb_status (job_01 market_expired) = JobExpired"
proof -
  have "map_option jb_status (jm_get (js_rows (as_jobs market_expired)) ''a2ajob-01'') = Some JobExpired" by code_simp
  then show ?thesis by (auto simp: job_01_def)
qed

lemma job_market_start: "as_jobs job_market = no_jobs"
  by (simp add: job_market_def)

lemma market_opened_run: "market_opened = foldl (a2a_request market_env) job_market [(job_io ''01'', 5, job_ask ''open'')]"
  by (simp add: market_opened_def)

lemma market_expired_run: "market_expired = foldl (a2a_request market_env) job_market
    [(job_io ''01'', 5, job_ask ''open''), (job_io ''02'', 1000, job_ask ''status'')]"
  by (simp add: market_expired_def market_opened_def)



text \<open>
  After any requests on an empty job store, a principal never has two live jobs for
  one specification, no job was challenged more than three times, and a job that is funded,
  submitted, challenged or closed by its principal has its task and its escrow.
\<close>

theorem job_store_sound:
  assumes "as_jobs st = no_jobs" "s = as_jobs (foldl (a2a_request v) st rs)" "jm_get (js_rows s) i = Some j"
  shows "jb_id j = i \<and> jb_challenges j \<le> MAX_CHALLENGES_PER_JOB \<and>
    (jb_status j \<notin> {JobOpened, JobExpired} \<longrightarrow> jb_task j \<noteq> None \<and> jb_escrow j \<noteq> None) \<and>
    (\<forall>i' j'. jm_get (js_rows s) i' = Some j' \<and> jb_principal j' = jb_principal j \<and> jb_spec j' = jb_spec j \<and>
       job_live (jb_status j) \<and> job_live (jb_status j') \<longrightarrow> i' = i)"
proof -
  have "jobs_inv s" using run_jobs_inv [OF assms(1)] assms(2) by simp
  then have ok: "jobs_ok s" "specs_ok s" by (simp_all add: jobs_inv_def)
  have "i' = i" if "jm_get (js_rows s) i' = Some j'" "spec_key j' = spec_key j"
      "job_live (jb_status j)" "job_live (jb_status j')" for i' j'
    using specs_okD [OF ok(2) assms(3)] specs_okD [OF ok(2) that(1)] that by simp
  with jobs_okD [OF ok(1) assms(3)] show ?thesis by (auto simp: job_ok_def job_bound_def spec_key_def)
qed

theorem job_store_sound_witness:
  "jb_id (job_01 market_opened) = ''a2ajob-01'' \<and> jb_challenges (job_01 market_opened) \<le> 3"
proof -
  from market_opened_row have "jm_get (js_rows (as_jobs market_opened)) ''a2ajob-01'' = Some (job_01 market_opened)" by blast
  from job_store_sound [OF job_market_start arg_cong [OF market_opened_run, of as_jobs] this] show ?thesis
    by (simp add: MAX_CHALLENGES_PER_JOB_def)
qed

text \<open>
  A released, clawed back or expired job never changes again, whatever is requested
  later, unless a later opening draws its random id.
\<close>

theorem closed_job_final:
  assumes "as_jobs st = no_jobs" "jm_get (js_rows (as_jobs (foldl (a2a_request v) st rs))) i = Some c"
    and "jb_status c \<in> {JobReleased, JobClawedBack, JobExpired}"
    and "list_all (\<lambda>r. ''a2ajob-'' @ io_job_nonce (fst r) \<noteq> i) later"
  shows "jm_get (js_rows (as_jobs (foldl (a2a_request v) st (rs @ later)))) i = Some c"
  using closed_job.run_inv [of i c "foldl (a2a_request v) st rs" later v] run_jobs_inv [OF assms(1)] assms(2-4)
  by (auto simp: closed_job_row_def job_live_def)

theorem closed_job_final_witness:
  "jm_get (js_rows (as_jobs (foldl (a2a_request market_env) job_market
     ([(job_io ''01'', 5, job_ask ''open''), (job_io ''02'', 1000, job_ask ''status'')] @
      [(job_io ''03'', 1001, job_ask ''fund''), (job_io ''04'', 1002, job_ask ''challenge'')])))) ''a2ajob-01'' =
   Some (job_01 market_expired)"
proof (rule closed_job_final [OF job_market_start])
  show "jm_get (js_rows (as_jobs (foldl (a2a_request market_env) job_market
      [(job_io ''01'', 5, job_ask ''open''), (job_io ''02'', 1000, job_ask ''status'')]))) ''a2ajob-01'' =
    Some (job_01 market_expired)"
    using market_expired_row market_expired_run by simp
qed (use market_expired_row in \<open>simp_all add: job_io_def\<close>)

text \<open>
  When a release of a job is answered as done, the escrow of that job is released in
  the store.
\<close>

theorem job_release_releases_escrow:
  assumes "jobs_inv (as_jobs st)" "escrows_ok (bs_escrows st)" "lower_text (ai_action x) = ''release''"
    and "handleA2aJobAction v st io now x = (st', Some (JobOk j ph))"
  shows "\<exists>i e. jb_escrow j = Some i \<and> jm_get (ec_rows (bs_escrows st')) i = Some e \<and> es_status e = EscrowReleased"
proof -
  from assms(1) have "jobs_ok (as_jobs st)" by (simp add: jobs_inv_def)
  from release_request [OF this assms(2-4)] obtain st1 j0 where st1: "bs_escrows st1 = bs_escrows st"
    "job_release v st1 io now j0 = (st', Some (JobOk j ''release''))" by blast
  show ?thesis by (rule job_release_reply [OF _ st1(2)]) (simp add: st1(1) assms(2))
qed

lemma market_release:
  "case handleA2aJobAction market_env market_funded (job_io ''03'') 7 (job_ask ''release'') of
     (s, Some (JobOk j p)) \<Rightarrow> True | _ \<Rightarrow> False"
  by code_simp

lemma market_funded_escrows: "escrows_ok (bs_escrows market_funded)"
proof -
  have "map (\<lambda>r. (fst r, es_id (snd r), es_task (snd r))) (ec_rows (bs_escrows market_funded)) =
      [(''escrow-02'', ''escrow-02'', ''t1'')]"
    "jm_get (ec_byTask (bs_escrows market_funded)) ''t1'' = Some ''escrow-02''"
    by code_simp+
  then show ?thesis by (auto simp: escrows_ok_def split: if_splits)
qed

theorem job_release_releases_escrow_witness:
  "\<exists>i e. jm_get (ec_rows (bs_escrows (fst (handleA2aJobAction market_env market_funded (job_io ''03'') 7
     (job_ask ''release''))))) i = Some e \<and> es_status e = EscrowReleased"
proof -
  obtain st' j p where r: "handleA2aJobAction market_env market_funded (job_io ''03'') 7 (job_ask ''release'') = (st', Some (JobOk j p))"
    using market_release by (auto split: prod.splits option.splits a2a_reply.splits)
  have "market_funded = foldl (a2a_request market_env) job_market
      [(job_io ''01'', 5, job_ask ''open''), (job_io ''02'', 6, job_ask ''fund'')]"
    by (simp add: market_funded_def market_opened_def)
  then have inv: "jobs_inv (as_jobs market_funded)" by (metis run_jobs_inv [OF job_market_start])
  have "lower_text (ai_action (job_ask ''release'')) = ''release''" by (simp add: job_ask_def release_text)
  from job_release_releases_escrow [OF inv market_funded_escrows this r] r show ?thesis by auto
qed

end
