(* ===== verification/X402_Challenge.thy ===== *)
theory X402_Challenge
  imports Js_Store Js_Values
begin

text \<open>
  services/gateway/src/x402-adapter.js, \<open>ChallengeStore\<close>: the payment challenges (issued,
  claimed, submitted, spent, unknown) with their leases, the spent marks of nonces,
  authorizations and transfers, and the leases on a transfer that is being confirmed.
  Times are arguments. A record keeps the fields that the store reads; the quote fields of a
  caller are \<open>ch_data\<close>. Absent, null and empty texts are \<open>[]\<close> or \<open>None\<close>, as the guards treat
  them alike. The durable store runs each of these operations on its file under one lock.
\<close>

section \<open>Records\<close>

record challenge =
  ch_nonce :: string
  ch_expires :: int
  ch_state :: string
  ch_owner :: "string option"
  ch_until :: "int option"
  ch_payment_hash :: "string option"
  ch_settlement :: jsval
  ch_data :: "(string, jsval) jsmap"

record tx_lease =
  tl_owner :: string
  tl_until :: int
  tl_auth :: string

record auth_lease =
  al_owner :: string
  al_until :: int
  al_key :: string

record x402 =
  xs_ttl :: int
  xs_map :: "(string, challenge) jsmap"
  xs_spent :: "string list"
  xs_authSpent :: "(string, jsval) jsmap"
  xs_txSpent :: "string list"
  xs_txFacts :: "(string, jsval) jsmap"
  xs_txReserved :: "(string, tx_lease) jsmap"
  xs_authReserved :: "(string, auth_lease) jsmap"

definition empty_x402 :: "int \<Rightarrow> x402" where
  "empty_x402 ttl = \<lparr>xs_ttl = ttl, xs_map = [], xs_spent = [], xs_authSpent = [], xs_txSpent = [],
     xs_txFacts = [], xs_txReserved = [], xs_authReserved = []\<rparr>"

definition nonceVariants :: "string \<Rightarrow> string list" where
  "nonceVariants n =
     (let t = js_trim n
      in if n = [] then []
         else if take 2 t = ''0x'' then [t, drop 2 t]
         else [t, ''0x'' @ replicate (64 - length t) (CHR ''0'') @ t])"

fun find_key :: "(string, challenge) jsmap \<Rightarrow> string list \<Rightarrow> (string \<times> challenge) option" where
  "find_key m [] = None"
| "find_key m (k # ks) = (case jm_get m k of Some r \<Rightarrow> Some (k, r) | None \<Rightarrow> find_key m ks)"

definition ch_find :: "x402 \<Rightarrow> string \<Rightarrow> (string \<times> challenge) option" where
  "ch_find s n = find_key (xs_map s) (nonceVariants n)"

definition put_rec :: "string \<Rightarrow> challenge \<Rightarrow> x402 \<Rightarrow> x402" where
  "put_rec k r s = s\<lparr>xs_map := jm_set k r (xs_map s)\<rparr>"

section \<open>The life of a challenge\<close>

definition kept_state :: "string \<Rightarrow> bool" where
  "kept_state t \<longleftrightarrow> t \<in> {''spent'', ''unknown'', ''claimed'', ''submitted''}"

definition ch_gc :: "int \<Rightarrow> x402 \<Rightarrow> x402" where
  "ch_gc now s = s\<lparr>xs_map := filter (\<lambda>(k, r). kept_state (ch_state r) \<or> \<not> ch_expires r < now) (xs_map s)\<rparr>"

definition truthy_int :: "int option \<Rightarrow> int option" where
  "truthy_int i = (case i of None \<Rightarrow> None | Some x \<Rightarrow> if x = 0 then None else Some x)"

text \<open>\<open>put\<close>: the caller's fields, with the nonce, the expiry and the state set.\<close>

definition ch_put :: "x402 \<Rightarrow> int \<Rightarrow> string \<Rightarrow> int option \<Rightarrow> string \<Rightarrow> challenge \<Rightarrow> x402 \<times> challenge" where
  "ch_put s now n expires st data =
     (let s1 = ch_gc now s;
          prev = (case jm_get (xs_map s1) n of Some p \<Rightarrow> truthy_int (Some (ch_expires p)) | None \<Rightarrow> None);
          ex = (case truthy_int expires of Some x \<Rightarrow> x
                | None \<Rightarrow> (case prev of Some x \<Rightarrow> x | None \<Rightarrow> now + xs_ttl s1));
          r = data\<lparr>ch_nonce := n, ch_expires := ex, ch_state := (if st = [] then ''issued'' else st)\<rparr>
      in (put_rec n r s1, r))"

text \<open>\<open>patch\<close>, for fields outside the life of the challenge.\<close>

definition ch_patch :: "x402 \<Rightarrow> string \<Rightarrow> (string \<times> jsval) list \<Rightarrow> x402 \<times> challenge option" where
  "ch_patch s n fs =
     (case ch_find s n of
        None \<Rightarrow> (s, None)
      | Some (k, r) \<Rightarrow>
          (let r' = r\<lparr>ch_data := foldl (\<lambda>m (f, v). jm_set f v m) (ch_data r) fs\<rparr>
           in (put_rec k r' s, Some r')))"

definition lease_over :: "int \<Rightarrow> challenge \<Rightarrow> bool" where
  "lease_over now r \<longleftrightarrow> (case truthy_int (ch_until r) of None \<Rightarrow> False | Some u \<Rightarrow> u < now)"

definition unknown_rec :: "challenge \<Rightarrow> challenge" where
  "unknown_rec r = r\<lparr>ch_state := ''unknown''\<rparr>"

definition ch_get :: "x402 \<Rightarrow> int \<Rightarrow> string \<Rightarrow> x402 \<times> challenge option" where
  "ch_get s now n =
     (case ch_find s n of
        None \<Rightarrow> (s, None)
      | Some (k, r) \<Rightarrow>
          if ch_state r = ''spent'' then (s, None)
          else if ch_state r = ''unknown'' \<or> ch_state r = ''submitted'' then (s, Some r)
          else if ch_state r = ''claimed'' \<and> lease_over now r
          then (put_rec k (unknown_rec r) s, Some (unknown_rec r))
          else if ch_state r \<noteq> ''claimed'' \<and> ch_state r \<noteq> ''submitted'' \<and> ch_expires r < now
          then (s\<lparr>xs_map := jm_delete k (xs_map s)\<rparr>, None)
          else (s, Some r))"

definition spent_at :: "x402 \<Rightarrow> string \<Rightarrow> bool" where
  "spent_at s k \<longleftrightarrow> k \<in> set (xs_spent s) \<or>
     (case jm_get (xs_map s) k of Some r \<Rightarrow> ch_state r = ''spent'' | None \<Rightarrow> False)"

definition ch_isSpent :: "x402 \<Rightarrow> string \<Rightarrow> bool" where
  "ch_isSpent s n = list_ex (spent_at s) (nonceVariants n)"

definition ch_replayRecord :: "x402 \<Rightarrow> string \<Rightarrow> challenge option" where
  "ch_replayRecord s n =
     (case ch_find s n of Some (k, r) \<Rightarrow> if ch_state r = ''spent'' then Some r else None | None \<Rightarrow> None)"

definition is_object :: "jsval \<Rightarrow> bool" where
  "is_object v = (case v of JObj _ \<Rightarrow> True | JArr _ \<Rightarrow> True | JBytes _ \<Rightarrow> True | _ \<Rightarrow> False)"

definition spent_rec :: "jsval \<Rightarrow> challenge \<Rightarrow> challenge" where
  "spent_rec meta r = r\<lparr>ch_state := ''spent'', ch_settlement := (if is_object meta then meta else ch_settlement r)\<rparr>"

definition mark_key :: "jsval \<Rightarrow> x402 \<Rightarrow> string \<Rightarrow> x402" where
  "mark_key meta s k =
     s\<lparr>xs_spent := List.insert k (xs_spent s),
       xs_map := (case jm_get (xs_map s) k of Some r \<Rightarrow> jm_set k (spent_rec meta r) (xs_map s) | None \<Rightarrow> xs_map s)\<rparr>"

definition ch_markSpent :: "x402 \<Rightarrow> string \<Rightarrow> jsval \<Rightarrow> x402" where
  "ch_markSpent s n meta =
     (if n = [] then s
      else foldl (mark_key meta) (s\<lparr>xs_spent := List.insert n (xs_spent s)\<rparr>) (nonceVariants n))"

datatype claim_reply = Claimed challenge | ClaimRefused string

definition claimed_rec :: "int \<Rightarrow> string \<Rightarrow> int \<Rightarrow> challenge \<Rightarrow> challenge" where
  "claimed_rec now owner lease r = r\<lparr>ch_state := ''claimed'',
     ch_owner := Some (if owner = [] then ''local'' else owner), ch_until := Some (now + lease)\<rparr>"

text \<open>The part of \<open>claim\<close> on the record that was found.\<close>

definition claim_found ::
    "x402 \<Rightarrow> int \<Rightarrow> string \<Rightarrow> int \<Rightarrow> string \<Rightarrow> challenge \<Rightarrow> x402 \<times> claim_reply" where
  "claim_found s now owner lease k r =
     (if ch_state r = ''submitted''
      then (s, ClaimRefused (if lease_over now r then ''settle_unconfirmed'' else ''payment_in_flight''))
      else if ch_state r = ''unknown'' then (s, ClaimRefused ''settle_unconfirmed'')
      else if ch_state r = ''spent'' then (s, ClaimRefused ''payment_replayed'')
      else if ch_state r = ''claimed''
      then (if lease_over now r then (put_rec k (unknown_rec r) s, ClaimRefused ''settle_unconfirmed'')
            else (s, ClaimRefused ''payment_in_flight''))
      else if ch_state r \<noteq> [] \<and> ch_state r \<noteq> ''issued'' then (s, ClaimRefused ''payment_in_flight'')
      else if ch_expires r < now
      then (s\<lparr>xs_map := jm_delete k (xs_map s)\<rparr>, ClaimRefused ''challenge_required'')
      else (let r' = claimed_rec now owner lease r in (put_rec k r' s, Claimed r')))"

definition ch_claim :: "x402 \<Rightarrow> int \<Rightarrow> string \<Rightarrow> string \<Rightarrow> int \<Rightarrow> x402 \<times> claim_reply" where
  "ch_claim s now n owner lease =
     (if ch_isSpent s n then (s, ClaimRefused ''payment_replayed'')
      else case ch_find s n of
          None \<Rightarrow> (s, ClaimRefused ''challenge_required'')
        | Some (k, r) \<Rightarrow> claim_found s now owner lease k r)"

definition ch_noteVerified :: "x402 \<Rightarrow> string \<Rightarrow> string \<Rightarrow> x402 \<times> bool" where
  "ch_noteVerified s n hash =
     (case ch_find s n of
        None \<Rightarrow> (s, False)
      | Some (k, r) \<Rightarrow>
          if ch_state r \<noteq> ''claimed'' \<and> ch_state r \<noteq> ''submitted'' then (s, False)
          else if hash = [] then (s, False)
          else (put_rec k (r\<lparr>ch_payment_hash := Some hash\<rparr>) s, True))"

definition issued_rec :: "challenge \<Rightarrow> challenge" where
  "issued_rec r = r\<lparr>ch_state := ''issued'', ch_owner := None, ch_until := None, ch_payment_hash := None\<rparr>"

definition owner_conflict :: "string \<Rightarrow> challenge \<Rightarrow> bool" where
  "owner_conflict owner r \<longleftrightarrow> owner \<noteq> [] \<and> (case ch_owner r of None \<Rightarrow> False | Some w \<Rightarrow> w \<noteq> [] \<and> w \<noteq> owner)"

definition ch_release :: "x402 \<Rightarrow> string \<Rightarrow> string \<Rightarrow> x402 \<times> bool" where
  "ch_release s n owner =
     (case ch_find s n of
        None \<Rightarrow> (s, False)
      | Some (k, r) \<Rightarrow>
          if ch_state r \<noteq> ''claimed'' then (s, False)
          else if owner_conflict owner r then (s, False)
          else (put_rec k (issued_rec r) s, True))"

definition ch_markUnknown :: "x402 \<Rightarrow> string \<Rightarrow> x402" where
  "ch_markUnknown s n = (case ch_find s n of None \<Rightarrow> s | Some (k, r) \<Rightarrow> put_rec k (unknown_rec r) s)"

definition ch_markSubmitted :: "x402 \<Rightarrow> string \<Rightarrow> x402 \<times> bool" where
  "ch_markSubmitted s n =
     (case ch_find s n of
        None \<Rightarrow> (s, False)
      | Some (k, r) \<Rightarrow>
          if ch_state r \<noteq> ''claimed'' then (s, False)
          else (put_rec k (r\<lparr>ch_state := ''submitted''\<rparr>) s, True))"

definition reverted_rec :: "string \<Rightarrow> challenge \<Rightarrow> challenge" where
  "reverted_rec owner r = r\<lparr>ch_state := ''claimed'',
     ch_owner := (if owner \<noteq> [] then Some owner
                  else case ch_owner r of None \<Rightarrow> Some ''local'' | Some w \<Rightarrow> Some (if w = [] then ''local'' else w))\<rparr>"

definition ch_revertSubmitted :: "x402 \<Rightarrow> string \<Rightarrow> string \<Rightarrow> x402 \<times> bool" where
  "ch_revertSubmitted s n owner =
     (case ch_find s n of
        None \<Rightarrow> (s, False)
      | Some (k, r) \<Rightarrow>
          if ch_state r \<noteq> ''submitted'' then (s, False)
          else ch_release (put_rec k (reverted_rec owner r) s) n owner)"

section \<open>Transfers and authorizations\<close>

definition ch_isAuthSpent :: "x402 \<Rightarrow> string \<Rightarrow> bool" where
  "ch_isAuthSpent s a \<longleftrightarrow> a \<noteq> [] \<and> jm_has (xs_authSpent s) a"

definition ch_markAuthSpent :: "x402 \<Rightarrow> string \<Rightarrow> jsval \<Rightarrow> x402" where
  "ch_markAuthSpent s a ref =
     (if a = [] then s
      else s\<lparr>xs_authSpent := jm_set a (js_or ref (JBool True)) (xs_authSpent s),
             xs_authReserved := jm_delete a (xs_authReserved s)\<rparr>)"

definition ch_isTxSpent :: "x402 \<Rightarrow> string \<Rightarrow> bool" where
  "ch_isTxSpent s key \<longleftrightarrow> key \<noteq> [] \<and> key \<in> set (xs_txSpent s)"

definition ch_markTxSpent :: "x402 \<Rightarrow> string \<Rightarrow> jsval \<Rightarrow> x402" where
  "ch_markTxSpent s key facts =
     (if key = [] then s
      else s\<lparr>xs_txSpent := List.insert key (xs_txSpent s),
             xs_txReserved := jm_delete key (xs_txReserved s),
             xs_authReserved := (case jm_get (xs_txReserved s) key of
                 None \<Rightarrow> xs_authReserved s
               | Some l \<Rightarrow> if tl_auth l = [] then xs_authReserved s else jm_delete (tl_auth l) (xs_authReserved s)),
             xs_txFacts := (if is_object facts then jm_set key facts (xs_txFacts s) else xs_txFacts s)\<rparr>)"

definition tx_blocked :: "x402 \<Rightarrow> string \<Rightarrow> string \<Rightarrow> int \<Rightarrow> bool" where
  "tx_blocked s key owner now \<longleftrightarrow>
     (case jm_get (xs_txReserved s) key of None \<Rightarrow> False | Some l \<Rightarrow> now < tl_until l \<and> tl_owner l \<noteq> owner)"

definition auth_blocked :: "x402 \<Rightarrow> string \<Rightarrow> string \<Rightarrow> string \<Rightarrow> int \<Rightarrow> bool" where
  "auth_blocked s key a owner now \<longleftrightarrow> a \<noteq> [] \<and>
     (case jm_get (xs_authReserved s) a of None \<Rightarrow> False
      | Some l \<Rightarrow> now < al_until l \<and> (al_owner l \<noteq> owner \<or> (al_key l \<noteq> [] \<and> al_key l \<noteq> key)))"

definition lease_end :: "int \<Rightarrow> int \<Rightarrow> int" where
  "lease_end now lease = now + (if 0 < lease then lease else 180000)"

definition ch_reserveTx :: "x402 \<Rightarrow> string \<Rightarrow> string \<Rightarrow> string \<Rightarrow> int \<Rightarrow> int \<Rightarrow> x402 \<times> bool" where
  "ch_reserveTx s key a owner lease now =
     (if key = [] \<or> owner = [] then (s, False)
      else if ch_isTxSpent s key then (s, False)
      else if a \<noteq> [] \<and> ch_isAuthSpent s a then (s, False)
      else if tx_blocked s key owner now then (s, False)
      else if auth_blocked s key a owner now then (s, False)
      else let until = lease_end now lease
        in (s\<lparr>xs_txReserved := jm_set key \<lparr>tl_owner = owner, tl_until = until, tl_auth = a\<rparr> (xs_txReserved s),
              xs_authReserved := (if a = [] then xs_authReserved s
                 else jm_set a \<lparr>al_owner = owner, al_until = until, al_key = key\<rparr> (xs_authReserved s))\<rparr>, True))"

definition release_auth :: "string \<Rightarrow> string \<Rightarrow> (string, auth_lease) jsmap \<Rightarrow> (string, auth_lease) jsmap" where
  "release_auth a owner m =
     (if a = [] then m
      else case jm_get m a of
          None \<Rightarrow> m
        | Some l \<Rightarrow> if owner = [] \<or> al_owner l = owner then jm_delete a m else m)"

definition ch_releaseTx :: "x402 \<Rightarrow> string \<Rightarrow> string \<Rightarrow> string \<Rightarrow> x402 \<times> bool" where
  "ch_releaseTx s key a owner =
     (case (if key = [] then None else jm_get (xs_txReserved s) key) of
        None \<Rightarrow> (s, False)
      | Some l \<Rightarrow>
          if owner \<noteq> [] \<and> tl_owner l \<noteq> owner then (s, False)
          else (s\<lparr>xs_txReserved := jm_delete key (xs_txReserved s),
                  xs_authReserved := release_auth (if a = [] then tl_auth l else a) owner (xs_authReserved s)\<rparr>,
                \<not> ch_isTxSpent s key))"

definition ch_txFactsOf :: "x402 \<Rightarrow> string \<Rightarrow> jsval option" where
  "ch_txFactsOf s key = (if key = [] then None else jm_get (xs_txFacts s) key)"

section \<open>Runs\<close>

datatype x402_op =
    XPut int string "int option" string challenge
  | XPatch string "(string \<times> jsval) list"
  | XGet int string
  | XMarkSpent string jsval
  | XClaim int string string int
  | XNote string string
  | XRelease string string
  | XUnknown string
  | XSubmitted string
  | XRevert string string
  | XMarkAuth string jsval
  | XMarkTx string jsval
  | XReserve string string string int int
  | XReleaseTx string string string

fun x402_step :: "x402 \<Rightarrow> x402_op \<Rightarrow> x402" where
  "x402_step s (XPut now n e st d) = fst (ch_put s now n e st d)"
| "x402_step s (XPatch n fs) = fst (ch_patch s n fs)"
| "x402_step s (XGet now n) = fst (ch_get s now n)"
| "x402_step s (XMarkSpent n meta) = ch_markSpent s n meta"
| "x402_step s (XClaim now n owner lease) = fst (ch_claim s now n owner lease)"
| "x402_step s (XNote n h) = fst (ch_noteVerified s n h)"
| "x402_step s (XRelease n owner) = fst (ch_release s n owner)"
| "x402_step s (XUnknown n) = ch_markUnknown s n"
| "x402_step s (XSubmitted n) = fst (ch_markSubmitted s n)"
| "x402_step s (XRevert n owner) = fst (ch_revertSubmitted s n owner)"
| "x402_step s (XMarkAuth a ref) = ch_markAuthSpent s a ref"
| "x402_step s (XMarkTx key facts) = ch_markTxSpent s key facts"
| "x402_step s (XReserve key a owner lease now) = fst (ch_reserveTx s key a owner lease now)"
| "x402_step s (XReleaseTx key a owner) = fst (ch_releaseTx s key a owner)"

lemma put_rec_simps [simp]:
  "xs_spent (put_rec k r s) = xs_spent s" "xs_txSpent (put_rec k r s) = xs_txSpent s"
  "xs_authSpent (put_rec k r s) = xs_authSpent s" "xs_txReserved (put_rec k r s) = xs_txReserved s"
  "xs_map (put_rec k r s) = jm_set k r (xs_map s)"
  by (simp_all add: put_rec_def)

text \<open>What an operation on one challenge does: nothing, or a new value or nothing for one record.\<close>

definition map_change :: "(string \<Rightarrow> challenge \<Rightarrow> challenge option \<Rightarrow> bool) \<Rightarrow> string list \<Rightarrow> x402 \<Rightarrow> x402 \<Rightarrow> bool" where
  "map_change P ks s s' \<longleftrightarrow> s' = s \<or>
     (\<exists>k r. find_key (xs_map s) ks = Some (k, r) \<and>
        ((\<exists>r'. s' = put_rec k r' s \<and> P k r (Some r')) \<or>
         (s' = s\<lparr>xs_map := jm_delete k (xs_map s)\<rparr> \<and> P k r None)))"

lemma find_key_get: "find_key m ks = Some (k, r) \<Longrightarrow> k \<in> set ks \<and> jm_get m k = Some r"
  by (induction ks) (auto split: option.splits)

lemma map_change_same [simp]: "map_change P ks s s"
  by (simp add: map_change_def)

lemma map_change_put: "ch_find s n = Some (k, r) \<Longrightarrow> P k r (Some r') \<Longrightarrow> map_change P (nonceVariants n) s (put_rec k r' s)"
  by (auto simp: map_change_def ch_find_def)

lemma map_change_delete:
  "ch_find s n = Some (k, r) \<Longrightarrow> P k r None \<Longrightarrow>
   map_change P (nonceVariants n) s (s\<lparr>xs_map := jm_delete k (xs_map s)\<rparr>)"
  by (auto simp: map_change_def ch_find_def)

text \<open>A record leaves \<open>issued\<close> only to a lease, and a held record is only freed by release or revert.\<close>

definition held :: "string \<Rightarrow> challenge \<Rightarrow> bool" where
  "held owner r \<longleftrightarrow> kept_state (ch_state r) \<and> (ch_state r = ''claimed'' \<longrightarrow> ch_owner r = Some owner)"

definition keeps_held :: "string \<Rightarrow> challenge \<Rightarrow> challenge option \<Rightarrow> bool" where
  "keeps_held k r r' \<longleftrightarrow> (\<forall>owner. held owner r \<longrightarrow> (case r' of None \<Rightarrow> False | Some x \<Rightarrow> held owner x))"

lemma keeps_heldI: "(\<And>owner. held owner r \<Longrightarrow> held owner x) \<Longrightarrow> keeps_held k r (Some x)"
  by (simp add: keeps_held_def)

lemma held_unknown [simp]: "held owner (unknown_rec r)"
  by (simp add: held_def unknown_rec_def kept_state_def)

lemma held_spent [simp]: "held owner (spent_rec meta r)"
  by (simp add: held_def spent_rec_def kept_state_def)

lemma get_change: "map_change keeps_held (nonceVariants n) s (fst (ch_get s now n))"
  by (auto simp: ch_get_def keeps_held_def held_def kept_state_def unknown_rec_def split: option.split
      intro!: map_change_put map_change_delete)

lemma patch_change: "map_change keeps_held (nonceVariants n) s (fst (ch_patch s n fs))"
  by (auto simp: ch_patch_def Let_def keeps_held_def held_def split: option.split intro!: map_change_put)

lemma note_change: "map_change keeps_held (nonceVariants n) s (fst (ch_noteVerified s n h))"
  by (auto simp: ch_noteVerified_def keeps_held_def held_def split: option.split intro!: map_change_put)

lemma unknown_change: "map_change keeps_held (nonceVariants n) s (ch_markUnknown s n)"
  by (auto simp: ch_markUnknown_def keeps_held_def split: option.split intro!: map_change_put)

lemma submitted_change: "map_change keeps_held (nonceVariants n) s (fst (ch_markSubmitted s n))"
  by (auto simp: ch_markSubmitted_def keeps_held_def held_def kept_state_def split: option.split
      intro!: map_change_put)

lemma claim_change: "map_change keeps_held (nonceVariants n) s (fst (ch_claim s now n owner lease))"
  by (auto simp: ch_claim_def claim_found_def Let_def keeps_held_def held_def kept_state_def unknown_rec_def split: option.split
      intro!: map_change_put map_change_delete)

text \<open>The record that a nonce finds is not hidden by changes of other records.\<close>

definition holds_claim :: "string \<Rightarrow> string \<Rightarrow> x402 \<Rightarrow> bool" where
  "holds_claim n owner s \<longleftrightarrow> (case ch_find s n of None \<Rightarrow> False | Some (k, r) \<Rightarrow> held owner r)"

lemma holds_claimI: "ch_find s n = Some (k, r) \<Longrightarrow> held owner r \<Longrightarrow> holds_claim n owner s"
  by (simp add: holds_claim_def)

lemma holds_claimE:
  assumes "holds_claim n owner s"
  obtains k r where "ch_find s n = Some (k, r)" "held owner r" "jm_get (xs_map s) k = Some r" "k \<in> set (nonceVariants n)"
  using assms find_key_get by (fastforce simp: holds_claim_def ch_find_def split: option.splits)

lemma find_key_set:
  "find_key m ks = Some (k, r) \<Longrightarrow> jm_get m j \<noteq> None \<Longrightarrow>
   find_key (jm_set j x m) ks = Some (k, if j = k then x else r)"
  by (induction ks) (auto simp: jsmap_simps split: option.splits)

lemma find_key_set_new: "j \<notin> set ks \<Longrightarrow> find_key (jm_set j x m) ks = find_key m ks"
  by (induction ks) (auto simp: jsmap_simps split: option.split)

lemma find_key_delete: "find_key m ks = Some (k, r) \<Longrightarrow> j \<noteq> k \<Longrightarrow> find_key (jm_delete j m) ks = Some (k, r)"
  by (induction ks) (auto simp: jsmap_simps split: option.splits)

lemma jm_get_filter:
  "jm_ok m \<Longrightarrow> jm_get (filter (\<lambda>(k, r). P r) m) k = (case jm_get m k of None \<Rightarrow> None | Some r \<Rightarrow> if P r then Some r else None)"
proof (induction m)
  case (Cons e m)
  have "jm_get (filter (\<lambda>(k, r). P r) m) (fst e) = None"
    using Cons.prems by (auto simp: jm_ok_def map_of_eq_None_iff)
  with Cons show ?case by (cases e) (auto simp: jm_ok_def)
qed simp

lemma find_key_filter:
  "jm_ok m \<Longrightarrow> find_key m ks = Some (k, r) \<Longrightarrow> P r \<Longrightarrow> find_key (filter (\<lambda>(k, r). P r) m) ks = Some (k, r)"
  by (induction ks) (auto simp: jm_get_filter split: option.splits if_splits)

lemma change_holds:
  assumes "map_change P ks s s'" "holds_claim n owner s"
    and "\<And>k r r'. P k r r' \<Longrightarrow> find_key (xs_map s) ks = Some (k, r) \<Longrightarrow> ch_find s n = Some (k, r) \<Longrightarrow> held owner r \<Longrightarrow>
      (case r' of None \<Rightarrow> False | Some x \<Rightarrow> held owner x)"
  shows "holds_claim n owner s'"
proof (cases "s' = s")
  case False
  from assms(2) obtain k r where n: "ch_find s n = Some (k, r)" "held owner r" by (rule holds_claimE)
  from n(1) have f: "find_key (xs_map s) (nonceVariants n) = Some (k, r)" by (simp add: ch_find_def)
  from False assms(1) obtain j q where j: "find_key (xs_map s) ks = Some (j, q)"
    and c: "(\<exists>r'. s' = put_rec j r' s \<and> P j q (Some r')) \<or> (s' = s\<lparr>xs_map := jm_delete j (xs_map s)\<rparr> \<and> P j q None)"
    by (auto simp: map_change_def)
  from find_key_get [OF j] have g: "jm_get (xs_map s) j = Some q" by simp
  have same: "q = r" if "j = k" using that g find_key_get [OF f] by simp
  from c show ?thesis
  proof (elim disjE exE conjE)
    fix r' assume r': "s' = put_rec j r' s" "P j q (Some r')"
    then have "ch_find s' n = Some (k, if j = k then r' else r)"
      using find_key_set [OF f, of j r'] g by (simp add: ch_find_def)
    moreover have "held owner (if j = k then r' else r)"
    proof (cases "j = k")
      case True
      with assms(3) [OF r'(2) j] n same [OF True] show ?thesis by simp
    qed (simp add: n(2))
    ultimately show ?thesis by (rule holds_claimI)
  next
    assume d: "s' = s\<lparr>xs_map := jm_delete j (xs_map s)\<rparr>" "P j q None"
    have "j \<noteq> k"
    proof
      assume "j = k"
      with assms(3) [OF d(2) j] n same show False by simp
    qed
    from find_key_delete [OF f this] d(1) n(2) show ?thesis by (auto simp: ch_find_def intro: holds_claimI)
  qed
qed (use assms(2) in simp)

lemma keeps_holds: "map_change keeps_held ks s s' \<Longrightarrow> holds_claim n owner s \<Longrightarrow> holds_claim n owner s'"
  by (erule change_holds) (auto simp: keeps_held_def)

text \<open>The operations that may free a claim: a new record under the nonce, a release by its owner, a revert.\<close>

definition no_alias :: "string \<Rightarrow> string \<Rightarrow> bool" where
  "no_alias n m = list_all (\<lambda>k. k \<notin> set (nonceVariants n)) (nonceVariants m)"

fun leaves_claim :: "string \<Rightarrow> string \<Rightarrow> x402_op \<Rightarrow> bool" where
  "leaves_claim n owner (XPut now m e st d) \<longleftrightarrow> m \<notin> set (nonceVariants n)"
| "leaves_claim n owner (XRelease m w) \<longleftrightarrow> no_alias n m \<or> (w \<noteq> [] \<and> w \<noteq> owner)"
| "leaves_claim n owner (XRevert m w) \<longleftrightarrow> no_alias n m"
| "leaves_claim n owner _ \<longleftrightarrow> True"

lemma no_alias_find:
  assumes "no_alias n m" "find_key (xs_map s) (nonceVariants m) = Some (k, r)" "ch_find s n = Some (k, r')"
  shows False
  using assms find_key_get [OF assms(2)] find_key_get [of "xs_map s" "nonceVariants n" k r']
  by (auto simp: no_alias_def ch_find_def list_all_iff)

definition frees :: "string \<Rightarrow> string \<Rightarrow> challenge \<Rightarrow> challenge option \<Rightarrow> bool" where
  "frees w k r r' \<longleftrightarrow> ch_state r = ''claimed'' \<and> \<not> owner_conflict w r"

lemma release_change: "map_change (frees w) (nonceVariants m) s (fst (ch_release s m w))"
  by (auto simp: ch_release_def frees_def split: option.split intro!: map_change_put)

lemma release_holds:
  assumes "holds_claim n owner s" "owner \<noteq> []" "no_alias n m \<or> (w \<noteq> [] \<and> w \<noteq> owner)"
  shows "holds_claim n owner (fst (ch_release s m w))"
  using release_change assms(1)
proof (rule change_holds)
  fix k r r'
  assume "frees w k r r'" "find_key (xs_map s) (nonceVariants m) = Some (k, r)" "ch_find s n = Some (k, r)" "held owner r"
  with assms(2,3) no_alias_find have False by (auto simp: frees_def owner_conflict_def held_def)
  then show "case r' of None \<Rightarrow> False | Some x \<Rightarrow> held owner x" ..
qed

text \<open>A revert needs a submitted record, and then acts as a release by the same caller.\<close>

lemma revert_change: "map_change (\<lambda>k r r'. True) (nonceVariants m) s (fst (ch_revertSubmitted s m w))"
proof (cases "ch_find s m")
  case (Some kr)
  then obtain k r where f: "find_key (xs_map s) (nonceVariants m) = Some (k, r)"
    by (cases kr) (simp add: ch_find_def)
  have "put_rec k y (put_rec k x s) = put_rec k y s" for x y
    by (simp add: put_rec_def)
  moreover from find_key_set [OF f, of k] find_key_get [OF f]
  have "ch_find (put_rec k x s) m = Some (k, x)" for x by (simp add: ch_find_def)
  moreover have "ch_find s m = Some (k, r)" using f by (simp add: ch_find_def)
  ultimately have "fst (ch_revertSubmitted s m w) \<in> {s, put_rec k (reverted_rec w r) s,
      put_rec k (issued_rec (reverted_rec w r)) s}"
    by (simp add: ch_revertSubmitted_def ch_release_def)
  with f show ?thesis unfolding map_change_def by blast
qed (simp add: ch_revertSubmitted_def)

lemma revert_holds:
  assumes "holds_claim n owner s" "no_alias n m"
  shows "holds_claim n owner (fst (ch_revertSubmitted s m w))"
  using revert_change assms(1) by (rule change_holds) (use no_alias_find assms(2) in blast)

lemma put_holds:
  assumes "holds_claim n owner s" "jm_ok (xs_map s)" "m \<notin> set (nonceVariants n)"
  shows "holds_claim n owner (fst (ch_put s now m e st d))"
proof -
  from assms(1) obtain k r where n: "ch_find s n = Some (k, r)" "held owner r" by (rule holds_claimE)
  from n(2) have "kept_state (ch_state r) \<or> \<not> ch_expires r < now" by (simp add: held_def)
  from find_key_filter [where P = "\<lambda>r. kept_state (ch_state r) \<or> \<not> ch_expires r < now", OF assms(2) _ this] n(1)
  have "ch_find (ch_gc now s) n = Some (k, r)" by (simp add: ch_find_def ch_gc_def)
  then have "ch_find (fst (ch_put s now m e st d)) n = Some (k, r)"
    using find_key_set_new [OF assms(3)] by (simp add: ch_put_def Let_def ch_find_def)
  with n(2) show ?thesis by (rule holds_claimI [rotated])
qed

lemma mark_key_holds:
  assumes "holds_claim n owner s"
  shows "holds_claim n owner (mark_key meta s j)"
proof -
  from assms obtain k r where n: "ch_find s n = Some (k, r)" "held owner r" by (rule holds_claimE)
  show ?thesis
  proof (cases "jm_get (xs_map s) j")
    case None
    with n show ?thesis by (auto simp: mark_key_def ch_find_def intro: holds_claimI)
  next
    case (Some q)
    with find_key_set [of "xs_map s" "nonceVariants n" k r j "spent_rec meta q"] n
    have "ch_find (mark_key meta s j) n = Some (k, if j = k then spent_rec meta q else r)"
      by (simp add: ch_find_def mark_key_def)
    then show ?thesis by (rule holds_claimI) (simp add: n(2))
  qed
qed

lemma mark_spent_holds: "holds_claim n owner s \<Longrightarrow> holds_claim n owner (ch_markSpent s m meta)"
proof -
  assume a: "holds_claim n owner s"
  have "holds_claim n owner (foldl (mark_key meta) t ks)" if "holds_claim n owner t" for t ks
    using that by (induction ks arbitrary: t) (simp_all add: mark_key_holds)
  with a show ?thesis by (simp add: ch_markSpent_def holds_claim_def ch_find_def)
qed

lemma same_map: "xs_map s' = xs_map s \<Longrightarrow> holds_claim n owner s \<Longrightarrow> holds_claim n owner s'"
  by (simp add: holds_claim_def ch_find_def)

lemma lease_maps [simp]:
  "xs_map (ch_markAuthSpent s a ref) = xs_map s" "xs_map (ch_markTxSpent s key facts) = xs_map s"
  "xs_map (fst (ch_reserveTx s key a owner lease now)) = xs_map s"
  "xs_map (fst (ch_releaseTx s key a owner)) = xs_map s"
  by (simp_all add: ch_markAuthSpent_def ch_markTxSpent_def ch_reserveTx_def ch_releaseTx_def Let_def split: option.split)

text \<open>The map keeps one record per key.\<close>

lemma change_ok: "map_change P ks s s' \<Longrightarrow> jm_ok (xs_map s) \<Longrightarrow> jm_ok (xs_map s')"
  by (auto simp: map_change_def)

lemma put_ok: "jm_ok (xs_map s) \<Longrightarrow> jm_ok (xs_map (fst (ch_put s now m e st d)))"
  by (auto simp: ch_put_def ch_gc_def Let_def jm_ok_def distinct_map_filter intro!: jm_ok_set [unfolded jm_ok_def])

lemma mark_ok: "jm_ok (xs_map s) \<Longrightarrow> jm_ok (xs_map (ch_markSpent s m meta))"
proof -
  assume a: "jm_ok (xs_map s)"
  have "jm_ok (xs_map (foldl (mark_key meta) t ks))" if "jm_ok (xs_map t)" for t ks
    using that by (induction ks arbitrary: t) (auto simp: mark_key_def split: option.split)
  with a show ?thesis by (simp add: ch_markSpent_def)
qed

lemmas challenge_changes = get_change patch_change note_change unknown_change submitted_change claim_change
  release_change revert_change

lemma step_ok: "jm_ok (xs_map s) \<Longrightarrow> jm_ok (xs_map (x402_step s x))"
  by (cases x) (auto intro: put_ok mark_ok challenge_changes [THEN change_ok])

lemma step_holds:
  assumes "holds_claim n owner s" "jm_ok (xs_map s)" "owner \<noteq> []" "leaves_claim n owner x"
  shows "holds_claim n owner (x402_step s x)"
proof (cases x)
  case (XRelease m w)
  with assms show ?thesis using release_holds by simp
next
  case (XRevert m w)
  with assms show ?thesis using revert_holds by simp
next
  case (XPut now m e st d)
  with assms show ?thesis using put_holds by simp
qed (use assms in \<open>auto intro: mark_spent_holds same_map
      keeps_holds [OF get_change] keeps_holds [OF patch_change] keeps_holds [OF note_change]
      keeps_holds [OF unknown_change] keeps_holds [OF submitted_change] keeps_holds [OF claim_change]\<close>)

interpretation claim_run: invariant_run x402_step
    "\<lambda>s. holds_claim n owner s \<and> jm_ok (xs_map s) \<and> owner \<noteq> []" "leaves_claim n owner" for n owner
  by unfold_locales (auto intro: step_holds step_ok)

lemma claim_held: "holds_claim n owner s \<Longrightarrow> \<exists>why. snd (ch_claim s now n o' lease) = ClaimRefused why"
  by (auto simp: holds_claim_def ch_claim_def claim_found_def held_def kept_state_def split: option.splits)

lemma claim_holds:
  assumes "ch_claim s now n owner lease = (s', Claimed r)" "owner \<noteq> []"
  shows "holds_claim n owner s'"
proof -
  from assms(1) obtain k q where f: "ch_find s n = Some (k, q)" "claim_found s now owner lease k q = (s', Claimed r)"
    by (auto simp: ch_claim_def split: if_splits option.splits)
  from f(2) have s': "s' = put_rec k (claimed_rec now owner lease q) s"
    by (auto simp: claim_found_def Let_def split: if_splits)
  have "find_key (xs_map s) (nonceVariants n) = Some (k, q)" using f(1) by (simp add: ch_find_def)
  from find_key_set [OF this, of k "claimed_rec now owner lease q"] find_key_get [OF this] s'
  have "ch_find s' n = Some (k, claimed_rec now owner lease q)" by (simp add: ch_find_def)
  then show ?thesis by (rule holds_claimI) (simp add: held_def claimed_rec_def kept_state_def assms(2))
qed

section \<open>Marks and leases in a run\<close>

lemma gc_spent [simp]: "xs_spent (ch_gc now s) = xs_spent s"
  by (simp add: ch_gc_def)

lemma change_spent: "map_change P ks s s' \<Longrightarrow> xs_spent s' = xs_spent s"
  by (auto simp: map_change_def)

lemma mark_keys_spent: "set (xs_spent (foldl (mark_key meta) s ks)) = set (xs_spent s) \<union> set ks"
  by (induction ks arbitrary: s) (auto simp: mark_key_def)

lemma markSpent_spent:
  "set (xs_spent (ch_markSpent s n meta)) = (if n = [] then set (xs_spent s)
     else insert n (set (nonceVariants n) \<union> set (xs_spent s)))"
  by (simp add: ch_markSpent_def mark_keys_spent Un_commute)

lemma step_spent: "k \<in> set (xs_spent s) \<Longrightarrow> k \<in> set (xs_spent (x402_step s x))"
  by (cases x) (auto simp: markSpent_spent ch_put_def ch_markAuthSpent_def ch_markTxSpent_def ch_reserveTx_def
      ch_releaseTx_def Let_def challenge_changes [THEN change_spent] split: option.split)

interpretation spent_run: invariant_run x402_step "\<lambda>s. k \<in> set (xs_spent s)" "\<lambda>_. True" for k
  by unfold_locales (rule step_spent)

text \<open>The operations of other parties while a transfer is leased until \<open>u\<close>.\<close>

fun other_party :: "string \<Rightarrow> string \<Rightarrow> int \<Rightarrow> x402_op \<Rightarrow> bool" where
  "other_party key owner u (XReserve k a w lease now) \<longleftrightarrow> (k = key \<longrightarrow> w \<noteq> owner \<and> now < u)"
| "other_party key owner u (XReleaseTx k a w) \<longleftrightarrow> (k = key \<longrightarrow> w \<noteq> [] \<and> w \<noteq> owner)"
| "other_party key owner u _ \<longleftrightarrow> True"

definition tx_held :: "string \<Rightarrow> string \<Rightarrow> int \<Rightarrow> x402 \<Rightarrow> bool" where
  "tx_held key owner u s \<longleftrightarrow> key \<noteq> [] \<and> (key \<in> set (xs_txSpent s) \<or>
     (\<exists>l. jm_get (xs_txReserved s) key = Some l \<and> tl_owner l = owner \<and> tl_until l = u))"

lemma change_leases: "map_change P ks s s' \<Longrightarrow> xs_txReserved s' = xs_txReserved s \<and> xs_txSpent s' = xs_txSpent s"
  by (auto simp: map_change_def)

lemma mark_leases [simp]:
  "xs_txReserved (ch_markSpent s n meta) = xs_txReserved s" "xs_txSpent (ch_markSpent s n meta) = xs_txSpent s"
proof -
  have "xs_txReserved (foldl (mark_key meta) t ks) = xs_txReserved t \<and> xs_txSpent (foldl (mark_key meta) t ks) = xs_txSpent t"
    for t ks
    by (induction ks arbitrary: t) (simp_all add: mark_key_def)
  then show "xs_txReserved (ch_markSpent s n meta) = xs_txReserved s" "xs_txSpent (ch_markSpent s n meta) = xs_txSpent s"
    by (simp_all add: ch_markSpent_def)
qed

lemma tx_held_same: "xs_txReserved s' = xs_txReserved s \<and> xs_txSpent s' = xs_txSpent s \<Longrightarrow> tx_held key owner u s \<Longrightarrow> tx_held key owner u s'"
  by (simp add: tx_held_def)

lemma change_tx_held: "map_change P ks s s' \<Longrightarrow> tx_held key owner u s \<Longrightarrow> tx_held key owner u s'"
  by (auto dest!: change_leases simp: tx_held_def)

lemma reserve_refused:
  "tx_held key owner u s \<Longrightarrow> w \<noteq> owner \<Longrightarrow> now < u \<Longrightarrow> ch_reserveTx s key a w lease now = (s, False)"
  by (auto simp: tx_held_def ch_reserveTx_def ch_isTxSpent_def tx_blocked_def)

lemma reserve_held:
  assumes "tx_held key owner u s" "k = key \<longrightarrow> w \<noteq> owner \<and> now < u"
  shows "tx_held key owner u (fst (ch_reserveTx s k a w lease now))"
proof (cases "k = key")
  case False
  with assms(1) show ?thesis by (auto simp: tx_held_def ch_reserveTx_def Let_def jsmap_simps)
qed (use assms reserve_refused in simp)

lemma releaseTx_held:
  "tx_held key owner u s \<Longrightarrow> (k = key \<longrightarrow> w \<noteq> [] \<and> w \<noteq> owner) \<Longrightarrow> tx_held key owner u (fst (ch_releaseTx s k a w))"
  by (auto simp: tx_held_def ch_releaseTx_def jsmap_simps split: option.split)

lemma markTx_held: "tx_held key owner u s \<Longrightarrow> tx_held key owner u (ch_markTxSpent s k facts)"
  by (auto simp: tx_held_def ch_markTxSpent_def jsmap_simps)

lemma step_tx_held: "tx_held key owner u s \<Longrightarrow> other_party key owner u x \<Longrightarrow> tx_held key owner u (x402_step s x)"
proof (cases x)
  case (XPut now n e st d)
  assume "tx_held key owner u s"
  with XPut show ?thesis by (simp add: tx_held_def ch_put_def ch_gc_def Let_def)
next
  case (XMarkAuth a ref)
  assume "tx_held key owner u s"
  with XMarkAuth show ?thesis by (simp add: tx_held_def ch_markAuthSpent_def)
qed (auto intro: reserve_held releaseTx_held markTx_held challenge_changes [THEN change_tx_held]
    tx_held_same [of "ch_markSpent s n meta" for n meta])

interpretation lease_run: invariant_run x402_step "tx_held key owner u" "other_party key owner u" for key owner u
  by unfold_locales (rule step_tx_held)

lemma reserve_holds:
  assumes "ch_reserveTx s key a owner lease now = (s', True)"
  shows "tx_held key owner (lease_end now lease) s'"
  using assms by (auto simp: ch_reserveTx_def tx_held_def Let_def jsmap_simps split: if_splits)

section \<open>Properties\<close>

text \<open>
  Property C14. A payment nonce that an owner has claimed is given to nobody else: until the owner
  releases it, a revert frees it or a new challenge is stored under it, every later claim of
  that nonce is refused, also after the lease has run out.
\<close>
theorem claim_exclusive:
  assumes "jm_ok (xs_map s)" "ch_claim s now n owner lease = (s', Claimed r)" "owner \<noteq> []"
    and "list_all (leaves_claim n owner) ops"
  shows "\<exists>why. snd (ch_claim (foldl x402_step s' ops) now' n owner' lease') = ClaimRefused why"
proof -
  have "jm_ok (xs_map s')" using change_ok [OF claim_change [of n s now owner lease] assms(1)] assms(2) by simp
  with claim_run.run_inv [of n owner s' ops] claim_holds [OF assms(2,3)] assms(3,4) claim_held
  show ?thesis by blast
qed

definition example_challenge :: challenge where
  "example_challenge = \<lparr>ch_nonce = [], ch_expires = 0, ch_state = [], ch_owner = None, ch_until = None,
     ch_payment_hash = None, ch_settlement = JUndef, ch_data = []\<rparr>"

definition example_issued :: x402 where
  "example_issued = fst (ch_put (empty_x402 1000) 5 ''0xab'' None [] example_challenge)"

definition example_claimed :: x402 where
  "example_claimed = fst (ch_claim example_issued 6 ''0xab'' ''w1'' 60)"

theorem claim_exclusive_witness:
  "\<exists>why. snd (ch_claim (foldl x402_step example_claimed
     [XSubmitted ''0xab'', XRelease ''0xab'' ''w2'', XGet 70 ''ab'', XUnknown ''0xab'']) 90 ''0xab'' ''w2'' 60) = ClaimRefused why"
proof -
  have ok: "jm_ok (xs_map example_issued)" by code_simp
  have "case snd (ch_claim example_issued 6 ''0xab'' ''w1'' 60) of Claimed r \<Rightarrow> True | _ \<Rightarrow> False" by code_simp
  then obtain r where c: "ch_claim example_issued 6 ''0xab'' ''w1'' 60 = (example_claimed, Claimed r)"
    by (auto simp: example_claimed_def prod_eq_iff split: claim_reply.splits)
  show ?thesis by (rule claim_exclusive [OF ok c]) simp_all
qed

text \<open>
  Property C27. A nonce that was marked spent stays spent: whatever happens later, no claim of it, in
  any spelling that shares a key with it, is accepted, and each is answered as a replay.
\<close>
theorem spent_nonce_final:
  assumes "n \<noteq> []" "k \<in> set (nonceVariants n)" "k \<in> set (nonceVariants m)"
  shows "snd (ch_claim (foldl x402_step (ch_markSpent s n meta) ops) now m owner lease) = ClaimRefused ''payment_replayed''"
proof -
  have "k \<in> set (xs_spent (ch_markSpent s n meta))" using assms by (simp add: markSpent_spent)
  then have "k \<in> set (xs_spent (foldl x402_step (ch_markSpent s n meta) ops))"
    by (rule spent_run.run_inv) (simp add: list_all_iff)
  with assms(3) have "ch_isSpent (foldl x402_step (ch_markSpent s n meta) ops) m"
    by (auto simp: ch_isSpent_def list_ex_iff spent_at_def)
  then show ?thesis by (simp add: ch_claim_def)
qed

theorem spent_nonce_final_witness:
  "snd (ch_claim (foldl x402_step (ch_markSpent example_claimed ''0xab'' JUndef)
     [XPut 7 ''0xab'' None [] example_challenge, XRelease ''0xab'' ''w1'']) 8 '' ab'' ''w1'' 60) = ClaimRefused ''payment_replayed''"
proof (rule spent_nonce_final)
  show "''ab'' \<in> set (nonceVariants ''0xab'')" "''ab'' \<in> set (nonceVariants '' ab'')" by code_simp+
qed simp

text \<open>
  While one owner holds a transfer, before the end of its lease, no other owner gets it,
  whatever the others do meanwhile.
\<close>

theorem transfer_lease_exclusive:
  assumes "ch_reserveTx s key a owner lease now = (s', True)"
    and "list_all (other_party key owner (lease_end now lease)) ops"
    and "owner' \<noteq> owner" "now' < lease_end now lease"
  shows "snd (ch_reserveTx (foldl x402_step s' ops) key a' owner' lease' now') = False"
  using lease_run.run_inv [OF reserve_holds [OF assms(1)] assms(2)] reserve_refused assms(3,4) by fastforce

theorem transfer_lease_exclusive_witness:
  "snd (ch_reserveTx (foldl x402_step (fst (ch_reserveTx (empty_x402 1000) ''t'' ''a'' ''w1'' 50 10))
     [XReserve ''t'' ''b'' ''w2'' 50 20, XReleaseTx ''t'' ''a'' ''w2'', XReserve ''u'' ''b'' ''w2'' 50 20]) ''t'' ''b'' ''w2'' 50 30) = False"
proof -
  have c: "snd (ch_reserveTx (empty_x402 1000) ''t'' ''a'' ''w1'' 50 10) = True" by code_simp
  show ?thesis
    by (rule transfer_lease_exclusive [where a = "''a''" and owner = "''w1''" and lease = 50 and now = 10])
       (use c in \<open>simp_all add: prod_eq_iff lease_end_def\<close>)
qed

end
