(* ===== verification/Log_Tree.thy ===== *)
theory Log_Tree
  imports Merkle Js_Values "HOL-Library.While_Combinator"
begin

text \<open>
  The hash tree of the receipt log, services/gateway/src/receipt-merkle.js: a second
  implementation of the tree, which pairs a level from the left and promotes a last odd node,
  with its own proofs and verifiers. A node is a byte list (a Node Buffer); tree sizes and
  indices are naturals; proof elements are texts, as a JSON proof carries them. A thrown
  error inside a verifier is its answer false.
\<close>

section \<open>Definitions\<close>

definition log_leafHash :: "bytes \<Rightarrow> bytes" where
  "log_leafHash data = sha256 (0 # data)"

definition log_nodeHash :: "bytes \<Rightarrow> bytes \<Rightarrow> bytes" where
  "log_nodeHash left right = sha256 (1 # left @ right)"

text \<open>One pass of the pairing loop, and the loop over the levels.\<close>

fun next_level :: "bytes list \<Rightarrow> bytes list" where
  "next_level (a # b # xs) = log_nodeHash a b # next_level xs"
| "next_level [x] = [x]"
| "next_level [] = []"

lemma length_next_level [simp]: "length (next_level xs) = (length xs + 1) div 2"
  by (induction xs rule: next_level.induct) auto

function level_root :: "bytes list \<Rightarrow> bytes" where
  "level_root level = (if 1 < length level then level_root (next_level level) else hd level)"
  by pat_completeness auto
termination
  by (relation "measure length") auto

declare level_root.simps [simp del]

definition rootOf :: "bytes list \<Rightarrow> bytes" where
  "rootOf leaves = (if leaves = [] then sha256 [0] else level_root leaves)"

datatype side = Left_side | Right_side

fun side_text :: "side \<Rightarrow> string" where
  "side_text Left_side = ''left''"
| "side_text Right_side = ''right''"

record proof_step =
  ps_hash :: string
  ps_position :: string

definition step_for :: "bytes list \<Rightarrow> nat \<Rightarrow> proof_step list" where
  "step_for level idx =
     (let sibling = (if even idx then idx + 1 else idx - 1)
      in if sibling < length level
         then [\<lparr>ps_hash = to_hex (level ! sibling),
                ps_position = side_text (if sibling < idx then Left_side else Right_side)\<rparr>]
         else [])"

function proof_levels :: "bytes list \<Rightarrow> nat \<Rightarrow> proof_step list" where
  "proof_levels level idx =
     (if 1 < length level then step_for level idx @ proof_levels (next_level level) (idx div 2) else [])"
  by pat_completeness auto
termination
  by (relation "measure (\<lambda>(level, idx). length level)") auto

declare proof_levels.simps [simp del]

definition log_inclusionProof :: "bytes list \<Rightarrow> int \<Rightarrow> proof_step list option" where
  "log_inclusionProof leaves index =
     (if index < 0 \<or> int (length leaves) \<le> index then None else Some (proof_levels leaves (nat index)))"

definition hex64 :: "string \<Rightarrow> bool" where
  "hex64 s \<longleftrightarrow> length s = 64 \<and> is_hex (js_lower s)"

text \<open>\<open>Buffer.from(s, 'hex')\<close> reads pairs of digits up to the first that is none.\<close>

fun buffer_hex :: "string \<Rightarrow> bytes" where
  "buffer_hex (c # d # s) =
     (case (hex_digit (lower_char c), hex_digit (lower_char d)) of
        (Some x, Some y) \<Rightarrow> word_of_nat (16 * x + y) # buffer_hex s
      | _ \<Rightarrow> [])"
| "buffer_hex _ = []"

text \<open>The walk of the verifier: \<open>None\<close> when a step is refused, else \<open>sn\<close> and the hash.\<close>

fun verify_steps :: "nat \<Rightarrow> nat \<Rightarrow> bytes \<Rightarrow> proof_step list \<Rightarrow> (nat \<times> bytes) option" where
  "verify_steps fn sn h [] = Some (sn, h)"
| "verify_steps fn sn h (p # ps) =
     (if sn = 0 then None
      else if \<not> hex64 (ps_hash p) then None
      else let sib = buffer_hex (ps_hash p); onLeft = (odd fn \<or> fn = sn)
        in if ps_position p \<noteq> [] \<and> ps_position p \<noteq> side_text (if onLeft then Left_side else Right_side) then None
           else if onLeft
           then (let (fn', sn') = (if even fn then skip_even fn sn else (fn, sn))
                 in verify_steps (fn' div 2) (sn' div 2) (log_nodeHash sib h) ps)
           else verify_steps (fn div 2) (sn div 2) (log_nodeHash h sib) ps)"

definition root_text :: "string \<Rightarrow> string" where
  "root_text s = js_lower (if take 2 s = ''0x'' then drop 2 s else s)"

definition log_verifyInclusion :: "bytes \<Rightarrow> jsnum \<Rightarrow> jsnum \<Rightarrow> string \<Rightarrow> proof_step list \<Rightarrow> bool" where
  "log_verifyInclusion leaf index treeSize rootHex pf =
     (case (if is_safe_integer index then num_int index else None,
            if is_safe_integer treeSize then num_int treeSize else None) of
        (Some i, Some n) \<Rightarrow>
          if i < 0 \<or> n \<le> i then False
          else if \<not> hex64 (root_text rootHex) then False
          else (case verify_steps (nat i) (nat n - 1) leaf pf of
              None \<Rightarrow> False
            | Some (sn, h) \<Rightarrow> sn = 0 \<and> to_hex h = root_text rootHex)
      | _ \<Rightarrow> False)"

text \<open>
  The consistency proof covers the new tree by whole subtrees that do not cross the end of
  the old tree. \<open>prove\<close> is on the range \<open>start .. start + size\<close>; its calls are never on an
  empty range, which is what its first line returns on.
\<close>

lemma split_range:
  assumes "\<not> end \<le> oldEnd" "\<not> oldEnd \<le> start"
  shows "0 < largestPowerOfTwoLessThan (end - start)" "largestPowerOfTwoLessThan (end - start) < end - start"
proof -
  from assms have "2 \<le> end - start" by simp
  then show "0 < largestPowerOfTwoLessThan (end - start)" "largestPowerOfTwoLessThan (end - start) < end - start"
    by (simp_all add: lp2_pos lp2_less)
qed

lemma split_measure:
  "\<not> end \<le> oldEnd \<Longrightarrow> \<not> oldEnd \<le> start \<Longrightarrow>
     end - (start + largestPowerOfTwoLessThan (end - start)) < end - (start :: nat)"
  using split_range [of "end" oldEnd start] by simp

function prove :: "bytes list \<Rightarrow> nat \<Rightarrow> nat \<Rightarrow> nat \<Rightarrow> bytes list" where
  "prove leaves start end oldEnd =
     (if end \<le> start then []
      else if end \<le> oldEnd then [rootOf (take (end - start) (drop start leaves))]
      else if oldEnd \<le> start then [rootOf (take (end - start) (drop start leaves))]
      else let k = largestPowerOfTwoLessThan (end - start)
        in prove leaves start (start + k) oldEnd @ prove leaves (start + k) end oldEnd)"
  by pat_completeness auto
termination
  by (relation "measure (\<lambda>(leaves, start, end, oldEnd). end - start)")
     (auto simp: split_range intro: split_measure)

declare prove.simps [simp del]

text \<open>\<open>None\<close> is the error \<open>bad_tree_size\<close>.\<close>

definition log_consistencyProof :: "bytes list \<Rightarrow> nat \<Rightarrow> nat \<Rightarrow> string list option" where
  "log_consistencyProof leaves m n =
     (if m < 1 \<or> n < m \<or> length leaves < n then None
      else if m = n then Some [] else Some (map to_hex (prove leaves 0 n m)))"

text \<open>
  \<open>check\<close>: the hash of a range, the hash of its old part (\<open>None\<close> when it has none), and
  the rest of the proof; \<open>None\<close> is the error \<open>short_proof\<close>.
\<close>

function check_range :: "nat \<Rightarrow> nat \<Rightarrow> nat \<Rightarrow> string list \<Rightarrow> (bytes \<times> bytes option \<times> string list) option" where
  "check_range start end oldEnd pf =
     (if end \<le> oldEnd
      then (case pf of [] \<Rightarrow> None | p # ps \<Rightarrow> Some (buffer_hex p, Some (buffer_hex p), ps))
      else if oldEnd \<le> start
      then (case pf of [] \<Rightarrow> None | p # ps \<Rightarrow> Some (buffer_hex p, None, ps))
      else let k = largestPowerOfTwoLessThan (end - start)
        in case check_range start (start + k) oldEnd pf of
             None \<Rightarrow> None
           | Some (lh, lo, ps) \<Rightarrow>
               (case check_range (start + k) end oldEnd ps of
                  None \<Rightarrow> None
                | Some (rh, ro, qs) \<Rightarrow>
                    Some (log_nodeHash lh rh,
                      (case (lo, ro) of
                         (Some l, Some r) \<Rightarrow> Some (log_nodeHash l r)
                       | (Some l, None) \<Rightarrow> if oldEnd \<le> start + k then Some l else None
                       | _ \<Rightarrow> None), qs)))"
  by pat_completeness auto
termination
  by (relation "measure (\<lambda>(start, end, oldEnd, pf). end - start)")
     (auto simp: split_range intro: split_measure)

declare check_range.simps [simp del]

definition strip_0x :: "string \<Rightarrow> string" where
  "strip_0x s = (if take 2 s = ''0x'' then drop 2 s else s)"

definition log_verifyConsistency :: "nat \<Rightarrow> nat \<Rightarrow> string \<Rightarrow> string \<Rightarrow> string list \<Rightarrow> bool" where
  "log_verifyConsistency m n oldRoot newRoot pf =
     (if m = n then strip_0x oldRoot = strip_0x newRoot \<and> pf = []
      else if pf = [] then False
      else case check_range 0 n m pf of
          None \<Rightarrow> False
        | Some (h, old, rest) \<Rightarrow>
            (case old of
               None \<Rightarrow> False
             | Some o' \<Rightarrow> rest = [] \<and> to_hex h = strip_0x newRoot \<and> to_hex o' = strip_0x oldRoot))"

section \<open>The two tree implementations\<close>

lemma log_hashes: "log_leafHash = hashLeaf" "log_nodeHash = hashPair"
  by (simp_all add: log_leafHash_def hashLeaf_def log_nodeHash_def hashPair_def fun_eq_iff)

interpretation receipt_log: tree_hash "\<lambda>d. 0 # d" "\<lambda>l r. 1 # l @ r" log_leafHash log_nodeHash
  by unfold_locales (auto simp: log_leafHash_def log_nodeHash_def)

lemma next_level_pair_up: "next_level xs = pair_up log_nodeHash xs"
  by (induction xs rule: next_level.induct) simp_all

lemma level_root_tree: "xs \<noteq> [] \<Longrightarrow> level_root xs = tree_root log_nodeHash xs"
proof (induction xs rule: level_root.induct)
  case (1 level)
  show ?case
  proof (cases "1 < length level")
    case True
    then have "next_level level \<noteq> []" by (cases level rule: next_level.cases) auto
    with 1 True tree_root_pair_up [of level log_nodeHash] show ?thesis
      by (subst level_root.simps) (simp add: next_level_pair_up)
  next
    case False
    with 1 obtain x where "level = [x]" by (cases level; cases "tl level") auto
    then show ?thesis by (simp add: level_root.simps)
  qed
qed

lemma rootOf_tree: "xs \<noteq> [] \<Longrightarrow> rootOf xs = tree_root log_nodeHash xs"
  by (simp add: rootOf_def level_root_tree)

section \<open>Inclusion\<close>

lemma verify_steps_promoted:
  "even i \<Longrightarrow> i \<noteq> 0 \<Longrightarrow> ps \<noteq> [] \<Longrightarrow> verify_steps i i h ps = verify_steps (i div 2) (i div 2) h ps"
  by (cases ps; cases "even (i div 2)") (auto simp: skip_even_half Let_def elim!: evenE)

lemma lower_hex_char: "d < 16 \<Longrightarrow> lower_char (hex_char d) = hex_char d"
  by (auto simp: lower_char_def hex_char_def Let_def)

lemma high_digit: "unat (x :: byte) div 16 < 16"
  using byte_bound [of x] by simp

lemma lower_to_hex: "js_lower (to_hex xs) = to_hex xs"
  by (induction xs) (simp_all add: to_hex_def hex_byte_def js_lower_def lower_hex_char high_digit)

lemma buffer_to_hex: "buffer_hex (to_hex xs) = xs"
  by (induction xs) (simp_all add: to_hex_def hex_byte_def lower_hex_char hex_digit_hex_char high_digit)

lemma hex64_to_hex: "length b = 32 \<Longrightarrow> hex64 (to_hex b) \<and> buffer_hex (to_hex b) = b"
  using is_hex_to_hex by (simp add: hex64_def lower_to_hex buffer_to_hex)

lemma proof_levels_nonempty: "2 \<le> length xs \<Longrightarrow> i < length xs \<Longrightarrow> proof_levels xs i \<noteq> []"
proof (induction xs i rule: proof_levels.induct)
  case (1 level idx)
  show ?case
  proof (cases "step_for level idx = []")
    case True
    with "1.prems" have e: "even idx" "idx = length level - 1"
      by (auto simp: step_for_def Let_def split: if_splits)
    with "1.prems" have "2 \<le> length (next_level level)" "idx div 2 < length (next_level level)"
      by (auto elim!: evenE)
    with 1 show ?thesis by (subst proof_levels.simps) simp
  next
    case False
    with "1.prems" show ?thesis by (subst proof_levels.simps) simp
  qed
qed

lemma nodes_32: "(\<And>x. x \<in> set xs \<Longrightarrow> length x = 32) \<Longrightarrow> y \<in> set (next_level xs) \<Longrightarrow> length y = 32"
  by (induction xs rule: next_level.induct) (auto simp: receipt_log.node_length)

lemma verify_steps_complete:
  "i < length xs \<Longrightarrow> (\<And>x. x \<in> set xs \<Longrightarrow> length x = 32) \<Longrightarrow>
     verify_steps i (length xs - 1) (xs ! i) (proof_levels xs i) = Some (0, level_root xs)"
proof (induction xs i rule: proof_levels.induct)
  case (1 level i)
  show ?case
  proof (cases "1 < length level")
    case False
    with "1.prems" obtain x where "level = [x]" by (cases level; cases "tl level") auto
    with "1.prems" show ?thesis by (simp add: proof_levels.simps level_root.simps)
  next
    case True
    let ?n = "length level" and ?up = "next_level level"
    have root: "level_root level = level_root ?up" using True by (subst level_root.simps) simp
    have pl: "proof_levels level i = step_for level i @ proof_levels ?up (i div 2)"
      using True by (subst proof_levels.simps) simp
    have up: "i div 2 < length ?up" "length ?up - 1 = (?n - 1) div 2" using "1.prems" True by auto
    have IH: "verify_steps (i div 2) ((?n - 1) div 2) (?up ! (i div 2)) (proof_levels ?up (i div 2)) =
        Some (0, level_root level)"
      using 1(1) [OF True up(1)] nodes_32 [OF "1.prems"(2)] up(2) root by simp
    have hex: "hex64 (to_hex (level ! j)) \<and> buffer_hex (to_hex (level ! j)) = level ! j" if "j < ?n" for j
      using that "1.prems"(2) by (intro hex64_to_hex) simp
    consider (odd) "odd i" | (pair) "even i" "i + 1 < ?n" | (last) "even i" "i = ?n - 1" "i \<noteq> 0"
      using "1.prems" True by linarith
    then show ?thesis
    proof cases
      case odd
      with pair_up_nth [of "i div 2" level log_nodeHash] "1.prems"
      have "?up ! (i div 2) = log_nodeHash (level ! (i - 1)) (level ! i)"
        by (auto simp: next_level_pair_up elim!: oddE)
      moreover have "step_for level i = [\<lparr>ps_hash = to_hex (level ! (i - 1)), ps_position = ''left''\<rparr>]"
        using odd "1.prems" by (cases i) (auto simp: step_for_def)
      moreover have "?n - 1 \<noteq> 0" using True by simp
      ultimately show ?thesis using IH hex [of "i - 1"] odd "1.prems" by (simp add: pl Let_def)
    next
      case pair
      with pair_up_nth [of "i div 2" level log_nodeHash]
      have "?up ! (i div 2) = log_nodeHash (level ! i) (level ! (i + 1))"
        by (auto simp: next_level_pair_up elim!: evenE)
      moreover have "step_for level i = [\<lparr>ps_hash = to_hex (level ! (i + 1)), ps_position = ''right''\<rparr>]"
        using pair by (simp add: step_for_def)
      ultimately show ?thesis using IH hex [of "i + 1"] pair by (simp add: pl Let_def)
    next
      case last
      with pair_up_nth_last [of level "i div 2" log_nodeHash] True
      have "?up ! (i div 2) = level ! i"
        by (auto simp: next_level_pair_up elim!: evenE)
      moreover have "step_for level i = []" using last by (simp add: step_for_def)
      moreover have "proof_levels ?up (i div 2) \<noteq> []"
        using last True up by (intro proof_levels_nonempty) (auto elim!: evenE)
      ultimately show ?thesis
        using IH verify_steps_promoted [of i] last pl by simp
    qed
  qed
qed

text \<open>An accepted walk is the RFC's inclusion walk on the decoded nodes.\<close>

lemma verify_steps_walk:
  "verify_steps fn sn h ps = Some q \<Longrightarrow>
     incl_loop log_nodeHash fn sn h (map (buffer_hex \<circ> ps_hash) ps) = Some q \<and> list_all (hex64 \<circ> ps_hash) ps"
proof (induction fn sn h ps rule: verify_steps.induct)
  case (2 fn sn h p ps)
  then show ?case by (auto simp: Let_def split: if_splits prod.splits)
qed simp

lemma lower_hex_digit: "hex_digit (lower_char c) \<noteq> None \<Longrightarrow> \<exists>d. hex_digit (lower_char c) = Some d"
  by auto

lemma buffer_length: "is_hex (js_lower s) \<Longrightarrow> length (buffer_hex s) = length s div 2"
  by (induction s rule: buffer_hex.induct) (auto simp: is_hex_def js_lower_def split: option.split)

lemma hex64_length: "hex64 s \<Longrightarrow> length (buffer_hex s) = 32"
  by (simp add: hex64_def buffer_length)

lemma log_inclusion_sound:
  assumes "log_verifyInclusion leaf index treeSize rootHex pf"
    and "num_int treeSize = Some (int (length ds))" "root_text rootHex = to_hex (rootOf (map log_leafHash ds))"
    and "length leaf = 32"
  shows "\<exists>i. num_int index = Some (int i) \<and> i < length ds \<and>
    (leaf = log_leafHash (ds ! i) \<or>
     collision_between (map (\<lambda>p. 1 # fst p @ snd p)
         (incl_pairs log_nodeHash i (length ds - 1) leaf (map (buffer_hex \<circ> ps_hash) pf)))
       (mthInputs ds 0 (length ds)))"
proof -
  let ?xs = "map log_leafHash ds" and ?ns = "map (buffer_hex \<circ> ps_hash) pf"
  from assms(1,2) obtain j sn h where j: "num_int index = Some j" "0 \<le> j" "j < int (length ds)"
    and v: "verify_steps (nat j) (length ds - 1) leaf pf = Some (sn, h)" "sn = 0" "to_hex h = root_text rootHex"
    by (auto simp: log_verifyInclusion_def nat_diff_distrib split: if_splits option.splits)
  define i where "i = nat j"
  from j have i: "num_int index = Some (int i)" "i < length ds" by (auto simp: i_def)
  then have ne: "?xs \<noteq> []" by auto
  from v assms(3) ne have "h = tree_root log_nodeHash ?xs" by (simp add: to_hex_inject rootOf_tree)
  with verify_steps_walk [OF v(1)] v(2)
  have w: "incl_loop log_nodeHash i (length ?xs - 1) leaf ?ns = Some (0, tree_root log_nodeHash ?xs)"
    and hx: "list_all (hex64 \<circ> ps_hash) pf" by (simp_all add: i_def)
  have "i < length ?xs" using i by simp
  from incl_loop_sound [OF this w]
  have "leaf = log_leafHash (ds ! i) \<or> node_clash log_nodeHash (incl_pairs log_nodeHash i (length ?xs - 1) leaf ?ns)
      (tree_nodes log_nodeHash ?xs)" using i by auto
  then show ?thesis
  proof
    assume c: "node_clash log_nodeHash (incl_pairs log_nodeHash i (length ?xs - 1) leaf ?ns) (tree_nodes log_nodeHash ?xs)"
    have "collision_between (map (\<lambda>p. 1 # fst p @ snd p) (incl_pairs log_nodeHash i (length ?xs - 1) leaf ?ns))
        (mthInputs ds 0 (length ds))"
    proof (rule tree_clash_collision)
      show "node_clash hashPair (incl_pairs log_nodeHash i (length ?xs - 1) leaf ?ns) (tree_nodes hashPair (map hashLeaf ds))"
        using c by (simp add: log_hashes)
      show "ds \<noteq> []" using i by auto
      fix p assume "p \<in> set (incl_pairs log_nodeHash i (length ?xs - 1) leaf ?ns)"
      moreover have "length q = 32" if "q \<in> set ?ns" for q
        using that hx by (auto simp: list_all_iff hex64_length)
      ultimately show "length (fst p) = 32"
        using receipt_log.incl_pairs_length [OF assms(4)] by blast
    qed
    with i show ?thesis by auto
  qed (use i in auto)
qed

section \<open>Consistency\<close>

text \<open>The root of a range of a tree, and how a range splits.\<close>

definition range_root :: "bytes list \<Rightarrow> nat \<Rightarrow> nat \<Rightarrow> bytes" where
  "range_root xs s e = tree_root log_nodeHash (take (e - s) (drop s xs))"

lemma range_root_rootOf: "s < e \<Longrightarrow> e \<le> length xs \<Longrightarrow> rootOf (take (e - s) (drop s xs)) = range_root xs s e"
  by (simp add: range_root_def rootOf_tree)

lemma range_root_split:
  assumes "s + 2 \<le> e" "e \<le> length xs" "k = largestPowerOfTwoLessThan (e - s)"
  shows "range_root xs s e = log_nodeHash (range_root xs s (s + k)) (range_root xs (s + k) e)"
proof -
  let ?ys = "take (e - s) (drop s xs)"
  have n: "length ?ys = e - s" "2 \<le> length ?ys" using assms by simp_all
  have k: "0 < k" "k < e - s" using assms by (simp_all add: lp2_pos lp2_less)
  have "take k ?ys = take k (drop s xs)" "drop k ?ys = take (e - (s + k)) (drop (s + k) xs)"
    using k by (simp_all add: drop_take min_def add.commute)
  with tree_root_split [OF n(2), of log_nodeHash] n(1) assms(3) show ?thesis
    by (simp add: range_root_def)
qed

text \<open>The old part of a range that the end of the old tree cuts on the right splits at the same point.\<close>

lemma old_range_split:
  assumes "s + k < m" "m < e" "s + 2 \<le> e" "e \<le> length xs" "k = largestPowerOfTwoLessThan (e - s)"
  shows "range_root xs s m = log_nodeHash (range_root xs s (s + k)) (range_root xs (s + k) m)"
proof -
  have "2 \<le> e - s" using assms by simp
  then obtain j where j: "k = 2 ^ j" "2 ^ j < e - s" "e - s \<le> 2 * 2 ^ j"
    using lp2_spec assms(5) by metis
  with assms have "2 ^ j < m - s" "m - s \<le> 2 * 2 ^ j" by auto
  then have "k = largestPowerOfTwoLessThan (m - s)" using lp2_eqI j(1) by simp
  moreover have "0 < k" using j by simp
  ultimately show ?thesis using assms by (intro range_root_split) auto
qed

definition old_part :: "bytes list \<Rightarrow> nat \<Rightarrow> nat \<Rightarrow> nat \<Rightarrow> bytes option" where
  "old_part xs s e m = (if s < m then Some (range_root xs s (min e m)) else None)"

lemma old_part_join:
  assumes "s < m" "m < e" "e \<le> length xs" "k = largestPowerOfTwoLessThan (e - s)"
  shows "(case (old_part xs s (s + k) m, old_part xs (s + k) e m) of
      (Some l, Some r) \<Rightarrow> Some (log_nodeHash l r)
    | (Some l, None) \<Rightarrow> if m \<le> s + k then Some l else None
    | _ \<Rightarrow> None) = old_part xs s e m"
proof (cases "s + k < m")
  case True
  then have "min (s + k) m = s + k" "min e m = m" using assms by auto
  with True assms old_range_split [OF True assms(2) _ assms(3,4)] show ?thesis
    by (simp add: old_part_def)
next
  case False
  then have "min (s + k) m = m" "min e m = m" using assms by auto
  with False assms show ?thesis by (simp add: old_part_def)
qed

lemma prove_32:
  assumes "\<And>x. x \<in> set xs \<Longrightarrow> length x = 32" "s < e" "e \<le> length xs"
  shows "length (range_root xs s e) = 32"
  unfolding range_root_def
proof (rule receipt_log.tree_root_length)
  show "take (e - s) (drop s xs) \<noteq> []" using assms(2,3) by simp
  show "length x = 32" if "x \<in> set (take (e - s) (drop s xs))" for x
    using that assms(1) by (meson in_set_dropD in_set_takeD)
qed

lemma check_prove:
  assumes "\<And>x. x \<in> set xs \<Longrightarrow> length x = 32"
  shows "s < e \<Longrightarrow> e \<le> length xs \<Longrightarrow>
    check_range s e m (map to_hex (prove xs s e m) @ rest) = Some (range_root xs s e, old_part xs s e m, rest)"
proof (induction "e - s" arbitrary: s e rest rule: less_induct)
  case less
  note b = hex64_to_hex [OF prove_32 [OF assms less.prems], THEN conjunct2]
  note r = range_root_rootOf [OF less.prems]
  consider "e \<le> m" | "\<not> e \<le> m" "m \<le> s" | "\<not> e \<le> m" "\<not> m \<le> s" by blast
  then show ?case
  proof cases
    case 1
    with less.prems have "min e m = e" "s < m" by auto
    with 1 less.prems b r show ?thesis
      by (subst check_range.simps, subst prove.simps) (simp add: old_part_def)
  next
    case 2
    with less.prems b r show ?thesis
      by (subst check_range.simps, subst prove.simps) (simp add: old_part_def)
  next
    case 3
    let ?k = "largestPowerOfTwoLessThan (e - s)"
    note k = split_range [OF 3]
    have p: "prove xs s e m = prove xs s (s + ?k) m @ prove xs (s + ?k) e m"
      using 3 by (subst prove.simps) (simp add: Let_def)
    have l: "check_range s (s + ?k) m (map to_hex (prove xs s (s + ?k) m) @ q) =
        Some (range_root xs s (s + ?k), old_part xs s (s + ?k) m, q)" for q
      using less.hyps [of "s + ?k" s q] k less.prems by simp
    have rt: "check_range (s + ?k) e m (map to_hex (prove xs (s + ?k) e m) @ rest) =
        Some (range_root xs (s + ?k) e, old_part xs (s + ?k) e m, rest)"
      using less.hyps [of e "s + ?k" rest] k less.prems by simp
    have "s + 2 \<le> e" "s < m" "m < e" using 3 by auto
    with range_root_split [of s e xs ?k] old_part_join [of s m e xs ?k] less.prems(2) 3 l rt
    show ?thesis by (subst check_range.simps) (simp add: p Let_def)
  qed
qed

lemma check_range_whole:
  "e \<le> m \<Longrightarrow> check_range s e m (p # ps) = Some (buffer_hex p, Some (buffer_hex p), ps)"
  "\<not> e \<le> m \<Longrightarrow> m \<le> s \<Longrightarrow> check_range s e m (p # ps) = Some (buffer_hex p, None, ps)"
  by (simp_all add: check_range.simps)

lemma prove_nonempty: "s < e \<Longrightarrow> prove xs s e m \<noteq> []"
proof (induction "e - s" arbitrary: s e rule: less_induct)
  case less
  show ?case
  proof (cases "e \<le> m \<or> m \<le> s")
    case True
    with less.prems show ?thesis by (subst prove.simps) auto
  next
    case False
    then have 3: "\<not> e \<le> m" "\<not> m \<le> s" by auto
    note k = split_range [OF 3]
    with less.hyps [of "s + largestPowerOfTwoLessThan (e - s)" s] 3 less.prems show ?thesis
      by (subst prove.simps) (simp add: Let_def)
  qed
qed

text \<open>The text \<open>to_hex\<close> writes never starts with \<open>0x\<close>.\<close>

lemma strip_0x_to_hex [simp]: "strip_0x (to_hex b) = to_hex b"
proof (cases b)
  case (Cons x y)
  have "hex_char d \<noteq> CHR ''x''" if "d < 16" for d
    using hex_digit_hex_char [OF that] by (auto simp: hex_digit_def)
  moreover have "unat x mod 16 < 16" by simp
  ultimately show ?thesis by (simp add: Cons strip_0x_def to_hex_def hex_byte_def)
qed (simp add: strip_0x_def to_hex_def)

lemma log_consistency_complete:
  assumes "0 < m" "m < n" "n \<le> length xs" "\<And>x. x \<in> set xs \<Longrightarrow> length x = 32"
  shows "\<exists>pf. log_consistencyProof xs m n = Some pf \<and>
    log_verifyConsistency m n (to_hex (rootOf (take m xs))) (to_hex (rootOf (take n xs))) pf"
proof -
  let ?p = "map to_hex (prove xs 0 n m)"
  have c: "check_range 0 n m ?p = Some (range_root xs 0 n, old_part xs 0 n m, [])"
    using check_prove [where s = 0 and e = n and m = m and rest = "[]" and xs = xs] assms by simp
  have "?p \<noteq> []" using prove_nonempty [of 0 n xs m] assms(1,2) by simp
  moreover have "rootOf (take m xs) = range_root xs 0 m" "rootOf (take n xs) = range_root xs 0 n"
    using range_root_rootOf [of 0 m xs] range_root_rootOf [of 0 n xs] assms(1-3) by simp_all
  ultimately have "log_verifyConsistency m n (to_hex (rootOf (take m xs))) (to_hex (rootOf (take n xs))) ?p"
    using c assms(1,2) by (simp add: log_verifyConsistency_def old_part_def)
  with assms show ?thesis by (simp add: log_consistencyProof_def)
qed

text \<open>The pairs of nodes that the check combines.\<close>

function check_pairs :: "nat \<Rightarrow> nat \<Rightarrow> nat \<Rightarrow> string list \<Rightarrow> (bytes \<times> bytes) list" where
  "check_pairs start end oldEnd pf =
     (if end \<le> oldEnd then []
      else if oldEnd \<le> start then []
      else let k = largestPowerOfTwoLessThan (end - start)
        in case check_range start (start + k) oldEnd pf of
             None \<Rightarrow> []
           | Some (lh, lo, ps) \<Rightarrow>
               (case check_range (start + k) end oldEnd ps of
                  None \<Rightarrow> []
                | Some (rh, ro, qs) \<Rightarrow>
                    (lh, rh) # check_pairs start (start + k) oldEnd pf @ check_pairs (start + k) end oldEnd ps))"
  by pat_completeness auto
termination
  by (relation "measure (\<lambda>(start, end, oldEnd, pf). end - start)")
     (auto simp: split_range intro: split_measure)

declare check_pairs.simps [simp del]

text \<open>A check that crosses the end of the old tree, taken apart.\<close>

lemma check_rangeE:
  assumes "check_range s e m pf = Some (h, v, rest)" "\<not> e \<le> m" "\<not> m \<le> s" "largestPowerOfTwoLessThan (e - s) = k"
  obtains lh lo ps rh ro where "check_range s (s + k) m pf = Some (lh, lo, ps)"
    "check_range (s + k) e m ps = Some (rh, ro, rest)" "h = log_nodeHash lh rh"
    "v = (case (lo, ro) of (Some l, Some r) \<Rightarrow> Some (log_nodeHash l r)
          | (Some l, None) \<Rightarrow> if m \<le> s + k then Some l else None | _ \<Rightarrow> None)"
    "check_pairs s e m pf = (lh, rh) # check_pairs s (s + k) m pf @ check_pairs (s + k) e m ps"
proof -
  from assms(1) obtain lh lo ps where l: "check_range s (s + k) m pf = Some (lh, lo, ps)"
    using assms(2-4) by (subst (asm) check_range.simps) (auto simp: Let_def split: option.splits)
  with assms(1) obtain rh ro qs where r: "check_range (s + k) e m ps = Some (rh, ro, qs)"
    using assms(2-4) by (subst (asm) check_range.simps) (auto simp: Let_def split: option.splits)
  have "Some (h, v, rest) = Some (log_nodeHash lh rh, (case (lo, ro) of (Some l, Some r) \<Rightarrow> Some (log_nodeHash l r)
      | (Some l, None) \<Rightarrow> if m \<le> s + k then Some l else None | _ \<Rightarrow> None), qs)"
    unfolding assms(1) [symmetric] using assms(2-4) l r by (subst check_range.simps) (simp add: Let_def)
  moreover have "check_pairs s e m pf = (lh, rh) # check_pairs s (s + k) m pf @ check_pairs (s + k) e m ps"
    using assms(2-4) l r by (subst check_pairs.simps) (simp add: Let_def)
  ultimately show ?thesis using that l r by simp
qed

lemma check_32:
  "list_all hex64 pf \<Longrightarrow> check_range s e m pf = Some (h, v, rest) \<Longrightarrow>
     length h = 32 \<and> list_all hex64 rest \<and> (\<forall>p \<in> set (check_pairs s e m pf). length (fst p) = 32)"
proof (induction "e - s" arbitrary: s e pf h v rest rule: less_induct)
  case less
  show ?case
  proof (cases "e \<le> m \<or> m \<le> s")
    case True
    with less.prems show ?thesis
      by (subst (asm) check_range.simps, subst check_pairs.simps)
         (auto simp: hex64_length split: list.splits if_splits)
  next
    case False
    then have 3: "\<not> e \<le> m" "\<not> m \<le> s" by auto
    note k = split_range [OF 3]
    from less.prems(2) 3 refl show ?thesis
    proof (rule check_rangeE)
      fix lh lo ps rh ro
      assume a: "check_range s (s + largestPowerOfTwoLessThan (e - s)) m pf = Some (lh, lo, ps)"
        "check_range (s + largestPowerOfTwoLessThan (e - s)) e m ps = Some (rh, ro, rest)" "h = log_nodeHash lh rh"
        "check_pairs s e m pf = (lh, rh) # check_pairs s (s + largestPowerOfTwoLessThan (e - s)) m pf
           @ check_pairs (s + largestPowerOfTwoLessThan (e - s)) e m ps"
      from less.hyps [OF _ less.prems(1) a(1)] k have l: "length lh = 32" "list_all hex64 ps"
        "\<forall>p \<in> set (check_pairs s (s + largestPowerOfTwoLessThan (e - s)) m pf). length (fst p) = 32" by simp_all
      from less.hyps [OF split_measure [OF 3] l(2) a(2)] l a(3,4) show ?thesis
        by (auto simp: receipt_log.node_length)
    qed
  qed
qed

lemma check_sound:
  "s < e \<Longrightarrow> e \<le> length xs \<Longrightarrow> check_range s e m pf = Some (range_root xs s e, v, rest) \<Longrightarrow>
     v = old_part xs s e m \<or> node_clash log_nodeHash (check_pairs s e m pf) (tree_nodes log_nodeHash (take (e - s) (drop s xs)))"
proof (induction "e - s" arbitrary: s e pf v rest rule: less_induct)
  case less
  show ?case
  proof (cases "e \<le> m \<or> m \<le> s")
    case True
    have "v = (if e \<le> m then Some (range_root xs s e) else None)"
      using less.prems(3) True
      by (subst (asm) check_range.simps) (auto split: list.splits if_splits)
    moreover from True less.prems(1) have "old_part xs s e m = (if e \<le> m then Some (range_root xs s e) else None)"
      by (auto simp: old_part_def min_def)
    ultimately show ?thesis by simp
  next
    case False
    then have 3: "\<not> e \<le> m" "\<not> m \<le> s" by auto
    let ?k = "largestPowerOfTwoLessThan (e - s)" and ?H = "log_nodeHash"
    let ?T = "\<lambda>s e. tree_nodes ?H (take (e - s) (drop s xs))"
    note k = split_range [OF 3]
    have n: "2 \<le> length (take (e - s) (drop s xs))" using 3 less.prems by simp
    have "take ?k (take (e - s) (drop s xs)) = take (s + ?k - s) (drop s xs)"
      "drop ?k (take (e - s) (drop s xs)) = take (e - (s + ?k)) (drop (s + ?k) xs)"
      using k by (simp_all add: drop_take min_def add.commute)
    with tree_nodes_split [OF n, of ?H] n less.prems(2)
    have nodes: "set (?T s e) = insert (range_root xs s (s + ?k), range_root xs (s + ?k) e)
        (set (?T s (s + ?k)) \<union> set (?T (s + ?k) e))"
      by (simp add: range_root_def Let_def)
    from less.prems(3) 3 refl show ?thesis
    proof (rule check_rangeE)
      fix lh lo ps rh ro
      assume a: "check_range s (s + ?k) m pf = Some (lh, lo, ps)" "check_range (s + ?k) e m ps = Some (rh, ro, rest)"
        "range_root xs s e = ?H lh rh"
        "v = (case (lo, ro) of (Some l, Some r) \<Rightarrow> Some (?H l r)
          | (Some l, None) \<Rightarrow> if m \<le> s + ?k then Some l else None | _ \<Rightarrow> None)"
        "check_pairs s e m pf = (lh, rh) # check_pairs s (s + ?k) m pf @ check_pairs (s + ?k) e m ps"
      let ?clash = "node_clash ?H (check_pairs s e m pf) (?T s e)"
      have "?H lh rh = ?H (range_root xs s (s + ?k)) (range_root xs (s + ?k) e)"
        using range_root_split [of s e xs ?k] a(3) 3 less.prems(2) by simp
      from node_clashI [of ?H lh rh "range_root xs s (s + ?k)" "range_root xs (s + ?k) e"
          "check_pairs s e m pf" "?T s e"] this a(5) nodes
      have hit: "(lh = range_root xs s (s + ?k) \<and> rh = range_root xs (s + ?k) e) \<or> ?clash" by simp
      show ?thesis
      proof (rule disjE [OF hit])
        assume eq: "lh = range_root xs s (s + ?k) \<and> rh = range_root xs (s + ?k) e"
        have "lo = old_part xs s (s + ?k) m \<or> node_clash ?H (check_pairs s (s + ?k) m pf) (?T s (s + ?k))"
          using less.hyps [of "s + ?k" s pf lo ps] a(1) eq k less.prems by simp
        moreover have "ro = old_part xs (s + ?k) e m \<or> node_clash ?H (check_pairs (s + ?k) e m ps) (?T (s + ?k) e)"
          using less.hyps [of e "s + ?k" ps ro rest] a(2) eq k less.prems by simp
        moreover have "node_clash ?H ps' qs' \<Longrightarrow> set ps' \<subseteq> set (check_pairs s e m pf) \<Longrightarrow> set qs' \<subseteq> set (?T s e) \<Longrightarrow> ?clash"
          for ps' qs' by (rule node_clash_mono)
        ultimately show ?thesis
          using a(4,5) nodes old_part_join [of s m e xs ?k] 3 less.prems(2) by auto
      qed simp
    qed
  qed
qed

lemma root_text_to_hex: "root_text (to_hex b) = to_hex b"
  using strip_0x_to_hex [of b] by (simp add: root_text_def strip_0x_def lower_to_hex)

lemma verifyConsistency_range:
  assumes "log_verifyConsistency m n oldRoot newRoot pf" "m \<noteq> n"
  obtains h v where "check_range 0 n m pf = Some (h, Some v, [])"
    "to_hex h = strip_0x newRoot" "to_hex v = strip_0x oldRoot"
  using assms that by (auto simp: log_verifyConsistency_def split: if_splits option.splits prod.splits)

lemma consistency_clash:
  assumes "0 < m" "m < length xs" "\<And>x. x \<in> set xs \<Longrightarrow> length x = 32" "list_all hex64 pf"
    and "log_verifyConsistency m (length xs) oldRoot (to_hex (rootOf xs)) pf"
  shows "strip_0x oldRoot = to_hex (rootOf (take m xs)) \<or>
    node_clash log_nodeHash (check_pairs 0 (length xs) m pf) (tree_nodes log_nodeHash xs)"
proof -
  have lt: "m \<noteq> length xs" "0 < length xs" "xs \<noteq> []" using assms(1,2) by auto
  from verifyConsistency_range [OF assms(5) lt(1)] obtain h v
    where c: "check_range 0 (length xs) m pf = Some (h, Some v, [])"
      and h: "to_hex h = strip_0x (to_hex (rootOf xs))" and v: "to_hex v = strip_0x oldRoot" by blast
  have "rootOf xs = range_root xs 0 (length xs)" "rootOf (take m xs) = range_root xs 0 m"
    using range_root_rootOf [of 0 m xs] range_root_rootOf [of 0 "length xs" xs] assms(1,2) lt by simp_all
  moreover from h have "h = rootOf xs" by (simp add: to_hex_inject)
  ultimately show ?thesis
    using check_sound [of 0 "length xs" xs m pf "Some v" "[]"] c v lt(2) assms(1,2)
    by (auto simp: old_part_def min_def)
qed

section \<open>Properties\<close>

text \<open>
  The gateway's own hash tree and the tree of the RFC 9162 module are the same
  function: the root by pairwise levels is the recursive Merkle tree hash, of every list of
  entries, the empty one excepted (the gateway hashes a zero byte there).
\<close>

theorem log_root_is_rfc9162:
  assumes "ds \<noteq> []"
  shows "rootOf (map log_leafHash ds) = mthRange ds 0 (length ds)"
  using assms by (simp add: rootOf_tree log_hashes mthRange_tree)

theorem log_root_is_rfc9162_witness:
  "rootOf (map log_leafHash [[1], [2], [3 :: byte]]) = mthRange [[1], [2], [3]] 0 (length [[1], [2], [3 :: byte]])"
  by (rule log_root_is_rfc9162) simp

text \<open>
  \<open>verifyInclusion\<close> of the receipt log takes no false proof: a leaf hash it
  accepts at an index against the root and the size of a log is the leaf hash of the entry at
  that index, or the verifier and the tree hash hashed an explicit SHA-256 collision.
\<close>

theorem log_inclusion_binds:
  assumes "log_verifyInclusion leaf index treeSize rootHex pf"
    and "num_int treeSize = Some (int (length ds))" "root_text rootHex = to_hex (rootOf (map log_leafHash ds))"
    and "length leaf = 32"
  shows "\<exists>i. num_int index = Some (int i) \<and> i < length ds \<and>
    (leaf = log_leafHash (ds ! i) \<or>
     collision_between (map (\<lambda>p. 1 # fst p @ snd p)
         (incl_pairs log_nodeHash i (length ds - 1) leaf (map (buffer_hex \<circ> ps_hash) pf)))
       (mthInputs ds 0 (length ds)))"
  using log_inclusion_sound [OF assms] .

theorem log_inclusion_binds_witness:
  "\<exists>i. num_int (JInt 0) = Some (int i) \<and> i < length [[5 :: byte]] \<and>
    (log_leafHash [5] = log_leafHash ([[5]] ! i) \<or>
     collision_between (map (\<lambda>p. 1 # fst p @ snd p)
         (incl_pairs log_nodeHash i (length [[5 :: byte]] - 1) (log_leafHash [5]) (map (buffer_hex \<circ> ps_hash) ([] :: proof_step list))))
       (mthInputs [[5]] 0 (length [[5 :: byte]])))"
proof (rule log_inclusion_binds)
  show "num_int (JInt 1) = Some (int (length [[5 :: byte]]))" by (simp add: num_int_def)
  show len: "length (log_leafHash [5]) = 32" by (rule receipt_log.leaf_length)
  have one: "rootOf (map log_leafHash [[5]]) = log_leafHash [5]" by (simp add: rootOf_def level_root.simps)
  show "root_text (to_hex (log_leafHash [5])) = to_hex (rootOf (map log_leafHash [[5]]))"
    unfolding one by (rule root_text_to_hex)
  show "log_verifyInclusion (log_leafHash [5]) (JInt 0) (JInt 1) (to_hex (log_leafHash [5])) []"
    by (simp add: log_verifyInclusion_def is_safe_integer_def num_int_def root_text_to_hex
        hex64_to_hex [OF len])
qed

text \<open>
  Property C3. The consistency check of the receipt log, on proof nodes of 32 bytes, is an
  append-only guarantee: an old root it accepts against the root of a log is the root of the
  first \<open>m\<close> entries, or the check and the tree hash hashed an explicit SHA-256 collision.
\<close>

theorem log_consistency_binds:
  assumes "0 < m" "m < length ds" "list_all hex64 pf"
    and "log_verifyConsistency m (length ds) oldRoot (to_hex (rootOf (map log_leafHash ds))) pf"
  shows "strip_0x oldRoot = to_hex (rootOf (map log_leafHash (take m ds))) \<or>
    collision_between (map (\<lambda>p. 1 # fst p @ snd p) (check_pairs 0 (length ds) m pf)) (mthInputs ds 0 (length ds))"
proof -
  let ?xs = "map log_leafHash ds" and ?ps = "check_pairs 0 (length ds) m pf"
  have len: "x \<in> set ?xs \<Longrightarrow> length x = 32" for x by (auto simp: receipt_log.leaf_length)
  have "strip_0x oldRoot = to_hex (rootOf (map log_leafHash (take m ds))) \<or>
      node_clash log_nodeHash ?ps (tree_nodes log_nodeHash ?xs)"
    using consistency_clash [of m ?xs pf oldRoot] len assms by (simp add: take_map)
  moreover from assms(1,2) have "m \<noteq> length ds" by simp
  with assms(4) obtain h v where "check_range 0 (length ds) m pf = Some (h, Some v, [])"
    by (blast elim: verifyConsistency_range)
  with check_32 [OF assms(3)] have "p \<in> set ?ps \<Longrightarrow> length (fst p) = 32" for p by blast
  moreover have "ds \<noteq> []" using assms(2) by auto
  ultimately show ?thesis
    using tree_clash_collision [of ?ps ds] by (auto simp: log_hashes)
qed

theorem log_consistency_binds_witness:
  "strip_0x (to_hex (log_leafHash [7])) = to_hex (rootOf (map log_leafHash (take 1 [[7], [9 :: byte]]))) \<or>
    collision_between (map (\<lambda>p. 1 # fst p @ snd p)
        (check_pairs 0 (length [[7], [9 :: byte]]) 1 [to_hex (log_leafHash [7]), to_hex (log_leafHash [9])]))
      (mthInputs [[7], [9]] 0 (length [[7], [9 :: byte]]))"
proof (rule log_consistency_binds)
  have len: "length (log_leafHash d) = 32" for d by (rule receipt_log.leaf_length)
  note hex = hex64_to_hex [OF len]
  show "list_all hex64 [to_hex (log_leafHash [7]), to_hex (log_leafHash [9])]" by (simp add: hex)
  have k: "largestPowerOfTwoLessThan 2 = 1" by code_simp
  have r: "rootOf [x, y] = log_nodeHash x y" for x y by (simp add: rootOf_def level_root.simps)
  have "check_range 0 2 1 [to_hex (log_leafHash [7]), to_hex (log_leafHash [9])] =
      Some (log_nodeHash (log_leafHash [7]) (log_leafHash [9]), Some (log_leafHash [7]), [])"
    by (simp add: check_range.simps [of 0 2] check_range_whole k hex)
  then show "log_verifyConsistency 1 (length [[7], [9 :: byte]]) (to_hex (log_leafHash [7]))
      (to_hex (rootOf (map log_leafHash [[7], [9]]))) [to_hex (log_leafHash [7]), to_hex (log_leafHash [9])]"
    by (simp add: log_verifyConsistency_def r numeral_2_eq_2 [symmetric])
qed simp_all

text \<open>
  The restriction to nodes of 32 bytes is needed, and the code does not make it:
  whatever the leaves \<open>l0\<close>, \<open>l1\<close>, \<open>l2\<close> and \<open>b # t\<close> are, the check accepts at size 3, against the
  log of these four, an old root that is the hash of another string than the one the first
  three leaves hash to: the boundary between two nodes can move by a byte.
\<close>

theorem log_consistency_short_nodes:
  "log_verifyConsistency 3 4 (to_hex (sha256 (1 # log_nodeHash l0 l1 @ (l2 @ [b])))) (to_hex (rootOf [l0, l1, l2, b # t]))
     (map to_hex [log_nodeHash l0 l1, l2 @ [b], t]) \<and>
   rootOf [l0, l1, l2] = sha256 (1 # log_nodeHash l0 l1 @ l2)"
proof
  have k: "largestPowerOfTwoLessThan 4 = 2" "largestPowerOfTwoLessThan 2 = 1" by code_simp+
  have r: "rootOf [l0, l1, l2, b # t] = log_nodeHash (log_nodeHash l0 l1) (log_nodeHash l2 (b # t))"
    by (simp add: rootOf_def level_root.simps)
  have n: "log_nodeHash (l2 @ [b]) t = log_nodeHash l2 (b # t)" by (simp add: log_nodeHash_def)
  have "check_range 2 4 3 [to_hex (l2 @ [b]), to_hex t] =
      Some (log_nodeHash l2 (b # t), Some (l2 @ [b]), [])"
    by (simp add: check_range.simps [of 2 4] check_range_whole k n buffer_to_hex)
  then have "check_range 0 4 3 (map to_hex [log_nodeHash l0 l1, l2 @ [b], t]) =
      Some (log_nodeHash (log_nodeHash l0 l1) (log_nodeHash l2 (b # t)),
        Some (log_nodeHash (log_nodeHash l0 l1) (l2 @ [b])), [])"
    by (simp add: check_range.simps [of 0 4] check_range_whole k buffer_to_hex del: add_2_eq_Suc add_2_eq_Suc')
  then show "log_verifyConsistency 3 4 (to_hex (sha256 (1 # log_nodeHash l0 l1 @ (l2 @ [b]))))
      (to_hex (rootOf [l0, l1, l2, b # t])) (map to_hex [log_nodeHash l0 l1, l2 @ [b], t])"
    by (simp add: log_verifyConsistency_def r) (simp add: log_nodeHash_def)
  show "rootOf [l0, l1, l2] = sha256 (1 # log_nodeHash l0 l1 @ l2)"
    by (simp add: rootOf_def level_root.simps) (simp add: log_nodeHash_def)
qed

section \<open>The loops end\<close>

text \<open>
  The loops as the source writes them, as a search for the first state where the condition
  fails; \<open>None\<close> would be a loop that runs for ever.
\<close>

definition level_loop :: "bytes list \<Rightarrow> bytes list option" where
  "level_loop level = while_option (\<lambda>l. 1 < length l) next_level level"

definition split_loop :: "nat \<Rightarrow> nat option" where
  "split_loop n = while_option (\<lambda>p. p * 2 < n) (\<lambda>p. p * 2) 1"

lemma while_option_split_loop:
  "0 < p \<Longrightarrow> while_option (\<lambda>p. p * 2 < n) (\<lambda>p. p * 2) p = Some (lp2_loop p n)"
proof (induction p n rule: lp2_loop.induct)
  case (1 k n)
  show ?case
  proof (cases "k * 2 < n")
    case True
    with 1 show ?thesis by (subst while_option_unfold, subst lp2_loop.simps) simp
  next
    case False
    with 1(2) show ?thesis by (subst while_option_unfold, subst lp2_loop.simps) simp
  qed
qed

lemma level_loop_root: "level \<noteq> [] \<Longrightarrow> level_loop level = Some [level_root level]"
proof (induction level rule: level_root.induct)
  case (1 level)
  show ?case
  proof (cases "1 < length level")
    case True
    then have "next_level level \<noteq> []" by (cases level rule: next_level.cases) auto
    with 1 True show ?thesis
      by (simp add: level_loop_def while_option_unfold [of _ _ level] level_root.simps [of level])
  next
    case False
    with 1(2) obtain x where "level = [x]" by (cases level; cases "tl level") auto
    then show ?thesis by (simp add: level_loop_def while_option_unfold [of _ _ "[x]"] level_root.simps)
  qed
qed

text \<open>
  Property C39. The loops of the log's tree end: the loop of \<open>rootOf\<close> reaches a single node, the
  root, from every list that is not empty, and the loop of \<open>largestPowerOfTwoLessThan\<close> reaches
  the split point of the proofs for every size.
\<close>

theorem log_loops_end:
  assumes "leaves \<noteq> []"
  shows "level_loop leaves = Some [rootOf leaves] \<and> split_loop n = Some (largestPowerOfTwoLessThan n)"
  using level_loop_root [OF assms] while_option_split_loop [of 1 n] assms
  by (simp add: rootOf_def split_loop_def largestPowerOfTwoLessThan_def)

theorem log_loops_end_witness:
  "level_loop [[1], [2], [3]] = Some [rootOf [[1], [2], [3]]] \<and> split_loop 3 = Some (largestPowerOfTwoLessThan 3)"
  by (rule log_loops_end) simp

end
