(* ===== verification/Log_Replay.thy ===== *)
theory Log_Replay
  imports Log_Tree Js_Store
begin

text \<open>
  The stored receipt log, services/gateway/src/receipt-log-store.js: the replay of the journal
  at boot, with the hash functions of receipt-log-epoch.js that it uses. A journal is a list of
  parsed rows in file order; base64 text stands for its bytes, and the empty text for a field
  that is null or absent. The verdict on the signature of a stored head is a parameter. Rows
  that replay does not fold into epochs (anchors, intents, records, acknowledgements) are one
  constructor.
\<close>

section \<open>Hashes of an epoch\<close>

definition epochLeafHash :: "bytes \<Rightarrow> bytes" where
  "epochLeafHash body = sha256 (0 # body)"

definition epochNodeHash :: "bytes \<Rightarrow> bytes \<Rightarrow> bytes" where
  "epochNodeHash left right = sha256 (1 # left @ right)"

fun epoch_next :: "bytes list \<Rightarrow> bytes list" where
  "epoch_next (a # b # xs) = epochNodeHash a b # epoch_next xs"
| "epoch_next [x] = [x]"
| "epoch_next [] = []"

lemma length_epoch_next [simp]: "length (epoch_next xs) = (length xs + 1) div 2"
  by (induction xs rule: epoch_next.induct) auto

function epoch_level :: "bytes list \<Rightarrow> bytes" where
  "epoch_level level = (if 1 < length level then epoch_level (epoch_next level) else hd level)"
  by pat_completeness auto
termination
  by (relation "measure length") auto

declare epoch_level.simps [simp del]

definition epochRootOf :: "bytes list \<Rightarrow> bytes" where
  "epochRootOf leaves = (if leaves = [] then sha256 [0] else epoch_level leaves)"

text \<open>UTF-8 of a text of code units up to 255, as \<open>Buffer.from(text)\<close> writes it.\<close>

definition utf8_char :: "char \<Rightarrow> bytes" where
  "utf8_char c = (let n = of_char c :: nat in
     if n < 128 then [word_of_nat n] else [word_of_nat (192 + n div 64), word_of_nat (128 + n mod 64)])"

definition utf8 :: "string \<Rightarrow> bytes" where
  "utf8 s = concat (map utf8_char s)"

text \<open>The genesis body; the digest is text that JSON does not escape.\<close>

definition genesisBytes :: "string \<Rightarrow> bytes" where
  "genesisBytes digest =
     utf8 (''{\"schema\":\"chit402.tree_genesis.v1\",\"payload_version\":1,\"verifier_binary_build_digest\":\"''
       @ digest @ ''\"}'')"

definition receiptLeafBytes :: "string \<Rightarrow> string \<Rightarrow> bytes" where
  "receiptLeafBytes taskId rowHash = utf8 (taskId @ ''|'' @ rowHash)"

section \<open>Rows and epochs\<close>

record log_meta =
  lm_task :: string
  lm_index :: nat
  lm_kind :: string
  lm_leaf :: string
  lm_preimage :: bytes
  lm_epoch :: nat
  lm_at :: string

record stored_head =
  sh_root :: "string option"
  sh_size :: "jsnum option"

record head_signature =
  hs_present :: bool
  hs_valid :: bool
  hs_reason :: string

record leaf_row =
  lr_epoch :: nat
  lr_index :: "nat option"
  lr_task :: string
  lr_kind :: string
  lr_preimage :: bytes
  lr_leaf :: string
  lr_at :: string

datatype log_row =
    Epoch_open nat string nat
  | Leaf_line leaf_row
  | Head_line "stored_head option"
  | Epoch_close string "nat option"
  | Side_line
  | Unknown_line

datatype log_refusal =
    Missing_preimage
  | Leaf_index
  | Leaf_hash
  | Head_size
  | Root_mismatch
  | Head_signature
  | Head_without_epoch
  | Bad_head
  | Close_without_epoch
  | Bad_op
  | Empty_journal
  | Checkpoint_ahead
  | Missing_log

record quarantined_head =
  qh_epoch :: nat
  qh_size :: nat
  qh_prefix :: nat
  qh_root :: string

text \<open>An epoch as the tree holds it, and the bucket that replay fills.\<close>

record log_epoch =
  le_epoch :: nat
  le_prevRoot :: string
  le_prevSize :: nat
  le_closed :: bool
  le_leaves :: "bytes list"
  le_meta :: "log_meta list"
  le_byTask :: "(string, nat) jsmap"
  le_heads :: "stored_head list"

record epoch_bucket = log_epoch +
  eb_preimages :: "bytes list"
  eb_quarantined :: "quarantined_head list"

record finished_epoch =
  fe_epoch :: nat
  fe_closed :: bool
  fe_prevRoot :: string
  fe_prevSize :: nat
  fe_root :: "string option"
  fe_size :: nat
  fe_preimages :: "bytes list"
  fe_leaves :: "bytes list"
  fe_meta :: "log_meta list"
  fe_heads :: "stored_head list"
  fe_quarantined :: "quarantined_head list"

definition newEpochBucket :: "nat \<Rightarrow> string \<Rightarrow> nat \<Rightarrow> epoch_bucket" where
  "newEpochBucket n prevRoot prevSize =
     \<lparr>le_epoch = n, le_prevRoot = prevRoot, le_prevSize = prevSize, le_closed = False, le_leaves = [],
      le_meta = [], le_byTask = [], le_heads = [], eb_preimages = [], eb_quarantined = []\<rparr>"

definition finishEpoch :: "epoch_bucket \<Rightarrow> finished_epoch" where
  "finishEpoch b =
     \<lparr>fe_epoch = le_epoch b, fe_closed = le_closed b, fe_prevRoot = le_prevRoot b, fe_prevSize = le_prevSize b,
      fe_root = (if le_leaves b = [] then None else Some (to_hex (epochRootOf (le_leaves b)))),
      fe_size = length (le_leaves b), fe_preimages = eb_preimages b, fe_leaves = le_leaves b,
      fe_meta = le_meta b, fe_heads = le_heads b, fe_quarantined = eb_quarantined b\<rparr>"

definition row_kind :: "leaf_row \<Rightarrow> string" where
  "row_kind row =
     (if lr_kind row \<noteq> [] then lr_kind row else if lr_task row = ''genesis'' then ''genesis'' else ''receipt'')"

definition row_meta :: "epoch_bucket \<Rightarrow> leaf_row \<Rightarrow> log_meta" where
  "row_meta b row =
     \<lparr>lm_task = lr_task row, lm_index = length (le_leaves b), lm_kind = row_kind row,
      lm_leaf = to_hex (epochLeafHash (lr_preimage row)), lm_preimage = lr_preimage row,
      lm_epoch = le_epoch b, lm_at = lr_at row\<rparr>"

definition set_task :: "string \<Rightarrow> nat \<Rightarrow> (string, nat) jsmap \<Rightarrow> (string, nat) jsmap" where
  "set_task t i m = (if t = [] then m else jm_set t i m)"

definition pushLeaf :: "epoch_bucket \<Rightarrow> leaf_row \<Rightarrow> log_refusal + epoch_bucket" where
  "pushLeaf b row =
     (let index = length (le_leaves b); hash = epochLeafHash (lr_preimage row)
      in if lr_preimage row = [] then Inl Missing_preimage
         else if lr_index row \<noteq> None \<and> lr_index row \<noteq> Some index then Inl Leaf_index
         else if lr_leaf row \<noteq> [] \<and> lr_leaf row \<noteq> to_hex hash then Inl Leaf_hash
         else Inr (b\<lparr>le_leaves := le_leaves b @ [hash], eb_preimages := eb_preimages b @ [lr_preimage row],
                     le_meta := le_meta b @ [row_meta b row], le_byTask := set_task (lr_task row) index (le_byTask b)\<rparr>))"

definition prefixRootHex :: "bytes list \<Rightarrow> nat \<Rightarrow> string" where
  "prefixRootHex leaves n = (if n = 0 then to_hex (epochRootOf []) else to_hex (epochRootOf (take n leaves)))"

section \<open>Stored heads\<close>

definition rotated_key_reasons :: "string list" where
  "rotated_key_reasons = [''no_matching_key'', ''empty_jwks'']"

text \<open>\<open>Inr None\<close> keeps the head, \<open>Inr (Some k)\<close> quarantines it as the prefix of size \<open>k\<close>.\<close>

definition raced_head :: "head_signature \<Rightarrow> bytes list \<Rightarrow> nat \<Rightarrow> string \<Rightarrow> log_refusal + nat option" where
  "raced_head hsig leaves n stored =
     (case find (\<lambda>k. prefixRootHex leaves k = stored) (rev [1..<n]) of
        None \<Rightarrow> Inl Root_mismatch
      | Some k \<Rightarrow>
          if \<not> hs_present hsig then Inl Root_mismatch
          else if \<not> hs_valid hsig then Inl Head_signature
          else Inr (Some k))"

definition classifyStoredHead ::
    "(stored_head \<Rightarrow> head_signature) \<Rightarrow> epoch_bucket \<Rightarrow> stored_head \<Rightarrow> log_refusal + nat option" where
  "classifyStoredHead sig b head =
     (case (sh_root head, sh_size head) of
        (Some root, Some sz) \<Rightarrow>
          (case num_int sz of
             None \<Rightarrow> Inl Head_size
           | Some n \<Rightarrow>
               if n < 0 \<or> int (length (le_leaves b)) < n then Inl Head_size
               else if strip_0x root = prefixRootHex (le_leaves b) (nat n)
               then (if hs_present (sig head) \<and> \<not> hs_valid (sig head)
                        \<and> hs_reason (sig head) \<notin> set rotated_key_reasons
                     then Inl Head_signature else Inr None)
               else raced_head (sig head) (le_leaves b) (nat n) (strip_0x root))
      | _ \<Rightarrow> Inr None)"

definition quarantine_row :: "epoch_bucket \<Rightarrow> stored_head \<Rightarrow> nat \<Rightarrow> quarantined_head" where
  "quarantine_row b head k =
     \<lparr>qh_epoch = le_epoch b,
      qh_size = (case sh_size head of Some s \<Rightarrow> (case num_int s of Some n \<Rightarrow> nat n | None \<Rightarrow> 0) | None \<Rightarrow> 0),
      qh_prefix = k, qh_root = (case sh_root head of Some r \<Rightarrow> strip_0x r | None \<Rightarrow> [])\<rparr>"

definition storeHead ::
    "(stored_head \<Rightarrow> head_signature) \<Rightarrow> epoch_bucket \<Rightarrow> stored_head \<Rightarrow> log_refusal + epoch_bucket" where
  "storeHead sig b head =
     (case classifyStoredHead sig b head of
        Inl e \<Rightarrow> Inl e
      | Inr (Some k) \<Rightarrow> Inr (b\<lparr>eb_quarantined := eb_quarantined b @ [quarantine_row b head k]\<rparr>)
      | Inr None \<Rightarrow> Inr (b\<lparr>le_heads := le_heads b @ [head]\<rparr>))"

section \<open>Replay\<close>

type_synonym replay_state = "finished_epoch list \<times> epoch_bucket option"

definition closeEpoch :: "epoch_bucket \<Rightarrow> string \<Rightarrow> nat option \<Rightarrow> log_refusal + finished_epoch" where
  "closeEpoch b finalRoot finalSize =
     (let fin = finishEpoch (b\<lparr>le_closed := True\<rparr>)
      in if finalRoot \<noteq> [] \<and> fe_root fin \<noteq> Some finalRoot then Inl Root_mismatch
         else if finalSize \<noteq> None \<and> finalSize \<noteq> Some (fe_size fin) then Inl Head_size
         else Inr fin)"

fun replay_row :: "(stored_head \<Rightarrow> head_signature) \<Rightarrow> replay_state \<Rightarrow> log_row \<Rightarrow> log_refusal + replay_state" where
  "replay_row sig (es, cur) (Epoch_open n prevRoot prevSize) =
     (let es' = (case cur of
                   Some b \<Rightarrow> if le_closed b then es else es @ [finishEpoch (b\<lparr>le_closed := True\<rparr>)]
                 | None \<Rightarrow> es)
      in Inr (es', Some (newEpochBucket n prevRoot prevSize)))"
| "replay_row sig (es, cur) (Leaf_line row) =
     (let b = (case cur of Some b \<Rightarrow> b | None \<Rightarrow> newEpochBucket (if lr_epoch row = 0 then 1 else lr_epoch row) [] 0)
      in map_sum id (\<lambda>b'. (es, Some b')) (pushLeaf b row))"
| "replay_row sig (es, None) (Head_line h) = Inl Head_without_epoch"
| "replay_row sig (es, Some b) (Head_line None) = Inl Bad_head"
| "replay_row sig (es, Some b) (Head_line (Some h)) = map_sum id (\<lambda>b'. (es, Some b')) (storeHead sig b h)"
| "replay_row sig (es, None) (Epoch_close r n) = Inl Close_without_epoch"
| "replay_row sig (es, Some b) (Epoch_close r n) = map_sum id (\<lambda>f. (es @ [f], None)) (closeEpoch b r n)"
| "replay_row sig st Side_line = Inr st"
| "replay_row sig st Unknown_line = Inl Bad_op"

fun replay_rows :: "(stored_head \<Rightarrow> head_signature) \<Rightarrow> replay_state \<Rightarrow> log_row list \<Rightarrow> log_refusal + replay_state" where
  "replay_rows sig st [] = Inr st"
| "replay_rows sig st (r # rs) =
     (case replay_row sig st r of Inl e \<Rightarrow> Inl e | Inr st' \<Rightarrow> replay_rows sig st' rs)"

definition replayed_epochs :: "replay_state \<Rightarrow> finished_epoch list" where
  "replayed_epochs st = fst st @ (case snd st of Some b \<Rightarrow> [finishEpoch b] | None \<Rightarrow> [])"

record checkpoint_row =
  cp_size :: nat
  cp_root :: string

fun check_checkpoint :: "checkpoint_row list \<Rightarrow> finished_epoch list \<Rightarrow> log_refusal option" where
  "check_checkpoint [] es = None"
| "check_checkpoint (c # cs) [] = Some Checkpoint_ahead"
| "check_checkpoint (c # cs) (e # es) =
     (if fe_size e < cp_size c then Some Checkpoint_ahead
      else if cp_size c = fe_size e \<and> cp_root c \<noteq> [] \<and> fe_root e \<noteq> Some (cp_root c) then Some Root_mismatch
      else check_checkpoint cs es)"

definition readReceiptLog ::
    "(stored_head \<Rightarrow> head_signature) \<Rightarrow> log_row list \<Rightarrow> checkpoint_row list \<Rightarrow> log_refusal + finished_epoch list" where
  "readReceiptLog sig rows checkpoint =
     (case replay_rows sig ([], None) rows of
        Inl e \<Rightarrow> Inl e
      | Inr st \<Rightarrow>
          (let es = replayed_epochs st
           in if es = [] then Inl Empty_journal
              else if length es < length checkpoint then Inl Checkpoint_ahead
              else (case check_checkpoint checkpoint es of Some e \<Rightarrow> Inl e | None \<Rightarrow> Inr es)))"

text \<open>The epoch that the tree holds of a replayed one: the task index is built again.\<close>

fun index_tasks :: "nat \<Rightarrow> log_meta list \<Rightarrow> (string, nat) jsmap \<Rightarrow> (string, nat) jsmap" where
  "index_tasks i [] m = m"
| "index_tasks i (x # xs) m = index_tasks (Suc i) xs (set_task (lm_task x) i m)"

definition materializeEpoch :: "finished_epoch \<Rightarrow> log_epoch" where
  "materializeEpoch f =
     \<lparr>le_epoch = fe_epoch f, le_prevRoot = fe_prevRoot f, le_prevSize = fe_prevSize f, le_closed = fe_closed f,
      le_leaves = fe_leaves f, le_meta = fe_meta f, le_byTask = index_tasks 0 (fe_meta f) [],
      le_heads = fe_heads f\<rparr>"

section \<open>What a replayed epoch satisfies\<close>

lemma epoch_hashes: "epochLeafHash = log_leafHash" "epochNodeHash = log_nodeHash"
  by (simp_all add: fun_eq_iff epochLeafHash_def log_leafHash_def epochNodeHash_def log_nodeHash_def)

lemma epoch_next: "epoch_next xs = next_level xs"
  by (induction xs rule: next_level.induct) (simp_all add: epoch_hashes)

lemma epoch_level: "epoch_level xs = level_root xs"
  by (induction xs rule: level_root.induct) (subst epoch_level.simps, subst level_root.simps, simp add: epoch_next)

lemma epochRootOf: "epochRootOf = rootOf"
  by (simp add: fun_eq_iff epochRootOf_def rootOf_def epoch_level)

lemma prefixRootHex: "n \<le> length leaves \<Longrightarrow> prefixRootHex leaves n = to_hex (rootOf (take n leaves))"
  by (simp add: prefixRootHex_def epochRootOf)

lemma prefixRootHex_append [simp]: "n \<le> length leaves \<Longrightarrow> prefixRootHex (leaves @ xs) n = prefixRootHex leaves n"
  by (simp add: prefixRootHex_def)

definition head_sound :: "bytes list \<Rightarrow> stored_head \<Rightarrow> bool" where
  "head_sound leaves h =
     (case (sh_root h, sh_size h) of
        (Some root, Some sz) \<Rightarrow>
          (case num_int sz of
             None \<Rightarrow> False
           | Some n \<Rightarrow> 0 \<le> n \<and> n \<le> int (length leaves) \<and> strip_0x root = to_hex (rootOf (take (nat n) leaves)))
      | _ \<Rightarrow> True)"

definition quarantine_sound :: "bytes list \<Rightarrow> quarantined_head \<Rightarrow> bool" where
  "quarantine_sound leaves q \<longleftrightarrow> 1 \<le> qh_prefix q \<and> qh_prefix q < qh_size q \<and> qh_size q \<le> length leaves
     \<and> qh_root q = to_hex (rootOf (take (qh_prefix q) leaves))"

definition meta_sound :: "nat \<Rightarrow> bytes list \<Rightarrow> log_meta list \<Rightarrow> bool" where
  "meta_sound ep bodies ms \<longleftrightarrow> length ms = length bodies \<and>
     list_all (\<lambda>i. lm_index (ms ! i) = i \<and> lm_preimage (ms ! i) = bodies ! i \<and> bodies ! i \<noteq> [] \<and>
       lm_leaf (ms ! i) = to_hex (log_leafHash (bodies ! i)) \<and> lm_epoch (ms ! i) = ep) [0..<length ms]"

definition bucket_sound :: "epoch_bucket \<Rightarrow> bool" where
  "bucket_sound b \<longleftrightarrow> le_leaves b = map log_leafHash (eb_preimages b)
     \<and> meta_sound (le_epoch b) (eb_preimages b) (le_meta b)
     \<and> le_byTask b = index_tasks 0 (le_meta b) []
     \<and> list_all (head_sound (le_leaves b)) (le_heads b)
     \<and> list_all (quarantine_sound (le_leaves b)) (eb_quarantined b)"

text \<open>What every epoch that \<open>readReceiptLog\<close> returns satisfies.\<close>

definition epoch_sound :: "finished_epoch \<Rightarrow> bool" where
  "epoch_sound f \<longleftrightarrow> fe_leaves f = map log_leafHash (fe_preimages f) \<and> fe_size f = length (fe_leaves f)
     \<and> fe_root f = (if fe_leaves f = [] then None else Some (to_hex (rootOf (fe_leaves f))))
     \<and> meta_sound (fe_epoch f) (fe_preimages f) (fe_meta f)
     \<and> list_all (head_sound (fe_leaves f)) (fe_heads f)
     \<and> list_all (quarantine_sound (fe_leaves f)) (fe_quarantined f)"

lemma finish_sound: "bucket_sound b \<Longrightarrow> epoch_sound (finishEpoch (b\<lparr>le_closed := c\<rparr>))"
  "bucket_sound b \<Longrightarrow> epoch_sound (finishEpoch b)"
  by (auto simp: bucket_sound_def epoch_sound_def finishEpoch_def epochRootOf)

lemma new_bucket_sound [simp]: "bucket_sound (newEpochBucket n r k)"
  by (simp add: bucket_sound_def newEpochBucket_def meta_sound_def)

lemma head_sound_append: "head_sound leaves h \<Longrightarrow> head_sound (leaves @ xs) h"
  by (auto simp: head_sound_def split: option.splits)

lemma quarantine_sound_append: "quarantine_sound leaves q \<Longrightarrow> quarantine_sound (leaves @ xs) q"
  by (auto simp: quarantine_sound_def)

lemma meta_sound_snoc:
  "meta_sound ep bodies ms \<Longrightarrow> lm_index x = length ms \<Longrightarrow> lm_preimage x = body \<Longrightarrow> body \<noteq> [] \<Longrightarrow>
     lm_leaf x = to_hex (log_leafHash body) \<Longrightarrow> lm_epoch x = ep \<Longrightarrow> meta_sound ep (bodies @ [body]) (ms @ [x])"
  by (auto simp: meta_sound_def list_all_iff nth_append)

lemma index_tasks_snoc:
  "index_tasks i (xs @ [x]) m = set_task (lm_task x) (i + length xs) (index_tasks i xs m)"
  by (induction xs arbitrary: i m) simp_all

lemma pushLeaf_sound:
  assumes "bucket_sound b" "pushLeaf b row = Inr b'"
  shows "bucket_sound b'"
proof -
  note b = assms(1) [unfolded bucket_sound_def]
  have len: "length (le_meta b) = length (le_leaves b)" using b by (simp add: meta_sound_def)
  have ne: "lr_preimage row \<noteq> []"
    and b': "b' = b\<lparr>le_leaves := le_leaves b @ [epochLeafHash (lr_preimage row)],
      eb_preimages := eb_preimages b @ [lr_preimage row], le_meta := le_meta b @ [row_meta b row],
      le_byTask := set_task (lr_task row) (length (le_leaves b)) (le_byTask b)\<rparr>"
    using assms(2) by (auto simp: pushLeaf_def Let_def split: if_splits)
  have "meta_sound (le_epoch b) (eb_preimages b @ [lr_preimage row]) (le_meta b @ [row_meta b row])"
    by (rule meta_sound_snoc) (use b len ne in \<open>simp_all add: row_meta_def epoch_hashes\<close>)
  with b b' len show ?thesis
    by (auto simp: bucket_sound_def list_all_iff epoch_hashes index_tasks_snoc row_meta_def
        intro: head_sound_append quarantine_sound_append)
qed

lemma find_rev_range:
  "find P (rev [Suc 0..<n]) = Some k \<Longrightarrow> P k \<and> 1 \<le> k \<and> k < n"
  by (auto simp: find_Some_iff rev_nth)

lemma storeHead_sound:
  assumes "bucket_sound b" "storeHead sig b h = Inr b'"
  shows "bucket_sound b'"
proof -
  from assms(2) obtain v where v: "classifyStoredHead sig b h = Inr v"
    by (auto simp: storeHead_def split: sum.splits)
  show ?thesis
  proof (cases v)
    case None
    with v have "head_sound (le_leaves b) h"
      by (auto simp: classifyStoredHead_def head_sound_def raced_head_def prefixRootHex
          split: option.splits if_splits)
    with v None assms show ?thesis by (auto simp: storeHead_def bucket_sound_def)
  next
    case (Some k)
    with v obtain root sz n where h: "sh_root h = Some root" "sh_size h = Some sz" "num_int sz = Some n"
        "0 \<le> n" "n \<le> int (length (le_leaves b))"
      and r: "raced_head (sig h) (le_leaves b) (nat n) (strip_0x root) = Inr (Some k)"
      by (auto simp: classifyStoredHead_def split: option.splits if_splits)
    from r have "prefixRootHex (le_leaves b) k = strip_0x root \<and> 1 \<le> k \<and> k < nat n"
      by (auto simp: raced_head_def split: option.splits if_splits dest!: find_rev_range)
    with h have "quarantine_sound (le_leaves b) (quarantine_row b h k)"
      by (auto simp: quarantine_sound_def quarantine_row_def prefixRootHex)
    with v Some assms show ?thesis by (auto simp: storeHead_def bucket_sound_def)
  qed
qed

definition replay_sound :: "replay_state \<Rightarrow> bool" where
  "replay_sound st \<longleftrightarrow> list_all epoch_sound (fst st) \<and> (case snd st of None \<Rightarrow> True | Some b \<Rightarrow> bucket_sound b)"

lemma map_sum_Inr: "map_sum id f x = Inr y \<longleftrightarrow> (\<exists>z. x = Inr z \<and> y = f z)"
  by (cases x) auto

lemma replay_row_sound:
  "replay_sound st \<Longrightarrow> replay_row sig st row = Inr st' \<Longrightarrow> replay_sound st'"
proof (induction sig st row rule: replay_row.induct)
  case (2 sig es cur row)
  then show ?case
    by (cases cur) (auto simp: replay_sound_def Let_def map_sum_Inr
        intro: pushLeaf_sound pushLeaf_sound [OF new_bucket_sound])
qed (auto simp: replay_sound_def closeEpoch_def Let_def map_sum_Inr finish_sound storeHead_sound
    split: option.splits if_splits)

lemma replay_rows_sound:
  "replay_sound st \<Longrightarrow> replay_rows sig st rows = Inr st' \<Longrightarrow> replay_sound st'"
  by (induction rows arbitrary: st) (auto split: sum.splits dest: replay_row_sound)

definition checkpoint_covered :: "checkpoint_row \<Rightarrow> finished_epoch \<Rightarrow> bool" where
  "checkpoint_covered c e \<longleftrightarrow> cp_size c \<le> fe_size e \<and>
     (cp_size c < fe_size e \<or> cp_root c = [] \<or> fe_root e = Some (cp_root c))"

lemma check_checkpoint:
  "check_checkpoint cs es = None \<longleftrightarrow> length cs \<le> length es \<and> list_all2 checkpoint_covered cs (take (length cs) es)"
  by (induction cs es rule: check_checkpoint.induct) (auto simp: checkpoint_covered_def)

lemma check_checkpoint_length: "check_checkpoint cs es = None \<Longrightarrow> length cs \<le> length es"
  by (simp add: check_checkpoint)

lemma readReceiptLog_Inr:
  "readReceiptLog sig rows cp = Inr es \<longleftrightarrow>
     (\<exists>st. replay_rows sig ([], None) rows = Inr st \<and> es = replayed_epochs st \<and> es \<noteq> [] \<and>
        check_checkpoint cp es = None)"
  by (auto simp: readReceiptLog_def Let_def not_less split: sum.splits option.splits dest: check_checkpoint_length)

section \<open>Properties\<close>

text \<open>
  Property C13. What a boot serves is what the journal proves. Whatever the journal and the
  checkpoint hold, when \<open>readReceiptLog\<close> does not refuse them, in every epoch the leaves and
  their stored texts are the hashes of the retained bodies at their indices, every head kept
  for serving states the root of the log at its size, every quarantined head is the root of a
  strictly smaller prefix, and no epoch is shorter than the checkpoint or differs from it.
\<close>

theorem replayed_log_sound:
  assumes "readReceiptLog sig rows checkpoint = Inr es"
  shows "es \<noteq> [] \<and> list_all epoch_sound es \<and> list_all2 checkpoint_covered checkpoint (take (length checkpoint) es)"
proof -
  from assms obtain st where st: "replay_rows sig ([], None) rows = Inr st" "es = replayed_epochs st" "es \<noteq> []"
      "check_checkpoint checkpoint es = None"
    by (auto simp: readReceiptLog_Inr)
  have "replay_sound ([], None)" by (simp add: replay_sound_def)
  from replay_rows_sound [OF this st(1)] st show ?thesis
    by (auto simp: replay_sound_def replayed_epochs_def check_checkpoint finish_sound split: option.splits)
qed

theorem replayed_log_sound_witness:
  "(let es = [finishEpoch \<lparr>le_epoch = 1, le_prevRoot = [], le_prevSize = 0, le_closed = False,
        le_leaves = [epochLeafHash [5]],
        le_meta = [\<lparr>lm_task = ''genesis'', lm_index = 0, lm_kind = ''genesis'', lm_leaf = to_hex (epochLeafHash [5]),
          lm_preimage = [5], lm_epoch = 1, lm_at = []\<rparr>],
        le_byTask = [(''genesis'', 0)], le_heads = [], eb_preimages = [[5]], eb_quarantined = []\<rparr>]
    in es \<noteq> [] \<and> list_all epoch_sound es \<and>
      list_all2 checkpoint_covered [\<lparr>cp_size = 1, cp_root = []\<rparr>] (take (length [\<lparr>cp_size = 1, cp_root = []\<rparr>]) es))"
  unfolding Let_def
  by (rule replayed_log_sound
        [where sig = "\<lambda>h. \<lparr>hs_present = False, hs_valid = False, hs_reason = []\<rparr>" and
          rows = "[Epoch_open 1 [] 0, Leaf_line \<lparr>lr_epoch = 1, lr_index = Some 0, lr_task = ''genesis'', lr_kind = [],
            lr_preimage = [5], lr_leaf = [], lr_at = []\<rparr>]"])
    (simp add: readReceiptLog_def newEpochBucket_def pushLeaf_def Let_def row_meta_def row_kind_def set_task_def
       replayed_epochs_def finishEpoch_def)

end
