(* ===== verification/Receipt_Log.thy ===== *)
theory Receipt_Log
  imports Log_Replay
begin

text \<open>
  The receipt log, class \<open>ReceiptMerkleTree\<close> of services/gateway/src/receipt-merkle.js: appends
  with their journal and checkpoint writes, the load at boot, and the public queries (prefix
  root, audit path, retained bodies, consistency). What a write does, and what the clock and
  the build digest say, are arguments. The fields of the tree that describe its open epoch are
  one epoch value, \<open>rl_live\<close>; the answer of \<open>inclusion\<close> is the index it finds.
\<close>

section \<open>The state and its writes\<close>

datatype lock_state = Lock_held | Lock_lost | Lock_absent

text \<open>
  What \<open>appendJournal\<close> does: a row is written and synced, nothing is written, a row is
  written and the sync throws, or a row is written and the lock file is gone afterwards.
\<close>

datatype write_result = Written | Write_failed | Written_not_synced | Written_lock_lost

datatype snapshot_result = Snapshot_written | Snapshot_failed | Snapshot_half

datatype log_error = Log_lock_lost | Log_not_locked | Io_error | No_genesis | Bad_tree_size

record receipt_log =
  rl_dir :: bool
  rl_durable :: bool
  rl_allowFresh :: bool
  rl_production :: bool
  rl_lock :: lock_state
  rl_live :: log_epoch
  rl_closedEpochs :: "log_epoch list"
  rl_epochOpened :: bool
  rl_journal :: "log_row list"
  rl_checkpoint :: "checkpoint_row list"

definition blank_epoch :: log_epoch where
  "blank_epoch = \<lparr>le_epoch = 1, le_prevRoot = [], le_prevSize = 0, le_closed = False, le_leaves = [],
     le_meta = [], le_byTask = [], le_heads = []\<rparr>"

definition assertWriter :: "receipt_log \<Rightarrow> log_error option" where
  "assertWriter s =
     (if \<not> rl_dir s \<or> \<not> rl_durable s then None
      else (case rl_lock s of
              Lock_held \<Rightarrow> None
            | Lock_lost \<Rightarrow> Some Log_lock_lost
            | Lock_absent \<Rightarrow> if rl_production s then Some Log_not_locked else None))"

definition add_row :: "log_row \<Rightarrow> receipt_log \<Rightarrow> receipt_log" where
  "add_row row s = s\<lparr>rl_journal := rl_journal s @ [row]\<rparr>"

definition log_write :: "write_result \<Rightarrow> log_row \<Rightarrow> receipt_log \<Rightarrow> log_error option \<times> receipt_log" where
  "log_write w row s =
     (case assertWriter s of
        Some e \<Rightarrow> (Some e, s)
      | None \<Rightarrow>
          (case w of
             Write_failed \<Rightarrow> (Some Io_error, s)
           | Written_not_synced \<Rightarrow> (Some Io_error, add_row row s)
           | Written \<Rightarrow> (None, add_row row s)
           | Written_lock_lost \<Rightarrow>
               (if rl_dir s \<and> rl_durable s then Some Log_lock_lost else None,
                (add_row row s)\<lparr>rl_lock := Lock_lost\<rparr>)))"

definition ensureEpochOpen :: "write_result \<Rightarrow> receipt_log \<Rightarrow> log_error option \<times> receipt_log" where
  "ensureEpochOpen w s =
     (if \<not> rl_dir s \<or> rl_epochOpened s then (None, s)
      else (case log_write w
              (Epoch_open (le_epoch (rl_live s)) (le_prevRoot (rl_live s)) (le_prevSize (rl_live s))) s of
              (Some e, s') \<Rightarrow> (Some e, s')
            | (None, s') \<Rightarrow> (None, s'\<lparr>rl_epochOpened := True\<rparr>)))"

definition closed_row :: "log_epoch \<Rightarrow> checkpoint_row" where
  "closed_row e = \<lparr>cp_size = length (le_leaves e), cp_root = to_hex (rootOf (le_leaves e))\<rparr>"

definition live_row :: "log_epoch \<Rightarrow> checkpoint_row" where
  "live_row e = \<lparr>cp_size = length (le_leaves e),
     cp_root = (if le_leaves e = [] then [] else to_hex (rootOf (le_leaves e)))\<rparr>"

definition snapshotEpochs :: "receipt_log \<Rightarrow> checkpoint_row list" where
  "snapshotEpochs s = map closed_row (rl_closedEpochs s) @ [live_row (rl_live s)]"

definition writeSnapshot :: "snapshot_result \<Rightarrow> receipt_log \<Rightarrow> log_error option \<times> receipt_log" where
  "writeSnapshot sn s =
     (if \<not> rl_dir s then (None, s)
      else (case assertWriter s of
              Some e \<Rightarrow> (Some e, s)
            | None \<Rightarrow>
                (case sn of
                   Snapshot_failed \<Rightarrow> (Some Io_error, s)
                 | Snapshot_half \<Rightarrow> (Some Io_error, s\<lparr>rl_checkpoint := snapshotEpochs s\<rparr>)
                 | Snapshot_written \<Rightarrow> (None, s\<lparr>rl_checkpoint := snapshotEpochs s\<rparr>))))"

section \<open>Appends\<close>

definition leaf_line :: "log_epoch \<Rightarrow> string \<Rightarrow> bytes \<Rightarrow> string \<Rightarrow> string \<Rightarrow> leaf_row" where
  "leaf_line e task body kind at =
     \<lparr>lr_epoch = le_epoch e, lr_index = Some (length (le_leaves e)), lr_task = task, lr_kind = kind,
      lr_preimage = body, lr_leaf = [], lr_at = at\<rparr>"

definition push_live :: "string \<Rightarrow> bytes \<Rightarrow> string \<Rightarrow> string \<Rightarrow> log_epoch \<Rightarrow> log_epoch" where
  "push_live task body kind at e =
     (let hash = log_leafHash body; index = length (le_leaves e)
      in e\<lparr>le_leaves := le_leaves e @ [hash],
           le_meta := le_meta e @ [\<lparr>lm_task = task, lm_index = index, lm_kind = kind, lm_leaf = to_hex hash,
             lm_preimage = body, lm_epoch = le_epoch e, lm_at = at\<rparr>],
           le_byTask := set_task task index (le_byTask e)\<rparr>)"

definition push_journal ::
    "write_result \<Rightarrow> write_result \<Rightarrow> string \<Rightarrow> bytes \<Rightarrow> string \<Rightarrow> string \<Rightarrow> receipt_log \<Rightarrow> log_error option \<times> receipt_log" where
  "push_journal wo wl task body kind at s =
     (if \<not> rl_dir s then (None, s)
      else (case ensureEpochOpen wo s of
              (Some e, s1) \<Rightarrow> (Some e, s1)
            | (None, s1) \<Rightarrow> log_write wl (Leaf_line (leaf_line (rl_live s1) task body kind at)) s1))"

definition log_push ::
    "write_result \<Rightarrow> write_result \<Rightarrow> snapshot_result \<Rightarrow> string \<Rightarrow> bytes \<Rightarrow> string \<Rightarrow> string \<Rightarrow> receipt_log \<Rightarrow>
     (log_error + nat) \<times> receipt_log" where
  "log_push wo wl sn task body kind at s =
     (case push_journal wo wl task body kind at s of
        (Some e, s1) \<Rightarrow> (Inl e, s1)
      | (None, s1) \<Rightarrow>
          (let index = length (le_leaves (rl_live s)); s2 = s1\<lparr>rl_live := push_live task body kind at (rl_live s1)\<rparr>
           in (case writeSnapshot sn s2 of
                 (Some e, s3) \<Rightarrow> (Inl e, s3)
               | (None, s3) \<Rightarrow> (Inr index, s3))))"

record append_env =
  ae_digest :: string
  ae_at_genesis :: string
  ae_at :: string
  ae_open :: write_result
  ae_genesis :: write_result
  ae_leaf :: write_result
  ae_snap_genesis :: snapshot_result
  ae_snap :: snapshot_result

definition ensureGenesis :: "append_env \<Rightarrow> receipt_log \<Rightarrow> log_error option \<times> receipt_log" where
  "ensureGenesis v s =
     (if le_leaves (rl_live s) \<noteq> [] then (None, s)
      else if rl_durable s \<and> \<not> rl_allowFresh s then (Some No_genesis, s)
      else (case log_push (ae_open v) (ae_genesis v) (ae_snap_genesis v) ''genesis''
                   (genesisBytes (ae_digest v)) ''genesis'' (ae_at_genesis v) s of
              (Inl e, s') \<Rightarrow> (Some e, s')
            | (Inr i, s') \<Rightarrow> (None, s')))"

definition findClosed :: "receipt_log \<Rightarrow> string \<Rightarrow> log_epoch option" where
  "findClosed s task = find (\<lambda>e. jm_has (le_byTask e) task) (rev (rl_closedEpochs s))"

text \<open>The epoch that \<open>_locate\<close> finds and the index in it, which \<open>inclusion\<close> reports.\<close>

definition locate_index :: "receipt_log \<Rightarrow> string \<Rightarrow> nat option" where
  "locate_index s task =
     (case findClosed s task of
        Some e \<Rightarrow> jm_get (le_byTask e) task
      | None \<Rightarrow> jm_get (le_byTask (rl_live s)) task)"

definition appendReceipt ::
    "append_env \<Rightarrow> string \<Rightarrow> string \<Rightarrow> receipt_log \<Rightarrow> (log_error + nat option) \<times> receipt_log" where
  "appendReceipt v task rowHash s =
     (if task = [] then (Inr None, s)
      else if jm_has (le_byTask (rl_live s)) task \<or> findClosed s task \<noteq> None
      then (Inr (locate_index s task), s)
      else if le_leaves (rl_live s) = [] \<and> rl_durable s \<and> \<not> rl_allowFresh s then (Inr None, s)
      else (case ensureGenesis v s of
              (Some e, s1) \<Rightarrow> (Inl e, s1)
            | (None, s1) \<Rightarrow>
                (case log_push (ae_open v) (ae_leaf v) (ae_snap v) task (receiptLeafBytes task rowHash)
                        ''receipt'' (ae_at v) s1 of
                   (Inl e, s2) \<Rightarrow> (Inl e, s2)
                 | (Inr i, s2) \<Rightarrow> (Inr (locate_index s2 task), s2))))"

text \<open>
  The other writers of the journal add rows that replay does not fold into epochs; each is
  followed by a snapshot.
\<close>

definition side_write :: "write_result \<Rightarrow> snapshot_result \<Rightarrow> receipt_log \<Rightarrow> log_error option \<times> receipt_log" where
  "side_write w sn s =
     (if \<not> rl_dir s then (None, s)
      else (case log_write w Side_line s of
              (Some e, s') \<Rightarrow> (Some e, s')
            | (None, s') \<Rightarrow> writeSnapshot sn s'))"

datatype log_event = Append append_env string string | Side_write write_result snapshot_result | Lose_lock

fun log_step :: "receipt_log \<Rightarrow> log_event \<Rightarrow> receipt_log" where
  "log_step s (Append v task rowHash) = snd (appendReceipt v task rowHash s)"
| "log_step s (Side_write w sn) = snd (side_write w sn s)"
| "log_step s Lose_lock = s\<lparr>rl_lock := Lock_lost\<rparr>"

section \<open>The load at boot\<close>

text \<open>No journal file is the empty list of rows.\<close>

definition load_log ::
    "(stored_head \<Rightarrow> head_signature) \<Rightarrow> receipt_log \<Rightarrow> log_refusal + receipt_log" where
  "load_log sig s =
     (let s0 = s\<lparr>rl_dir := True, rl_durable := True, rl_allowFresh := False\<rparr>
      in if rl_journal s = []
         then (if rl_checkpoint s \<noteq> [] then Inl Missing_log else Inr (s0\<lparr>rl_epochOpened := False\<rparr>))
         else (case readReceiptLog sig (rl_journal s) (rl_checkpoint s) of
                 Inl e \<Rightarrow> Inl e
               | Inr es \<Rightarrow>
                   Inr (s0\<lparr>rl_closedEpochs := map materializeEpoch (butlast es),
                          rl_live := materializeEpoch (last es), rl_epochOpened := True\<rparr>)))"

section \<open>Queries\<close>

definition prefixRoot :: "receipt_log \<Rightarrow> string \<Rightarrow> string option" where
  "prefixRoot s task =
     (case findClosed s task of
        Some e \<Rightarrow> map_option (\<lambda>i. to_hex (rootOf (take (i + 1) (le_leaves e)))) (jm_get (le_byTask e) task)
      | None \<Rightarrow> map_option (\<lambda>i. to_hex (rootOf (take (i + 1) (le_leaves (rl_live s)))))
                  (jm_get (le_byTask (rl_live s)) task))"

datatype audit_refusal = Not_in_tree | Leaf_preimage_unavailable "nat option" | Leaf_preimage_mismatch "nat option"

text \<open>The body of a leaf: the retained one, else the one that a stored row hash gives.\<close>

definition leaf_body :: "(string \<Rightarrow> string option) option \<Rightarrow> string \<Rightarrow> log_meta \<Rightarrow> bytes option" where
  "leaf_body rowHashOf asked m =
     (if lm_preimage m \<noteq> [] then Some (lm_preimage m)
      else (case rowHashOf of
              None \<Rightarrow> None
            | Some f \<Rightarrow>
                if lm_task m \<noteq> [] \<and> lm_kind m \<noteq> ''genesis'' \<and> lm_task m \<noteq> ''genesis''
                then map_option (\<lambda>h. utf8 (lm_task m @ ''|'' @ h)) (f asked) else None))"

definition located :: "receipt_log \<Rightarrow> string \<Rightarrow> (log_epoch \<times> nat) option" where
  "located s task =
     (let e = (case findClosed s task of Some e \<Rightarrow> e | None \<Rightarrow> rl_live s)
      in map_option (Pair e) (jm_get (le_byTask e) task))"

definition blank_meta :: log_meta where
  "blank_meta = \<lparr>lm_task = [], lm_index = 0, lm_kind = [], lm_leaf = [], lm_preimage = [], lm_epoch = 0, lm_at = []\<rparr>"

definition meta_at :: "log_epoch \<Rightarrow> nat \<Rightarrow> log_meta" where
  "meta_at e i = (if i < length (le_meta e) then le_meta e ! i else blank_meta)"

record public_audit =
  pa_root :: string
  pa_index :: nat
  pa_size :: nat
  pa_kind :: string
  pa_task :: string
  pa_body :: bytes
  pa_siblings :: "string list"

definition meta_kind :: "log_meta \<Rightarrow> string" where
  "meta_kind m =
     (if lm_kind m \<noteq> [] then lm_kind m else if lm_task m = ''genesis'' then ''genesis'' else ''receipt'')"

definition stored_leaf :: "log_epoch \<Rightarrow> nat \<Rightarrow> bytes \<Rightarrow> bool" where
  "stored_leaf e i body \<longleftrightarrow> i < length (le_leaves e) \<and> log_leafHash body = le_leaves e ! i"

definition publicPrefixAudit ::
    "(string \<Rightarrow> string option) option \<Rightarrow> string \<Rightarrow> receipt_log \<Rightarrow> audit_refusal + public_audit" where
  "publicPrefixAudit rowHashOf task s =
     (case located s task of
        None \<Rightarrow> Inl Not_in_tree
      | Some (e, index) \<Rightarrow>
          (let m = meta_at e index
           in case leaf_body rowHashOf task m of
                None \<Rightarrow> Inl (Leaf_preimage_unavailable None)
              | Some body \<Rightarrow>
                  if \<not> stored_leaf e index body then Inl (Leaf_preimage_mismatch None)
                  else (let prefix = take (index + 1) (le_leaves e);
                            proof' = (case log_inclusionProof prefix (int index) of Some p \<Rightarrow> p | None \<Rightarrow> [])
                        in Inr \<lparr>pa_root = to_hex (rootOf prefix), pa_index = index, pa_size = length prefix,
                             pa_kind = meta_kind m, pa_task = lm_task m, pa_body = body,
                             pa_siblings = map ps_hash proof'\<rparr>)))"

text \<open>\<open>prefixLeafPreimages\<close>: the loop over the indices up to the receipt.\<close>

fun leaf_bodies ::
    "(string \<Rightarrow> string option) option \<Rightarrow> log_epoch \<Rightarrow> nat list \<Rightarrow> audit_refusal + bytes list" where
  "leaf_bodies rowHashOf e [] = Inr []"
| "leaf_bodies rowHashOf e (i # is) =
     (case leaf_body rowHashOf (lm_task (meta_at e i)) (meta_at e i) of
        None \<Rightarrow> Inl (Leaf_preimage_unavailable (Some i))
      | Some body \<Rightarrow>
          if \<not> stored_leaf e i body then Inl (Leaf_preimage_mismatch (Some i))
          else map_sum id (Cons body) (leaf_bodies rowHashOf e is))"

definition prefixLeafPreimages ::
    "(string \<Rightarrow> string option) option \<Rightarrow> string \<Rightarrow> receipt_log \<Rightarrow> audit_refusal + bytes list \<times> string \<times> nat" where
  "prefixLeafPreimages rowHashOf task s =
     (case located s task of
        None \<Rightarrow> Inl Not_in_tree
      | Some (e, index) \<Rightarrow>
          map_sum id (\<lambda>bs. (bs, to_hex (rootOf (take (index + 1) (le_leaves e))), index))
            (leaf_bodies rowHashOf e [0..<index + 1]))"

definition epochForConsistency :: "nat \<Rightarrow> nat option \<Rightarrow> receipt_log \<Rightarrow> log_epoch option" where
  "epochForConsistency n wanted s =
     (case wanted of
        Some k \<Rightarrow> if k = le_epoch (rl_live s) then Some (rl_live s)
                  else find (\<lambda>e. le_epoch e = k) (rl_closedEpochs s)
      | None \<Rightarrow>
          if n \<le> length (le_leaves (rl_live s)) then Some (rl_live s)
          else (case find (\<lambda>e. n \<le> length (le_leaves e)) (rev (rl_closedEpochs s)) of
                  Some e \<Rightarrow> Some e
                | None \<Rightarrow> Some (rl_live s)))"

record consistency_answer =
  ca_epoch :: nat
  ca_first_size :: nat
  ca_second_size :: nat
  ca_first_root :: string
  ca_second_root :: string
  ca_proof :: "string list"

definition log_consistency :: "nat \<Rightarrow> nat \<Rightarrow> nat option \<Rightarrow> receipt_log \<Rightarrow> log_error + consistency_answer" where
  "log_consistency m n wanted s =
     (case epochForConsistency n wanted s of
        None \<Rightarrow> Inl Bad_tree_size
      | Some e \<Rightarrow>
          (case log_consistencyProof (le_leaves e) m n of
             None \<Rightarrow> Inl Bad_tree_size
           | Some prf' \<Rightarrow>
               Inr \<lparr>ca_epoch = le_epoch e, ca_first_size = m, ca_second_size = n,
                    ca_first_root = to_hex (rootOf (take m (le_leaves e))),
                    ca_second_root = to_hex (rootOf (take n (le_leaves e))), ca_proof = prf'\<rparr>))"

section \<open>The journal mirrors the tree\<close>



















section \<open>Every operation keeps the mirror\<close>



lemma add_row_fields [simp]:
  "rl_journal (add_row row s) = rl_journal s @ [row]" "rl_live (add_row row s) = rl_live s"
  "rl_closedEpochs (add_row row s) = rl_closedEpochs s" "rl_epochOpened (add_row row s) = rl_epochOpened s"
  "rl_checkpoint (add_row row s) = rl_checkpoint s" "rl_dir (add_row row s) = rl_dir s"
  "rl_durable (add_row row s) = rl_durable s" "rl_lock (add_row row s) = rl_lock s"
  "rl_allowFresh (add_row row s) = rl_allowFresh s"
  by (simp_all add: add_row_def)








lemma utf8_Cons: "utf8 (c # t) \<noteq> []"
  by (simp add: utf8_def utf8_char_def Let_def)

lemma bodies_nonempty: "genesisBytes d \<noteq> []" "receiptLeafBytes t h \<noteq> []"
  by (cases t; simp add: genesisBytes_def receiptLeafBytes_def utf8_Cons)+







section \<open>Boots\<close>

definition new_tree :: "bool \<Rightarrow> lock_state \<Rightarrow> log_row list \<Rightarrow> checkpoint_row list \<Rightarrow> receipt_log" where
  "new_tree production lock journal checkpoint =
     \<lparr>rl_dir = False, rl_durable = False, rl_allowFresh = False, rl_production = production, rl_lock = lock,
      rl_live = blank_epoch, rl_closedEpochs = [], rl_epochOpened = False, rl_journal = journal,
      rl_checkpoint = checkpoint\<rparr>"





section \<open>Appends only add leaves\<close>

text \<open>How the tree can change: leaves are added at the end, closed epochs stay.\<close>

definition grows :: "receipt_log \<Rightarrow> receipt_log \<Rightarrow> bool" where
  "grows s s' \<longleftrightarrow> (\<exists>bodies. le_leaves (rl_live s') = le_leaves (rl_live s) @ map log_leafHash bodies)
     \<and> le_epoch (rl_live s') = le_epoch (rl_live s) \<and> rl_closedEpochs s' = rl_closedEpochs s"

lemma grows_refl [simp]: "grows s s"
  by (auto simp: grows_def intro: exI [of _ "[]"])

lemma grows_trans: "grows s t \<Longrightarrow> grows t u \<Longrightarrow> grows s u"
  unfolding grows_def by (metis append.assoc map_append)

lemma log_write_tree:
  "log_write w row s = (r, s') \<Longrightarrow> rl_live s' = rl_live s \<and> rl_closedEpochs s' = rl_closedEpochs s"
  by (auto simp: log_write_def split: option.splits write_result.splits)

lemma push_journal_tree:
  "push_journal wo wl task body kind at s = (r, s') \<Longrightarrow> rl_live s' = rl_live s \<and> rl_closedEpochs s' = rl_closedEpochs s"
  by (auto simp: push_journal_def ensureEpochOpen_def split: option.splits prod.splits if_splits dest!: log_write_tree)

lemma writeSnapshot_tree:
  "writeSnapshot sn s = (r, s') \<Longrightarrow> rl_live s' = rl_live s \<and> rl_closedEpochs s' = rl_closedEpochs s"
  by (auto simp: writeSnapshot_def split: option.splits snapshot_result.splits if_splits)

text \<open>A push leaves the tree alone or adds the one leaf.\<close>

lemma push_tree:
  assumes "log_push wo wl sn task body kind at s = (r, s')"
  shows "rl_closedEpochs s' = rl_closedEpochs s \<and>
    ((isl r \<and> rl_live s' = rl_live s) \<or> rl_live s' = push_live task body kind at (rl_live s))"
  using assms
  by (auto simp: log_push_def Let_def split: option.splits prod.splits dest!: push_journal_tree writeSnapshot_tree)

lemma push_live_fields [simp]:
  "le_leaves (push_live task body kind at e) = le_leaves e @ [log_leafHash body]"
  "le_epoch (push_live task body kind at e) = le_epoch e"
  "le_byTask (push_live task body kind at e) = set_task task (length (le_leaves e)) (le_byTask e)"
  by (simp_all add: push_live_def Let_def)

lemma push_grows: "log_push wo wl sn task body kind at s = (r, s') \<Longrightarrow> grows s s'"
  using push_tree [of wo wl sn task body kind at s r s']
  by (auto simp: grows_def intro: exI [of _ "[]"] exI [of _ "[body]"])

lemma ensureGenesis_grows: "ensureGenesis v s = (r, s') \<Longrightarrow> grows s s'"
  by (auto simp: ensureGenesis_def split: if_splits prod.splits sum.splits dest!: push_grows)

lemma append_grows: "grows s (snd (appendReceipt v task rowHash s))"
  by (auto simp: appendReceipt_def split: option.splits prod.splits sum.splits
      dest!: push_grows ensureGenesis_grows intro: grows_trans)

lemma step_grows: "grows s (log_step s x)"
proof (cases x)
  case (Append v task rowHash)
  then show ?thesis using append_grows by simp
next
  case (Side_write w sn)
  have "rl_live (log_step s x) = rl_live s \<and> rl_closedEpochs (log_step s x) = rl_closedEpochs s"
    unfolding Side_write
    by (auto simp: side_write_def split: option.splits prod.splits dest!: log_write_tree writeSnapshot_tree)
      (metis log_write_tree writeSnapshot_tree prod.collapse)+
  then show ?thesis by (auto simp: grows_def intro: exI [of _ "[]"])
next
  case Lose_lock
  then show ?thesis by (auto simp: grows_def intro: exI [of _ "[]"])
qed

lemma run_grows: "grows s (foldl log_step s xs)"
  by (induction xs arbitrary: s) (auto intro: grows_trans step_grows)

text \<open>The index of a task that is in the log never changes.\<close>

definition tasks_ok :: "receipt_log \<Rightarrow> bool" where
  "tasks_ok s \<longleftrightarrow> jm_all (\<lambda>t i. i < length (le_leaves (rl_live s))) (le_byTask (rl_live s))"

definition keeps_tasks :: "receipt_log \<Rightarrow> receipt_log \<Rightarrow> bool" where
  "keeps_tasks s s' \<longleftrightarrow> tasks_ok s' \<and>
     (\<forall>t i. jm_get (le_byTask (rl_live s)) t = Some i \<longrightarrow> jm_get (le_byTask (rl_live s')) t = Some i)"

lemma keeps_refl: "tasks_ok s \<Longrightarrow> keeps_tasks s s"
  by (simp add: keeps_tasks_def)

lemma keeps_trans: "keeps_tasks s t \<Longrightarrow> keeps_tasks t u \<Longrightarrow> keeps_tasks s u"
  by (auto simp: keeps_tasks_def)

lemma push_tasks_ok:
  assumes "log_push wo wl sn task body kind at s = (r, s')" "tasks_ok s"
  shows "tasks_ok s'"
proof -
  from assms(2) have "jm_all (\<lambda>t i. i < Suc (length (le_leaves (rl_live s)))) (le_byTask (rl_live s))"
    unfolding tasks_ok_def by (rule jm_all_mono) simp
  with push_tree [OF assms(1)] assms(2) show ?thesis
    by (auto simp: tasks_ok_def set_task_def intro!: jm_all_set)
qed

lemma push_keeps:
  assumes "log_push wo wl sn task body kind at s = (r, s')" "tasks_ok s" "\<not> jm_has (le_byTask (rl_live s)) task"
  shows "keeps_tasks s s'"
  using push_tree [OF assms(1)] push_tasks_ok [OF assms(1,2)] assms(3)
  by (auto simp: keeps_tasks_def set_task_def jm_has_def jsmap_simps)

lemma empty_log_tasks:
  "tasks_ok s \<Longrightarrow> le_leaves (rl_live s) = [] \<Longrightarrow> le_byTask (rl_live s) = []"
  by (cases "le_byTask (rl_live s)") (auto simp: tasks_ok_def jm_all_def)

lemma genesis_tasks_ok: "ensureGenesis v s = (r, s') \<Longrightarrow> tasks_ok s \<Longrightarrow> tasks_ok s'"
  by (auto simp: ensureGenesis_def split: if_splits prod.splits sum.splits dest: push_tasks_ok)

lemma append_tasks_ok: "tasks_ok s \<Longrightarrow> tasks_ok (snd (appendReceipt v task rowHash s))"
  by (auto simp: appendReceipt_def split: option.splits prod.splits sum.splits
      dest: push_tasks_ok genesis_tasks_ok)

lemma append_keeps:
  assumes "tasks_ok s"
  shows "keeps_tasks s (snd (appendReceipt v task rowHash s))"
proof (cases "le_leaves (rl_live s) = []")
  case True
  with assms append_tasks_ok [OF assms] show ?thesis by (simp add: keeps_tasks_def empty_log_tasks)
next
  case False
  then have "ensureGenesis v s = (None, s)" by (simp add: ensureGenesis_def)
  then show ?thesis
    by (auto simp: appendReceipt_def keeps_refl assms split: option.splits prod.splits sum.splits
        dest: push_keeps [OF _ assms])
qed

lemma side_write_live: "rl_live (snd (side_write w sn s)) = rl_live s"
proof -
  obtain q t where w: "log_write w Side_line s = (q, t)" by (cases "log_write w Side_line s")
  obtain z u where "writeSnapshot sn t = (z, u)" by (cases "writeSnapshot sn t")
  with w show ?thesis
    by (auto simp: side_write_def split: option.splits dest!: log_write_tree writeSnapshot_tree)
qed

lemma step_keeps: "tasks_ok s \<Longrightarrow> keeps_tasks s (log_step s x)"
  by (cases x) (simp_all add: append_keeps, simp_all add: keeps_tasks_def tasks_ok_def side_write_live)

lemma run_keeps: "tasks_ok s \<Longrightarrow> keeps_tasks s (foldl log_step s xs)"
proof (induction xs arbitrary: s)
  case (Cons x xs)
  with step_keeps have k: "keeps_tasks s (log_step s x)" by blast
  then have "tasks_ok (log_step s x)" by (simp add: keeps_tasks_def)
  from Cons.IH [OF this] k show ?case by (auto intro: keeps_trans)
qed (simp add: keeps_refl)

text \<open>Labels do not matter to the inclusion check: an audit path carries none.\<close>

lemma verify_steps_unlabelled:
  "verify_steps fn sn h ps = Some q \<Longrightarrow>
     verify_steps fn sn h (map (\<lambda>x. \<lparr>ps_hash = x, ps_position = []\<rparr>) (map ps_hash ps)) = Some q"
proof (induction fn sn h ps rule: verify_steps.induct)
  case (2 fn sn h p ps)
  then show ?case by (auto simp: Let_def split: if_splits prod.splits)
qed simp

lemma leaf_hash_length [simp]: "length (log_leafHash d) = 32"
  by (rule receipt_log.leaf_length)

definition quiet_env :: append_env where
  "quiet_env = \<lparr>ae_digest = ''d'', ae_at_genesis = ''t0'', ae_at = ''t1'', ae_open = Written, ae_genesis = Written,
     ae_leaf = Written, ae_snap_genesis = Snapshot_written, ae_snap = Snapshot_written\<rparr>"

definition no_signature :: "stored_head \<Rightarrow> head_signature" where
  "no_signature h = \<lparr>hs_present = False, hs_valid = False, hs_reason = []\<rparr>"

text \<open>A fresh log on an empty directory, and a log of one genesis and one receipt.\<close>

definition empty_boot :: receipt_log where
  "empty_boot = (new_tree False Lock_held [] [])\<lparr>rl_dir := True, rl_durable := True, rl_epochOpened := False\<rparr>"

definition small_log :: receipt_log where
  "small_log = foldl log_step (empty_boot\<lparr>rl_allowFresh := True\<rparr>) [Append quiet_env ''a'' ''h'']"

lemmas log_eval = appendReceipt_def ensureGenesis_def log_push_def push_journal_def ensureEpochOpen_def log_write_def
  assertWriter_def add_row_def writeSnapshot_def push_live_def set_task_def findClosed_def locate_index_def jm_has_def
  Let_def leaf_line_def


lemma small_log_tasks: "le_byTask (rl_live small_log) = [(''genesis'', 0), (''a'', 1)]"
  "rl_closedEpochs small_log = []" "rl_lock small_log = Lock_held" "rl_epochOpened small_log"
  "le_leaves (rl_live small_log) = [log_leafHash (genesisBytes ''d''), log_leafHash (receiptLeafBytes ''a'' ''h'')]"
  by (simp_all add: small_log_def empty_boot_def new_tree_def quiet_env_def blank_epoch_def log_eval)

section \<open>Properties\<close>





text \<open>
  Property C5. The log only grows, and proves it: after any further events, failed and torn
  writes included, \<open>consistency\<close> from the earlier size to the present one answers with the root
  the log had then, the present root, and a proof that the consistency check accepts.
\<close>

theorem log_append_only:
  assumes "list_all (\<lambda>l. length l = 32) (le_leaves (rl_live s0))" "m = length (le_leaves (rl_live s0))" "0 < m"
    and "s = foldl log_step s0 evs" "n = length (le_leaves (rl_live s))"
  shows "\<exists>a. log_consistency m n None s = Inr a \<and>
    ca_first_root a = to_hex (rootOf (le_leaves (rl_live s0))) \<and>
    ca_second_root a = to_hex (rootOf (le_leaves (rl_live s))) \<and>
    log_verifyConsistency m n (ca_first_root a) (ca_second_root a) (ca_proof a)"
proof -
  let ?xs = "le_leaves (rl_live s)"
  from run_grows [of s0 evs] obtain bodies where xs: "?xs = le_leaves (rl_live s0) @ map log_leafHash bodies"
    unfolding assms(4) grows_def by blast
  have len: "length x = 32" if "x \<in> set ?xs" for x
    using that xs assms(1) by (auto simp: list_all_iff)
  have e: "epochForConsistency n None s = Some (rl_live s)" by (simp add: epochForConsistency_def assms(5))
  have t: "take m ?xs = le_leaves (rl_live s0)" "take n ?xs = ?xs" by (simp_all add: xs assms(2,5))
  show ?thesis
  proof (cases "m = n")
    case True
    with e t assms(3,5) show ?thesis
      by (simp add: log_consistency_def log_consistencyProof_def log_verifyConsistency_def)
  next
    case False
    with xs assms(2,5) have "m < n" by simp
    from log_consistency_complete [OF assms(3) this _ len] assms(5) obtain prf'
      where p: "log_consistencyProof ?xs m n = Some prf'"
        "log_verifyConsistency m n (to_hex (rootOf (take m ?xs))) (to_hex (rootOf (take n ?xs))) prf'" by blast
    with e t show ?thesis by (simp add: log_consistency_def)
  qed
qed

theorem log_append_only_witness:
  "\<exists>a. log_consistency 2 3 None (foldl log_step small_log [Append quiet_env ''b'' ''g'']) = Inr a \<and>
    ca_first_root a = to_hex (rootOf (le_leaves (rl_live small_log))) \<and>
    ca_second_root a = to_hex (rootOf (le_leaves (rl_live (foldl log_step small_log [Append quiet_env ''b'' ''g''])))) \<and>
    log_verifyConsistency 2 3 (ca_first_root a) (ca_second_root a) (ca_proof a)"
proof (rule log_append_only [OF _ _ _ refl])
  show "3 = length (le_leaves (rl_live (foldl log_step small_log [Append quiet_env ''b'' ''g''])))"
    by (simp add: small_log_def empty_boot_def new_tree_def quiet_env_def blank_epoch_def log_eval)
qed (simp_all add: small_log_tasks)

text \<open>
  What a receipt is bound to never changes: the prefix root of a task in the log is
  the same after any further events.
\<close>

theorem prefix_root_final:
  assumes "tasks_ok s0" "prefixRoot s0 task = Some r"
  shows "prefixRoot (foldl log_step s0 evs) task = Some r"
proof -
  let ?s = "foldl log_step s0 evs"
  from run_grows [of s0 evs] obtain bodies
    where g: "le_leaves (rl_live ?s) = le_leaves (rl_live s0) @ map log_leafHash bodies"
      "rl_closedEpochs ?s = rl_closedEpochs s0"
    unfolding grows_def by blast
  then have c: "findClosed ?s task = findClosed s0 task" by (simp add: findClosed_def)
  show ?thesis
  proof (cases "findClosed s0 task")
    case (Some e)
    with c assms(2) show ?thesis by (simp add: prefixRoot_def)
  next
    case None
    with assms(2) obtain i where i: "jm_get (le_byTask (rl_live s0)) task = Some i"
        "r = to_hex (rootOf (take (i + 1) (le_leaves (rl_live s0))))"
      by (auto simp: prefixRoot_def)
    from i(1) run_keeps [OF assms(1), of evs] have "jm_get (le_byTask (rl_live ?s)) task = Some i"
      by (simp add: keeps_tasks_def)
    moreover have "i < length (le_leaves (rl_live s0))"
      using jm_all_get [OF assms(1) [unfolded tasks_ok_def] i(1)] .
    ultimately show ?thesis using None c g i(2) by (simp add: prefixRoot_def)
  qed
qed

theorem prefix_root_final_witness:
  "prefixRoot (foldl log_step small_log [Append quiet_env ''b'' ''g'', Lose_lock]) ''a'' =
     Some (to_hex (rootOf (le_leaves (rl_live small_log))))"
  by (rule prefix_root_final) (simp_all add: tasks_ok_def jm_all_def prefixRoot_def findClosed_def small_log_tasks)

text \<open>
  Every public audit path verifies: the body that \<open>publicPrefixAudit\<close> discloses is,
  by the inclusion check on the siblings it discloses and nothing else, the leaf at its index
  in the prefix whose root it states.
\<close>

theorem public_audit_verifies:
  assumes "publicPrefixAudit rowHashOf task s = Inr a"
    and "\<And>e. e \<in> insert (rl_live s) (set (rl_closedEpochs s)) \<Longrightarrow> list_all (\<lambda>l. length l = 32) (le_leaves e)"
    and "int (pa_size a) \<le> max_safe_integer"
  shows "pa_size a = pa_index a + 1 \<and>
    log_verifyInclusion (log_leafHash (pa_body a)) (JInt (int (pa_index a))) (JInt (int (pa_size a))) (pa_root a)
      (map (\<lambda>x. \<lparr>ps_hash = x, ps_position = []\<rparr>) (pa_siblings a))"
proof -
  from assms(1) obtain e i body where l: "located s task = Some (e, i)" and b: "stored_leaf e i body"
    and a: "pa_root a = to_hex (rootOf (take (i + 1) (le_leaves e)))" "pa_index a = i"
      "pa_size a = length (take (i + 1) (le_leaves e))" "pa_body a = body"
      "pa_siblings a = map ps_hash (case log_inclusionProof (take (i + 1) (le_leaves e)) (int i) of Some p \<Rightarrow> p | None \<Rightarrow> [])"
    by (auto simp: publicPrefixAudit_def Let_def split: option.splits if_splits)
  define xs where xs: "xs = take (i + 1) (le_leaves e)"
  note a = a [folded xs]
  have "e \<in> insert (rl_live s) (set (rl_closedEpochs s))"
    using l by (auto simp: located_def findClosed_def Let_def find_Some_iff split: option.splits)
      (metis nth_mem set_rev length_rev)
  from assms(2) [OF this] have len: "length x = 32" if "x \<in> set xs" for x
    using that by (auto simp: xs list_all_iff dest: in_set_takeD)
  from b have i: "i < length xs" "length xs = i + 1" "log_leafHash body = xs ! i"
    by (simp_all add: stored_leaf_def xs)
  from i have p: "log_inclusionProof xs (int i) = Some (proof_levels xs i)"
    by (simp add: log_inclusionProof_def)
  have w: "verify_steps i (length xs - 1) (log_leafHash body) (proof_levels xs i) = Some (0, level_root xs)"
    using verify_steps_complete [OF i(1) len] i(3) by simp
  have r: "rootOf xs = level_root xs" using i(1) by (auto simp: rootOf_def)
  have "length (level_root xs) = 32"
    using receipt_log.tree_root_length [of xs] len i(1) level_root_tree [of xs] by fastforce
  then have "hex64 (root_text (to_hex (rootOf xs)))"
    unfolding r root_text_to_hex using hex64_to_hex by blast
  moreover have "is_safe_integer (JInt (int i))" "is_safe_integer (JInt (int (i + 1)))"
    using assms(3) a(3) i(2) by (simp_all add: is_safe_integer_def)
  moreover have n: "nat (1 + int i) - Suc 0 = i" by simp
  ultimately show ?thesis
    using a i p w verify_steps_unlabelled [OF w] n
    by (simp add: log_verifyInclusion_def num_int_def root_text_to_hex r)
qed

lemma small_log_meta: "le_meta (rl_live small_log) =
    [\<lparr>lm_task = ''genesis'', lm_index = 0, lm_kind = ''genesis'', lm_leaf = to_hex (log_leafHash (genesisBytes ''d'')),
       lm_preimage = genesisBytes ''d'', lm_epoch = 1, lm_at = ''t0''\<rparr>,
     \<lparr>lm_task = ''a'', lm_index = 1, lm_kind = ''receipt'', lm_leaf = to_hex (log_leafHash (receiptLeafBytes ''a'' ''h'')),
       lm_preimage = receiptLeafBytes ''a'' ''h'', lm_epoch = 1, lm_at = ''t1''\<rparr>]"
  by (simp add: small_log_def empty_boot_def new_tree_def quiet_env_def blank_epoch_def log_eval)

theorem public_audit_verifies_witness:
  "\<exists>a. publicPrefixAudit None ''a'' small_log = Inr a \<and> pa_size a = pa_index a + 1 \<and>
    log_verifyInclusion (log_leafHash (pa_body a)) (JInt (int (pa_index a))) (JInt (int (pa_size a))) (pa_root a)
      (map (\<lambda>x. \<lparr>ps_hash = x, ps_position = []\<rparr>) (pa_siblings a))"
proof -
  obtain a where a: "publicPrefixAudit None ''a'' small_log = Inr a" "pa_size a = 2"
    by (simp add: publicPrefixAudit_def located_def findClosed_def small_log_tasks small_log_meta meta_at_def
        leaf_body_def stored_leaf_def bodies_nonempty Let_def)
  from public_audit_verifies [OF a(1)] a small_log_tasks show ?thesis by auto
qed

definition closed_journal :: "log_row list" where
  "closed_journal = [Epoch_open 1 [] 0,
     Leaf_line \<lparr>lr_epoch = 1, lr_index = Some 0, lr_task = ''genesis'', lr_kind = ''genesis'', lr_preimage = [7],
       lr_leaf = [], lr_at = []\<rparr>,
     Epoch_close [] None]"

text \<open>The state after a boot, as the load gives it.\<close>

definition booted :: "log_row list \<Rightarrow> receipt_log" where
  "booted j = (case load_log no_signature (new_tree False Lock_held j []) of Inr s \<Rightarrow> s | Inl e \<Rightarrow> empty_boot)"

lemmas replay_eval = readReceiptLog_def newEpochBucket_def pushLeaf_def row_meta_def row_kind_def
  replayed_epochs_def finishEpoch_def closeEpoch_def materializeEpoch_def load_log_def

text \<open>
  Two ways in which the log writes a journal that its own next boot refuses: a row
  that is in the file although its sync threw (the next append writes the same index again), and
  an append after a boot on a journal whose last epoch is closed (no new epoch is opened).
\<close>

theorem boot_refuses_own_journal:
  "load_log no_signature (new_tree False Lock_held
       (rl_journal (foldl log_step small_log
          [Append (quiet_env\<lparr>ae_leaf := Written_not_synced\<rparr>) ''b'' ''g'', Append quiet_env ''b'' ''g''])) []) = Inl Leaf_index
   \<and> isl (load_log no_signature (new_tree False Lock_held closed_journal [])) = False
   \<and> load_log no_signature (new_tree False Lock_held
       (rl_journal (log_step (booted closed_journal) (Append quiet_env ''b'' ''g''))) []) = Inl Leaf_index"
proof (intro conjI)
  note r = bodies_nonempty
  show "load_log no_signature (new_tree False Lock_held
       (rl_journal (foldl log_step small_log
          [Append (quiet_env\<lparr>ae_leaf := Written_not_synced\<rparr>) ''b'' ''g'', Append quiet_env ''b'' ''g''])) []) = Inl Leaf_index"
    by (simp add: small_log_def empty_boot_def new_tree_def quiet_env_def blank_epoch_def log_eval replay_eval r)
  show c: "isl (load_log no_signature (new_tree False Lock_held closed_journal [])) = False"
    by (simp add: closed_journal_def new_tree_def replay_eval log_eval)
  show "load_log no_signature (new_tree False Lock_held
       (rl_journal (log_step (booted closed_journal) (Append quiet_env ''b'' ''g''))) []) = Inl Leaf_index"
    by (simp add: booted_def closed_journal_def new_tree_def quiet_env_def blank_epoch_def log_eval replay_eval r)
qed

end
