(* ===== verification/Late_Store.thy ===== *)
theory Late_Store
  imports Js_Store
begin

text \<open>
  The rest of \<open>ChallengeStore\<close> in services/gateway/src/x402-adapter.js, with the operations of
  late-issue.js that are one call of it: the public hold handles, the rows of payments whose
  settlement is not known yet, and the ledger of receipts issued late. A null, absent or empty
  text is \<open>[]\<close>. A time is \<open>None\<close> when \<open>Number\<close> of it is not a number; null is the time 0. Ids
  drawn at random are arguments. The objects of the source are changed in place; here the first
  row that matches is replaced.
\<close>

fun update_first :: "('a \<Rightarrow> bool) \<Rightarrow> ('a \<Rightarrow> 'a) \<Rightarrow> 'a list \<Rightarrow> 'a list" where
  "update_first P f [] = []"
| "update_first P f (x # xs) = (if P x then f x # xs else x # update_first P f xs)"

fun without_first :: "('a \<Rightarrow> bool) \<Rightarrow> 'a list \<Rightarrow> 'a list" where
  "without_first P [] = []"
| "without_first P (x # xs) = (if P x then xs else x # without_first P xs)"

section \<open>Hold handles\<close>

record hold_handle =
  hh_id :: string
  hh_key :: string
  hh_class :: string
  hh_code :: string
  hh_hash :: string
  hh_late :: string
  hh_task :: string

definition holdPaymentMatches :: "string \<Rightarrow> string \<Rightarrow> bool" where
  "holdPaymentMatches stored presented \<longleftrightarrow> length stored = length presented \<and> stored \<noteq> [] \<and> stored = presented"

definition hold_of :: "string \<Rightarrow> hold_handle list \<Rightarrow> hold_handle option" where
  "hold_of key hs = find (\<lambda>h. hh_key h = key) hs"

record hold_answer =
  ha_id :: string
  ha_class :: string
  ha_code :: string

definition hold_answer :: "hold_handle \<Rightarrow> hold_answer" where
  "hold_answer h = \<lparr>ha_id = hh_id h, ha_class = hh_class h, ha_code = hh_code h\<rparr>"

text \<open>What \<open>ensureHoldHandle\<close> makes of a handle that is there; \<open>None\<close> when it refuses.\<close>

definition hold_again :: "string \<Rightarrow> string \<Rightarrow> string \<Rightarrow> hold_handle \<Rightarrow> hold_handle option" where
  "hold_again holdClass code presented h =
     (if hh_class h = ''resolvable'' \<and> holdClass = ''terminal'' then
        (if \<not> holdPaymentMatches (hh_hash h) presented then None
         else Some (h\<lparr>hh_class := ''terminal'', hh_code := (if code \<noteq> [] then code else hh_code h)\<rparr>))
      else if \<not> holdPaymentMatches (hh_hash h) presented then None
      else if hh_code h = [] \<and> code \<noteq> [] then Some (h\<lparr>hh_code := code\<rparr>)
      else Some h)"

definition ensureHoldHandle ::
    "string \<Rightarrow> string \<Rightarrow> string \<Rightarrow> string \<Rightarrow> string \<Rightarrow> hold_handle list \<Rightarrow> hold_handle list \<times> hold_answer option" where
  "ensureHoldHandle fresh key holdClass code presented hs =
     (if length key < 8 \<or> 200 < length key then (hs, None)
      else if holdClass \<noteq> ''resolvable'' \<and> holdClass \<noteq> ''terminal'' then (hs, None)
      else case hold_of key hs of
          Some h \<Rightarrow>
            (case hold_again holdClass code presented h of
               None \<Rightarrow> (hs, None)
             | Some h' \<Rightarrow> (update_first (\<lambda>h. hh_key h = key) (\<lambda>_. h') hs, Some (hold_answer h')))
        | None \<Rightarrow>
            (let h = \<lparr>hh_id = fresh, hh_key = key, hh_class = holdClass, hh_code = code, hh_hash = presented,
                      hh_late = [], hh_task = []\<rparr>
             in (hs @ [h], Some (hold_answer h))))"

definition hex_id :: "string \<Rightarrow> bool" where
  "hex_id t \<longleftrightarrow> length t = 32 \<and> is_hex t"

definition hold_by_id :: "string \<Rightarrow> hold_handle list \<Rightarrow> hold_handle option" where
  "hold_by_id t hs = (if hex_id t then find (\<lambda>h. hh_id h = t) hs else None)"

definition getHoldHandle :: "string \<Rightarrow> hold_handle list \<Rightarrow> hold_answer option" where
  "getHoldHandle t hs = map_option hold_answer (hold_by_id t hs)"

definition findHoldHandleByKey :: "string \<Rightarrow> hold_handle list \<Rightarrow> (hold_answer \<times> string) option" where
  "findHoldHandleByKey key hs =
     (if key = [] then None else map_option (\<lambda>h. (hold_answer h, hh_hash h)) (hold_of key hs))"

datatype hold_link = Link_late string | Link_task string

definition linked :: "hold_link \<Rightarrow> hold_handle \<Rightarrow> hold_handle option" where
  "linked l h = (case l of
       Link_task t \<Rightarrow> if t = [] \<or> 200 < length t then None else Some (h\<lparr>hh_task := t\<rparr>)
     | Link_late t \<Rightarrow> if \<not> hex_id t then None else Some (h\<lparr>hh_late := t\<rparr>))"

definition linkHoldHandle :: "string \<Rightarrow> hold_link \<Rightarrow> string \<Rightarrow> hold_handle list \<Rightarrow> hold_handle list \<times> string option" where
  "linkHoldHandle key l presented hs =
     (case hold_of key hs of
        None \<Rightarrow> (hs, None)
      | Some h \<Rightarrow>
          if hh_hash h \<noteq> [] \<and> \<not> holdPaymentMatches (hh_hash h) presented then (hs, None)
          else (case linked l h of
              None \<Rightarrow> (hs, None)
            | Some h' \<Rightarrow> (update_first (\<lambda>h. hh_key h = key) (\<lambda>_. h') hs, Some (hh_id h))))"

definition holdPageLink :: "string \<Rightarrow> hold_handle list \<Rightarrow> (string \<times> string \<times> string \<times> string) option" where
  "holdPageLink t hs = map_option (\<lambda>h. (hh_id h, hh_class h, hh_late h, hh_task h)) (hold_by_id t hs)"

section \<open>Late rows\<close>

datatype late_status =
    Submitted | Unknown | Confirmed | Issuing | Issued | Mismatch_hold | Expired_unresolved | Not_settled

record late_auth =
  la_from :: string
  la_value :: string
  la_after :: "int option"
  la_before :: "int option"

text \<open>What a row captures once when it is opened; a missing amount has the text that \<open>String\<close> gives.\<close>

record late_tuple =
  lu_submitted :: "int option"
  lu_nonce :: string
  lu_network :: string
  lu_asset :: string
  lu_payee :: string
  lu_quote :: string
  lu_expected :: string
  lu_auth_key :: string
  lu_auth :: "late_auth option"
  lu_payment_hash :: string
  lu_principal :: string
  lu_idempotency :: string
  lu_task :: string
  lu_challenge_issued :: "int option"

record late_receipt =
  rc_id :: string
  rc_ref :: string
  rc_payee :: string
  rc_gross :: string
  rc_settled :: string
  rc_network :: string
  rc_jws :: string

record late_row =
  lr_id :: string
  lr_state :: late_status
  lr_tuple :: late_tuple
  lr_sent :: bool
  lr_inline :: bool
  lr_digest :: string
  lr_tx_hint :: string
  lr_tx_ref :: string
  lr_jws :: string
  lr_receipt_id :: string
  lr_receipt :: "late_receipt option"
  lr_ledger :: bool
  lr_served :: bool
  lr_why :: string
  lr_owner :: string
  lr_seq :: nat
  lr_until :: int
  lr_logged :: bool
  lr_scanned :: string
  lr_visited :: int
  lr_confirmed :: int
  lr_hold_class :: string
  lr_public_code :: string

abbreviation lr_auth_key :: "late_row \<Rightarrow> string" where
  "lr_auth_key r \<equiv> lu_auth_key (lr_tuple r)"

abbreviation lr_nonce :: "late_row \<Rightarrow> string" where
  "lr_nonce r \<equiv> lu_nonce (lr_tuple r)"

text \<open>The fields that a patch of a row can set.\<close>

datatype late_set =
    Set_sent bool
  | Set_inline bool
  | Set_digest string
  | Set_tx_hint string
  | Set_tx_ref string
  | Set_jws string
  | Set_receipt_id string
  | Set_receipt late_receipt
  | Set_ledger bool
  | Set_served bool
  | Set_why string
  | Set_owner string
  | Set_seq nat
  | Set_until int
  | Set_logged bool
  | Set_scanned string
  | Set_visited int
  | Set_confirmed int
  | Set_hold_class string
  | Set_public_code string

fun assign :: "late_row \<Rightarrow> late_set \<Rightarrow> late_row" where
  "assign r (Set_sent b) = r\<lparr>lr_sent := b\<rparr>"
| "assign r (Set_inline b) = r\<lparr>lr_inline := b\<rparr>"
| "assign r (Set_digest t) = r\<lparr>lr_digest := t\<rparr>"
| "assign r (Set_tx_hint t) = r\<lparr>lr_tx_hint := t\<rparr>"
| "assign r (Set_tx_ref t) = r\<lparr>lr_tx_ref := t\<rparr>"
| "assign r (Set_jws t) = r\<lparr>lr_jws := t\<rparr>"
| "assign r (Set_receipt_id t) = r\<lparr>lr_receipt_id := t\<rparr>"
| "assign r (Set_receipt c) = r\<lparr>lr_receipt := Some c\<rparr>"
| "assign r (Set_ledger b) = r\<lparr>lr_ledger := b\<rparr>"
| "assign r (Set_served b) = r\<lparr>lr_served := b\<rparr>"
| "assign r (Set_why t) = r\<lparr>lr_why := t\<rparr>"
| "assign r (Set_owner t) = r\<lparr>lr_owner := t\<rparr>"
| "assign r (Set_seq n) = r\<lparr>lr_seq := n\<rparr>"
| "assign r (Set_until i) = r\<lparr>lr_until := i\<rparr>"
| "assign r (Set_logged b) = r\<lparr>lr_logged := b\<rparr>"
| "assign r (Set_scanned t) = r\<lparr>lr_scanned := t\<rparr>"
| "assign r (Set_visited i) = r\<lparr>lr_visited := i\<rparr>"
| "assign r (Set_confirmed i) = r\<lparr>lr_confirmed := i\<rparr>"
| "assign r (Set_hold_class t) = r\<lparr>lr_hold_class := t\<rparr>"
| "assign r (Set_public_code t) = r\<lparr>lr_public_code := t\<rparr>"

fun patch_tx_ref :: "late_set list \<Rightarrow> string" where
  "patch_tx_ref [] = []"
| "patch_tx_ref (Set_tx_ref t # ps) = t"
| "patch_tx_ref (p # ps) = patch_tx_ref ps"

record late_ledger_row =
  ll_auth_key :: string
  ll_tx_ref :: string
  ll_id :: string
  ll_receipt_id :: string
  ll_amount :: string
  ll_payer :: string

record late_store =
  lt_rows :: "late_row list"
  lt_ledger :: "late_ledger_row list"
  lt_holds :: "hold_handle list"

definition empty_late :: late_store where
  "empty_late = \<lparr>lt_rows = [], lt_ledger = [], lt_holds = []\<rparr>"

definition putLate :: "late_row \<Rightarrow> late_store \<Rightarrow> late_store \<times> string option" where
  "putLate row s =
     (if lr_id row = [] then (s, Some ''replay_store_unavailable'')
      else if list_ex (\<lambda>r. lr_id r = lr_id row) (lt_rows s) then (s, Some ''payment_replayed'')
      else if lr_auth_key row \<noteq> [] \<and> list_ex (\<lambda>r. lr_auth_key r = lr_auth_key row) (lt_rows s)
      then (s, Some ''payment_replayed'')
      else (s\<lparr>lt_rows := lt_rows s @ [row]\<rparr>, None))"

definition getLate :: "string \<Rightarrow> late_store \<Rightarrow> late_row option" where
  "getLate i s = find (\<lambda>r. lr_id r = i) (lt_rows s)"

record late_query =
  lq_id :: string
  lq_nonce :: string
  lq_auth_key :: string
  lq_tx_ref :: string
  lq_idempotency :: string
  lq_principal :: string

definition findLate :: "late_query \<Rightarrow> late_store \<Rightarrow> late_row option" where
  "findLate q s = find (\<lambda>r.
     (lq_id q \<noteq> [] \<longrightarrow> lr_id r = lq_id q) \<and> (lq_nonce q \<noteq> [] \<longrightarrow> lr_nonce r = lq_nonce q) \<and>
     (lq_auth_key q \<noteq> [] \<longrightarrow> lr_auth_key r = lq_auth_key q) \<and> (lq_tx_ref q \<noteq> [] \<longrightarrow> lr_tx_ref r = lq_tx_ref q) \<and>
     (lq_idempotency q \<noteq> [] \<longrightarrow> lu_idempotency (lr_tuple r) = lq_idempotency q) \<and>
     (lq_principal q \<noteq> [] \<longrightarrow> lu_principal (lr_tuple r) = lq_principal q) \<and>
     (lq_id q \<noteq> [] \<or> lq_nonce q \<noteq> [] \<or> lq_auth_key q \<noteq> [] \<or> lq_tx_ref q \<noteq> [] \<or> lq_idempotency q \<noteq> [])) (lt_rows s)"

text \<open>\<open>casLate\<close>: compare the state, set the patch and the new state; the row when it was done.\<close>

definition casLate ::
    "string \<Rightarrow> late_status list \<Rightarrow> late_status \<Rightarrow> late_set list \<Rightarrow> late_store \<Rightarrow> late_store \<times> late_row option" where
  "casLate i from to ps s =
     (case getLate i s of
        None \<Rightarrow> (s, None)
      | Some r \<Rightarrow>
          if lr_state r \<notin> set from then (s, None)
          else if patch_tx_ref ps \<noteq> [] \<and>
                  list_ex (\<lambda>q. lr_tx_ref q = patch_tx_ref ps) (without_first (\<lambda>q. lr_id q = i) (lt_rows s))
          then (s, None)
          else (let r' = (foldl assign r ps)\<lparr>lr_state := to\<rparr>
                in (s\<lparr>lt_rows := update_first (\<lambda>q. lr_id q = i) (\<lambda>_. r') (lt_rows s)\<rparr>, Some r')))"

definition abortLate :: "string \<Rightarrow> late_store \<Rightarrow> late_store \<times> bool" where
  "abortLate i s =
     (case getLate i s of
        None \<Rightarrow> (s, False)
      | Some r \<Rightarrow>
          if lr_sent r then (s, False)
          else if lr_state r \<noteq> Submitted then (s, False)
          else (s\<lparr>lt_rows := without_first (\<lambda>q. lr_id q = i) (lt_rows s)\<rparr>, True))"

definition appendLateLedger :: "late_ledger_row \<Rightarrow> late_store \<Rightarrow> late_store \<times> late_ledger_row" where
  "appendLateLedger row s =
     (case find (\<lambda>r. ll_auth_key row \<noteq> [] \<and> ll_auth_key r = ll_auth_key row \<or>
                     ll_tx_ref row \<noteq> [] \<and> ll_tx_ref r = ll_tx_ref row) (lt_ledger s) of
        Some dup \<Rightarrow> (s, dup)
      | None \<Rightarrow> (s\<lparr>lt_ledger := lt_ledger s @ [row]\<rparr>, row))"

definition late_terminal :: "late_status \<Rightarrow> bool" where
  "late_terminal st \<longleftrightarrow> st \<in> {Issued, Mismatch_hold, Expired_unresolved, Not_settled}"

definition pruneLate :: "int \<Rightarrow> int \<Rightarrow> late_store \<Rightarrow> late_store" where
  "pruneLate now maxAge s = s\<lparr>lt_rows := filter (\<lambda>r. \<not> late_terminal (lr_state r) \<or>
     (case lu_submitted (lr_tuple r) of None \<Rightarrow> False | Some t \<Rightarrow> now - maxAge < t)) (lt_rows s)\<rparr>"

section \<open>Opening and capping\<close>

definition new_late_row :: "string \<Rightarrow> string \<Rightarrow> late_tuple \<Rightarrow> late_row" where
  "new_late_row i digest tu = \<lparr>lr_id = i, lr_state = Submitted, lr_tuple = tu, lr_sent = False, lr_inline = False,
     lr_digest = digest, lr_tx_hint = [], lr_tx_ref = [], lr_jws = [], lr_receipt_id = ''late-'' @ i, lr_receipt = None,
     lr_ledger = False, lr_served = False, lr_why = [], lr_owner = [], lr_seq = 0, lr_until = 0, lr_logged = False,
     lr_scanned = [], lr_visited = 0, lr_confirmed = 0, lr_hold_class = [], lr_public_code = []\<rparr>"

definition openLateSubmission :: "string \<Rightarrow> string \<Rightarrow> late_tuple \<Rightarrow> late_store \<Rightarrow> late_store \<times> string option" where
  "openLateSubmission i digest tu s =
     putLate (new_late_row i digest (tu\<lparr>lu_principal := (if lu_principal tu = [] then ''anon'' else lu_principal tu)\<rparr>)) s"

definition open_rows :: "late_store \<Rightarrow> late_row list" where
  "open_rows s = filter (\<lambda>r. \<not> late_terminal (lr_state r)) (lt_rows s)"

definition auth_from :: "late_row \<Rightarrow> string" where
  "auth_from r = (case lu_auth (lr_tuple r) of None \<Rightarrow> [] | Some a \<Rightarrow> la_from a)"

definition lateAdmissionCapped :: "string \<Rightarrow> late_store \<Rightarrow> bool" where
  "lateAdmissionCapped who s \<longleftrightarrow>
     2 \<le> length (filter (\<lambda>r. who \<noteq> [] \<and> js_lower (auth_from r) = js_lower who) (open_rows s)) \<or> 64 \<le> length (open_rows s)"

definition noteLateInlineIssued :: "string \<Rightarrow> string \<Rightarrow> late_store \<Rightarrow> late_store \<times> late_row option" where
  "noteLateInlineIssued i txRef s =
     (if i = [] then (s, None)
      else casLate i [Submitted, Unknown, Confirmed] Issued
             [Set_inline True, Set_sent True, Set_tx_ref txRef, Set_why ''inline'', Set_served True] s)"

section \<open>Runs\<close>

datatype late_op =
    LOpen string string late_tuple
  | LCas string "late_status list" late_status "late_set list"
  | LInline string string
  | LAbort string
  | LPrune int int
  | LLedger late_ledger_row

fun late_step :: "late_store \<Rightarrow> late_op \<Rightarrow> late_store" where
  "late_step s (LOpen i digest tu) = fst (openLateSubmission i digest tu s)"
| "late_step s (LCas i from to ps) = fst (casLate i from to ps s)"
| "late_step s (LInline i txRef) = fst (noteLateInlineIssued i txRef s)"
| "late_step s (LAbort i) = fst (abortLate i s)"
| "late_step s (LPrune now age) = pruneLate now age s"
| "late_step s (LLedger row) = fst (appendLateLedger row s)"

datatype hold_op =
    HEnsure string string string string string
  | HLink string hold_link string

fun hold_do :: "hold_handle list \<Rightarrow> hold_op \<Rightarrow> hold_handle list" where
  "hold_do hs (HEnsure fresh key c code presented) = fst (ensureHoldHandle fresh key c code presented hs)"
| "hold_do hs (HLink key l presented) = fst (linkHoldHandle key l presented hs)"

section \<open>Lemmas on the first match\<close>

lemma first_split:
  assumes "find P xs = Some x"
  obtains a b where "xs = a @ x # b" "P x" "\<forall>y\<in>set a. \<not> P y"
    "\<forall>f. update_first P f xs = a @ f x # b" "without_first P xs = a @ b"
proof -
  have "\<exists>a b. xs = a @ x # b \<and> P x \<and> (\<forall>y\<in>set a. \<not> P y) \<and>
      (\<forall>f. update_first P f xs = a @ f x # b) \<and> without_first P xs = a @ b"
    using assms
  proof (induction xs)
    case (Cons y ys)
    show ?case
    proof (cases "P y")
      case True
      with Cons.prems show ?thesis by (intro exI [of _ "[]"] exI [of _ ys]) simp
    next
      case False
      with Cons obtain a b where ys: "ys = a @ x # b" "P x" "\<forall>y\<in>set a. \<not> P y"
        and u: "\<forall>f. update_first P f ys = a @ f x # b" and w: "without_first P ys = a @ b" by auto
      have "\<forall>f. update_first P f (y # ys) = (y # a) @ f x # b" "without_first P (y # ys) = (y # a) @ b"
        using u w False by simp_all
      moreover have "y # ys = (y # a) @ x # b" "\<forall>z\<in>set (y # a). \<not> P z" using ys False by simp_all
      ultimately show ?thesis using ys(2) by blast
    qed
  qed simp
  with that show ?thesis by blast
qed

lemma list_ex_field: "list_ex (\<lambda>r. f r = v) xs \<longleftrightarrow> v \<in> set (map f xs)"
  by (induction xs) auto

lemma find_SomeP: "find P xs = Some x \<Longrightarrow> P x \<and> x \<in> set xs"
  by (auto simp: find_Some_iff)

lemma find_update_other:
  "(\<And>x. P x \<Longrightarrow> Q (f x) = Q x) \<Longrightarrow> find Q xs = Some y \<Longrightarrow> \<not> P y \<Longrightarrow> find Q (update_first P f xs) = Some y"
  by (induction xs) (auto split: if_splits)

text \<open>A field that is empty or distinct from the fields of the other entries.\<close>

definition unique_field :: "('a \<Rightarrow> string) \<Rightarrow> 'a list \<Rightarrow> bool" where
  "unique_field f xs \<longleftrightarrow> distinct (filter (\<lambda>t. t \<noteq> []) (map f xs))"

lemma unique_Nil [simp]: "unique_field f []"
  by (simp add: unique_field_def)

lemma unique_snoc: "unique_field f xs \<Longrightarrow> f x = [] \<or> f x \<notin> set (map f xs) \<Longrightarrow> unique_field f (xs @ [x])"
  by (auto simp: unique_field_def)

lemma unique_filter: "unique_field f xs \<Longrightarrow> unique_field f (filter P xs)"
  unfolding unique_field_def by (induction xs) auto

lemma unique_mid:
  "unique_field f (a @ x # b) \<longleftrightarrow> unique_field f (a @ b) \<and> (f x = [] \<or> f x \<notin> set (map f (a @ b)))"
  by (auto simp: unique_field_def)

lemma unique_distinct: "unique_field f xs \<Longrightarrow> x \<in> set xs \<Longrightarrow> y \<in> set xs \<Longrightarrow> f x = f y \<Longrightarrow> f x \<noteq> [] \<Longrightarrow> x = y"
proof (induction xs)
  case (Cons z zs)
  from Cons.prems(1) have "f z = [] \<or> f z \<notin> f ` set zs" "unique_field f zs"
    by (auto simp: unique_field_def split: if_splits)
  with Cons.prems Cons.IH show ?case by (metis imageI set_ConsD)
qed simp

section \<open>The rows of a run\<close>

text \<open>The store invariant: ids, authorizations and transfers are not shared between rows, nor in the ledger.\<close>

definition late_ok :: "late_store \<Rightarrow> bool" where
  "late_ok s \<longleftrightarrow> distinct (map lr_id (lt_rows s)) \<and> unique_field lr_auth_key (lt_rows s) \<and>
     unique_field lr_tx_ref (lt_rows s) \<and> unique_field ll_auth_key (lt_ledger s) \<and> unique_field ll_tx_ref (lt_ledger s)"

lemma assign_keeps [simp]:
  "lr_id (assign r p) = lr_id r" "lr_tuple (assign r p) = lr_tuple r" "lr_state (assign r p) = lr_state r"
  by (cases p; simp)+

lemma assigns_keep [simp]:
  "lr_id (foldl assign r ps) = lr_id r" "lr_tuple (foldl assign r ps) = lr_tuple r"
  "lr_state (foldl assign r ps) = lr_state r"
  by (induction ps arbitrary: r) simp_all

definition sets_tx :: "late_set list \<Rightarrow> late_set list" where
  "sets_tx ps = filter (\<lambda>p. case p of Set_tx_ref t \<Rightarrow> True | _ \<Rightarrow> False) ps"

text \<open>A patch is an object: it has a field at most once.\<close>

definition patch_ok :: "late_set list \<Rightarrow> bool" where
  "patch_ok ps \<longleftrightarrow> length (sets_tx ps) \<le> 1"

lemma assign_tx: "lr_tx_ref (assign r p) = (case p of Set_tx_ref t \<Rightarrow> t | _ \<Rightarrow> lr_tx_ref r)"
  by (cases p) simp_all

lemma assigns_tx_none: "sets_tx ps = [] \<Longrightarrow> lr_tx_ref (foldl assign r ps) = lr_tx_ref r"
  by (induction ps arbitrary: r) (auto simp: sets_tx_def assign_tx split: late_set.splits if_splits)

lemma patch_tx_none: "sets_tx ps = [] \<Longrightarrow> patch_tx_ref ps = []"
  by (induction ps rule: patch_tx_ref.induct) (auto simp: sets_tx_def)

lemma assigns_tx:
  "patch_ok ps \<Longrightarrow> sets_tx ps \<noteq> [] \<Longrightarrow> lr_tx_ref (foldl assign r ps) = patch_tx_ref ps"
proof (induction ps arbitrary: r rule: patch_tx_ref.induct)
  case (2 t ps)
  then have "sets_tx ps = []" by (simp add: patch_ok_def sets_tx_def)
  then show ?case using assigns_tx_none by simp
qed (simp_all add: patch_ok_def sets_tx_def)

lemma getLate_id: "getLate i s = Some r \<Longrightarrow> lr_id r = i \<and> r \<in> set (lt_rows s)"
  by (auto simp: getLate_def dest: find_SomeP)

text \<open>What a successful \<open>casLate\<close> did.\<close>

lemma casLate_cases:
  assumes "casLate i from to ps s = (s', res)"
  obtains (same) "s' = s" "res = None"
    | (moved) r r' where "getLate i s = Some r" "lr_state r \<in> set from" "r' = (foldl assign r ps)\<lparr>lr_state := to\<rparr>"
        "res = Some r'" "s' = s\<lparr>lt_rows := update_first (\<lambda>q. lr_id q = i) (\<lambda>_. r') (lt_rows s)\<rparr>"
        "patch_tx_ref ps \<noteq> [] \<Longrightarrow> patch_tx_ref ps \<notin> set (map lr_tx_ref (without_first (\<lambda>q. lr_id q = i) (lt_rows s)))"
  using assms unfolding casLate_def Let_def list_ex_field [of lr_tx_ref]
  by (auto split: option.splits if_splits)

lemma cas_ok:
  assumes ok: "late_ok s" and p: "patch_ok ps" and c: "casLate i from to ps s = (s', res)"
  shows "late_ok s'"
  using c
proof (cases rule: casLate_cases)
  case (moved r r')
  from moved(1) have f: "find (\<lambda>q. lr_id q = i) (lt_rows s) = Some r" by (simp add: getLate_def)
  obtain a b where x: "lt_rows s = a @ r # b" "lr_id r = i" "\<forall>q\<in>set a. lr_id q \<noteq> i"
      "\<forall>f. update_first (\<lambda>q. lr_id q = i) f (lt_rows s) = a @ f r # b"
      "without_first (\<lambda>q. lr_id q = i) (lt_rows s) = a @ b"
    using f by (rule first_split)
  have rows: "lt_rows s' = a @ r' # b" using moved(5) x(4) by simp
  have same: "lr_id r' = lr_id r" "lr_auth_key r' = lr_auth_key r" using moved(3) by simp_all
  have tx: "lr_tx_ref r' = [] \<or> lr_tx_ref r' \<notin> set (map lr_tx_ref (a @ b))"
  proof (cases "sets_tx ps = []")
    case True
    then have "lr_tx_ref r' = lr_tx_ref r" using moved(3) assigns_tx_none by simp
    with ok x(1) show ?thesis by (simp add: late_ok_def unique_mid)
  next
    case False
    then have "lr_tx_ref r' = patch_tx_ref ps" using moved(3) assigns_tx [OF p] by simp
    with moved(6) x(5) show ?thesis by auto
  qed
  have "unique_field lr_tx_ref (lt_rows s')"
    using ok tx by (simp add: late_ok_def x(1) rows unique_mid)
  moreover have "unique_field lr_auth_key (lt_rows s')"
    using ok same by (simp add: late_ok_def x(1) rows unique_mid)
  moreover have "distinct (map lr_id (lt_rows s'))"
    using ok same by (simp add: late_ok_def x(1) rows)
  ultimately show ?thesis using ok moved(5) by (simp add: late_ok_def)
qed (use ok in simp)

lemma late_put_ok:
  "late_ok s \<Longrightarrow> lr_tx_ref row = [] \<Longrightarrow> late_ok (fst (putLate row s))"
  unfolding putLate_def list_ex_field [of lr_id] list_ex_field [of lr_auth_key]
  by (simp add: late_ok_def unique_snoc)

lemma without_first_filter:
  "distinct (map f xs) \<Longrightarrow> without_first (\<lambda>q. f q = i) xs = filter (\<lambda>q. f q \<noteq> i) xs"
proof (induction xs)
  case (Cons x xs)
  have "filter (\<lambda>q. f q \<noteq> f x) xs = xs" using Cons.prems by (auto simp: filter_id_conv intro: rev_image_eqI)
  with Cons show ?case by auto
qed simp

lemma filter_ok: "late_ok s \<Longrightarrow> late_ok (s\<lparr>lt_rows := filter P (lt_rows s)\<rparr>)"
  by (auto simp: late_ok_def distinct_map_filter unique_filter)

lemma abort_ok: "late_ok s \<Longrightarrow> late_ok (fst (abortLate i s))"
proof -
  assume ok: "late_ok s"
  then have "without_first (\<lambda>q. lr_id q = i) (lt_rows s) = filter (\<lambda>q. lr_id q \<noteq> i) (lt_rows s)"
    by (intro without_first_filter) (simp add: late_ok_def)
  with ok show ?thesis by (simp add: abortLate_def filter_ok split: option.split)
qed

lemma ledger_ok: "late_ok s \<Longrightarrow> late_ok (fst (appendLateLedger row s))"
proof (cases "find (\<lambda>r. ll_auth_key row \<noteq> [] \<and> ll_auth_key r = ll_auth_key row \<or>
    ll_tx_ref row \<noteq> [] \<and> ll_tx_ref r = ll_tx_ref row) (lt_ledger s)")
  case None
  then have n: "\<forall>x\<in>set (lt_ledger s). (ll_auth_key row = [] \<or> ll_auth_key x \<noteq> ll_auth_key row) \<and>
      (ll_tx_ref row = [] \<or> ll_tx_ref x \<noteq> ll_tx_ref row)"
    by (simp add: find_None_iff)
  then have "ll_auth_key row = [] \<or> ll_auth_key row \<notin> set (map ll_auth_key (lt_ledger s))" by fastforce
  moreover from n have "ll_tx_ref row = [] \<or> ll_tx_ref row \<notin> set (map ll_tx_ref (lt_ledger s))" by fastforce
  moreover assume "late_ok s"
  ultimately show ?thesis using None by (simp add: appendLateLedger_def late_ok_def unique_snoc)
qed (simp add: appendLateLedger_def)

fun op_ok :: "late_op \<Rightarrow> bool" where
  "op_ok (LCas i from to ps) = patch_ok ps"
| "op_ok _ = True"

lemma late_step_ok: "late_ok s \<Longrightarrow> op_ok x \<Longrightarrow> late_ok (late_step s x)"
proof (cases x)
  case (LInline i t)
  assume "late_ok s"
  then have "late_ok (fst (casLate i [Submitted, Unknown, Confirmed] Issued
      [Set_inline True, Set_sent True, Set_tx_ref t, Set_why ''inline'', Set_served True] s))"
    by (intro cas_ok [OF _ _ prod.collapse [symmetric]]) (simp_all add: patch_ok_def sets_tx_def)
  with \<open>late_ok s\<close> LInline show ?thesis by (simp add: noteLateInlineIssued_def)
next
  case (LCas i frm to ps)
  assume "late_ok s" "op_ok x"
  with LCas cas_ok [OF _ _ prod.collapse [symmetric], of s ps i frm to] show ?thesis by simp
qed (auto simp: openLateSubmission_def new_late_row_def pruneLate_def intro: late_put_ok abort_ok ledger_ok filter_ok)

interpretation late_rows: invariant_run late_step late_ok op_ok
  by unfold_locales (rule late_step_ok)

lemma empty_ok: "late_ok empty_late"
  by (simp add: late_ok_def empty_late_def)

section \<open>The handle of a payment\<close>

fun hold_op_other :: "string \<Rightarrow> string \<Rightarrow> hold_op \<Rightarrow> bool" where
  "hold_op_other key hash (HEnsure fresh k c code presented) \<longleftrightarrow> (k = key \<longrightarrow> presented \<noteq> hash)"
| "hold_op_other key hash (HLink k l presented) \<longleftrightarrow> (k = key \<longrightarrow> presented \<noteq> hash)"

lemma hold_again_key: "hold_again c code p h = Some h' \<Longrightarrow> hh_key h' = hh_key h \<and> hh_id h' = hh_id h \<and> hh_hash h' = hh_hash h \<and>
   (hh_class h = ''terminal'' \<longrightarrow> hh_class h' = ''terminal'') \<and> holdPaymentMatches (hh_hash h) p"
  by (auto simp: hold_again_def split: if_splits)

lemma linked_key: "linked l h = Some h' \<Longrightarrow> hh_key h' = hh_key h \<and> hh_id h' = hh_id h \<and> hh_hash h' = hh_hash h \<and> hh_class h' = hh_class h"
  by (auto simp: linked_def split: hold_link.splits if_splits)

lemma hold_of_update:
  "hold_of k hs = Some h \<Longrightarrow> hh_key h' = k \<Longrightarrow>
   hold_of j (update_first (\<lambda>h. hh_key h = k) (\<lambda>_. h') hs) = (if j = k then Some h' else hold_of j hs)"
  by (induction hs) (auto simp: hold_of_def split: if_splits)

lemma hold_of_key: "hold_of k hs = Some h \<Longrightarrow> hh_key h = k"
  by (auto simp: hold_of_def dest: find_SomeP)

lemma hold_of_snoc: "hold_of k hs = Some h \<Longrightarrow> hold_of k (hs @ [x]) = Some h"
  by (induction hs) (auto simp: hold_of_def split: if_splits)

text \<open>One operation leaves the handle of a key or makes one of the accepted changes of it.\<close>

lemma hold_do_cases:
  assumes "hold_of key hs = Some h"
  shows "\<exists>h'. hold_of key (hold_do hs x) = Some h' \<and> hh_id h' = hh_id h \<and> hh_hash h' = hh_hash h \<and>
    (hh_class h = ''terminal'' \<longrightarrow> hh_class h' = ''terminal'') \<and>
    (hh_hash h \<noteq> [] \<and> hold_op_other key (hh_hash h) x \<longrightarrow> h' = h)"
proof (cases x)
  case (HEnsure fresh k c code p)
  show ?thesis
  proof (cases "hold_of k hs")
    case None
    with HEnsure assms hold_of_snoc [OF assms] show ?thesis by (auto simp: ensureHoldHandle_def Let_def)
  next
    case (Some g)
    show ?thesis
    proof (cases "hold_again c code p g")
      case None
      with HEnsure assms Some show ?thesis by (auto simp: ensureHoldHandle_def)
    next
      case (Some g')
      note g' = hold_again_key [OF Some]
      have k: "hh_key g' = k" using g' hold_of_key [OF \<open>hold_of k hs = Some g\<close>] by simp
      from HEnsure \<open>hold_of k hs = Some g\<close> Some assms g' hold_of_update [OF \<open>hold_of k hs = Some g\<close> k, of key]
      show ?thesis by (auto simp: ensureHoldHandle_def holdPaymentMatches_def)
    qed
  qed
next
  case (HLink k l p)
  show ?thesis
  proof (cases "hold_of k hs")
    case (Some g)
    show ?thesis
    proof (cases "linked l g")
      case None
      with HLink assms Some show ?thesis by (auto simp: linkHoldHandle_def)
    next
      case l: (Some g')
      note g' = linked_key [OF l]
      have k: "hh_key g' = k" using g' hold_of_key [OF Some] by simp
      from HLink Some l assms g' hold_of_update [OF Some k, of key]
      show ?thesis by (auto simp: linkHoldHandle_def holdPaymentMatches_def)
    qed
  qed (use HLink assms in \<open>auto simp: linkHoldHandle_def\<close>)
qed

section \<open>Properties\<close>

text \<open>
  In every run of the late rows from the empty store, whatever the callers patch: no two
  rows have one id, one authorization or one transfer, and the ledger of late receipts has no two
  entries for one authorization or one transfer.
\<close>

theorem late_rows_unique:
  assumes "list_all op_ok ops"
  shows "distinct (map lr_id (lt_rows (foldl late_step empty_late ops))) \<and>
    unique_field lr_auth_key (lt_rows (foldl late_step empty_late ops)) \<and>
    unique_field lr_tx_ref (lt_rows (foldl late_step empty_late ops)) \<and>
    unique_field ll_auth_key (lt_ledger (foldl late_step empty_late ops)) \<and>
    unique_field ll_tx_ref (lt_ledger (foldl late_step empty_late ops))"
  using late_rows.run_inv [OF empty_ok assms] by (simp add: late_ok_def)

definition example_tuple :: "string \<Rightarrow> late_tuple" where
  "example_tuple a = \<lparr>lu_submitted = Some 1000, lu_nonce = ''n'' @ a, lu_network = ''base'', lu_asset = ''0xusdc'',
     lu_payee = ''0xpayee'', lu_quote = ''2000'', lu_expected = ''2000'', lu_auth_key = a,
     lu_auth = Some \<lparr>la_from = ''0xpayer'', la_value = ''2000'', la_after = Some 0, la_before = Some 500\<rparr>,
     lu_payment_hash = ''cafe'', lu_principal = [], lu_idempotency = [], lu_task = ''t'', lu_challenge_issued = Some 900\<rparr>"

definition example_late_ops :: "late_op list" where
  "example_late_ops = [LOpen ''a'' [] (example_tuple ''k1''), LOpen ''b'' [] (example_tuple ''k2''),
     LInline ''a'' ''base:0x1'', LCas ''b'' [Submitted] Issued [Set_tx_ref ''base:0x1''], LOpen ''c'' [] (example_tuple ''k2''),
     LCas ''b'' [Submitted] Unknown [Set_tx_ref ''base:0x2'', Set_sent True]]"

theorem late_rows_unique_witness:
  "unique_field lr_tx_ref (lt_rows (foldl late_step empty_late example_late_ops)) \<and>
   map (\<lambda>r. (lr_id r, lr_state r, lr_tx_ref r)) (lt_rows (foldl late_step empty_late example_late_ops)) =
     [(''a'', Issued, ''base:0x1''), (''b'', Unknown, ''base:0x2'')]"
proof
  have "list_all op_ok example_late_ops" by (simp add: example_late_ops_def patch_ok_def sets_tx_def)
  from late_rows_unique [OF this] show "unique_field lr_tx_ref (lt_rows (foldl late_step empty_late example_late_ops))" by blast
qed code_simp

text \<open>
  The public handle of a hold belongs to the payment that made it: calls for its key
  that do not present the hash of that payment leave the handle as it is, whatever class, code or
  link they ask for.
\<close>

theorem hold_only_its_payment:
  assumes "hold_of key hs = Some h" "hh_hash h \<noteq> []" "list_all (hold_op_other key (hh_hash h)) ops"
  shows "hold_of key (foldl hold_do hs ops) = Some h"
  using assms
proof (induction ops arbitrary: hs)
  case (Cons x ops)
  from hold_do_cases [OF Cons.prems(1), of x] Cons.prems(2,3) have "hold_of key (hold_do hs x) = Some h" by auto
  with Cons show ?case by simp
qed simp

definition example_hold :: "string \<Rightarrow> hold_handle" where
  "example_hold c = \<lparr>hh_id = ''a1'', hh_key = ''settle:1'', hh_class = c, hh_code = [], hh_hash = ''cafe'', hh_late = [],
     hh_task = []\<rparr>"

theorem hold_only_its_payment_witness:
  "hold_of ''settle:1'' (foldl hold_do [example_hold ''resolvable'']
     [HEnsure ''b2'' ''settle:1'' ''terminal'' ''late'' ''f00d'', HLink ''settle:1'' (Link_task ''t'') []]) =
   Some (example_hold ''resolvable'')"
  by (rule hold_only_its_payment) (simp_all add: hold_of_def example_hold_def)

text \<open>A hold that is terminal stays terminal, with its id and its payment, whatever is called.\<close>

theorem terminal_hold_final:
  assumes "hold_of key hs = Some h" "hh_class h = ''terminal''"
  shows "\<exists>h'. hold_of key (foldl hold_do hs ops) = Some h' \<and> hh_class h' = ''terminal'' \<and> hh_id h' = hh_id h \<and> hh_hash h' = hh_hash h"
  using assms
proof (induction ops arbitrary: hs h)
  case (Cons x ops)
  from hold_do_cases [OF Cons.prems(1), of x] Cons.prems(2) obtain h' where
    "hold_of key (hold_do hs x) = Some h'" "hh_class h' = ''terminal''" "hh_id h' = hh_id h" "hh_hash h' = hh_hash h" by auto
  with Cons.IH [of "hold_do hs x" h'] show ?case by simp
qed simp

theorem terminal_hold_final_witness:
  "\<exists>h'. hold_of ''settle:1'' (foldl hold_do [example_hold ''terminal'']
     [HEnsure ''b2'' ''settle:1'' ''resolvable'' ''late'' ''cafe'', HLink ''settle:1'' (Link_task ''t'') ''cafe'']) = Some h' \<and>
     hh_class h' = ''terminal'' \<and> hh_id h' = hh_id (example_hold ''terminal'') \<and> hh_hash h' = hh_hash (example_hold ''terminal'')"
  by (rule terminal_hold_final) (simp_all add: hold_of_def example_hold_def)

end
