(* ===== verification/Payment_Ref.thy ===== *)
theory Payment_Ref
  imports Byte_Ints
begin

text \<open>
  services/gateway/src/payment-ref.js with the network names of x402-facilitator.js and
  arc-rail.js: the canonical name of a network, base58, and the key under which a payment
  reference is remembered as spent. Whether the Arc rail is switched on is an argument; a null
  network or transfer is the empty text.
\<close>

section \<open>Base58\<close>

definition B58_ALPHABET :: string where
  "B58_ALPHABET = ''123456789ABCDEFGHJKLMNPQRSTUVWXYZabcdefghijkmnopqrstuvwxyz''"

definition b58_index :: "char \<Rightarrow> nat option" where
  "b58_index c = map_of (zip B58_ALPHABET [0..<58]) c"

fun b58_number :: "nat \<Rightarrow> string \<Rightarrow> nat option" where
  "b58_number n [] = Some n"
| "b58_number n (c # cs) = (case b58_index c of None \<Rightarrow> None | Some v \<Rightarrow> b58_number (n * 58 + v) cs)"

text \<open>The loop that pushes the low bytes of the number.\<close>

fun low_bytes :: "nat \<Rightarrow> bytes" where
  "low_bytes n = (if n = 0 then [] else word_of_nat (n mod 256) # low_bytes (n div 256))"

declare low_bytes.simps [simp del]

definition leading :: "'a \<Rightarrow> 'a list \<Rightarrow> nat" where
  "leading x xs = length (takeWhile (\<lambda>y. y = x) xs)"

definition decodeBase58 :: "string \<Rightarrow> bytes option" where
  "decodeBase58 s =
     (if s = [] then None
      else case b58_number 0 s of
          None \<Rightarrow> None
        | Some n \<Rightarrow> Some (replicate (leading (CHR ''1'') s) 0 @ rev (low_bytes n)))"

text \<open>The loop that prepends the digits of the number.\<close>

fun b58_digits :: "nat \<Rightarrow> string \<Rightarrow> string" where
  "b58_digits n out = (if n = 0 then out else b58_digits (n div 58) (B58_ALPHABET ! (n mod 58) # out))"

declare b58_digits.simps [simp del]

definition encodeBase58 :: "bytes \<Rightarrow> string" where
  "encodeBase58 bs = replicate (leading 0 bs) (CHR ''1'') @ b58_digits (bytesToBig bs) []"

section \<open>Networks\<close>

definition arc_by_id :: "(string \<times> string) list" where
  "arc_by_id = [(''arc-testnet'', ''arc-testnet''), (''eip155:5042002'', ''arc-testnet''),
                (''arc'', ''arc''), (''eip155:5042'', ''arc'')]"

definition arcChainOf :: "string \<Rightarrow> string option" where
  "arcChainOf network = map_of arc_by_id (js_lower (js_trim network))"

definition arc_live :: "string \<Rightarrow> bool" where
  "arc_live short \<longleftrightarrow> short = ''arc-testnet''"

definition arcNetwork :: "bool \<Rightarrow> string \<Rightarrow> string option" where
  "arcNetwork arc network =
     (case arcChainOf network of None \<Rightarrow> None | Some c \<Rightarrow> if arc_live c \<and> arc then Some c else None)"

definition SOLANA_NETWORKS :: "(string \<times> string) list" where
  "SOLANA_NETWORKS = [(''solana'', ''solana:5eykt4UsFv8P8NJdTREpY1vzqKqZKvdp''),
                      (''solana-devnet'', ''solana:EtWTRABZaYq6iMfeYKouRu166VU2xqa1'')]"

definition SOLANA_CAIP2_TO_SHORT :: "(string \<times> string) list" where
  "SOLANA_CAIP2_TO_SHORT = map (\<lambda>(k, v). (v, k)) SOLANA_NETWORKS @ map (\<lambda>(k, v). (js_lower v, k)) SOLANA_NETWORKS"

definition PROTO_NETWORK_KEYS :: "string list" where
  "PROTO_NETWORK_KEYS = [''__proto__'', ''constructor'', ''prototype'', ''toString'', ''valueOf'', ''hasOwnProperty'',
     ''toLocaleString'', ''isPrototypeOf'', ''propertyIsEnumerable'']"

definition isProtoNetworkKey :: "string \<Rightarrow> bool" where
  "isProtoNetworkKey v \<longleftrightarrow> v \<in> set PROTO_NETWORK_KEYS \<or> js_lower v \<in> set PROTO_NETWORK_KEYS"

definition ownValue :: "(string \<times> string) list \<Rightarrow> string \<Rightarrow> string option" where
  "ownValue m k = (if isProtoNetworkKey k then None else map_of m k)"

definition isSolanaNetwork :: "string \<Rightarrow> bool" where
  "isSolanaNetwork n \<longleftrightarrow> n \<noteq> [] \<and> \<not> (isProtoNetworkKey n \<or> isProtoNetworkKey (js_lower n)) \<and>
     (ownValue SOLANA_NETWORKS (js_lower n) \<noteq> None \<or> ownValue SOLANA_CAIP2_TO_SHORT n \<noteq> None \<or>
      ownValue SOLANA_CAIP2_TO_SHORT (js_lower n) \<noteq> None)"

definition fromCaip2Network :: "bool \<Rightarrow> string \<Rightarrow> string" where
  "fromCaip2Network arc n =
     (if n = [] then ''base''
      else if isProtoNetworkKey n \<or> isProtoNetworkKey (js_lower n) then ''unknown-network''
      else if js_lower n = ''eip155:8453'' \<or> js_lower n = ''base'' then ''base''
      else if js_lower n = ''eip155:84532'' \<or> js_lower n = ''base-sepolia'' then ''base-sepolia''
      else case arcNetwork arc (js_lower n) of
          Some a \<Rightarrow> a
        | None \<Rightarrow>
            (case ownValue SOLANA_CAIP2_TO_SHORT n of
               Some sh \<Rightarrow> sh
             | None \<Rightarrow>
                 (case ownValue SOLANA_CAIP2_TO_SHORT (js_lower n) of
                    Some sh \<Rightarrow> sh
                  | None \<Rightarrow> if ownValue SOLANA_NETWORKS (js_lower n) \<noteq> None then js_lower n else n)))"

definition canonicalNetwork :: "bool \<Rightarrow> string \<Rightarrow> string" where
  "canonicalNetwork arc network =
     (let short = fromCaip2Network arc network
      in if short = ''base'' \<or> short = ''eip155:8453'' then ''base''
         else if short = ''base-sepolia'' \<or> short = ''eip155:84532'' then ''base-sepolia''
         else case arcNetwork arc network of
             Some a \<Rightarrow> a
           | None \<Rightarrow> if isSolanaNetwork short then fromCaip2Network arc short else js_trim network)"

definition sameNetwork :: "bool \<Rightarrow> string \<Rightarrow> string \<Rightarrow> bool" where
  "sameNetwork arc a b \<longleftrightarrow> a \<noteq> [] \<and> b \<noteq> [] \<and> canonicalNetwork arc a = canonicalNetwork arc b"

section \<open>Payment references\<close>

definition is_hex_any :: "string \<Rightarrow> bool" where
  "is_hex_any s \<longleftrightarrow> is_hex (js_lower s)"

definition evm_tx_text :: "string \<Rightarrow> bool" where
  "evm_tx_text t \<longleftrightarrow> take 2 t = ''0x'' \<and> length t = 66 \<and> is_hex_any (drop 2 t)"

definition isEvmTxHash :: "string \<Rightarrow> bool" where
  "isEvmTxHash tx = evm_tx_text (js_trim tx)"

definition isSolanaSignature :: "string \<Rightarrow> bool" where
  "isSolanaSignature sig \<longleftrightarrow> 64 \<le> length sig \<and> length sig \<le> 88 \<and> sig = js_trim sig \<and>
     (case decodeBase58 sig of None \<Rightarrow> False | Some raw \<Rightarrow> length raw = 64)"

record payment_ref =
  pr_key :: string
  pr_network :: string
  pr_tx :: string
  pr_solana :: bool

definition with_0x :: "string \<Rightarrow> string" where
  "with_0x raw = (if take 2 raw = ''0x'' \<or> take 2 raw = ''0X'' then raw else ''0x'' @ raw)"

definition normalizePaymentRef :: "bool \<Rightarrow> string \<Rightarrow> string \<Rightarrow> payment_ref option" where
  "normalizePaymentRef arc network raw =
     (let net = canonicalNetwork arc network
      in if isSolanaNetwork net \<or> isSolanaNetwork network then
           (if \<not> isSolanaSignature raw then None
            else (let chain = canonicalNetwork arc (if network = [] then net else network)
                  in Some \<lparr>pr_key = chain @ '':'' @ raw, pr_network = chain, pr_tx = raw, pr_solana = True\<rparr>))
         else (let hash = with_0x raw
               in if \<not> isEvmTxHash hash then None
                  else (let chain = (if net = ''base-sepolia'' then ''base-sepolia'' else if net = [] then ''base'' else net);
                            lowered = ''0x'' @ js_lower (drop 2 hash)
                        in Some \<lparr>pr_key = chain @ '':'' @ lowered, pr_network = chain, pr_tx = lowered,
                                 pr_solana = False\<rparr>)))"

text \<open>The first match of \<open>/0x[0-9a-fA-F]{64}/\<close>, and the first position of a text in another.\<close>

fun match_evm_tx :: "string \<Rightarrow> string option" where
  "match_evm_tx [] = None"
| "match_evm_tx (c # cs) = (if evm_tx_text (take 66 (c # cs)) then Some (take 66 (c # cs)) else match_evm_tx cs)"

declare match_evm_tx.simps(2) [simp del]

fun index_of :: "string \<Rightarrow> string \<Rightarrow> nat" where
  "index_of t [] = 0"
| "index_of t (c # cs) = (if take (length t) (c # cs) = t then 0 else Suc (index_of t cs))"

declare index_of.simps(2) [simp del]

definition drop_colon :: "string \<Rightarrow> string" where
  "drop_colon s = (if s \<noteq> [] \<and> last s = CHR '':'' then butlast s else s)"

definition before_last_colon :: "string \<Rightarrow> string" where
  "before_last_colon s = rev (tl (dropWhile (\<lambda>c. c \<noteq> CHR '':'') (rev s)))"

definition after_last_colon :: "string \<Rightarrow> string" where
  "after_last_colon s = rev (takeWhile (\<lambda>c. c \<noteq> CHR '':'') (rev s))"

definition paymentRefIndexKey :: "bool \<Rightarrow> string \<Rightarrow> string option" where
  "paymentRefIndexKey arc s =
     (if CHR '':'' \<notin> set s \<or> hd s = CHR '':'' then None
      else case match_evm_tx s of
          Some t \<Rightarrow>
            (let prefix = drop_colon (take (index_of (js_lower t) (js_lower s)) s)
             in map_option pr_key (normalizePaymentRef arc (if prefix = [] then ''base'' else prefix) t))
        | None \<Rightarrow>
            (let prefix = before_last_colon s; tx = after_last_colon s
             in if isSolanaNetwork prefix \<or> isSolanaNetwork (takeWhile (\<lambda>c. c \<noteq> CHR '':'') prefix)
                then map_option pr_key (normalizePaymentRef arc prefix tx) else None))"

section \<open>Lemmas\<close>

lemma alphabet_length [simp]: "length B58_ALPHABET = 58"
  by (simp add: B58_ALPHABET_def)

lemma alphabet_distinct: "distinct B58_ALPHABET"
  by (simp add: B58_ALPHABET_def)

lemma b58_index_nth [simp]: "i < 58 \<Longrightarrow> b58_index (B58_ALPHABET ! i) = Some i"
  using map_of_zip_nth [of B58_ALPHABET "[0..<58]" i] alphabet_distinct by (simp add: b58_index_def)

lemma b58_index_Some: "b58_index c = Some v \<Longrightarrow> v < 58 \<and> B58_ALPHABET ! v = c"
  unfolding b58_index_def by (drule map_of_SomeD) (auto simp: in_set_zip)

lemma b58_index_zero: "b58_index c = Some 0 \<longleftrightarrow> c = CHR ''1''"
proof
  assume "b58_index c = Some 0"
  then show "c = CHR ''1''" by (auto dest: b58_index_Some simp: B58_ALPHABET_def)
next
  have "b58_index (B58_ALPHABET ! 0) = Some 0" by (rule b58_index_nth) simp
  then show "c = CHR ''1'' \<Longrightarrow> b58_index c = Some 0" by (simp add: B58_ALPHABET_def)
qed

lemma b58_number_append:
  "b58_number n (s @ t) = (case b58_number n s of None \<Rightarrow> None | Some m \<Rightarrow> b58_number m t)"
  by (induction s arbitrary: n) (auto split: option.split)

lemma b58_digits_acc: "b58_digits n out = b58_digits n [] @ out"
proof (induction n arbitrary: out rule: less_induct)
  case (less n)
  show ?case
  proof (cases "n = 0")
    case False
    then have "n div 58 < n" by simp
    from less.IH [OF this, of "B58_ALPHABET ! (n mod 58) # out"] less.IH [OF this, of "[B58_ALPHABET ! (n mod 58)]"] False
    show ?thesis by (simp add: b58_digits.simps [of n])
  qed (simp add: b58_digits.simps)
qed

lemma b58_digits_rec: "n \<noteq> 0 \<Longrightarrow> b58_digits n [] = b58_digits (n div 58) [] @ [B58_ALPHABET ! (n mod 58)]"
  by (subst b58_digits.simps) (simp only: if_False b58_digits_acc [of "n div 58" "[_]"])

lemma b58_digits_0 [simp]: "b58_digits 0 out = out"
  by (simp add: b58_digits.simps)

lemma b58_number_digits: "b58_number 0 (b58_digits n []) = Some n"
proof (induction n rule: less_induct)
  case (less n)
  show ?case
  proof (cases "n = 0")
    case False
    then have "b58_number 0 (b58_digits (n div 58) []) = Some (n div 58)" by (intro less.IH) simp
    moreover have "n div 58 * 58 + n mod 58 = n" by simp
    ultimately show ?thesis using False by (simp add: b58_digits_rec b58_number_append)
  qed simp
qed

lemma b58_digits_head: "n \<noteq> 0 \<Longrightarrow> b58_digits n [] \<noteq> [] \<and> hd (b58_digits n []) \<noteq> CHR ''1''"
proof (induction n rule: less_induct)
  case (less n)
  show ?case
  proof (cases "n div 58 = 0")
    case True
    have "B58_ALPHABET ! (n mod 58) \<noteq> CHR ''1''"
      using b58_index_nth [of "n mod 58"] b58_index_zero [of "B58_ALPHABET ! (n mod 58)"] less.prems True by auto
    with True less.prems show ?thesis by (simp add: b58_digits_rec)
  next
    case False
    with less.IH [of "n div 58"] less.prems show ?thesis by (simp add: b58_digits_rec [of n])
  qed
qed

text \<open>A base58 text without a leading 1 is the text of its number.\<close>

lemma b58_digits_unique: "b58_number 0 s = Some n \<Longrightarrow> s = [] \<or> hd s \<noteq> CHR ''1'' \<Longrightarrow> b58_digits n [] = s"
proof (induction s arbitrary: n rule: rev_induct)
  case (snoc c s)
  from snoc.prems(1) obtain m v where m: "b58_number 0 s = Some m" and v: "b58_index c = Some v" and n: "n = m * 58 + v"
    by (auto simp: b58_number_append split: option.splits)
  have d: "b58_digits m [] = s"
    by (rule snoc.IH [OF m]) (use snoc.prems(2) in \<open>cases s; simp\<close>)
  have v58: "v < 58" "B58_ALPHABET ! v = c" using b58_index_Some [OF v] by simp_all
  have "n \<noteq> 0"
  proof
    assume "n = 0"
    with n have "m = 0" "v = 0" by simp_all
    with d v b58_index_zero snoc.prems(2) show False by simp
  qed
  moreover have "n div 58 = m" "n mod 58 = v" using n v58 by simp_all
  ultimately show ?case using d v58 by (simp add: b58_digits_rec)
qed simp

lemma b58_number_ones: "b58_number 0 (replicate k (CHR ''1'') @ s) = b58_number 0 s"
  using b58_index_zero [of "CHR ''1''"] by (induction k) simp_all

lemma min_bytes_acc_low: "min_bytes_acc n acc = rev (low_bytes n) @ acc"
proof (induction n arbitrary: acc rule: less_induct)
  case (less n)
  show ?case
    by (cases "n = 0")
      (simp_all add: min_bytes_acc.simps [of n] low_bytes.simps [of n] min_bytes_acc.simps [of 0] low_bytes.simps [of 0]
        less.IH [of "n div 256"])
qed

lemma rev_low_bytes: "rev (low_bytes n) = min_bytes n"
  by (simp add: min_bytes_def min_bytes_acc_low)

lemma leading_split: "xs = replicate (leading x xs) x @ dropWhile (\<lambda>y. y = x) xs"
proof -
  have "takeWhile (\<lambda>y. y = x) xs = replicate (leading x xs) x"
    unfolding leading_def by (rule replicate_length_same [symmetric]) (auto dest: set_takeWhileD)
  then show ?thesis using takeWhile_dropWhile_id [of "\<lambda>y. y = x" xs] by metis
qed

lemma leading_replicate: "ys = [] \<or> hd ys \<noteq> x \<Longrightarrow> leading x (replicate k x @ ys) = k"
  by (cases ys) (auto simp: leading_def takeWhile_append)

lemma leading_same [simp]: "leading x (replicate k x) = k"
  using leading_replicate [of "[]" x k] by simp

lemma dropWhile_head: "dropWhile (\<lambda>y. y = x) xs = [] \<or> hd (dropWhile (\<lambda>y. y = x) xs) \<noteq> x"
  using hd_dropWhile [of "\<lambda>y. y = x" xs] by auto

lemma length_js_lower [simp]: "length (js_lower s) = length s"
  by (simp add: js_lower_def)

lemma js_lower_append: "js_lower (s @ t) = js_lower s @ js_lower t"
  by (simp add: js_lower_def)

lemma lower_letters: "js_lower ''0x'' = ''0x''" "js_lower ''base:'' = ''base:''"
  by (simp_all add: js_lower_def lower_char_def)

lemma b58_index_colon: "b58_index (CHR '':'') = None"
proof (rule ccontr)
  assume "b58_index (CHR '':'') \<noteq> None"
  then obtain v where "b58_index (CHR '':'') = Some v" by blast
  from b58_index_Some [OF this] have "CHR '':'' \<in> set B58_ALPHABET" using nth_mem [of v B58_ALPHABET] by simp
  then show False by (simp add: B58_ALPHABET_def)
qed

lemma b58_number_no_colon: "b58_number n s = Some m \<Longrightarrow> CHR '':'' \<notin> set s"
  by (induction s arbitrary: n) (auto simp: b58_index_colon split: option.splits)

lemma hex_digit_not_colon: "hex_digit c \<noteq> None \<Longrightarrow> c \<noteq> CHR '':''"
  by (auto simp: hex_digit_def)

lemma is_hex_no_colon: "is_hex s \<Longrightarrow> CHR '':'' \<notin> set s"
  by (auto simp: is_hex_def list_all_iff hex_digit_def)

lemma space_not_colon: "is_space c \<Longrightarrow> c \<noteq> CHR '':''"
  by (auto simp: is_space_def)

lemma lower_colon: "CHR '':'' \<in> set (js_lower s) \<longleftrightarrow> CHR '':'' \<in> set s"
proof -
  have "lower_char c = CHR '':'' \<longleftrightarrow> c = CHR '':''" for c
  proof -
    have "of_char (lower_char c) = (58 :: nat) \<longleftrightarrow> of_char c = (58 :: nat)"
      by (auto simp: lower_char_def Let_def)
    moreover have "of_char x = (58 :: nat) \<longleftrightarrow> x = CHR '':''" for x :: char
      using of_char_eq_iff [of x "CHR '':''", where 'a = nat] by simp
    ultimately show ?thesis by blast
  qed
  then have "CHR '':'' \<in> lower_char ` set s \<longleftrightarrow> CHR '':'' \<in> set s" by (metis (no_types, lifting) imageE imageI)
  then show ?thesis by (simp add: js_lower_def)
qed

lemma trim_colon: "CHR '':'' \<in> set s \<Longrightarrow> CHR '':'' \<in> set (js_trim s)"
proof -
  have d: "c \<in> set xs \<Longrightarrow> \<not> is_space c \<Longrightarrow> c \<in> set (dropWhile is_space xs)" for c xs
    by (induction xs) auto
  assume "CHR '':'' \<in> set s"
  with d [of "CHR '':''" s] d [of "CHR '':''" "rev (dropWhile is_space s)"] show ?thesis
    by (simp add: js_trim_def is_space_def)
qed

lemma evm_tx_no_colon: "isEvmTxHash t \<Longrightarrow> CHR '':'' \<notin> set t"
proof
  assume e: "isEvmTxHash t" and c: "CHR '':'' \<in> set t"
  let ?t = "js_trim t"
  from e have h: "take 2 ?t = ''0x''" "is_hex (js_lower (drop 2 ?t))"
    by (auto simp: isEvmTxHash_def evm_tx_text_def is_hex_any_def)
  from trim_colon [OF c] have "CHR '':'' \<in> set (take 2 ?t @ drop 2 ?t)" by simp
  with h(1) have "CHR '':'' \<in> set (drop 2 ?t)" by (simp del: append_take_drop_id)
  with is_hex_no_colon [OF h(2)] lower_colon show False by blast
qed

lemma normalize_key: "normalizePaymentRef arc n t = Some p \<Longrightarrow> pr_key p = pr_network p @ '':'' @ pr_tx p \<and> CHR '':'' \<notin> set (pr_tx p)"
proof -
  assume a: "normalizePaymentRef arc n t = Some p"
  show ?thesis
  proof (cases "isSolanaNetwork (canonicalNetwork arc n) \<or> isSolanaNetwork n")
    case True
    with a show ?thesis
      by (auto simp: normalizePaymentRef_def Let_def isSolanaSignature_def decodeBase58_def b58_number_no_colon
          split: if_splits option.splits)
  next
    case False
    let ?h = "with_0x t"
    from a False have e: "isEvmTxHash ?h" and p: "pr_key p = pr_network p @ '':'' @ pr_tx p" "pr_tx p = ''0x'' @ js_lower (drop 2 ?h)"
      by (auto simp: normalizePaymentRef_def Let_def split: if_splits)
    from evm_tx_no_colon [OF e] have "CHR '':'' \<notin> set (drop 2 ?h)" by (auto dest: in_set_dropD)
    with p lower_colon show ?thesis by simp
  qed
qed

lemma colon_split: "a @ CHR '':'' # t = b @ CHR '':'' # u \<Longrightarrow> CHR '':'' \<notin> set t \<Longrightarrow> CHR '':'' \<notin> set u \<Longrightarrow> a = b \<and> t = u"
  by (auto simp: append_eq_append_conv2 Cons_eq_append_conv append_eq_Cons_conv)

lemma space_not_hex: "is_space c \<Longrightarrow> hex_digit (lower_char c) = None \<and> c \<noteq> CHR ''x'' \<and> c \<noteq> CHR ''0''"
  by (auto simp: is_space_def hex_digit_def lower_char_def Let_def)

lemma evm_tx_no_space: "evm_tx_text t \<Longrightarrow> list_all (\<lambda>c. \<not> is_space c) t"
proof -
  assume e: "evm_tx_text t"
  then have h: "list_all (\<lambda>c. hex_digit (lower_char c) \<noteq> None) (drop 2 t)"
    by (simp add: evm_tx_text_def is_hex_any_def is_hex_def js_lower_def list_all_iff)
  have "\<not> is_space c" if "c \<in> set (take 2 t @ drop 2 t)" for c
    using that h e space_not_hex [of c] by (auto simp: evm_tx_text_def list_all_iff simp del: append_take_drop_id)
  then show ?thesis by (simp add: list_all_iff)
qed

lemma evm_tx_trim: "evm_tx_text t \<Longrightarrow> js_trim t = t"
  by (rule js_trim_id) (rule evm_tx_no_space)

definition evm_ref :: "string \<Rightarrow> string \<Rightarrow> payment_ref" where
  "evm_ref chain hash = \<lparr>pr_key = chain @ '':'' @ ''0x'' @ js_lower (drop 2 hash), pr_network = chain,
     pr_tx = ''0x'' @ js_lower (drop 2 hash), pr_solana = False\<rparr>"

lemma normalize_evm:
  assumes "isEvmTxHash (with_0x t)" "\<not> isSolanaNetwork (canonicalNetwork arc n)" "\<not> isSolanaNetwork n"
  shows "normalizePaymentRef arc n t =
    Some (evm_ref (if canonicalNetwork arc n = [] then ''base'' else canonicalNetwork arc n) (with_0x t))"
  using assms by (simp add: normalizePaymentRef_def evm_ref_def Let_def)

lemma match_evm_skip: "c \<noteq> CHR ''0'' \<Longrightarrow> match_evm_tx (c # cs) = match_evm_tx cs"
  by (simp add: match_evm_tx.simps(2) evm_tx_text_def numeral_eq_Suc)

lemma match_evm_here: "evm_tx_text t \<Longrightarrow> match_evm_tx (t @ r) = Some t"
  by (cases t) (auto simp: evm_tx_text_def match_evm_tx.simps(2))

lemma index_of_skip: "c \<noteq> d \<Longrightarrow> index_of (c # t) (d # cs) = Suc (index_of (c # t) cs)"
  by (simp add: index_of.simps(2))

lemma index_of_here: "t \<noteq> [] \<Longrightarrow> index_of t (t @ r) = 0"
  by (cases t) (auto simp: index_of.simps(2))

section \<open>Properties\<close>

text \<open>
  Base58 decoding and encoding are inverse to each other: a text decodes to some bytes
  exactly when it is not empty and is the encoding of these bytes. So no two texts decode to one
  signature, and comparing signatures as texts is comparing them as bytes.
\<close>

theorem base58_exact: "decodeBase58 s = Some bs \<longleftrightarrow> s \<noteq> [] \<and> encodeBase58 bs = s"
proof
  assume d: "decodeBase58 s = Some bs"
  let ?k = "leading (CHR ''1'') s" and ?t = "dropWhile (\<lambda>y. y = CHR ''1'') s"
  note s = leading_split [of s "CHR ''1''"]
  from d obtain n where n: "b58_number 0 s = Some n" and bs: "bs = replicate ?k 0 @ min_bytes n" and "s \<noteq> []"
    by (auto simp: decodeBase58_def rev_low_bytes split: if_splits option.splits)
  have "b58_number 0 ?t = Some n" using n b58_number_ones [of ?k ?t] s by metis
  then have t: "b58_digits n [] = ?t" using dropWhile_head by (rule b58_digits_unique)
  have "leading 0 bs = ?k" using bs min_bytes_head [of n] by (cases "n = 0") (auto intro: leading_replicate)
  then have "encodeBase58 bs = s" using bs t s by (simp add: encodeBase58_def bytesToBig_zeros)
  with \<open>s \<noteq> []\<close> show "s \<noteq> [] \<and> encodeBase58 bs = s" by simp
next
  assume s: "s \<noteq> [] \<and> encodeBase58 bs = s"
  let ?n = "bytesToBig bs" and ?k = "leading 0 bs" and ?t = "dropWhile (\<lambda>y. y = 0) bs"
  note b = leading_split [of bs 0]
  have "bytesToBig ?t = ?n" using bytesToBig_zeros [of ?k ?t] b by metis
  with min_bytes_unique [of ?t] dropWhile_head [of 0 bs] have t: "min_bytes ?n = ?t" by metis
  have s': "s = replicate ?k (CHR ''1'') @ b58_digits ?n []" using s by (simp add: encodeBase58_def)
  then have "leading (CHR ''1'') s = ?k"
    using b58_digits_head [of ?n] by (cases "?n = 0") (auto intro: leading_replicate)
  moreover have "b58_number 0 s = Some ?n" using s' by (simp add: b58_number_ones b58_number_digits)
  ultimately show "decodeBase58 s = Some bs" using s t b by (simp add: decodeBase58_def rev_low_bytes)
qed

text \<open>
  The key of a payment reference determines the network and the transfer: two
  references that are accepted get one key exactly when they name one network and one transfer.
\<close>

theorem payment_key_determines_transfer:
  assumes "normalizePaymentRef arc n t = Some p" "normalizePaymentRef arc m u = Some q"
  shows "pr_key p = pr_key q \<longleftrightarrow> pr_network p = pr_network q \<and> pr_tx p = pr_tx q"
proof -
  note k = normalize_key [OF assms(1)] normalize_key [OF assms(2)]
  show ?thesis
  proof
    assume "pr_key p = pr_key q"
    with k have "pr_network p @ CHR '':'' # pr_tx p = pr_network q @ CHR '':'' # pr_tx q" by simp
    from colon_split [OF this] k show "pr_network p = pr_network q \<and> pr_tx p = pr_tx q" by blast
  qed (use k in simp)
qed

definition example_tx :: string where
  "example_tx = replicate 63 (CHR ''0'') @ ''A''"

lemma example_tx_hash: "evm_tx_text (''0x'' @ example_tx)" "evm_tx_text (''0x'' @ js_lower example_tx)"
  by (simp_all add: evm_tx_text_def example_tx_def is_hex_any_def is_hex_def js_lower_def lower_char_def hex_digit_def list_all_iff)

lemma base_name: "canonicalNetwork arc ''eip155:8453'' = ''base''" "canonicalNetwork arc [] = ''base''"
  "canonicalNetwork arc ''base'' = ''base''"
  by (simp_all add: canonicalNetwork_def fromCaip2Network_def isProtoNetworkKey_def PROTO_NETWORK_KEYS_def js_lower_def lower_char_def)

lemma base_not_solana: "\<not> isSolanaNetwork ''eip155:8453''" "\<not> isSolanaNetwork []" "\<not> isSolanaNetwork ''base''"
  by (simp_all add: isSolanaNetwork_def ownValue_def SOLANA_NETWORKS_def SOLANA_CAIP2_TO_SHORT_def js_lower_def lower_char_def)

theorem payment_key_determines_transfer_witness:
  "map_option pr_key (normalizePaymentRef False ''eip155:8453'' (''0x'' @ example_tx)) =
   map_option pr_key (normalizePaymentRef False [] (js_lower example_tx))"
proof -
  have w: "with_0x (js_lower example_tx) = ''0x'' @ js_lower example_tx"
    by (simp add: with_0x_def example_tx_def js_lower_def lower_char_def numeral_eq_Suc)
  have "isEvmTxHash (with_0x (''0x'' @ example_tx))" "isEvmTxHash (with_0x (js_lower example_tx))"
    using example_tx_hash w evm_tx_trim by (simp_all add: isEvmTxHash_def with_0x_def)
  from normalize_evm [OF this(1), of False "''eip155:8453''"] normalize_evm [OF this(2), of False "[]"] w
  have "normalizePaymentRef False ''eip155:8453'' (''0x'' @ example_tx) = Some (evm_ref ''base'' (''0x'' @ example_tx))"
    "normalizePaymentRef False [] (js_lower example_tx) = Some (evm_ref ''base'' (''0x'' @ js_lower example_tx))"
    by (simp_all add: base_name base_not_solana with_0x_def)
  then show ?thesis using payment_key_determines_transfer
    [of False "''eip155:8453''" "''0x'' @ example_tx" "evm_ref ''base'' (''0x'' @ example_tx)" "[]" "js_lower example_tx"
      "evm_ref ''base'' (''0x'' @ js_lower example_tx)"]
    by (simp add: evm_ref_def)
qed

text \<open>
  The key that is built when a transfer is first seen is the key that is read back from
  it: for a Base transfer, the index key of the key is the key itself, whatever letters and prefix
  the transfer was written with.
\<close>

theorem payment_key_reads_back:
  assumes "canonicalNetwork arc n = ''base''" "\<not> isSolanaNetwork n" "evm_tx_text (with_0x t)"
  shows "\<exists>p. normalizePaymentRef arc n t = Some p \<and> paymentRefIndexKey arc (pr_key p) = Some (pr_key p)"
proof -
  let ?h = "js_lower (drop 2 (with_0x t))" and ?b = "evm_ref ''base'' (with_0x t)"
  from assms(3) have h: "evm_tx_text (''0x'' @ ?h)" by (simp add: evm_tx_text_def is_hex_any_def)
  have lower: "js_lower (''0x'' @ ?h) = ''0x'' @ ?h"
    using js_lower_idem [of "drop 2 (with_0x t)"] lower_letters(1) by (simp only: js_lower_append)
  have b: "normalizePaymentRef arc n t = Some ?b"
    using normalize_evm [of t arc n] assms evm_tx_trim [OF assms(3)] base_not_solana by (simp add: isEvmTxHash_def)
  have "isEvmTxHash (with_0x (''0x'' @ ?h))" using h evm_tx_trim [OF h] by (simp add: isEvmTxHash_def with_0x_def)
  then have again: "normalizePaymentRef arc ''base'' (''0x'' @ ?h) = Some ?b"
    using normalize_evm [of "''0x'' @ ?h" arc "''base''"] base_name base_not_solana
    by (simp add: with_0x_def evm_ref_def)
  have "match_evm_tx (''base:'' @ ''0x'' @ ?h) = Some (''0x'' @ ?h)"
    using match_evm_here [OF h, of "[]"] by (simp add: match_evm_skip)
  moreover have "index_of (''0x'' @ ?h) (''base:'' @ ''0x'' @ ?h) = 5"
    using index_of_here [of "''0x'' @ ?h" "[]"] by (simp add: index_of_skip)
  moreover have "js_lower (''base:'' @ ''0x'' @ ?h) = ''base:'' @ ''0x'' @ ?h"
    using lower lower_letters(2) by (simp only: js_lower_append)
  ultimately have "paymentRefIndexKey arc (''base:'' @ ''0x'' @ ?h) = Some (pr_key ?b)"
    using again lower by (simp add: paymentRefIndexKey_def drop_colon_def del: append_Cons)
  with b show ?thesis by (simp add: evm_ref_def)
qed

theorem payment_key_reads_back_witness:
  "\<exists>p. normalizePaymentRef False ''eip155:8453'' example_tx = Some p \<and> paymentRefIndexKey False (pr_key p) = Some (pr_key p)"
proof (rule payment_key_reads_back)
  have "with_0x example_tx = ''0x'' @ example_tx" by (simp add: with_0x_def example_tx_def numeral_eq_Suc)
  then show "evm_tx_text (with_0x example_tx)" using example_tx_hash by simp
qed (rule base_name base_not_solana)+

text \<open>
  White space after the hash is trimmed for the test of its form and kept in the key, so one
  transfer gets a second key.
\<close>
lemma padded_ref_second_key:
  assumes "evm_tx_text t" "\<not> isSolanaNetwork (canonicalNetwork arc n)" "\<not> isSolanaNetwork n"
  shows "\<exists>p q. normalizePaymentRef arc n t = Some p \<and> normalizePaymentRef arc n (t @ '' '') = Some q \<and> pr_key p \<noteq> pr_key q"
proof -
  from assms(1) have w: "with_0x t = t" "with_0x (t @ '' '') = t @ '' ''" by (simp_all add: evm_tx_text_def with_0x_def)
  have "js_trim (t @ '' '') = js_trim t"
  proof -
    have "t \<noteq> []" "\<not> is_space (hd t)" "list_all (\<lambda>c. \<not> is_space c) (rev t)"
      using evm_tx_no_space [OF assms(1)] assms(1) by (cases t; simp add: evm_tx_text_def)+
    then show ?thesis by (cases t) (simp_all add: js_trim_def is_space_def)
  qed
  then have "isEvmTxHash (with_0x t)" "isEvmTxHash (with_0x (t @ '' ''))"
    using assms(1) evm_tx_trim w by (simp_all add: isEvmTxHash_def)
  note n = normalize_evm [OF this(1) assms(2,3)] normalize_evm [OF this(2) assms(2,3)]
  have "js_lower (drop 2 (t @ '' '')) \<noteq> js_lower (drop 2 t)"
  proof
    assume "js_lower (drop 2 (t @ '' '')) = js_lower (drop 2 t)"
    from arg_cong [OF this, of length] assms(1) show False by (simp add: evm_tx_text_def)
  qed
  then have "pr_key (evm_ref c t) \<noteq> pr_key (evm_ref c (t @ '' ''))" for c by (simp add: evm_ref_def del: drop_append)
  with n show ?thesis by (auto simp: w)
qed

end
