(* ===== verification/Late_Issue.thy ===== *)
theory Late_Issue
  imports Late_Store X402_Challenge Payment_Ref Sha256
begin

text \<open>
  services/gateway/src/late-issue.js: a payment that was submitted and not answered is looked up
  on the chain later, and a receipt is issued for it. A resolver runs without interruption
  between its awaits; at each await it waits for an answer (the chain, the second look before
  signing, the signer, the ledger, the log), and other resolvers and the settlement path run
  meanwhile. Rows are read as copies, as the durable store gives them. Answers are events; the
  calls that leave the process are recorded. The test hooks of the source are left out, as is
  the polling of \<open>waitForJws\<close>, which reads only. An amount is its text, \<open>[]\<close> when null. A row
  can be removed after a caller has read it only when it is closed or was not sent; the source then
  goes on with the caller's copy, changes nothing and ends, and here the resolver ends at once.
\<close>

section \<open>Readings of the chain\<close>

record chain_reading =
  cr_ok :: bool
  cr_pending :: bool
  cr_finalized :: "bool option"
  cr_network :: string
  cr_asset :: string
  cr_payTo :: string
  cr_payer :: string
  cr_authorizer :: string
  cr_count :: "int option"
  cr_amount :: string
  cr_time :: "int option"
  cr_tx :: string
  cr_unused :: "bool option"
  cr_scanned :: string

definition no_reading :: chain_reading where
  "no_reading = \<lparr>cr_ok = False, cr_pending = False, cr_finalized = None, cr_network = [], cr_asset = [], cr_payTo = [],
     cr_payer = [], cr_authorizer = [], cr_count = None, cr_amount = [], cr_time = None, cr_tx = [],
     cr_unused = None, cr_scanned = []\<rparr>"

definition pendingChain :: "bool option \<Rightarrow> chain_reading" where
  "pendingChain unused = no_reading\<lparr>cr_pending := True, cr_unused := Some (unused = Some True)\<rparr>"

record late_cfg =
  lc_arc :: bool
  lc_addr :: "string \<Rightarrow> string option"
  lc_enabled :: bool
  lc_shadow :: bool
  lc_horizon :: int
  lc_pid :: string

definition starts_0x :: "string \<Rightarrow> bool" where
  "starts_0x s \<longleftrightarrow> take 2 s = ''0x''"

definition or_text :: "string \<Rightarrow> string \<Rightarrow> string" where
  "or_text a b = (if a \<noteq> [] then a else b)"

text \<open>\<open>sameEvmAddress\<close> and \<open>samePayee\<close> of x402-flags.js; \<open>getAddress\<close> of ethers is the parameter.\<close>

definition sameEvmAddress :: "(string \<Rightarrow> string option) \<Rightarrow> string \<Rightarrow> string \<Rightarrow> bool" where
  "sameEvmAddress addr a b \<longleftrightarrow> a \<noteq> [] \<and> b \<noteq> [] \<and>
     (case (addr a, addr b) of (Some x, Some y) \<Rightarrow> x = y | _ \<Rightarrow> False)"

definition looksSolana :: "string \<Rightarrow> bool" where
  "looksSolana s \<longleftrightarrow> \<not> starts_0x s \<and> 32 \<le> length s \<and> length s \<le> 44"

definition samePayee :: "(string \<Rightarrow> string option) \<Rightarrow> string \<Rightarrow> string \<Rightarrow> bool" where
  "samePayee addr a b \<longleftrightarrow>
     (if isSolanaNetwork a \<or> looksSolana a \<or> looksSolana b then a = b else sameEvmAddress addr a b \<or> a = b)"

definition sameChainIdentity :: "chain_reading \<Rightarrow> chain_reading \<Rightarrow> bool" where
  "sameChainIdentity a b \<longleftrightarrow> cr_ok a \<and> cr_ok b \<and> cr_finalized a = Some True \<and> cr_finalized b = Some True \<and>
     cr_amount a = cr_amount b \<and> cr_payer a = cr_payer b \<and> cr_payTo a = cr_payTo b \<and>
     cr_time a \<noteq> None \<and> cr_time a = cr_time b \<and>
     (cr_tx a \<noteq> [] \<and> cr_tx b \<noteq> [] \<longrightarrow> cr_tx a = cr_tx b) \<and>
     (cr_asset a \<noteq> [] \<and> cr_asset b \<noteq> [] \<longrightarrow>
        (if starts_0x (cr_asset a) \<and> starts_0x (cr_asset b) then js_lower (cr_asset a) = js_lower (cr_asset b)
         else cr_asset a = cr_asset b))"

text \<open>A finality reading; \<open>None\<close> stands for a call that threw.\<close>

record finality =
  fi_final :: bool
  fi_time :: "int option"
  fi_hash :: string

definition proveFinality ::
    "late_row \<Rightarrow> chain_reading \<Rightarrow> bool \<Rightarrow> finality option \<Rightarrow> finality option option \<Rightarrow> chain_reading" where
  "proveFinality row out readable fin second =
     (if \<not> cr_ok out then (if \<not> cr_pending out then out else pendingChain (cr_unused out))
      else if cr_finalized out = Some False then out\<lparr>cr_pending := True\<rparr>
      else if cr_finalized out = Some True \<and> cr_time out \<noteq> None then out
      else if \<not> readable then pendingChain (cr_unused out)
      else case fin of
          None \<Rightarrow> pendingChain (cr_unused out)
        | Some f \<Rightarrow>
            if (case second of
                  None \<Rightarrow> False
                | Some None \<Rightarrow> True
                | Some (Some g) \<Rightarrow> \<not> fi_final f \<or> \<not> fi_final g \<or> fi_time f \<noteq> fi_time g)
            then pendingChain (cr_unused out)
            else if \<not> fi_final f \<or> fi_time f = None then pendingChain (cr_unused out)
            else out\<lparr>cr_finalized := Some True, cr_time := fi_time f,
                     cr_network := or_text (cr_network out) (lu_network (lr_tuple row)),
                     cr_tx := or_text (cr_tx out) (lr_tx_hint row)\<rparr>)"

text \<open>\<open>readChain\<close> after its reads: no transfer to look up, one reading, or two that must agree.\<close>

definition readChain :: "late_row \<Rightarrow> chain_reading option \<Rightarrow> chain_reading option \<Rightarrow> string \<Rightarrow> chain_reading" where
  "readChain row first second scanned =
     (let attach = (\<lambda>c. if scanned = [] then c else c\<lparr>cr_scanned := scanned\<rparr>)
      in case first of
          None \<Rightarrow> attach (pendingChain None)
        | Some f \<Rightarrow>
            (let withTx = f\<lparr>cr_tx := or_text (cr_tx f) (lr_tx_hint row)\<rparr>
             in case second of
                 None \<Rightarrow> attach withTx
               | Some g \<Rightarrow> if sameChainIdentity withTx g then attach withTx else attach (pendingChain None)))"

record tx_receipt =
  tr_status :: int
  tr_hash :: string
  tr_number :: "int option"

definition reorgGuard :: "tx_receipt option \<Rightarrow> finality option \<Rightarrow> finality option \<Rightarrow> bool" where
  "reorgGuard receipt fin again =
     (case receipt of
        None \<Rightarrow> False
      | Some r \<Rightarrow>
          if tr_status r \<noteq> 1 \<or> tr_hash r = [] \<or> tr_number r = None then False
          else (case fin of
              None \<Rightarrow> False
            | Some f \<Rightarrow>
                if \<not> fi_final f \<or> fi_hash f = [] then False
                else if js_lower (fi_hash f) \<noteq> js_lower (tr_hash r) then False
                else (case again of
                    None \<Rightarrow> False
                  | Some g \<Rightarrow> fi_final g \<and> fi_hash g \<noteq> [] \<and> js_lower (fi_hash g) = js_lower (fi_hash f))))"

section \<open>Decisions\<close>

datatype late_verdict = V_issue | V_mismatch | V_expired | V_not_settled | V_unknown | V_confirmed

definition LATE_SKEW_MS :: int where
  "LATE_SKEW_MS = 120000"

definition auth_before :: "late_row \<Rightarrow> int option" where
  "auth_before row = (case lu_auth (lr_tuple row) of None \<Rightarrow> None | Some a \<Rightarrow> la_before a)"

definition auth_after :: "late_row \<Rightarrow> int option" where
  "auth_after row = (case lu_auth (lr_tuple row) of None \<Rightarrow> Some 0 | Some a \<Rightarrow> la_after a)"

definition unmatched_verdict :: "late_row \<Rightarrow> int \<Rightarrow> bool option \<Rightarrow> late_verdict" where
  "unmatched_verdict row now unused =
     (case auth_before row of
        None \<Rightarrow> V_unknown
      | Some b \<Rightarrow> if 0 < b \<and> b \<le> now div 1000 \<and> unused = Some True then V_not_settled else V_unknown)"

definition matched_verdict :: "late_row \<Rightarrow> int \<Rightarrow> chain_reading \<Rightarrow> late_verdict" where
  "matched_verdict row submitted chain =
     (case cr_time chain of
        None \<Rightarrow> V_unknown
      | Some ts \<Rightarrow>
          if ts < (submitted - LATE_SKEW_MS) div 1000 then V_mismatch
          else (case auth_before row of
              None \<Rightarrow> V_unknown
            | Some b \<Rightarrow>
                if \<not> (case auth_after row of None \<Rightarrow> False | Some a \<Rightarrow> a < ts \<and> ts < b) then V_mismatch
                else if (case lu_challenge_issued (lr_tuple row) of None \<Rightarrow> False | Some t \<Rightarrow> ts < t div 1000)
                then V_mismatch
                else V_issue))"

definition decideLateExpiry ::
    "late_row \<Rightarrow> chain_reading \<Rightarrow> int \<Rightarrow> bool option \<Rightarrow> int \<Rightarrow> late_verdict" where
  "decideLateExpiry row chain now unused horizon =
     (case lu_submitted (lr_tuple row) of
        None \<Rightarrow> V_unknown
      | Some submitted \<Rightarrow>
          if submitted + horizon < now then V_expired
          else if \<not> (cr_ok chain \<and> cr_finalized chain = Some True) then unmatched_verdict row now unused
          else matched_verdict row submitted chain)"

definition same_asset :: "string \<Rightarrow> string \<Rightarrow> bool" where
  "same_asset want got =
     (if starts_0x want \<or> starts_0x got then
        starts_0x want \<and> starts_0x got \<and> length want = 42 \<and> length got = 42 \<and> js_lower want = js_lower got
      else want = got)"

definition amounts_verdict :: "late_row \<Rightarrow> chain_reading \<Rightarrow> late_verdict option" where
  "amounts_verdict row chain =
     (case (js_BigInt (JStr (or_text (cr_amount chain) ''null'')), js_BigInt (JStr (lu_quote (lr_tuple row)))) of
        (Some amount, Some quote) \<Rightarrow>
          (case lu_auth (lr_tuple row) of
             None \<Rightarrow> Some V_unknown
           | Some a \<Rightarrow>
               (case js_BigInt (JStr (or_text (la_value a) ''null'')) of
                  None \<Rightarrow> Some V_unknown
                | Some v \<Rightarrow> if amount \<noteq> v \<or> amount < quote then Some V_mismatch else None))
      | _ \<Rightarrow> Some V_unknown)"

definition payer_verdict :: "(string \<Rightarrow> string option) \<Rightarrow> late_row \<Rightarrow> chain_reading \<Rightarrow> late_verdict" where
  "payer_verdict addr row chain =
     (if auth_from row = [] \<or> cr_payer chain = [] \<or> cr_authorizer chain = [] then V_unknown
      else if \<not> samePayee addr (cr_payer chain) (auth_from row) then V_mismatch
      else if \<not> samePayee addr (cr_authorizer chain) (auth_from row) then V_mismatch
      else V_confirmed)"

definition rebind :: "late_cfg \<Rightarrow> late_row \<Rightarrow> chain_reading \<Rightarrow> late_verdict" where
  "rebind cfg row chain =
     (if \<not> cr_ok chain then (if cr_pending chain then V_unknown else V_mismatch)
      else if cr_finalized chain \<noteq> Some True then V_unknown
      else if cr_network chain \<noteq> [] \<and> \<not> sameNetwork (lc_arc cfg) (cr_network chain) (lu_network (lr_tuple row))
      then V_mismatch
      else if canonicalNetwork (lc_arc cfg) (or_text (cr_network chain) (lu_network (lr_tuple row))) = ''base-sepolia''
      then V_mismatch
      else if cr_asset chain = [] \<or> lu_asset (lr_tuple row) = [] then V_unknown
      else if \<not> same_asset (lu_asset (lr_tuple row)) (cr_asset chain) then V_mismatch
      else if cr_payTo chain = [] \<or> lu_payee (lr_tuple row) = [] then V_unknown
      else if \<not> samePayee (lc_addr cfg) (cr_payTo chain) (lu_payee (lr_tuple row)) then V_mismatch
      else case cr_count chain of
          None \<Rightarrow> V_unknown
        | Some n \<Rightarrow>
            if n \<noteq> 1 then V_mismatch
            else (case amounts_verdict row chain of
                Some w \<Rightarrow> w
              | None \<Rightarrow> payer_verdict (lc_addr cfg) row chain))"

text \<open>The decision of \<open>resolveLateRecord\<close> on one reading.\<close>

definition late_decision :: "late_cfg \<Rightarrow> late_row \<Rightarrow> chain_reading \<Rightarrow> int \<Rightarrow> late_verdict" where
  "late_decision cfg row chain now =
     (let bound = rebind cfg row chain;
          seen = (if bound = V_unknown then chain\<lparr>cr_ok := False, cr_finalized := Some False\<rparr> else chain);
          expiry = decideLateExpiry row seen now (cr_unused chain) (lc_horizon cfg)
      in if bound = V_mismatch then V_mismatch
         else if bound = V_unknown \<and> expiry = V_issue then V_unknown
         else if bound = V_confirmed \<and> expiry = V_issue then V_confirmed
         else expiry)"

section \<open>The resolver\<close>

text \<open>The calls that leave the process: the signer, the ledger of usage-settled.js, and the receipt log.\<close>

datatype late_call =
    Call_sign late_row chain_reading
  | Call_ledger late_receipt
  | Call_leaf string string

record late_sys =
  ly_store :: late_store
  ly_x :: x402
  ly_calls :: "late_call list"

text \<open>The lease on a transfer that a resolver gives back when it ends: transfer, authorization, owner.\<close>

type_synonym late_held = "(string \<times> string \<times> string) option"

datatype late_wait =
    At_chain late_row int
  | At_guard late_row chain_reading int
  | At_sign late_row string chain_reading late_held
  | At_ledger late_row chain_reading late_held
  | At_leaf late_row chain_reading late_held

datatype late_reply =
    R_terminal late_status
  | R_pending
  | R_wait
  | R_issued string
  | R_duplicate
  | R_signer_failed
  | R_error

datatype late_next = Done late_reply | Ask late_wait

definition sys_get :: "string \<Rightarrow> late_sys \<Rightarrow> late_row option" where
  "sys_get i y = getLate i (ly_store y)"

definition sys_cas :: "string \<Rightarrow> late_status list \<Rightarrow> late_status \<Rightarrow> late_set list \<Rightarrow> late_sys \<Rightarrow> late_sys" where
  "sys_cas i from to ps y = y\<lparr>ly_store := fst (casLate i from to ps (ly_store y))\<rparr>"

definition sys_call :: "late_call \<Rightarrow> late_sys \<Rightarrow> late_sys" where
  "sys_call c y = y\<lparr>ly_calls := ly_calls y @ [c]\<rparr>"

definition give_back :: "late_held \<Rightarrow> late_sys \<Rightarrow> late_sys" where
  "give_back lease y =
     (case lease of
        None \<Rightarrow> y
      | Some (tx, a, w) \<Rightarrow> if ch_isTxSpent (ly_x y) tx then y else y\<lparr>ly_x := fst (ch_releaseTx (ly_x y) tx a w)\<rparr>)"

definition jws_digest :: "string \<Rightarrow> string" where
  "jws_digest jws = to_hex (sha256 (map (\<lambda>c. word_of_nat (of_char c)) jws))"

definition ledgerRef :: "late_cfg \<Rightarrow> late_row \<Rightarrow> chain_reading \<Rightarrow> string" where
  "ledgerRef cfg row chain =
     (if CHR '':'' \<in> set (lr_tx_ref row) then lr_tx_ref row
      else (let raw = or_text (lr_tx_ref row) (or_text (cr_tx chain) (lr_tx_hint row))
            in if raw = [] then []
               else case normalizePaymentRef (lc_arc cfg) (lu_network (lr_tuple row)) raw of
                   None \<Rightarrow> []
                 | Some p \<Rightarrow> pr_key p))"

definition receipt_id_of :: "late_row \<Rightarrow> string" where
  "receipt_id_of row = or_text (lr_receipt_id row) (''late-'' @ lr_id row)"

definition publicLateReceipt :: "late_cfg \<Rightarrow> late_row \<Rightarrow> chain_reading \<Rightarrow> string \<Rightarrow> late_receipt" where
  "publicLateReceipt cfg row chain jws =
     \<lparr>rc_id = receipt_id_of row, rc_ref = ledgerRef cfg row chain,
      rc_payee = or_text (cr_payTo chain) (lu_payee (lr_tuple row)), rc_gross = lu_quote (lr_tuple row),
      rc_settled = or_text (cr_amount chain) (lu_expected (lr_tuple row)), rc_network = lu_network (lr_tuple row),
      rc_jws = jws\<rparr>"

text \<open>The ledger entry and the leaf, after the ledger write.\<close>

definition publish_leaf :: "late_cfg \<Rightarrow> late_row \<Rightarrow> chain_reading \<Rightarrow> late_held \<Rightarrow> late_sys \<Rightarrow> late_next \<times> late_sys" where
  "publish_leaf cfg fresh chain lease y =
     (let txRef = ledgerRef cfg fresh chain;
          row = \<lparr>ll_auth_key = lr_auth_key fresh, ll_tx_ref = txRef, ll_id = lr_id fresh,
                 ll_receipt_id = lr_receipt_id fresh, ll_amount = cr_amount chain, ll_payer = cr_payer chain\<rparr>;
          y1 = (if txRef = [] then y else y\<lparr>ly_store := fst (appendLateLedger row (ly_store y))\<rparr>);
          y2 = (if lr_logged fresh then y1 else sys_call (Call_leaf (lr_receipt_id fresh) (jws_digest (lr_jws fresh))) y1)
      in (Ask (At_leaf fresh chain lease), y2))"

text \<open>\<open>publishIssued\<close> up to its first await.\<close>

definition publish_start :: "late_cfg \<Rightarrow> string \<Rightarrow> chain_reading \<Rightarrow> late_held \<Rightarrow> late_sys \<Rightarrow> late_next \<times> late_sys" where
  "publish_start cfg i chain lease y =
     (case sys_get i y of
        None \<Rightarrow> (Done R_error, give_back lease y)
      | Some fresh \<Rightarrow>
          if lr_jws fresh \<noteq> [] \<and> lr_logged fresh \<and> lr_state fresh = Issued \<and> lr_ledger fresh
          then (Done (R_issued (lr_jws fresh)), give_back lease y)
          else if lr_jws fresh \<noteq> [] then
            (let receipt = publicLateReceipt cfg fresh chain (lr_jws fresh);
                 y1 = sys_cas i [Issuing, Confirmed, Issued] (lr_state fresh)
                        [Set_receipt receipt, Set_receipt_id (rc_id receipt)] y
             in if \<not> lr_ledger fresh then (Ask (At_ledger fresh chain lease), sys_call (Call_ledger receipt) y1)
                else publish_leaf cfg fresh chain lease y1)
          else
            (let y1 = sys_cas i [Issuing] Issuing [Set_receipt_id (receipt_id_of fresh)] y
             in case sys_get i y1 of
                  None \<Rightarrow> (Done R_error, give_back lease y1)
                | Some cur \<Rightarrow> (Ask (At_sign cur (receipt_id_of fresh) chain lease), sys_call (Call_sign cur chain) y1)))"

definition json_or_null :: "string \<Rightarrow> jsval" where
  "json_or_null t = (if t = [] then JNull else JStr t)"

definition settled_meta :: "late_row \<Rightarrow> chain_reading \<Rightarrow> string \<Rightarrow> jsval" where
  "settled_meta row chain ref =
     JObj [(''txRef'', json_or_null ref), (''amount'', json_or_null (cr_amount chain)),
           (''payer'', json_or_null (cr_payer chain)),
           (''payTo'', json_or_null (or_text (cr_payTo chain) (lu_payee (lr_tuple row)))), (''late'', JBool True)]"

definition settled_facts :: "late_row \<Rightarrow> chain_reading \<Rightarrow> jsval" where
  "settled_facts row chain =
     JObj [(''amount'', json_or_null (cr_amount chain)), (''payer'', json_or_null (cr_payer chain)),
           (''payTo'', json_or_null (or_text (cr_payTo chain) (lu_payee (lr_tuple row))))]"

text \<open>The nonce, the authorization and the transfer of an issued row are marked spent.\<close>

definition mark_issued :: "late_cfg \<Rightarrow> late_row \<Rightarrow> chain_reading \<Rightarrow> x402 \<Rightarrow> x402" where
  "mark_issued cfg fresh chain x =
     (let txRef = ledgerRef cfg fresh chain;
          ref = or_text txRef (lr_tx_ref fresh);
          x1 = ch_markSpent x (lr_nonce fresh) (settled_meta fresh chain ref);
          x2 = ch_markAuthSpent x1 (lr_auth_key fresh) (json_or_null ref)
      in ch_markTxSpent x2 txRef (settled_facts fresh chain))"

definition after_leaf ::
    "late_cfg \<Rightarrow> bool \<Rightarrow> late_row \<Rightarrow> chain_reading \<Rightarrow> late_held \<Rightarrow> late_sys \<Rightarrow> late_next \<times> late_sys" where
  "after_leaf cfg ok fresh chain lease y =
     (if \<not> (lr_logged fresh \<or> ok) then (Done R_pending, give_back lease y)
      else (let y1 = sys_cas (lr_id fresh) [Issuing, Confirmed] Issued [Set_logged True, Set_served (lr_served fresh)] y;
                y2 = y1\<lparr>ly_x := mark_issued cfg fresh chain (ly_x y1)\<rparr>
            in (Done (R_issued (lr_jws fresh)), give_back lease y2)))"

definition after_ledger ::
    "late_cfg \<Rightarrow> bool \<Rightarrow> late_row \<Rightarrow> chain_reading \<Rightarrow> late_held \<Rightarrow> late_sys \<Rightarrow> late_next \<times> late_sys" where
  "after_ledger cfg ok fresh chain lease y =
     (if \<not> ok then (Done R_pending, give_back lease y)
      else publish_leaf cfg fresh chain lease
             (sys_cas (lr_id fresh) [Issuing, Confirmed, Issued] (lr_state fresh) [Set_ledger True] y))"

definition EMPTY_DIGEST :: string where
  "EMPTY_DIGEST = to_hex (sha256 [])"

text \<open>The answer of the signer: \<open>None\<close> when it threw or gave no text.\<close>

definition after_sign ::
    "late_cfg \<Rightarrow> string option \<Rightarrow> late_row \<Rightarrow> string \<Rightarrow> chain_reading \<Rightarrow> late_held \<Rightarrow> late_sys \<Rightarrow> late_next \<times> late_sys" where
  "after_sign cfg answer cur receiptId chain lease y =
     (case answer of
        None \<Rightarrow> (Done R_signer_failed,
          give_back lease (sys_cas (lr_id cur) [Issuing] Confirmed [Set_owner [], Set_until 0, Set_jws []] y))
      | Some jws \<Rightarrow>
          (case casLate (lr_id cur) [Issuing] Issuing
                  [Set_jws jws, Set_receipt_id receiptId, Set_digest (or_text (lr_digest cur) EMPTY_DIGEST), Set_served False]
                  (ly_store y) of
             (st, None) \<Rightarrow> (Done R_pending, give_back lease y)
           | (st, Some _) \<Rightarrow> publish_start cfg (lr_id cur) chain lease (y\<lparr>ly_store := st\<rparr>)))"

definition reserve_owner :: "late_cfg \<Rightarrow> string \<Rightarrow> string" where
  "reserve_owner cfg i = ''late:'' @ lc_pid cfg @ '':'' @ i"

definition tx_key :: "late_cfg \<Rightarrow> late_row \<Rightarrow> string \<Rightarrow> string" where
  "tx_key cfg row tx =
     (if tx = [] then []
      else case normalizePaymentRef (lc_arc cfg) (lu_network (lr_tuple row)) tx of None \<Rightarrow> [] | Some p \<Rightarrow> pr_key p)"

text \<open>After the compare-and-set to \<open>issuing\<close> was won: the transfer is leased, or the row given back.\<close>

definition issue_won :: "late_cfg \<Rightarrow> late_row \<Rightarrow> chain_reading \<Rightarrow> int \<Rightarrow> late_sys \<Rightarrow> late_next \<times> late_sys" where
  "issue_won cfg row chain clock y =
     (let i = lr_id row;
          tx = or_text (cr_tx chain) (lr_tx_hint row);
          txRef = tx_key cfg row tx;
          y1 = sys_cas i [Issuing] Issuing [Set_tx_ref txRef, Set_tx_hint tx] y
      in if txRef = [] then publish_start cfg i (chain\<lparr>cr_tx := tx\<rparr>) None y1
         else case ch_reserveTx (ly_x y1) txRef (lr_auth_key row) (reserve_owner cfg i) 180000 clock of
             (x, True) \<Rightarrow>
               publish_start cfg i (chain\<lparr>cr_tx := tx\<rparr>) (Some (txRef, lr_auth_key row, reserve_owner cfg i)) (y1\<lparr>ly_x := x\<rparr>)
           | (x, False) \<Rightarrow>
               if ch_isTxSpent (ly_x y1) txRef
               then (Done R_duplicate, sys_cas i [Issuing] Issued [Set_why ''tx_already_receipted'', Set_tx_ref txRef] y1)
               else (Done R_pending, sys_cas i [Issuing] Confirmed [Set_owner [], Set_until 0, Set_why ''tx_reserved''] y1))"

definition after_guard ::
    "late_cfg \<Rightarrow> string \<Rightarrow> bool \<Rightarrow> int \<Rightarrow> late_row \<Rightarrow> chain_reading \<Rightarrow> int \<Rightarrow> late_sys \<Rightarrow> late_next \<times> late_sys" where
  "after_guard cfg owner guarded clock row chain now y =
     (if \<not> guarded then (Done R_pending, sys_cas (lr_id row) [Confirmed] Unknown [Set_why ''reorg''] y)
      else case casLate (lr_id row) [Confirmed] Issuing
                  [Set_owner owner, Set_seq (lr_seq row + 1), Set_until (now + 60000), Set_served False] (ly_store y) of
          (st, None) \<Rightarrow> (Done R_wait, y)
        | (st, Some _) \<Rightarrow> issue_won cfg row chain clock (y\<lparr>ly_store := st\<rparr>))"

definition scan_patch :: "late_row \<Rightarrow> chain_reading \<Rightarrow> late_set list" where
  "scan_patch row chain =
     (if cr_tx chain \<noteq> [] \<and> lr_tx_hint row = [] then [Set_tx_hint (cr_tx chain)] else []) @
     (if cr_scanned chain \<noteq> [] \<and> cr_scanned chain \<noteq> lr_scanned row then [Set_scanned (cr_scanned chain)] else [])"

definition held_status :: "late_verdict \<Rightarrow> late_status option" where
  "held_status w = (case w of
       V_mismatch \<Rightarrow> Some Mismatch_hold
     | V_expired \<Rightarrow> Some Expired_unresolved
     | V_not_settled \<Rightarrow> Some Not_settled
     | _ \<Rightarrow> None)"

definition status_text :: "late_status \<Rightarrow> string" where
  "status_text st = (case st of
       Mismatch_hold \<Rightarrow> ''mismatch_hold'' | Expired_unresolved \<Rightarrow> ''expired_unresolved'' | Not_settled \<Rightarrow> ''not_settled''
     | Submitted \<Rightarrow> ''submitted'' | Unknown \<Rightarrow> ''unknown'' | Confirmed \<Rightarrow> ''confirmed'' | Issuing \<Rightarrow> ''issuing'' | Issued \<Rightarrow> ''issued'')"

text \<open>A row that is gone when it is read again ends the resolver with an error.\<close>

definition confirm_row :: "late_cfg \<Rightarrow> late_row \<Rightarrow> chain_reading \<Rightarrow> int \<Rightarrow> late_sys \<Rightarrow> late_next \<times> late_sys" where
  "confirm_row cfg row chain now y =
     (let y1 = (if lr_state row = Confirmed then y
                else sys_cas (lr_id row) [Unknown] Confirmed
                       [Set_why ''confirmed'', Set_confirmed now, Set_tx_hint (or_text (cr_tx chain) (lr_tx_hint row))] y)
      in if \<not> lc_enabled cfg \<or> lc_shadow cfg then (Done R_pending, y1)
         else if lr_state row = Confirmed then (Ask (At_guard row chain now), y1)
         else case sys_get (lr_id row) y1 of
             None \<Rightarrow> (Done R_error, y1)
           | Some row1 \<Rightarrow> (Ask (At_guard row1 chain now), y1))"

definition judge_row :: "late_cfg \<Rightarrow> late_row \<Rightarrow> chain_reading \<Rightarrow> int \<Rightarrow> late_sys \<Rightarrow> late_next \<times> late_sys" where
  "judge_row cfg row chain now y =
     (let next = late_decision cfg row chain now
      in case held_status next of
           Some st \<Rightarrow> (Done (R_terminal st), sys_cas (lr_id row) [Unknown, Confirmed, Submitted] st [Set_why (status_text st)] y)
         | None \<Rightarrow> if next \<noteq> V_confirmed then (Done R_pending, y) else confirm_row cfg row chain now y)"

definition after_chain :: "late_cfg \<Rightarrow> chain_reading \<Rightarrow> late_row \<Rightarrow> int \<Rightarrow> late_sys \<Rightarrow> late_next \<times> late_sys" where
  "after_chain cfg chain row now y =
     (if scan_patch row chain = [] then judge_row cfg row chain now y
      else (let y1 = sys_cas (lr_id row) [lr_state row] (lr_state row) (scan_patch row chain) y
            in case sys_get (lr_id row) y1 of
                 None \<Rightarrow> (Done R_error, y1)
               | Some row1 \<Rightarrow> judge_row cfg row1 chain now y1))"

text \<open>What a row that was signed before is published with.\<close>

definition stored_reading :: "late_row \<Rightarrow> chain_reading" where
  "stored_reading row = no_reading\<lparr>cr_amount := lu_expected (lr_tuple row), cr_payer := auth_from row,
     cr_payTo := lu_payee (lr_tuple row), cr_tx := lr_tx_hint row\<rparr>"

definition look_up :: "string \<Rightarrow> int \<Rightarrow> late_sys \<Rightarrow> late_next \<times> late_sys" where
  "look_up i now y = (case sys_get i y of
       None \<Rightarrow> (Done R_error, y)
     | Some row \<Rightarrow>
         if lr_state row = Unknown \<or> lr_state row = Confirmed then (Ask (At_chain row now), y) else (Done R_pending, y))"

text \<open>\<open>resolveLateRecord\<close> up to its first await.\<close>

definition resolve_start :: "late_cfg \<Rightarrow> string \<Rightarrow> int \<Rightarrow> string \<Rightarrow> late_sys \<Rightarrow> late_next \<times> late_sys" where
  "resolve_start cfg owner now i y =
     (case sys_get i y of
        None \<Rightarrow> (Done R_pending, y)
      | Some row \<Rightarrow>
          if late_terminal (lr_state row) then (Done (R_terminal (lr_state row)), y)
          else if lr_state row = Submitted then
            (if lr_sent row \<or> (case lu_submitted (lr_tuple row) of None \<Rightarrow> False | Some t \<Rightarrow> 5000 < now - t)
             then look_up i now
                    (sys_cas i [Submitted] Unknown [Set_why (or_text (lr_why row) ''unresolved_submit'')] y)
             else (Done R_pending, y))
          else if lr_state row = Issuing then
            (if lr_jws row \<noteq> [] then publish_start cfg i (stored_reading row) None y
             else if now < lr_until row \<and> lr_owner row \<noteq> [] \<and> lr_owner row \<noteq> owner then (Done R_wait, y)
             else look_up i now (sys_cas i [Issuing] Confirmed [Set_owner [], Set_until 0, Set_jws []] y))
          else look_up i now y)"

section \<open>Runs of resolvers\<close>

datatype late_event =
    E_resolve string int string
  | E_chain nat "chain_reading option" "chain_reading option" string
  | E_guard nat "tx_receipt option" "finality option" "finality option" int
  | E_sign nat "string option"
  | E_ledger nat bool
  | E_leaf nat bool
  | E_rows late_op
  | E_x402 x402_op

text \<open>
  Which row a retry resumes and when it may (\<open>lookupLate\<close>, \<open>resumeLateIssue\<close>), and the rows
  that one background run resolves, in order (\<open>tickLateIssue\<close>; the sort of the source is stable).
\<close>

definition late_query0 :: late_query where
  "late_query0 = \<lparr>lq_id = [], lq_nonce = [], lq_auth_key = [], lq_tx_ref = [], lq_idempotency = [], lq_principal = []\<rparr>"

definition lookupLate :: "string \<Rightarrow> string \<Rightarrow> string \<Rightarrow> string \<Rightarrow> late_store \<Rightarrow> late_row option" where
  "lookupLate nonce pendingId idempotency prin s =
     (let by_id = (if pendingId = [] then None else findLate (late_query0\<lparr>lq_id := pendingId\<rparr>) s);
          by_nonce = (if nonce = [] then None else findLate (late_query0\<lparr>lq_nonce := nonce\<rparr>) s)
      in case by_id of
           Some r \<Rightarrow> Some r
         | None \<Rightarrow>
             (case by_nonce of
                Some r \<Rightarrow> Some r
              | None \<Rightarrow>
                  if idempotency \<noteq> [] \<and> prin \<noteq> []
                  then findLate (late_query0\<lparr>lq_idempotency := idempotency, lq_principal := prin\<rparr>) s else None))"

definition resumable :: "late_cfg \<Rightarrow> string \<Rightarrow> late_row \<Rightarrow> bool" where
  "resumable cfg header_hash row \<longleftrightarrow>
     \<not> (lr_state row = Submitted \<and> \<not> lr_sent row) \<and> \<not> (lr_inline row \<and> lr_state row = Issued) \<and> lc_enabled cfg \<and>
     lu_payment_hash (lr_tuple row) \<noteq> [] \<and> header_hash \<noteq> [] \<and> lu_payment_hash (lr_tuple row) = header_hash"

definition lateLane :: "late_row \<Rightarrow> nat" where
  "lateLane row = (if lr_tx_hint row \<noteq> [] \<or> lr_why row = ''transport'' \<or> lr_why row = ''http'' then 0 else 1)"

definition tick_rows :: "late_cfg \<Rightarrow> nat \<Rightarrow> int \<Rightarrow> late_store \<Rightarrow> late_row list" where
  "tick_rows cfg rowBudget now s =
     (if \<not> lc_enabled cfg \<and> \<not> lc_shadow cfg then []
      else take rowBudget (sort_key lateLane (sort_key lr_visited (open_rows (pruneLate now 86400000 s)))))"

text \<open>A resolver that waits: its owner name and where it waits.\<close>

type_synonym late_world = "late_sys \<times> (string \<times> late_wait) list"

definition go_on :: "string \<Rightarrow> (string \<times> late_wait) list \<Rightarrow> late_next \<times> late_sys \<Rightarrow> late_world" where
  "go_on owner ws r = (snd r, case fst r of Done a \<Rightarrow> ws | Ask w \<Rightarrow> ws @ [(owner, w)])"

definition drop_nth :: "nat \<Rightarrow> 'a list \<Rightarrow> 'a list" where
  "drop_nth n xs = take n xs @ drop (Suc n) xs"

text \<open>The answer to the resolver at position \<open>n\<close>, when it waits for an answer of that kind.\<close>

definition answer ::
    "nat \<Rightarrow> (string \<Rightarrow> late_wait \<Rightarrow> (late_sys \<Rightarrow> late_next \<times> late_sys) option) \<Rightarrow> late_world \<Rightarrow> late_world" where
  "answer n f w =
     (if n < length (snd w) then
        (case f (fst (snd w ! n)) (snd (snd w ! n)) of
           None \<Rightarrow> w
         | Some g \<Rightarrow> go_on (fst (snd w ! n)) (drop_nth n (snd w)) (g (fst w)))
      else w)"

fun late_do :: "late_cfg \<Rightarrow> late_world \<Rightarrow> late_event \<Rightarrow> late_world" where
  "late_do cfg w (E_resolve owner now i) = go_on owner (snd w) (resolve_start cfg owner now i (fst w))"
| "late_do cfg w (E_chain n first second scanned) = answer n (\<lambda>owner t. case t of
     At_chain row now \<Rightarrow> Some (after_chain cfg (readChain row first second scanned) row now) | _ \<Rightarrow> None) w"
| "late_do cfg w (E_guard n receipt fin again clock) = answer n (\<lambda>owner t. case t of
     At_guard row chain now \<Rightarrow> Some (after_guard cfg owner (reorgGuard receipt fin again) clock row chain now) | _ \<Rightarrow> None) w"
| "late_do cfg w (E_sign n jws) = answer n (\<lambda>owner t. case t of
     At_sign cur rid chain lease \<Rightarrow> Some (after_sign cfg (if jws = Some [] then None else jws) cur rid chain lease) | _ \<Rightarrow> None) w"
| "late_do cfg w (E_ledger n ok) = answer n (\<lambda>owner t. case t of
     At_ledger fresh chain lease \<Rightarrow> Some (after_ledger cfg ok fresh chain lease) | _ \<Rightarrow> None) w"
| "late_do cfg w (E_leaf n ok) = answer n (\<lambda>owner t. case t of
     At_leaf fresh chain lease \<Rightarrow> Some (after_leaf cfg ok fresh chain lease) | _ \<Rightarrow> None) w"
| "late_do cfg w (E_rows x) = ((fst w)\<lparr>ly_store := late_step (ly_store (fst w)) x\<rparr>, snd w)"
| "late_do cfg w (E_x402 x) = ((fst w)\<lparr>ly_x := x402_step (ly_x (fst w)) x\<rparr>, snd w)"

definition late_run :: "late_cfg \<Rightarrow> late_world \<Rightarrow> late_event list \<Rightarrow> late_world" where
  "late_run cfg w evs = foldl (late_do cfg) w evs"

section \<open>What every resolver keeps of the rows\<close>

text \<open>
  A contract on the rows: an invariant that a compare-and-set from a state that is not held, an
  entry in the ledger and the allowed operations of the other callers keep. Then every run of
  resolvers keeps it.
\<close>

definition live_statuses :: "late_status set" where
  "live_statuses = {Submitted, Unknown, Confirmed, Issuing, Issued}"

definition chain_live :: "late_wait \<Rightarrow> bool" where
  "chain_live w \<longleftrightarrow> (case w of At_chain row now \<Rightarrow> lr_state row \<in> {Unknown, Confirmed} | _ \<Rightarrow> True)"

fun event_allowed :: "(late_op \<Rightarrow> bool) \<Rightarrow> late_event \<Rightarrow> bool" where
  "event_allowed A (E_rows x) = A x"
| "event_allowed A _ = True"

lemma sys_simps [simp]:
  "ly_x (sys_cas i from to ps y) = ly_x y" "ly_calls (sys_cas i from to ps y) = ly_calls y"
  "ly_store (sys_cas i from to ps y) = fst (casLate i from to ps (ly_store y))"
  "ly_store (sys_call c y) = ly_store y" "ly_x (sys_call c y) = ly_x y" "ly_calls (sys_call c y) = ly_calls y @ [c]"
  by (simp_all add: sys_cas_def sys_call_def)

lemma give_back_simps [simp]:
  "ly_store (give_back l y) = ly_store y" "ly_calls (give_back l y) = ly_calls y"
  by (simp_all add: give_back_def split: option.split)

lemma set_drop_nth: "set (drop_nth n xs) \<subseteq> set xs"
  by (auto simp: drop_nth_def dest: in_set_takeD in_set_dropD)

text \<open>A world where the rows satisfy \<open>I\<close> and the waiting resolvers \<open>J\<close>, which a step keeps.\<close>

definition world_inv :: "(late_sys \<Rightarrow> bool) \<Rightarrow> (late_wait \<Rightarrow> bool) \<Rightarrow> late_world \<Rightarrow> bool" where
  "world_inv I J w \<longleftrightarrow> I (fst w) \<and> (\<forall>t \<in> snd ` set (snd w). J t)"

definition next_inv :: "(late_sys \<Rightarrow> bool) \<Rightarrow> (late_wait \<Rightarrow> bool) \<Rightarrow> late_next \<times> late_sys \<Rightarrow> bool" where
  "next_inv I J r \<longleftrightarrow> I (snd r) \<and> (case fst r of Done a \<Rightarrow> True | Ask t \<Rightarrow> J t)"

lemma go_on_inv: "next_inv I J r \<Longrightarrow> \<forall>t \<in> snd ` set ws. J t \<Longrightarrow> world_inv I J (go_on owner ws r)"
  by (auto simp: next_inv_def world_inv_def go_on_def split: late_next.splits)

lemma answer_inv:
  assumes "world_inv I J w"
    and "\<And>owner t g. I (fst w) \<Longrightarrow> J t \<Longrightarrow> f owner t = Some g \<Longrightarrow> next_inv I J (g (fst w))"
  shows "world_inv I J (answer n f w)"
proof (cases "n < length (snd w)")
  case True
  let ?e = "snd w ! n"
  have e: "?e \<in> set (snd w)" using True by simp
  then have j: "J (snd ?e)" using assms(1) by (auto simp: world_inv_def)
  show ?thesis
  proof (cases "f (fst ?e) (snd ?e)")
    case (Some g)
    have "next_inv I J (g (fst w))" using assms j Some by (auto simp: world_inv_def)
    moreover have "\<forall>t \<in> snd ` set (drop_nth n (snd w)). J t"
      using assms(1) set_drop_nth [of n "snd w"] by (auto simp: world_inv_def)
    ultimately show ?thesis using True Some by (simp add: answer_def go_on_inv)
  qed (use assms True in \<open>simp add: answer_def\<close>)
qed (use assms in \<open>simp add: answer_def\<close>)

locale late_stable =
  fixes I :: "late_store \<Rightarrow> bool" and allowed :: "late_op \<Rightarrow> bool"
  assumes cas_stable: "I s \<Longrightarrow> set sts \<subseteq> live_statuses \<Longrightarrow> I (fst (casLate i sts to ps s))"
    and ledger_stable: "I s \<Longrightarrow> I (fst (appendLateLedger row s))"
    and op_stable: "I s \<Longrightarrow> allowed x \<Longrightarrow> I (late_step s x)"
begin

abbreviation keeps :: "late_next \<times> late_sys \<Rightarrow> bool" where
  "keeps r \<equiv> next_inv (\<lambda>y. I (ly_store y)) chain_live r"

lemma cas_live: "I (ly_store y) \<Longrightarrow> set sts \<subseteq> live_statuses \<Longrightarrow> I (ly_store (sys_cas i sts to ps y))"
  by (simp add: cas_stable)

lemma leaf_keeps: "I (ly_store y) \<Longrightarrow> keeps (publish_leaf cfg fresh chain l y)"
  by (simp add: publish_leaf_def next_inv_def Let_def chain_live_def ledger_stable)

lemma start_keeps: "I (ly_store y) \<Longrightarrow> keeps (publish_start cfg i chain l y)"
  using leaf_keeps cas_stable
  by (auto simp: publish_start_def next_inv_def Let_def chain_live_def live_statuses_def split: option.split)

lemma after_leaf_keeps: "I (ly_store y) \<Longrightarrow> keeps (after_leaf cfg ok fresh chain l y)"
  by (simp add: after_leaf_def next_inv_def Let_def cas_stable live_statuses_def)

lemma after_ledger_keeps: "I (ly_store y) \<Longrightarrow> keeps (after_ledger cfg ok fresh chain l y)"
  by (auto simp: after_ledger_def cas_stable live_statuses_def intro: leaf_keeps) (simp add: next_inv_def)

lemma cas_result: "I s \<Longrightarrow> set sts \<subseteq> live_statuses \<Longrightarrow> casLate i sts to ps s = (s', r) \<Longrightarrow> I s'"
  using cas_stable [of s sts i to ps] by simp

lemma after_sign_keeps: "I (ly_store y) \<Longrightarrow> keeps (after_sign cfg a cur rid chain l y)"
proof (cases a)
  case (Some jws)
  assume i: "I (ly_store y)"
  obtain st r where c: "casLate (lr_id cur) [Issuing] Issuing [Set_jws jws, Set_receipt_id rid,
      Set_digest (or_text (lr_digest cur) EMPTY_DIGEST), Set_served False] (ly_store y) = (st, r)" by fastforce
  have "I st" by (rule cas_result [OF i _ c]) (simp add: live_statuses_def)
  then have "keeps (publish_start cfg (lr_id cur) chain l (y\<lparr>ly_store := st\<rparr>))" by (simp add: start_keeps)
  with Some c i show ?thesis by (simp add: after_sign_def next_inv_def split: option.split)
qed (simp add: after_sign_def next_inv_def cas_stable live_statuses_def)

lemma won_keeps: "I (ly_store y) \<Longrightarrow> keeps (issue_won cfg row chain clock y)"
proof -
  assume i: "I (ly_store y)"
  let ?tx = "or_text (cr_tx chain) (lr_tx_hint row)"
  let ?ref = "tx_key cfg row ?tx"
  let ?y1 = "sys_cas (lr_id row) [Issuing] Issuing [Set_tx_ref ?ref, Set_tx_hint ?tx] y"
  have y1: "I (ly_store ?y1)" using i by (simp add: cas_stable live_statuses_def)
  obtain x b where r: "ch_reserveTx (ly_x ?y1) ?ref (lr_auth_key row) (reserve_owner cfg (lr_id row)) 180000 clock = (x, b)"
    by fastforce
  have "keeps (publish_start cfg (lr_id row) (chain\<lparr>cr_tx := ?tx\<rparr>) l (?y1\<lparr>ly_x := x'\<rparr>))" for l x'
    by (rule start_keeps) (use y1 in simp)
  moreover have "keeps (publish_start cfg (lr_id row) (chain\<lparr>cr_tx := ?tx\<rparr>) None ?y1)" by (rule start_keeps [OF y1])
  moreover have "I (ly_store (sys_cas (lr_id row) [Issuing] to ps ?y1))" for to ps
    by (rule cas_live [OF y1]) (simp add: live_statuses_def)
  ultimately show ?thesis using r unfolding issue_won_def Let_def
    by (cases b; cases "?ref = []"; cases "ch_isTxSpent (ly_x ?y1) ?ref") (simp_all add: next_inv_def del: sys_simps)
qed

lemma guard_keeps: "I (ly_store y) \<Longrightarrow> keeps (after_guard cfg owner ok clock row chain now y)"
proof -
  assume i: "I (ly_store y)"
  obtain st r where c: "casLate (lr_id row) [Confirmed] Issuing
      [Set_owner owner, Set_seq (lr_seq row + 1), Set_until (now + 60000), Set_served False] (ly_store y) = (st, r)" by fastforce
  have "I st" by (rule cas_result [OF i _ c]) (simp add: live_statuses_def)
  then have "keeps (issue_won cfg row chain clock (y\<lparr>ly_store := st\<rparr>))" by (simp add: won_keeps)
  moreover have "I (ly_store (sys_cas (lr_id row) [Confirmed] Unknown ps y))" for ps
    by (rule cas_live [OF i]) (simp add: live_statuses_def)
  ultimately show ?thesis using c i unfolding after_guard_def
    by (cases r) (simp_all add: next_inv_def del: sys_simps)
qed

lemma confirm_keeps: "I (ly_store y) \<Longrightarrow> keeps (confirm_row cfg row chain now y)"
  by (auto simp: confirm_row_def next_inv_def Let_def chain_live_def cas_stable live_statuses_def split: option.split)

lemma judge_keeps: "I (ly_store y) \<Longrightarrow> keeps (judge_row cfg row chain now y)"
  using confirm_keeps [of y cfg row chain now] cas_stable [of "ly_store y" "[Unknown, Confirmed, Submitted]"]
  by (auto simp: judge_row_def next_inv_def Let_def live_statuses_def split: option.split)

lemma chain_keeps:
  assumes i: "I (ly_store y)" and r: "lr_state row \<in> {Unknown, Confirmed}"
  shows "keeps (after_chain cfg chain row now y)"
proof -
  let ?y1 = "sys_cas (lr_id row) [lr_state row] (lr_state row) (scan_patch row chain) y"
  have "I (ly_store ?y1)" by (rule cas_live [OF i]) (use r in \<open>auto simp: live_statuses_def\<close>)
  then show ?thesis using judge_keeps [OF i] judge_keeps [of ?y1] unfolding after_chain_def Let_def
    by (auto simp: next_inv_def simp del: sys_simps split: option.split)
qed

lemma look_up_keeps: "I (ly_store y) \<Longrightarrow> keeps (look_up i now y)"
  by (auto simp: look_up_def next_inv_def chain_live_def split: option.split)

lemma late_resolve_keeps: "I (ly_store y) \<Longrightarrow> keeps (resolve_start cfg owner now i y)"
proof -
  assume i: "I (ly_store y)"
  have "keeps (look_up i now (sys_cas i sts to ps y))" if "set sts \<subseteq> live_statuses" for sts to ps
    by (rule look_up_keeps) (rule cas_live [OF i that])
  from this [of "[Submitted]"] this [of "[Issuing]"] look_up_keeps [OF i] start_keeps [OF i] i
  show ?thesis unfolding resolve_start_def
    by (auto simp: live_statuses_def next_inv_def simp del: sys_simps split: option.split)
qed

lemma do_keeps:
  assumes w: "world_inv (\<lambda>y. I (ly_store y)) chain_live w" and a: "event_allowed allowed x"
  shows "world_inv (\<lambda>y. I (ly_store y)) chain_live (late_do cfg w x)"
proof (cases x)
  case (E_resolve owner now i)
  show ?thesis unfolding E_resolve late_do.simps
    by (rule go_on_inv) (use w late_resolve_keeps in \<open>auto simp: world_inv_def\<close>)
next
  case (E_chain n first second scanned)
  show ?thesis unfolding E_chain late_do.simps
    by (rule answer_inv [OF w]) (auto simp: chain_live_def intro!: chain_keeps split: late_wait.splits)
next
  case (E_guard n rc fin again clock)
  show ?thesis unfolding E_guard late_do.simps
    by (rule answer_inv [OF w]) (auto intro!: guard_keeps split: late_wait.splits)
next
  case (E_sign n jws)
  show ?thesis unfolding E_sign late_do.simps
    by (rule answer_inv [OF w]) (auto intro!: after_sign_keeps split: late_wait.splits)
next
  case (E_ledger n ok)
  show ?thesis unfolding E_ledger late_do.simps
    by (rule answer_inv [OF w]) (auto intro!: after_ledger_keeps split: late_wait.splits)
next
  case (E_leaf n ok)
  show ?thesis unfolding E_leaf late_do.simps
    by (rule answer_inv [OF w]) (auto intro!: after_leaf_keeps split: late_wait.splits)
qed (use w a op_stable in \<open>auto simp: world_inv_def\<close>)

end

sublocale late_stable \<subseteq> world: invariant_run "late_do cfg" "world_inv (\<lambda>y. I (ly_store y)) chain_live" "event_allowed allowed"
  for cfg
  by unfold_locales (rule do_keeps)

context late_stable
begin

lemma late_run_keeps:
  "I (ly_store y) \<Longrightarrow> list_all (event_allowed allowed) evs \<Longrightarrow> I (ly_store (fst (late_run cfg (y, []) evs)))"
  using world.run_inv [of "(y, [])" evs cfg] by (simp add: world_inv_def late_run_def)

end

section \<open>Two invariants of the rows\<close>

lemma cas_rows:
  "r \<in> set (lt_rows (fst (casLate i sts to ps s))) \<Longrightarrow> r \<in> set (lt_rows s) \<or>
     (\<exists>q. getLate i s = Some q \<and> lr_state q \<in> set sts \<and> r = (foldl assign q ps)\<lparr>lr_state := to\<rparr>)"
proof -
  assume r: "r \<in> set (lt_rows (fst (casLate i sts to ps s)))"
  have u: "x \<in> set (update_first P (\<lambda>_. z) xs) \<Longrightarrow> x \<in> set xs \<or> x = z" for x z P and xs :: "late_row list"
    by (induction xs) (auto split: if_splits)
  obtain s' res where c: "casLate i sts to ps s = (s', res)" by fastforce
  from c show ?thesis by (cases rule: casLate_cases) (use c r in \<open>auto dest!: u\<close>)
qed

lemma put_rows: "r \<in> set (lt_rows (fst (putLate row s))) \<Longrightarrow> r = row \<or> r \<in> set (lt_rows s)"
proof -
  assume r: "r \<in> set (lt_rows (fst (putLate row s)))"
  have "lt_rows (fst (putLate row s)) = lt_rows s \<or> lt_rows (fst (putLate row s)) = lt_rows s @ [row]"
    unfolding putLate_def by (simp split: if_split)
  with r show ?thesis by auto
qed

lemma without_first_subset: "set (without_first P xs) \<subseteq> set xs"
  by (induction xs) auto

lemma abort_rows: "r \<in> set (lt_rows (fst (abortLate i s))) \<Longrightarrow> r \<in> set (lt_rows s)"
proof -
  have "set (lt_rows (fst (abortLate i s))) \<subseteq> set (lt_rows s)"
    by (simp add: abortLate_def without_first_subset split: option.split)
  then show "r \<in> set (lt_rows (fst (abortLate i s))) \<Longrightarrow> r \<in> set (lt_rows s)" by blast
qed

lemma prune_rows: "r \<in> set (lt_rows (pruneLate now age s)) \<Longrightarrow> r \<in> set (lt_rows s)"
  by (simp add: pruneLate_def)

lemma ledger_rows [simp]: "lt_rows (fst (appendLateLedger row s)) = lt_rows s"
  by (simp add: appendLateLedger_def split: option.split)

text \<open>The payment that a row was opened for; an id, which is drawn at random, stands for one payment.\<close>

definition opened_tuple :: "late_tuple \<Rightarrow> late_tuple" where
  "opened_tuple tu = tu\<lparr>lu_principal := (if lu_principal tu = [] then ''anon'' else lu_principal tu)\<rparr>"

definition tuples_ok :: "(string \<Rightarrow> late_tuple) \<Rightarrow> late_store \<Rightarrow> bool" where
  "tuples_ok T s \<longleftrightarrow> (\<forall>r\<in>set (lt_rows s). lr_tuple r = T (lr_id r))"

fun opens_for :: "(string \<Rightarrow> late_tuple) \<Rightarrow> late_op \<Rightarrow> bool" where
  "opens_for T (LOpen i digest tu) = (opened_tuple tu = T i)"
| "opens_for T _ = True"

lemma inline_cas: "fst (noteLateInlineIssued i t s) = (if i = [] then s else fst (casLate i [Submitted, Unknown, Confirmed] Issued
    [Set_inline True, Set_sent True, Set_tx_ref t, Set_why ''inline'', Set_served True] s))"
  by (simp add: noteLateInlineIssued_def)

lemma cas_tuples: "tuples_ok T s \<Longrightarrow> tuples_ok T (fst (casLate i sts to ps s))"
  by (auto simp: tuples_ok_def dest!: cas_rows getLate_id)

lemma new_row_simps [simp]:
  "lr_id (new_late_row i d tu) = i" "lr_tuple (new_late_row i d tu) = tu" "lr_state (new_late_row i d tu) = Submitted"
  by (simp_all add: new_late_row_def)

interpretation late_tuples: late_stable "tuples_ok T" "opens_for T" for T
proof unfold_locales
  fix s x
  assume t: "tuples_ok T s" "opens_for T x"
  show "tuples_ok T (late_step s x)"
  proof (cases x)
    case (LOpen k digest tu)
    with t show ?thesis by (auto simp: openLateSubmission_def opened_tuple_def tuples_ok_def dest!: put_rows)
  next
    case (LAbort k)
    with t show ?thesis by (auto simp: tuples_ok_def dest!: abort_rows)
  next
    case (LPrune now age)
    with t show ?thesis by (auto simp: tuples_ok_def dest!: prune_rows)
  next
    case (LLedger row)
    with t show ?thesis by (simp add: tuples_ok_def)
  qed (use t cas_tuples [OF t(1)] in \<open>auto simp: inline_cas\<close>)
next
  show "\<And>s row. tuples_ok T s \<Longrightarrow> tuples_ok T (fst (appendLateLedger row s))" by (simp add: tuples_ok_def)
qed (rule cas_tuples)

text \<open>A row that was closed without a receipt.\<close>

definition closed_late :: "string \<Rightarrow> late_status \<Rightarrow> string \<Rightarrow> late_store \<Rightarrow> bool" where
  "closed_late i st jws s \<longleftrightarrow> st \<notin> live_statuses \<and> (\<forall>r\<in>set (lt_rows s). lr_id r = i \<longrightarrow> lr_state r = st \<and> lr_jws r = jws)"

fun leaves_closed :: "string \<Rightarrow> late_op \<Rightarrow> bool" where
  "leaves_closed i (LOpen k digest tu) = (k \<noteq> i)"
| "leaves_closed i (LCas k sts to ps) = (set sts \<subseteq> live_statuses)"
| "leaves_closed i _ = True"

lemma cas_closed: "closed_late i st jws s \<Longrightarrow> set sts \<subseteq> live_statuses \<Longrightarrow> closed_late i st jws (fst (casLate k sts to ps s))"
  by (fastforce simp: closed_late_def dest!: cas_rows getLate_id)

interpretation late_closed: late_stable "closed_late i st jws" "leaves_closed i" for i st jws
proof unfold_locales
  fix s x
  assume c: "closed_late i st jws s" "leaves_closed i x"
  show "closed_late i st jws (late_step s x)"
  proof (cases x)
    case (LOpen k digest tu)
    with c show ?thesis by (auto simp: openLateSubmission_def closed_late_def dest!: put_rows)
  next
    case (LAbort k)
    with c show ?thesis by (auto simp: closed_late_def dest!: abort_rows)
  next
    case (LPrune now age)
    with c show ?thesis by (auto simp: closed_late_def dest!: prune_rows)
  next
    case (LLedger row)
    with c show ?thesis by (simp add: closed_late_def)
  qed (use c cas_closed [OF c(1)] in \<open>auto simp: inline_cas live_statuses_def\<close>)
next
  show "\<And>s row. closed_late i st jws s \<Longrightarrow> closed_late i st jws (fst (appendLateLedger row s))" by (simp add: closed_late_def)
qed (rule cas_closed)

end
