(* ===== verification/Late_Receipts.thy ===== *)
theory Late_Receipts
  imports Late_Issue
begin

text \<open>
  What runs of the resolvers of Late_Issue guarantee: which payments the signer is called for,
  that a spent transfer is not signed for again, that a closed row stays closed, that a resolver
  left alone issues the receipt, and how two retries of one task interfere.
\<close>

section \<open>What the signer is called with\<close>

lemma tx_spent_change: "map_change P ks x x' \<Longrightarrow> set (xs_txSpent x) \<subseteq> set (xs_txSpent x')"
  by (auto dest: change_leases)

lemma tx_spent_step: "set (xs_txSpent x) \<subseteq> set (xs_txSpent (x402_step x op))"
proof (cases op)
  case (XPut now n e st d)
  then show ?thesis by (simp add: ch_put_def ch_gc_def Let_def)
next
  case (XMarkAuth a ref)
  then show ?thesis by (simp add: ch_markAuthSpent_def)
next
  case (XMarkTx key facts)
  then show ?thesis by (auto simp: ch_markTxSpent_def)
next
  case (XReserve key a owner lease now)
  then show ?thesis by (simp add: ch_reserveTx_def Let_def)
next
  case (XReleaseTx key a owner)
  then show ?thesis by (simp add: ch_releaseTx_def split: option.split)
qed (simp_all add: challenge_changes [THEN tx_spent_change])

lemma reserve_txSpent [simp]: "xs_txSpent (fst (ch_reserveTx x key a owner lease now)) = xs_txSpent x"
  by (simp add: ch_reserveTx_def Let_def)

lemma reserve_unspent: "ch_reserveTx x key a owner lease now = (x', True) \<Longrightarrow> key \<noteq> [] \<and> key \<notin> set (xs_txSpent x) \<and> xs_txSpent x' = xs_txSpent x"
  by (auto simp: ch_reserveTx_def ch_isTxSpent_def Let_def split: if_splits)

lemma give_back_spent [simp]: "xs_txSpent (ly_x (give_back l y)) = xs_txSpent (ly_x y)"
  by (simp add: give_back_def ch_releaseTx_def split: option.split)

lemma mark_issued_spent: "set (xs_txSpent x) \<subseteq> set (xs_txSpent (mark_issued cfg row chain x))"
  by (auto simp: mark_issued_def Let_def ch_markTxSpent_def ch_markAuthSpent_def)

text \<open>Decisions look at what the row captured when it was opened, and not at the transfer's text.\<close>

lemma auth_cong:
  assumes "lr_tuple r = lr_tuple q"
  shows "auth_before r = auth_before q" "auth_after r = auth_after q" "auth_from r = auth_from q"
  using assms by (simp_all add: auth_before_def auth_after_def auth_from_def)

lemma expiry_cong:
  assumes t: "lr_tuple r = lr_tuple q" and c: "cr_ok c = cr_ok d" "cr_finalized c = cr_finalized d" "cr_time c = cr_time d"
  shows "decideLateExpiry r c now u h = decideLateExpiry q d now u h"
proof -
  have e: "unmatched_verdict r now u = unmatched_verdict q now u" "matched_verdict r b c = matched_verdict q b d" for b
    unfolding unmatched_verdict_def matched_verdict_def auth_cong [OF t] t c by (rule refl)+
  show ?thesis unfolding decideLateExpiry_def t c e by (rule refl)
qed

lemma rebind_cong:
  assumes t: "lr_tuple r = lr_tuple q"
  shows "rebind cfg r (c\<lparr>cr_tx := tx\<rparr>) = rebind cfg q c"
proof -
  have e: "amounts_verdict r (c\<lparr>cr_tx := tx\<rparr>) = amounts_verdict q c"
    "payer_verdict a r (c\<lparr>cr_tx := tx\<rparr>) = payer_verdict a q c" for a
    unfolding amounts_verdict_def payer_verdict_def auth_cong [OF t] t by simp_all
  have f: "cr_ok (c\<lparr>cr_tx := tx\<rparr>) = cr_ok c" "cr_pending (c\<lparr>cr_tx := tx\<rparr>) = cr_pending c"
    "cr_finalized (c\<lparr>cr_tx := tx\<rparr>) = cr_finalized c" "cr_network (c\<lparr>cr_tx := tx\<rparr>) = cr_network c"
    "cr_asset (c\<lparr>cr_tx := tx\<rparr>) = cr_asset c" "cr_payTo (c\<lparr>cr_tx := tx\<rparr>) = cr_payTo c"
    "cr_count (c\<lparr>cr_tx := tx\<rparr>) = cr_count c" by simp_all
  show ?thesis unfolding rebind_def t e f by (rule refl)
qed

lemma decision_cong:
  assumes t: "lr_tuple r = lr_tuple q"
  shows "late_decision cfg r (c\<lparr>cr_tx := tx\<rparr>) now = late_decision cfg q c now"
proof -
  have "decideLateExpiry r (c\<lparr>cr_tx := tx\<rparr>) now u h = decideLateExpiry q c now u h"
    "decideLateExpiry r (c\<lparr>cr_tx := tx, cr_ok := False, cr_finalized := Some False\<rparr>) now u h =
     decideLateExpiry q (c\<lparr>cr_ok := False, cr_finalized := Some False\<rparr>) now u h" for u h
    by (rule expiry_cong [OF t]; simp)+
  then show ?thesis by (simp add: late_decision_def rebind_cong [OF t] Let_def)
qed

text \<open>
  A call of the signer is good when some clock made the decision confirm the reading, and its
  transfer is none of \<open>S\<close>, which are spent.
\<close>

fun call_good :: "late_cfg \<Rightarrow> (string \<Rightarrow> late_tuple) \<Rightarrow> string set \<Rightarrow> late_call \<Rightarrow> bool" where
  "call_good cfg T S (Call_sign cur chain) \<longleftrightarrow>
     lr_tuple cur = T (lr_id cur) \<and> (\<exists>now. late_decision cfg cur chain now = V_confirmed) \<and> tx_key cfg cur (cr_tx chain) \<notin> S"
| "call_good cfg T S _ \<longleftrightarrow> True"

definition sys_good :: "late_cfg \<Rightarrow> (string \<Rightarrow> late_tuple) \<Rightarrow> string set \<Rightarrow> late_sys \<Rightarrow> bool" where
  "sys_good cfg T S y \<longleftrightarrow> tuples_ok T (ly_store y) \<and> S \<subseteq> set (xs_txSpent (ly_x y)) \<and> [] \<notin> S \<and>
     list_all (call_good cfg T S) (ly_calls y)"

definition wait_good :: "late_cfg \<Rightarrow> (string \<Rightarrow> late_tuple) \<Rightarrow> late_wait \<Rightarrow> bool" where
  "wait_good cfg T w \<longleftrightarrow> (case w of
       At_chain row now \<Rightarrow> lr_tuple row = T (lr_id row)
     | At_guard row chain now \<Rightarrow> lr_tuple row = T (lr_id row) \<and> late_decision cfg row chain now = V_confirmed
     | _ \<Rightarrow> True)"

abbreviation next_good :: "late_cfg \<Rightarrow> (string \<Rightarrow> late_tuple) \<Rightarrow> string set \<Rightarrow> late_next \<times> late_sys \<Rightarrow> bool" where
  "next_good cfg T S \<equiv> next_inv (sys_good cfg T S) (wait_good cfg T)"

lemma good_cas [simp]: "sys_good cfg T S y \<Longrightarrow> sys_good cfg T S (sys_cas i sts to ps y)"
  by (simp add: sys_good_def cas_tuples)

lemma good_give_back [simp]: "sys_good cfg T S y \<Longrightarrow> sys_good cfg T S (give_back l y)"
  by (simp add: sys_good_def)

lemma good_call [simp]: "sys_good cfg T S y \<Longrightarrow> call_good cfg T S c \<Longrightarrow> sys_good cfg T S (sys_call c y)"
  by (simp add: sys_good_def)

lemma good_ledger: "sys_good cfg T S y \<Longrightarrow> sys_good cfg T S (y\<lparr>ly_store := fst (appendLateLedger row (ly_store y))\<rparr>)"
  by (simp add: sys_good_def tuples_ok_def)

lemma good_store: "sys_good cfg T S y \<Longrightarrow> casLate i sts to ps (ly_store y) = (st, r) \<Longrightarrow> sys_good cfg T S (y\<lparr>ly_store := st\<rparr>)"
  using cas_tuples [of T "ly_store y" i sts to ps] by (simp add: sys_good_def)

lemma good_row: "sys_good cfg T S y \<Longrightarrow> sys_get i y = Some row \<Longrightarrow> lr_tuple row = T i \<and> lr_id row = i"
  using getLate_id [of i "ly_store y" row] by (auto simp: sys_good_def tuples_ok_def sys_get_def)

lemma leaf_good: "sys_good cfg T S y \<Longrightarrow> next_good cfg T S (publish_leaf cfg' fresh chain l y)"
  by (simp add: publish_leaf_def next_inv_def Let_def wait_good_def good_ledger)

text \<open>Publishing signs only when the row has no signature yet.\<close>

lemma start_good:
  assumes y: "sys_good cfg T S y"
    and c: "\<And>cur. lr_tuple cur = T i \<Longrightarrow> lr_id cur = i \<Longrightarrow> call_good cfg T S (Call_sign cur chain)"
  shows "next_good cfg T S (publish_start cfg i chain l y)"
proof (cases "sys_get i y")
  case (Some fresh)
  let ?y = "\<lambda>sts to ps. sys_cas i sts to ps y"
  have "next_good cfg T S (publish_leaf cfg fresh chain l (?y sts to ps))" for sts to ps
    by (rule leaf_good) (simp add: y)
  moreover have "call_good cfg T S (Call_sign cur chain)" if "sys_get i (?y sts to ps) = Some cur" for cur sts to ps
    using good_row [OF good_cas [OF y] that] c by blast
  ultimately show ?thesis using Some y unfolding publish_start_def
    by (auto simp: next_inv_def Let_def wait_good_def split: option.split)
qed (use y in \<open>simp add: publish_start_def next_inv_def\<close>)

lemma start_signed_good:
  assumes y: "sys_good cfg T S y" and j: "\<forall>row. sys_get i y = Some row \<longrightarrow> lr_jws row \<noteq> []"
  shows "next_good cfg T S (publish_start cfg i chain l y)"
proof (cases "sys_get i y")
  case (Some fresh)
  have "next_good cfg T S (publish_leaf cfg fresh chain l (sys_cas i sts to ps y))" for sts to ps
    by (rule leaf_good) (simp add: y)
  with Some y j show ?thesis unfolding publish_start_def
    by (auto simp: next_inv_def Let_def wait_good_def split: option.split)
qed (use y in \<open>simp add: publish_start_def next_inv_def\<close>)

lemma cas_get: "casLate i sts to ps s = (s', Some r') \<Longrightarrow> getLate i s' = Some r'"
proof -
  assume c: "casLate i sts to ps s = (s', Some r')"
  have u: "find P (update_first P (\<lambda>_. z) xs) = Some z" if "P z" "find P xs = Some x" for P x z and xs :: "late_row list"
    using that by (induction xs) (auto split: if_splits)
  from c show ?thesis
  proof (cases rule: casLate_cases)
    case (moved r r'')
    have "lr_id r'' = i" using moved(1,3) getLate_id [OF moved(1)] by simp
    with moved u [of "\<lambda>q. lr_id q = i" r'' "lt_rows s" r] show ?thesis by (simp add: getLate_def)
  qed simp
qed

lemma after_leaf_good: "sys_good cfg T S y \<Longrightarrow> next_good cfg T S (after_leaf cfg ok fresh chain l y)"
proof -
  assume y: "sys_good cfg T S y"
  let ?y = "sys_cas (lr_id fresh) [Issuing, Confirmed] Issued [Set_logged True, Set_served (lr_served fresh)] y"
  have "sys_good cfg T S ?y" using y by simp
  then have "sys_good cfg T S (?y\<lparr>ly_x := mark_issued cfg fresh chain (ly_x ?y)\<rparr>)"
    using mark_issued_spent [of "ly_x ?y" cfg fresh chain] by (auto simp: sys_good_def)
  with y show ?thesis by (simp add: after_leaf_def next_inv_def Let_def)
qed

lemma after_ledger_good: "sys_good cfg T S y \<Longrightarrow> next_good cfg T S (after_ledger cfg ok fresh chain l y)"
  using leaf_good [OF good_cas] by (simp add: after_ledger_def next_inv_def)

lemma after_sign_good:
  assumes y: "sys_good cfg T S y" and a: "a \<noteq> Some []"
  shows "next_good cfg T S (after_sign cfg a cur rid chain l y)"
proof (cases a)
  case (Some jws)
  obtain st r where c: "casLate (lr_id cur) [Issuing] Issuing [Set_jws jws, Set_receipt_id rid,
      Set_digest (or_text (lr_digest cur) EMPTY_DIGEST), Set_served False] (ly_store y) = (st, r)" by fastforce
  show ?thesis
  proof (cases r)
    case None
    with Some c y show ?thesis by (simp add: after_sign_def next_inv_def)
  next
    case r': (Some r')
    from c show ?thesis
    proof (cases rule: casLate_cases)
      case (moved q q')
      have "getLate (lr_id cur) st = Some r'" using cas_get c r' by blast
      moreover have "lr_jws r' = jws" using moved(3,4) r' by simp
      ultimately have "\<forall>row. sys_get (lr_id cur) (y\<lparr>ly_store := st\<rparr>) = Some row \<longrightarrow> lr_jws row \<noteq> []"
        using a Some by (simp add: sys_get_def)
      then have "next_good cfg T S (publish_start cfg (lr_id cur) chain l (y\<lparr>ly_store := st\<rparr>))"
        by (rule start_signed_good [OF good_store [OF y c]])
      with Some c r' show ?thesis by (simp add: after_sign_def)
    qed (use r' in simp)
  qed
qed (use y in \<open>simp add: after_sign_def next_inv_def\<close>)

lemma won_good:
  assumes y: "sys_good cfg T S y" and t: "lr_tuple row = T (lr_id row)" and d: "late_decision cfg row chain now = V_confirmed"
  shows "next_good cfg T S (issue_won cfg row chain clock y)"
proof -
  let ?tx = "or_text (cr_tx chain) (lr_tx_hint row)"
  let ?ref = "tx_key cfg row ?tx" and ?c = "chain\<lparr>cr_tx := or_text (cr_tx chain) (lr_tx_hint row)\<rparr>"
  let ?y1 = "sys_cas (lr_id row) [Issuing] Issuing [Set_tx_ref ?ref, Set_tx_hint ?tx] y"
  have y1: "sys_good cfg T S ?y1" using y by simp
  obtain x b where r: "ch_reserveTx (ly_x ?y1) ?ref (lr_auth_key row) (reserve_owner cfg (lr_id row)) 180000 clock = (x, b)"
    by fastforce
  have good: "call_good cfg T S (Call_sign cur ?c)" if "lr_tuple cur = T (lr_id row)" "?ref \<notin> S" "lr_id cur = lr_id row" for cur
  proof -
    have "tx_key cfg cur ?tx = ?ref" using that t by (simp add: tx_key_def)
    moreover have "late_decision cfg cur ?c now = V_confirmed" using decision_cong [of cur row cfg ?tx chain now] that t d by simp
    ultimately show ?thesis using that by auto
  qed
  have none: "next_good cfg T S (publish_start cfg (lr_id row) ?c None ?y1)" if "?ref = []"
    by (rule start_good [OF y1]) (use that good y in \<open>simp add: sys_good_def\<close>)
  have some: "next_good cfg T S (publish_start cfg (lr_id row) ?c l (?y1\<lparr>ly_x := x\<rparr>))" if b for l
  proof (rule start_good)
    have u: "?ref \<noteq> [] \<and> ?ref \<notin> set (xs_txSpent (ly_x ?y1)) \<and> xs_txSpent x = xs_txSpent (ly_x ?y1)"
      by (rule reserve_unspent) (use r that in simp)
    then show "sys_good cfg T S (?y1\<lparr>ly_x := x\<rparr>)" using y1 by (simp add: sys_good_def)
    show "call_good cfg T S (Call_sign cur ?c)" if "lr_tuple cur = T (lr_id row)" "lr_id cur = lr_id row" for cur
      by (rule good) (use that u y in \<open>auto simp: sys_good_def\<close>)
  qed
  have "sys_good cfg T S (sys_cas (lr_id row) [Issuing] to ps ?y1)" for to ps using y1 by simp
  with none some r show ?thesis unfolding issue_won_def Let_def
    by (cases b; cases "?ref = []"; cases "ch_isTxSpent (ly_x ?y1) ?ref") (simp_all add: next_inv_def)
qed

lemma guard_good:
  assumes y: "sys_good cfg T S y" and t: "lr_tuple row = T (lr_id row)" and d: "late_decision cfg row chain now = V_confirmed"
  shows "next_good cfg T S (after_guard cfg owner ok clock row chain now y)"
proof -
  obtain st r where c: "casLate (lr_id row) [Confirmed] Issuing
      [Set_owner owner, Set_seq (lr_seq row + 1), Set_until (now + 60000), Set_served False] (ly_store y) = (st, r)" by fastforce
  have "next_good cfg T S (issue_won cfg row chain clock (y\<lparr>ly_store := st\<rparr>))"
    by (rule won_good [OF good_store [OF y c] t d])
  with c y show ?thesis unfolding after_guard_def by (cases r) (simp_all add: next_inv_def)
qed

lemma judge_good:
  assumes y: "sys_good cfg T S y" and t: "lr_tuple row = T (lr_id row)"
  shows "next_good cfg T S (judge_row cfg row chain now y)"
proof (cases "late_decision cfg row chain now = V_confirmed")
  case True
  let ?y1 = "sys_cas (lr_id row) [Unknown] Confirmed
    [Set_why ''confirmed'', Set_confirmed now, Set_tx_hint (or_text (cr_tx chain) (lr_tx_hint row))] y"
  have "next_good cfg T S (confirm_row cfg row chain now y)"
  proof (cases "sys_get (lr_id row) ?y1")
    case None
    with y t True show ?thesis by (simp add: confirm_row_def next_inv_def wait_good_def Let_def)
  next
    case (Some row1)
    have s: "lr_tuple row1 = T (lr_id row)" "lr_id row1 = lr_id row" using good_row [OF good_cas [OF y] Some] by simp_all
    then have "late_decision cfg row1 chain now = V_confirmed"
      using decision_cong [of row1 row cfg "cr_tx chain" chain now] t True by simp
    with Some s y t True show ?thesis by (simp add: confirm_row_def next_inv_def wait_good_def Let_def)
  qed
  with True show ?thesis by (simp add: judge_row_def held_status_def)
next
  case False
  with y show ?thesis by (simp add: judge_row_def next_inv_def Let_def split: option.split)
qed

lemma chain_good:
  assumes y: "sys_good cfg T S y" and t: "lr_tuple row = T (lr_id row)"
  shows "next_good cfg T S (after_chain cfg chain row now y)"
proof -
  let ?y1 = "sys_cas (lr_id row) [lr_state row] (lr_state row) (scan_patch row chain) y"
  have y1: "sys_good cfg T S ?y1" using y by simp
  show ?thesis
  proof (cases "sys_get (lr_id row) ?y1")
    case None
    with y1 judge_good [OF y t] show ?thesis by (simp add: after_chain_def next_inv_def Let_def)
  next
    case (Some row1)
    have "lr_tuple row1 = T (lr_id row1)" using good_row [OF y1 Some] by simp
    from judge_good [OF y1 this] judge_good [OF y t] Some show ?thesis by (simp add: after_chain_def Let_def)
  qed
qed

lemma look_up_good: "sys_good cfg T S y \<Longrightarrow> next_good cfg T S (look_up i now y)"
  using good_row [of cfg T S y i] by (auto simp: look_up_def next_inv_def wait_good_def split: option.split)

lemma resolve_good:
  assumes y: "sys_good cfg T S y"
  shows "next_good cfg T S (resolve_start cfg owner now i y)"
proof (cases "sys_get i y")
  case (Some row)
  have "next_good cfg T S (look_up i now (sys_cas i sts to ps y))" for sts to ps
    by (rule look_up_good) (simp add: y)
  moreover have "next_good cfg T S (publish_start cfg i c None y)" if "lr_jws row \<noteq> []" for c
    by (rule start_signed_good [OF y]) (use Some that in simp)
  ultimately show ?thesis using Some y look_up_good [OF y] unfolding resolve_start_def
    by (auto simp: next_inv_def)
qed (use y in \<open>simp add: resolve_start_def next_inv_def\<close>)

lemma do_good:
  assumes w: "world_inv (sys_good cfg T S) (wait_good cfg T) w" and a: "event_allowed (opens_for T) x"
  shows "world_inv (sys_good cfg T S) (wait_good cfg T) (late_do cfg w x)"
proof (cases x)
  case (E_resolve owner now i)
  show ?thesis unfolding E_resolve late_do.simps
    by (rule go_on_inv) (use w resolve_good in \<open>auto simp: world_inv_def\<close>)
next
  case (E_chain n first second scanned)
  show ?thesis unfolding E_chain late_do.simps
    by (rule answer_inv [OF w]) (auto simp: wait_good_def intro!: chain_good split: late_wait.splits)
next
  case (E_guard n rc fin again clock)
  show ?thesis unfolding E_guard late_do.simps
    by (rule answer_inv [OF w]) (auto simp: wait_good_def intro!: guard_good split: late_wait.splits)
next
  case (E_sign n jws)
  show ?thesis unfolding E_sign late_do.simps
    by (rule answer_inv [OF w]) (auto intro!: after_sign_good split: late_wait.splits if_splits)
next
  case (E_ledger n ok)
  show ?thesis unfolding E_ledger late_do.simps
    by (rule answer_inv [OF w]) (auto intro!: after_ledger_good split: late_wait.splits)
next
  case (E_leaf n ok)
  show ?thesis unfolding E_leaf late_do.simps
    by (rule answer_inv [OF w]) (auto intro!: after_leaf_good split: late_wait.splits)
next
  case (E_rows op)
  with w a late_tuples.op_stable show ?thesis by (auto simp: world_inv_def sys_good_def)
next
  case (E_x402 op)
  with w tx_spent_step [of "ly_x (fst w)" op] show ?thesis by (auto simp: world_inv_def sys_good_def)
qed

interpretation signing: invariant_run "late_do cfg" "world_inv (sys_good cfg T S) (wait_good cfg T)" "event_allowed (opens_for T)"
  for cfg T S
  by unfold_locales (rule do_good)


section \<open>Properties\<close>

text \<open>What a confirmed decision says of the reading, check by check.\<close>

lemma decision_confirmed:
  assumes "late_decision cfg row chain now = V_confirmed"
  shows "rebind cfg row chain = V_confirmed"
    "decideLateExpiry row chain now (cr_unused chain) (lc_horizon cfg) = V_issue"
proof -
  have e: "decideLateExpiry r c n u h \<noteq> V_confirmed" for r c n u h
    unfolding decideLateExpiry_def unmatched_verdict_def matched_verdict_def
    by (simp split: option.split)
  show "rebind cfg row chain = V_confirmed"
    using assms e unfolding late_decision_def Let_def by (auto split: if_splits)
  with assms show "decideLateExpiry row chain now (cr_unused chain) (lc_horizon cfg) = V_issue"
    using e unfolding late_decision_def Let_def by (auto split: if_splits)
qed

lemma amounts_not_confirmed: "amounts_verdict row chain \<noteq> Some V_confirmed"
  unfolding amounts_verdict_def by (simp split: option.split prod.split)

lemma rebind_confirmed:
  assumes "rebind cfg row chain = V_confirmed"
  shows "cr_ok chain" "cr_finalized chain = Some True" "cr_count chain = Some 1"
    "cr_network chain = [] \<or> sameNetwork (lc_arc cfg) (cr_network chain) (lu_network (lr_tuple row))"
    "same_asset (lu_asset (lr_tuple row)) (cr_asset chain)"
    "samePayee (lc_addr cfg) (cr_payTo chain) (lu_payee (lr_tuple row))"
    "amounts_verdict row chain = None" "payer_verdict (lc_addr cfg) row chain = V_confirmed"
  using assms amounts_not_confirmed [of row chain] unfolding rebind_def
  by (auto split: if_splits option.splits)


lemma amounts_agree:
  assumes "amounts_verdict row chain = None"
  obtains a amount quote where "lu_auth (lr_tuple row) = Some a" "cr_amount chain \<noteq> []"
    "js_BigInt (JStr (cr_amount chain)) = Some amount" "js_BigInt (JStr (la_value a)) = Some amount"
    "js_BigInt (JStr (lu_quote (lr_tuple row))) = Some quote" "quote \<le> amount"
proof -
  have null: "js_BigInt (JStr ''null'') = None" by code_simp
  from assms obtain amount quote a v where
    m: "js_BigInt (JStr (or_text (cr_amount chain) ''null'')) = Some amount" and
    q: "js_BigInt (JStr (lu_quote (lr_tuple row))) = Some quote" and
    a: "lu_auth (lr_tuple row) = Some a" and
    v: "js_BigInt (JStr (or_text (la_value a) ''null'')) = Some v" and
    le: "\<not> (amount \<noteq> v \<or> amount < quote)"
    unfolding amounts_verdict_def by (auto split: option.splits if_splits)
  have "cr_amount chain \<noteq> []" "la_value a \<noteq> []" using m v null by (auto simp: or_text_def)
  with m q a v le show thesis by (intro that [of a amount quote]) (auto simp: or_text_def)
qed

lemma payer_agrees:
  assumes "payer_verdict addr row chain = V_confirmed"
  shows "auth_from row \<noteq> []" "samePayee addr (cr_payer chain) (auth_from row)" "samePayee addr (cr_authorizer chain) (auth_from row)"
  using assms unfolding payer_verdict_def by (auto split: if_splits)

lemma expiry_issues:
  assumes "decideLateExpiry row chain now u h = V_issue"
  obtains sent ts where "lu_submitted (lr_tuple row) = Some sent" "cr_time chain = Some ts"
    "(sent - LATE_SKEW_MS) div 1000 \<le> ts" "case lu_challenge_issued (lr_tuple row) of None \<Rightarrow> True | Some t \<Rightarrow> t div 1000 \<le> ts"
    "\<exists>va vb. auth_after row = Some va \<and> auth_before row = Some vb \<and> va < ts \<and> ts < vb"
proof -
  have u: "unmatched_verdict row now u \<noteq> V_issue" by (simp add: unmatched_verdict_def split: option.split)
  from assms u obtain sent where s: "lu_submitted (lr_tuple row) = Some sent" "matched_verdict row sent chain = V_issue"
    unfolding decideLateExpiry_def by (auto split: option.splits if_splits)
  then show thesis unfolding matched_verdict_def by (auto split: option.splits if_splits intro!: that)
qed

text \<open>
  Property C6. The signer of late receipts is called only for a payment that the chain shows.
  Whatever answers the resolvers get and however they interleave with each other and with the
  settlement path, each call carries the tuple its row was opened with and a finalized reading of
  exactly one transfer of the network and the asset asked for, to the payee of the challenge, from
  the payer that signed the authorization. Its amount is the amount authorized and not below the
  quote, and its time lies inside the authorization's window and after the submission, less the
  clock skew.
\<close>

theorem late_sign_paid:
  assumes "tuples_ok T (ly_store y)" "ly_calls y = []" "list_all (event_allowed (opens_for T)) evs"
    and "Call_sign row chain \<in> set (ly_calls (fst (late_run cfg (y, []) evs)))"
  shows "lr_tuple row = T (lr_id row) \<and> cr_ok chain \<and> cr_finalized chain = Some True \<and> cr_count chain = Some 1 \<and>
    (cr_network chain = [] \<or> sameNetwork (lc_arc cfg) (cr_network chain) (lu_network (lr_tuple row))) \<and>
    same_asset (lu_asset (lr_tuple row)) (cr_asset chain) \<and>
    samePayee (lc_addr cfg) (cr_payTo chain) (lu_payee (lr_tuple row)) \<and>
    (\<exists>a amount quote ts va vb sent. lu_auth (lr_tuple row) = Some a \<and>
       js_BigInt (JStr (cr_amount chain)) = Some amount \<and> js_BigInt (JStr (la_value a)) = Some amount \<and>
       js_BigInt (JStr (lu_quote (lr_tuple row))) = Some quote \<and> quote \<le> amount \<and>
       samePayee (lc_addr cfg) (cr_payer chain) (la_from a) \<and> samePayee (lc_addr cfg) (cr_authorizer chain) (la_from a) \<and>
       cr_time chain = Some ts \<and> la_after a = Some va \<and> la_before a = Some vb \<and> va < ts \<and> ts < vb \<and>
       lu_submitted (lr_tuple row) = Some sent \<and> (sent - LATE_SKEW_MS) div 1000 \<le> ts)"
proof -
  have "world_inv (sys_good cfg T {}) (wait_good cfg T) (y, [])"
    using assms(1,2) by (simp add: world_inv_def sys_good_def)
  then have "sys_good cfg T {} (fst (late_run cfg (y, []) evs))"
    using signing.run_inv [of cfg T "{}" "(y, [])" evs] assms(3) by (simp add: world_inv_def late_run_def)
  then have good: "call_good cfg T {} (Call_sign row chain)" using assms(4) by (auto simp: sys_good_def list_all_iff)
  then obtain now where "late_decision cfg row chain now = V_confirmed" by auto
  note d = decision_confirmed [OF this]
  note r = rebind_confirmed [OF d(1)]
  obtain a amount quote where m: "lu_auth (lr_tuple row) = Some a"
    "js_BigInt (JStr (cr_amount chain)) = Some amount" "js_BigInt (JStr (la_value a)) = Some amount"
    "js_BigInt (JStr (lu_quote (lr_tuple row))) = Some quote" "quote \<le> amount"
    by (rule amounts_agree [OF r(7)])
  obtain sent ts where e: "lu_submitted (lr_tuple row) = Some sent" "cr_time chain = Some ts"
    "(sent - LATE_SKEW_MS) div 1000 \<le> ts"
    "\<exists>va vb. auth_after row = Some va \<and> auth_before row = Some vb \<and> va < ts \<and> ts < vb"
    by (rule expiry_issues [OF d(2)])
  then obtain va vb where "la_after a = Some va" "la_before a = Some vb" "va < ts" "ts < vb"
    using m(1) by (auto simp: auth_after_def auth_before_def)
  with good r(1-6) m e(1-3) payer_agrees [OF r(8)] show ?thesis by (simp add: auth_from_def)
qed

text \<open>
  Property C19. A transfer that is marked spent is never signed for again: no resolver that starts
  later, whatever it reads from the chain, calls the signer with it, also when it is spelled
  differently, since transfers are compared by their normalized key.
\<close>

theorem spent_transfer_never_signed:
  assumes "tuples_ok T (ly_store y)" "ly_calls y = []" "list_all (event_allowed (opens_for T)) evs"
    and "tx \<noteq> []" "tx \<in> set (xs_txSpent (ly_x y))"
    and "Call_sign row chain \<in> set (ly_calls (fst (late_run cfg (y, []) evs)))"
  shows "tx_key cfg row (cr_tx chain) \<noteq> tx"
proof -
  have "world_inv (sys_good cfg T {tx}) (wait_good cfg T) (y, [])"
    using assms(1,2,4,5) by (simp add: world_inv_def sys_good_def)
  then have "sys_good cfg T {tx} (fst (late_run cfg (y, []) evs))"
    using signing.run_inv [of cfg T "{tx}" "(y, [])" evs] assms(3) by (simp add: world_inv_def late_run_def)
  then show ?thesis using assms(6) by (auto simp: sys_good_def list_all_iff)
qed

text \<open>
  A payment that was closed without a receipt stays closed: when a row is in
  \<open>mismatch_hold\<close>, \<open>expired_unresolved\<close> or \<open>not_settled\<close>, no interleaving of resolvers, of the
  settlement path and of pruning gives it another status or another signature, while its id is not
  opened again and no caller asks for a compare-and-set from a closed status.
\<close>

theorem closed_late_final:
  assumes "getLate i (ly_store y) = Some row" "lr_state row \<in> {Mismatch_hold, Expired_unresolved, Not_settled}"
    and "distinct (map lr_id (lt_rows (ly_store y)))" "list_all (event_allowed (leaves_closed i)) evs"
  shows "case getLate i (ly_store (fst (late_run cfg (y, []) evs))) of
      None \<Rightarrow> True
    | Some r \<Rightarrow> lr_state r = lr_state row \<and> lr_jws r = lr_jws row"
proof -
  have row: "row \<in> set (lt_rows (ly_store y))" "lr_id row = i"
    using assms(1) by (auto simp: getLate_def find_Some_iff)
  have "closed_late i (lr_state row) (lr_jws row) (ly_store y)"
    using assms(2,3) row by (auto simp: closed_late_def live_statuses_def dest!: inj_onD simp: distinct_map)
  then have "closed_late i (lr_state row) (lr_jws row) (ly_store (fst (late_run cfg (y, []) evs)))"
    by (rule late_closed.late_run_keeps [OF _ assms(4)])
  then show ?thesis by (auto simp: closed_late_def getLate_def find_Some_iff split: option.split)
qed


text \<open>A payment of 5 on Base, looked up and confirmed.\<close>

definition sample_cfg :: late_cfg where
  "sample_cfg = \<lparr>lc_arc = False, lc_addr = (\<lambda>t. Some (js_lower t)), lc_enabled = True, lc_shadow = False,
     lc_horizon = 86400000, lc_pid = ''7''\<rparr>"

definition sample_tuple :: late_tuple where
  "sample_tuple = \<lparr>lu_submitted = Some 1000000, lu_nonce = ''n'', lu_network = ''base'', lu_asset = ''usdc'', lu_payee = ''0xb'',
     lu_quote = ''5'', lu_expected = ''5'', lu_auth_key = ''k'',
     lu_auth = Some \<lparr>la_from = ''0xa'', la_value = ''5'', la_after = Some 0, la_before = Some 2000\<rparr>,
     lu_payment_hash = ''h'', lu_principal = ''p'', lu_idempotency = [], lu_task = ''t'', lu_challenge_issued = Some 900000\<rparr>"

definition sample_reading :: chain_reading where
  "sample_reading = \<lparr>cr_ok = True, cr_pending = False, cr_finalized = Some True, cr_network = ''base'', cr_asset = ''usdc'',
     cr_payTo = ''0xb'', cr_payer = ''0xa'', cr_authorizer = ''0xa'', cr_count = Some 1, cr_amount = ''5'', cr_time = Some 1001,
     cr_tx = ''0x'' @ example_tx, cr_unused = None, cr_scanned = []\<rparr>"

definition sample_final :: finality where
  "sample_final = \<lparr>fi_final = True, fi_time = Some 1001, fi_hash = ''0xf''\<rparr>"

definition sample_receipt :: tx_receipt where
  "sample_receipt = \<lparr>tr_status = 1, tr_hash = ''0xF'', tr_number = Some 9\<rparr>"

text \<open>One resolver's way from its start to the signer.\<close>

definition sample_way :: "string \<Rightarrow> int \<Rightarrow> nat \<Rightarrow> late_event list" where
  "sample_way owner now n = [E_resolve owner now ''i'', E_chain n (Some sample_reading) None [],
     E_guard n (Some sample_receipt) (Some sample_final) (Some sample_final) now]"

definition sample_world :: late_world where
  "sample_world = (\<lparr>ly_store = fst (openLateSubmission ''i'' ''d'' sample_tuple empty_late), ly_x = empty_x402 1000, ly_calls = []\<rparr>, [])"

lemma sample_key: "normalizePaymentRef False ''base'' (''0x'' @ example_tx) = Some (evm_ref ''base'' (''0x'' @ example_tx))"
proof -
  have "isEvmTxHash (with_0x (''0x'' @ example_tx))" using example_tx_hash evm_tx_trim by (simp add: isEvmTxHash_def with_0x_def)
  from normalize_evm [OF this, of False "''base''"] show ?thesis by (simp add: base_name base_not_solana with_0x_def)
qed


definition sample_tx_key :: string where
  "sample_tx_key = pr_key (evm_ref ''base'' (''0x'' @ example_tx))"

lemma sample_tuple_simps [simp]:
  "lu_network sample_tuple = ''base''" "lu_auth_key sample_tuple = ''k''" "lu_principal sample_tuple = ''p''" "lu_nonce sample_tuple = ''n''"
  "lu_submitted sample_tuple = Some 1000000" "sample_tuple\<lparr>lu_principal := ''p''\<rparr> = sample_tuple"
  by (simp_all add: sample_tuple_def)

lemma sample_reading_simps [simp]:
  "cr_tx sample_reading = ''0x'' @ example_tx" "cr_scanned sample_reading = []" "cr_amount sample_reading = ''5''"
  "sample_reading\<lparr>cr_tx := CHR ''0'' # CHR ''x'' # example_tx\<rparr> = sample_reading" "cr_payTo sample_reading = ''0xb''"
  by (simp_all add: sample_reading_def)

lemma sample_cfg_simps [simp]: "lc_arc sample_cfg = False" "lc_enabled sample_cfg" "\<not> lc_shadow sample_cfg" "lc_pid sample_cfg = ''7''"
  by (simp_all add: sample_cfg_def)

lemma sample_tx_key_of [simp]: "tx_key sample_cfg row (CHR ''0'' # CHR ''x'' # example_tx) = sample_tx_key" if "lr_tuple row = sample_tuple"
  using sample_key that by (simp add: tx_key_def sample_tx_key_def)

lemma sample_key_nonempty [simp]: "sample_tx_key \<noteq> []" by (simp add: sample_tx_key_def evm_ref_def)

lemma sample_guard [simp]: "reorgGuard (Some sample_receipt) (Some sample_final) (Some sample_final)" by code_simp

lemma sample_read [simp]: "readChain row (Some sample_reading) None [] = sample_reading"
  by (simp add: readChain_def or_text_def)

lemma sample_payee: "samePayee addr ''0xb'' ''0xb''" "samePayee addr ''0xa'' ''0xa''"
  by (simp_all add: samePayee_def)

lemma sample_network: "canonicalNetwork False ''base'' \<noteq> ''base-sepolia''" "sameNetwork False ''base'' ''base''" by code_simp+

lemma sample_amounts: "amounts_verdict (new_late_row [] [] sample_tuple) (sample_reading\<lparr>cr_tx := []\<rparr>) = None" by code_simp

lemma sample_expiry: "decideLateExpiry (new_late_row [] [] sample_tuple) (sample_reading\<lparr>cr_tx := []\<rparr>) 1010000 None 86400000 = V_issue"
 "decideLateExpiry (new_late_row [] [] sample_tuple) (sample_reading\<lparr>cr_tx := []\<rparr>) 1020000 None 86400000 = V_issue" by code_simp+

lemma sample_asset: "same_asset ''usdc'' ''usdc''" by code_simp

lemma sample_rebind: "rebind sample_cfg (new_late_row [] [] sample_tuple) (sample_reading\<lparr>cr_tx := []\<rparr>) = V_confirmed"
proof -
  have "payer_verdict (lc_addr sample_cfg) (new_late_row [] [] sample_tuple) (sample_reading\<lparr>cr_tx := []\<rparr>) = V_confirmed"
    using sample_payee by (simp add: payer_verdict_def auth_from_def sample_tuple_def sample_reading_def)
  with sample_amounts sample_asset sample_network sample_payee show ?thesis
   unfolding rebind_def by (simp add: or_text_def) (simp add: sample_tuple_def sample_reading_def)
qed

lemma sample_decision:
  assumes "lr_tuple row = sample_tuple" "now \<in> {1010000, 1020000}"
  shows "late_decision sample_cfg row sample_reading now = V_confirmed"
proof -
  have "late_decision sample_cfg row sample_reading now =
     late_decision sample_cfg (new_late_row [] [] sample_tuple) (sample_reading\<lparr>cr_tx := []\<rparr>) now"
    using decision_cong [of row "new_late_row [] [] sample_tuple" sample_cfg "''0x'' @ example_tx" "sample_reading\<lparr>cr_tx := []\<rparr>" now] assms(1)
    by (simp add: sample_reading_def)
  also have "\<dots> = V_confirmed" using sample_expiry assms(2) unfolding late_decision_def Let_def sample_rebind
   by (auto simp add: sample_cfg_def sample_reading_def)
  finally show ?thesis .
qed

lemmas late_evaluate = late_run_def answer_def go_on_def drop_nth_def resolve_start_def look_up_def after_chain_def judge_row_def held_status_def confirm_row_def
  after_guard_def issue_won_def publish_start_def sys_get_def sys_cas_def sys_call_def getLate_def casLate_def Let_def late_terminal_def
  scan_patch_def sample_decision or_text_def

abbreviation one_row :: "late_row \<Rightarrow> late_ledger_row list \<Rightarrow> x402 \<Rightarrow> late_call list \<Rightarrow> late_sys" where
  "one_row r l x calls \<equiv> \<lparr>ly_store = \<lparr>lt_rows = [r], lt_ledger = l, lt_holds = []\<rparr>, ly_x = x, ly_calls = calls\<rparr>"

definition sample_row :: late_row where
  "sample_row = new_late_row ''i'' ''d'' sample_tuple"

lemma sample_world_row: "sample_world = (one_row sample_row [] (empty_x402 1000) [], [])"
  by (simp add: sample_world_def openLateSubmission_def putLate_def empty_late_def new_late_row_def sample_row_def)

definition sample_x1 :: x402 where
  "sample_x1 = fst (ch_reserveTx (empty_x402 1000) sample_tx_key ''k'' (reserve_owner sample_cfg ''i'') 180000 1010000)"

definition sample_x2 :: x402 where
  "sample_x2 = fst (ch_reserveTx sample_x1 sample_tx_key ''k'' (reserve_owner sample_cfg ''i'') 180000 1020000)"

lemmas reserve_evaluate = ch_reserveTx_def ch_isTxSpent_def empty_x402_def auth_blocked_def tx_blocked_def ch_isAuthSpent_def reserve_owner_def jsmap_simps jm_has_def Let_def

lemma reserve1 [simp]: "ch_reserveTx (empty_x402 1000) sample_tx_key ''k'' (reserve_owner sample_cfg ''i'') 180000 1010000 = (sample_x1, True)"
  by (simp add: reserve_evaluate sample_x1_def)

lemma reserve2 [simp]: "ch_reserveTx sample_x1 sample_tx_key ''k'' (reserve_owner sample_cfg ''i'') 180000 1020000 = (sample_x2, True)"
  by (simp add: reserve_evaluate sample_x1_def sample_x2_def)

definition sample_row1 :: late_row where
  "sample_row1 = sample_row\<lparr>lr_state := Issuing, lr_tx_hint := ''0x'' @ example_tx, lr_tx_ref := sample_tx_key, lr_why := ''confirmed'', lr_confirmed := 1010000,
   lr_owner := ''o'', lr_seq := 1, lr_until := 1070000\<rparr>"

definition sample_row2 :: late_row where
  "sample_row2 = sample_row1\<lparr>lr_seq := 2, lr_until := 1080000\<rparr>"

abbreviation "sample_held \<equiv> Some (sample_tx_key, ''k'', reserve_owner sample_cfg ''i'')"

definition takeover_to_issued :: "late_event list" where
  "takeover_to_issued = sample_way ''o'' 1010000 0 @ sample_way ''o'' 1020000 1 @
     [E_sign 0 (Some ''A''), E_sign 0 (Some ''B'')] @ [E_ledger 0 True, E_leaf 1 True]"

lemma takeover_step1:
  assumes "ch_reserveTx x sample_tx_key ''k'' (reserve_owner sample_cfg ''i'') 180000 1010000 = (x', True)"
  shows "foldl (late_do sample_cfg) (one_row sample_row [] x [], []) (sample_way ''o'' 1010000 0) =
    (one_row sample_row1 [] x' [Call_sign sample_row1 sample_reading], [(''o'', At_sign sample_row1 ''late-i'' sample_reading sample_held)])"
  using assms by (simp add: sample_way_def late_evaluate sample_row_def sample_row1_def new_late_row_def receipt_id_of_def)

lemma takeover_step2: "foldl (late_do sample_cfg) (one_row sample_row1 [] sample_x1 [Call_sign sample_row1 sample_reading], [(''o'', At_sign sample_row1 ''late-i'' sample_reading sample_held)]) (sample_way ''o'' 1020000 1)
   = (one_row sample_row2 [] sample_x2 [Call_sign sample_row1 sample_reading, Call_sign sample_row2 sample_reading], [(''o'', At_sign sample_row1 ''late-i'' sample_reading sample_held), (''o'', At_sign sample_row2 ''late-i'' sample_reading sample_held)])"
  by (simp add: sample_way_def late_evaluate sample_row_def sample_row1_def sample_row2_def new_late_row_def receipt_id_of_def)

definition sample_rowA :: late_row where
  "sample_rowA = sample_row2\<lparr>lr_jws := ''A''\<rparr>"

definition sample_recA :: late_receipt where
  "sample_recA = publicLateReceipt sample_cfg sample_rowA sample_reading ''A''"

definition sample_rowB :: late_row where
  "sample_rowB = sample_rowA\<lparr>lr_receipt := Some sample_recA, lr_jws := ''B''\<rparr>"

definition sample_recB :: late_receipt where
  "sample_recB = publicLateReceipt sample_cfg sample_rowB sample_reading ''B''"

definition sample_rowC :: late_row where
  "sample_rowC = sample_rowB\<lparr>lr_receipt := Some sample_recB\<rparr>"

lemmas sample_rows = sample_rowA_def sample_rowB_def sample_rowC_def sample_row1_def sample_row2_def sample_row_def new_late_row_def

lemma sample_key_colon [simp]: "CHR '':'' \<in> set sample_tx_key" by (simp add: sample_tx_key_def evm_ref_def)

lemma public_receipt_id [simp]: "rc_id (publicLateReceipt cfg row c j) = receipt_id_of row" by (simp add: publicLateReceipt_def)

lemma takeover_step3: "foldl (late_do sample_cfg) (one_row sample_row2 [] sample_x2 calls, [(''o'', At_sign sample_row1 ''late-i'' sample_reading sample_held), (''o'', At_sign sample_row2 ''late-i'' sample_reading sample_held)])
   [E_sign 0 (Some ''A''), E_sign 0 (Some ''B'')] =
   (one_row sample_rowC [] sample_x2 (calls @ [Call_ledger sample_recA, Call_ledger sample_recB]),
     [(''o'', At_ledger sample_rowA sample_reading sample_held), (''o'', At_ledger sample_rowB sample_reading sample_held)])"
  by (simp add: late_evaluate after_sign_def sample_rows receipt_id_of_def sample_recA_def sample_recB_def)

lemma takeover_step4: "\<exists>x l. foldl (late_do sample_cfg) (one_row sample_rowC [] sample_x2 calls,
     [(''o'', At_ledger sample_rowA sample_reading sample_held), (''o'', At_ledger sample_rowB sample_reading sample_held)])
   [E_ledger 0 True, E_leaf 1 True] =
   (one_row (sample_rowC\<lparr>lr_state := Issued, lr_logged := True, lr_ledger := True\<rparr>) l x (calls @ [Call_leaf ''late-i'' (jws_digest ''A'')]),
     [(''o'', At_ledger sample_rowB sample_reading sample_held)])"
  by (simp add: late_evaluate after_ledger_def publish_leaf_def after_leaf_def ledgerRef_def appendLateLedger_def sample_rows receipt_id_of_def give_back_def)

lemma takeover_step5: "\<exists>l'. late_do sample_cfg (one_row (sample_rowC\<lparr>lr_state := Issued, lr_logged := True, lr_ledger := True\<rparr>) l x calls,
     [(''o'', At_ledger sample_rowB sample_reading sample_held)]) (E_ledger 0 True)
   =
   (one_row (sample_rowC\<lparr>lr_state := Issuing, lr_logged := True, lr_ledger := True\<rparr>) l' x (calls @ [Call_leaf ''late-i'' (jws_digest ''B'')]),
     [(''o'', At_leaf sample_rowB sample_reading sample_held)])"
  by (simp add: late_evaluate after_ledger_def publish_leaf_def  ledgerRef_def appendLateLedger_def sample_rows receipt_id_of_def give_back_def split: option.split)

theorem late_sign_paid_witness:
  "Call_sign sample_row1 sample_reading \<in> set (ly_calls (fst (late_run sample_cfg sample_world (sample_way ''o'' 1010000 0)))) \<and>
   (\<exists>amount quote. js_BigInt (JStr (cr_amount sample_reading)) = Some amount \<and>
      js_BigInt (JStr (lu_quote (lr_tuple sample_row1))) = Some quote \<and> quote \<le> amount)"
proof -
  let ?y = "one_row sample_row [] (empty_x402 1000) []"
  have c: "Call_sign sample_row1 sample_reading \<in> set (ly_calls (fst (late_run sample_cfg (?y, []) (sample_way ''o'' 1010000 0))))"
    using takeover_step1 [OF reserve1] by (simp add: late_run_def)
  have "tuples_ok (\<lambda>i. sample_tuple) (ly_store ?y)" "ly_calls ?y = []"
    "list_all (event_allowed (opens_for (\<lambda>i. sample_tuple))) (sample_way ''o'' 1010000 0)"
    by (simp_all add: tuples_ok_def sample_row_def sample_way_def)
  from late_sign_paid [OF this c] c show ?thesis unfolding sample_world_row by blast
qed

theorem spent_transfer_never_signed_witness:
  "let y = one_row sample_row [] ((empty_x402 1000)\<lparr>xs_txSpent := [''base:0xff'']\<rparr>) []
   in Call_sign sample_row1 sample_reading \<in> set (ly_calls (fst (late_run sample_cfg (y, []) (sample_way ''o'' 1010000 0)))) \<and>
      tx_key sample_cfg sample_row1 (cr_tx sample_reading) \<noteq> ''base:0xff''"
proof -
  let ?x = "(empty_x402 1000)\<lparr>xs_txSpent := [''base:0xff'']\<rparr>"
  let ?y = "one_row sample_row [] ?x []"
  have "length sample_tx_key \<noteq> length ''base:0xff''" by (simp add: sample_tx_key_def evm_ref_def example_tx_def js_lower_def)
  then have "sample_tx_key \<noteq> ''base:0xff''" by metis
  then have "snd (ch_reserveTx ?x sample_tx_key ''k'' (reserve_owner sample_cfg ''i'') 180000 1010000)"
    by (simp add: reserve_evaluate)
  then obtain x' where "ch_reserveTx ?x sample_tx_key ''k'' (reserve_owner sample_cfg ''i'') 180000 1010000 = (x', True)"
    by (metis prod.collapse)
  from takeover_step1 [OF this]
  have c: "Call_sign sample_row1 sample_reading \<in> set (ly_calls (fst (late_run sample_cfg (?y, []) (sample_way ''o'' 1010000 0))))"
    by (simp add: late_run_def)
  have "tx_key sample_cfg sample_row1 (cr_tx sample_reading) \<noteq> ''base:0xff''"
    by (rule spent_transfer_never_signed [OF _ _ _ _ _ c, where T = "\<lambda>i. sample_tuple"])
       (simp_all add: tuples_ok_def sample_row_def sample_way_def)
  with c show ?thesis by (simp add: Let_def)
qed

theorem closed_late_final_witness:
  "case getLate ''i'' (ly_store (fst (late_run sample_cfg (one_row (sample_row\<lparr>lr_state := Mismatch_hold\<rparr>) [] (empty_x402 1000) [], [])
      (sample_way ''o'' 1010000 0 @ [E_rows (LInline ''i'' ''base:0xff'')])))) of
     None \<Rightarrow> True
   | Some r \<Rightarrow> lr_state r = Mismatch_hold \<and> lr_jws r = []"
proof -
  let ?r = "sample_row\<lparr>lr_state := Mismatch_hold\<rparr>"
  have e: "lr_state ?r = Mismatch_hold" "lr_jws ?r = []" "lr_id ?r = ''i''" by (simp_all add: sample_row_def new_late_row_def)
  have "case getLate ''i'' (ly_store (fst (late_run sample_cfg (one_row ?r [] (empty_x402 1000) [], [])
      (sample_way ''o'' 1010000 0 @ [E_rows (LInline ''i'' ''base:0xff'')])))) of
     None \<Rightarrow> True
   | Some r \<Rightarrow> lr_state r = lr_state ?r \<and> lr_jws r = lr_jws ?r"
    by (rule closed_late_final) (use e in \<open>simp_all add: getLate_def sample_way_def\<close>)
  then show ?thesis unfolding e .
qed

text \<open>
  The lease of a row is compared by its owner's name only, and a retry's name is its task's. Two
  retries of one task therefore both pass to the signer, the second over the first. The first then
  publishes the signature it got and the row is issued; the second, still holding the copy it read
  while the row was issuing, sets the row back to issuing and publishes another signature for the
  same payment.
\<close>

theorem issued_row_reopened:
  "\<exists>w. w = late_run sample_cfg sample_world (takeover_to_issued) \<and>
     map lr_state (lt_rows (ly_store (fst w))) = [Issued] \<and>
     Call_leaf ''late-i'' (jws_digest ''A'') \<in> set (ly_calls (fst w)) \<and>
     map lr_state (lt_rows (ly_store (fst (late_do sample_cfg w (E_ledger 0 True))))) = [Issuing] \<and>
     Call_leaf ''late-i'' (jws_digest ''B'') \<in> set (ly_calls (fst (late_do sample_cfg w (E_ledger 0 True))))"
proof -
  let ?calls = "[Call_sign sample_row1 sample_reading, Call_sign sample_row2 sample_reading] @ [Call_ledger sample_recA, Call_ledger sample_recB]"
  from takeover_step4 [of ?calls] obtain x l where s4: "foldl (late_do sample_cfg) (one_row sample_rowC [] sample_x2 ?calls,
       [(''o'', At_ledger sample_rowA sample_reading sample_held), (''o'', At_ledger sample_rowB sample_reading sample_held)])
     [E_ledger 0 True, E_leaf 1 True] =
    (one_row (sample_rowC\<lparr>lr_state := Issued, lr_logged := True, lr_ledger := True\<rparr>) l x
      (?calls @ [Call_leaf ''late-i'' (jws_digest ''A'')]), [(''o'', At_ledger sample_rowB sample_reading sample_held)])"
    by blast
  have "late_run sample_cfg sample_world takeover_to_issued =
    (one_row (sample_rowC\<lparr>lr_state := Issued, lr_logged := True, lr_ledger := True\<rparr>) l x
      (?calls @ [Call_leaf ''late-i'' (jws_digest ''A'')]), [(''o'', At_ledger sample_rowB sample_reading sample_held)])"
    by (simp only: late_run_def takeover_to_issued_def sample_world_row foldl_append takeover_step1 [OF reserve1]
        takeover_step2 takeover_step3 s4)
  moreover obtain l' where "late_do sample_cfg
      (one_row (sample_rowC\<lparr>lr_state := Issued, lr_logged := True, lr_ledger := True\<rparr>) l x
         (?calls @ [Call_leaf ''late-i'' (jws_digest ''A'')]), [(''o'', At_ledger sample_rowB sample_reading sample_held)]) (E_ledger 0 True) =
    (one_row (sample_rowC\<lparr>lr_state := Issuing, lr_logged := True, lr_ledger := True\<rparr>) l' x
      ((?calls @ [Call_leaf ''late-i'' (jws_digest ''A'')]) @ [Call_leaf ''late-i'' (jws_digest ''B'')]),
     [(''o'', At_leaf sample_rowB sample_reading sample_held)])"
    using takeover_step5 by blast
  ultimately show ?thesis by simp
qed

section \<open>A resolver left alone\<close>

text \<open>The system with the row of id \<open>i\<close> replaced.\<close>

definition with_row :: "string \<Rightarrow> late_row \<Rightarrow> late_sys \<Rightarrow> late_sys" where
  "with_row i r y = y\<lparr>ly_store := (ly_store y)\<lparr>lt_rows := update_first (\<lambda>q. lr_id q = i) (\<lambda>_. r) (lt_rows (ly_store y))\<rparr>\<rparr>"

lemma update_twice: "P x \<Longrightarrow> update_first P (\<lambda>_. z) (update_first P (\<lambda>_. x) xs) = update_first P (\<lambda>_. z) xs"
  by (induction xs) auto

lemma find_updated: "P x \<Longrightarrow> find P xs \<noteq> None \<Longrightarrow> find P (update_first P (\<lambda>_. x) xs) = Some x"
  by (induction xs) auto

lemma without_updated: "P x \<Longrightarrow> without_first P (update_first P (\<lambda>_. x) xs) = without_first P xs"
  by (induction xs) auto

lemma with_row_simps [simp]:
  "lr_id r = i \<Longrightarrow> sys_get i y \<noteq> None \<Longrightarrow> sys_get i (with_row i r y) = Some r"
  "lr_id r = i \<Longrightarrow> with_row i r' (with_row i r y) = with_row i r' y"
  "ly_x (with_row i r y) = ly_x y" "ly_calls (with_row i r y) = ly_calls y"
  "sys_call c (with_row i r y) = with_row i r (sys_call c y)"
  "(with_row i r y)\<lparr>ly_x := x\<rparr> = with_row i r (y\<lparr>ly_x := x\<rparr>)" "y\<lparr>ly_store := ly_store (with_row i r y)\<rparr> = with_row i r y"
  "sys_get i (sys_call c y) = sys_get i y" "sys_get i (y\<lparr>ly_x := x\<rparr>) = sys_get i y"
  by (simp_all add: with_row_def sys_get_def getLate_def find_updated update_twice sys_call_def)

text \<open>No other row has the transfer.\<close>

definition tx_free :: "string \<Rightarrow> string \<Rightarrow> late_sys \<Rightarrow> bool" where
  "tx_free i tx y \<longleftrightarrow> \<not> list_ex (\<lambda>q. lr_tx_ref q = tx) (without_first (\<lambda>q. lr_id q = i) (lt_rows (ly_store y)))"

lemma tx_free_with_row [simp]: "lr_id r = i \<Longrightarrow> tx_free i tx (with_row i r y) = tx_free i tx y"
  "tx_free i tx (y\<lparr>ly_x := x\<rparr>) = tx_free i tx y"
  by (simp_all add: tx_free_def with_row_def without_updated)

lemma cas_row:
  assumes "sys_get i y = Some r" "lr_state r \<in> set sts" "patch_tx_ref ps = [] \<or> tx_free i (patch_tx_ref ps) y"
  shows "casLate i sts to ps (ly_store y) = (ly_store (with_row i ((foldl assign r ps)\<lparr>lr_state := to\<rparr>) y),
           Some ((foldl assign r ps)\<lparr>lr_state := to\<rparr>))"
    "sys_cas i sts to ps y = with_row i ((foldl assign r ps)\<lparr>lr_state := to\<rparr>) y"
  using assms by (auto simp: sys_cas_def casLate_def sys_get_def with_row_def tx_free_def Let_def)

text \<open>A row for which nothing was done yet.\<close>

definition untouched :: "string \<Rightarrow> late_tuple \<Rightarrow> string \<Rightarrow> late_status \<Rightarrow> late_row \<Rightarrow> bool" where
  "untouched i tu hint st r \<longleftrightarrow> lr_id r = i \<and> lr_tuple r = tu \<and> lr_tx_hint r = hint \<and> lr_state r = st \<and> lr_jws r = [] \<and>
     \<not> lr_ledger r \<and> \<not> lr_logged r"

lemma alone_look_up:
  assumes "sys_get i y = Some r" "untouched i tu hint Unknown r"
  shows "resolve_start cfg owner now i y = (Ask (At_chain r now), y)"
  using assms by (simp add: resolve_start_def look_up_def untouched_def late_terminal_def)

lemma alone_chain:
  assumes r: "sys_get i y = Some r" "untouched i tu hint Unknown r"
    and d: "late_decision cfg r c now = V_confirmed" and e: "lc_enabled cfg" "\<not> lc_shadow cfg"
  shows "\<exists>r'. after_chain cfg c r now y = (Ask (At_guard r' c now), with_row i r' y) \<and>
           untouched i tu (or_text (cr_tx c) hint) Confirmed r'"
proof -
  let ?r1 = "foldl assign r (scan_patch r c)"
  have r1: "lr_id ?r1 = i" "lr_tuple ?r1 = tu" "lr_state ?r1 = Unknown" "lr_jws ?r1 = []" "\<not> lr_ledger ?r1" "\<not> lr_logged ?r1"
    "or_text (cr_tx c) (lr_tx_hint ?r1) = or_text (cr_tx c) hint" "patch_tx_ref (scan_patch r c) = []"
    using r(2) by (auto simp: scan_patch_def untouched_def or_text_def)
  have st: "?r1\<lparr>lr_state := Unknown\<rparr> = ?r1" using r1(3) by simp
  have d1: "late_decision cfg ?r1 c now = V_confirmed"
    using d decision_cong [of ?r1 r cfg "cr_tx c" c now] r1(2) r(2) by (simp add: untouched_def)
  have j: "judge_row cfg q c now z = (Ask (At_guard (q\<lparr>lr_why := ''confirmed'', lr_confirmed := now,
        lr_tx_hint := or_text (cr_tx c) (lr_tx_hint q), lr_state := Confirmed\<rparr>) c now),
      with_row i (q\<lparr>lr_why := ''confirmed'', lr_confirmed := now,
        lr_tx_hint := or_text (cr_tx c) (lr_tx_hint q), lr_state := Confirmed\<rparr>) z)"
    if "sys_get i z = Some q" "lr_id q = i" "lr_state q = Unknown" "late_decision cfg q c now = V_confirmed" for q z
    using that e by (simp add: judge_row_def held_status_def confirm_row_def cas_row Let_def)
  show ?thesis
  proof (cases "scan_patch r c = []")
    case True
    with r r1 d have "after_chain cfg c r now y = judge_row cfg ?r1 c now y" by (simp add: after_chain_def)
    with j [of y ?r1] r True r1 d1 show ?thesis by (simp add: untouched_def)
  next
    case False
    have "sys_cas i [Unknown] Unknown (scan_patch r c) y = with_row i ?r1 y"
      using cas_row(2) [OF r(1), of "[Unknown]" "scan_patch r c" Unknown] r(2) r1(8) st by (simp add: untouched_def)
    with False r r1 d have "after_chain cfg c r now y = judge_row cfg ?r1 c now (with_row i ?r1 y)"
      by (simp add: after_chain_def untouched_def)
    with j [of "with_row i ?r1 y" ?r1] r r1 d1 show ?thesis by (simp add: untouched_def)
  qed
qed

lemma receipt_id_nonempty [simp]: "receipt_id_of r \<noteq> []"
  by (simp add: receipt_id_of_def or_text_def)

lemma alone_guard:
  assumes r: "sys_get i y = Some r" "untouched i tu hint Confirmed r" and tx: "or_text (cr_tx c) hint = hint"
    and k: "tx_key cfg r hint = tx" "tx \<noteq> []" "tx_free i tx y"
    and l: "ch_reserveTx (ly_x y) tx (lu_auth_key tu) (reserve_owner cfg i) 180000 clock = (x', True)"
  shows "\<exists>r'. after_guard cfg owner True clock r c now y =
      (Ask (At_sign r' (lr_receipt_id r') (c\<lparr>cr_tx := hint\<rparr>) (Some (tx, lu_auth_key tu, reserve_owner cfg i))),
       with_row i r' (sys_call (Call_sign r' (c\<lparr>cr_tx := hint\<rparr>)) (y\<lparr>ly_x := x'\<rparr>))) \<and>
     untouched i tu hint Issuing r' \<and> lr_tx_ref r' = tx"
proof -
  let ?c = "c\<lparr>cr_tx := hint\<rparr>" and ?l = "Some (tx, lu_auth_key tu, reserve_owner cfg i)"
  have p: "\<exists>r'. publish_start cfg i ?c ?l (with_row i q (y\<lparr>ly_x := x'\<rparr>)) =
      (Ask (At_sign r' (lr_receipt_id r') ?c ?l), with_row i r' (sys_call (Call_sign r' ?c) (y\<lparr>ly_x := x'\<rparr>))) \<and>
      untouched i tu hint Issuing r' \<and> lr_tx_ref r' = tx"
    if "untouched i tu hint Issuing q" "lr_tx_ref q = tx" for q
    using that r by (simp add: publish_start_def untouched_def cas_row Let_def)
  let ?q = "r\<lparr>lr_owner := owner, lr_seq := lr_seq r + 1, lr_until := now + 60000, lr_served := False, lr_state := Issuing\<rparr>"
  let ?q2 = "r\<lparr>lr_owner := owner, lr_seq := lr_seq r + 1, lr_until := now + 60000, lr_served := False,
    lr_tx_ref := tx, lr_tx_hint := hint, lr_state := Issuing\<rparr>"
  have q: "sys_get i (with_row i ?q y) = Some ?q" "lr_id ?q = i" "lr_state ?q = Issuing" using r by (simp_all add: untouched_def)
  have "tx_key cfg ?q hint = tx_key cfg r hint" unfolding tx_key_def by simp
  with k(1) have "tx_key cfg ?q hint = tx" by simp
  then have w: "issue_won cfg r c clock (with_row i ?q y) =
     publish_start cfg i ?c ?l (with_row i ?q2 (y\<lparr>ly_x := x'\<rparr>))"
    using r tx k l q by (simp add: issue_won_def untouched_def cas_row Let_def)
  have "after_guard cfg owner True clock r c now y = issue_won cfg r c clock (with_row i ?q y)"
    using r by (simp add: after_guard_def untouched_def cas_row)
  with w p [of ?q2] r(2) show ?thesis by (simp add: untouched_def)
qed

text \<open>The row of a signed receipt before it is published.\<close>

definition signed_row :: "string \<Rightarrow> late_tuple \<Rightarrow> string \<Rightarrow> string \<Rightarrow> late_row \<Rightarrow> bool" where
  "signed_row i tu tx jws r \<longleftrightarrow> lr_id r = i \<and> lr_tuple r = tu \<and> lr_tx_ref r = tx \<and> lr_jws r = jws \<and> lr_state r = Issuing \<and>
     \<not> lr_logged r"

lemma alone_sign:
  assumes r: "sys_get i y = Some r" "untouched i tu hint Issuing r" "lr_tx_ref r = tx" and j: "jws \<noteq> []"
  shows "\<exists>r' rc y'. after_sign cfg (Some jws) r rid c l y = (Ask (At_ledger r' c l), y') \<and> sys_get i y' \<noteq> None \<and>
     (\<forall>q. sys_get i y' = Some q \<longrightarrow> signed_row i tu tx jws q) \<and> ly_x y' = ly_x y \<and> ly_calls y' = ly_calls y @ [Call_ledger rc] \<and>
     signed_row i tu tx jws r' \<and> lr_receipt_id r' = rid"
  using assms by (simp add: after_sign_def publish_start_def untouched_def signed_row_def cas_row Let_def)

lemma sys_get_ledger [simp]: "sys_get i (y\<lparr>ly_store := fst (appendLateLedger row (ly_store y))\<rparr>) = sys_get i y"
  by (simp add: sys_get_def getLate_def)

lemma alone_ledger:
  assumes r: "sys_get i y = Some q" "signed_row i tu tx jws q" "signed_row i tu tx jws r" and tx: "CHR '':'' \<in> set tx"
  shows "\<exists>y'. after_ledger cfg True r c l y = (Ask (At_leaf r c l), y') \<and>
     (\<exists>q'. sys_get i y' = Some q' \<and> signed_row i tu tx jws q') \<and> ly_x y' = ly_x y \<and>
     ly_calls y' = ly_calls y @ [Call_leaf (lr_receipt_id r) (jws_digest jws)]"
  using assms by (simp add: after_ledger_def publish_leaf_def signed_row_def cas_row Let_def)

lemma alone_leaf:
  assumes r: "sys_get i y = Some q" "signed_row i tu tx jws q" "signed_row i tu tx jws r" and tx: "CHR '':'' \<in> set tx"
  shows "\<exists>y'. after_leaf cfg True r c l y = (Done (R_issued jws), y') \<and>
     (\<exists>q'. sys_get i y' = Some q' \<and> lr_state q' = Issued \<and> lr_jws q' = jws \<and> lr_logged q') \<and>
     ch_isTxSpent (ly_x y') tx \<and> ly_calls y' = ly_calls y"
proof -
  have t: "tx \<noteq> []" "ledgerRef cfg r c = tx" using tx r(3) by (auto simp: ledgerRef_def signed_row_def)
  have "tx \<in> set (xs_txSpent (mark_issued cfg r c x))" for x
    using t by (simp add: mark_issued_def Let_def ch_markTxSpent_def)
  moreover have "sys_get i (give_back l z) = sys_get i z" for z by (simp add: sys_get_def)
  ultimately show ?thesis using assms t(1)
    by (simp add: after_leaf_def signed_row_def cas_row Let_def ch_isTxSpent_def)
qed


lemma key_colon: "tx_key cfg row t \<noteq> [] \<Longrightarrow> CHR '':'' \<in> set (tx_key cfg row t)"
  by (auto simp: tx_key_def normalizePaymentRef_def Let_def split: if_splits option.splits)

lemma answer_first: "f owner t = Some g \<Longrightarrow> answer 0 f (y, [(owner, t)]) = go_on owner [] (g y)"
  by (simp add: answer_def drop_nth_def)

lemma go_on_ask: "go_on owner [] (Ask t, y) = (y, [(owner, t)])"
  by (simp add: go_on_def)

text \<open>
  Property C30. A settled payment whose answer was lost gets its receipt: when a row is unknown, the
  chain shows its payment, no other row has the transfer and its lease can be had, then a resolver
  that is not disturbed, whose second look at the chain agrees and whose signer, ledger and log
  answer, leaves the row issued with the signature and the transfer spent. It calls the signer, the
  ledger and the log once each.
\<close>

theorem late_receipt_issued:
  assumes row: "getLate i (ly_store y) = Some row" "lr_state row = Unknown" "lr_jws row = []" "\<not> lr_ledger row" "\<not> lr_logged row"
    and chain: "late_decision cfg row (readChain row first second scanned) now = V_confirmed" "reorgGuard receipt fin again"
    and conf: "lc_enabled cfg" "\<not> lc_shadow cfg"
    and tx: "tx = tx_key cfg row (or_text (cr_tx (readChain row first second scanned)) (lr_tx_hint row))" "tx \<noteq> []" "tx_free i tx y"
    and lease: "snd (ch_reserveTx (ly_x y) tx (lr_auth_key row) (reserve_owner cfg i) 180000 clock)"
    and jws: "jws \<noteq> []"
  shows "\<exists>r cur c receipt' w. fst (late_run cfg (y, []) [E_resolve owner now i, E_chain 0 first second scanned,
        E_guard 0 receipt fin again clock, E_sign 0 (Some jws), E_ledger 0 True, E_leaf 0 True]) = w \<and>
     getLate i (ly_store w) = Some r \<and> lr_state r = Issued \<and> lr_jws r = jws \<and> lr_logged r \<and> ch_isTxSpent (ly_x w) tx \<and>
     ly_calls w = ly_calls y @ [Call_sign cur c, Call_ledger receipt', Call_leaf (lr_receipt_id cur) (jws_digest jws)]"
proof -
  let ?c = "readChain row first second scanned" and ?tu = "lr_tuple row"
  let ?h = "or_text (cr_tx ?c) (lr_tx_hint row)"
  have get: "sys_get i y = Some row" and id: "lr_id row = i" using row(1) getLate_id by (auto simp: sys_get_def)
  have u: "untouched i ?tu (lr_tx_hint row) Unknown row" using row id by (simp add: untouched_def)
  obtain r1 where r1: "after_chain cfg ?c row now y = (Ask (At_guard r1 ?c now), with_row i r1 y)" "untouched i ?tu ?h Confirmed r1"
    using alone_chain [OF get u chain(1) conf] by blast
  let ?y1 = "with_row i r1 y"
  obtain x' where x': "ch_reserveTx (ly_x ?y1) tx (lu_auth_key ?tu) (reserve_owner cfg i) 180000 clock = (x', True)"
    using lease by (cases "ch_reserveTx (ly_x y) tx (lu_auth_key ?tu) (reserve_owner cfg i) 180000 clock") simp
  have g1: "sys_get i ?y1 = Some r1" "tx_free i tx ?y1" using r1(2) get tx(3) by (simp_all add: untouched_def)
  have k1: "tx_key cfg r1 ?h = tx" using r1(2) tx(1) by (simp add: tx_key_def untouched_def)
  have h: "or_text (cr_tx ?c) ?h = ?h" by (simp add: or_text_def)
  let ?c2 = "?c\<lparr>cr_tx := ?h\<rparr>" and ?l = "Some (tx, lu_auth_key ?tu, reserve_owner cfg i)"
  obtain r2 where r2: "after_guard cfg owner True clock r1 ?c now ?y1 =
      (Ask (At_sign r2 (lr_receipt_id r2) ?c2 ?l), with_row i r2 (sys_call (Call_sign r2 ?c2) (?y1\<lparr>ly_x := x'\<rparr>)))"
    "untouched i ?tu ?h Issuing r2" "lr_tx_ref r2 = tx"
    using alone_guard [OF g1(1) r1(2) h k1 tx(2) g1(2) x', of owner now] by blast
  let ?y2 = "with_row i r2 (sys_call (Call_sign r2 ?c2) (?y1\<lparr>ly_x := x'\<rparr>))"
  have g2: "sys_get i ?y2 = Some r2" using r2(2) r1(2) get by (simp add: untouched_def)
  obtain r3 rc y3 where r3: "after_sign cfg (Some jws) r2 (lr_receipt_id r2) ?c2 ?l ?y2 = (Ask (At_ledger r3 ?c2 ?l), y3)"
    "sys_get i y3 \<noteq> None" "\<forall>q. sys_get i y3 = Some q \<longrightarrow> signed_row i ?tu tx jws q" "ly_calls y3 = ly_calls ?y2 @ [Call_ledger rc]"
    "signed_row i ?tu tx jws r3" "lr_receipt_id r3 = lr_receipt_id r2"
    using alone_sign [OF g2 r2(2,3) jws] by blast
  from r3(2,3) obtain q3 where q3: "sys_get i y3 = Some q3" "signed_row i ?tu tx jws q3" by blast
  have colon: "CHR '':'' \<in> set tx" using key_colon tx(1,2) by metis
  obtain y4 q4 where y4: "after_ledger cfg True r3 ?c2 ?l y3 = (Ask (At_leaf r3 ?c2 ?l), y4)" "sys_get i y4 = Some q4"
    "signed_row i ?tu tx jws q4" "ly_calls y4 = ly_calls y3 @ [Call_leaf (lr_receipt_id r3) (jws_digest jws)]"
    using alone_ledger [OF q3 r3(5) colon] by blast
  obtain y5 q5 where y5: "after_leaf cfg True r3 ?c2 ?l y4 = (Done (R_issued jws), y5)" "sys_get i y5 = Some q5"
    "lr_state q5 = Issued" "lr_jws q5 = jws" "lr_logged q5" "ch_isTxSpent (ly_x y5) tx" "ly_calls y5 = ly_calls y4"
    using alone_leaf [OF y4(2,3) r3(5) colon] by blast
  have "fst (late_run cfg (y, []) [E_resolve owner now i, E_chain 0 first second scanned,
        E_guard 0 receipt fin again clock, E_sign 0 (Some jws), E_ledger 0 True, E_leaf 0 True]) = y5"
    using alone_look_up [OF get u, of cfg owner now] r1(1) r2(1) r3(1) y4(1) y5(1) chain(2) jws
    by (simp add: late_run_def answer_first go_on_ask) (simp add: go_on_def)
  with y5 y4(4) r3(4,6) show ?thesis by (auto simp: sys_get_def sys_call_def)
qed

theorem late_receipt_issued_witness:
  "\<exists>r. getLate ''i'' (ly_store (fst (late_run sample_cfg (one_row (sample_row\<lparr>lr_state := Unknown\<rparr>) [] (empty_x402 1000) [], [])
       (sample_way ''o'' 1010000 0 @ [E_sign 0 (Some ''A''), E_ledger 0 True, E_leaf 0 True])))) = Some r \<and> lr_state r = Issued \<and> lr_jws r = ''A''"
proof -
  let ?r = "sample_row\<lparr>lr_state := Unknown\<rparr>"
  have e: "lr_tuple ?r = sample_tuple" "lr_tx_hint ?r = []" "lr_id ?r = ''i''" by (simp_all add: sample_row_def new_late_row_def)
  have d: "late_decision sample_cfg ?r (readChain ?r (Some sample_reading) None []) 1010000 = V_confirmed"
    unfolding sample_read using e by (intro sample_decision) simp_all
  have k: "sample_tx_key = tx_key sample_cfg ?r (or_text (cr_tx (readChain ?r (Some sample_reading) None [])) (lr_tx_hint ?r))"
    unfolding sample_read using e by (simp add: or_text_def)
  have f: "tx_free ''i'' sample_tx_key (one_row ?r [] (empty_x402 1000) [])" using e by (simp add: tx_free_def)
  show ?thesis
    using late_receipt_issued [of "''i''" "one_row ?r [] (empty_x402 1000) []" ?r, OF _ _ _ _ _ d sample_guard _ _ k sample_key_nonempty f, of 1010000 "''A''" "''o''"] e
    by (simp add: getLate_def sample_row_def new_late_row_def sample_way_def reserve1 [unfolded sample_row_def]) blast
qed

end
