(* ===== verification/Session_Delegation.thy ===== *)
theory Session_Delegation
  imports Js_Store Js_Values "HOL-Library.List_Lexorder" "HOL-Library.Char_ord"
begin

text \<open>
  Session delegation, services/gateway/src/session-delegation.js: the EIP-712 domain pin, the
  checks of an authorization and of a revocation, the acceptance and binding of a proof, the
  session window, and the store of sessions and revocations. The functions of the ethers
  library are parameters, as is the nonce drawn for an absent one; a header arrives parsed.
  Values are JavaScript values, a thrown error is its reason.
\<close>

section \<open>The library\<close>

text \<open>
  \<open>el_recover\<close> and \<open>el_hash\<close> are \<open>verifyTypedData\<close> and \<open>TypedDataEncoder.hash\<close>; \<open>None\<close> is an error
  they throw.
\<close>

record eip_domain =
  ed_name :: string
  ed_version :: string
  ed_chainId :: jsnum
  ed_contract :: string

record ethers =
  el_isAddress :: "jsval \<Rightarrow> bool"
  el_getAddress :: "jsval \<Rightarrow> string option"
  el_recover :: "eip_domain \<Rightarrow> jsval \<Rightarrow> jsval \<Rightarrow> jsval \<Rightarrow> string option"
  el_hash :: "eip_domain \<Rightarrow> jsval \<Rightarrow> jsval \<Rightarrow> string option"
  el_nonce :: string

section \<open>Constants and the domain\<close>

definition SESSION_CHAIN_ID :: int where
  "SESSION_CHAIN_ID = 8453"

definition SESSION_CONTRACT_DEFAULT :: string where
  "SESSION_CONTRACT_DEFAULT = ''0x0000000000000000000000000000000000000402''"

definition SESSION_NAME :: string where
  "SESSION_NAME = ''Chit402''"

definition SESSION_VERSION :: string where
  "SESSION_VERSION = ''1''"

definition KEY_TYPE :: string where
  "KEY_TYPE = ''secp256k1''"

definition typed_field :: "string \<Rightarrow> string \<Rightarrow> jsval" where
  "typed_field n t = JObj [(''name'', JStr n), (''type'', JStr t)]"

definition AUTHORIZE_TYPES :: jsval where
  "AUTHORIZE_TYPES = JObj [(''AuthorizeSession'', JArr
     [typed_field ''agentPubkey'' ''address'', typed_field ''agentKeyType'' ''string'',
      typed_field ''validAfter'' ''uint256'', typed_field ''validUntil'' ''uint256'',
      typed_field ''maxCumulativeSpend'' ''uint256'', typed_field ''allowedRoutes'' ''string'',
      typed_field ''nonce'' ''bytes32''])]"

definition REVOKE_TYPES :: jsval where
  "REVOKE_TYPES = JObj [(''RevokeSession'', JArr
     [typed_field ''agentPubkey'' ''address'', typed_field ''nonce'' ''bytes32'',
      typed_field ''delegationHash'' ''bytes32''])]"

definition checksumOrDefault :: "ethers \<Rightarrow> jsval \<Rightarrow> string" where
  "checksumOrDefault el v =
     (if js_truthy v \<and> el_isAddress el v \<and> el_getAddress el v \<noteq> None then the (el_getAddress el v)
      else (case el_getAddress el (JStr SESSION_CONTRACT_DEFAULT) of Some a \<Rightarrow> a | None \<Rightarrow> SESSION_CONTRACT_DEFAULT))"

definition sessionEip712Domain :: "ethers \<Rightarrow> jsval \<Rightarrow> jsval \<Rightarrow> eip_domain" where
  "sessionEip712Domain el chainId verifyingContract =
     \<lparr>ed_name = SESSION_NAME, ed_version = SESSION_VERSION,
      ed_chainId = js_Number (js_coalesce chainId (JNum (JInt SESSION_CHAIN_ID))),
      ed_contract = checksumOrDefault el verifyingContract\<rparr>"

definition domain_val :: "eip_domain \<Rightarrow> jsval" where
  "domain_val d = JObj [(''name'', JStr (ed_name d)), (''version'', JStr (ed_version d)),
     (''chainId'', JNum (ed_chainId d)), (''verifyingContract'', JStr (ed_contract d))]"

definition canonicalizeSessionDomain :: "ethers \<Rightarrow> jsval \<Rightarrow> jsval \<Rightarrow> string + eip_domain" where
  "canonicalizeSessionDomain el dmn verifyingContract =
     (let expected = sessionEip712Domain el JUndef (js_or verifyingContract JUndef)
      in if \<not> js_nullish (jget dmn ''chainId'') \<and> num_int (js_Number (jget dmn ''chainId'')) \<noteq> Some SESSION_CHAIN_ID
         then Inl ''chain_id_not_base''
         else if \<not> js_nullish (jget dmn ''name'') \<and> js_String (jget dmn ''name'') \<noteq> SESSION_NAME
         then Inl ''domain_name_mismatch''
         else if \<not> js_nullish (jget dmn ''version'') \<and> js_String (jget dmn ''version'') \<noteq> SESSION_VERSION
         then Inl ''domain_version_mismatch''
         else if \<not> js_nullish (jget dmn ''verifyingContract'') \<and>
           (\<not> el_isAddress el (jget dmn ''verifyingContract'')
            \<or> el_getAddress el (jget dmn ''verifyingContract'') \<noteq> Some (ed_contract expected))
         then Inl ''verifying_contract_mismatch''
         else Inr \<lparr>ed_name = SESSION_NAME, ed_version = SESSION_VERSION, ed_chainId = JInt SESSION_CHAIN_ID,
                ed_contract = ed_contract expected\<rparr>)"

section \<open>Routes and nonces\<close>

fun split_comma :: "string \<Rightarrow> string \<Rightarrow> string list" where
  "split_comma acc [] = [rev acc]"
| "split_comma acc (c # s) = (if c = CHR '','' then rev acc # split_comma [] s else split_comma (c # acc) s)"

text \<open>Trimmed, non-empty, unique, sorted by code unit, joined with commas.\<close>

definition route_list :: "string list \<Rightarrow> string" where
  "route_list rs = join_with '','' (sort (remdups (filter (\<lambda>r. r \<noteq> []) (map js_trim rs))))"

definition canonicalizeAllowedRoutes :: "jsval \<Rightarrow> string" where
  "canonicalizeAllowedRoutes routes =
     (if js_nullish routes \<or> routes = JStr [] \<or> routes = JStr ''*'' then ''*''
      else (case routes of
              JArr vs \<Rightarrow>
                (let t = route_list (map js_String vs) in if t = [] then ''*'' else t)
            | _ \<Rightarrow>
                (let ps = filter (\<lambda>r. r \<noteq> []) (map js_trim (split_comma [] (js_String routes)))
                 in if ps = [] \<or> ''*'' \<in> set ps then ''*'' else route_list ps)))"

text \<open>\<open>None\<close> is the error that the nonce is no bytes32 text.\<close>

definition normalizeSessionNonce :: "ethers \<Rightarrow> jsval \<Rightarrow> string option" where
  "normalizeSessionNonce el v =
     (case v of
        JStr n \<Rightarrow>
          if n = [] then Some (''0x'' @ el_nonce el)
          else (let h = (if take 2 n = ''0x'' then drop 2 n else n)
                in if h = [] \<or> \<not> is_hex (js_lower h) \<or> 64 < length h then None
                   else Some (''0x'' @ replicate (64 - length h) CHR ''0'' @ h))
      | _ \<Rightarrow> Some (''0x'' @ el_nonce el))"

definition toUint :: "jsval \<Rightarrow> string option" where
  "toUint v =
     (if js_nullish v \<or> v = JStr [] then None
      else (case js_BigInt v of Some n \<Rightarrow> if n < 0 then None else Some (int_string n) | None \<Rightarrow> None))"

section \<open>Verification\<close>

record verified_session =
  vs_payer :: string
  vs_agent :: string
  vs_hash :: string
  vs_validAfter :: jsnum
  vs_validUntil :: jsnum
  vs_maxSpend :: string
  vs_routes :: string
  vs_nonce :: string
  vs_domain :: eip_domain

definition recovered_payer :: "ethers \<Rightarrow> eip_domain \<Rightarrow> jsval \<Rightarrow> jsval \<Rightarrow> jsval \<Rightarrow> string option" where
  "recovered_payer el dmn types msg signature =
     Option.bind (el_recover el dmn types msg signature) (\<lambda>a. el_getAddress el (JStr a))"

definition verifyAuthorizeSession ::
    "ethers \<Rightarrow> jsval \<Rightarrow> jsval \<Rightarrow> jsval \<Rightarrow> string + verified_session" where
  "verifyAuthorizeSession el typedData signature verifyingContract =
     (if \<not> js_truthy typedData \<or> \<not> js_truthy signature then Inl ''missing_typed_data_or_signature''
      else (case canonicalizeSessionDomain el (jget typedData ''domain'') verifyingContract of
              Inl e \<Rightarrow> Inl e
            | Inr dmn \<Rightarrow>
                (let msg = js_or (jget typedData ''message'') (JObj []);
                     types = js_or (jget typedData ''types'') AUTHORIZE_TYPES
                 in if js_or (jget msg ''agentKeyType'') (JStr KEY_TYPE) \<noteq> JStr KEY_TYPE
                    then Inl ''unsupported_agent_key_type''
                    else if \<not> el_isAddress el (jget msg ''agentPubkey'') then Inl ''agent_pubkey_not_secp256k1''
                    else (case (recovered_payer el dmn types msg signature, el_hash el dmn types msg,
                                el_getAddress el (jget msg ''agentPubkey''), normalizeSessionNonce el (jget msg ''nonce'')) of
                            (Some payer, Some h, Some agent, Some nonce) \<Rightarrow>
                              Inr \<lparr>vs_payer = payer, vs_agent = agent, vs_hash = h,
                                   vs_validAfter = js_Number (jget msg ''validAfter''),
                                   vs_validUntil = js_Number (jget msg ''validUntil''),
                                   vs_maxSpend = js_String (jget msg ''maxCumulativeSpend''),
                                   vs_routes = canonicalizeAllowedRoutes (jget msg ''allowedRoutes''),
                                   vs_nonce = nonce, vs_domain = dmn\<rparr>
                          | _ \<Rightarrow> Inl ''verification_error''))))"

record verified_revoke =
  vr_payer :: string
  vr_agent :: "string option"
  vr_nonce :: "string option"
  vr_hash :: "string option"

text \<open>\<open>v ? normalizeSessionNonce(v) : null\<close>, with the thrown error as \<open>None\<close>.\<close>

definition nonce_or_null :: "ethers \<Rightarrow> jsval \<Rightarrow> string option option" where
  "nonce_or_null el v = (if js_truthy v then map_option Some (normalizeSessionNonce el v) else Some None)"

definition verifyRevokeSession ::
    "ethers \<Rightarrow> jsval \<Rightarrow> jsval \<Rightarrow> jsval \<Rightarrow> jsval \<Rightarrow> string + verified_revoke" where
  "verifyRevokeSession el typedData signature expectedPayer verifyingContract =
     (if \<not> js_truthy typedData \<or> \<not> js_truthy signature then Inl ''missing_typed_data_or_signature''
      else (case canonicalizeSessionDomain el (jget typedData ''domain'') verifyingContract of
              Inl e \<Rightarrow> Inl e
            | Inr dmn \<Rightarrow>
                (let msg = js_or (jget typedData ''message'') (JObj []);
                     types = js_or (jget typedData ''types'') REVOKE_TYPES
                 in case recovered_payer el dmn types msg signature of
                      None \<Rightarrow> Inl ''verification_error''
                    | Some payer \<Rightarrow>
                        if js_truthy expectedPayer
                           \<and> (\<not> el_isAddress el expectedPayer \<or> el_getAddress el expectedPayer \<noteq> Some payer)
                        then Inl ''signer_mismatch''
                        else (case (nonce_or_null el (jget msg ''nonce''), nonce_or_null el (jget msg ''delegationHash'')) of
                                (Some n, Some h) \<Rightarrow>
                                  Inr \<lparr>vr_payer = payer,
                                       vr_agent = (if el_isAddress el (jget msg ''agentPubkey'')
                                                   then el_getAddress el (jget msg ''agentPubkey'') else None),
                                       vr_nonce = n, vr_hash = h\<rparr>
                              | _ \<Rightarrow> Inl ''verification_error''))))"

section \<open>Accepting a proof\<close>

definition requireSecp256k1Address :: "ethers \<Rightarrow> jsval \<Rightarrow> string option" where
  "requireSecp256k1Address el v =
     (case v of JStr t \<Rightarrow> if t \<noteq> [] \<and> el_isAddress el v then el_getAddress el v else None | _ \<Rightarrow> None)"

record authorize_params =
  ap_agent :: jsval
  ap_keyType :: jsval
  ap_validAfter :: jsval
  ap_validUntil :: jsval
  ap_maxSpend :: jsval
  ap_routes :: jsval
  ap_nonce :: jsval
  ap_chainId :: jsval
  ap_contract :: jsval

text \<open>The comparison \<open>validUntil <= validAfter\<close> is one of decimal texts, by code unit.\<close>

definition buildAuthorizeTypedData :: "ethers \<Rightarrow> authorize_params \<Rightarrow> jsval option" where
  "buildAuthorizeTypedData el p =
     (case (requireSecp256k1Address el (ap_agent p), toUint (ap_validAfter p), toUint (ap_validUntil p),
            toUint (ap_maxSpend p), normalizeSessionNonce el (ap_nonce p)) of
        (Some agent, Some va, Some vu, Some spend, Some nonce) \<Rightarrow>
          if js_or (ap_keyType p) (JStr KEY_TYPE) \<noteq> JStr KEY_TYPE then None
          else if vu \<le> va then None
          else Some (JObj [(''domain'', domain_val (sessionEip712Domain el (ap_chainId p) (ap_contract p))),
                 (''types'', AUTHORIZE_TYPES), (''primaryType'', JStr ''AuthorizeSession''),
                 (''message'', JObj [(''agentPubkey'', JStr agent), (''agentKeyType'', JStr KEY_TYPE),
                    (''validAfter'', JStr va), (''validUntil'', JStr vu), (''maxCumulativeSpend'', JStr spend),
                    (''allowedRoutes'', JStr (canonicalizeAllowedRoutes (ap_routes p))), (''nonce'', JStr nonce)])])
      | _ \<Rightarrow> None)"

record session = verified_session +
  ss_signature :: jsval
  ss_lookup :: string
  ss_recorded :: int

text \<open>\<open>{ ...typedData, domain: { ...typedData.domain, chainId } }\<close> when the domain names no chain.\<close>

definition force_chain :: "jsval \<Rightarrow> jsval" where
  "force_chain typedData =
     (if js_truthy (jget typedData ''domain'') \<and> js_nullish (jget (jget typedData ''domain'') ''chainId'')
      then (case typedData of
              JObj ps \<Rightarrow>
                JObj (ps @ [(''domain'', JObj ((case jget typedData ''domain'' of JObj ds \<Rightarrow> ds | _ \<Rightarrow> [])
                  @ [(''chainId'', JNum (JInt SESSION_CHAIN_ID))]))])
            | v \<Rightarrow> v)
      else typedData)"

text \<open>The typed data of a proof; \<open>None\<close> when the flattened fields make none.\<close>

definition proof_typed_data :: "ethers \<Rightarrow> jsval \<Rightarrow> jsval \<Rightarrow> jsval option" where
  "proof_typed_data el prf' verifyingContract =
     (let td = js_or (jget prf' ''typed_data'') (js_or (jget prf' ''typedData'') JNull)
      in if js_truthy td then Some td
         else if js_truthy (jget prf' ''message'')
         then Some (JObj
           [(''domain'', js_or (jget prf' ''domain'') (domain_val (sessionEip712Domain el JUndef verifyingContract))),
            (''types'', js_or (jget prf' ''types'') AUTHORIZE_TYPES),
            (''primaryType'', js_or (jget prf' ''primaryType'') (JStr ''AuthorizeSession'')),
            (''message'', jget prf' ''message'')])
         else buildAuthorizeTypedData el
           \<lparr>ap_agent = js_or (jget prf' ''agent_pubkey'') (jget prf' ''agentPubkey''),
            ap_keyType = js_or (jget prf' ''agent_key_type'') (jget prf' ''agentKeyType''),
            ap_validAfter = js_coalesce (jget prf' ''valid_after'') (jget prf' ''validAfter''),
            ap_validUntil = js_coalesce (jget prf' ''valid_until'') (jget prf' ''validUntil''),
            ap_maxSpend = js_coalesce (jget prf' ''max_cumulative_spend'') (jget prf' ''maxCumulativeSpend''),
            ap_routes = js_coalesce (jget prf' ''allowed_routes'') (jget prf' ''allowedRoutes''),
            ap_nonce = jget prf' ''nonce'',
            ap_chainId = jget (jget prf' ''domain'') ''chainId'',
            ap_contract = (if jget (jget prf' ''domain'') ''verifyingContract'' = JUndef then verifyingContract
                           else jget (jget prf' ''domain'') ''verifyingContract'')\<rparr>)"

definition proof_signature :: "jsval \<Rightarrow> jsval" where
  "proof_signature prf' = js_or (jget prf' ''signature'') (js_or (jget prf' ''sig'') JNull)"

definition is_object :: "jsval \<Rightarrow> bool" where
  "is_object v = (case v of JObj _ \<Rightarrow> True | JArr _ \<Rightarrow> True | JBytes _ \<Rightarrow> True | _ \<Rightarrow> False)"

definition lookup_uri :: "string \<Rightarrow> string \<Rightarrow> string" where
  "lookup_uri issuerUri h =
     (if issuerUri \<noteq> [] \<and> last issuerUri = CHR ''/'' then butlast issuerUri else issuerUri) @ ''/v1/sessions/'' @ h"

definition acceptDelegationProof ::
    "ethers \<Rightarrow> jsval \<Rightarrow> jsval \<Rightarrow> string \<Rightarrow> jsval \<Rightarrow> jsnum \<Rightarrow> string + session" where
  "acceptDelegationProof el prf' expectedPayer issuerUri verifyingContract clock =
     (if \<not> is_object prf' then Inl ''missing_delegation_proof''
      else (case proof_typed_data el prf' verifyingContract of
              None \<Rightarrow> Inl ''bad_proof_fields''
            | Some td \<Rightarrow>
                (case verifyAuthorizeSession el (force_chain td) (proof_signature prf') verifyingContract of
                   Inl e \<Rightarrow> Inl e
                 | Inr v \<Rightarrow>
                     if js_truthy expectedPayer \<and> el_isAddress el expectedPayer
                        \<and> el_getAddress el expectedPayer \<noteq> Some (vs_payer v) then Inl ''payer_mismatch''
                     else if num_lt clock (vs_validAfter v) then Inl ''session_not_yet_valid''
                     else if num_lt (vs_validUntil v) clock then Inl ''session_expired''
                     else Inr \<lparr>vs_payer = vs_payer v, vs_agent = vs_agent v, vs_hash = vs_hash v,
                            vs_validAfter = vs_validAfter v, vs_validUntil = vs_validUntil v,
                            vs_maxSpend = vs_maxSpend v, vs_routes = vs_routes v, vs_nonce = vs_nonce v,
                            vs_domain = vs_domain v, ss_signature = proof_signature prf',
                            ss_lookup = lookup_uri issuerUri (vs_hash v), ss_recorded = 0\<rparr>)))"

section \<open>The store\<close>

record revocation =
  rv_hash :: string
  rv_agent :: "string option"
  rv_payer :: "string option"
  rv_nonce :: "string option"
  rv_at :: int

record session_store =
  st_persist :: bool
  st_sessions :: "(string, session) jsmap"
  st_revocations :: "(string, revocation) jsmap"
  st_disk :: "session list \<times> revocation list"

text \<open>\<open>_save\<close>; \<open>None\<close> is the error it throws when a file operation fails.\<close>

definition store_save :: "bool \<Rightarrow> session_store \<Rightarrow> session_store option" where
  "store_save ok s =
     (if \<not> st_persist s then Some s
      else if ok then Some (s\<lparr>st_disk := (jm_values (st_sessions s), jm_values (st_revocations s))\<rparr>)
      else None)"

definition undo_set :: "'k \<Rightarrow> 'v option \<Rightarrow> ('k, 'v) jsmap \<Rightarrow> ('k, 'v) jsmap" where
  "undo_set k previous m = (case previous of None \<Rightarrow> jm_delete k m | Some v \<Rightarrow> jm_set k v m)"

text \<open>The flag says whether the call threw.\<close>

definition store_put :: "bool \<Rightarrow> int \<Rightarrow> session \<Rightarrow> session_store \<Rightarrow> bool \<times> session_store" where
  "store_put ok now sess s =
     (if vs_hash sess = [] then (False, s)
      else let k = js_lower (vs_hash sess);
               row = (if ss_recorded sess = 0 then sess\<lparr>ss_recorded := now\<rparr> else sess);
               s1 = s\<lparr>st_sessions := jm_set k row (st_sessions s)\<rparr>
           in case store_save ok s1 of
                Some s2 \<Rightarrow> (False, s2)
              | None \<Rightarrow> (True, s1\<lparr>st_sessions := undo_set k (jm_get (st_sessions s) k) (st_sessions s1)\<rparr>))"

definition store_get :: "string \<Rightarrow> session_store \<Rightarrow> session option" where
  "store_get h s = (if h = [] then None else jm_get (st_sessions s) (js_lower h))"

definition store_isRevoked :: "string \<Rightarrow> session_store \<Rightarrow> bool" where
  "store_isRevoked h s \<longleftrightarrow> h \<noteq> [] \<and> jm_has (st_revocations s) (js_lower h)"

definition revoke_row :: "int \<Rightarrow> revocation \<Rightarrow> revocation" where
  "revoke_row now rv = (if rv_at rv = 0 then rv\<lparr>rv_at := now\<rparr> else rv)"

definition store_revoke :: "bool \<Rightarrow> int \<Rightarrow> revocation \<Rightarrow> session_store \<Rightarrow> bool \<times> session_store" where
  "store_revoke ok now rv s =
     (if rv_hash rv = [] then (True, s)
      else let k = js_lower (rv_hash rv);
               s1 = s\<lparr>st_revocations := jm_set k (revoke_row now rv) (st_revocations s)\<rparr>
           in case store_save ok s1 of
                Some s2 \<Rightarrow> (False, s2)
              | None \<Rightarrow> (True, s1\<lparr>st_revocations := undo_set k (jm_get (st_revocations s) k) (st_revocations s1)\<rparr>))"


definition store_status :: "string \<Rightarrow> int \<Rightarrow> session_store \<Rightarrow> string" where
  "store_status h now s =
     (case (store_get h s, store_isRevoked h s) of
        (None, False) \<Rightarrow> ''unknown''
      | (_, True) \<Rightarrow> ''revoked''
      | (Some x, False) \<Rightarrow>
          if num_lt (vs_validUntil x) (JInt now) then ''expired''
          else if num_lt (JInt now) (vs_validAfter x) then ''pending'' else ''active'')"

section \<open>Binding a request\<close>




text \<open>Who settled, and who may revoke.\<close>

definition sessionMatchesSettledPayer :: "ethers \<Rightarrow> session \<Rightarrow> jsval \<Rightarrow> bool" where
  "sessionMatchesSettledPayer el sess payer =
     (if vs_payer sess = [] \<or> \<not> js_truthy payer then False
      else (case (el_getAddress el (JStr (vs_payer sess)), el_getAddress el payer) of
              (Some a, Some b) \<Rightarrow> a = b
            | _ \<Rightarrow> js_lower (vs_payer sess) = js_lower (js_String payer)))"

definition same_hash :: "ethers \<Rightarrow> string \<Rightarrow> jsval \<Rightarrow> bool option" where
  "same_hash el h expected =
     (if js_truthy expected \<and> h \<noteq> []
      then (case (normalizeSessionNonce el (JStr h), normalizeSessionNonce el expected) of
              (Some a, Some b) \<Rightarrow> Some (a = b) | _ \<Rightarrow> None)
      else Some True)"

definition resolveRevokeExpectedPayer ::
    "ethers \<Rightarrow> session option \<Rightarrow> jsval \<Rightarrow> jsval \<Rightarrow> jsval \<Rightarrow> string + string" where
  "resolveRevokeExpectedPayer el stored authorizeProof expectedHash verifyingContract =
     (case (if stored \<noteq> None \<and> vs_payer (the stored) \<noteq> [] \<and> el_isAddress el (JStr (vs_payer (the stored)))
            then stored else None) of
        Some sess \<Rightarrow>
          (case (same_hash el (vs_hash sess) expectedHash, el_getAddress el (JStr (vs_payer sess))) of
             (Some True, Some p) \<Rightarrow> Inr p
           | (Some False, _) \<Rightarrow> Inl ''delegation_hash_mismatch''
           | _ \<Rightarrow> Inl ''error'')
      | None \<Rightarrow>
          if \<not> js_truthy authorizeProof then Inl ''unknown_session''
          else (let signature = proof_signature authorizeProof;
                    td0 = js_or (jget authorizeProof ''typed_data'') (js_or (jget authorizeProof ''typedData'') JNull);
                    td = (if \<not> js_truthy td0 \<and> js_truthy (jget authorizeProof ''message'')
                          then the (proof_typed_data el authorizeProof verifyingContract) else td0)
                in if \<not> js_truthy td \<or> \<not> js_truthy signature then Inl ''missing_authorize_proof''
                   else (case verifyAuthorizeSession el td signature verifyingContract of
                           Inl e \<Rightarrow> Inl e
                         | Inr v \<Rightarrow>
                             (case same_hash el (vs_hash v) expectedHash of
                                Some True \<Rightarrow> Inr (vs_payer v)
                              | Some False \<Rightarrow> Inl ''delegation_hash_mismatch''
                              | None \<Rightarrow> Inl ''error''))))"

section \<open>The window of a receipt\<close>

datatype window_check = No_session | Window_invalid string | Window_valid jsnum jsnum jsnum

definition verifySessionWindow :: "jsval \<Rightarrow> jsval \<Rightarrow> window_check" where
  "verifySessionWindow claims now =
     (let session = js_or (jget claims ''session'') JNull
      in if \<not> js_truthy session \<and> js_nullish (jget claims ''session_expiry'') \<and> js_nullish (jget claims ''delegation_hash'')
         then No_session
         else let iat = js_Number (jget claims ''iat'');
                  validAfter = js_Number (js_coalesce (jget session ''valid_after'')
                    (js_coalesce (jget session ''validAfter'') (JNum (JInt 0))));
                  validUntil = js_Number (js_coalesce (jget session ''valid_until'')
                    (js_coalesce (jget session ''validUntil'')
                      (js_coalesce (jget session ''session_expiry'') (jget claims ''session_expiry''))))
              in if \<not> num_finite iat then Window_invalid ''missing_iat''
                 else if \<not> num_finite validUntil then Window_invalid ''missing_session_expiry''
                 else if num_lt iat validAfter then Window_invalid ''iat_before_valid_after''
                 else if num_lt validUntil iat then Window_invalid ''iat_outside_session_window''
                 else if \<not> js_nullish now \<and> num_finite (js_Number now) \<and> num_lt validUntil (js_Number now)
                 then Window_invalid ''session_expired''
                 else Window_valid iat validAfter validUntil)"

section \<open>Lemmas\<close>

lemma undo_set_id: "undo_set k (jm_get m k) (jm_set k v m) = m"
proof (cases "jm_get m k")
  case None
  then have "jm_delete k (jm_set k v m) = m"
    by (induction m) (auto split: if_splits)
  with None show ?thesis by (simp add: undo_set_def)
next
  case (Some u)
  then have "jm_set k u (jm_set k v m) = m"
    by (induction m) (auto split: if_splits)
  with Some show ?thesis by (simp add: undo_set_def)
qed

lemma store_save_fields:
  "store_save ok s = Some s' \<Longrightarrow> st_sessions s' = st_sessions s \<and> st_revocations s' = st_revocations s \<and> st_persist s' = st_persist s"
  by (auto simp: store_save_def split: if_splits)





section \<open>Runs of the store\<close>







lemma revoke_row_hash [simp]: "rv_hash (revoke_row now rv) = rv_hash rv"
  by (simp add: revoke_row_def)





section \<open>Properties\<close>


text \<open>A library for the witnesses: it recovers the agent field as the signer.\<close>

definition demo_ethers :: ethers where
  "demo_ethers = \<lparr>el_isAddress = (\<lambda>v. \<not> js_nullish v), el_getAddress = (\<lambda>v. Some (js_String v)),
     el_recover = (\<lambda>d t m x. Some (js_String (jget m ''agentPubkey''))), el_hash = (\<lambda>d t m. Some ''0xAB''), el_nonce = ''7''\<rparr>"

definition demo_typed :: jsval where
  "demo_typed = JObj [(''domain'', JObj [(''chainId'', JNum (JInt 8453))]),
     (''message'', JObj [(''agentPubkey'', JStr ''0xaa''), (''nonce'', JStr ''0x1'')])]"

definition demo_proof :: jsval where
  "demo_proof = JObj [(''signature'', JStr ''s''), (''typed_data'', JObj [(''message'',
     JObj [(''agentPubkey'', JStr ''0xaa''), (''validAfter'', JStr ''5''), (''validUntil'', JStr ''9'')])])]"






text \<open>
  A failed write changes nothing: a \<open>put\<close> or a \<open>revoke\<close> that throws leaves the store
  exactly as it was, order of the entries included.
\<close>

theorem failed_save_rolls_back:
  "(fst (store_put ok now sess s) = False \<or> snd (store_put ok now sess s) = s) \<and>
   (fst (store_revoke ok now rv s) = False \<or> snd (store_revoke ok now rv s) = s)"
  by (auto simp: store_put_def store_revoke_def Let_def undo_set_id store_save_def)

text \<open>The fields that the revocation type lists, which are all that ethers encodes of a message.\<close>

definition revoke_fields :: "string list" where
  "revoke_fields = [''agentPubkey'', ''nonce'', ''delegationHash'']"

definition signs_listed_fields :: "ethers \<Rightarrow> bool" where
  "signs_listed_fields el \<longleftrightarrow>
     (\<forall>d m m' x. list_all (\<lambda>f. jget m f = jget m' f) revoke_fields \<longrightarrow>
        el_recover el d REVOKE_TYPES m x = el_recover el d REVOKE_TYPES m' x \<and>
        el_hash el d REVOKE_TYPES m = el_hash el d REVOKE_TYPES m')"

text \<open>A proof made of a revocation: its signature, its type, and unsigned fields beside the signed ones.\<close>

definition forged_proof :: "(string \<times> jsval) list \<Rightarrow> jsval \<Rightarrow> int \<Rightarrow> string \<Rightarrow> jsval" where
  "forged_proof ps signature validUntil spend =
     JObj [(''signature'', signature), (''typed_data'', JObj [(''types'', REVOKE_TYPES), (''message'',
       JObj (ps @ [(''agentKeyType'', JStr KEY_TYPE), (''validAfter'', JNum (JInt 0)), (''validUntil'', JNum (JInt validUntil)),
         (''maxCumulativeSpend'', JStr spend), (''allowedRoutes'', JStr ''*'')]))])]"

lemma REVOKE_TYPES_truthy [simp]: "js_truthy REVOKE_TYPES"
  by (simp add: REVOKE_TYPES_def)

lemma jget_append_other: "k \<notin> fst ` set qs \<Longrightarrow> jget (JObj (ps @ qs)) k = jget (JObj ps) k"
proof -
  assume "k \<notin> fst ` set qs"
  then have "map_of (rev qs) k = None" by (simp add: map_of_eq_None_iff)
  then have "map_of (rev (ps @ qs)) k = map_of (rev ps) k" by (simp add: map_add_def)
  then show ?thesis by (simp only: jget_def jsval.case)
qed

lemma pinned_domain:
  "canonicalizeSessionDomain el d vc = Inr dmn \<Longrightarrow> canonicalizeSessionDomain el JUndef vc = Inr dmn"
  by (auto simp: canonicalizeSessionDomain_def Let_def jget_def js_nullish_def split: if_splits)

text \<open>
  A signed revocation is also an authorization. The types that the signature is
  checked over come from the proof: whoever sees a revocation that verifies, of a library that
  encodes the listed fields only, has a proof that \<open>acceptDelegationProof\<close> accepts for the same
  payer and agent, with a window and a spend of his choice and every route.
\<close>

theorem revocation_signature_authorizes:
  assumes "signs_listed_fields el" "verifyRevokeSession el td signature exp vc = Inr r"
    and "jget td ''types'' = JUndef" "jget td ''message'' = JObj ps" "vr_agent r = Some a"
    and "el_hash el (projr (canonicalizeSessionDomain el JUndef vc)) REVOKE_TYPES (JObj ps) \<noteq> None"
    and "0 \<le> clock" "clock \<le> u"
  shows "(case acceptDelegationProof el (forged_proof ps signature u spend) JNull uri vc (JInt clock) of
      Inr sess \<Rightarrow> vs_payer sess = vr_payer r \<and> vs_agent sess = a \<and> vs_maxSpend sess = spend \<and> vs_routes sess = ''*''
    | Inl e \<Rightarrow> False)"
proof -
  from assms(2-4) obtain dmn where d: "canonicalizeSessionDomain el (jget td ''domain'') vc = Inr dmn"
    and rec: "recovered_payer el dmn REVOKE_TYPES (JObj ps) signature = Some (vr_payer r)" and sg: "js_truthy signature"
    by (auto simp: verifyRevokeSession_def Let_def js_or_def split: if_splits sum.splits option.splits)
  from assms(2,4,5) have ag: "el_isAddress el (jget (JObj ps) ''agentPubkey'')"
    "el_getAddress el (jget (JObj ps) ''agentPubkey'') = Some a"
    by (auto simp: verifyRevokeSession_def Let_def js_or_def split: if_splits sum.splits option.splits)
  from assms(2,4) obtain n where "nonce_or_null el (jget (JObj ps) ''nonce'') = Some n"
    by (auto simp: verifyRevokeSession_def Let_def js_or_def split: if_splits sum.splits option.splits)
  then obtain nonce where n: "normalizeSessionNonce el (jget (JObj ps) ''nonce'') = Some nonce"
    by (cases "jget (JObj ps) ''nonce''") (auto simp: nonce_or_null_def normalizeSessionNonce_def split: if_splits)
  define qs where "qs = [(''agentKeyType'', JStr KEY_TYPE), (''validAfter'', JNum (JInt 0)), (''validUntil'', JNum (JInt u)),
    (''maxCumulativeSpend'', JStr spend), (''allowedRoutes'', JStr ''*'')]"
  let ?m = "JObj (ps @ qs)"
  have q: "jget ?m ''agentKeyType'' = JStr KEY_TYPE" "jget ?m ''validAfter'' = JNum (JInt 0)"
    "jget ?m ''validUntil'' = JNum (JInt u)" "jget ?m ''maxCumulativeSpend'' = JStr spend"
    "jget ?m ''allowedRoutes'' = JStr ''*''"
    by (simp_all add: qs_def jget_def)
  have same: "jget ?m f = jget (JObj ps) f" if "f \<in> set revoke_fields" for f
    using that by (intro jget_append_other) (auto simp: qs_def revoke_fields_def)
  then have ls: "list_all (\<lambda>f. jget ?m f = jget (JObj ps) f) revoke_fields" by (simp add: list_all_iff)
  have e: "el_recover el dmn REVOKE_TYPES ?m signature = el_recover el dmn REVOKE_TYPES (JObj ps) signature"
    "el_hash el dmn REVOKE_TYPES ?m = el_hash el dmn REVOKE_TYPES (JObj ps)"
    using assms(1) ls unfolding signs_listed_fields_def by blast+
  have f: "jget ?m ''agentPubkey'' = jget (JObj ps) ''agentPubkey''" "jget ?m ''nonce'' = jget (JObj ps) ''nonce''"
    using same by (simp_all add: revoke_fields_def)
  from pinned_domain [OF d] assms(6) obtain h where h: "el_hash el dmn REVOKE_TYPES (JObj ps) = Some h" by auto
  have rec': "recovered_payer el dmn REVOKE_TYPES ?m signature = Some (vr_payer r)"
    using rec e(1) by (simp add: recovered_payer_def)
  let ?td = "JObj [(''types'', REVOKE_TYPES), (''message'', ?m)]"
  have td: "jget ?td ''domain'' = JUndef" "jget ?td ''types'' = REVOKE_TYPES" "jget ?td ''message'' = ?m"
    by (simp_all add: jget_def)
  have v: "verifyAuthorizeSession el ?td signature vc = Inr \<lparr>vs_payer = vr_payer r, vs_agent = a, vs_hash = h,
      vs_validAfter = JInt 0, vs_validUntil = JInt u, vs_maxSpend = spend, vs_routes = ''*'', vs_nonce = nonce,
      vs_domain = dmn\<rparr>"
    using sg pinned_domain [OF d] rec' e(2) h ag n q f
    by (simp add: verifyAuthorizeSession_def td js_or_def REVOKE_TYPES_def [symmetric] Let_def
        canonicalizeAllowedRoutes_def REVOKE_TYPES_truthy)
  have p: "proof_typed_data el (forged_proof ps signature u spend) vc = Some ?td"
    "proof_signature (forged_proof ps signature u spend) = signature" "is_object (forged_proof ps signature u spend)"
    using sg by (simp_all add: forged_proof_def qs_def proof_typed_data_def proof_signature_def is_object_def jget_def
        js_or_def Let_def)
  have fc: "force_chain ?td = ?td" by (simp add: force_chain_def td)
  from v p fc assms(7,8) show ?thesis
    by (simp add: acceptDelegationProof_def num_int_def)
qed

lemma demo_ethers_hash: "el_hash demo_ethers d t m = Some ''0xAB''"
  by (simp add: demo_ethers_def)

theorem revocation_signature_authorizes_witness:
  "(case acceptDelegationProof demo_ethers
       (forged_proof [(''agentPubkey'', JStr ''0xaa''), (''nonce'', JStr ''0x1'')] (JStr ''s'') 99 ''1000000'')
       JNull [] JNull (JInt 50) of
      Inr sess \<Rightarrow> vs_payer sess = ''0xaa'' \<and> vs_agent sess = ''0xaa'' \<and> vs_maxSpend sess = ''1000000'' \<and> vs_routes sess = ''*''
    | Inl e \<Rightarrow> False)"
proof -
  let ?r = "verifyRevokeSession demo_ethers demo_typed (JStr ''s'') JNull JNull"
  have "case ?r of Inr r \<Rightarrow> vr_agent r = Some ''0xaa'' \<and> vr_payer r = ''0xaa'' | Inl e \<Rightarrow> False" by code_simp
  then obtain r where r: "?r = Inr r" "vr_agent r = Some ''0xaa''" "vr_payer r = ''0xaa''" by (auto split: sum.splits)
  have lib: "signs_listed_fields demo_ethers"
    by (simp add: signs_listed_fields_def revoke_fields_def demo_ethers_def)
  have td: "jget demo_typed ''types'' = JUndef"
    "jget demo_typed ''message'' = JObj [(''agentPubkey'', JStr ''0xaa''), (''nonce'', JStr ''0x1'')]"
    by code_simp+
  show ?thesis
    using revocation_signature_authorizes [OF lib r(1) td r(2), of 50 99 "''1000000''" "[]"]
    unfolding r(3) by (simp add: demo_ethers_hash)
qed

text \<open>
  The order of a window is checked on decimal texts, so a window from 5 to 10 is refused and one
  from 10 to 9 is built; a list of routes with a star keeps it, and the text it makes means
  every route when it is read back.
\<close>

theorem window_compared_as_text:
  "(let params = (\<lambda>a b. \<lparr>ap_agent = JStr ''0xaa'', ap_keyType = JUndef, ap_validAfter = JNum (JInt a),
        ap_validUntil = JNum (JInt b), ap_maxSpend = JStr ''1'', ap_routes = JUndef, ap_nonce = JStr ''1'',
        ap_chainId = JUndef, ap_contract = JUndef\<rparr>)
    in buildAuthorizeTypedData demo_ethers (params 5 10) = None \<and>
       buildAuthorizeTypedData demo_ethers (params 10 9) \<noteq> None)"
  by code_simp

theorem star_in_route_list_widens:
  "canonicalizeAllowedRoutes (JArr [JStr ''/v1/book'', JStr ''*'']) = ''*,/v1/book'' \<and>
   canonicalizeAllowedRoutes (JStr ''*,/v1/book'') = ''*''"
  by code_simp

text \<open>
  Property C40. The nonce of an accepted session is a bytes32 text, whatever the message says: it
  is \<open>0x\<close> and 64 hexadecimal digits, given that a drawn nonce has 64 of them.
\<close>

theorem session_nonce_bytes32:
  assumes "length (el_nonce el) = 64" "is_hex (js_lower (el_nonce el))"
    and "acceptDelegationProof el prf' exp uri vc clock = Inr sess"
  shows "length (vs_nonce sess) = 66 \<and> take 2 (vs_nonce sess) = ''0x'' \<and> is_hex (js_lower (drop 2 (vs_nonce sess)))"
proof -
  have zeros: "is_hex (js_lower (replicate k CHR ''0'' @ h))" if "is_hex (js_lower h)" for k h
  proof -
    have "hex_digit (lower_char CHR ''0'') \<noteq> None" by (simp add: lower_char_def hex_digit_def)
    with that show ?thesis by (auto simp: is_hex_def js_lower_def list_all_iff simp del: not_None_eq)
  qed
  have shape: "length n = 66 \<and> take 2 n = ''0x'' \<and> is_hex (js_lower (drop 2 n))"
    if "normalizeSessionNonce el v = Some n" for v n
    using that assms(1,2) zeros
    by (auto simp: normalizeSessionNonce_def Let_def split: jsval.splits if_splits)
  have "\<exists>v. normalizeSessionNonce el v = Some (vs_nonce sess)"
    using assms(3)
    by (auto simp: acceptDelegationProof_def verifyAuthorizeSession_def Let_def
        split: if_splits option.splits sum.splits)
  with shape show ?thesis by blast
qed

theorem session_nonce_bytes32_witness:
  "(case acceptDelegationProof (demo_ethers\<lparr>el_nonce := replicate 64 CHR ''a''\<rparr>) demo_proof JNull [] JNull (JInt 6) of
      Inr sess \<Rightarrow> length (vs_nonce sess) = 66 | Inl e \<Rightarrow> False)"
proof -
  let ?el = "demo_ethers\<lparr>el_nonce := replicate 64 CHR ''a''\<rparr>"
  let ?a = "acceptDelegationProof ?el demo_proof JNull [] JNull (JInt 6)"
  have "\<not> isl ?a" by code_simp
  then obtain sess where a: "?a = Inr sess" by (cases ?a) auto
  have "length (el_nonce ?el) = 64" "is_hex (js_lower (el_nonce ?el))" by code_simp+
  from session_nonce_bytes32 [OF this a] a show ?thesis by simp
qed

end
