(* ===== verification/Tier_Policy.thy ===== *)
theory Tier_Policy
  imports Js_Values
begin

text \<open>
  The assurance tier of a task, services/gateway/src/tier-policy.js. The task and the policy
  are the JavaScript values that \<open>selectTier\<close> reads; \<open>None\<close> is the error that \<open>BigInt\<close> throws on
  an amount. The reason texts are the constructors of \<open>tier_reason\<close>.
\<close>

section \<open>Tiers and mechanisms\<close>

datatype tier = Signed | Settlement | Inference

datatype mechanism = Tee | Zk_spotcheck | Zk_full

fun tierRank :: "tier \<Rightarrow> nat" where
  "tierRank Signed = 0"
| "tierRank Settlement = 1"
| "tierRank Inference = 2"

text \<open>The order of the mechanisms, weakest first, as \<open>MECHANISMS\<close> lists them.\<close>

fun mech_rank :: "mechanism \<Rightarrow> nat" where
  "mech_rank Tee = 0"
| "mech_rank Zk_spotcheck = 1"
| "mech_rank Zk_full = 2"

lemma tierRank_inject [simp]: "tierRank a = tierRank b \<longleftrightarrow> a = b"
  by (cases a; cases b) simp_all

lemma mech_rank_inject [simp]: "mech_rank a = mech_rank b \<longleftrightarrow> a = b"
  by (cases a; cases b) simp_all

instantiation tier :: linorder
begin

definition less_eq_tier :: "tier \<Rightarrow> tier \<Rightarrow> bool" where
  "less_eq_tier a b \<longleftrightarrow> tierRank a \<le> tierRank b"

definition less_tier :: "tier \<Rightarrow> tier \<Rightarrow> bool" where
  "less_tier a b \<longleftrightarrow> tierRank a < tierRank b"

instance
  by standard (auto simp: less_eq_tier_def less_tier_def)

end

instantiation mechanism :: linorder
begin

definition less_eq_mechanism :: "mechanism \<Rightarrow> mechanism \<Rightarrow> bool" where
  "less_eq_mechanism a b \<longleftrightarrow> mech_rank a \<le> mech_rank b"

definition less_mechanism :: "mechanism \<Rightarrow> mechanism \<Rightarrow> bool" where
  "less_mechanism a b \<longleftrightarrow> mech_rank a < mech_rank b"

instance
  by standard (auto simp: less_eq_mechanism_def less_mechanism_def)

end

fun mech_text :: "mechanism \<Rightarrow> string" where
  "mech_text Tee = ''tee''"
| "mech_text Zk_spotcheck = ''zk-spotcheck''"
| "mech_text Zk_full = ''zk-full''"

record tier_request =
  rq_tier :: tier
  rq_mech :: "mechanism option"

definition normalizeRequestedTier :: "jsval \<Rightarrow> tier_request option" where
  "normalizeRequestedTier requested =
     (if \<not> js_truthy requested then None
      else let r = js_trim (js_lower (js_String requested))
        in if r = ''signed'' then Some \<lparr>rq_tier = Signed, rq_mech = None\<rparr>
           else if r = ''settlement'' then Some \<lparr>rq_tier = Settlement, rq_mech = None\<rparr>
           else if r = ''inference'' \<or> r = ''tee'' \<or> r = ''t3a''
           then Some \<lparr>rq_tier = Inference, rq_mech = (if r = ''inference'' then None else Some Tee)\<rparr>
           else if r = ''zk-spotcheck'' \<or> r = ''spotcheck'' \<or> r = ''t3b''
           then Some \<lparr>rq_tier = Inference, rq_mech = Some Zk_spotcheck\<rparr>
           else if r = ''zk-full'' \<or> r = ''full'' \<or> r = ''t3c''
           then Some \<lparr>rq_tier = Inference, rq_mech = Some Zk_full\<rparr>
           else None)"

section \<open>Thresholds\<close>

definition threshold :: "jsval \<Rightarrow> int option" where
  "threshold v =
     (if js_nullish v \<or> js_trim (js_String v) = [] then None
      else (case js_BigInt (JStr (js_trim (js_String v))) of
              Some n \<Rightarrow> if 0 < n then Some n else None
            | None \<Rightarrow> None))"

definition cogsOf :: "jsval \<Rightarrow> int option" where
  "cogsOf task =
     threshold
       (js_coalesce (jget task ''cogs'')
         (js_coalesce (jget task ''providerCogs'')
           (js_coalesce (jget (jget task ''provider_cogs'') ''actual'')
             (js_coalesce (jget task ''provider_cogs'') JNull))))"

definition task_amount :: "jsval \<Rightarrow> int option" where
  "task_amount task =
     js_BigInt
       (js_coalesce (jget (jget task ''intent'') ''amount'')
         (js_coalesce (jget task ''amount'') (js_coalesce (jget task ''netAmount'') (JNum (JInt 0)))))"

definition requested_tier :: "jsval \<Rightarrow> tier_request option" where
  "requested_tier task =
     normalizeRequestedTier
       (js_coalesce (jget (jget task ''intent'') ''proofTier'')
         (js_coalesce (jget (jget task ''intent'') ''proof_tier'') (js_coalesce (jget task ''proofTier'') JNull)))"

section \<open>Selection\<close>

definition mech_available :: "jsval \<Rightarrow> mechanism \<Rightarrow> bool" where
  "mech_available p m = js_truthy (jget (jget p ''available'') (mech_text m))"

definition settlement_available :: "jsval \<Rightarrow> bool" where
  "settlement_available p = js_truthy (jget (jget p ''available'') ''settlement'')"

text \<open>The mechanisms from the desired one down; an unknown one starts at the weakest.\<close>

definition mech_from :: "jsval \<Rightarrow> mechanism list" where
  "mech_from desired =
     (if desired = JStr ''zk-full'' then [Zk_full, Zk_spotcheck, Tee]
      else if desired = JStr ''zk-spotcheck'' then [Zk_spotcheck, Tee] else [Tee])"

definition resolveMechanism :: "jsval \<Rightarrow> jsval \<Rightarrow> mechanism option \<times> bool" where
  "resolveMechanism desired p =
     (case find (mech_available p) (mech_from desired) of
        Some m \<Rightarrow> (Some m, JStr (mech_text m) \<noteq> desired)
      | None \<Rightarrow> (None, True))"

definition value_floor :: "int \<Rightarrow> int option \<Rightarrow> int option \<Rightarrow> tier" where
  "value_floor basis tier2Min tier3Min =
     (if (case tier3Min of Some t \<Rightarrow> t \<le> basis | None \<Rightarrow> False) then Inference
      else if (case tier2Min of Some t \<Rightarrow> t \<le> basis | None \<Rightarrow> False) then Settlement
      else Signed)"

definition uses_cogs :: "jsval \<Rightarrow> jsval \<Rightarrow> bool" where
  "uses_cogs task p \<longleftrightarrow> cogsOf task \<noteq> None \<and>
     (threshold (jget p ''tier2MinCogs'') \<noteq> None \<or> threshold (jget p ''tier3MinCogs'') \<noteq> None)"

definition floor_tier :: "jsval \<Rightarrow> jsval \<Rightarrow> int \<Rightarrow> tier" where
  "floor_tier task p amount =
     (if uses_cogs task p
      then value_floor (the (cogsOf task)) (threshold (jget p ''tier2MinCogs'')) (threshold (jget p ''tier3MinCogs''))
      else value_floor amount (threshold (jget p ''tier2Min'')) (threshold (jget p ''tier3Min'')))"

definition default_mech :: "jsval \<Rightarrow> jsval" where
  "default_mech p = js_or (jget p ''defaultMechanism'') (JStr ''tee'')"

definition mech_or_default :: "mechanism option \<Rightarrow> jsval \<Rightarrow> jsval" where
  "mech_or_default m p = (case m of Some x \<Rightarrow> JStr (mech_text x) | None \<Rightarrow> default_mech p)"

text \<open>Step 2: what the request makes of the floor.\<close>

definition raise_tier :: "tier \<Rightarrow> tier_request option \<Rightarrow> jsval \<Rightarrow> tier \<times> jsval" where
  "raise_tier flr req p =
     (let m0 = (if flr = Inference then default_mech p else JNull)
      in case req of
           None \<Rightarrow> (flr, m0)
         | Some r \<Rightarrow>
             if tierRank flr < tierRank (rq_tier r)
             then (rq_tier r, if rq_tier r = Inference then mech_or_default (rq_mech r) p else JNull)
             else if rq_tier r = Inference \<and> flr = Inference \<and> rq_mech r \<noteq> None
             then (flr, mech_or_default (rq_mech r) p)
             else (flr, m0))"

datatype tier_reason =
    Engine_disabled
  | Request_above_floor
  | Value_floor bool
  | Settlement_unavailable
  | No_mechanism
  | Mechanism_degraded mechanism

record tier_answer =
  ta_tier :: tier
  ta_mechanism :: "mechanism option"
  ta_reason :: tier_reason
  ta_floor :: tier
  ta_requested :: "tier option"
  ta_degraded :: bool

text \<open>Step 3: what this node can do of it.\<close>

definition available_tier ::
    "jsval \<Rightarrow> tier \<Rightarrow> jsval \<Rightarrow> tier_reason \<Rightarrow> tier \<times> mechanism option \<times> tier_reason \<times> bool" where
  "available_tier p target mech reason =
     (case target of
        Signed \<Rightarrow> (Signed, None, reason, False)
      | Settlement \<Rightarrow>
          if settlement_available p then (Settlement, None, reason, False)
          else (Signed, None, Settlement_unavailable, True)
      | Inference \<Rightarrow>
          (case resolveMechanism mech p of
             (None, d) \<Rightarrow>
               (if settlement_available p then Settlement else Signed, None, No_mechanism, True)
           | (Some m, d) \<Rightarrow> (Inference, Some m, if d then Mechanism_degraded m else reason, d)))"

definition selectTier :: "jsval \<Rightarrow> jsval \<Rightarrow> tier_answer option" where
  "selectTier task p =
     (case task_amount task of
        None \<Rightarrow> None
      | Some amount \<Rightarrow>
          (let req = requested_tier task
           in if \<not> js_truthy (jget p ''enabled'')
              then (let t = (if settlement_available p then Settlement else Signed)
                    in Some \<lparr>ta_tier = t, ta_mechanism = None, ta_reason = Engine_disabled, ta_floor = t,
                         ta_requested = map_option rq_tier req, ta_degraded = False\<rparr>)
              else (let flr = floor_tier task p amount; (target, mech) = raise_tier flr req p;
                        reason = (case req of
                                    Some r \<Rightarrow> if tierRank flr < tierRank (rq_tier r) then Request_above_floor
                                              else Value_floor (uses_cogs task p)
                                  | None \<Rightarrow> Value_floor (uses_cogs task p));
                        (t, m, why, d) = available_tier p target mech reason
                    in Some \<lparr>ta_tier = t, ta_mechanism = m, ta_reason = why, ta_floor = flr,
                         ta_requested = map_option rq_tier req, ta_degraded = d\<rparr>)))"

section \<open>Lemmas\<close>

lemma tier_less_eq: "a \<le> b \<longleftrightarrow> tierRank a \<le> tierRank b"
  by (simp add: less_eq_tier_def)

lemma raise_tier_max:
  "fst (raise_tier flr req p) = (case req of Some r \<Rightarrow> max flr (rq_tier r) | None \<Rightarrow> flr)"
  by (cases req; cases flr; cases "rq_tier (the req)") (auto simp: raise_tier_def Let_def max_def tier_less_eq)

lemma Inference_top [simp]: "t \<le> Inference" and Signed_bottom [simp]: "Signed \<le> t"
  by (cases t; simp add: tier_less_eq)+

text \<open>The node never claims what it cannot do, and says so when it does less.\<close>

lemma available_tier_honest:
  assumes "available_tier p target mech reason = (t, m, why, d)"
  shows "t \<le> target" "t = Settlement \<Longrightarrow> settlement_available p"
    "t = Inference \<Longrightarrow> \<exists>x. m = Some x \<and> mech_available p x" "\<not> d \<Longrightarrow> t = target"
    "\<not> d \<Longrightarrow> m = Some x \<Longrightarrow> JStr (mech_text x) = mech" "t \<noteq> Inference \<Longrightarrow> m = None"
  using assms
  by (auto simp: available_tier_def resolveMechanism_def tier_less_eq find_Some_iff
      split: tier.splits option.splits if_splits)

lemma value_floor_mono: "a \<le> b \<Longrightarrow> value_floor a t2 t3 \<le> value_floor b t2 t3"
  by (auto simp: value_floor_def split: option.splits)

section \<open>Properties\<close>

text \<open>
  A tier is never overclaimed. With the engine on, the answer is at most the larger
  of the value floor and the requested tier, exactly it unless the answer says degraded, and
  what the answer names is available: settlement, or a mechanism of this node.
\<close>

theorem tier_never_overclaimed:
  assumes "selectTier task p = Some a" "js_truthy (jget p ''enabled'')"
  shows "ta_tier a \<le> max (ta_floor a) (case ta_requested a of Some r \<Rightarrow> r | None \<Rightarrow> Signed) \<and>
    (ta_degraded a \<or> ta_tier a = max (ta_floor a) (case ta_requested a of Some r \<Rightarrow> r | None \<Rightarrow> Signed)) \<and>
    (ta_tier a \<noteq> Settlement \<or> settlement_available p) \<and>
    (if ta_tier a = Inference then (case ta_mechanism a of Some m \<Rightarrow> mech_available p m | None \<Rightarrow> False)
     else ta_mechanism a = None)"
proof -
  from assms obtain amount where am: "task_amount task = Some amount"
    by (auto simp: selectTier_def split: option.splits)
  let ?req = "requested_tier task" and ?flr = "floor_tier task p amount"
  obtain target mech where tg: "raise_tier ?flr ?req p = (target, mech)" by (rule prod.exhaust)
  define reason where "reason = (case ?req of
      Some r \<Rightarrow> if tierRank ?flr < tierRank (rq_tier r) then Request_above_floor else Value_floor (uses_cogs task p)
    | None \<Rightarrow> Value_floor (uses_cogs task p))"
  obtain t m why d where av: "available_tier p target mech reason = (t, m, why, d)" by (metis prod.exhaust)
  from assms am tg av have a: "ta_tier a = t" "ta_mechanism a = m" "ta_floor a = ?flr"
      "ta_requested a = map_option rq_tier ?req" "ta_degraded a = d"
    by (auto simp: selectTier_def reason_def)
  have "target = max ?flr (case ta_requested a of Some r \<Rightarrow> r | None \<Rightarrow> Signed)"
    using raise_tier_max [of ?flr ?req p] tg a(4) by (auto simp: max_absorb1 split: option.splits)
  with available_tier_honest [OF av] a show ?thesis by (auto split: option.splits)
qed

definition demo_policy :: "string \<Rightarrow> jsval" where
  "demo_policy mech = JObj [(''enabled'', JBool True), (''tier2Min'', JStr ''100''), (''tier3Min'', JStr ''1000''),
     (''defaultMechanism'', JStr mech),
     (''available'', JObj [(''settlement'', JBool True), (''tee'', JBool True), (''zk-full'', JBool True)])]"

theorem tier_never_overclaimed_witness:
  "(let p = demo_policy ''tee''; a = the (selectTier (JObj [(''amount'', JStr ''250'')]) p)
    in ta_tier a = Settlement \<and>
      ta_tier a \<le> max (ta_floor a) (case ta_requested a of Some r \<Rightarrow> r | None \<Rightarrow> Signed) \<and>
      (ta_degraded a \<or> ta_tier a = max (ta_floor a) (case ta_requested a of Some r \<Rightarrow> r | None \<Rightarrow> Signed)))"
proof -
  let ?p = "demo_policy ''tee''" and ?t = "JObj [(''amount'', JStr ''250'')]"
  have s: "selectTier ?t ?p = Some (the (selectTier ?t ?p))" "ta_tier (the (selectTier ?t ?p)) = Settlement"
      "js_truthy (jget ?p ''enabled'')"
    by code_simp+
  from tier_never_overclaimed [OF s(1,3)] s(2) show ?thesis by (simp add: Let_def)
qed

text \<open>
  More value at risk never means less assurance: for a fixed policy the floor grows
  with the amount, or with the provider cost where that is the basis.
\<close>

theorem tier_floor_monotone:
  assumes "selectTier task p = Some a" "selectTier task' p = Some b" "js_truthy (jget p ''enabled'')"
    and "uses_cogs task p = uses_cogs task' p"
    and "if uses_cogs task p then the (cogsOf task) \<le> the (cogsOf task')
      else the (task_amount task) \<le> the (task_amount task')"
  shows "ta_floor a \<le> ta_floor b"
proof -
  have f: "selectTier t p = Some x \<Longrightarrow> ta_floor x = floor_tier t p (the (task_amount t))" for t x
    using assms(3) by (auto simp: selectTier_def Let_def split: option.splits prod.splits)
  from f [OF assms(1)] f [OF assms(2)] assms(4,5) show ?thesis
    by (auto simp: floor_tier_def intro: value_floor_mono split: if_splits)
qed

theorem tier_floor_monotone_witness:
  "ta_floor (the (selectTier (JObj [(''amount'', JStr ''250'')]) (demo_policy ''tee''))) \<le>
     ta_floor (the (selectTier (JObj [(''amount'', JStr ''2500'')]) (demo_policy ''tee'')))"
proof (rule tier_floor_monotone)
  show "selectTier (JObj [(''amount'', JStr ''250'')]) (demo_policy ''tee'') =
      Some (the (selectTier (JObj [(''amount'', JStr ''250'')]) (demo_policy ''tee'')))"
    "selectTier (JObj [(''amount'', JStr ''2500'')]) (demo_policy ''tee'') =
      Some (the (selectTier (JObj [(''amount'', JStr ''2500'')]) (demo_policy ''tee'')))"
    "js_truthy (jget (demo_policy ''tee'') ''enabled'')"
    "uses_cogs (JObj [(''amount'', JStr ''250'')]) (demo_policy ''tee'') =
      uses_cogs (JObj [(''amount'', JStr ''2500'')]) (demo_policy ''tee'')"
    "if uses_cogs (JObj [(''amount'', JStr ''250'')]) (demo_policy ''tee'')
      then the (cogsOf (JObj [(''amount'', JStr ''250'')])) \<le> the (cogsOf (JObj [(''amount'', JStr ''2500'')]))
      else the (task_amount (JObj [(''amount'', JStr ''250'')])) \<le> the (task_amount (JObj [(''amount'', JStr ''2500'')]))"
    by code_simp+
qed

text \<open>
  A request can lower the assurance within the inference tier: where the value at
  risk gives the mechanism \<open>zk-full\<close>, a request for \<open>tee\<close> replaces it, and the answer does not
  say degraded.
\<close>

theorem request_lowers_mechanism:
  "map_option (\<lambda>a. (ta_mechanism a, ta_degraded a)) (selectTier (JObj [(''amount'', JStr ''5000'')]) (demo_policy ''zk-full'')) =
     Some (Some Zk_full, False) \<and>
   map_option (\<lambda>a. (ta_mechanism a, ta_degraded a))
     (selectTier (JObj [(''amount'', JStr ''5000''), (''proofTier'', JStr ''tee'')]) (demo_policy ''zk-full'')) =
     Some (Some Tee, False) \<and> Tee < Zk_full"
  by code_simp

end
