(* ===== verification/Free_Tier.thy ===== *)
theory Free_Tier
  imports Js_Store Js_Values
begin

text \<open>
  The daily ceiling on unmetered calls, services/gateway/src/free-tier.js: per-caller counters
  in an insertion-ordered map and one global counter. Amounts are USDC base units (\<open>bigint\<close>,
  here \<open>int\<close>), times are milliseconds, a day is its ISO text. The rounding of a fractional
  dollar amount is a parameter.
\<close>

section \<open>Limits\<close>

definition daily_limit :: "(jsnum \<Rightarrow> int) \<Rightarrow> int \<Rightarrow> string option \<Rightarrow> int" where
  "daily_limit round_micro default_usd raw =
     (case raw of
        None \<Rightarrow> default_usd * 1000000
      | Some t \<Rightarrow>
          if js_trim t = [] then default_usd * 1000000
          else (let n = string_number t
                in if \<not> num_finite n \<or> num_lt n (JInt 0) then default_usd * 1000000
                   else if num_int n = Some 0 then 0 else round_micro n))"

definition utcDay :: "int \<Rightarrow> string" where
  "utcDay now = take 10 (iso_string now)"

definition msUntilReset :: "int \<Rightarrow> int" where
  "msUntilReset now = max 1 ((now div 86400000 + 1) * 86400000 - now)"

section \<open>Counters\<close>

record day_count =
  dc_day :: string
  dc_spent :: int

record free_tier =
  ft_buckets :: "(string, day_count) jsmap"
  ft_global :: "day_count option"

definition MAX_BUCKETS :: nat where
  "MAX_BUCKETS = 10000"

definition freeTierBucket :: "string \<Rightarrow> string \<Rightarrow> string" where
  "freeTierBucket apiKeyHash ip =
     (if apiKeyHash \<noteq> [] then ''key:'' @ apiKeyHash else if ip \<noteq> [] then ''ip:'' @ ip else ''anon'')"

definition readGlobal :: "int \<Rightarrow> free_tier \<Rightarrow> int \<times> free_tier" where
  "readGlobal now s =
     (case ft_global s of
        Some g \<Rightarrow> if dc_day g = utcDay now then (dc_spent g, s)
                  else (0, s\<lparr>ft_global := Some \<lparr>dc_day = utcDay now, dc_spent = 0\<rparr>\<rparr>)
      | None \<Rightarrow> (0, s\<lparr>ft_global := Some \<lparr>dc_day = utcDay now, dc_spent = 0\<rparr>\<rparr>))"

definition readBucket :: "string \<Rightarrow> int \<Rightarrow> free_tier \<Rightarrow> int \<times> free_tier" where
  "readBucket k now s =
     (case jm_get (ft_buckets s) k of
        Some b \<Rightarrow> if dc_day b = utcDay now then (dc_spent b, s)
                  else (0, s\<lparr>ft_buckets := jm_set k \<lparr>dc_day = utcDay now, dc_spent = 0\<rparr> (ft_buckets s)\<rparr>)
      | None \<Rightarrow> (0, s\<lparr>ft_buckets := jm_set k \<lparr>dc_day = utcDay now, dc_spent = 0\<rparr> (ft_buckets s)\<rparr>))"

record allowance =
  al_allowed :: bool
  al_enforced :: bool
  al_spent :: int
  al_limit :: int
  al_globalSpent :: int
  al_globalLimit :: int
  al_scope :: string
  al_retryAfterSec :: int
  al_resetAt :: string

definition checkFreeAllowance :: "int \<Rightarrow> int \<Rightarrow> string \<Rightarrow> int \<Rightarrow> free_tier \<Rightarrow> allowance \<times> free_tier" where
  "checkFreeAllowance limit globalLimit k now s =
     (let (spent, s1) = (if limit = 0 then (0, s) else readBucket k now s);
          (globalSpent, s2) = (if globalLimit = 0 then (0, s1) else readGlobal now s1);
          resetMs = msUntilReset now;
          keyOk = (limit = 0 \<or> spent < limit);
          globalOk = (globalLimit = 0 \<or> globalSpent < globalLimit)
      in (\<lparr>al_allowed = (keyOk \<and> globalOk), al_enforced = (limit \<noteq> 0 \<or> globalLimit \<noteq> 0), al_spent = spent,
           al_limit = limit, al_globalSpent = globalSpent, al_globalLimit = globalLimit,
           al_scope = (if keyOk then (if globalOk then [] else ''global'') else ''key''),
           al_retryAfterSec = (resetMs + 999) div 1000, al_resetAt = iso_string (now + resetMs)\<rparr>, s2))"

text \<open>The eviction: stale days go first; a map that is still full loses its lower half by spend.\<close>

definition fresh_buckets :: "int \<Rightarrow> (string, day_count) jsmap \<Rightarrow> (string, day_count) jsmap" where
  "fresh_buckets now m = filter (\<lambda>(k, b). dc_day b = utcDay now) m"

definition evicted :: "(string, day_count) jsmap \<Rightarrow> string list" where
  "evicted m =
     (let bySpend = sort_key (\<lambda>(k, b). dc_spent b) m
      in map fst (take (max 1 (length bySpend div 2)) bySpend))"

definition delete_all :: "string list \<Rightarrow> (string, day_count) jsmap \<Rightarrow> (string, day_count) jsmap" where
  "delete_all ks m = fold jm_delete ks m"

definition pruneStale :: "int \<Rightarrow> free_tier \<Rightarrow> free_tier" where
  "pruneStale now s =
     (let m = fresh_buckets now (ft_buckets s)
      in if length m < MAX_BUCKETS then s\<lparr>ft_buckets := m\<rparr>
         else snd (readGlobal now (s\<lparr>ft_buckets := delete_all (evicted m) m\<rparr>)))"

definition recordFreeSpend :: "string \<Rightarrow> int \<Rightarrow> int \<Rightarrow> free_tier \<Rightarrow> int \<times> free_tier" where
  "recordFreeSpend k add now s =
     (if add \<le> 0 then readBucket k now s
      else let s1 = (if MAX_BUCKETS \<le> length (ft_buckets s) \<and> \<not> jm_has (ft_buckets s) k then pruneStale now s else s);
               (g, s2) = readGlobal now s1;
               s3 = s2\<lparr>ft_global := Some \<lparr>dc_day = utcDay now, dc_spent = g + add\<rparr>\<rparr>;
               (b, s4) = readBucket k now s3
           in (b + add, s4\<lparr>ft_buckets := jm_set k \<lparr>dc_day = utcDay now, dc_spent = b + add\<rparr> (ft_buckets s4)\<rparr>))"

text \<open>A free call: served when the allowance says so, charged after it.\<close>

definition serve_free :: "int \<Rightarrow> int \<Rightarrow> free_tier \<Rightarrow> string \<times> int \<times> int \<Rightarrow> free_tier" where
  "serve_free limit globalLimit s c =
     (case c of (k, now, cost) \<Rightarrow>
        (let (a, s') = checkFreeAllowance limit globalLimit k now s
         in if al_allowed a then snd (recordFreeSpend k cost now s') else s'))"

definition today_spent :: "string \<Rightarrow> int \<Rightarrow> free_tier \<Rightarrow> int" where
  "today_spent k now s = fst (readBucket k now s)"

definition global_spent :: "int \<Rightarrow> free_tier \<Rightarrow> int" where
  "global_spent now s = fst (readGlobal now s)"

definition callers_today :: "int \<Rightarrow> int \<Rightarrow> free_tier \<Rightarrow> nat \<times> nat" where
  "callers_today limit now s =
     (let bs = filter (\<lambda>b. dc_day b = utcDay now) (jm_values (ft_buckets s))
      in (length bs, length (filter (\<lambda>b. limit \<noteq> 0 \<and> limit \<le> dc_spent b) bs)))"

section \<open>Lemmas\<close>

lemma readBucket_fields:
  "readBucket k now s = (b, s') \<Longrightarrow> ft_global s' = ft_global s \<and>
     jm_get (ft_buckets s') k = Some \<lparr>dc_day = utcDay now, dc_spent = b\<rparr> \<and> b = today_spent k now s"
  by (auto simp: readBucket_def today_spent_def jsmap_simps split: option.splits if_splits)

lemma readGlobal_fields:
  "readGlobal now s = (g, s') \<Longrightarrow> ft_buckets s' = ft_buckets s \<and>
     ft_global s' = Some \<lparr>dc_day = utcDay now, dc_spent = g\<rparr> \<and> g = global_spent now s"
  by (auto simp: readGlobal_def global_spent_def split: option.splits if_splits)

lemma global_spent_readGlobal [simp]: "global_spent now (snd (readGlobal now s)) = global_spent now s"
  by (auto simp: global_spent_def readGlobal_def split: option.splits)

lemma global_spent_buckets [simp]: "global_spent now (s\<lparr>ft_buckets := m\<rparr>) = global_spent now s"
  by (simp add: global_spent_def readGlobal_def split: option.splits)

lemma today_spent_global [simp]: "today_spent k now (s\<lparr>ft_global := g\<rparr>) = today_spent k now s"
  by (simp add: today_spent_def readBucket_def split: option.splits)

lemma global_spent_cong: "ft_global s = ft_global s' \<Longrightarrow> global_spent now s = global_spent now s'"
  by (auto simp: global_spent_def readGlobal_def split: option.splits)

lemma today_spent_cong: "jm_get (ft_buckets s) k = jm_get (ft_buckets s') k \<Longrightarrow> today_spent k now s = today_spent k now s'"
  by (auto simp: today_spent_def readBucket_def split: option.splits)

lemma prune_global [simp]: "global_spent now (pruneStale now s) = global_spent now s"
  by (simp add: pruneStale_def Let_def)

lemma delete_all_get: "jm_get (delete_all ks m) k = (if k \<in> set ks then None else jm_get m k)"
  unfolding delete_all_def by (induction ks arbitrary: m) (auto simp: jsmap_simps)

lemma prune_absent: "jm_get (ft_buckets s) k = None \<Longrightarrow> jm_get (ft_buckets (pruneStale now s)) k = None"
proof -
  assume a: "jm_get (ft_buckets s) k = None"
  then have f: "jm_get (fresh_buckets now (ft_buckets s)) k = None"
    by (auto simp: fresh_buckets_def map_of_eq_None_iff image_iff)
  obtain g t where r: "readGlobal now (s\<lparr>ft_buckets := delete_all (evicted (fresh_buckets now (ft_buckets s)))
      (fresh_buckets now (ft_buckets s))\<rparr>) = (g, t)" by (rule prod.exhaust)
  with readGlobal_fields [OF r] f show ?thesis
    by (auto simp: pruneStale_def Let_def delete_all_get)
qed

lemma record_counts:
  assumes "0 < add"
  shows "fst (recordFreeSpend k add now s) = today_spent k now s + add"
    "today_spent k now (snd (recordFreeSpend k add now s)) = today_spent k now s + add"
    "global_spent now (snd (recordFreeSpend k add now s)) = global_spent now s + add"
proof -
  define s1 where "s1 = (if MAX_BUCKETS \<le> length (ft_buckets s) \<and> \<not> jm_has (ft_buckets s) k then pruneStale now s else s)"
  obtain g s2 where g: "readGlobal now s1 = (g, s2)" by (rule prod.exhaust)
  define s3 where "s3 = s2\<lparr>ft_global := Some \<lparr>dc_day = utcDay now, dc_spent = g + add\<rparr>\<rparr>"
  obtain b s4 where b: "readBucket k now s3 = (b, s4)" by (rule prod.exhaust)
  have rec: "recordFreeSpend k add now s =
      (b + add, s4\<lparr>ft_buckets := jm_set k \<lparr>dc_day = utcDay now, dc_spent = b + add\<rparr> (ft_buckets s4)\<rparr>)"
    using assms g b by (simp add: recordFreeSpend_def s1_def [symmetric] s3_def [symmetric] Let_def)
  have "today_spent k now s1 = today_spent k now s"
    using prune_absent [of s k now] by (auto simp: s1_def jm_has_def intro: today_spent_cong)
  moreover have "today_spent k now s3 = today_spent k now s1"
    using readGlobal_fields [OF g] by (auto simp: s3_def intro: today_spent_cong)
  ultimately have bt: "b = today_spent k now s" using readBucket_fields [OF b] by simp
  have "g = global_spent now s" using readGlobal_fields [OF g] by (simp add: s1_def)
  moreover have "ft_global s4 = Some \<lparr>dc_day = utcDay now, dc_spent = g + add\<rparr>"
    using readBucket_fields [OF b] by (simp add: s3_def)
  ultimately show "fst (recordFreeSpend k add now s) = today_spent k now s + add"
    "today_spent k now (snd (recordFreeSpend k add now s)) = today_spent k now s + add"
    "global_spent now (snd (recordFreeSpend k add now s)) = global_spent now s + add"
    using bt by (simp_all add: rec today_spent_def global_spent_def readBucket_def readGlobal_def jsmap_simps)
qed

text \<open>What a free call does to the global counter.\<close>

lemma check_global:
  assumes "checkFreeAllowance limit L k now s = (a, s')" "L \<noteq> 0"
  shows "ft_global s' = Some \<lparr>dc_day = utcDay now, dc_spent = global_spent now s\<rparr>"
    "al_allowed a \<Longrightarrow> global_spent now s < L"
proof -
  obtain sp s1 where s1: "(if limit = 0 then (0, s) else readBucket k now s) = (sp, s1)" by (rule prod.exhaust)
  obtain g s2 where g: "readGlobal now s1 = (g, s2)" by (rule prod.exhaust)
  have "ft_global s1 = ft_global s" using s1 readBucket_fields [of k now s sp s1] by (auto split: if_splits)
  then have "g = global_spent now s" using readGlobal_fields [OF g] global_spent_cong by metis
  with assms s1 g readGlobal_fields [OF g]
  show "ft_global s' = Some \<lparr>dc_day = utcDay now, dc_spent = global_spent now s\<rparr>"
    "al_allowed a \<Longrightarrow> global_spent now s < L"
    by (auto simp: checkFreeAllowance_def Let_def)
qed

definition global_bounded :: "int \<Rightarrow> free_tier \<Rightarrow> bool" where
  "global_bounded b s \<longleftrightarrow> (case ft_global s of Some g \<Rightarrow> dc_spent g < b | None \<Rightarrow> True)"

definition cost_at_most :: "int \<Rightarrow> string \<times> int \<times> int \<Rightarrow> bool" where
  "cost_at_most A c \<longleftrightarrow> snd (snd c) \<le> A"

lemma serve_bounded:
  assumes "0 < L" "0 < A" "global_bounded (L + A) s" "cost_at_most A c"
  shows "global_bounded (L + A) (serve_free limit L s c)"
proof -
  obtain k now cost where c: "c = (k, now, cost)" by (rule prod_cases3)
  obtain a s' where ch: "checkFreeAllowance limit L k now s = (a, s')" by (rule prod.exhaust)
  note g = check_global [OF ch]
  have old: "global_spent now s < L + A"
    using assms(1-3) by (auto simp: global_bounded_def global_spent_def readGlobal_def split: option.splits)
  show ?thesis
  proof (cases "al_allowed a")
    case False
    with ch c g(1) assms(1) old show ?thesis by (simp add: serve_free_def global_bounded_def)
  next
    case True
    obtain b s'' where r: "recordFreeSpend k cost now s' = (b, s'')" by (rule prod.exhaust)
    have sp: "global_spent now s' = global_spent now s"
      using g(1) assms(1) by (simp add: global_spent_def readGlobal_def)
    show ?thesis
    proof (cases "0 < cost")
      case False
      with r have "ft_global s'' = ft_global s'"
        using readBucket_fields [of k now s' b s''] by (simp add: recordFreeSpend_def)
      with True ch c r g(1) assms(1) old show ?thesis by (simp add: serve_free_def global_bounded_def)
    next
      case pos: True
      have "global_spent now s'' < L + A"
        using record_counts(3) [OF pos, of now k s'] r sp g(2) [OF _ True] assms(1,4) c
        by (simp add: cost_at_most_def)
      moreover have "\<exists>n. ft_global s'' = Some \<lparr>dc_day = utcDay now, dc_spent = n\<rparr>"
        using r pos
        by (auto simp: recordFreeSpend_def Let_def split: prod.splits dest!: readBucket_fields)
      ultimately show ?thesis
        using True ch c r by (auto simp: serve_free_def global_bounded_def global_spent_def readGlobal_def)
    qed
  qed
qed

text \<open>An entry that the eviction drops has spent no more than one that stays.\<close>

lemma sorted_take_drop:
  "sorted (map f ys) \<Longrightarrow> x \<in> set (take n ys) \<Longrightarrow> y \<in> set (drop n ys) \<Longrightarrow> f x \<le> f y"
proof -
  assume a: "sorted (map f ys)" "x \<in> set (take n ys)" "y \<in> set (drop n ys)"
  from a(1) have "sorted (map f (take n ys @ drop n ys))" by simp
  then have "sorted (map f (take n ys) @ map f (drop n ys))" by (simp only: map_append)
  with a(2,3) show ?thesis by (auto simp only: sorted_append set_map)
qed

lemma delete_all_set: "set (delete_all ks m) = {p \<in> set m. fst p \<notin> set ks}"
  unfolding delete_all_def by (induction ks arbitrary: m) (auto simp: AList.delete_eq)

lemma evicted_least:
  assumes "jm_ok m" "p \<in> set m" "q \<in> set (delete_all (evicted m) m)"
  shows "p \<in> set (delete_all (evicted m) m) \<or> dc_spent (snd p) \<le> dc_spent (snd q)"
proof (cases "p \<in> set (delete_all (evicted m) m)")
  case out: False
  let ?f = "\<lambda>(k, b). dc_spent b" and ?n = "max 1 (length m div 2)"
  let ?ys = "sort_key ?f m"
  from out assms(2) have "fst p \<in> fst ` set (take ?n ?ys)"
    by (auto simp: delete_all_set evicted_def Let_def)
  then obtain p' where p': "p' \<in> set (take ?n ?ys)" "fst p' = fst p" by auto
  then have "p' \<in> set m" using in_set_takeD [OF p'(1)] by simp
  with p'(2) assms(1,2) have "p' = p"
    by (auto simp: jm_ok_def distinct_map dest: inj_onD)
  with p' have "p \<in> set (take ?n ?ys)" by simp
  moreover from assms(3) have "q \<in> set m" "q \<notin> set (take ?n ?ys)"
    by (auto simp: delete_all_set evicted_def Let_def)
  then have "q \<in> set (drop ?n ?ys)"
    using set_append [of "take ?n ?ys" "drop ?n ?ys"] by simp
  ultimately have "?f p \<le> ?f q" using sorted_take_drop [of ?f ?ys p ?n q] by simp
  then show ?thesis by (cases p; cases q) simp
qed simp

interpretation free_calls: invariant_run "serve_free limit L"
    "\<lambda>s. 0 < L \<and> 0 < A \<and> global_bounded (L + A) s" "cost_at_most A"
  by unfold_locales (auto intro: serve_bounded)

section \<open>Properties\<close>

text \<open>
  The subsidy is bounded by the global ceiling and one call. Serve any sequence of
  free calls, by any callers at any times, each at most \<open>A\<close> in cost: the amount spent on a day
  stays below the global ceiling plus \<open>A\<close>, whatever counters the eviction drops.
\<close>

theorem free_tier_overshoot_one_call:
  assumes "0 < L" "0 < A" "global_bounded (L + A) s" "list_all (cost_at_most A) calls"
  shows "global_bounded (L + A) (foldl (serve_free limit L) s calls)"
  using free_calls.run_inv [of L A s calls limit] assms by simp

theorem free_tier_overshoot_one_call_witness:
  "global_bounded (50 + 30)
     (foldl (serve_free 40 50) \<lparr>ft_buckets = [], ft_global = None\<rparr> [(''a'', 0, 30), (''b'', 5, 30), (''a'', 9, 30)])"
  by (rule free_tier_overshoot_one_call) (simp_all add: global_bounded_def cost_at_most_def)

text \<open>
  A charge is counted in full: it adds exactly its amount to the caller's counter of
  the day and to the global one, and answers the caller's new total, also when it evicts.
\<close>

theorem free_spend_counted:
  assumes "0 < add"
  shows "fst (recordFreeSpend k add now s) = today_spent k now s + add \<and>
    today_spent k now (snd (recordFreeSpend k add now s)) = today_spent k now s + add \<and>
    global_spent now (snd (recordFreeSpend k add now s)) = global_spent now s + add"
  using record_counts [OF assms] by simp

theorem free_spend_counted_witness:
  "fst (recordFreeSpend ''a'' 7 0 \<lparr>ft_buckets = [], ft_global = None\<rparr>) =
     today_spent ''a'' 0 \<lparr>ft_buckets = [], ft_global = None\<rparr> + 7"
  using free_spend_counted [of 7 "''a''" 0 "\<lparr>ft_buckets = [], ft_global = None\<rparr>"] by simp

text \<open>
  Churning keys does not reset a spender: the eviction never touches the global
  counter, and a counter of today that it drops had spent no more than any that it keeps.
\<close>

theorem eviction_keeps_spenders:
  assumes "jm_ok (ft_buckets s)" "(k, b) \<in> set (ft_buckets s)" "dc_day b = utcDay now"
    and "(k', b') \<in> set (ft_buckets (pruneStale now s))"
  shows "((k, b) \<in> set (ft_buckets (pruneStale now s)) \<or> dc_spent b \<le> dc_spent b') \<and>
    global_spent now (pruneStale now s) = global_spent now s"
proof -
  let ?m = "fresh_buckets now (ft_buckets s)"
  have m: "jm_ok ?m" "(k, b) \<in> set ?m"
    using assms(1-3) by (auto simp: jm_ok_def fresh_buckets_def distinct_map_filter)
  obtain g t where r: "readGlobal now (s\<lparr>ft_buckets := delete_all (evicted ?m) ?m\<rparr>) = (g, t)"
    by (rule prod.exhaust)
  then have p: "ft_buckets (pruneStale now s) = (if length ?m < MAX_BUCKETS then ?m else delete_all (evicted ?m) ?m)"
    using readGlobal_fields [OF r] by (simp add: pruneStale_def Let_def)
  from assms(4) p evicted_least [OF m, of "(k', b')"] m(2) show ?thesis by (auto split: if_splits)
qed

theorem eviction_keeps_spenders_witness:
  "(let s = \<lparr>ft_buckets = [(''a'', \<lparr>dc_day = utcDay 0, dc_spent = 3\<rparr>), (''b'', \<lparr>dc_day = utcDay 0, dc_spent = 8\<rparr>)],
        ft_global = None\<rparr>
    in (''a'', \<lparr>dc_day = utcDay 0, dc_spent = 3\<rparr>) \<in> set (ft_buckets (pruneStale 0 s)) \<or> (3 :: int) \<le> 8)"
  unfolding Let_def
  using eviction_keeps_spenders [of
      "\<lparr>ft_buckets = [(''a'', \<lparr>dc_day = utcDay 0, dc_spent = 3\<rparr>), (''b'', \<lparr>dc_day = utcDay 0, dc_spent = 8\<rparr>)], ft_global = None\<rparr>"
      "''a''" "\<lparr>dc_day = utcDay 0, dc_spent = 3\<rparr>" 0 "''b''" "\<lparr>dc_day = utcDay 0, dc_spent = 8\<rparr>"]
  by (simp add: jm_ok_def pruneStale_def fresh_buckets_def MAX_BUCKETS_def)

text \<open>
  The memory guard covers charges only: a mere allowance check of a caller not seen
  before adds a counter to the map, however many there are.
\<close>

theorem check_grows_map:
  assumes "limit \<noteq> 0" "jm_get (ft_buckets s) k = None"
  shows "length (ft_buckets (snd (checkFreeAllowance limit L k now s))) = Suc (length (ft_buckets s))"
proof -
  have upd: "map_of m k = None \<Longrightarrow> length (jm_set k v m) = Suc (length m)" for m :: "(string, day_count) jsmap" and v
    by (induction m) (auto split: if_splits)
  obtain b s1 where b: "readBucket k now s = (b, s1)" by (rule prod.exhaust)
  obtain g s2 where g: "readGlobal now s1 = (g, s2)" by (rule prod.exhaust)
  from b assms(2) have "length (ft_buckets s1) = Suc (length (ft_buckets s))"
    by (auto simp: readBucket_def upd)
  with b g assms(1) readGlobal_fields [OF g] show ?thesis by (simp add: checkFreeAllowance_def Let_def)
qed

theorem check_grows_map_witness:
  "length (ft_buckets (snd (checkFreeAllowance 1 0 ''k'' 0 \<lparr>ft_buckets = [], ft_global = None\<rparr>))) = Suc 0"
  using check_grows_map [of 1 "\<lparr>ft_buckets = [], ft_global = None\<rparr>" "''k''" 0 0] by simp

definition untouched_today :: "string \<Rightarrow> int \<Rightarrow> free_tier \<Rightarrow> bool" where
  "untouched_today k now s \<longleftrightarrow>
     (case jm_get (ft_buckets s) k of Some b \<Rightarrow> dc_day b \<noteq> utcDay now | None \<Rightarrow> True) \<and>
     (case ft_global s of Some g \<Rightarrow> dc_day g \<noteq> utcDay now | None \<Rightarrow> True)"

text \<open>
  The allowance comes back: when nothing was charged to a caller nor to the network
  on the day of \<open>now\<close>, whatever was spent on the days before, the caller is allowed.
\<close>

theorem allowance_resets:
  assumes "untouched_today k now s" "0 \<le> limit" "0 \<le> globalLimit"
  shows "al_allowed (fst (checkFreeAllowance limit globalLimit k now s))"
proof -
  obtain b s1 where b: "readBucket k now s = (b, s1)" by (rule prod.exhaust)
  have b0: "b = 0" and s1: "ft_global s1 = ft_global s"
    using b assms(1) readBucket_fields [OF b]
    by (auto simp: readBucket_def untouched_today_def split: option.splits if_splits)
  have g: "fst (readGlobal now t) = 0" if "ft_global t = ft_global s" for t
    using that assms(1) by (auto simp: readGlobal_def untouched_today_def split: option.splits)
  obtain g1 t1 where g1: "readGlobal now s1 = (g1, t1)" by (rule prod.exhaust)
  obtain g2 t2 where g2: "readGlobal now s = (g2, t2)" by (rule prod.exhaust)
  have "g1 = 0" "g2 = 0" using g [of s1] g [of s] g1 g2 s1 by simp_all
  with b b0 g1 g2 assms(2,3) show ?thesis by (auto simp: checkFreeAllowance_def Let_def)
qed

theorem allowance_resets_witness:
  "al_allowed (fst (checkFreeAllowance 5 50 ''a'' 86400000
     \<lparr>ft_buckets = [(''a'', \<lparr>dc_day = utcDay 0, dc_spent = 9\<rparr>)], ft_global = Some \<lparr>dc_day = utcDay 0, dc_spent = 90\<rparr>\<rparr>))"
proof (rule allowance_resets)
  have "utcDay 0 \<noteq> utcDay 86400000" by code_simp
  then show "untouched_today ''a'' 86400000
     \<lparr>ft_buckets = [(''a'', \<lparr>dc_day = utcDay 0, dc_spent = 9\<rparr>)], ft_global = Some \<lparr>dc_day = utcDay 0, dc_spent = 90\<rparr>\<rparr>"
    by (simp add: untouched_today_def)
qed simp_all

end
