(* ===== verification/Revenue_Split.thy ===== *)
theory Revenue_Split
  imports Js_Values
begin

text \<open>
  The split of the protocol fee, services/gateway/src/revenue-split.js. Environment variables
  are a function from names to texts (the empty text for an unset one), the parsed
  \<open>REVENUE_SPLIT\<close> is a value (\<open>JNull\<close> when it is absent or does not parse), labels are left
  out, and fees are \<open>bigint\<close>.
\<close>

section \<open>Definitions\<close>

definition TOTAL_BPS :: int where
  "TOTAL_BPS = 10000"

record bucket_spec =
  bk_key :: string
  bk_default :: int
  bk_addrEnv :: string
  bk_bpsEnv :: string

definition BUCKETS :: "bucket_spec list" where
  "BUCKETS =
     [\<lparr>bk_key = ''treasury'', bk_default = 4000, bk_addrEnv = ''REVENUE_TREASURY_ADDRESS'', bk_bpsEnv = ''REVENUE_TREASURY_BPS''\<rparr>,
      \<lparr>bk_key = ''buyback'', bk_default = 3500, bk_addrEnv = ''REVENUE_BUYBACK_ADDRESS'', bk_bpsEnv = ''REVENUE_BUYBACK_BPS''\<rparr>,
      \<lparr>bk_key = ''stakers'', bk_default = 2500, bk_addrEnv = ''REVENUE_STAKERS_ADDRESS'', bk_bpsEnv = ''REVENUE_STAKERS_BPS''\<rparr>]"

record split_bucket =
  sb_key :: string
  sb_address :: jsval
  sb_bps :: int

record fee_split =
  fs_buckets :: "split_bucket list"
  fs_totalBps :: int

definition parseBps :: "jsval \<Rightarrow> int \<Rightarrow> int" where
  "parseBps raw fallback =
     (if js_nullish raw \<or> raw = JStr [] then fallback
      else (case num_int (js_Number raw) of Some n \<Rightarrow> if 0 \<le> n then n else fallback | None \<Rightarrow> fallback))"

definition resolve_bucket :: "jsval \<Rightarrow> (string \<Rightarrow> string) \<Rightarrow> bucket_spec \<Rightarrow> split_bucket" where
  "resolve_bucket json env b =
     (let j = (if js_truthy json \<and> js_truthy (jget json (bk_key b)) then jget json (bk_key b) else JNull);
          address = (if js_truthy j \<and> js_truthy (jget j ''address'') then jget j ''address''
                     else js_or (JStr (env (bk_addrEnv b))) JNull);
          bps = (if js_truthy j \<and> \<not> js_nullish (jget j ''bps'') then parseBps (jget j ''bps'') (bk_default b)
                 else parseBps (JStr (env (bk_bpsEnv b))) (bk_default b))
      in \<lparr>sb_key = bk_key b, sb_address = address, sb_bps = bps\<rparr>)"

definition resolveSplit :: "jsval \<Rightarrow> (string \<Rightarrow> string) \<Rightarrow> fee_split" where
  "resolveSplit json env =
     (let bs = map (resolve_bucket json env) BUCKETS
      in \<lparr>fs_buckets = bs, fs_totalBps = sum_list (map sb_bps bs)\<rparr>)"

definition is_address :: "jsval \<Rightarrow> bool" where
  "is_address v =
     (let s = js_String (js_or v (JStr []))
      in length s = 42 \<and> take 2 s = ''0x'' \<and> is_hex (js_lower (drop 2 s)))"

datatype split_error = Sum_wrong int | Negative_bps string | Address_missing string int

definition bucket_errors :: "bool \<Rightarrow> split_bucket \<Rightarrow> split_error list" where
  "bucket_errors requireAddresses b =
     (if sb_bps b < 0 then [Negative_bps (sb_key b)] else []) @
     (if requireAddresses \<and> 0 < sb_bps b \<and> \<not> is_address (sb_address b)
      then [Address_missing (sb_key b) (sb_bps b)] else [])"

definition validateSplit :: "bool \<Rightarrow> fee_split \<Rightarrow> split_error list" where
  "validateSplit requireAddresses s =
     (if fs_totalBps s \<noteq> TOTAL_BPS then [Sum_wrong (fs_totalBps s)] else []) @
     concat (map (bucket_errors requireAddresses) (fs_buckets s))"

record splits_config =
  sc_recipients :: "jsval list"
  sc_allocations :: "int list"
  sc_totalAllocation :: int
  sc_incentive :: int

definition toSplitsV2Config :: "fee_split \<Rightarrow> jsval \<Rightarrow> splits_config" where
  "toSplitsV2Config s incentive =
     (let active = filter (\<lambda>b. 0 < sb_bps b \<and> is_address (sb_address b)) (fs_buckets s);
          allocations = map sb_bps active
      in \<lparr>sc_recipients = map sb_address active, sc_allocations = allocations,
          sc_totalAllocation = sum_list allocations,
          sc_incentive = (case incentive of JNum x \<Rightarrow> (case num_int x of Some n \<Rightarrow> n | None \<Rightarrow> 0) | _ \<Rightarrow> 0)\<rparr>)"

text \<open>Division of \<open>bigint\<close> rounds towards zero.\<close>

definition big_div :: "int \<Rightarrow> int \<Rightarrow> int" where
  "big_div a b = sgn a * sgn b * (\<bar>a\<bar> div \<bar>b\<bar>)"

fun split_rows :: "int \<Rightarrow> int \<Rightarrow> int \<Rightarrow> split_bucket list \<Rightarrow> (split_bucket \<times> int) list" where
  "split_rows fee_units bpsTotal assigned [] = []"
| "split_rows fee_units bpsTotal assigned [b] = [(b, fee_units - assigned)]"
| "split_rows fee_units bpsTotal assigned (b # c # bs) =
     (let amount = big_div (fee_units * sb_bps b) bpsTotal
      in (b, amount) # split_rows fee_units bpsTotal (assigned + amount) (c # bs))"

text \<open>\<open>None\<close> is the error of \<open>BigInt\<close>; \<open>totalBps || TOTAL_BPS\<close> keeps the divisor non-zero.\<close>

definition splitFee :: "jsval \<Rightarrow> fee_split \<Rightarrow> (split_bucket \<times> int) list option" where
  "splitFee fee s =
     map_option (\<lambda>fee_units. split_rows fee_units (if fs_totalBps s = 0 then TOTAL_BPS else fs_totalBps s) 0 (fs_buckets s))
       (js_BigInt fee)"

section \<open>Lemmas\<close>

lemma big_div_nonneg: "0 \<le> a \<Longrightarrow> 0 < b \<Longrightarrow> big_div a b = a div b"
  by (cases "a = 0") (simp_all add: big_div_def)

lemma split_rows_sum: "bs \<noteq> [] \<Longrightarrow> sum_list (map snd (split_rows fee_units n assigned bs)) = fee_units - assigned"
  by (induction fee_units n assigned bs rule: split_rows.induct) (simp_all add: Let_def)

lemma split_rows_buckets: "map fst (split_rows fee_units n assigned bs) = bs"
  by (induction fee_units n assigned bs rule: split_rows.induct) (simp_all add: Let_def)

text \<open>With shares that do not exceed the whole, every row gets at least its share, rounded down.\<close>

lemma split_rows_share:
  assumes "0 \<le> fee_units" "0 < n" "list_all (\<lambda>b. 0 \<le> sb_bps b) bs"
    and "assigned * n + fee_units * sum_list (map sb_bps bs) \<le> fee_units * n"
  shows "list_all (\<lambda>(b, amount). fee_units * sb_bps b div n \<le> amount) (split_rows fee_units n assigned bs)"
  using assms
proof (induction fee_units n assigned bs rule: split_rows.induct)
  case (2 fee_units n assigned b)
  then have "fee_units * sb_bps b \<le> (fee_units - assigned) * n" by (simp add: algebra_simps)
  with 2(2) have "fee_units * sb_bps b div n \<le> fee_units - assigned"
    by (metis nonzero_mult_div_cancel_right order_less_irrefl zdiv_mono1)
  then show ?case by simp
next
  case (3 fee_units n assigned b c bs)
  have d: "big_div (fee_units * sb_bps b) n = fee_units * sb_bps b div n"
    using 3(2-4) by (simp add: big_div_nonneg)
  moreover have "fee_units * sb_bps b div n * n \<le> fee_units * sb_bps b"
    using 3(3) by (simp add: minus_mod_eq_div_mult [symmetric])
  ultimately have "(assigned + big_div (fee_units * sb_bps b) n) * n + fee_units * sum_list (map sb_bps (c # bs)) \<le> fee_units * n"
    using 3(5) by (simp add: algebra_simps)
  with 3 d show ?case by (simp add: Let_def)
qed simp

section \<open>Properties\<close>

text \<open>
  No unit of a fee is lost or made up: for a split that \<open>validateSplit\<close> passes and
  whose total is the sum of its buckets (as \<open>resolveSplit\<close> computes it), the amounts of a
  non-negative fee add up to it, go to the buckets in order, and each is at least its share
  rounded down, so none is negative.
\<close>

theorem fee_split_exact:
  assumes "validateSplit req s = []" "fs_totalBps s = sum_list (map sb_bps (fs_buckets s))"
    and "splitFee fee s = Some rows" "js_BigInt fee = Some fee_units" "0 \<le> fee_units"
  shows "sum_list (map snd rows) = fee_units \<and> map fst rows = fs_buckets s \<and>
    list_all (\<lambda>(b, amount). fee_units * sb_bps b div TOTAL_BPS \<le> amount \<and> 0 \<le> amount) rows"
proof -
  let ?bs = "fs_buckets s"
  from assms(1) have t: "fs_totalBps s = TOTAL_BPS" by (auto simp: validateSplit_def split: if_splits)
  from assms(1) have bp: "list_all (\<lambda>b. 0 \<le> sb_bps b) ?bs"
    by (auto simp: validateSplit_def bucket_errors_def list_all_iff not_less split: if_splits)
  have ne: "?bs \<noteq> []" using t assms(2) by (auto simp: TOTAL_BPS_def)
  from assms(3,4) t have r: "rows = split_rows fee_units TOTAL_BPS 0 ?bs"
    by (auto simp: splitFee_def TOTAL_BPS_def)
  have pos: "0 < TOTAL_BPS" by (simp add: TOTAL_BPS_def)
  have sh: "list_all (\<lambda>(b, amount). fee_units * sb_bps b div TOTAL_BPS \<le> amount) rows"
    unfolding r using assms(2,5) bp pos t by (intro split_rows_share) simp_all
  have fst: "map fst rows = ?bs" by (simp add: r split_rows_buckets)
  have "0 \<le> amount" if "(b, amount) \<in> set rows" for b amount
  proof -
    from that fst have "b \<in> set ?bs" by (metis fst_conv image_eqI list.set_map)
    with bp assms(5) pos have "0 \<le> fee_units * sb_bps b div TOTAL_BPS"
      by (auto simp: list_all_iff pos_imp_zdiv_nonneg_iff)
    with sh that show ?thesis by (auto simp: list_all_iff)
  qed
  with sh fst split_rows_sum [OF ne] show ?thesis by (auto simp: r list_all_iff)
qed

theorem fee_split_exact_witness:
  "(let s = resolveSplit JNull (\<lambda>x. []); rows = the (splitFee (JBig 100003) s)
    in map snd rows = [40001, 35001, 25001] \<and> sum_list (map snd rows) = 100003)"
proof -
  let ?s = "resolveSplit JNull (\<lambda>x. [])"
  have r: "?s = \<lparr>fs_buckets = [\<lparr>sb_key = ''treasury'', sb_address = JNull, sb_bps = 4000\<rparr>,
      \<lparr>sb_key = ''buyback'', sb_address = JNull, sb_bps = 3500\<rparr>,
      \<lparr>sb_key = ''stakers'', sb_address = JNull, sb_bps = 2500\<rparr>], fs_totalBps = 10000\<rparr>"
    by (simp add: resolveSplit_def BUCKETS_def resolve_bucket_def Let_def parseBps_def js_or_def)
  have v: "validateSplit False ?s = []" "fs_totalBps ?s = sum_list (map sb_bps (fs_buckets ?s))"
    "splitFee (JBig 100003) ?s = Some (the (splitFee (JBig 100003) ?s))"
    "js_BigInt (JBig 100003) = Some 100003" "map snd (the (splitFee (JBig 100003) ?s)) = [40001, 35001, 25001]"
    by (simp_all add: r validateSplit_def bucket_errors_def TOTAL_BPS_def splitFee_def js_BigInt_def big_div_def)
  from fee_split_exact [OF v(1-4)] v(5) show ?thesis by (simp add: Let_def)
qed

text \<open>
  The configuration for the chain keeps the shares only when every bucket has an
  address: with the defaults and no address for the stakers the split is valid, and the
  treasury's share of the configured allocation is 4000 in 7500.
\<close>

theorem config_rescales_shares:
  "(let a = JStr ''0x00000000000000000000000000000000000000aa'';
        s = resolveSplit (JObj [(''treasury'', JObj [(''address'', a)]), (''buyback'', JObj [(''address'', a)])]) (\<lambda>x. []);
        c = toSplitsV2Config s JUndef
    in validateSplit False s = [] \<and> map sb_bps (fs_buckets s) = [4000, 3500, 2500] \<and>
       sc_allocations c = [4000, 3500] \<and> sc_totalAllocation c = 7500)"
  by code_simp

end
