(* ===== verification/Canonical_Json.thy ===== *)
theory Canonical_Json
  imports Sha256 "HOL-Library.List_Lexorder"
begin

text \<open>
  The two canonicalizers of services/gateway/src/offer-receipt.js, \<open>jcsCanonicalize\<close> and
  \<open>jcsRfc8785\<close>. A JavaScript text is the list of its UTF-16 code units. A finite number other than
  negative zero is given by the text that \<open>String\<close> prints for it, from which the language reads
  the same number back; \<open>JSON.stringify\<close> prints it alike. \<open>COther\<close> is a function, a symbol or a BigInt other
  than zero. The members of an object have distinct
  keys and are listed in the order the language enumerates them. A throw is \<open>None\<close>.
\<close>

section \<open>Texts and values\<close>

type_synonym unit16 = "16 word"
type_synonym text16 = "unit16 list"

definition ascii :: "string \<Rightarrow> text16" where
  "ascii s = map (\<lambda>c. word_of_nat (of_char c)) s"

datatype cnumber = Finite text16 | Negative_zero | Infinite | Not_a_number

datatype cval =
    CUndefined
  | CNull
  | CBool bool
  | CNum cnumber
  | CStr text16
  | CArr "cval list"
  | CObj "(text16 \<times> cval) list"
  | COther

section \<open>Strings\<close>

definition hex_unit :: "nat \<Rightarrow> unit16" where
  "hex_unit d = (if d < 10 then word_of_nat (48 + d) else word_of_nat (87 + d))"

definition u_escape :: "unit16 \<Rightarrow> text16" where
  "u_escape c = 92 # ascii ''u00'' @ [hex_unit (unat c div 16), hex_unit (unat c mod 16)]"

text \<open>One code unit as \<open>jcsString\<close> writes it, and as \<open>JSON.stringify\<close> does in a well-formed text.\<close>

definition jcs_escape :: "unit16 \<Rightarrow> text16" where
  "jcs_escape c = (if c < 32 then u_escape c else if c = 34 then [92, 34] else if c = 92 then [92, 92] else [c])"

definition json_escape :: "unit16 \<Rightarrow> text16" where
  "json_escape c =
     (if c = 8 then [92, 98] else if c = 9 then [92, 116] else if c = 10 then [92, 110]
      else if c = 12 then [92, 102] else if c = 13 then [92, 114] else jcs_escape c)"

definition quoted :: "(unit16 \<Rightarrow> text16) \<Rightarrow> text16 \<Rightarrow> text16" where
  "quoted e s = [34] @ concat (map e s) @ [34]"

definition jcsString :: "text16 \<Rightarrow> text16 option" where
  "jcsString s = Some (quoted jcs_escape s)"

definition high_surrogate :: "unit16 \<Rightarrow> bool" where
  "high_surrogate c \<longleftrightarrow> 0xD800 \<le> c \<and> c \<le> 0xDBFF"

definition low_surrogate :: "unit16 \<Rightarrow> bool" where
  "low_surrogate c \<longleftrightarrow> 0xDC00 \<le> c \<and> c \<le> 0xDFFF"

fun assertWellFormedUtf16 :: "text16 \<Rightarrow> bool" where
  "assertWellFormedUtf16 [] = True"
| "assertWellFormedUtf16 [c] = (\<not> high_surrogate c \<and> \<not> low_surrogate c)"
| "assertWellFormedUtf16 (c # d # s) =
     (if high_surrogate c then low_surrogate d \<and> assertWellFormedUtf16 s
      else \<not> low_surrogate c \<and> assertWellFormedUtf16 (d # s))"

definition rfc8785String :: "text16 \<Rightarrow> text16 option" where
  "rfc8785String s = (if assertWellFormedUtf16 s then Some (quoted json_escape s) else None)"

section \<open>Values\<close>

text \<open>\<open>join(',')\<close>.\<close>

fun joined :: "text16 list \<Rightarrow> text16" where
  "joined [] = []"
| "joined [t] = t"
| "joined (t # u # ts) = t @ 44 # joined (u # ts)"

text \<open>The members that are written, in the order of their keys.\<close>

definition members :: "(text16 \<times> cval) list \<Rightarrow> (text16 \<times> cval) list" where
  "members kvs = filter (\<lambda>(k, v). v \<noteq> CUndefined) (sort_key fst kvs)"

lemma members_subset: "set (members kvs) \<subseteq> set kvs"
  by (auto simp: members_def)

lemma member_size: "(k, v) \<in> set kvs \<Longrightarrow> size v < Suc (size_list (size_prod (\<lambda>x. 0) size) kvs)"
  by (induction kvs) auto

text \<open>\<open>jcsValue\<close> and \<open>rfc8785Value\<close> differ in how they write a text, which is \<open>str\<close>.\<close>

function canonical :: "(text16 \<Rightarrow> text16 option) \<Rightarrow> cval \<Rightarrow> text16 option" where
  "canonical str CUndefined = Some (ascii ''null'')"
| "canonical str CNull = Some (ascii ''null'')"
| "canonical str (CBool b) = Some (ascii (if b then ''true'' else ''false''))"
| "canonical str (CNum n) = (case n of Finite t \<Rightarrow> Some t | Negative_zero \<Rightarrow> Some (ascii ''0'') | _ \<Rightarrow> None)"
| "canonical str (CStr s) = str s"
| "canonical str (CArr vs) = map_option (\<lambda>ts. [91] @ joined ts @ [93]) (those (map (canonical str) vs))"
| "canonical str (CObj kvs) = map_option (\<lambda>ts. [123] @ joined ts @ [125])
     (those (map (\<lambda>(k, v). case str k of None \<Rightarrow> None | Some t \<Rightarrow> map_option (\<lambda>x. t @ 58 # x) (canonical str v)) (members kvs)))"
| "canonical str COther = None"
  by pat_completeness auto

termination
proof (relation "measure (\<lambda>(str, v). size v)")
  show "\<And>str vs v. v \<in> set vs \<Longrightarrow> ((str, v), str, CArr vs) \<in> measure (\<lambda>(str, v). size v)"
    by (auto dest: size_list_estimation' [of _ _ _ size, OF _ order_refl])
next
  fix str kvs p k v t
  assume "p \<in> set (members kvs)" "(k, v) = p"
  then have "(k, v) \<in> set kvs" using members_subset by fastforce
  from member_size [OF this] show "((str, v), str, CObj kvs) \<in> measure (\<lambda>(str, v). size v)" by simp
qed simp

definition jcsCanonicalize :: "cval \<Rightarrow> text16 option" where
  "jcsCanonicalize v = canonical jcsString v"

definition jcsRfc8785 :: "cval \<Rightarrow> text16 option" where
  "jcsRfc8785 v = canonical rfc8785String v"


section \<open>Canonical text and JSON values\<close>

text \<open>
  What a value says as JSON: undefined entries are null, undefined members are absent, members have
  no order, and there is one zero. Members are kept sorted by key, so equal values are equal terms.
\<close>

datatype json =
    JsonNull
  | JsonBool bool
  | JsonNum text16
  | JsonStr text16
  | JsonArr "json list"
  | JsonObj "(text16 \<times> json) list"

function json_of :: "cval \<Rightarrow> json option" where
  "json_of CUndefined = Some JsonNull"
| "json_of CNull = Some JsonNull"
| "json_of (CBool b) = Some (JsonBool b)"
| "json_of (CNum n) = (case n of Finite t \<Rightarrow> Some (JsonNum t) | Negative_zero \<Rightarrow> Some (JsonNum (ascii ''0'')) | _ \<Rightarrow> None)"
| "json_of (CStr s) = Some (JsonStr s)"
| "json_of (CArr vs) = map_option JsonArr (those (map json_of vs))"
| "json_of (CObj kvs) = map_option JsonObj (those (map (\<lambda>(k, v). map_option (Pair k) (json_of v)) (members kvs)))"
| "json_of COther = None"
  by pat_completeness auto

termination
proof (relation "measure size")
  show "\<And>vs v. v \<in> set vs \<Longrightarrow> (v, CArr vs) \<in> measure size"
    by (auto dest: size_list_estimation' [of _ _ _ size, OF _ order_refl])
next
  fix kvs p k v
  assume "p \<in> set (members kvs)" "(k, v) = p"
  then have "(k, v) \<in> set kvs" using members_subset by fastforce
  from member_size [OF this] show "(v, CObj kvs) \<in> measure size" by simp
qed simp

fun printed :: "(text16 \<Rightarrow> text16 option) \<Rightarrow> json \<Rightarrow> text16 option" where
  "printed str JsonNull = Some (ascii ''null'')"
| "printed str (JsonBool b) = Some (ascii (if b then ''true'' else ''false''))"
| "printed str (JsonNum t) = Some t"
| "printed str (JsonStr s) = str s"
| "printed str (JsonArr js) = map_option (\<lambda>ts. [91] @ joined ts @ [93]) (those (map (printed str) js))"
| "printed str (JsonObj kjs) = map_option (\<lambda>ts. [123] @ joined ts @ [125])
     (those (map (\<lambda>(k, j). case str k of None \<Rightarrow> None | Some t \<Rightarrow> map_option (\<lambda>x. t @ 58 # x) (printed str j)) kjs))"

lemma those_bind:
  "(\<And>x. x \<in> set xs \<Longrightarrow> f x = Option.bind (g x) h) \<Longrightarrow>
     those (map f xs) = Option.bind (those (map g xs)) (\<lambda>ys. those (map h ys))"
proof (induction xs)
  case (Cons x xs)
  then have "those (map f xs) = Option.bind (those (map g xs)) (\<lambda>ys. those (map h ys))" by simp
  with Cons.prems [of x] show ?case
    by (cases "g x"; cases "those (map g xs)") (auto split: option.splits)
qed simp

lemma canonical_printed: "canonical str v = Option.bind (json_of v) (printed str)"
proof (induction str v rule: canonical.induct)
  case (4 str n)
  then show ?case by (cases n) auto
next
  case (6 str vs)
  then have "those (map (canonical str) vs) = Option.bind (those (map json_of vs)) (\<lambda>js. those (map (printed str) js))"
    by (intro those_bind) simp
  then show ?case by (cases "those (map json_of vs)") simp_all
next
  case (7 str kvs)
  let ?f = "\<lambda>(k, v). case str k of None \<Rightarrow> None | Some t \<Rightarrow> map_option (\<lambda>x. t @ 58 # x) (canonical str v)"
  let ?g = "\<lambda>(k, v). map_option (Pair k) (json_of v)"
  let ?h = "\<lambda>(k, j). case str k of None \<Rightarrow> None | Some t \<Rightarrow> map_option (\<lambda>x. t @ 58 # x) (printed str j)"
  have "?f p = Option.bind (?g p) ?h" if "p \<in> set (members kvs)" for p
  proof -
    obtain k v where p: "p = (k, v)" by fastforce
    show ?thesis
    proof (cases "str k")
      case None
      with p show ?thesis by (cases "json_of v") simp_all
    next
      case (Some t)
      with 7 [OF that p [symmetric]] p show ?thesis by (cases "json_of v") simp_all
    qed
  qed
  then have "those (map ?f (members kvs)) = Option.bind (those (map ?g (members kvs))) (\<lambda>ys. those (map ?h ys))"
    by (rule those_bind)
  then show ?case by (cases "those (map ?g (members kvs))") simp_all
qed simp_all

section \<open>Unique reading\<close>

definition number_units :: "unit16 set" where
  "number_units = {43, 45, 46, 48, 49, 50, 51, 52, 53, 54, 55, 56, 57, 101}"

text \<open>The texts of numbers are not empty and hold digits, signs, a point and an exponent mark.\<close>

fun json_ok :: "json \<Rightarrow> bool" where
  "json_ok (JsonNum t) = (t \<noteq> [] \<and> set t \<subseteq> number_units)"
| "json_ok (JsonArr js) = list_all json_ok js"
| "json_ok (JsonObj kjs) = list_all (\<lambda>(k, j). json_ok j) kjs"
| "json_ok _ = True"

definition closes :: "text16 \<Rightarrow> bool" where
  "closes r \<longleftrightarrow> r = [] \<or> hd r \<in> {44, 93, 125}"

fun head_units :: "json \<Rightarrow> unit16 set" where
  "head_units JsonNull = {110}"
| "head_units (JsonBool b) = {if b then 116 else 102}"
| "head_units (JsonNum t) = number_units"
| "head_units (JsonStr s) = {34}"
| "head_units (JsonArr js) = {91}"
| "head_units (JsonObj kjs) = {123}"

lemma ascii_words:
  "ascii ''null'' = [110, 117, 108, 108]" "ascii ''true'' = [116, 114, 117, 101]" "ascii ''false'' = [102, 97, 108, 115, 101]"
  "ascii ''0'' = [48]"
  by (simp_all add: ascii_def)

text \<open>How a canonicalizer writes a text: it begins with a quote, and its end can be found.\<close>

locale text_form =
  fixes str :: "text16 \<Rightarrow> text16 option"
  assumes form_head: "str s = Some t \<Longrightarrow> \<exists>x. t = 34 # x"
    and form_unique: "str s = Some t \<Longrightarrow> str s' = Some t' \<Longrightarrow> t @ r = t' @ r' \<Longrightarrow> s = s' \<and> r = r'"
begin

lemma printed_head: "json_ok j \<Longrightarrow> printed str j = Some t \<Longrightarrow> \<exists>c x. t = c # x \<and> c \<in> head_units j"
  by (cases j) (auto simp: ascii_words neq_Nil_conv dest: form_head)

lemma head_not_close: "c \<in> head_units j \<Longrightarrow> c \<notin> {44, 93, 125}"
  by (cases j) (auto simp: number_units_def split: if_splits)

end

lemma number_span: "set t \<subseteq> number_units \<Longrightarrow> closes r \<Longrightarrow> takeWhile (\<lambda>c. c \<in> number_units) (t @ r) = t"
proof (induction t)
  case Nil
  then show ?case by (cases r) (auto simp: closes_def number_units_def)
qed auto

lemma joined_split: "joined (t # ts) @ c # r = t @ (if ts = [] then c # r else 44 # joined ts @ c # r)"
  by (cases ts) simp_all

lemma joined_not_closed: "t \<noteq> [] \<Longrightarrow> hd t \<noteq> c \<Longrightarrow> joined (t # ts) @ c # r \<noteq> c # r'"
  unfolding joined_split by (cases t) auto

text \<open>A joined list is read back when its parts are, also before what closes it.\<close>

lemma joined_unique:
  assumes P: "\<And>x y t u r r'. x \<in> set xs \<Longrightarrow> y \<in> set ys \<Longrightarrow> P x = Some t \<Longrightarrow> P y = Some u \<Longrightarrow> t @ r = u @ r' \<Longrightarrow>
      closes r \<Longrightarrow> closes r' \<Longrightarrow> x = y \<and> r = r'"
    and hd: "\<And>x t. x \<in> set xs \<union> set ys \<Longrightarrow> P x = Some t \<Longrightarrow> t \<noteq> [] \<and> hd t \<notin> {44, 93, 125}"
    and c: "c \<in> {93, 125 :: unit16}"
    and xs: "those (map P xs) = Some ts" and ys: "those (map P ys) = Some us" and eq: "joined ts @ c # r = joined us @ c # r'"
  shows "xs = ys \<and> r = r'"
  using assms
proof (induction xs arbitrary: ys ts us)
  case Nil
  show ?case
  proof (cases ys)
    case (Cons y ys')
    with Nil.prems obtain u us' where u: "P y = Some u" "us = u # us'" by (auto split: option.splits)
    have "u \<noteq> [] \<and> hd u \<notin> {44, 93, 125}" using Nil.prems(2) [of y u] u Cons by simp
    then have "u \<noteq> []" "hd u \<noteq> c" using Nil.prems(3) by auto
    from joined_not_closed [OF this] Nil.prems(4,6) u(2) have False by (metis append_Nil joined.simps(1) list.map(1) option.inject those.simps(1))
    then show ?thesis ..
  qed (use Nil in auto)
next
  case (Cons x xs)
  from Cons.prems obtain t ts' where t: "P x = Some t" "ts = t # ts'" "those (map P xs) = Some ts'" by (auto split: option.splits)
  have t_hd: "t \<noteq> [] \<and> hd t \<notin> {44, 93, 125}" using Cons.prems(2) [of x t] t by simp
  show ?case
  proof (cases ys)
    case Nil
    then have us: "us = []" using Cons.prems(5) by simp
    have "t \<noteq> []" "hd t \<noteq> c" using t_hd Cons.prems(3) by auto
    from joined_not_closed [OF this] Cons.prems(6) t(2) us have False by (metis append_Nil joined.simps(1))
    then show ?thesis ..
  next
    case ys: (Cons y ys')
    with Cons.prems obtain u us' where u: "P y = Some u" "us = u # us'" "those (map P ys') = Some us'" by (auto split: option.splits)
    let ?tail = "\<lambda>z zs. if zs = [] then c # z else 44 # joined zs @ c # z"
    have cl: "closes (?tail z zs)" for z zs using Cons.prems(3) by (auto simp: closes_def)
    have tails: "t @ ?tail r ts' = u @ ?tail r' us'" using Cons.prems(6) unfolding t(2) u(2) joined_split .
    have "x \<in> set (x # xs)" "y \<in> set ys" using ys by simp_all
    from Cons.prems(1) [OF this t(1) u(1) tails cl cl] have e: "x = y" "?tail r ts' = ?tail r' us'" by simp_all
    have ne: "ts' = [] \<longleftrightarrow> xs = []" "us' = [] \<longleftrightarrow> ys' = []" using t(3) u(3) by (cases xs; cases ys'; auto split: option.splits)+
    show ?thesis
    proof (cases "ts' = [] \<or> us' = []")
      case True
      with e(2) Cons.prems(3) have "ts' = []" "us' = []" "r = r'" by (auto split: if_splits)
      with ne e ys show ?thesis by simp
    next
      case False
      with e(2) have "joined ts' @ c # r = joined us' @ c # r'" by simp
      moreover have "set xs \<subseteq> set (x # xs)" "set ys' \<subseteq> set ys" using ys by auto
      ultimately have "xs = ys' \<and> r = r'"
        by (intro Cons.IH [OF _ _ Cons.prems(3) t(3) u(3)]) (use Cons.prems(1,2) in \<open>blast+\<close>)
      with e ys show ?thesis by simp
    qed
  qed
qed

context text_form
begin

lemma heads_meet:
  assumes "json_ok j" "json_ok j'" "printed str j = Some t" "printed str j' = Some t'" "t @ r = t' @ r'"
  shows "head_units j \<inter> head_units j' \<noteq> {}"
proof -
  obtain c x where t: "t = c # x" "c \<in> head_units j" using printed_head assms(1,3) by blast
  obtain d y where t': "t' = d # y" "d \<in> head_units j'" using printed_head assms(2,4) by blast
  show ?thesis using assms(5) t t' by auto
qed

lemma printed_start: "json_ok j \<Longrightarrow> printed str j = Some t \<Longrightarrow> t \<noteq> [] \<and> hd t \<notin> {44, 93, 125}"
  using printed_head head_not_close by fastforce

definition pair_text :: "text16 \<times> json \<Rightarrow> text16 option" where
  "pair_text = (\<lambda>(k, j). case str k of None \<Rightarrow> None | Some t \<Rightarrow> map_option (\<lambda>x. t @ 58 # x) (printed str j))"

lemma pair_start: "pair_text p = Some t \<Longrightarrow> t \<noteq> [] \<and> hd t \<notin> {44, 93, 125}"
  by (cases p) (auto simp: pair_text_def split: option.splits dest: form_head)

lemma printed_obj: "printed str (JsonObj kjs) = map_option (\<lambda>ts. [123] @ joined ts @ [125]) (those (map pair_text kjs))"
  by (simp add: pair_text_def)

lemma printed_unique:
  "json_ok j \<Longrightarrow> json_ok j' \<Longrightarrow> printed str j = Some t \<Longrightarrow> printed str j' = Some t' \<Longrightarrow> t @ r = t' @ r' \<Longrightarrow>
     closes r \<Longrightarrow> closes r' \<Longrightarrow> j = j' \<and> r = r'"
proof (induction j arbitrary: j' t t' r r')
  case (JsonNull j')
  from heads_meet [OF JsonNull(1-5)] JsonNull show ?case by (cases j') (auto simp: number_units_def split: if_splits)
next
  case (JsonBool b j')
  from heads_meet [OF JsonBool(1-5)] JsonBool show ?case
    by (cases j') (auto simp: number_units_def ascii_words split: if_splits)
next
  case (JsonNum s j')
  from heads_meet [OF JsonNum(1-5)] JsonNum(2) obtain s' where j': "j' = JsonNum s'"
    by (cases j') (auto simp: number_units_def split: if_splits)
  with JsonNum number_span [of s r] number_span [of s' r'] show ?case by auto
next
  case (JsonStr s j')
  from heads_meet [OF JsonStr(1-5)] obtain s' where j': "j' = JsonStr s'"
    by (cases j') (auto simp: number_units_def split: if_splits)
  with JsonStr form_unique [of s t s' t' r r'] show ?case by simp
next
  case (JsonArr js j')
  from heads_meet [OF JsonArr(2-6)] obtain js' where j': "j' = JsonArr js'"
    by (cases j') (auto simp: number_units_def split: if_splits)
  obtain ts ts' where ts: "those (map (printed str) js) = Some ts" "t = [91] @ joined ts @ [93]"
    "those (map (printed str) js') = Some ts'" "t' = [91] @ joined ts' @ [93]"
    using JsonArr.prems j' by auto
  have ok: "x \<in> set js \<Longrightarrow> json_ok x" "x \<in> set js' \<Longrightarrow> json_ok x" for x
    using JsonArr.prems(1,2) j' by (auto simp: list_all_iff)
  have "js = js' \<and> r = r'"
  proof (rule joined_unique [OF _ _ _ ts(1) ts(3)])
    show "x = y \<and> r = r'" if "x \<in> set js" "y \<in> set js'" "printed str x = Some t" "printed str y = Some u" "t @ r = u @ r'"
      "closes r" "closes r'" for x y t u r r'
      using JsonArr.IH [OF that(1) ok(1) [OF that(1)] ok(2) [OF that(2)] that(3-7)] .
    show "t \<noteq> [] \<and> hd t \<notin> {44, 93, 125}" if "x \<in> set js \<union> set js'" "printed str x = Some t" for x t
      using that ok printed_start by blast
    show "joined ts @ 93 # r = joined ts' @ 93 # r'" using JsonArr.prems(5) ts by simp
  qed simp
  with j' show ?case by simp
next
  case (JsonObj kjs j')
  from heads_meet [OF JsonObj(2-6)] obtain kjs' where j': "j' = JsonObj kjs'"
    by (cases j') (auto simp: number_units_def split: if_splits)
  obtain ts ts' where ts: "those (map pair_text kjs) = Some ts" "t = [123] @ joined ts @ [125]"
    "those (map pair_text kjs') = Some ts'" "t' = [123] @ joined ts' @ [125]"
    using JsonObj.prems unfolding j' printed_obj by auto
  have ok: "(k, x) \<in> set kjs \<Longrightarrow> json_ok x" "(k, x) \<in> set kjs' \<Longrightarrow> json_ok x" for k x
    using JsonObj.prems(1,2) j' by (auto simp: list_all_iff)
  have "kjs = kjs' \<and> r = r'"
  proof (rule joined_unique [OF _ _ _ ts(1) ts(3)])
    show "p = q \<and> r = r'" if m: "p \<in> set kjs" "q \<in> set kjs'" "pair_text p = Some t" "pair_text q = Some u" "t @ r = u @ r'"
      "closes r" "closes r'" for p q t u r r'
    proof -
      obtain k x l y where p: "p = (k, x)" "q = (l, y)" by (cases p; cases q)
      from m(3,4) p obtain a b c d where s: "str k = Some a" "printed str x = Some b" "t = a @ 58 # b"
        "str l = Some c" "printed str y = Some d" "u = c @ 58 # d"
        by (auto simp: pair_text_def split: option.splits)
      from form_unique [OF s(1) s(4), of "58 # b @ r" "58 # d @ r'"] m(5) s have e: "k = l" "b @ r = d @ r'" by auto
      have "x \<in> Basic_BNFs.snds p" using p by (auto simp: snds.simps)
      from JsonObj.IH [OF m(1) this _ _ s(2) s(5) e(2) m(6,7)] ok m(1,2) p e show ?thesis by auto
    qed
    show "t \<noteq> [] \<and> hd t \<notin> {44, 93, 125}" if "p \<in> set kjs \<union> set kjs'" "pair_text p = Some t" for p t
      using that pair_start by blast
    show "joined ts @ 125 # r = joined ts' @ 125 # r'" using JsonObj.prems(5) ts by simp
  qed simp
  with j' show ?case by simp
qed

end

text \<open>How one code unit is written: never as a quote first, and its end can be found.\<close>

locale unit_code =
  fixes e :: "unit16 \<Rightarrow> text16"
  assumes code_head: "\<exists>x xs. e c = x # xs \<and> x \<noteq> 34"
    and code_unique: "e c @ r = e d @ r' \<Longrightarrow> c = d \<and> r = r'"
begin

lemma quoted_body: "concat (map e s) @ 34 # r = concat (map e t) @ 34 # r' \<Longrightarrow> s = t \<and> r = r'"
proof (induction s arbitrary: t)
  case Nil
  then show ?case
  proof (cases t)
    case (Cons d t')
    with Nil code_head [of d] show ?thesis by auto
  qed simp
next
  case (Cons c s)
  show ?case
  proof (cases t)
    case Nil
    with Cons.prems code_head [of c] show ?thesis by auto
  next
    case t: (Cons d t')
    from Cons.prems t code_unique [of c "concat (map e s) @ 34 # r" d "concat (map e t') @ 34 # r'"]
    have "c = d" "concat (map e s) @ 34 # r = concat (map e t') @ 34 # r'" by auto
    with Cons.IH t show ?thesis by simp
  qed
qed

lemma quoted_unique: "quoted e s @ r = quoted e t @ r' \<Longrightarrow> s = t \<and> r = r'"
  using quoted_body [of s r t r'] by (simp add: quoted_def)

end

lemma unit_value: "n < 65536 \<Longrightarrow> unat (word_of_nat n :: unit16) = n"
  by (simp add: unat_of_nat)

lemma hex_unit_inject: "d < 16 \<Longrightarrow> d' < 16 \<Longrightarrow> hex_unit d = hex_unit d' \<Longrightarrow> d = d'"
proof -
  assume d: "d < 16" "d' < 16" and h: "hex_unit d = hex_unit d'"
  have v: "unat (hex_unit x) = (if x < 10 then 48 + x else 87 + x)" if "x < 16" for x
    unfolding hex_unit_def using that unit_value [of "48 + x"] unit_value [of "87 + x"] by (simp del: of_nat_add)
  show "d = d'"
    using v [OF d(1)] v [OF d(2)] unfolding h by (simp split: if_splits)
qed

lemma u_escape_inject:
  fixes c d :: unit16
  assumes "c < 32" "d < 32" "hex_unit (unat c div 16) = hex_unit (unat d div 16)" "hex_unit (unat c mod 16) = hex_unit (unat d mod 16)"
  shows "c = d"
proof -
  have "unat c < 32" "unat d < 32" using assms(1,2) by (simp_all add: word_less_nat_alt)
  then have "unat c div 16 = unat d div 16" "unat c mod 16 = unat d mod 16"
    using assms(3,4) hex_unit_inject by (simp_all add: less_mult_imp_div_less)
  then have "unat c = unat d" by (metis div_mult_mod_eq)
  then show ?thesis by (simp add: word_unat_eq_iff)
qed


interpretation json_code: unit_code json_escape
proof
  show "\<exists>x xs. json_escape c = x # xs \<and> x \<noteq> 34" for c
    by (auto simp: json_escape_def jcs_escape_def u_escape_def)
  show "c = d \<and> r = r'" if "json_escape c @ r = json_escape d @ r'" for c d r r'
    using that u_escape_inject [of c d]
    by (auto simp: json_escape_def jcs_escape_def u_escape_def ascii_def split: if_splits)
qed

lemma quoted_head: "\<exists>x. quoted e s = 34 # x"
  by (simp add: quoted_def)


lemma rfc8785String_Some: "rfc8785String s = Some t \<longleftrightarrow> assertWellFormedUtf16 s \<and> t = quoted json_escape s"
  by (auto simp: rfc8785String_def)

interpretation rfc_text: text_form rfc8785String
proof
  show "\<exists>x. t = 34 # x" if "rfc8785String s = Some t" for s t using that quoted_head by (simp add: rfc8785String_Some)
  show "s = s' \<and> r = r'" if "rfc8785String s = Some t" "rfc8785String s' = Some t'" "t @ r = t' @ r'" for s s' t t' r r'
    using that json_code.quoted_unique [of s r s' r'] by (simp add: rfc8785String_Some)
qed

section \<open>UTF-8\<close>

text \<open>The code points of a text; a surrogate without its pair is read as U+FFFD.\<close>

definition lone_point :: "unit16 \<Rightarrow> nat" where
  "lone_point c = (if high_surrogate c \<or> low_surrogate c then 0xFFFD else unat c)"

definition pair_point :: "unit16 \<Rightarrow> unit16 \<Rightarrow> nat" where
  "pair_point c d = 0x10000 + (unat c - 0xD800) * 1024 + (unat d - 0xDC00)"

fun points :: "text16 \<Rightarrow> nat list" where
  "points [] = []"
| "points [c] = [lone_point c]"
| "points (c # d # s) =
     (if high_surrogate c \<and> low_surrogate d then pair_point c d # points s else lone_point c # points (d # s))"

definition point_numbers :: "nat \<Rightarrow> nat list" where
  "point_numbers n =
     (if n < 0x80 then [n]
      else if n < 0x800 then [0xC0 + n div 64, 0x80 + n mod 64]
      else if n < 0x10000 then [0xE0 + n div 4096, 0x80 + n div 64 mod 64, 0x80 + n mod 64]
      else [0xF0 + n div 262144, 0x80 + n div 4096 mod 64, 0x80 + n div 64 mod 64, 0x80 + n mod 64])"

definition utf8 :: "text16 \<Rightarrow> bytes" where
  "utf8 s = map word_of_nat (concat (map point_numbers (points s)))"

lemma point_bytes: "n < 0x110000 \<Longrightarrow> b \<in> set (point_numbers n) \<Longrightarrow> b < 256"
  by (auto simp: point_numbers_def split: if_splits)

lemma div_chain:
  fixes a b :: nat
  assumes "a div 64 = b div 64" "a mod 64 = b mod 64"
  shows "a = b"
  using assms by (metis div_mult_mod_eq)

lemma point_unique:
  assumes a: "a < 0x110000" and b: "b < 0x110000" and eq: "point_numbers a @ r = point_numbers b @ r'"
  shows "a = b \<and> r = r'"
proof -
  have d: "x div 4096 = x div 64 div 64" "x div 262144 = x div 64 div 64 div 64" for x :: nat
    by (simp_all add: div_mult2_eq [symmetric])
  have u: "b < 0x800 \<Longrightarrow> b div 64 < 32" "b < 0x10000 \<Longrightarrow> b div 64 div 64 < 16" by simp_all
  consider "a < 0x80" | "0x80 \<le> a" "a < 0x800" | "0x800 \<le> a" "a < 0x10000" | "0x10000 \<le> a" by linarith
  then show ?thesis
  proof cases
    case 1
    with b eq show ?thesis by (auto simp: point_numbers_def split: if_splits)
  next
    case 2
    then have "a div 64 < 32" by simp
    with 2 b eq u show ?thesis by (auto simp: point_numbers_def intro: div_chain split: if_splits)
  next
    case 3
    then have "a div 4096 < 16" by simp
    with 3 b eq u show ?thesis by (auto simp: point_numbers_def d intro: div_chain split: if_splits)
  next
    case 4
    then have "a div 262144 < 16" using a by simp
    with 4 b eq u show ?thesis by (auto simp: point_numbers_def d intro: div_chain split: if_splits)
  qed
qed

lemma points_code:
  "list_all (\<lambda>n. n < 0x110000) ps \<Longrightarrow> list_all (\<lambda>n. n < 0x110000) qs \<Longrightarrow>
     concat (map point_numbers ps) = concat (map point_numbers qs) \<Longrightarrow> ps = qs"
proof (induction ps arbitrary: qs)
  case Nil
  then show ?case by (cases qs) (auto simp: point_numbers_def split: if_splits)
next
  case (Cons p ps)
  have "point_numbers p \<noteq> []" by (simp add: point_numbers_def)
  with Cons.prems obtain q qs' where qs: "qs = q # qs'" by (cases qs) auto
  with Cons.prems point_unique [of p q "concat (map point_numbers ps)" "concat (map point_numbers qs')"]
  have "p = q" "concat (map point_numbers ps) = concat (map point_numbers qs')" by auto
  with Cons qs show ?case by simp
qed

lemma unit_bound: "unat (c :: unit16) < 65536"
  by (rule order_less_le_trans [OF unsigned_less]) simp

lemma surrogate_nat:
  "high_surrogate c \<longleftrightarrow> 0xD800 \<le> unat c \<and> unat c \<le> 0xDBFF" "low_surrogate c \<longleftrightarrow> 0xDC00 \<le> unat c \<and> unat c \<le> 0xDFFF"
  by (simp_all add: high_surrogate_def low_surrogate_def word_le_nat_alt)

lemma point_bounds: "lone_point c < 0x10000" "high_surrogate c \<Longrightarrow> low_surrogate d \<Longrightarrow> 0x10000 \<le> pair_point c d \<and> pair_point c d < 0x110000"
  using unit_bound [of c] unit_bound [of d] by (auto simp: lone_point_def pair_point_def surrogate_nat)

lemma points_bound: "list_all (\<lambda>n. n < 0x110000) (points s)"
proof (induction s rule: points.induct)
  case (2 c)
  show ?case using point_bounds(1) [of c] by simp
next
  case (3 c d s)
  then show ?case using point_bounds(1) [of c] point_bounds(2) [of c d] by auto
qed simp

lemma pair_inject:
  assumes "high_surrogate a" "low_surrogate b" "high_surrogate c" "low_surrogate d" "pair_point a b = pair_point c d"
  shows "a = c \<and> b = d"
proof -
  let ?x = "unat a - 0xD800" and ?y = "unat b - 0xDC00" and ?z = "unat c - 0xD800" and ?w = "unat d - 0xDC00"
  have e: "?x * 1024 + ?y = ?z * 1024 + ?w" "?y < 1024" "?w < 1024"
    using assms by (auto simp: pair_point_def surrogate_nat)
  then have "?x = ?z" by linarith
  moreover have "0xD800 \<le> unat a" "0xDC00 \<le> unat b" "0xD800 \<le> unat c" "0xDC00 \<le> unat d"
    using assms by (simp_all add: surrogate_nat)
  ultimately have "unat a = unat c \<and> unat b = unat d" using e(1) by (intro conjI; linarith)
  then show ?thesis by (simp add: word_unat_eq_iff)
qed

text \<open>A well-formed text is empty, or begins with a unit that is no surrogate, or with a pair.\<close>

lemma well_formed_cases:
  assumes "assertWellFormedUtf16 s"
  obtains "s = []"
    | c u where "s = c # u" "\<not> high_surrogate c" "\<not> low_surrogate c" "assertWellFormedUtf16 u" "points s = unat c # points u"
    | c d u where "s = c # d # u" "high_surrogate c" "low_surrogate d" "assertWellFormedUtf16 u" "points s = pair_point c d # points u"
proof (cases s rule: points.cases)
  case (2 c)
  with assms that(2) [of c "[]"] show ?thesis by (simp add: lone_point_def)
next
  case (3 c d u)
  show ?thesis
  proof (cases "high_surrogate c")
    case True
    with 3 assms that(3) [of c d u] show ?thesis by simp
  next
    case False
    with 3 assms that(2) [of c "d # u"] show ?thesis by (simp add: lone_point_def)
  qed
qed (use that in simp)

lemma points_unique: "assertWellFormedUtf16 s \<Longrightarrow> assertWellFormedUtf16 t \<Longrightarrow> points s = points t \<Longrightarrow> s = t"
proof (induction "length s" arbitrary: s t rule: less_induct)
  case less
  have low: "unat c < 0x10000" for c :: unit16 using unit_bound by simp
  from less.prems(1) show ?case
  proof (cases rule: well_formed_cases)
    case 1
    from less.prems(2) show ?thesis by (cases rule: well_formed_cases) (use 1 less.prems(3) in auto)
  next
    case s: (2 c u)
    from less.prems(2) show ?thesis
    proof (cases rule: well_formed_cases)
      case (2 d v)
      with s less.prems(3) have "c = d" "points u = points v" by (simp_all add: word_unat_eq_iff)
      with less.hyps [of u v] s 2 show ?thesis by simp
    next
      case (3 a b v)
      with s less.prems(3) low [of c] point_bounds(2) [of a b] show ?thesis by simp
    qed (use s less.prems(3) in auto)
  next
    case s: (3 c d u)
    from less.prems(2) show ?thesis
    proof (cases rule: well_formed_cases)
      case (2 a v)
      with s less.prems(3) low [of a] point_bounds(2) [of c d] show ?thesis by simp
    next
      case (3 a b v)
      with s less.prems(3) pair_inject [of c d a b] have "c = a" "d = b" "points u = points v" by simp_all
      with less.hyps [of u v] s 3 show ?thesis by simp
    qed (use s less.prems(3) in auto)
  qed
qed

text \<open>UTF-8 tells well-formed texts apart.\<close>

lemma utf8_unique:
  assumes "assertWellFormedUtf16 s" "assertWellFormedUtf16 t" "utf8 s = utf8 t"
  shows "s = t"
proof -
  have inj: "inj_on (word_of_nat :: nat \<Rightarrow> byte) {..<256}"
    by (rule inj_onI) (auto simp: word_unat_eq_iff unat_of_nat)
  have small: "set (concat (map point_numbers (points x))) \<subseteq> {..<256}" for x
    using points_bound [of x] point_bytes by (fastforce simp: list_all_iff)
  from assms(3) have "concat (map point_numbers (points s)) = concat (map point_numbers (points t))"
    unfolding utf8_def using map_inj_on [OF _ inj_on_subset [OF inj]] small by (metis Un_least)
  then show ?thesis using points_code [OF points_bound points_bound] points_unique assms(1,2) by blast
qed

section \<open>What a canonical text determines\<close>

text \<open>The texts of finite numbers are such texts.\<close>

fun numbers_ok :: "cval \<Rightarrow> bool" where
  "numbers_ok (CNum (Finite t)) = (t \<noteq> [] \<and> set t \<subseteq> number_units)"
| "numbers_ok (CArr vs) = list_all numbers_ok vs"
| "numbers_ok (CObj kvs) = list_all (\<lambda>(k, v). numbers_ok v) kvs"
| "numbers_ok _ = True"

lemma those_all: "those xs = Some ys \<Longrightarrow> xs = map Some ys"
  by (induction xs arbitrary: ys) (auto split: option.splits)

lemma those_in: "those (map P xs) = Some ts \<Longrightarrow> t \<in> set ts \<Longrightarrow> \<exists>x\<in>set xs. P x = Some t"
proof -
  assume "those (map P xs) = Some ts" "t \<in> set ts"
  then have "set (map P xs) = Some ` set ts" by (metis those_all list.set_map)
  with \<open>t \<in> set ts\<close> have "Some t \<in> P ` set xs" by simp
  then show ?thesis by force
qed

lemma json_of_ok: "numbers_ok v \<Longrightarrow> json_of v = Some j \<Longrightarrow> json_ok j"
proof (induction v arbitrary: j rule: json_of.induct)
  case (4 n)
  then show ?case by (cases n) (auto simp: ascii_words number_units_def)
next
  case (6 vs)
  then obtain js where js: "those (map json_of vs) = Some js" "j = JsonArr js" by auto
  have "json_ok l" if l: "l \<in> set js" for l
  proof -
    obtain v where "v \<in> set vs" "json_of v = Some l" using those_in [OF js(1) l] by blast
    with 6(1) [of v l] 6(2) show ?thesis by (simp add: list_all_iff)
  qed
  with js show ?case by (simp add: list_all_iff)
next
  case (7 kvs)
  then obtain kjs where js: "those (map (\<lambda>(k, v). map_option (Pair k) (json_of v)) (members kvs)) = Some kjs" "j = JsonObj kjs" by auto
  have "json_ok l" if l: "(k, l) \<in> set kjs" for k l
  proof -
    obtain v where v: "(k, v) \<in> set (members kvs)" "json_of v = Some l" using those_in [OF js(1) l] by auto
    then have "numbers_ok v" using members_subset 7(2) by (fastforce simp: list_all_iff)
    with 7(1) [OF v(1) refl _ v(2)] show ?thesis by simp
  qed
  with js show ?case by (auto simp: list_all_iff)
qed auto

context text_form
begin

lemma canonical_iff:
  assumes "numbers_ok v" "numbers_ok w" "canonical str v = Some t" "canonical str w = Some u"
  shows "t = u \<longleftrightarrow> json_of v = json_of w"
proof
  obtain j l where j: "json_of v = Some j" "printed str j = Some t" "json_of w = Some l" "printed str l = Some u"
    using assms(3,4) by (auto simp: canonical_printed bind_eq_Some_conv)
  have "json_ok j" "json_ok l" using json_of_ok j assms(1,2) by blast+
  then show "t = u \<Longrightarrow> json_of v = json_of w"
    using printed_unique [of j l t u "[]" "[]"] j by (simp add: closes_def)
  show "json_of v = json_of w \<Longrightarrow> t = u" using j by simp
qed

end

lemma well_formed_append: "assertWellFormedUtf16 s \<Longrightarrow> assertWellFormedUtf16 t \<Longrightarrow> assertWellFormedUtf16 (s @ t)"
proof (induction s rule: assertWellFormedUtf16.induct)
  case (2 c)
  then show ?case by (cases t) auto
qed (auto split: if_splits)

lemma plain_units: "list_all (\<lambda>c. \<not> high_surrogate c \<and> \<not> low_surrogate c) s \<Longrightarrow> assertWellFormedUtf16 s"
  by (induction s rule: assertWellFormedUtf16.induct) auto


lemma plain_append: "list_all (\<lambda>c. \<not> high_surrogate c \<and> \<not> low_surrogate c) s \<Longrightarrow> assertWellFormedUtf16 t \<Longrightarrow>
    assertWellFormedUtf16 (s @ t)"
  by (rule well_formed_append [OF plain_units])

lemma escape_plain:
  assumes "\<not> high_surrogate c" "\<not> low_surrogate c"
  shows "list_all (\<lambda>c. \<not> high_surrogate c \<and> \<not> low_surrogate c) (json_escape c)"
proof -
  have h: "\<not> high_surrogate (hex_unit d) \<and> \<not> low_surrogate (hex_unit d)" if "d < 16" for d
  proof -
    have "unat (hex_unit d) < 256" unfolding hex_unit_def using that unit_value [of "48 + d"] unit_value [of "87 + d"]
      by (simp del: of_nat_add)
    then show ?thesis by (simp add: surrogate_nat)
  qed
  have "unat c div 16 < 16" "unat c mod 16 < 16" if "c < 32"
    using that by (simp_all add: word_less_nat_alt)
  with h assms show ?thesis
    by (simp add: json_escape_def jcs_escape_def u_escape_def ascii_def high_surrogate_def low_surrogate_def)
qed

lemma escape_surrogate: "high_surrogate c \<or> low_surrogate c \<Longrightarrow> json_escape c = [c]"
  by (auto simp: json_escape_def jcs_escape_def high_surrogate_def low_surrogate_def word_le_nat_alt word_less_nat_alt)

lemma escaped_well_formed: "assertWellFormedUtf16 s \<Longrightarrow> assertWellFormedUtf16 (concat (map json_escape s))"
proof (induction "length s" arbitrary: s rule: less_induct)
  case less
  from less.prems show ?case
  proof (cases rule: well_formed_cases)
    case (2 c u)
    with less.hyps [of u] show ?thesis by (simp add: plain_append escape_plain)
  next
    case (3 c d u)
    with less.hyps [of u] show ?thesis by (simp add: escape_surrogate)
  qed simp
qed

lemma quoted_well_formed: "rfc8785String s = Some t \<Longrightarrow> assertWellFormedUtf16 t"
  using plain_append [of "[34]" "concat (map json_escape s) @ [34]"]
    well_formed_append [OF escaped_well_formed, of s "[34]"]
  by (simp add: rfc8785String_Some quoted_def high_surrogate_def low_surrogate_def)

lemma joined_well_formed: "list_all assertWellFormedUtf16 ts \<Longrightarrow> assertWellFormedUtf16 (joined ts)"
proof (induction ts rule: joined.induct)
  case (3 t u ts)
  have "assertWellFormedUtf16 ([44] @ joined (u # ts))"
    by (rule plain_append) (use 3 in \<open>simp_all add: high_surrogate_def low_surrogate_def\<close>)
  with 3 show ?case by (simp add: well_formed_append)
qed simp_all

lemma bracketed_well_formed:
  assumes "list_all assertWellFormedUtf16 ts" "\<not> high_surrogate a" "\<not> low_surrogate a" "\<not> high_surrogate b" "\<not> low_surrogate b"
  shows "assertWellFormedUtf16 ([a] @ joined ts @ [b])"
  by (intro plain_append well_formed_append joined_well_formed) (use assms in simp_all)

lemma those_wf: "those (map P xs) = Some ts \<Longrightarrow> (\<And>x t. x \<in> set xs \<Longrightarrow> P x = Some t \<Longrightarrow> Q t) \<Longrightarrow> list_all Q ts"
  unfolding list_all_iff using those_in [of P xs ts] by blast

lemma printed_well_formed: "json_ok j \<Longrightarrow> printed rfc8785String j = Some t \<Longrightarrow> assertWellFormedUtf16 t"
proof (induction j arbitrary: t)
  case (JsonNum s)
  have "\<not> high_surrogate c \<and> \<not> low_surrogate c" if "c \<in> number_units" for c
    using that by (auto simp: number_units_def high_surrogate_def low_surrogate_def)
  with JsonNum show ?case by (intro plain_units) (simp add: list_all_iff subset_iff)
next
  case (JsonStr s)
  then show ?case by (auto intro: quoted_well_formed)
next
  case (JsonArr js)
  then obtain ts where ts: "those (map (printed rfc8785String) js) = Some ts" "t = [91] @ joined ts @ [93]" by auto
  have "list_all assertWellFormedUtf16 ts"
    by (rule those_wf [OF ts(1)]) (use JsonArr in \<open>auto simp: list_all_iff\<close>)
  then show ?case unfolding ts(2) by (rule bracketed_well_formed) (simp_all add: high_surrogate_def low_surrogate_def)
next
  case (JsonObj kjs)
  from JsonObj.prems(2) obtain ts where ts: "those (map rfc_text.pair_text kjs) = Some ts" "t = [123] @ joined ts @ [125]"
    unfolding rfc_text.printed_obj by auto
  have "assertWellFormedUtf16 u" if p: "p \<in> set kjs" "rfc_text.pair_text p = Some u" for p u
  proof -
    obtain k j where kj: "p = (k, j)" by fastforce
    with p(2) obtain a b where ab: "rfc8785String k = Some a" "printed rfc8785String j = Some b" "u = a @ [58] @ b"
      by (auto simp: rfc_text.pair_text_def split: option.splits)
    have "j \<in> Basic_BNFs.snds p" "json_ok j" using kj p(1) JsonObj.prems(1) by (auto simp: snds.simps list_all_iff)
    then have "assertWellFormedUtf16 b" using JsonObj.IH [OF p(1)] ab(2) by blast
    then have "assertWellFormedUtf16 ([58] @ b)" by (intro plain_append) (simp_all add: high_surrogate_def low_surrogate_def)
    with quoted_well_formed [OF ab(1)] show ?thesis unfolding ab(3) by (rule well_formed_append)
  qed
  then have "list_all assertWellFormedUtf16 ts" by (rule those_wf [OF ts(1)])
  then show ?case unfolding ts(2) by (rule bracketed_well_formed) (simp_all add: high_surrogate_def low_surrogate_def)
qed (auto simp: ascii_words high_surrogate_def low_surrogate_def)

lemma rfc_text_well_formed: "numbers_ok v \<Longrightarrow> jcsRfc8785 v = Some t \<Longrightarrow> assertWellFormedUtf16 t"
  using json_of_ok printed_well_formed by (fastforce simp: jcsRfc8785_def canonical_printed bind_eq_Some_conv)



lemma json_of_member_order:
  assumes "set kvs = set kws" "distinct (map fst kvs)" "distinct (map fst kws)"
  shows "json_of (CObj kvs) = json_of (CObj kws)"
proof -
  have "sort_key fst kvs = sort_key fst kws"
    by (rule map_sorted_distinct_set_unique [where f = fst]) (use assms in \<open>simp_all add: distinct_map distinct_sort\<close>)
  then show ?thesis by (simp add: members_def)
qed

text \<open>Two texts of \<open>jcsCanonicalize\<close> that differ only in surrogates without a pair have one UTF-8 form.\<close>

lemma lone_surrogates_collide:
  "jcsCanonicalize (CStr [0xD800]) = Some [34, 0xD800, 34] \<and> jcsCanonicalize (CStr [0xD801]) = Some [34, 0xD801, 34] \<and>
   utf8 [34, 0xD800, 34] = utf8 [34, 0xD801, 34] \<and> json_of (CStr [0xD800]) \<noteq> json_of (CStr [0xD801])"
  by (simp add: jcsCanonicalize_def jcsString_def quoted_def jcs_escape_def utf8_def high_surrogate_def low_surrogate_def lone_point_def)

lemma rfc_refuses_lone_surrogates: "jcsRfc8785 v \<noteq> None \<Longrightarrow> v = CStr s \<Longrightarrow> assertWellFormedUtf16 s"
  by (auto simp: jcsRfc8785_def rfc8785String_def split: if_splits)

text \<open>
  The SHA-256 of the UTF-8 bytes of an RFC 8785 text determines the value as JSON: two
  values with one digest are equal as JSON, or their texts are a collision of SHA-256.
\<close>

theorem rfc8785_digest_binds:
  assumes "numbers_ok v" "numbers_ok w" "jcsRfc8785 v = Some t" "jcsRfc8785 w = Some u"
    and "sha256 (utf8 t) = sha256 (utf8 u)"
  shows "json_of v = json_of w \<or> sha_collision (utf8 t) (utf8 u)"
proof (cases "utf8 t = utf8 u")
  case True
  then have "t = u" using utf8_unique rfc_text_well_formed assms(1-4) by blast
  then show ?thesis using rfc_text.canonical_iff [OF assms(1,2)] assms(3,4) by (simp add: jcsRfc8785_def)
next
  case False
  with assms(5) show ?thesis by (simp add: sha_collision_def)
qed

theorem rfc8785_digest_binds_witness:
  "json_of (CObj [(ascii ''b'', CNull), (ascii ''a'', CBool True)]) = json_of (CObj [(ascii ''a'', CBool True), (ascii ''b'', CNull)])"
proof -
  let ?v = "CObj [(ascii ''b'', CNull), (ascii ''a'', CBool True)]" and ?w = "CObj [(ascii ''a'', CBool True), (ascii ''b'', CNull)]"
  have e: "jcsRfc8785 ?v = jcsRfc8785 ?w" "jcsRfc8785 ?v \<noteq> None" by code_simp+
  then obtain t where t: "jcsRfc8785 ?v = Some t" "jcsRfc8785 ?w = Some t" by auto
  from rfc8785_digest_binds [OF _ _ t] show ?thesis by (simp add: sha_collision_def)
qed

end
