(* ===== verification/Canonical_Preimage.thy ===== *)
theory Canonical_Preimage
  imports Canonical_Json Js_Values
begin

text \<open>
  services/gateway/src/canonical-preimage.js: the fields a receipt or a refusal may sign, the bytes
  that are kept for it, and how they are served. The members of an object are listed in the order
  the language enumerates them; a missing member reads as undefined. Errors carry no message here.
\<close>

section \<open>Members of objects\<close>

definition lookup :: "text16 \<Rightarrow> (text16 \<times> cval) list \<Rightarrow> cval" where
  "lookup k kvs = (case map_of kvs k of None \<Rightarrow> CUndefined | Some v \<Rightarrow> v)"

definition get :: "cval \<Rightarrow> string \<Rightarrow> cval" where
  "get v k = (case v of CObj kvs \<Rightarrow> lookup (ascii k) kvs | _ \<Rightarrow> CUndefined)"

definition truthy :: "cval \<Rightarrow> bool" where
  "truthy v = (case v of
       CUndefined \<Rightarrow> False
     | CNull \<Rightarrow> False
     | CBool b \<Rightarrow> b
     | CNum n \<Rightarrow> (case n of Finite t \<Rightarrow> t \<noteq> ascii ''0'' | Negative_zero \<Rightarrow> False | Infinite \<Rightarrow> True | Not_a_number \<Rightarrow> False)
     | CStr s \<Rightarrow> s \<noteq> []
     | _ \<Rightarrow> True)"

definition is_object :: "cval \<Rightarrow> bool" where
  "is_object v = (case v of CArr vs \<Rightarrow> True | CObj kvs \<Rightarrow> True | _ \<Rightarrow> False)"

text \<open>The own members of an object; those of an array are its indices (no allowlist names \<open>length\<close>).\<close>

definition entries :: "cval \<Rightarrow> (text16 \<times> cval) list" where
  "entries v = (case v of
       CObj kvs \<Rightarrow> kvs
     | CArr vs \<Rightarrow> zip (map (\<lambda>i. ascii (dec_string i)) [0..<length vs]) vs
     | _ \<Rightarrow> [])"

section \<open>The fields that may be signed\<close>

definition RECEIPT_CANONICAL_FIELDS :: "text16 list" where
  "RECEIPT_CANONICAL_FIELDS = map ascii [
    ''action'', ''agent_pubkey'', ''binding'', ''caller_binding'', ''canonicalization'', ''claim_id'',
    ''delegation_hash'', ''dispute_window'', ''fulfillment'', ''iat'', ''iss'', ''issuance_commitment'',
    ''issuer_history'', ''issuer_history_mirror'', ''issuer_history_snapshot'', ''issuer_root'', ''kind'',
    ''openrouter'', ''output'', ''parent_receipt_id'', ''payload_version'', ''payment'', ''policy'',
    ''provider_cogs'', ''request_digest'', ''route'', ''session'', ''session_act'', ''session_expiry'',
    ''settlement'', ''target_agent'', ''task_id'', ''tolerance'', ''tree_head_hash'']"

definition REFUSAL_CANONICAL_FIELDS :: "text16 list" where
  "REFUSAL_CANONICAL_FIELDS = map ascii [
    ''agent_id'', ''amount_charged'', ''amount_requested'', ''anchor'', ''asset'', ''attempt_index'',
    ''book_id'', ''book_row'', ''cap_atomic'', ''canonicalization'', ''chain_id'', ''charged'', ''hub'',
    ''intent_id'', ''issued_at'', ''issuer_history'', ''issuer_history_mirror'', ''issuer_history_snapshot'',
    ''issuer_root'', ''kind'', ''model'', ''nonce'', ''payload_version'', ''period_start'', ''policy_key'',
    ''reason'', ''request_digest'', ''refusal_code'', ''refusal_id'', ''schema'', ''spent_atomic'',
    ''task_id'']"

definition FOREIGN_CANONICAL_FIELDS :: "text16 list" where
  "FOREIGN_CANONICAL_FIELDS = RECEIPT_CANONICAL_FIELDS @ map ascii [
    ''agent_record_entry'', ''amount'', ''chain'', ''payee'', ''payer'', ''payment_ref'', ''schema'', ''tx'']"

section \<open>Private fields\<close>

datatype canonical_error = Private_jwk | Private_field | Not_an_object | Unlocked_fields | Not_canonical

definition PRIVATE_KEYS :: "text16 list" where
  "PRIVATE_KEYS = map ascii [''prompt'', ''prompts'', ''messages'', ''completion'', ''output_text'', ''api_key'', ''apikey'',
     ''secret'', ''private_key'', ''privatekey'', ''seed'', ''deliverable'']"

text \<open>
  \<open>toLowerCase\<close> as far as a comparison with an ASCII word can see it: besides the ASCII letters only
  the Kelvin sign becomes an ASCII letter alone, and no other unit becomes ASCII letters only.
\<close>

definition lower_unit :: "unit16 \<Rightarrow> unit16" where
  "lower_unit c = (if 65 \<le> c \<and> c \<le> 90 then c + 32 else if c = 0x212A then 107 else c)"

definition is_private :: "text16 \<Rightarrow> bool" where
  "is_private k \<longleftrightarrow> map lower_unit k \<in> set PRIVATE_KEYS"

definition private_jwk :: "(text16 \<times> cval) list \<Rightarrow> bool" where
  "private_jwk kvs \<longleftrightarrow> truthy (lookup (ascii ''kty'') kvs) \<and> truthy (lookup (ascii ''d'') kvs)"

fun first_error :: "'e option list \<Rightarrow> 'e option" where
  "first_error [] = None"
| "first_error (None # es) = first_error es"
| "first_error (Some e # es) = Some e"

function assertPublicCanonical :: "cval \<Rightarrow> canonical_error option" where
  "assertPublicCanonical (CArr vs) = first_error (map assertPublicCanonical vs)"
| "assertPublicCanonical (CObj kvs) =
     (if private_jwk kvs then Some Private_jwk
      else first_error (map (\<lambda>(k, v). if is_private k then Some Private_field else assertPublicCanonical v) kvs))"
| "assertPublicCanonical CUndefined = None"
| "assertPublicCanonical CNull = None"
| "assertPublicCanonical (CBool b) = None"
| "assertPublicCanonical (CNum n) = None"
| "assertPublicCanonical (CStr s) = None"
| "assertPublicCanonical COther = None"
  by pat_completeness auto

termination
proof (relation "measure size")
  show "\<And>vs v. v \<in> set vs \<Longrightarrow> (v, CArr vs) \<in> measure size"
    by (auto dest: size_list_estimation' [of _ _ _ size, OF _ order_refl])
next
  fix kvs p and k :: text16 and v :: cval
  assume "p \<in> set kvs" "(k, v) = p"
  from member_size [of k v kvs] this show "(v, CObj kvs) \<in> measure size" by simp
qed simp

section \<open>Sealing\<close>

definition lockCanonicalFields :: "cval \<Rightarrow> text16 list \<Rightarrow> canonical_error + (text16 \<times> cval) list" where
  "lockCanonicalFields claims allowed =
     (if \<not> is_object claims then Inl Not_an_object
      else if list_ex (\<lambda>(k, v). k \<noteq> ascii ''payload_hash'' \<and> k \<notin> set allowed) (entries claims) then Inl Unlocked_fields
      else (let body = foldl (\<lambda>b k. case map_of (entries claims) k of
                       None \<Rightarrow> b
                     | Some v \<Rightarrow> if v = CUndefined then b else AList.update k v b) [] allowed
            in case assertPublicCanonical (CObj body) of
                 Some e \<Rightarrow> Inl e
               | None \<Rightarrow> Inr body))"

definition sha256Hex :: "text16 \<Rightarrow> text16" where
  "sha256Hex t = ascii (to_hex (sha256 (utf8 t)))"

record sealed =
  sl_preimage :: text16
  sl_payload_hash :: text16
  sl_claims :: cval

definition sealCanonicalObject ::
    "cval \<Rightarrow> text16 list \<Rightarrow> (cval \<Rightarrow> text16 option) \<Rightarrow> canonical_error + sealed" where
  "sealCanonicalObject claims allowed canonicalize =
     (case lockCanonicalFields claims allowed of
        Inl e \<Rightarrow> Inl e
      | Inr body \<Rightarrow>
          (case canonicalize (CObj body) of
             None \<Rightarrow> Inl Not_canonical
           | Some t \<Rightarrow> Inr \<lparr>sl_preimage = t, sl_payload_hash = sha256Hex t,
               sl_claims = CObj (AList.update (ascii ''payload_hash'') (CStr (sha256Hex t)) body)\<rparr>))"

definition resealSignedClaims :: "cval \<Rightarrow> canonical_error + sealed" where
  "resealSignedClaims claims =
     (if \<not> is_object claims then Inl Not_an_object
      else (let body = AList.delete (ascii ''payload_hash'') (entries claims)
            in sealCanonicalObject (CObj body) (map fst body) jcsCanonicalize))"

section \<open>Serving the stored bytes\<close>

datatype stored_preimage = Corrupt | Stored text16 text16 cval

definition signature_of :: "cval \<Rightarrow> cval" where
  "signature_of source = (let s = get source ''issuer_signature'' in if truthy s \<and> is_object s then s else source)"

definition text_of :: "cval \<Rightarrow> text16 option" where
  "text_of v = (case v of CStr s \<Rightarrow> Some s | _ \<Rightarrow> None)"

definition either :: "cval \<Rightarrow> cval \<Rightarrow> cval" where
  "either a b = (if truthy a then a else b)"

definition storedCanonicalPreimage :: "cval \<Rightarrow> stored_preimage option" where
  "storedCanonicalPreimage source =
     (if \<not> is_object source then None
      else (let s = signature_of source
            in case (case text_of (get s ''canonical_preimage'') of
                       Some t \<Rightarrow> Some t | None \<Rightarrow> text_of (get source ''canonical_preimage'')) of
                 None \<Rightarrow> None
               | Some t \<Rightarrow>
                   (let hash = sha256Hex t; stamped = either (get s ''payload_hash'') (get source ''payload_hash'')
                    in if truthy stamped \<and> stamped \<noteq> CStr hash then Some Corrupt
                       else Some (Stored t hash (either (get s ''hash_alg'') (CStr (ascii ''sha256'')))))))"

definition has_tree_head :: "cval \<Rightarrow> bool" where
  "has_tree_head source \<longleftrightarrow> (case get source ''tree_head_hash'' of CStr s \<Rightarrow> s \<noteq> [] | _ \<Rightarrow> False)"

definition canonicalPreimageCacheControl :: "cval \<Rightarrow> string" where
  "canonicalPreimageCacheControl source = (if has_tree_head source then ''public, max-age=300'' else ''private, no-store'')"

text \<open>The reply of \<open>writeCanonicalPreimage\<close>: the cache header, then the algorithm, the hash and the body.\<close>

datatype preimage_reply =
    Unavailable_not_stored
  | Unavailable_corrupt
  | Described string cval text16
  | Bytes string cval text16 bytes

definition writeCanonicalPreimage :: "cval \<Rightarrow> bool \<Rightarrow> preimage_reply" where
  "writeCanonicalPreimage source meta =
     (case storedCanonicalPreimage source of
        None \<Rightarrow> Unavailable_not_stored
      | Some Corrupt \<Rightarrow> Unavailable_corrupt
      | Some (Stored t hash alg) \<Rightarrow>
          if meta then Described (canonicalPreimageCacheControl source) alg hash
          else Bytes (canonicalPreimageCacheControl source) alg hash (utf8 t))"

text \<open>\<open>canonicalObjectDescriptor\<close>: the algorithm and the hash, or whether the object is corrupt.\<close>

definition canonicalObjectDescriptor :: "cval \<Rightarrow> bool + cval \<times> text16" where
  "canonicalObjectDescriptor receipt =
     (case storedCanonicalPreimage receipt of
        None \<Rightarrow> Inl False
      | Some Corrupt \<Rightarrow> Inl True
      | Some (Stored t hash alg) \<Rightarrow> Inr (alg, hash))"

section \<open>What is locked\<close>

lemma first_error_None: "first_error es = None \<longleftrightarrow> (\<forall>e\<in>set es. e = None)"
  by (induction es rule: first_error.induct) auto

lemma error_if_None: "(if a then Some e else x) = None \<longleftrightarrow> \<not> a \<and> x = None"
  by simp

text \<open>A value inside another one.\<close>

inductive inside :: "cval \<Rightarrow> cval \<Rightarrow> bool" where
  inside_self: "inside v v"
| inside_entry: "inside v w \<Longrightarrow> w \<in> set vs \<Longrightarrow> inside v (CArr vs)"
| inside_member: "inside v w \<Longrightarrow> (k, w) \<in> set kvs \<Longrightarrow> inside v (CObj kvs)"

inductive_cases inside_ArrE: "inside v (CArr vs)"
inductive_cases inside_ObjE: "inside v (CObj kvs)"

definition shows_private :: "cval \<Rightarrow> bool" where
  "shows_private v \<longleftrightarrow> (\<exists>kvs. v = CObj kvs \<and> (private_jwk kvs \<or> (\<exists>(k, w) \<in> set kvs. is_private k)))"

lemma inside_plain: "inside v w \<Longrightarrow> (\<And>vs. w \<noteq> CArr vs) \<Longrightarrow> (\<And>kvs. w \<noteq> CObj kvs) \<Longrightarrow> v = w"
  by (erule inside.cases) auto

lemma assert_public_iff: "assertPublicCanonical w = None \<longleftrightarrow> (\<forall>v. inside v w \<longrightarrow> \<not> shows_private v)"
proof (induction w rule: assertPublicCanonical.induct)
  case (1 vs)
  have "inside v (CArr vs) \<longleftrightarrow> v = CArr vs \<or> (\<exists>w\<in>set vs. inside v w)" for v
    by (auto elim: inside_ArrE intro: inside_entry inside_self)
  moreover have "\<not> shows_private (CArr vs)" by (simp add: shows_private_def)
  ultimately have "(\<forall>v. inside v (CArr vs) \<longrightarrow> \<not> shows_private v) \<longleftrightarrow> (\<forall>w\<in>set vs. \<forall>v. inside v w \<longrightarrow> \<not> shows_private v)"
    by metis
  with 1 show ?case by (auto simp: first_error_None)
next
  case (2 kvs)
  have "(\<forall>v. inside v (CObj kvs) \<longrightarrow> \<not> shows_private v) \<longleftrightarrow>
      \<not> private_jwk kvs \<and> (\<forall>(k, w)\<in>set kvs. \<not> is_private k \<and> (\<forall>v. inside v w \<longrightarrow> \<not> shows_private v))"
  proof
    assume a: "\<forall>v. inside v (CObj kvs) \<longrightarrow> \<not> shows_private v"
    then have "\<not> shows_private (CObj kvs)" using inside_self by blast
    with a show "\<not> private_jwk kvs \<and> (\<forall>(k, w)\<in>set kvs. \<not> is_private k \<and> (\<forall>v. inside v w \<longrightarrow> \<not> shows_private v))"
      using inside_member unfolding shows_private_def by fastforce
  next
    assume b: "\<not> private_jwk kvs \<and> (\<forall>(k, w)\<in>set kvs. \<not> is_private k \<and> (\<forall>v. inside v w \<longrightarrow> \<not> shows_private v))"
    then have "\<not> shows_private (CObj kvs)" by (auto simp: shows_private_def)
    with b show "\<forall>v. inside v (CObj kvs) \<longrightarrow> \<not> shows_private v" by (auto elim!: inside_ObjE)
  qed
  moreover have "assertPublicCanonical (CObj kvs) = None \<longleftrightarrow>
      \<not> private_jwk kvs \<and> (\<forall>(k, w)\<in>set kvs. \<not> is_private k \<and> assertPublicCanonical w = None)"
  proof -
    have "(case p of (k, w) \<Rightarrow> if is_private k then Some Private_field else assertPublicCanonical w) = None \<longleftrightarrow>
        (case p of (k, w) \<Rightarrow> \<not> is_private k \<and> assertPublicCanonical w = None)" for p
      by (cases p) simp
    then show ?thesis by (simp only: assertPublicCanonical.simps error_if_None first_error_None set_map ball_simps)
  qed
  moreover have "assertPublicCanonical w = None \<longleftrightarrow> (\<forall>v. inside v w \<longrightarrow> \<not> shows_private v)"
    if "(k, w) \<in> set kvs" "\<not> private_jwk kvs" "\<not> is_private k" for k w
    using 2 [OF that(2,1) refl that(3)] .
  ultimately show ?case by blast
qed (auto simp: shows_private_def dest: inside_plain)

definition copied :: "(text16 \<times> cval) list \<Rightarrow> text16 list \<Rightarrow> (text16 \<times> cval) list" where
  "copied src allowed = foldl (\<lambda>b k. case map_of src k of
     None \<Rightarrow> b | Some v \<Rightarrow> if v = CUndefined then b else AList.update k v b) [] allowed"

lemma copied_snoc: "copied src (ks @ [k]) = (case map_of src k of
     None \<Rightarrow> copied src ks | Some v \<Rightarrow> if v = CUndefined then copied src ks else AList.update k v (copied src ks))"
  by (simp add: copied_def split: option.split)

lemma copied_lookup: "map_of (copied src ks) k =
    (if k \<in> set ks then (case map_of src k of None \<Rightarrow> None | Some v \<Rightarrow> if v = CUndefined then None else Some v) else None)"
proof (induction ks rule: rev_induct)
  case Nil
  then show ?case by (simp add: copied_def)
next
  case (snoc l ks)
  then show ?case by (auto simp: copied_snoc update_conv' split: option.splits)
qed

lemma copied_distinct: "distinct (map fst (copied src ks))"
proof (induction ks rule: rev_induct)
  case Nil
  then show ?case by (simp add: copied_def)
next
  case (snoc l ks)
  then show ?case by (simp add: copied_snoc distinct_update split: option.split)
qed

lemma lock_cases:
  "lockCanonicalFields claims allowed = Inr body \<longleftrightarrow>
     is_object claims \<and> (\<forall>(k, v) \<in> set (entries claims). k = ascii ''payload_hash'' \<or> k \<in> set allowed) \<and>
     body = copied (entries claims) allowed \<and> assertPublicCanonical (CObj body) = None"
  by (auto simp: lockCanonicalFields_def copied_def [symmetric] Let_def list_ex_iff split: option.splits)

text \<open>
  Property C37. What is sealed is public and on the list: a body that \<open>lockCanonicalFields\<close> gives has
  exactly the listed fields that the claims define, with their values, and no value inside it, at any
  depth, is an object with a private field or a private key. Claims with a field that is not listed are
  refused as a whole.
\<close>

theorem locked_body_public:
  assumes "lockCanonicalFields claims allowed = Inr body"
  shows "(\<forall>k. lookup k body = (if k \<in> set allowed then lookup k (entries claims) else CUndefined)) \<and>
    distinct (map fst body) \<and> (\<forall>v. inside v (CObj body) \<longrightarrow> \<not> shows_private v) \<and>
    (\<forall>(k, v) \<in> set (entries claims). k = ascii ''payload_hash'' \<or> k \<in> set allowed)"
proof -
  note b = iffD1 [OF lock_cases assms]
  then have "\<forall>k. lookup k body = (if k \<in> set allowed then lookup k (entries claims) else CUndefined)"
    by (auto simp: lookup_def copied_lookup split: option.splits)
  with b copied_distinct assert_public_iff [of "CObj body"] show ?thesis by blast
qed


lemma seal_cases:
  "sealCanonicalObject claims allowed can = Inr s \<longleftrightarrow>
     (\<exists>body t. lockCanonicalFields claims allowed = Inr body \<and> can (CObj body) = Some t \<and>
        s = \<lparr>sl_preimage = t, sl_payload_hash = sha256Hex t,
             sl_claims = CObj (AList.update (ascii ''payload_hash'') (CStr (sha256Hex t)) body)\<rparr>)"
  by (auto simp: sealCanonicalObject_def split: sum.splits option.splits)

lemma ascii_inject: "ascii s = ascii t \<longleftrightarrow> s = t"
proof
  have w: "unat (word_of_nat (of_char c) :: unit16) = of_char c" for c
    by (intro unit_value less_trans [OF nat_of_char_less_256]) simp
  assume "ascii s = ascii t"
  then have "map unat (ascii s) = map unat (ascii t)" by simp
  then have "map (of_char :: char \<Rightarrow> nat) s = map of_char t" by (simp add: ascii_def w comp_def)
  then show "s = t" by (rule map_injective) (simp add: inj_on_def)
qed simp


text \<open>A document as it is kept: the bytes and the hash inside its signature.\<close>

definition kept :: "text16 \<Rightarrow> text16 \<Rightarrow> cval" where
  "kept t hash = CObj [(ascii ''issuer_signature'', CObj [(ascii ''canonical_preimage'', CStr t), (ascii ''payload_hash'', CStr hash)])]"

lemma kept_stored: "hash \<noteq> [] \<Longrightarrow> storedCanonicalPreimage (kept t hash) =
    Some (if hash = sha256Hex t then Stored t hash (CStr (ascii ''sha256'')) else Corrupt)"
  by (simp add: storedCanonicalPreimage_def kept_def signature_of_def get_def lookup_def truthy_def is_object_def
      either_def text_of_def ascii_inject Let_def)

lemma hash_nonempty: "sha256Hex t \<noteq> []"
proof -
  have "length (sha256Hex t) = 64" by (simp add: sha256Hex_def ascii_def)
  then show ?thesis by auto
qed

text \<open>
  The kept bytes are served only as they were sealed: reading back what a seal gave
  serves exactly those bytes with their hash, and a document that carries the same hash with other
  bytes is answered as corrupt, unless the two texts have one UTF-8 form or collide under SHA-256.
\<close>

theorem kept_bytes_served_unchanged:
  assumes "sealCanonicalObject claims allowed can = Inr s"
  shows "writeCanonicalPreimage (kept (sl_preimage s) (sl_payload_hash s)) False =
      Bytes ''private, no-store'' (CStr (ascii ''sha256'')) (sl_payload_hash s) (utf8 (sl_preimage s)) \<and>
    (writeCanonicalPreimage (kept t (sl_payload_hash s)) False = Unavailable_corrupt \<or>
     utf8 t = utf8 (sl_preimage s) \<or> sha_collision (utf8 t) (utf8 (sl_preimage s)))"
proof -
  have h: "sl_payload_hash s = sha256Hex (sl_preimage s)" using assms by (auto simp: seal_cases)
  have c: "canonicalPreimageCacheControl (kept x y) = ''private, no-store''" for x y
    by (simp add: canonicalPreimageCacheControl_def has_tree_head_def kept_def get_def lookup_def ascii_inject)
  have "writeCanonicalPreimage (kept (sl_preimage s) (sl_payload_hash s)) False =
      Bytes ''private, no-store'' (CStr (ascii ''sha256'')) (sl_payload_hash s) (utf8 (sl_preimage s))"
    by (simp add: writeCanonicalPreimage_def kept_stored hash_nonempty h c)
  moreover have "sha256 (utf8 t) = sha256 (utf8 (sl_preimage s))" if "sha256Hex t = sha256Hex (sl_preimage s)"
    using that by (simp add: sha256Hex_def ascii_inject to_hex_inject)
  moreover have "writeCanonicalPreimage (kept t (sl_payload_hash s)) False = Unavailable_corrupt"
    if "sha256Hex t \<noteq> sha256Hex (sl_preimage s)"
    using that by (auto simp: writeCanonicalPreimage_def kept_stored hash_nonempty h)
  ultimately show ?thesis unfolding sha_collision_def by blast
qed

text \<open>A small receipt, its members in another order than the list.\<close>

definition sample_claims :: cval where
  "sample_claims = CObj [(ascii ''kind'', CStr (ascii ''r'')), (ascii ''payload_hash'', CStr []), (ascii ''iat'', CNum (Finite (ascii ''7'')))]"

definition sample_claims_again :: cval where
  "sample_claims_again = CObj [(ascii ''iat'', CNum (Finite (ascii ''7''))), (ascii ''kind'', CStr (ascii ''r''))]"

definition sample_body :: "(text16 \<times> cval) list" where
  "sample_body = [(ascii ''iat'', CNum (Finite (ascii ''7''))), (ascii ''kind'', CStr (ascii ''r''))]"

definition sample_fields :: "text16 list" where
  "sample_fields = [ascii ''iat'', ascii ''kind'', ascii ''task_id'']"

lemma sample_lock:
  "lockCanonicalFields sample_claims sample_fields = Inr sample_body"
  "lockCanonicalFields sample_claims_again RECEIPT_CANONICAL_FIELDS = Inr sample_body"
  by code_simp+

lemma sample_text: "jcsRfc8785 (CObj sample_body) = Some (ascii ''{\"iat\":7,\"kind\":\"r\"}'')"
  by code_simp


lemma sample_seals:
  "\<exists>s. sealCanonicalObject sample_claims sample_fields jcsRfc8785 = Inr s \<and>
       sealCanonicalObject sample_claims_again RECEIPT_CANONICAL_FIELDS jcsRfc8785 = Inr s"
  by (simp add: sealCanonicalObject_def sample_lock sample_text)

theorem locked_body_public_witness:
  "lookup (ascii ''iat'') sample_body = CNum (Finite (ascii ''7'')) \<and> \<not> shows_private (CObj sample_body)"
proof -
  have "lookup (ascii ''iat'') (entries sample_claims) = CNum (Finite (ascii ''7''))" "ascii ''iat'' \<in> set sample_fields"
    by code_simp+
  with locked_body_public [OF sample_lock(1)] inside_self show ?thesis by metis
qed


theorem kept_bytes_served_unchanged_witness:
  "\<exists>s. sealCanonicalObject sample_claims sample_fields jcsRfc8785 = Inr s \<and>
     writeCanonicalPreimage (kept (sl_preimage s) (sl_payload_hash s)) False =
       Bytes ''private, no-store'' (CStr (ascii ''sha256'')) (sl_payload_hash s) (utf8 (sl_preimage s))"
proof -
  obtain s where s: "sealCanonicalObject sample_claims sample_fields jcsRfc8785 = Inr s" using sample_seals by blast
  then show ?thesis using kept_bytes_served_unchanged [OF s] by blast
qed

end
