(* ===== verification/Served_Replay.thy ===== *)
theory Served_Replay
  imports Js_Store Canonical_Json
begin

text \<open>
  services/gateway/src/paid-response-replay.js: one response per challenge, kept in memory for a
  while, within a bound for each response and one for the process. A nonce that is not given is
  \<open>[]\<close>. The clock is read once per operation and is an argument. A waiter is removed when it is finished, so it stands in the map
  exactly while it is not done; what it is finished with is an output, as is the audit mark that
  the durable store gets.
\<close>

section \<open>State\<close>

record served_copy =
  sc_bytes :: text16
  sc_signature :: string
  sc_task :: string
  sc_hash :: string
  sc_status :: int
  sc_headers :: "(string \<times> string) list"
  sc_expires :: int
  sc_size :: nat
  sc_stored :: int

record replay_limits =
  rl_ttl :: int
  rl_max :: nat
  rl_process_max :: nat

definition replay_defaults :: replay_limits where
  "replay_defaults = \<lparr>rl_ttl = 120000, rl_max = 256 * 1024, rl_process_max = 64 * 1024 * 1024\<rparr>"

record served_replay =
  sv_memory :: "(string, served_copy) jsmap"
  sv_waiters :: "string list"
  sv_bytes :: nat

definition empty_replay :: served_replay where
  "empty_replay = \<lparr>sv_memory = [], sv_waiters = [], sv_bytes = 0\<rparr>"

section \<open>Operations\<close>

text \<open>The count of bytes is cut off at zero, as \<open>-\<close> on natural numbers does.\<close>

definition dropMemory :: "string \<Rightarrow> served_replay \<Rightarrow> served_replay" where
  "dropMemory key s =
     (case jm_get (sv_memory s) key of
        None \<Rightarrow> s
      | Some row \<Rightarrow> s\<lparr>sv_bytes := sv_bytes s - sc_size row, sv_memory := jm_delete key (sv_memory s)\<rparr>)"

definition sweepExpired :: "int \<Rightarrow> served_replay \<Rightarrow> served_replay" where
  "sweepExpired now s =
     foldl (\<lambda>s (key, row). if sc_expires row \<le> now then dropMemory key s else s) s (sv_memory s)"

definition liveMemory :: "int \<Rightarrow> string \<Rightarrow> served_replay \<Rightarrow> served_replay \<times> served_copy option" where
  "liveMemory now key s =
     (case jm_get (sv_memory s) key of
        None \<Rightarrow> (s, None)
      | Some row \<Rightarrow> if sc_expires row \<le> now then (dropMemory key s, None) else (s, Some row))"

definition replayBytesReady :: "int \<Rightarrow> string \<Rightarrow> served_replay \<Rightarrow> served_replay \<times> bool" where
  "replayBytesReady now nonce s =
     (if nonce = [] then (s, False)
      else case liveMemory now nonce s of
          (s', Some row) \<Rightarrow> (s', True)
        | (s', None) \<Rightarrow> (s', nonce \<in> set (sv_waiters s')))"

definition armServedReceipt :: "int \<Rightarrow> string \<Rightarrow> served_replay \<Rightarrow> served_replay" where
  "armServedReceipt now nonce s =
     (if nonce = [] \<or> nonce \<in> set (sv_waiters s) then s
      else case liveMemory now nonce s of
          (s', Some row) \<Rightarrow> s'
        | (s', None) \<Rightarrow> s'\<lparr>sv_waiters := sv_waiters s' @ [nonce]\<rparr>)"

text \<open>The waiter that is finished, if there is one.\<close>

definition finishWaiter :: "string \<Rightarrow> served_replay \<Rightarrow> served_replay \<times> bool" where
  "finishWaiter key s = (s\<lparr>sv_waiters := filter (\<lambda>k. k \<noteq> key) (sv_waiters s)\<rparr>, key \<in> set (sv_waiters s))"

definition responseHash :: "text16 \<Rightarrow> string" where
  "responseHash t = to_hex (sha256 (utf8 t))"

record payload =
  pl_bytes :: text16
  pl_signature :: string
  pl_task :: string
  pl_status :: int
  pl_headers :: "(string \<times> string) list"

text \<open>The oldest copies go first; a map keeps the order in which its keys were set.\<close>

fun make_room :: "nat \<Rightarrow> nat \<Rightarrow> (string, served_copy) jsmap \<Rightarrow> nat \<Rightarrow> (string, served_copy) jsmap \<times> nat" where
  "make_room bound new [] total_bytes = ([], total_bytes)"
| "make_room bound new ((k, row) # m) total_bytes =
     (if bound < total_bytes + new then make_room bound new m (total_bytes - sc_size row) else ((k, row) # m, total_bytes))"

record commit_result =
  cm_stored :: "served_copy option"
  cm_task :: string
  cm_hash :: string
  cm_finished :: bool

definition commitServedReceipt ::
    "replay_limits \<Rightarrow> int \<Rightarrow> string \<Rightarrow> payload option \<Rightarrow> served_replay \<Rightarrow> served_replay \<times> commit_result option" where
  "commitServedReceipt l now nonce p s =
     (case p of
        None \<Rightarrow> (s, None)
      | Some p \<Rightarrow>
          if nonce = [] then (s, None)
          else (let hash = responseHash (pl_bytes p);
                    s1 = dropMemory nonce (sweepExpired now s);
                    new = length (utf8 (pl_bytes p));
                    row = \<lparr>sc_bytes = pl_bytes p, sc_signature = pl_signature p, sc_task = pl_task p, sc_hash = hash,
                           sc_status = (if pl_status p = 0 then 200 else pl_status p), sc_headers = pl_headers p,
                           sc_expires = now + rl_ttl l, sc_size = new, sc_stored = now\<rparr>;
                    kept = (if new \<le> rl_max l \<and> new \<le> rl_process_max l then
                              (let (m, b) = make_room (rl_process_max l) new (sv_memory s1) (sv_bytes s1)
                               in if b + new \<le> rl_process_max l
                                  then (s1\<lparr>sv_memory := jm_set nonce row m, sv_bytes := b + new\<rparr>, Some row)
                                  else (s1\<lparr>sv_memory := m, sv_bytes := b\<rparr>, None))
                            else (s1, None));
                    (s2, fin) = finishWaiter nonce (fst kept)
                in (s2, Some \<lparr>cm_stored = snd kept, cm_task = pl_task p, cm_hash = hash, cm_finished = fin\<rparr>)))"

definition abortServedReceipt :: "string \<Rightarrow> served_replay \<Rightarrow> served_replay" where
  "abortServedReceipt nonce s = (if nonce = [] then s else fst (finishWaiter nonce s))"

definition clearReplayMemory :: "served_replay \<Rightarrow> served_replay" where
  "clearReplayMemory s = empty_replay"

text \<open>\<open>takeServedReceipt\<close> up to its wait, and after it, with what the waiter was finished with.\<close>

datatype take_answer = Copy served_copy | Nothing | Waits

definition take_start :: "int \<Rightarrow> string \<Rightarrow> served_replay \<Rightarrow> served_replay \<times> take_answer" where
  "take_start now nonce s =
     (if nonce = [] then (s, Nothing)
      else case liveMemory now nonce s of
          (s', Some row) \<Rightarrow> (s', Copy row)
        | (s', None) \<Rightarrow> (s', if nonce \<in> set (sv_waiters s') then Waits else Nothing))"

definition take_finished :: "int \<Rightarrow> string \<Rightarrow> served_copy option \<Rightarrow> served_replay \<Rightarrow> served_replay \<times> served_copy option" where
  "take_finished now nonce stored s =
     (case stored of
        None \<Rightarrow> (s, None)
      | Some row \<Rightarrow>
          if sc_bytes row = [] then (s, None)
          else (case liveMemory now nonce s of (s', live) \<Rightarrow> (s', if live = None then None else Some row)))"

datatype replay_op =
    RReady int string
  | RArm int string
  | RCommit int string "payload option"
  | RAbort string
  | RClear
  | RTake int string
  | RTook int string "served_copy option"

fun replay_step :: "replay_limits \<Rightarrow> served_replay \<Rightarrow> replay_op \<Rightarrow> served_replay" where
  "replay_step l s (RReady now n) = fst (replayBytesReady now n s)"
| "replay_step l s (RArm now n) = armServedReceipt now n s"
| "replay_step l s (RCommit now n p) = fst (commitServedReceipt l now n p s)"
| "replay_step l s (RAbort n) = abortServedReceipt n s"
| "replay_step l s RClear = clearReplayMemory s"
| "replay_step l s (RTake now n) = fst (take_start now n s)"
| "replay_step l s (RTook now n st) = fst (take_finished now n st s)"

section \<open>The bounds\<close>

definition replay_ok :: "replay_limits \<Rightarrow> served_replay \<Rightarrow> bool" where
  "replay_ok l s \<longleftrightarrow> jm_ok (sv_memory s) \<and> sv_bytes s = jm_sum sc_size (sv_memory s) \<and> sv_bytes s \<le> rl_process_max l \<and>
     jm_all (\<lambda>k row. sc_size row \<le> rl_max l \<and> sc_size row = length (utf8 (sc_bytes row))) (sv_memory s)"

lemma jm_sum_delete: "jm_ok m \<Longrightarrow> jm_get m k = Some v \<Longrightarrow> jm_sum f (jm_delete k m) + f v = jm_sum f m"
proof (induction m)
  case (Cons p m)
  obtain k' v' where p: "p = (k', v')" by (cases p)
  show ?case
  proof (cases "k' = k")
    case True
    then have "k \<notin> fst ` set m" using Cons.prems(1) p by (auto simp: jm_ok_def)
    then have "jm_delete k m = m" by (simp add: delete_id)
    with True p Cons.prems(2) show ?thesis by simp
  next
    case False
    with Cons p show ?thesis by (simp add: jm_ok_def)
  qed
qed simp

text \<open>What an operation leaves of the map when it sets nothing.\<close>

definition shrunk :: "served_replay \<Rightarrow> served_replay \<Rightarrow> bool" where
  "shrunk s s' \<longleftrightarrow> (\<forall>k row. jm_get (sv_memory s') k = Some row \<longrightarrow> jm_get (sv_memory s) k = Some row)"

lemma shrunk_refl [simp]: "shrunk s s"
  by (simp add: shrunk_def)

lemma shrunk_trans: "shrunk s t \<Longrightarrow> shrunk t u \<Longrightarrow> shrunk s u"
  by (simp add: shrunk_def)

lemma drop_ok: "replay_ok l s \<Longrightarrow> replay_ok l (dropMemory key s) \<and> shrunk s (dropMemory key s)"
proof (cases "jm_get (sv_memory s) key")
  case (Some row)
  assume ok: "replay_ok l s"
  have "jm_sum sc_size (jm_delete key (sv_memory s)) + sc_size row = jm_sum sc_size (sv_memory s)"
    by (rule jm_sum_delete) (use ok Some in \<open>simp_all add: replay_ok_def\<close>)
  with ok Some show ?thesis by (auto simp: dropMemory_def replay_ok_def shrunk_def jm_all_delete delete_conv' split: if_splits)
qed (simp add: dropMemory_def)

lemma drop_gone: "jm_get (sv_memory (dropMemory key s)) key = None"
  by (auto simp: dropMemory_def delete_conv' split: option.split)

lemma sweep_ok: "replay_ok l s \<Longrightarrow> replay_ok l (sweepExpired now s) \<and> shrunk s (sweepExpired now s)"
proof -
  assume ok: "replay_ok l s"
  let ?f = "\<lambda>s (key, row). if sc_expires row \<le> now then dropMemory key s else s"
  have "replay_ok l (foldl ?f s rows) \<and> shrunk s (foldl ?f s rows)" for rows
  proof (induction rows rule: rev_induct)
    case Nil
    with ok show ?case by simp
  next
    case (snoc e rows)
    then show ?case by (cases e) (auto dest: drop_ok intro: shrunk_trans)
  qed
  then show ?thesis by (simp add: sweepExpired_def)
qed

lemma live_ok: "replay_ok l s \<Longrightarrow> replay_ok l (fst (liveMemory now key s)) \<and> shrunk s (fst (liveMemory now key s))"
  using drop_ok [of l s key] by (auto simp: liveMemory_def split: option.split)

lemma room_ok:
  assumes "jm_ok m" "b = jm_sum sc_size m" "make_room bound new m b = (m', b')"
  shows "jm_ok m' \<and> b' = jm_sum sc_size m' \<and> (new \<le> bound \<longrightarrow> b' + new \<le> bound) \<and> (b \<le> bound \<longrightarrow> b' \<le> bound) \<and> set m' \<subseteq> set m"
  using assms
proof (induction m arbitrary: b)
  case (Cons p m)
  obtain k row where p: "p = (k, row)" by (cases p)
  show ?case
  proof (cases "bound < b + new")
    case True
    have "b - sc_size row = jm_sum sc_size m" using Cons.prems(2) p by simp
    moreover have "jm_ok m" using Cons.prems(1) by (simp add: jm_ok_def)
    moreover have "make_room bound new m (b - sc_size row) = (m', b')" using True p Cons.prems(3) by simp
    moreover have "b - sc_size row \<le> b" by simp
    ultimately show ?thesis using Cons.IH [of "b - sc_size row"] by auto
  next
    case False
    with Cons p show ?thesis by auto
  qed
qed auto

lemma set_get: "jm_ok m \<Longrightarrow> jm_ok m' \<Longrightarrow> set m' \<subseteq> set m \<Longrightarrow> jm_get m' k = Some v \<Longrightarrow> jm_get m k = Some v"
  by (auto simp: jm_ok_def dest!: map_of_SomeD intro: map_of_is_SomeI)

text \<open>What a commit leaves: the new copy under its nonce, if it was kept, and otherwise no copy of it.\<close>

definition new_copy :: "replay_limits \<Rightarrow> int \<Rightarrow> payload \<Rightarrow> served_copy" where
  "new_copy l now p = \<lparr>sc_bytes = pl_bytes p, sc_signature = pl_signature p, sc_task = pl_task p, sc_hash = responseHash (pl_bytes p),
     sc_status = (if pl_status p = 0 then 200 else pl_status p), sc_headers = pl_headers p,
     sc_expires = now + rl_ttl l, sc_size = length (utf8 (pl_bytes p)), sc_stored = now\<rparr>"

lemma commit_ok:
  assumes ok: "replay_ok l s" and n: "n \<noteq> []" and c: "commitServedReceipt l now n (Some p) s = (s', r)"
  shows "replay_ok l s'"
    "jm_get (sv_memory s') k = Some row \<Longrightarrow> (if k = n then row = new_copy l now p else jm_get (sv_memory s) k = Some row)"
    "length (utf8 (pl_bytes p)) \<le> rl_max l \<Longrightarrow> length (utf8 (pl_bytes p)) \<le> rl_process_max l \<Longrightarrow>
       jm_get (sv_memory s') n = Some (new_copy l now p)"
proof -
  let ?s1 = "dropMemory n (sweepExpired now s)" and ?new = "length (utf8 (pl_bytes p))"
  have s1: "replay_ok l ?s1" "shrunk s ?s1" using drop_ok sweep_ok ok shrunk_trans by blast+
  obtain m b where room: "make_room (rl_process_max l) ?new (sv_memory ?s1) (sv_bytes ?s1) = (m, b)" by fastforce
  have m: "jm_ok m" "b = jm_sum sc_size m" "?new \<le> rl_process_max l \<Longrightarrow> b + ?new \<le> rl_process_max l" "b \<le> rl_process_max l"
    "set m \<subseteq> set (sv_memory ?s1)"
    using room_ok [OF _ _ room] s1(1) by (auto simp: replay_ok_def)
  have old: "jm_get m k = Some row \<Longrightarrow> jm_get (sv_memory ?s1) k = Some row" for k row
    using set_get [OF _ m(1) m(5)] s1(1) by (auto simp: replay_ok_def)
  have none: "jm_get m n = None" using old drop_gone [of n "sweepExpired now s"] by (metis not_None_eq)
  have all: "jm_all (\<lambda>k row. sc_size row \<le> rl_max l \<and> sc_size row = length (utf8 (sc_bytes row))) m"
    using s1(1) m(5) unfolding replay_ok_def jm_all_def list_all_iff by blast
  let ?fits = "?new \<le> rl_max l \<and> ?new \<le> rl_process_max l"
  have s': "sv_memory s' = (if ?fits then jm_set n (new_copy l now p) m else sv_memory ?s1)"
    "sv_bytes s' = (if ?fits then b + ?new else sv_bytes ?s1)"
    using c n room m(3) by (auto simp: commitServedReceipt_def finishWaiter_def Let_def new_copy_def split: if_splits)
  show "replay_ok l s'"
  proof (cases ?fits)
    case True
    with m(1-4) none s' all show ?thesis
      by (simp add: replay_ok_def jm_sum_set_new) (auto simp: new_copy_def intro!: jm_all_set)
  next
    case False
    with s1(1) s' show ?thesis by (simp add: replay_ok_def)
  qed
  show "jm_get (sv_memory s') k = Some row \<Longrightarrow> (if k = n then row = new_copy l now p else jm_get (sv_memory s) k = Some row)"
    using s'(1) old s1(2) drop_gone [of n "sweepExpired now s"] by (auto simp: update_conv' shrunk_def split: if_splits)
  show "?new \<le> rl_max l \<Longrightarrow> ?new \<le> rl_process_max l \<Longrightarrow> jm_get (sv_memory s') n = Some (new_copy l now p)"
    using s'(1) by (simp add: update_conv')
qed

lemma take_memory:
  "fst (replayBytesReady now n s) = (if n = [] then s else fst (liveMemory now n s))"
  "fst (take_start now n s) = (if n = [] then s else fst (liveMemory now n s))"
  "sv_memory (armServedReceipt now n s) = (if n = [] \<or> n \<in> set (sv_waiters s) then sv_memory s else sv_memory (fst (liveMemory now n s)))"
  "sv_bytes (armServedReceipt now n s) = (if n = [] \<or> n \<in> set (sv_waiters s) then sv_bytes s else sv_bytes (fst (liveMemory now n s)))"
  "fst (take_finished now n st s) = (if st = None \<or> sc_bytes (the st) = [] then s else fst (liveMemory now n s))"
  by (auto simp: replayBytesReady_def take_start_def armServedReceipt_def take_finished_def split: option.split prod.split)

lemma same_memory: "sv_memory s' = sv_memory s \<Longrightarrow> sv_bytes s' = sv_bytes s \<Longrightarrow> replay_ok l s \<Longrightarrow> replay_ok l s' \<and> shrunk s s'"
  by (simp add: replay_ok_def shrunk_def)

lemma other_steps:
  assumes ok: "replay_ok l s" and c: "\<And>t n p. x = RCommit t n (Some p) \<Longrightarrow> n = []"
  shows "replay_ok l (replay_step l s x) \<and> shrunk s (replay_step l s x)"
proof (cases x)
  case (RArm now n)
  have "replay_ok l (fst (liveMemory now n s)) \<and> shrunk s (fst (liveMemory now n s))" by (rule live_ok [OF ok])
  with RArm ok show ?thesis by (auto simp: replay_ok_def shrunk_def take_memory)
next
  case (RCommit now n p)
  with c ok show ?thesis by (cases p) (auto simp: commitServedReceipt_def)
next
  case (RAbort n)
  with ok show ?thesis by (simp add: abortServedReceipt_def finishWaiter_def same_memory)
next
  case RClear
  then show ?thesis by (simp add: clearReplayMemory_def empty_replay_def replay_ok_def shrunk_def)
qed (use ok live_ok [OF ok] in \<open>simp_all add: take_memory\<close>)

lemma replay_step_ok: "replay_ok l s \<Longrightarrow> replay_ok l (replay_step l s x)"
proof (cases "\<exists>t n p. x = RCommit t n (Some p) \<and> n \<noteq> []")
  case True
  then obtain t n p where x: "x = RCommit t n (Some p)" "n \<noteq> []" by blast
  assume "replay_ok l s"
  with x commit_ok(1) [of l s n t p] show ?thesis by (cases "commitServedReceipt l t n (Some p) s") simp
next
  case False
  assume "replay_ok l s"
  with False other_steps [of l s x] show ?thesis by blast
qed

interpretation replay_run: invariant_run "replay_step l" "replay_ok l" "\<lambda>x. True" for l
  by unfold_locales (rule replay_step_ok)


definition replay_run_of :: "replay_limits \<Rightarrow> replay_op list \<Rightarrow> served_replay" where
  "replay_run_of l ops = foldl (replay_step l) empty_replay ops"

lemma run_replay_ok: "replay_ok l (replay_run_of l ops)"
  using replay_run.run_inv [of l empty_replay ops]
  by (simp add: replay_run_of_def list_all_iff) (simp add: replay_ok_def empty_replay_def)

text \<open>
  The memory that responses are kept in is bounded: after any operations the count of bytes
  is exactly the sum over the copies and not above the bound of the process, every copy is as long as its
  bytes and not above the bound of one response, and no nonce has two copies.
\<close>

theorem replay_memory_bounded:
  "sv_bytes (replay_run_of l ops) = sum_list (map (\<lambda>(k, row). length (utf8 (sc_bytes row))) (sv_memory (replay_run_of l ops))) \<and>
   sv_bytes (replay_run_of l ops) \<le> rl_process_max l \<and> distinct (map fst (sv_memory (replay_run_of l ops))) \<and>
   list_all (\<lambda>(k, row). length (utf8 (sc_bytes row)) \<le> rl_max l) (sv_memory (replay_run_of l ops))"
proof -
  let ?m = "sv_memory (replay_run_of l ops)"
  note ok = run_replay_ok [of l ops, unfolded replay_ok_def]
  then have s: "\<forall>(k, row) \<in> set ?m. sc_size row \<le> rl_max l \<and> sc_size row = length (utf8 (sc_bytes row))"
    by (simp add: jm_all_def list_all_iff)
  then have "jm_sum sc_size ?m = sum_list (map (\<lambda>(k, row). length (utf8 (sc_bytes row))) ?m)"
    unfolding jm_sum_def by (intro arg_cong [of _ _ sum_list] map_cong) auto
  with ok s show ?thesis by (auto simp: jm_ok_def list_all_iff)
qed

text \<open>The commit of a nonce that no later one replaced.\<close>

definition last_commit :: "string \<Rightarrow> int \<Rightarrow> payload \<Rightarrow> replay_op list \<Rightarrow> bool" where
  "last_commit n t p ops \<longleftrightarrow> (\<exists>a b. ops = a @ RCommit t n (Some p) # b \<and> (\<forall>t' q. RCommit t' n (Some q) \<notin> set b))"

lemma kept_is_last:
  "n \<noteq> [] \<Longrightarrow> jm_get (sv_memory (replay_run_of l ops)) n = Some row \<Longrightarrow> \<exists>t p. last_commit n t p ops \<and> row = new_copy l t p"
proof (induction ops rule: rev_induct)
  case Nil
  then show ?case by (simp add: replay_run_of_def empty_replay_def)
next
  case (snoc x ops)
  let ?s = "replay_run_of l ops"
  have step: "replay_run_of l (ops @ [x]) = replay_step l ?s x" by (simp add: replay_run_of_def)
  have ok: "replay_ok l ?s" by (rule run_replay_ok)
  have later: "\<exists>t p. last_commit n t p (ops @ [x]) \<and> row = new_copy l t p"
    if "jm_get (sv_memory ?s) n = Some row" "\<forall>t p. x \<noteq> RCommit t n (Some p)"
  proof -
    from snoc.IH [OF snoc.prems(1) that(1)] obtain t p a b where *: "row = new_copy l t p" "ops = a @ RCommit t n (Some p) # b"
      "\<forall>t' q. RCommit t' n (Some q) \<notin> set b" by (auto simp: last_commit_def)
    then have "ops @ [x] = a @ RCommit t n (Some p) # (b @ [x])" "\<forall>t' q. RCommit t' n (Some q) \<notin> set (b @ [x])"
      using that(2) by auto
    with * show ?thesis unfolding last_commit_def by blast
  qed
  show ?case
  proof (cases "\<exists>t k p. x = RCommit t k (Some p) \<and> k \<noteq> []")
    case True
    then obtain t k p where x: "x = RCommit t k (Some p)" "k \<noteq> []" by blast
    obtain s' r where c: "commitServedReceipt l t k (Some p) ?s = (s', r)" by fastforce
    have "jm_get (sv_memory s') n = Some row" using snoc.prems(2) step x c by simp
    from commit_ok(2) [OF ok x(2) c this] show ?thesis
    proof (cases "n = k")
      case True
      with x \<open>if n = k then _ else _\<close> show ?thesis unfolding last_commit_def
        by (intro exI [of _ t] exI [of _ p] conjI exI [of _ ops] exI [of _ "[]"]) simp_all
    next
      case False
      with x \<open>if n = k then _ else _\<close> later show ?thesis by auto
    qed
  next
    case False
    then have sh: "shrunk ?s (replay_step l ?s x)" using other_steps [OF ok] by blast
    then have g: "jm_get (sv_memory ?s) n = Some row" using snoc.prems(2) step by (simp add: shrunk_def)
    moreover have "\<forall>t p. x \<noteq> RCommit t n (Some p)" using False snoc.prems(1) by blast
    ultimately show ?thesis by (rule later)
  qed
qed


text \<open>
  A replay gets the response of the last commit for its nonce, and gets it in time: whatever
  happened before, the copy that is served has the bytes, the task and the hash of the latest commit of
  that nonce, and its time to live since that commit is not over.
\<close>

theorem replay_serves_last_commit:
  assumes "take_start now n (replay_run_of l ops) = (s', Copy row)"
  shows "\<exists>t p. last_commit n t p ops \<and> sc_bytes row = pl_bytes p \<and> sc_task row = pl_task p \<and>
    sc_hash row = responseHash (pl_bytes p) \<and> now < t + rl_ttl l"
proof -
  from assms have n: "n \<noteq> []" and live: "jm_get (sv_memory (replay_run_of l ops)) n = Some row" "now < sc_expires row"
    by (auto simp: take_start_def liveMemory_def split: if_splits option.splits)
  from kept_is_last [OF n live(1)] obtain t p where "last_commit n t p ops" "row = new_copy l t p" by blast
  with live(2) show ?thesis by (intro exI [of _ t] exI [of _ p]) (simp add: new_copy_def)
qed

text \<open>A response within both bounds is kept, and is there until its time is over.\<close>

lemma commit_then_take:
  assumes "n \<noteq> []" "length (utf8 (pl_bytes p)) \<le> rl_max l" "length (utf8 (pl_bytes p)) \<le> rl_process_max l" "now < t + rl_ttl l"
  shows "take_start now n (replay_run_of l (ops @ [RCommit t n (Some p)])) =
    (replay_run_of l (ops @ [RCommit t n (Some p)]), Copy (new_copy l t p))"
proof -
  obtain s' r where c: "commitServedReceipt l t n (Some p) (replay_run_of l ops) = (s', r)" by fastforce
  then have s': "replay_run_of l (ops @ [RCommit t n (Some p)]) = s'" by (simp add: replay_run_of_def)
  have "jm_get (sv_memory s') n = Some (new_copy l t p)" by (rule commit_ok(3) [OF run_replay_ok assms(1) c assms(2,3)])
  then show ?thesis unfolding s' using assms(1,4) by (simp add: take_start_def liveMemory_def new_copy_def)
qed

text \<open>An empty response is kept and served to a replay, but not to one that waited for it.\<close>

lemma empty_response_not_to_waiter: "sc_bytes row = [] \<Longrightarrow> take_finished now n (Some row) s = (s, None)"
  by (simp add: take_finished_def)

definition sample_payload :: "string \<Rightarrow> payload" where
  "sample_payload t = \<lparr>pl_bytes = ascii t, pl_signature = [], pl_task = ''t'', pl_status = 200, pl_headers = []\<rparr>"

theorem replay_serves_last_commit_witness:
  "\<exists>t p. last_commit ''n'' t p [RCommit 5 ''n'' (Some (sample_payload ''a'')), RCommit 9 ''n'' (Some (sample_payload ''b''))] \<and>
     pl_bytes p = ascii ''b'' \<and> 20 < t + rl_ttl replay_defaults"
proof -
  let ?ops = "[RCommit 5 ''n'' (Some (sample_payload ''a''))] @ [RCommit 9 ''n'' (Some (sample_payload ''b''))]"
  have "length (utf8 (ascii ''b'')) = 1"
    by (simp add: utf8_def ascii_def lone_point_def high_surrogate_def low_surrogate_def point_numbers_def)
  then have "take_start 20 ''n'' (replay_run_of replay_defaults ?ops) =
      (replay_run_of replay_defaults ?ops, Copy (new_copy replay_defaults 9 (sample_payload ''b'')))"
    by (intro commit_then_take) (simp_all add: sample_payload_def replay_defaults_def)
  from replay_serves_last_commit [OF this] show ?thesis by (simp add: new_copy_def sample_payload_def) metis
qed

end
