(* ===== verification/Legacy_Set.thy ===== *)
theory Legacy_Set
  imports Log_Tree Canonical_Json "HOL-Library.Char_ord" "HOL-Library.Multiset"
begin

text \<open>
  services/gateway/src/legacy-receipt-merkle.js: the frozen set of the receipts from before payload
  version 11, a sorted list of payload hashes under a hash tree that pairs the last node of an odd level
  with itself; and the checks of issuer-root.js that the set on disk is the one frozen on the
  chain. Rows and artifacts are JavaScript values, as parsed from JSON; the parameter \<open>decode\<close> is
  \<open>JSON.parse\<close> of the base64url text of one part of a JWS, \<open>None\<close> when it throws. The fixed texts of an artifact (rules, universe and predicate documents) are left
  out of it. Throwing is \<open>None\<close>. A proof step carries the text of its hash.
\<close>

section \<open>Payload hashes and nodes\<close>

definition normalizePayloadHash :: "jsval \<Rightarrow> string option" where
  "normalizePayloadHash v =
     (case v of
        JStr s \<Rightarrow> (let hex = strip_0x (js_lower (js_trim s)) in if length hex = 64 \<and> is_hex hex then Some hex else None)
      | _ \<Rightarrow> None)"

definition payloadHashBytes :: "jsval \<Rightarrow> bytes option" where
  "payloadHashBytes v = Option.bind (normalizePayloadHash v) of_hex"

definition legacy_leaf :: "bytes \<Rightarrow> bytes" where
  "legacy_leaf b = sha256 (0 # b)"

definition legacyLeaf :: "jsval \<Rightarrow> bytes option" where
  "legacyLeaf v = map_option legacy_leaf (payloadHashBytes v)"

definition legacyNode :: "bytes \<Rightarrow> bytes \<Rightarrow> bytes" where
  "legacyNode left right = sha256 (1 # left @ right)"

definition emptyLegacyRoot :: bytes where
  "emptyLegacyRoot = sha256 [0]"

interpretation legacy_tree: tree_hash "\<lambda>d. 0 # d" "\<lambda>l r. 1 # l @ r" legacy_leaf legacyNode
  by unfold_locales (auto simp: legacy_leaf_def legacyNode_def)

section \<open>Levels\<close>

text \<open>An odd level gets its last node again; then the nodes are paired from the left.\<close>

definition padded :: "bytes list \<Rightarrow> bytes list" where
  "padded level = (if odd (length level) then level @ [last level] else level)"

fun paired :: "bytes list \<Rightarrow> bytes list" where
  "paired (a # b # xs) = legacyNode a b # paired xs"
| "paired _ = []"

lemma length_paired [simp]: "length (paired xs) = length xs div 2"
  by (induction xs rule: paired.induct) auto

lemma length_padded: "length (padded xs) = length xs + length xs mod 2"
  by (simp add: padded_def mod_2_eq_odd)

lemma padded_half [simp]: "length (padded xs) div 2 = (length xs + 1) div 2"
  by (simp add: length_padded) presburger

function level_top :: "bytes list \<Rightarrow> bytes" where
  "level_top level = (if 1 < length level then level_top (paired (padded level)) else hd level)"
  by pat_completeness auto
termination
  by (relation "measure length") auto

declare level_top.simps [simp del]

definition legacyRoot :: "jsval list \<Rightarrow> bytes option" where
  "legacyRoot hashes =
     (case those (map legacyLeaf hashes) of
        None \<Rightarrow> None
      | Some leaves \<Rightarrow> Some (if leaves = [] then emptyLegacyRoot else level_top leaves))"

definition legacyRootHex :: "jsval list \<Rightarrow> string option" where
  "legacyRootHex hashes = map_option (\<lambda>r. ''0x'' @ to_hex r) (legacyRoot hashes)"

definition sortPayloadHashes :: "jsval list \<Rightarrow> string list option" where
  "sortPayloadHashes hashes = map_option sort (those (map normalizePayloadHash hashes))"

section \<open>Proofs\<close>

function climb :: "bytes list \<Rightarrow> nat \<Rightarrow> proof_step list" where
  "climb level idx =
     (if 1 < length level
      then (let sibling = (if even idx then idx + 1 else idx - 1)
            in \<lparr>ps_hash = to_hex (padded level ! sibling), ps_position = (if sibling < idx then ''left'' else ''right'')\<rparr>
               # climb (paired (padded level)) (idx div 2))
      else [])"
  by pat_completeness auto
termination
  by (relation "measure (\<lambda>(level, idx). length level)") auto

declare climb.simps [simp del]

definition legacyInclusionProof :: "jsval list \<Rightarrow> int option \<Rightarrow> proof_step list option" where
  "legacyInclusionProof hashes index =
     (case index of
        None \<Rightarrow> None
      | Some i \<Rightarrow> if i < 0 \<or> int (length hashes) \<le> i then None
                 else map_option (\<lambda>leaves. climb leaves (nat i)) (those (map legacyLeaf hashes)))"

fun fold_steps :: "bytes \<Rightarrow> proof_step list \<Rightarrow> bytes option" where
  "fold_steps h [] = Some h"
| "fold_steps h (s # ss) =
     (if ps_position s \<noteq> ''left'' \<and> ps_position s \<noteq> ''right'' then None
      else let sib = buffer_hex (strip_0x (ps_hash s))
        in if length sib \<noteq> 32 then None
           else fold_steps (if ps_position s = ''left'' then legacyNode sib h else legacyNode h sib) ss)"

definition verifyLegacyInclusion :: "jsval \<Rightarrow> proof_step list \<Rightarrow> string \<Rightarrow> bool" where
  "verifyLegacyInclusion payloadHash steps rootHex =
     (case legacyLeaf payloadHash of
        None \<Rightarrow> False
      | Some h \<Rightarrow>
          (case fold_steps h steps of
             None \<Rightarrow> False
           | Some r \<Rightarrow> to_hex r = js_lower (strip_0x rootHex)))"

section \<open>Which rows are in the set\<close>

datatype row_class = Pre_v11 | V11 | Not_a_receipt | Missing_payload_hash

record classified =
  cl_class :: row_class
  cl_task :: "string option"
  cl_hash :: string
  cl_version :: "jsnum option"

definition is_objectv :: "jsval \<Rightarrow> bool" where
  "is_objectv v = (case v of JObj ps \<Rightarrow> True | JArr vs \<Rightarrow> True | JBytes bs \<Rightarrow> True | _ \<Rightarrow> False)"

definition signatureOf :: "jsval \<Rightarrow> jsval option" where
  "signatureOf row =
     (if \<not> is_objectv row then None
      else if is_objectv (jget row ''issuer_signature'') then Some (jget row ''issuer_signature'')
      else (let snap = js_or (jget row ''receipt_snapshot'') (jget row ''public_receipt'')
            in if is_objectv (jget snap ''issuer_signature'') then Some (jget snap ''issuer_signature'') else None))"

text \<open>\<open>jws.split('.')[1]\<close>, and the decoded payload: \<open>JUndef\<close> stands for null, of which no member is defined either.\<close>

definition second_part :: "string \<Rightarrow> string" where
  "second_part s = takeWhile (\<lambda>c. c \<noteq> CHR ''.'') (drop 1 (dropWhile (\<lambda>c. c \<noteq> CHR ''.'') s))"

definition decodeJwsPayload :: "(string \<Rightarrow> jsval option) \<Rightarrow> jsval \<Rightarrow> jsval" where
  "decodeJwsPayload decode jws =
     (case jws of
        JStr s \<Rightarrow>
          if second_part s = [] then JUndef
          else (case decode (second_part s) of Some v \<Rightarrow> if is_objectv v then v else JUndef | None \<Rightarrow> JUndef)
      | _ \<Rightarrow> JUndef)"

definition version_of :: "jsval \<Rightarrow> jsval \<Rightarrow> jsnum option" where
  "version_of sigv decoded =
     (let raw = js_coalesce (jget sigv ''payload_version'') (js_coalesce (jget decoded ''payload_version'') (jget decoded ''v''))
      in if js_nullish raw \<or> raw = JStr [] then None else Some (js_Number raw))"

definition is_v11 :: "jsval \<Rightarrow> jsval \<Rightarrow> bool" where
  "is_v11 sigv decoded \<longleftrightarrow>
     js_truthy (jget decoded ''issuer_root'') \<or> js_truthy (jget sigv ''issuer_root'') \<or>
     jget decoded ''v'' = JNum (JInt 11) \<or>
     (case version_of sigv decoded of Some n \<Rightarrow> num_finite n \<and> \<not> num_lt n (JInt 11) | None \<Rightarrow> False)"

definition stored_hash :: "jsval \<Rightarrow> jsval \<Rightarrow> string option" where
  "stored_hash sigv decoded =
     (case normalizePayloadHash (jget sigv ''payload_hash'') of
        Some h \<Rightarrow> Some h
      | None \<Rightarrow>
          (case normalizePayloadHash (jget decoded ''payload_hash'') of
             Some h \<Rightarrow> Some h
           | None \<Rightarrow>
               (case jget sigv ''canonical_preimage'' of
                  JStr t \<Rightarrow> Some (to_hex (sha256 (utf8 (ascii t))))
                | _ \<Rightarrow> None)))"

definition classifyLegacyRow :: "(string \<Rightarrow> jsval option) \<Rightarrow> jsval \<Rightarrow> classified" where
  "classifyLegacyRow decode row =
     (let task = (if js_truthy (jget row ''task_id'') then Some (js_String (jget row ''task_id'')) else None);
          result = (\<lambda>c h v. \<lparr>cl_class = c, cl_task = task, cl_hash = h, cl_version = v\<rparr>)
      in case signatureOf row of
           None \<Rightarrow> result Not_a_receipt [] None
         | Some sigv \<Rightarrow>
             if \<not> js_truthy (jget sigv ''jws'') \<and> \<not> js_truthy (jget sigv ''payload_hash'')
                \<and> \<not> js_truthy (jget sigv ''canonical_preimage'')
             then result Not_a_receipt [] None
             else (let decoded = decodeJwsPayload decode (jget sigv ''jws'')
                   in if is_v11 sigv decoded then result V11 [] (version_of sigv decoded)
                      else case stored_hash sigv decoded of
                          None \<Rightarrow> result Missing_payload_hash [] (version_of sigv decoded)
                        | Some h \<Rightarrow> result Pre_v11 h (version_of sigv decoded)))"

definition enumerateLegacyReceipts ::
    "(string \<Rightarrow> jsval option) \<Rightarrow> jsval list \<Rightarrow> classified list \<times> string option list \<times> string option list" where
  "enumerateLegacyReceipts decode rows =
     (let found = map (classifyLegacyRow decode) rows
      in (filter (\<lambda>c. cl_class c = Pre_v11) found,
          map cl_task (filter (\<lambda>c. cl_class c = Missing_payload_hash) found),
          map cl_task (filter (\<lambda>c. cl_class c = V11) found)))"

section \<open>The artifact\<close>

definition LEGACY_SET_SCHEMA :: string where
  "LEGACY_SET_SCHEMA = ''chit402.legacy_receipt_set.v1''"

definition legacyPredicateDocument :: cval where
  "legacyPredicateDocument = CObj (map (\<lambda>(k, v). (ascii k, v)) [
     (''schema'', CStr (ascii ''chit402.universe_predicate.v1'')),
     (''name'', CStr (ascii ''legacy_receipts_pre_v11'')),
     (''subject'', CStr (ascii ''book receipt'')),
     (''include'', CStr (ascii ''book row with a stored issuer signature, payload_version below 11, and no issuer_root claim in the JWS payload'')),
     (''exclude'', CStr (ascii ''rows with no issuer signature; payload_version 11 or greater; any issuer_root claim'')),
     (''leaf'', CStr (ascii ''stored payload_hash bytes'')),
     (''re_sign'', CBool False)])"

definition jcs_sha256Hex :: "cval \<Rightarrow> string" where
  "jcs_sha256Hex v = (case jcsCanonicalize v of Some t \<Rightarrow> to_hex (sha256 (utf8 t)) | None \<Rightarrow> [])"

definition legacyPredicateHash :: string where
  "legacyPredicateHash = jcs_sha256Hex legacyPredicateDocument"

definition legacyUniverseBody :: cval where
  "legacyUniverseBody = CObj (map (\<lambda>(k, v). (ascii k, CStr (ascii v))) [
     (''schema'', ''chit402.universe.v1''), (''book_id'', ''chit402:global''),
     (''window_id'', ''legacy_receipts_pre_v11''), (''predicate_hash'', legacyPredicateHash)])"

definition legacyUniverseId :: string where
  "legacyUniverseId = jcs_sha256Hex legacyUniverseBody"

definition artifact_row :: "nat \<Rightarrow> classified \<Rightarrow> jsval" where
  "artifact_row i c = JObj [(''index'', JNum (JInt (int i))),
     (''task_id'', case cl_task c of Some t \<Rightarrow> JStr t | None \<Rightarrow> JNull),
     (''payload_hash'', JStr (cl_hash c)),
     (''payload_version'', case cl_version c of Some n \<Rightarrow> JNum n | None \<Rightarrow> JNull)]"

text \<open>The sort is by hash and then by the order of the rows, which is a stable sort by hash.\<close>

definition buildLegacyReceiptSet :: "(string \<Rightarrow> jsval option) \<Rightarrow> jsval list \<Rightarrow> string option list + jsval" where
  "buildLegacyReceiptSet decode rows =
     (case enumerateLegacyReceipts decode rows of
        (included, missing, skipped) \<Rightarrow>
          if missing \<noteq> [] then Inl missing
          else (let sorted_rows = sort_key cl_hash included
                in Inr (JObj [(''schema'', JStr LEGACY_SET_SCHEMA),
                     (''universe_id'', JStr legacyUniverseId),
                     (''enumerated_count'', JNum (JInt (int (length sorted_rows)))),
                     (''root'', case legacyRootHex (map (JStr \<circ> cl_hash) sorted_rows) of Some r \<Rightarrow> JStr r | None \<Rightarrow> JUndef),
                     (''empty_root'', JStr (''0x'' @ to_hex emptyLegacyRoot)),
                     (''skipped_v11_count'', JNum (JInt (int (length skipped)))),
                     (''leaves'', JArr (map2 artifact_row [0..<length sorted_rows] sorted_rows))])))"

definition leaves_of :: "jsval \<Rightarrow> jsval list option" where
  "leaves_of parsed = (case jget parsed ''leaves'' of JArr vs \<Rightarrow> Some vs | _ \<Rightarrow> None)"

text \<open>The leaves from place \<open>i\<close> on, \<open>previous\<close> being the hash of the leaf before.\<close>

fun leaves_canonical :: "nat \<Rightarrow> string option \<Rightarrow> jsval list \<Rightarrow> bool" where
  "leaves_canonical i previous [] = True"
| "leaves_canonical i previous (leaf # ls) =
     (case jget leaf ''index'' of
        JNum n \<Rightarrow>
          if \<not> num_same n (JInt (int i)) then False
          else (case normalizePayloadHash (jget leaf ''payload_hash'') of
              None \<Rightarrow> False
            | Some h \<Rightarrow> (case previous of Some p \<Rightarrow> \<not> h < p | None \<Rightarrow> True) \<and> leaves_canonical (i + 1) (Some h) ls)
      | _ \<Rightarrow> False)"

definition legacyArtifactCanonical :: "jsval \<Rightarrow> bool" where
  "legacyArtifactCanonical parsed =
     (jget parsed ''schema'' = JStr LEGACY_SET_SCHEMA \<and>
      (case (leaves_of parsed, jget parsed ''enumerated_count'') of
         (Some ls, JNum n) \<Rightarrow> num_int n = Some (int (length ls)) \<and> leaves_canonical 0 None ls
       | _ \<Rightarrow> False))"

definition task_aliases :: "string \<Rightarrow> string list" where
  "task_aliases needle =
     needle # (if take 5 needle = ''chit-'' then [''xfuel-'' @ drop 5 needle] else [])
            @ (if take 6 needle = ''xfuel-'' then [''chit-'' @ drop 6 needle] else [])"

record legacy_proof =
  lp_task :: jsval
  lp_hash :: jsval
  lp_index :: jsval
  lp_count :: jsval
  lp_root :: string
  lp_universe :: jsval
  lp_leaf :: string
  lp_proof :: "proof_step list"

definition index_of_leaf :: "jsval \<Rightarrow> int option" where
  "index_of_leaf leaf = (case jget leaf ''index'' of JNum n \<Rightarrow> num_int n | _ \<Rightarrow> None)"

text \<open>The source throws where a hash has no bytes; a canonical artifact has no such hash.\<close>

definition legacyProofFromArtifact :: "jsval \<Rightarrow> jsval \<Rightarrow> legacy_proof option" where
  "legacyProofFromArtifact artifact taskId =
     (if \<not> legacyArtifactCanonical artifact then None
      else (let needle = js_String (js_or taskId (JStr []));
                ls = (case leaves_of artifact of Some ls \<Rightarrow> ls | None \<Rightarrow> []);
                hashes = map (\<lambda>l. jget l ''payload_hash'') ls
            in case find (\<lambda>l. js_String (jget l ''task_id'') \<in> set (task_aliases needle)) ls of
                 None \<Rightarrow> None
               | Some leaf \<Rightarrow>
                   (case (legacyInclusionProof hashes (index_of_leaf leaf), legacyRootHex hashes, legacyLeaf (jget leaf ''payload_hash'')) of
                      (Some steps, Some root, Some h) \<Rightarrow>
                        Some \<lparr>lp_task = jget leaf ''task_id'', lp_hash = jget leaf ''payload_hash'', lp_index = jget leaf ''index'',
                              lp_count = jget artifact ''enumerated_count'', lp_root = root,
                              lp_universe = jget artifact ''universe_id'', lp_leaf = to_hex h, lp_proof = steps\<rparr>
                    | _ \<Rightarrow> None)))"

section \<open>The frozen set on the chain\<close>

record frozen_log =
  fz_hash :: string
  fz_count :: int
  fz_universe :: string

definition legacySnapshotReady :: "jsval option \<Rightarrow> bool" where
  "legacySnapshotReady file =
     (case file of
        None \<Rightarrow> False
      | Some parsed \<Rightarrow>
          jget parsed ''schema'' = JStr LEGACY_SET_SCHEMA \<and>
          (case jget parsed ''universe_id'' of JStr u \<Rightarrow> u \<noteq> [] | _ \<Rightarrow> False) \<and>
          (case jget parsed ''enumerated_count'' of
             JNum n \<Rightarrow> (case num_int n of Some c \<Rightarrow> 0 \<le> c | None \<Rightarrow> False)
           | _ \<Rightarrow> False))"

definition recomputeLegacyCommitment :: "jsval \<Rightarrow> (string \<times> string \<times> int) option" where
  "recomputeLegacyCommitment parsed =
     (if \<not> legacyArtifactCanonical parsed then None
      else (let u = strip_0x (js_lower (js_String (js_or (jget parsed ''universe_id'') (JStr []))));
                hashes = map (\<lambda>l. jget l ''payload_hash'') (case leaves_of parsed of Some ls \<Rightarrow> ls | None \<Rightarrow> [])
            in if u \<noteq> legacyUniverseId then None
               else map_option (\<lambda>r. (u, r, int (length hashes))) (legacyRootHex hashes)))"

text \<open>The last comparison of \<open>legacyFreezeMatches\<close>, on the parsed file and the log captured at startup.\<close>

definition freeze_matches :: "jsval \<Rightarrow> frozen_log \<Rightarrow> bool" where
  "freeze_matches parsed chain =
     (recomputeLegacyCommitment parsed = Some (fz_universe chain, fz_hash chain, fz_count chain))"

text \<open>\<open>None\<close> when the startup goes on, else what it refuses.\<close>

definition assertLegacyProofsMatchFrozen :: "jsval option \<Rightarrow> frozen_log \<Rightarrow> string option" where
  "assertLegacyProofsMatchFrozen file chain =
     (case file of
        None \<Rightarrow> Some ''legacy artifact is unreadable''
      | Some parsed \<Rightarrow>
          if \<not> legacyArtifactCanonical parsed then Some ''legacy artifact leaves are not in sorted canonical order''
          else if \<not> freeze_matches parsed chain then Some ''legacy artifact root does not match the Frozen log''
          else if list_all (\<lambda>leaf. case legacyProofFromArtifact parsed (jget leaf ''task_id'') of
                   None \<Rightarrow> False
                 | Some p \<Rightarrow> lp_index p = jget leaf ''index'' \<and>
                     verifyLegacyInclusion (jget leaf ''payload_hash'') (lp_proof p) (fz_hash chain))
                 (case leaves_of parsed of Some ls \<Rightarrow> ls | None \<Rightarrow> [])
          then None
          else Some ''legacy proof does not recompute to the Frozen root'')"

section \<open>Hashes as text\<close>

lemma strip_0x_hex: "is_hex s \<Longrightarrow> strip_0x s = s"
proof -
  assume h: "is_hex s"
  have "take 2 s \<noteq> ''0x''"
  proof
    assume "take 2 s = ''0x''"
    then have "CHR ''x'' \<in> set s" by (metis in_set_takeD list.set_intros(1,2))
    with h have "hex_digit CHR ''x'' \<noteq> None" by (auto simp: is_hex_def list_all_iff)
    then show False by (simp add: hex_digit_def)
  qed
  then show ?thesis by (simp add: strip_0x_def)
qed

lemma normalize_Some: "normalizePayloadHash v = Some h \<Longrightarrow> length h = 64 \<and> is_hex h"
  by (auto simp: normalizePayloadHash_def Let_def split: jsval.splits if_splits)

lemma payload_bytes: "payloadHashBytes v = Some b \<longleftrightarrow> normalizePayloadHash v = Some (to_hex b) \<and> length b = 32"
proof (cases "normalizePayloadHash v")
  case None
  then show ?thesis by (simp add: payloadHashBytes_def)
next
  case (Some h)
  note hex = normalize_Some [OF Some]
  then obtain c where c: "of_hex h = Some c" using of_hex_total [of h] by auto
  have "h = to_hex c" "length c = 32" using to_hex_of_hex [OF c] of_hex_length [OF c] hex by auto
  with Some c show ?thesis by (auto simp: payloadHashBytes_def to_hex_inject)
qed

lemma normalize_bytes: "normalizePayloadHash v = Some h \<Longrightarrow> \<exists>b. h = to_hex b \<and> payloadHashBytes v = Some b"
  using payload_bytes of_hex_total [of h] normalize_Some [of v h] to_hex_of_hex of_hex_length [of h]
  by (metis even_numeral mult_left_cancel num_double numeral_times_numeral zero_neq_numeral)

lemma leaf_defined: "legacyLeaf v = Some x \<longleftrightarrow> (\<exists>b. payloadHashBytes v = Some b \<and> x = legacy_leaf b)"
  by (auto simp: legacyLeaf_def)

section \<open>Levels and their inputs\<close>

text \<open>What is hashed above a level, and the nodes of a level and all above it.\<close>

function level_inputs :: "bytes list \<Rightarrow> bytes list" where
  "level_inputs level =
     (if 1 < length level
      then map (\<lambda>i. 1 # padded level ! (2 * i) @ padded level ! (2 * i + 1)) [0..<(length level + 1) div 2]
           @ level_inputs (paired (padded level))
      else [])"
  by pat_completeness auto
termination
  by (relation "measure length") auto

function level_nodes :: "bytes list \<Rightarrow> bytes list" where
  "level_nodes level = level @ (if 1 < length level then level_nodes (paired (padded level)) else [])"
  by pat_completeness auto
termination
  by (relation "measure length") auto

declare level_inputs.simps [simp del] level_nodes.simps [simp del]

abbreviation nodes32 :: "bytes list \<Rightarrow> bool" where
  "nodes32 level \<equiv> \<forall>x\<in>set level. length x = 32"

lemma padded_nonempty: "padded level = [] \<longleftrightarrow> level = []"
  by (auto simp: padded_def)

lemma set_padded [simp]: "set (padded level) = set level"
  by (cases "level = []") (auto simp: padded_def)

lemma padded_nth: "i < length level \<Longrightarrow> padded level ! i = level ! i"
  by (simp add: padded_def nth_append)

lemma paired_nth: "i < length xs div 2 \<Longrightarrow> paired xs ! i = legacyNode (xs ! (2 * i)) (xs ! (2 * i + 1))"
proof (induction xs arbitrary: i rule: paired.induct)
  case (1 a b xs)
  then show ?case by (cases i) auto
qed auto

lemma paired32: "nodes32 (paired xs)"
  by (induction xs rule: paired.induct) (auto simp: legacy_tree.node_length)

lemma top_32: "level \<noteq> [] \<Longrightarrow> nodes32 level \<Longrightarrow> length (level_top level) = 32"
proof (induction level rule: level_top.induct)
  case (1 level)
  show ?case
  proof (cases "1 < length level")
    case True
    then have "paired (padded level) \<noteq> []" by (auto simp flip: length_greater_0_conv)
    with 1 True paired32 show ?thesis by (simp add: level_top.simps [of level])
  next
    case False
    with 1 show ?thesis by (simp add: level_top.simps [of level])
  qed
qed

text \<open>The prover's path folds to the top.\<close>

lemma sibling_node:
  assumes "i < length level" "1 < length level"
  defines "sib \<equiv> (if even i then i + 1 else i - 1)"
  shows "sib < length (padded level)"
    "paired (padded level) ! (i div 2) =
       (if sib < i then legacyNode (padded level ! sib) (level ! i) else legacyNode (level ! i) (padded level ! sib))"
proof -
  let ?p = "padded level"
  have half: "i div 2 < length ?p div 2" using assms(1) by simp
  have len: "length ?p = 2 * ((length level + 1) div 2)" by (simp add: length_padded) presburger
  show "sib < length ?p" using assms(1) len unfolding sib_def by presburger
  show "paired ?p ! (i div 2) = (if sib < i then legacyNode (?p ! sib) (level ! i) else legacyNode (level ! i) (?p ! sib))"
  proof (cases "even i")
    case True
    then have "2 * (i div 2) = i" by simp
    with True paired_nth [OF half] padded_nth [OF assms(1)] show ?thesis by (simp add: sib_def)
  next
    case False
    then have "Suc (2 * (i div 2)) = i" "2 * (i div 2) = i - 1" "0 < i" by presburger+
    with False paired_nth [OF half] padded_nth [OF assms(1)] show ?thesis by (simp add: sib_def)
  qed
qed

lemma climb_folds: "nodes32 level \<Longrightarrow> i < length level \<Longrightarrow> fold_steps (level ! i) (climb level i) = Some (level_top level)"
proof (induction level i rule: climb.induct)
  case (1 level i)
  show ?case
  proof (cases "1 < length level")
    case True
    let ?sib = "if even i then i + 1 else i - 1"
    note node = sibling_node [OF 1(3) True]
    have "padded level ! ?sib \<in> set level" using node(1) nth_mem [of ?sib "padded level"] by simp
    then have l: "length (padded level ! ?sib) = 32" using 1(2) by blast
    have "i div 2 < length (paired (padded level))" using 1(3) by simp
    with 1(1) [OF True refl] paired32 have
      "fold_steps (paired (padded level) ! (i div 2)) (climb (paired (padded level)) (i div 2)) = Some (level_top level)"
      using True by (simp add: level_top.simps [of level])
    then show ?thesis using True l node(2)
      by (subst climb.simps; cases "even i"; cases i) (simp_all add: Let_def strip_0x_hex hex_simps buffer_to_hex)
  next
    case False
    with 1(3) have "i = 0" "length level = 1" by simp_all
    then obtain a where "level = [a]" by (cases level) auto
    with \<open>i = 0\<close> show ?thesis by (simp add: climb.simps level_top.simps)
  qed
qed

text \<open>Every node is a leaf or was hashed of two nodes.\<close>

lemma level_part: "x \<in> set level \<Longrightarrow> x \<in> set (level_nodes level)"
  by (simp add: level_nodes.simps [of level])

lemma paired_mem: "x \<in> set (paired (padded level)) \<Longrightarrow> 1 < length level \<Longrightarrow>
    \<exists>l r. x = legacyNode l r \<and> l \<in> set level \<and> r \<in> set level \<and> 1 # l @ r \<in> set (level_inputs level)"
proof -
  assume x: "x \<in> set (paired (padded level))" and n: "1 < length level"
  then obtain i where i: "i < (length level + 1) div 2" "x = paired (padded level) ! i" by (auto simp: in_set_conv_nth)
  let ?l = "padded level ! (2 * i)" and ?r = "padded level ! (2 * i + 1)"
  have "2 * i + 1 < length (padded level)" using i(1) by (simp add: length_padded) presburger
  then have "?l \<in> set (padded level)" "?r \<in> set (padded level)" by (simp_all only: nth_mem Suc_eq_plus1 [symmetric] Suc_lessD)
  moreover have "x = legacyNode ?l ?r" using i paired_nth [of i "padded level"] by simp
  moreover have "1 # ?l @ ?r \<in> set (level_inputs level)" using i(1) n by (subst level_inputs.simps) auto
  ultimately show ?thesis by auto
qed

lemma node_origin: "x \<in> set (level_nodes level) \<Longrightarrow> x \<in> set level \<or>
    (\<exists>l r. x = legacyNode l r \<and> l \<in> set (level_nodes level) \<and> r \<in> set (level_nodes level) \<and> 1 # l @ r \<in> set (level_inputs level))"
proof (induction level rule: level_nodes.induct)
  case (1 level)
  show ?case
  proof (cases "1 < length level \<and> x \<notin> set level")
    case True
    let ?up = "paired (padded level)"
    have up: "set (level_nodes ?up) \<subseteq> set (level_nodes level)" "set (level_inputs ?up) \<subseteq> set (level_inputs level)"
      using True by (auto simp: level_nodes.simps [of level] level_inputs.simps [of level])
    from True 1(2) have "x \<in> set (level_nodes ?up)" by (simp add: level_nodes.simps [of level])
    with 1(1) True consider "x \<in> set ?up" | l r where "x = legacyNode l r" "l \<in> set (level_nodes ?up)" "r \<in> set (level_nodes ?up)"
        "1 # l @ r \<in> set (level_inputs ?up)" by blast
    then show ?thesis
    proof cases
      case 1
      with paired_mem True level_part show ?thesis by metis
    next
      case 2
      with up show ?thesis by blast
    qed
  next
    case False
    with 1(2) show ?thesis by (auto simp: level_nodes.simps [of level] split: if_splits)
  qed
qed

lemma legacy_nodes_32: "nodes32 level \<Longrightarrow> nodes32 (level_nodes level)"
  using node_origin legacy_tree.node_length by metis

lemma top_is_node: "level \<noteq> [] \<Longrightarrow> level_top level \<in> set (level_nodes level)"
proof (induction level rule: level_top.induct)
  case (1 level)
  show ?case
  proof (cases "1 < length level")
    case True
    then have "paired (padded level) \<noteq> []" by (auto simp flip: length_greater_0_conv)
    with 1 True show ?thesis by (simp add: level_top.simps [of level] level_nodes.simps [of level])
  next
    case False
    with 1(2) show ?thesis by (simp add: level_top.simps [of level] level_nodes.simps [of level])
  qed
qed

section \<open>An accepted proof\<close>

fun step_inputs :: "bytes \<Rightarrow> proof_step list \<Rightarrow> bytes list" where
  "step_inputs h [] = []"
| "step_inputs h (s # ss) =
     (let sib = buffer_hex (strip_0x (ps_hash s))
      in if ps_position s = ''left'' then (1 # sib @ h) # step_inputs (legacyNode sib h) ss
         else (1 # h @ sib) # step_inputs (legacyNode h sib) ss)"

text \<open>The walk stays inside the tree, or it hashed what the tree hashed differently.\<close>

lemma child_is_node:
  assumes "legacyNode l r \<in> set (level_nodes level)" "level = map legacy_leaf ds" "length l = 32" "1 # l @ r \<in> set as"
  shows "(l \<in> set (level_nodes level) \<and> r \<in> set (level_nodes level)) \<or>
    collision_between as (map (\<lambda>d. 0 # d) ds @ level_inputs level)"
proof -
  let ?in = "map (\<lambda>d. 0 # d) ds @ level_inputs level"
  from node_origin [OF assms(1)] consider d where "legacyNode l r = legacy_leaf d" "d \<in> set ds"
    | l' r' where "legacyNode l r = legacyNode l' r'" "l' \<in> set (level_nodes level)" "r' \<in> set (level_nodes level)"
        "1 # l' @ r' \<in> set (level_inputs level)"
    using assms(2) by auto
  then show ?thesis
  proof cases
    case 1
    then have "sha256 (1 # l @ r) = sha256 (0 # d)" by (simp add: legacyNode_def legacy_leaf_def)
    from collision_betweenI [OF this assms(4), of ?in] 1 show ?thesis by auto
  next
    case 2
    have "nodes32 level" using assms(2) by (auto simp: legacy_tree.leaf_length)
    with 2(2) legacy_nodes_32 have "length l' = 32" by blast
    from legacy_tree.node_eqD [OF 2(1) assms(3) this assms(4), of ?in] 2 show ?thesis by auto
  qed
qed

lemma walk_inside: "fold_steps h ss = Some x \<Longrightarrow> x \<in> set (level_nodes level) \<Longrightarrow> level = map legacy_leaf ds \<Longrightarrow> length h = 32 \<Longrightarrow>
    h \<in> set (level_nodes level) \<or> collision_between (step_inputs h ss) (map (\<lambda>d. 0 # d) ds @ level_inputs level)"
proof (induction ss arbitrary: h)
  case (Cons s ss)
  let ?sib = "buffer_hex (strip_0x (ps_hash s))" and ?in = "map (\<lambda>d. 0 # d) ds @ level_inputs level"
  let ?l = "if ps_position s = ''left'' then ?sib else h" and ?r = "if ps_position s = ''left'' then h else ?sib"
  have step: "length ?sib = 32" "fold_steps (legacyNode ?l ?r) ss = Some x"
    using Cons.prems(1) by (auto simp: Let_def split: if_splits)
  have ins: "step_inputs h (s # ss) = (1 # ?l @ ?r) # step_inputs (legacyNode ?l ?r) ss" by (simp add: Let_def)
  from Cons.IH [OF step(2) Cons.prems(2,3)] legacy_tree.node_length
  consider "legacyNode ?l ?r \<in> set (level_nodes level)" | "collision_between (step_inputs (legacyNode ?l ?r) ss) ?in" by blast
  then show ?case
  proof cases
    case 1
    have l: "length ?l = 32" using step(1) Cons.prems(4) by simp
    have m: "1 # ?l @ ?r \<in> set (step_inputs h (s # ss))" by (simp only: ins list.set_intros)
    from child_is_node [OF 1 Cons.prems(3) l m] show ?thesis by (auto split: if_splits)
  next
    case 2
    have "collision_between (step_inputs h (s # ss)) ?in"
      by (rule collision_between_mono [OF 2]) (simp_all only: ins set_subset_Cons order_refl)
    then show ?thesis ..
  qed
qed simp

section \<open>The hashes of a set\<close>

definition hashed_bytes :: "jsval list \<Rightarrow> bytes list" where
  "hashed_bytes hashes = map (\<lambda>v. the (payloadHashBytes v)) hashes"

text \<open>What the root of a set was hashed of.\<close>

definition set_inputs :: "jsval list \<Rightarrow> bytes list" where
  "set_inputs hashes = [0] # map (\<lambda>d. 0 # d) (hashed_bytes hashes) @ level_inputs (map legacy_leaf (hashed_bytes hashes))"

lemma leaves_defined:
  "those (map legacyLeaf hashes) = Some ls \<longleftrightarrow> (\<forall>v\<in>set hashes. payloadHashBytes v \<noteq> None) \<and> ls = map legacy_leaf (hashed_bytes hashes)"
  by (induction hashes arbitrary: ls) (auto simp: legacyLeaf_def hashed_bytes_def split: option.splits)

lemma root_defined: "legacyRoot hashes = Some r \<longleftrightarrow> (\<forall>v\<in>set hashes. payloadHashBytes v \<noteq> None) \<and>
    r = (if hashes = [] then emptyLegacyRoot else level_top (map legacy_leaf (hashed_bytes hashes)))"
proof (cases "those (map legacyLeaf hashes)")
  case None
  then have "\<not> (\<forall>v\<in>set hashes. payloadHashBytes v \<noteq> None)"
    using leaves_defined [of hashes "map legacy_leaf (hashed_bytes hashes)"] by simp
  with None show ?thesis by (auto simp: legacyRoot_def)
next
  case (Some ls)
  with leaves_defined [of hashes ls] show ?thesis unfolding legacyRoot_def Some by (auto simp: hashed_bytes_def)
qed

lemma leaves_32: "nodes32 (map legacy_leaf ds)"
  by (simp add: legacy_tree.leaf_length)

lemma root_32: "legacyRoot hashes = Some r \<Longrightarrow> length r = 32"
  using top_32 [OF _ leaves_32, of "hashed_bytes hashes"] by (auto simp: root_defined emptyLegacyRoot_def hashed_bytes_def)

lemma lower_hex: "is_hex h \<Longrightarrow> js_lower h = h"
proof -
  assume h: "is_hex h"
  have "lower_char c = c" if "hex_digit c \<noteq> None" for c
    using that by (auto simp: hex_digit_def lower_char_def Let_def split: if_splits)
  with h show ?thesis by (auto simp: is_hex_def list_all_iff js_lower_def intro: map_idI)
qed

lemma root_text: "js_lower (strip_0x (''0x'' @ to_hex r)) = to_hex r"
  by (simp add: strip_0x_def lower_hex hex_simps)

text \<open>Two levels of one length with one top are one level, or their inputs collide.\<close>

lemma paired_binds:
  assumes "paired xs = paired ys" "length xs = length ys" "even (length xs)" "nodes32 xs" "nodes32 ys"
    and as: "\<And>i. i < length xs div 2 \<Longrightarrow> 1 # xs ! (2 * i) @ xs ! (2 * i + 1) \<in> set as"
    and bs: "\<And>i. i < length xs div 2 \<Longrightarrow> 1 # ys ! (2 * i) @ ys ! (2 * i + 1) \<in> set bs"
  shows "xs = ys \<or> collision_between as bs"
proof (rule disjCI)
  assume no: "\<not> collision_between as bs"
  have pair: "xs ! (2 * i) = ys ! (2 * i) \<and> xs ! (2 * i + 1) = ys ! (2 * i + 1)" if i: "i < length xs div 2" for i
  proof -
    have "legacyNode (xs ! (2 * i)) (xs ! (2 * i + 1)) = legacyNode (ys ! (2 * i)) (ys ! (2 * i + 1))"
      using paired_nth [of i xs] paired_nth [of i ys] assms(1,2) i by simp
    moreover have "length (xs ! (2 * i)) = 32" "length (ys ! (2 * i)) = 32" using i assms(2,4,5) by simp_all
    ultimately show ?thesis using legacy_tree.node_eqD [OF _ _ _ as [OF i] bs [OF i]] no by blast
  qed
  show "xs = ys"
  proof (rule nth_equalityI [OF assms(2)])
    fix k assume "k < length xs"
    then have i: "k div 2 < length xs div 2" using assms(3) by presburger
    show "xs ! k = ys ! k"
    proof (cases "even k")
      case True
      with pair [OF i] show ?thesis by simp
    next
      case False
      then have "2 * (k div 2) + 1 = k" by presburger
      with pair [OF i] show ?thesis by metis
    qed
  qed
qed

lemma padded_inject: "padded xs = padded ys \<Longrightarrow> length xs = length ys \<Longrightarrow> xs = ys"
  by (auto simp: padded_def split: if_splits)

lemma top_binds: "level_top xs = level_top ys \<Longrightarrow> length xs = length ys \<Longrightarrow> nodes32 xs \<Longrightarrow> nodes32 ys \<Longrightarrow>
    xs = ys \<or> collision_between (level_inputs xs) (level_inputs ys)"
proof (induction xs arbitrary: ys rule: level_top.induct)
  case (1 xs)
  show ?case
  proof (cases "1 < length xs")
    case True
    let ?px = "padded xs" and ?py = "padded ys"
    have top: "level_top (paired ?px) = level_top (paired ?py)"
      using 1(2,3) True by (simp add: level_top.simps [of xs] level_top.simps [of ys])
    have ins: "set (level_inputs (paired ?px)) \<subseteq> set (level_inputs xs)" "set (level_inputs (paired ?py)) \<subseteq> set (level_inputs ys)"
      using True 1(3) by (auto simp: level_inputs.simps [of xs] level_inputs.simps [of ys])
    from 1(1) [OF True top _ paired32 paired32] 1(3)
    consider "paired ?px = paired ?py" | "collision_between (level_inputs (paired ?px)) (level_inputs (paired ?py))" by auto
    then show ?thesis
    proof cases
      case 1: 1
      have len: "length ?px = length ?py" using "1.prems"(2) by (simp add: length_padded)
      have half: "length ?px div 2 = (length xs + 1) div 2" "length ys = length xs" using "1.prems"(2) by simp_all
      have ev: "even (length ?px)" by (simp add: length_padded)
      have "?px = ?py \<or> collision_between (level_inputs xs) (level_inputs ys)"
      proof (rule paired_binds [OF 1 len ev])
        show "nodes32 ?px" "nodes32 ?py" using "1.prems"(3,4) by simp_all
      next
        fix i assume i: "i < length ?px div 2"
        show "1 # ?px ! (2 * i) @ ?px ! (2 * i + 1) \<in> set (level_inputs xs)"
          using i half True by (subst level_inputs.simps) auto
        show "1 # ?py ! (2 * i) @ ?py ! (2 * i + 1) \<in> set (level_inputs ys)"
          using i half True by (subst level_inputs.simps) auto
      qed
      then show ?thesis using padded_inject "1.prems"(2) by blast
    next
      case 2
      from collision_between_mono [OF 2 ins] show ?thesis ..
    qed
  next
    case False
    then have "xs = [] \<and> ys = [] \<or> (\<exists>a b. xs = [a] \<and> ys = [b])" using 1(3) by (cases xs; cases ys) auto
    with 1(2) show ?thesis by (auto simp: level_top.simps)
  qed
qed

lemma bytes_32: "payloadHashBytes v = Some b \<Longrightarrow> length b = 32"
  by (simp add: payload_bytes)

lemma hashed_nth: "i < length hashes \<Longrightarrow> hashed_bytes hashes ! i = the (payloadHashBytes (hashes ! i))"
  by (simp add: hashed_bytes_def)

lemma length_hashed [simp]: "length (hashed_bytes hashes) = length hashes"
  by (simp add: hashed_bytes_def)

lemma verify_root:
  assumes "legacyRootHex hashes = Some t"
  shows "verifyLegacyInclusion v steps t \<longleftrightarrow>
    (\<exists>b r. payloadHashBytes v = Some b \<and> legacyRoot hashes = Some r \<and> fold_steps (legacy_leaf b) steps = Some r)"
proof -
  from assms obtain r where "legacyRoot hashes = Some r" "t = ''0x'' @ to_hex r" by (auto simp: legacyRootHex_def)
  then show ?thesis unfolding verifyLegacyInclusion_def root_text [of r, folded \<open>t = _\<close>]
    by (auto simp: legacyLeaf_def to_hex_inject split: option.splits)
qed

lemma leaf_in_tree:
  assumes "legacy_leaf b \<in> set (level_nodes (map legacy_leaf ds))" "0 # b \<in> set as"
  shows "b \<in> set ds \<or> collision_between as (map (\<lambda>d. 0 # d) ds @ level_inputs (map legacy_leaf ds))"
proof -
  let ?in = "map (\<lambda>d. 0 # d) ds @ level_inputs (map legacy_leaf ds)"
  from node_origin [OF assms(1)] consider d where "legacy_leaf b = legacy_leaf d" "d \<in> set ds"
    | l r where "legacy_leaf b = legacyNode l r" "1 # l @ r \<in> set (level_inputs (map legacy_leaf ds))" by auto
  then show ?thesis
  proof cases
    case 1
    from legacy_tree.leaf_eqD [OF 1(1) assms(2), of ?in] 1(2) show ?thesis by auto
  next
    case 2
    from legacy_tree.leaf_node_eqD [OF 2(1) assms(2), of ?in] 2(2) show ?thesis by auto
  qed
qed

lemma walk_digest: "fold_steps h ss = Some r \<Longrightarrow> r = h \<or> (\<exists>x\<in>set (step_inputs h ss). r = sha256 x \<and> 1 < length x)"
proof (induction ss arbitrary: h)
  case (Cons s ss)
  let ?sib = "buffer_hex (strip_0x (ps_hash s))"
  have l: "length ?sib = 32" using Cons.prems by (auto simp: Let_def split: if_splits)
  show ?case
  proof (cases "ps_position s = ''left''")
    case True
    with Cons.prems l have "fold_steps (legacyNode ?sib h) ss = Some r" by simp
    from Cons.IH [OF this] True l show ?thesis by (auto simp: Let_def legacyNode_def)
  next
    case False
    with Cons.prems l have "fold_steps (legacyNode h ?sib) ss = Some r" by (auto split: if_splits)
    from Cons.IH [OF this] False l show ?thesis by (auto simp: Let_def legacyNode_def)
  qed
qed simp

lemma proof_verifies:
  assumes "legacyRootHex hashes = Some root" "i < length hashes"
  shows "\<exists>steps. legacyInclusionProof hashes (Some (int i)) = Some steps \<and> verifyLegacyInclusion (hashes ! i) steps root"
proof -
  let ?ls = "map legacy_leaf (hashed_bytes hashes)"
  obtain r where r: "legacyRoot hashes = Some r" using assms(1) by (auto simp: legacyRootHex_def)
  then have d: "\<forall>v\<in>set hashes. payloadHashBytes v \<noteq> None" and top: "r = level_top ?ls"
    using assms(2) by (auto simp: root_defined split: if_splits)
  then obtain b where b: "payloadHashBytes (hashes ! i) = Some b" using assms(2) by fastforce
  have "fold_steps (?ls ! i) (climb ?ls i) = Some (level_top ?ls)"
    by (rule climb_folds [OF leaves_32]) (use assms(2) in simp)
  moreover have "?ls ! i = legacy_leaf b" using b assms(2) by (simp add: hashed_nth)
  ultimately have "verifyLegacyInclusion (hashes ! i) (climb ?ls i) root"
    unfolding verify_root [OF assms(1)] using b r top by auto
  moreover have "legacyInclusionProof hashes (Some (int i)) = Some (climb ?ls i)"
    using assms(2) leaves_defined [of hashes ?ls] d by (simp add: legacyInclusionProof_def)
  ultimately show ?thesis by blast
qed

text \<open>
  Every leaf of the frozen set has a proof, and the verifier accepts it: for a set whose
  hashes are 32 bytes the prover answers at each place of the list, and the answer folds the hash at
  that place to the root.
\<close>

theorem legacy_proof_verifies:
  assumes "legacyRootHex hashes = Some root" "i < length hashes"
  shows "\<exists>steps. legacyInclusionProof hashes (Some (int i)) = Some steps \<and> verifyLegacyInclusion (hashes ! i) steps root"
  by (rule proof_verifies [OF assms])

text \<open>
  A proof that the verifier accepts against the root of a set is about a hash of the set: the
  hash is one of them, whatever the proof is made of, or what the proof hashed and what the set hashed
  contain a collision of SHA-256.
\<close>

theorem legacy_inclusion_binds:
  assumes "legacyRootHex hashes = Some root" "verifyLegacyInclusion v steps root"
  shows "(\<exists>h\<in>set hashes. normalizePayloadHash h = normalizePayloadHash v) \<or>
    (\<exists>b. payloadHashBytes v = Some b \<and> collision_between ((0 # b) # step_inputs (legacy_leaf b) steps) (set_inputs hashes))"
proof -
  let ?ds = "hashed_bytes hashes" let ?ls = "map legacy_leaf ?ds"
  let ?in = "map (\<lambda>d. 0 # d) ?ds @ level_inputs ?ls"
  from assms obtain b r where v: "payloadHashBytes v = Some b" "legacyRoot hashes = Some r" "fold_steps (legacy_leaf b) steps = Some r"
    unfolding verify_root [OF assms(1)] by blast
  let ?as = "(0 # b) # step_inputs (legacy_leaf b) steps"
  have sub: "set ?in \<subseteq> set (set_inputs hashes)" by (auto simp: set_inputs_def)
  show ?thesis
  proof (cases "hashes = []")
    case True
    with v(2) have r: "r = sha256 [0]" by (simp add: root_defined emptyLegacyRoot_def)
    have "\<exists>x\<in>set ?as. r = sha256 x \<and> 1 < length x"
      using walk_digest [OF v(3)] bytes_32 [OF v(1)] by (auto simp: legacy_leaf_def)
    then obtain x where x: "x \<in> set ?as" "r = sha256 x" "1 < length x" by blast
    with r have "sha_collision x [0]" by (auto simp: sha_collision_def)
    with x(1) have "collision_between ?as (set_inputs hashes)" by (auto simp: collision_between_def set_inputs_def)
    with v(1) show ?thesis by blast
  next
    case False
    then have ne: "?ls \<noteq> []" and top: "r = level_top ?ls" using v(2) by (auto simp: root_defined hashed_bytes_def)
    from walk_inside [OF v(3) _ refl, of ?ds] top_is_node [OF ne] top legacy_tree.leaf_length
    consider "legacy_leaf b \<in> set (level_nodes ?ls)" | "collision_between (step_inputs (legacy_leaf b) steps) ?in" by blast
    then show ?thesis
    proof cases
      case 1
      from leaf_in_tree [OF 1, of "[0 # b]"] consider "b \<in> set ?ds" | "collision_between [0 # b] ?in" by auto
      then show ?thesis
      proof cases
        case 1
        then obtain h where "h \<in> set hashes" "the (payloadHashBytes h) = b" by (auto simp: hashed_bytes_def)
        then have "payloadHashBytes h = Some b" using v(2) by (auto simp: root_defined)
        with \<open>h \<in> set hashes\<close> v(1) show ?thesis by (auto simp: payload_bytes)
      next
        case 2
        from collision_between_mono [OF 2 _ sub, of ?as] v(1) show ?thesis by auto
      qed
    next
      case 2
      have "set (step_inputs (legacy_leaf b) steps) \<subseteq> set ?as" by (simp only: set_subset_Cons)
      from collision_between_mono [OF 2 this sub] v(1) show ?thesis by blast
    qed
  qed
qed

section \<open>The frozen set\<close>

lemma hashed_normal:
  assumes "\<forall>v\<in>set hashes. payloadHashBytes v \<noteq> None"
  shows "map normalizePayloadHash hashes = map (\<lambda>b. Some (to_hex b)) (hashed_bytes hashes)"
proof -
  have "normalizePayloadHash v = Some (to_hex (the (payloadHashBytes v)))" if "v \<in> set hashes" for v
    using assms that payload_bytes [of v "the (payloadHashBytes v)"] by auto
  then show ?thesis by (simp add: hashed_bytes_def)
qed

text \<open>
  Property C15. The log on the chain fixes the set: two files that both match one frozen log have the same
  payload hashes in the same order, or a collision of SHA-256 is among what was hashed for them. The
  count is needed for this; the root alone does not tell an odd set from the one with its last hash twice.
\<close>

theorem frozen_log_binds_set:
  assumes "freeze_matches a chain" "freeze_matches b chain"
    and "leaves_of a = Some as" "leaves_of b = Some bs"
  shows "map (\<lambda>l. normalizePayloadHash (jget l ''payload_hash'')) as = map (\<lambda>l. normalizePayloadHash (jget l ''payload_hash'')) bs \<or>
    collision_between (set_inputs (map (\<lambda>l. jget l ''payload_hash'') as)) (set_inputs (map (\<lambda>l. jget l ''payload_hash'') bs))"
proof -
  let ?ha = "map (\<lambda>l. jget l ''payload_hash'') as" and ?hb = "map (\<lambda>l. jget l ''payload_hash'') bs"
  have "legacyRootHex ?ha = Some (fz_hash chain)" "int (length ?ha) = fz_count chain"
    "legacyRootHex ?hb = Some (fz_hash chain)" "int (length ?hb) = fz_count chain"
    using assms by (auto simp: freeze_matches_def recomputeLegacyCommitment_def Let_def split: if_splits)
  then have len: "length as = length bs" and same: "legacyRootHex ?ha = legacyRootHex ?hb" "legacyRootHex ?ha \<noteq> None" by auto
  from same(2) obtain r where "legacyRoot ?ha = Some r" by (auto simp: legacyRootHex_def)
  with same(1) have r: "legacyRoot ?ha = Some r" "legacyRoot ?hb = Some r"
    by (cases "legacyRoot ?hb"; simp add: legacyRootHex_def to_hex_inject)+
  let ?da = "hashed_bytes ?ha" and ?db = "hashed_bytes ?hb"
  have da: "\<forall>v\<in>set ?ha. payloadHashBytes v \<noteq> None" and db: "\<forall>v\<in>set ?hb. payloadHashBytes v \<noteq> None"
    using r unfolding root_defined by blast+
  show ?thesis
  proof (cases "as = []")
    case True
    with len show ?thesis by simp
  next
    case False
    with len have "?ha \<noteq> []" "?hb \<noteq> []" by auto
    with r have "level_top (map legacy_leaf ?da) = level_top (map legacy_leaf ?db)" unfolding root_defined by simp
    from top_binds [OF this _ leaves_32 leaves_32] len
    consider "map legacy_leaf ?da = map legacy_leaf ?db"
      | "collision_between (level_inputs (map legacy_leaf ?da)) (level_inputs (map legacy_leaf ?db))" by auto
    then show ?thesis
    proof cases
      case 1
      have "?da = ?db \<or> collision_between (set_inputs ?ha) (set_inputs ?hb)"
      proof (rule disjCI, rule nth_equalityI)
        fix i assume no: "\<not> collision_between (set_inputs ?ha) (set_inputs ?hb)" and i: "i < length ?da"
        have mem: "0 # ?da ! i \<in> set (set_inputs ?ha)" "0 # ?db ! i \<in> set (set_inputs ?hb)"
          using i len by (auto simp: set_inputs_def)
        have "legacy_leaf (?da ! i) = legacy_leaf (?db ! i)"
          using arg_cong [OF 1, of "\<lambda>l. l ! i"] i len by simp
        from legacy_tree.leaf_eqD [OF this mem] no show "?da ! i = ?db ! i" by blast
      qed (use len in simp)
      then show ?thesis using hashed_normal [OF da] hashed_normal [OF db] by (auto simp: comp_def)
    next
      case 2
      have "collision_between (set_inputs ?ha) (set_inputs ?hb)"
        by (rule collision_between_mono [OF 2]) (auto simp: set_inputs_def)
      then show ?thesis ..
    qed
  qed
qed

text \<open>The root of an odd set is the root of the set with its last hash twice.\<close>

lemma root_hides_last_copy:
  assumes "odd (length hashes)" "1 < length hashes"
  shows "legacyRoot (hashes @ [last hashes]) = legacyRoot hashes"
proof (cases "\<forall>v\<in>set hashes. payloadHashBytes v \<noteq> None")
  case True
  let ?ls = "map legacy_leaf (hashed_bytes hashes)"
  from assms have ne: "hashes \<noteq> []" by auto
  then have "map legacy_leaf (hashed_bytes (hashes @ [last hashes])) = padded ?ls"
    using assms by (simp add: padded_def hashed_bytes_def last_map comp_def)
  moreover have "level_top (padded ?ls) = level_top ?ls"
  proof -
    have "even (length (padded ?ls))" "1 < length (padded ?ls)" using assms by (simp_all add: length_padded)
    then show ?thesis using assms(2) by (simp add: level_top.simps [of ?ls] level_top.simps [of "padded ?ls"] padded_def [of "padded ?ls"])
  qed
  ultimately have "legacyRoot hashes = Some (level_top ?ls)" "legacyRoot (hashes @ [last hashes]) = Some (level_top ?ls)"
    using True ne by (simp_all add: root_defined)
  then show ?thesis by simp
next
  case False
  then have "legacyRoot hashes = None" "legacyRoot (hashes @ [last hashes]) = None"
    using not_None_eq [of "legacyRoot hashes"] not_None_eq [of "legacyRoot (hashes @ [last hashes])"] unfolding root_defined by auto
  then show ?thesis by simp
qed

section \<open>The set that is built\<close>

lemma hex_normal: "is_hex h \<Longrightarrow> length h = 64 \<Longrightarrow> normalizePayloadHash (JStr h) = Some h"
proof -
  assume h: "is_hex h" "length h = 64"
  have "\<not> is_space c" if "hex_digit c \<noteq> None" for c
    using that by (auto simp: hex_digit_def is_space_def Let_def split: if_splits)
  then have "list_all (\<lambda>c. \<not> is_space c) h" using h(1) by (auto simp: is_hex_def list_all_iff)
  then show ?thesis using h by (simp add: normalizePayloadHash_def js_trim_id strip_0x_hex lower_hex)
qed

lemma stored_normal: "stored_hash sigv decoded = Some h \<Longrightarrow> is_hex h \<and> length h = 64"
  by (auto simp: stored_hash_def hex_simps dest: normalize_Some split: option.splits jsval.splits)

lemma classified_normal: "cl_class (classifyLegacyRow decode row) = Pre_v11 \<Longrightarrow>
    is_hex (cl_hash (classifyLegacyRow decode row)) \<and> length (cl_hash (classifyLegacyRow decode row)) = 64"
  by (auto simp: classifyLegacyRow_def Let_def dest: stored_normal split: option.splits if_splits)

definition kept_rows :: "(string \<Rightarrow> jsval option) \<Rightarrow> jsval list \<Rightarrow> classified list" where
  "kept_rows decode rows = filter (\<lambda>c. cl_class c = Pre_v11) (map (classifyLegacyRow decode) rows)"

lemma kept_normal: "c \<in> set (kept_rows decode rows) \<Longrightarrow> is_hex (cl_hash c) \<and> length (cl_hash c) = 64"
  using classified_normal by (auto simp: kept_rows_def)

lemma artifact_row_fields [simp]:
  "jget (artifact_row i c) ''index'' = JNum (JInt (int i))"
  "jget (artifact_row i c) ''payload_hash'' = JStr (cl_hash c)"
  "jget (artifact_row i c) ''task_id'' = (case cl_task c of Some t \<Rightarrow> JStr t | None \<Rightarrow> JNull)"
  by (simp_all add: artifact_row_def jget_def)

lemma rows_canonical: "sorted (map cl_hash cs) \<Longrightarrow> \<forall>c\<in>set cs. is_hex (cl_hash c) \<and> length (cl_hash c) = 64 \<Longrightarrow>
    (case previous of Some p \<Rightarrow> (\<forall>c\<in>set cs. p \<le> cl_hash c) | None \<Rightarrow> True) \<Longrightarrow>
    leaves_canonical i previous (map2 artifact_row [i..<i + length cs] cs)"
proof (induction cs arbitrary: i previous)
  case (Cons c cs)
  have "leaves_canonical (Suc i) (Some (cl_hash c)) (map2 artifact_row [Suc i..<Suc i + length cs] cs)"
    by (rule Cons.IH) (use Cons.prems in auto)
  moreover have "[i..<i + length (c # cs)] = i # [Suc i..<Suc i + length cs]"
    by (subst upt_conv_Cons) simp_all
  ultimately show ?case using Cons.prems
    by (auto simp: num_same_def num_int_def hex_normal split: option.splits)
qed simp

lemma those_defined: "those (map f xs) \<noteq> None \<longleftrightarrow> (\<forall>x\<in>set xs. f x \<noteq> None)"
  by (induction xs) (auto split: option.splits)

lemma texts_canonical: "list_all (\<lambda>(k, v). \<exists>s. v = CStr s) kvs \<Longrightarrow> jcsCanonicalize (CObj kvs) \<noteq> None"
proof -
  assume a: "list_all (\<lambda>(k, v). \<exists>s. v = CStr s) kvs"
  have "those (map (\<lambda>(k, v). case jcsString k of None \<Rightarrow> None | Some t \<Rightarrow> map_option (\<lambda>x. t @ 58 # x) (canonical jcsString v)) (members kvs)) \<noteq> None"
    unfolding those_defined using a members_subset [of kvs] by (fastforce simp: list_all_iff jcsString_def)
  then show ?thesis by (simp add: jcsCanonicalize_def)
qed

lemma universe_hex: "is_hex legacyUniverseId \<and> length legacyUniverseId = 64"
proof -
  have "jcsCanonicalize legacyUniverseBody \<noteq> None"
    unfolding legacyUniverseBody_def by (rule texts_canonical) (simp add: list_all_iff)
  then show ?thesis by (auto simp: legacyUniverseId_def jcs_sha256Hex_def hex_simps)
qed

lemma sort_by_key: "map f (sort_key f xs) = sort (map f xs)"
  by (rule properties_for_sort [symmetric]) simp_all

lemma built_fields:
  assumes "buildLegacyReceiptSet decode rows = Inr a"
  defines "cs \<equiv> sort_key cl_hash (kept_rows decode rows)"
  shows "jget a ''schema'' = JStr LEGACY_SET_SCHEMA" "jget a ''universe_id'' = JStr legacyUniverseId"
    "jget a ''enumerated_count'' = JNum (JInt (int (length cs)))"
    "leaves_of a = Some (map2 artifact_row [0..<length cs] cs)"
    "jget a ''root'' = (case legacyRootHex (map (JStr \<circ> cl_hash) cs) of Some r \<Rightarrow> JStr r | None \<Rightarrow> JUndef)"
  using assms(1) unfolding cs_def
  by (auto simp: buildLegacyReceiptSet_def enumerateLegacyReceipts_def Let_def jget_def leaves_of_def kept_rows_def split: if_splits)

lemma map2_rows: "map (\<lambda>l. jget l ''payload_hash'') (map2 artifact_row [0..<length cs] cs) = map (JStr \<circ> cl_hash) cs"
  by (rule nth_equalityI) simp_all

lemma built_commits:
  assumes "buildLegacyReceiptSet decode rows = Inr a"
  shows "legacyArtifactCanonical a \<and>
    (\<exists>root. recomputeLegacyCommitment a = Some (legacyUniverseId, root, int (length (kept_rows decode rows))) \<and>
       jget a ''root'' = JStr root \<and>
       legacyRootHex (map JStr (sort (map cl_hash (kept_rows decode rows)))) = Some root)"
proof -
  let ?cs = "sort_key cl_hash (kept_rows decode rows)"
  note f = built_fields [OF assms]
  have normal: "\<forall>c\<in>set ?cs. is_hex (cl_hash c) \<and> length (cl_hash c) = 64" using kept_normal by auto
  have canonical: "legacyArtifactCanonical a"
    using rows_canonical [OF _ normal, of None 0] f by (simp add: legacyArtifactCanonical_def num_int_def)
  have hashes: "map (JStr \<circ> cl_hash) ?cs = map JStr (sort (map cl_hash (kept_rows decode rows)))"
    using sort_by_key [of cl_hash "kept_rows decode rows"] by (metis list.map_comp)
  have "\<forall>v\<in>set (map (JStr \<circ> cl_hash) ?cs). payloadHashBytes v \<noteq> None"
    using normal normalize_bytes hex_normal by fastforce
  then obtain root where root: "legacyRootHex (map (JStr \<circ> cl_hash) ?cs) = Some root"
    using root_defined by (auto simp: legacyRootHex_def)
  have u: "strip_0x (js_lower (js_String (js_or (JStr legacyUniverseId) (JStr [])))) = legacyUniverseId"
    using universe_hex by (cases "legacyUniverseId = []") (simp_all add: js_or_def strip_0x_hex lower_hex)
  have hs: "map (\<lambda>l. jget l ''payload_hash'') (case leaves_of a of Some ls \<Rightarrow> ls | None \<Rightarrow> []) = map (JStr \<circ> cl_hash) ?cs"
    by (simp only: f option.case map2_rows)
  have "recomputeLegacyCommitment a = Some (legacyUniverseId, root, int (length (kept_rows decode rows)))"
    using canonical f(2) root u hs arg_cong [OF hs, of length] by (simp add: recomputeLegacyCommitment_def)
  with canonical f root hashes show ?thesis by simp
qed

text \<open>
  The set that is built is canonical and commits to what it should: its leaves are in
  order, recomputing it gives the root that is written in it and the count of its leaves, and its hashes are
  exactly the sorted stored hashes of the receipts before version 11 among the rows, in whatever
  order the rows came.
\<close>

theorem built_set_commits:
  assumes "buildLegacyReceiptSet decode rows = Inr a"
  shows "legacyArtifactCanonical a \<and>
    (\<exists>root. recomputeLegacyCommitment a = Some (legacyUniverseId, root, int (length (kept_rows decode rows))) \<and>
       jget a ''root'' = JStr root \<and>
       legacyRootHex (map JStr (sort (map cl_hash (kept_rows decode rows)))) = Some root)"
  by (rule built_commits [OF assms])

section \<open>The startup check\<close>

lemma canonical_leaf: "leaves_canonical i previous ls \<Longrightarrow> k < length ls \<Longrightarrow>
    (\<exists>n. jget (ls ! k) ''index'' = JNum n \<and> num_int n = Some (int (i + k))) \<and> normalizePayloadHash (jget (ls ! k) ''payload_hash'') \<noteq> None"
proof (induction ls arbitrary: i previous k)
  case (Cons l ls)
  then obtain n h where n: "jget l ''index'' = JNum n" "num_same n (JInt (int i))" "normalizePayloadHash (jget l ''payload_hash'') = Some h"
    and rest: "leaves_canonical (i + 1) (Some h) ls"
    by (auto split: jsval.splits if_splits option.splits)
  from n(2) have "num_int n = Some (int i)"
    by (auto simp: num_same_def num_int_def split: option.splits jsnum.splits)
  with n Cons.IH [OF rest] Cons.prems(2) show ?case by (cases k) auto
qed simp

definition first_of_task :: "jsval list \<Rightarrow> nat \<Rightarrow> bool" where
  "first_of_task ls i \<longleftrightarrow> (let names = set (task_aliases (js_String (js_or (jget (ls ! i) ''task_id'') (JStr []))))
     in js_String (jget (ls ! i) ''task_id'') \<in> names \<and> (\<forall>j<i. js_String (jget (ls ! j) ''task_id'') \<notin> names))"

lemma find_first: "i < length ls \<Longrightarrow> P (ls ! i) \<Longrightarrow> \<forall>j<i. \<not> P (ls ! j) \<Longrightarrow> find P ls = Some (ls ! i)"
  by (auto simp: find_Some_iff)

lemma startup_leaf:
  assumes "freeze_matches a chain" "leaves_of a = Some ls" "i < length ls"
  shows "(case legacyProofFromArtifact a (jget (ls ! i) ''task_id'') of
       None \<Rightarrow> False
     | Some p \<Rightarrow> lp_index p = jget (ls ! i) ''index'' \<and>
         verifyLegacyInclusion (jget (ls ! i) ''payload_hash'') (lp_proof p) (fz_hash chain)) \<longleftrightarrow> first_of_task ls i"
proof -
  let ?hs = "map (\<lambda>l. jget l ''payload_hash'') ls"
  let ?P = "\<lambda>l. js_String (jget l ''task_id'') \<in> set (task_aliases (js_String (js_or (jget (ls ! i) ''task_id'') (JStr []))))"
  have c: "legacyArtifactCanonical a" and root: "legacyRootHex ?hs = Some (fz_hash chain)"
    using assms(1,2) by (auto simp: freeze_matches_def recomputeLegacyCommitment_def Let_def split: if_splits)
  then have "leaves_canonical 0 None ls"
    using assms(2) by (auto simp: legacyArtifactCanonical_def split: jsval.splits)
  note leaf = canonical_leaf [OF this]
  note index = leaf [THEN conjunct1]
  show ?thesis
  proof (cases "find ?P ls")
    case None
    then have "\<not> ?P (ls ! i)" using assms(3) by (auto simp: find_None_iff)
    with None show ?thesis by (simp add: legacyProofFromArtifact_def c assms(2) first_of_task_def Let_def)
  next
    case (Some l)
    then obtain k where k: "k < length ls" "l = ls ! k" "?P (ls ! k)" "\<forall>j<k. \<not> ?P (ls ! j)" by (auto simp: find_Some_iff)
    obtain n where n: "jget (ls ! k) ''index'' = JNum n" "num_int n = Some (int k)" using index [OF k(1)] by auto
    then have at: "index_of_leaf l = Some (int k)" by (simp add: index_of_leaf_def k(2))
    obtain steps where steps: "legacyInclusionProof ?hs (Some (int k)) = Some steps" "verifyLegacyInclusion (?hs ! k) steps (fz_hash chain)"
      using proof_verifies [OF root, of k] k(1) by auto
    obtain h where h: "legacyLeaf (jget l ''payload_hash'') = Some h"
      using leaf [OF k(1)] normalize_bytes k(2) by (fastforce simp: leaf_defined)
    have "legacyProofFromArtifact a (jget (ls ! i) ''task_id'') = Some \<lparr>lp_task = jget l ''task_id'', lp_hash = jget l ''payload_hash'',
        lp_index = jget l ''index'', lp_count = jget a ''enumerated_count'', lp_root = fz_hash chain,
        lp_universe = jget a ''universe_id'', lp_leaf = to_hex h, lp_proof = steps\<rparr>"
      using c Some assms(2) at steps(1) root h by (simp add: legacyProofFromArtifact_def)
    moreover have "jget l ''index'' = jget (ls ! i) ''index'' \<longleftrightarrow> k = i"
      using index [OF assms(3)] n k(2) by auto
    moreover have "k = i \<longleftrightarrow> first_of_task ls i"
    proof
      assume "k = i"
      with k show "first_of_task ls i" by (auto simp: first_of_task_def Let_def)
    next
      assume "first_of_task ls i"
      then have "?P (ls ! i)" "\<forall>j<i. \<not> ?P (ls ! j)" by (auto simp: first_of_task_def Let_def)
      with k show "k = i" by (metis linorder_neqE_nat)
    qed
    ultimately show ?thesis using steps(2) k(1,2) by auto
  qed
qed

text \<open>
  Property C36. The startup check accepts exactly the sets it should serve: a set that matches the log
  on the chain passes if and only if every leaf is the first one that its own task id, or the
  alias of it, names; every proof that is then served folds to the frozen root.
\<close>

theorem frozen_startup_exact:
  assumes "freeze_matches a chain" "leaves_of a = Some ls"
  shows "assertLegacyProofsMatchFrozen (Some a) chain = None \<longleftrightarrow> (\<forall>i<length ls. first_of_task ls i)"
proof -
  have "legacyArtifactCanonical a" using assms(1) by (auto simp: freeze_matches_def recomputeLegacyCommitment_def split: if_splits)
  then show ?thesis using assms startup_leaf [OF assms]
    by (auto simp: assertLegacyProofsMatchFrozen_def list_all_length)
qed

text \<open>A set may hold rows that the startup check then refuses: one without a task id, or two of one task.\<close>

lemma unnamed_leaf_refused: "jget (ls ! i) ''task_id'' = JNull \<Longrightarrow> \<not> first_of_task ls i"
  by (simp add: first_of_task_def task_aliases_def js_or_def)

lemma second_leaf_refused: "j < i \<Longrightarrow> jget (ls ! i) ''task_id'' = JStr t \<Longrightarrow> jget (ls ! j) ''task_id'' = JStr t \<Longrightarrow> \<not> first_of_task ls i"
  by (auto simp: first_of_task_def task_aliases_def js_or_def Let_def)

section \<open>Examples\<close>

definition sample_hash :: "char \<Rightarrow> string" where
  "sample_hash c = replicate 64 c"

definition sample_hashes :: "jsval list" where
  "sample_hashes = map (JStr \<circ> sample_hash) ''abc''"

lemma sample_normal: "hex_digit c \<noteq> None \<Longrightarrow> is_hex (sample_hash c) \<and> length (sample_hash c) = 64"
  by (simp add: sample_hash_def is_hex_def list_all_iff)

lemma sample_root: "\<exists>root. legacyRootHex sample_hashes = Some root"
proof -
  have "payloadHashBytes (JStr (sample_hash c)) \<noteq> None" if "c \<in> set ''abc''" for c
  proof -
    have "hex_digit c \<noteq> None" using that by (auto simp: hex_digit_def)
    with sample_normal hex_normal normalize_bytes show ?thesis by blast
  qed
  then show ?thesis using root_defined [of sample_hashes] by (auto simp: legacyRootHex_def sample_hashes_def)
qed

theorem legacy_proof_verifies_witness:
  "\<exists>root steps. legacyRootHex sample_hashes = Some root \<and> legacyInclusionProof sample_hashes (Some 2) = Some steps \<and>
     verifyLegacyInclusion (sample_hashes ! 2) steps root"
  using sample_root legacy_proof_verifies [of sample_hashes _ 2] by (fastforce simp: sample_hashes_def)

theorem legacy_inclusion_binds_witness:
  "\<exists>root steps. legacyRootHex sample_hashes = Some root \<and> verifyLegacyInclusion (sample_hashes ! 1) steps root \<and>
     ((\<exists>h\<in>set sample_hashes. normalizePayloadHash h = normalizePayloadHash (sample_hashes ! 1)) \<or>
      (\<exists>b. payloadHashBytes (sample_hashes ! 1) = Some b \<and>
         collision_between ((0 # b) # step_inputs (legacy_leaf b) steps) (set_inputs sample_hashes)))"
proof -
  obtain root where r: "legacyRootHex sample_hashes = Some root" using sample_root ..
  obtain steps where "verifyLegacyInclusion (sample_hashes ! 1) steps root"
    using proof_verifies [OF r, of 1] by (auto simp: sample_hashes_def)
  with r legacy_inclusion_binds [OF r this] show ?thesis by blast
qed

definition sample_rows :: "string \<Rightarrow> jsval list" where
  "sample_rows t = [JObj [(''task_id'', JStr t), (''issuer_signature'', JObj [(''payload_hash'', JStr (sample_hash CHR ''a''))])], JNull]"

definition sample_set :: "string \<Rightarrow> jsval" where
  "sample_set t = (case buildLegacyReceiptSet (\<lambda>s. None) (sample_rows t) of Inr a \<Rightarrow> a | Inl ts \<Rightarrow> JNull)"

lemma sample_row_class: "t \<noteq> [] \<Longrightarrow> map (classifyLegacyRow (\<lambda>s. None)) (sample_rows t) =
    [\<lparr>cl_class = Pre_v11, cl_task = Some t, cl_hash = sample_hash CHR ''a'', cl_version = None\<rparr>,
     \<lparr>cl_class = Not_a_receipt, cl_task = None, cl_hash = [], cl_version = None\<rparr>]"
proof -
  have "hex_digit CHR ''a'' \<noteq> None" by (simp add: hex_digit_def)
  then have "normalizePayloadHash (JStr (sample_hash CHR ''a'')) = Some (sample_hash CHR ''a'')"
    using sample_normal hex_normal by blast
  moreover have "sample_hash CHR ''a'' \<noteq> []" by (simp add: sample_hash_def)
  ultimately show "t \<noteq> [] \<Longrightarrow> ?thesis"
    by (simp add: sample_rows_def classifyLegacyRow_def signatureOf_def is_objectv_def jget_def decodeJwsPayload_def
        is_v11_def version_of_def js_coalesce_def js_nullish_def stored_hash_def Let_def)
qed

lemma sample_built: "t \<noteq> [] \<Longrightarrow> buildLegacyReceiptSet (\<lambda>s. None) (sample_rows t) = Inr (sample_set t)"
  by (simp add: sample_set_def buildLegacyReceiptSet_def enumerateLegacyReceipts_def sample_row_class Let_def)

lemma sample_kept: "t \<noteq> [] \<Longrightarrow> kept_rows (\<lambda>s. None) (sample_rows t) =
    [\<lparr>cl_class = Pre_v11, cl_task = Some t, cl_hash = sample_hash CHR ''a'', cl_version = None\<rparr>]"
  by (simp add: kept_rows_def sample_row_class)

lemma sample_leaves: "t \<noteq> [] \<Longrightarrow> leaves_of (sample_set t) = Some [artifact_row 0
    \<lparr>cl_class = Pre_v11, cl_task = Some t, cl_hash = sample_hash CHR ''a'', cl_version = None\<rparr>]"
  using built_fields(4) [OF sample_built] by (simp add: sample_kept)

theorem built_set_commits_witness:
  "legacyArtifactCanonical (sample_set ''t'') \<and> (\<exists>root. recomputeLegacyCommitment (sample_set ''t'') = Some (legacyUniverseId, root, 1))"
  using built_set_commits [OF sample_built, of "''t''"] by (auto simp: sample_kept)

lemma sample_frozen: "\<exists>chain. freeze_matches (sample_set ''t'') chain \<and> freeze_matches (sample_set ''u'') chain"
proof -
  obtain r where r: "recomputeLegacyCommitment (sample_set ''t'') = Some (legacyUniverseId, r, 1)"
      "legacyRootHex (map JStr [sample_hash CHR ''a'']) = Some r"
    using built_commits [OF sample_built, of "''t''"] by (auto simp: sample_kept)
  then have "recomputeLegacyCommitment (sample_set ''u'') = Some (legacyUniverseId, r, 1)"
    using built_commits [OF sample_built, of "''u''"] by (auto simp: sample_kept)
  with r(1) show ?thesis
    by (intro exI [of _ "\<lparr>fz_hash = r, fz_count = 1, fz_universe = legacyUniverseId\<rparr>"]) (simp add: freeze_matches_def)
qed

theorem frozen_log_binds_set_witness:
  "\<exists>chain. freeze_matches (sample_set ''t'') chain \<and> freeze_matches (sample_set ''u'') chain \<and>
     (map (\<lambda>l. normalizePayloadHash (jget l ''payload_hash'')) (the (leaves_of (sample_set ''t''))) =
        map (\<lambda>l. normalizePayloadHash (jget l ''payload_hash'')) (the (leaves_of (sample_set ''u''))) \<or>
      collision_between (set_inputs [JStr (sample_hash CHR ''a'')]) (set_inputs [JStr (sample_hash CHR ''a'')]))"
proof -
  obtain chain where c: "freeze_matches (sample_set ''t'') chain" "freeze_matches (sample_set ''u'') chain" using sample_frozen by blast
  from frozen_log_binds_set [OF c sample_leaves sample_leaves] c show ?thesis by (auto simp: sample_leaves)
qed

theorem frozen_startup_exact_witness:
  "\<exists>chain. assertLegacyProofsMatchFrozen (Some (sample_set ''t'')) chain = None"
proof -
  obtain chain where c: "freeze_matches (sample_set ''t'') chain" using sample_frozen by blast
  have "assertLegacyProofsMatchFrozen (Some (sample_set ''t'')) chain = None"
    unfolding frozen_startup_exact [OF c sample_leaves, simplified]
    by (simp add: first_of_task_def task_aliases_def js_or_def Let_def)
  then show ?thesis ..
qed

end
