(* ===== verification/Cost_Plus.thy ===== *)
theory Cost_Plus
  imports Js_Values
begin

text \<open>
  services/gateway/src/pricing.js, the cost-plus price of a call, \<open>quoteFromCogs\<close>, and how a settled
  amount is broken down on a receipt, \<open>internalSettlementAccounting\<close>. Settings are the value that the caller's
  configuration has (\<open>JUndef\<close> when absent) and the environment variable of the same name; amounts are
  USDC base units. \<open>Math.round\<close> of a fraction is the argument \<open>rnd\<close>. \<open>None\<close> is the error that \<open>BigInt\<close> throws on
  an infinite floor.
\<close>

section \<open>Settings\<close>

definition DEFAULT_PLATFORM_FEE_BPS :: int where
  "DEFAULT_PLATFORM_FEE_BPS = 100"

definition DEFAULT_FLOOR_UNITS :: int where
  "DEFAULT_FLOOR_UNITS = 2000"

definition DEFAULT_TIER2_PROOF_UNITS :: int where
  "DEFAULT_TIER2_PROOF_UNITS = 100000"

record price_settings =
  ps_fee_bps :: jsval
  ps_fee_bps_env :: jsval
  ps_floor :: jsval
  ps_floor_env :: jsval
  ps_proof_units :: jsval
  ps_proof_units_env :: jsval
  ps_tier2 :: bool

definition unset :: "jsval \<Rightarrow> bool" where
  "unset v \<longleftrightarrow> js_nullish v \<or> js_trim (js_String v) = []"

text \<open>\<open>Math.trunc\<close> of a number that is not negative.\<close>

definition whole :: "jsnum \<Rightarrow> int" where
  "whole n = (case n of JInt i \<Rightarrow> i | JFrac f t \<Rightarrow> f | _ \<Rightarrow> 0)"

definition platformFeeBps :: "(jsnum \<Rightarrow> int) \<Rightarrow> price_settings \<Rightarrow> int" where
  "platformFeeBps rnd cfg =
     (let raw = js_coalesce (ps_fee_bps cfg) (ps_fee_bps_env cfg); n = js_Number raw
      in if unset raw then DEFAULT_PLATFORM_FEE_BPS
         else if \<not> num_finite n \<or> num_lt n (JInt 0) then DEFAULT_PLATFORM_FEE_BPS
         else case num_int n of Some i \<Rightarrow> i | None \<Rightarrow> rnd n)"

definition tier2ProofUnits :: "price_settings \<Rightarrow> int" where
  "tier2ProofUnits cfg =
     (let raw = js_coalesce (ps_proof_units cfg) (ps_proof_units_env cfg); n = js_Number raw
      in if unset raw then DEFAULT_TIER2_PROOF_UNITS
         else if \<not> num_finite n \<or> num_lt n (JInt 0) then DEFAULT_TIER2_PROOF_UNITS
         else whole n)"

text \<open>\<open>BigInt(Math.trunc(Math.max(0, Number(cfg ?? env ?? 2000) || 0)))\<close>.\<close>

definition floor_units :: "price_settings \<Rightarrow> int option" where
  "floor_units cfg =
     (let n = js_Number (js_coalesce (js_coalesce (ps_floor cfg) (ps_floor_env cfg)) (JNum (JInt DEFAULT_FLOOR_UNITS)))
      in if n = JInf True then None else if num_lt n (JInt 0) then Some 0 else Some (whole n))"

section \<open>Amounts\<close>

definition toBaseUnits :: "jsval \<Rightarrow> int" where
  "toBaseUnits v =
     (case v of
        JBig i \<Rightarrow> max i 0
      | _ \<Rightarrow> (let n = js_Number v in if \<not> num_finite n then 0 else max (whole n) 0))"

definition price_units :: "jsval \<Rightarrow> int" where
  "price_units v =
     (case v of
        JBig i \<Rightarrow> max i 0
      | _ \<Rightarrow>
          if js_nullish v \<or> v = JStr [] then 0
          else (let s = js_trim (js_String v) in if all_digits s then int (dec_value s) else toBaseUnits v))"

section \<open>The price\<close>

definition fee_of :: "int \<Rightarrow> int \<Rightarrow> int" where
  "fee_of cogs bps = (cogs * bps + 9999) div 10000"

definition quoteFromCogs :: "(jsnum \<Rightarrow> int) \<Rightarrow> jsval \<Rightarrow> price_settings \<Rightarrow> jsval option" where
  "quoteFromCogs rnd cogsBaseUnits cfg =
     (case floor_units cfg of
        None \<Rightarrow> None
      | Some floor \<Rightarrow>
          (let bps = platformFeeBps rnd cfg;
               cogs = toBaseUnits cogsBaseUnits;
               fee = fee_of cogs bps;
               metered = cogs + fee;
               inference = (if metered < floor then floor else metered);
               pf = (if ps_tier2 cfg then tier2ProofUnits cfg else 0)
           in Some (JObj [
                (''amount'', JStr (int_string (inference + pf))),
                (''basis'', JStr ''cost_plus''),
                (''fee_bps'', JNum (JInt bps)),
                (''provider_cogs'', JStr (int_string cogs)),
                (''platform_fee'', JStr (int_string fee)),
                (''tier2_proof'', JStr (int_string pf)),
                (''floor_applied'', JBool (metered < floor))])))"

section \<open>The breakdown on a receipt\<close>

definition quotedRouteMarginBps :: "(jsnum \<Rightarrow> int) \<Rightarrow> jsval \<Rightarrow> price_settings \<Rightarrow> int" where
  "quotedRouteMarginBps rnd pricing cfg =
     (let v = jget pricing ''fee_bps''; n = js_Number v
      in if \<not> js_nullish v \<and> v \<noteq> JStr [] \<and> num_finite n \<and> \<not> num_lt n (JInt 0)
         then (case num_int n of Some i \<Rightarrow> i | None \<Rightarrow> rnd n)
         else platformFeeBps rnd cfg)"

record breakdown =
  bd_bps :: int
  bd_margin :: int
  bd_floor :: int
  bd_cogs :: int
  bd_tier2 :: int

definition given :: "jsval \<Rightarrow> bool" where
  "given v \<longleftrightarrow> \<not> js_nullish v \<and> v \<noteq> JStr []"

definition internalSettlementAccounting ::
    "(jsnum \<Rightarrow> int) \<Rightarrow> jsval \<Rightarrow> jsval \<Rightarrow> jsval \<Rightarrow> price_settings \<Rightarrow> breakdown option" where
  "internalSettlementAccounting rnd settledAmount cogs pricing cfg =
     (case floor_units cfg of
        None \<Rightarrow> None
      | Some floorCfg \<Rightarrow>
          (let settled = price_units settledAmount;
               cogsUnits = price_units (js_coalesce (js_coalesce cogs (jget pricing ''provider_cogs'')) (JNum (JInt 0)));
               bps = quotedRouteMarginBps rnd pricing cfg;
               margin = (if given (jget pricing ''platform_fee'') then price_units (jget pricing ''platform_fee'') else fee_of cogsUnits bps);
               tier2 = (if given (jget pricing ''tier2_proof'') then price_units (jget pricing ''tier2_proof'') else 0);
               metered = cogsUnits + margin;
               applied = jget pricing ''floor_applied'';
               floorBound = (applied = JBool True \<or>
                 (js_nullish applied \<and> 0 < floorCfg \<and> metered < floorCfg \<and> (settled = floorCfg \<or> settled = floorCfg + tier2)));
               residual = settled - cogsUnits - margin - tier2
           in Some \<lparr>bd_bps = bps, bd_margin = margin,
                bd_floor = (if floorBound then (if 0 < residual then residual else 0) else 0),
                bd_cogs = cogsUnits, bd_tier2 = tier2\<rparr>))"

section \<open>Lemmas\<close>

lemma num_lt_whole: "num_finite n \<Longrightarrow> \<not> num_lt n (JInt 0) \<Longrightarrow> 0 \<le> whole n"
  by (cases n) (auto simp: num_finite_def whole_def num_int_def)

lemma floor_nonneg: "floor_units cfg = Some f \<Longrightarrow> 0 \<le> f"
proof -
  assume f: "floor_units cfg = Some f"
  have "0 \<le> whole n" if "\<not> num_lt n (JInt 0)" for n
    using that num_lt_whole [of n] by (cases "num_finite n") (auto simp: whole_def num_finite_def split: jsnum.splits)
  with f show "0 \<le> f" by (auto simp: floor_units_def Let_def split: if_splits)
qed

lemma proof_nonneg: "0 \<le> tier2ProofUnits cfg"
  using num_lt_whole by (auto simp: tier2ProofUnits_def Let_def DEFAULT_TIER2_PROOF_UNITS_def)

lemma bps_nonneg: "(\<And>n. \<not> num_lt n (JInt 0) \<Longrightarrow> 0 \<le> rnd n) \<Longrightarrow> 0 \<le> platformFeeBps rnd cfg"
  by (auto simp: platformFeeBps_def Let_def DEFAULT_PLATFORM_FEE_BPS_def num_int_def split: option.splits jsnum.splits)

lemma cogs_nonneg: "0 \<le> toBaseUnits v"
  by (auto simp: toBaseUnits_def Let_def split: jsval.splits)

lemma fee_bounds: "cogs * bps \<le> 10000 * fee_of cogs bps" "10000 * fee_of cogs bps < cogs * bps + 10000"
  by (simp_all add: fee_of_def)

lemma fee_nonneg: "0 \<le> cogs \<Longrightarrow> 0 \<le> bps \<Longrightarrow> 0 \<le> fee_of cogs bps"
  by (simp add: fee_of_def pos_imp_zdiv_nonneg_iff)

lemma price_of_text: "0 \<le> i \<Longrightarrow> price_units (JStr (int_string i)) = i"
proof -
  assume i: "0 \<le> i"
  then have t: "int_string i = dec_string (nat i)" by (simp add: int_string_def)
  have "dec_string (nat i) \<noteq> []" using all_digits_dec_string [of "nat i"] by (auto simp: all_digits_def)
  with i t show ?thesis by (simp add: price_units_def js_nullish_def js_trim_digits)
qed

lemma text_given: "given (JStr (int_string i))"
proof -
  have "int_string i \<noteq> []"
    using all_digits_dec_string [of "nat i"] by (auto simp: int_string_def all_digits_def)
  then show ?thesis by (simp add: given_def js_nullish_def)
qed

lemma quote_cases:
  assumes "quoteFromCogs rnd c cfg = Some q"
  obtains fl where "floor_units cfg = Some fl"
    and "q = (let cogs = toBaseUnits c; fee = fee_of cogs (platformFeeBps rnd cfg);
               pf = (if ps_tier2 cfg then tier2ProofUnits cfg else 0)
           in JObj [(''amount'', JStr (int_string (max fl (cogs + fee) + pf))), (''basis'', JStr ''cost_plus''),
                (''fee_bps'', JNum (JInt (platformFeeBps rnd cfg))), (''provider_cogs'', JStr (int_string cogs)),
                (''platform_fee'', JStr (int_string fee)), (''tier2_proof'', JStr (int_string pf)),
                (''floor_applied'', JBool (cogs + fee < fl))])"
  using assms by (auto simp: quoteFromCogs_def Let_def max_def split: option.splits if_splits)

text \<open>
  The price covers the cost: it is the larger of the floor and of the measured cost with
  the fee, plus the proof that was asked for; the fee is the stated percentage of the cost rounded up, never
  more than one unit above it; and the amounts of the quote are written as decimal text.
\<close>

theorem quote_covers_cost:
  assumes "quoteFromCogs rnd c cfg = Some q" "\<And>n. \<not> num_lt n (JInt 0) \<Longrightarrow> 0 \<le> rnd n"
  shows "\<exists>floor_bound fee pf bps. floor_units cfg = Some floor_bound \<and> bps = platformFeeBps rnd cfg \<and>
    jget q ''amount'' = JStr (dec_string (nat (max floor_bound (toBaseUnits c + fee) + pf))) \<and>
    jget q ''provider_cogs'' = JStr (dec_string (nat (toBaseUnits c))) \<and>
    jget q ''platform_fee'' = JStr (dec_string (nat fee)) \<and>
    0 \<le> fee \<and> toBaseUnits c * bps \<le> 10000 * fee \<and> 10000 * fee < toBaseUnits c * bps + 10000 \<and>
    pf = (if ps_tier2 cfg then tier2ProofUnits cfg else 0) \<and> 0 \<le> pf"
proof -
  let ?fee = "fee_of (toBaseUnits c) (platformFeeBps rnd cfg)" and ?pf = "if ps_tier2 cfg then tier2ProofUnits cfg else 0"
  obtain fl where fl: "floor_units cfg = Some fl" and q: "jget q ''amount'' = JStr (int_string (max fl (toBaseUnits c + ?fee) + ?pf))"
      "jget q ''provider_cogs'' = JStr (int_string (toBaseUnits c))" "jget q ''platform_fee'' = JStr (int_string ?fee)"
    using assms(1) by (rule quote_cases) (simp add: jget_def Let_def)
  have bn: "0 \<le> platformFeeBps rnd cfg" by (rule bps_nonneg) (rule assms(2))
  have nn: "0 \<le> ?fee" "0 \<le> toBaseUnits c" "0 \<le> ?pf" "0 \<le> fl"
    using fee_nonneg [OF cogs_nonneg bn] cogs_nonneg proof_nonneg floor_nonneg [OF fl] by auto
  then have texts: "int_string (max fl (toBaseUnits c + ?fee) + ?pf) = dec_string (nat (max fl (toBaseUnits c + ?fee) + ?pf))"
    "int_string (toBaseUnits c) = dec_string (nat (toBaseUnits c))" "int_string ?fee = dec_string (nat ?fee)"
    by (simp_all add: int_string_def)
  show ?thesis
    by (intro exI [of _ fl] exI [of _ ?fee] exI [of _ ?pf] exI [of _ "platformFeeBps rnd cfg"] conjI)
      (use fl q texts nn fee_bounds in \<open>simp_all only:\<close>)
qed

text \<open>
  A receipt itemises the whole bill: the cost, the margin, the floor residual and the proof that
  are published for a call settled at its quoted amount add up to that amount exactly, for every cost and
  all settings.
\<close>

theorem breakdown_sums_to_quote:
  assumes "quoteFromCogs rnd c cfg = Some q" "\<And>n. \<not> num_lt n (JInt 0) \<Longrightarrow> 0 \<le> rnd n"
    and "internalSettlementAccounting rnd (jget q ''amount'') JUndef q cfg = Some b"
  shows "bd_cogs b + bd_margin b + bd_floor b + bd_tier2 b = price_units (jget q ''amount'') \<and> 0 \<le> bd_floor b \<and>
    bd_cogs b = toBaseUnits c \<and> bd_bps b = platformFeeBps rnd cfg"
proof -
  let ?fee = "fee_of (toBaseUnits c) (platformFeeBps rnd cfg)" and ?pf = "if ps_tier2 cfg then tier2ProofUnits cfg else 0"
  obtain fl where fl: "floor_units cfg = Some fl" and q: "jget q ''amount'' = JStr (int_string (max fl (toBaseUnits c + ?fee) + ?pf))"
      "jget q ''provider_cogs'' = JStr (int_string (toBaseUnits c))" "jget q ''platform_fee'' = JStr (int_string ?fee)"
      "jget q ''tier2_proof'' = JStr (int_string ?pf)" "jget q ''floor_applied'' = JBool (toBaseUnits c + ?fee < fl)"
      "jget q ''fee_bps'' = JNum (JInt (platformFeeBps rnd cfg))"
    using assms(1) by (rule quote_cases) (simp add: jget_def Let_def)
  have bn: "0 \<le> platformFeeBps rnd cfg" by (rule bps_nonneg) (rule assms(2))
  have nn: "0 \<le> ?fee" "0 \<le> toBaseUnits c" "0 \<le> ?pf" "0 \<le> fl"
    using fee_nonneg [OF cogs_nonneg bn] cogs_nonneg proof_nonneg floor_nonneg [OF fl] by auto
  then have am: "price_units (JStr (int_string (max fl (toBaseUnits c + ?fee) + ?pf))) = max fl (toBaseUnits c + ?fee) + ?pf"
    by (intro price_of_text) auto
  have "quotedRouteMarginBps rnd q cfg = platformFeeBps rnd cfg"
    using bn by (simp add: quotedRouteMarginBps_def q js_nullish_def num_finite_def num_int_def)
  then have b: "b = \<lparr>bd_bps = platformFeeBps rnd cfg, bd_margin = ?fee,
      bd_floor = (if toBaseUnits c + ?fee < fl then fl - toBaseUnits c - ?fee else 0), bd_cogs = toBaseUnits c, bd_tier2 = ?pf\<rparr>"
    using assms(3) unfolding internalSettlementAccounting_def fl option.case q am Let_def
    by (auto simp: text_given price_of_text nn proof_nonneg js_coalesce_def js_nullish_def max_def split: if_splits)
  show ?thesis unfolding q am by (simp add: b max_def)
qed

section \<open>Examples\<close>

definition sample_settings :: price_settings where
  "sample_settings = \<lparr>ps_fee_bps = JUndef, ps_fee_bps_env = JStr ''150'', ps_floor = JUndef, ps_floor_env = JUndef,
     ps_proof_units = JUndef, ps_proof_units_env = JUndef, ps_tier2 = True\<rparr>"

lemma whole_nonneg: "\<not> num_lt n (JInt 0) \<Longrightarrow> 0 \<le> whole n"
  using num_lt_whole [of n] by (cases "num_finite n") (auto simp: whole_def num_finite_def split: jsnum.splits)

lemma sample_floor: "floor_units sample_settings = Some 2000"
  by (simp add: floor_units_def sample_settings_def js_coalesce_def js_nullish_def whole_def DEFAULT_FLOOR_UNITS_def num_int_def)

lemma sample_quote: "\<exists>q. quoteFromCogs whole (JBig 701) sample_settings = Some q"
  by (simp add: quoteFromCogs_def sample_floor Let_def)

theorem quote_covers_cost_witness:
  "\<exists>q fee. quoteFromCogs whole (JBig 701) sample_settings = Some q \<and> jget q ''platform_fee'' = JStr (dec_string (nat fee)) \<and>
     701 * platformFeeBps whole sample_settings \<le> 10000 * fee"
proof -
  obtain q where q: "quoteFromCogs whole (JBig 701) sample_settings = Some q" using sample_quote ..
  from quote_covers_cost [OF q whole_nonneg] show ?thesis using q by (auto simp: toBaseUnits_def)
qed

theorem breakdown_sums_to_quote_witness:
  "\<exists>q b. quoteFromCogs whole (JBig 701) sample_settings = Some q \<and>
     internalSettlementAccounting whole (jget q ''amount'') JUndef q sample_settings = Some b \<and>
     bd_cogs b = 701 \<and> bd_cogs b + bd_margin b + bd_floor b + bd_tier2 b = price_units (jget q ''amount'')"
proof -
  obtain q where q: "quoteFromCogs whole (JBig 701) sample_settings = Some q" using sample_quote ..
  have "\<exists>b. internalSettlementAccounting whole (jget q ''amount'') JUndef q sample_settings = Some b"
    unfolding internalSettlementAccounting_def sample_floor option.case Let_def by (rule exI, rule refl)
  then obtain b where b: "internalSettlementAccounting whole (jget q ''amount'') JUndef q sample_settings = Some b" ..
  from breakdown_sums_to_quote [OF q whole_nonneg b] q b show ?thesis by (auto simp: toBaseUnits_def)
qed

end
