(* ===== verification/Rolling_Ledger.thy ===== *)
theory Rolling_Ledger
  imports Js_Store Cost_Plus
begin

text \<open>
  services/gateway/src/rolling-settlement.js: a call is served first and its measured price is a debt that
  the payer's next request pays; one file per payer keeps the debts across restarts. With it the amounts and
  routes of paid-route.js, and the branch of the task request in server.js that pays a debt. An absent or
  null text is \<open>[]\<close>. Amounts of a debt are natural numbers, which the source keeps as decimal text; \<open>pc_quote\<close> is the rest of the quote that is kept
  with it. A flag says of each
  read and of each write of a payer's file whether it succeeded; a file that is not there is not a failed
  read. \<open>url_path\<close> is the path that \<open>new URL\<close> reads, \<open>None\<close> when it throws. A call that throws answers \<open>Threw\<close>.
\<close>

section \<open>Amounts and routes\<close>

definition paid_units :: "jsval \<Rightarrow> nat option" where
  "paid_units v =
     (case v of
        JBig i \<Rightarrow> if 0 \<le> i then Some (nat i) else None
      | JNum x \<Rightarrow> if \<not> is_safe_integer x then None
                  else (case num_int x of Some i \<Rightarrow> if i < 0 then None else Some (nat i) | None \<Rightarrow> None)
      | _ \<Rightarrow> (let s = js_trim (js_String (js_coalesce v (JStr []))) in if all_digits s then Some (dec_value s) else None))"

definition sameQuotedPrice :: "jsval \<Rightarrow> jsval \<Rightarrow> bool" where
  "sameQuotedPrice quoted routePrice =
     (case (paid_units quoted, paid_units routePrice) of (Some a, Some b) \<Rightarrow> a = b | _ \<Rightarrow> False)"

definition chainCoversPrice :: "jsval \<Rightarrow> jsval \<Rightarrow> bool" where
  "chainCoversPrice chainAmount quotedPrice =
     (case (paid_units chainAmount, paid_units quotedPrice) of (Some a, Some b) \<Rightarrow> b \<le> a | _ \<Rightarrow> False)"

fun has_scheme :: "string \<Rightarrow> bool" where
  "has_scheme [] = False"
| "has_scheme (c # s) = (take 3 (c # s) = ''://'' \<or> has_scheme s)"

definition canonicalPaidRoute :: "(string \<Rightarrow> string option) \<Rightarrow> string \<Rightarrow> string" where
  "canonicalPaidRoute url_path value =
     (let s = js_trim value
      in if s = [] then []
         else (let p = (if has_scheme s then (case url_path s of Some t \<Rightarrow> (if t = [] then ''/'' else t) | None \<Rightarrow> s) else s);
                   q = (if take 1 p = ''/'' then p else CHR ''/'' # p)
               in if 1 < length q then rev (dropWhile (\<lambda>c. c = CHR ''/'') (rev q)) else q))"

section \<open>The ledger\<close>

record charge =
  pc_amount :: nat
  pc_task :: string
  pc_model :: string
  pc_prompt :: int
  pc_completion :: int
  pc_quote :: jsval
  pc_route :: string
  pc_at :: int
  pc_attempts :: nat

record payer_rec =
  py_pending :: "charge option"
  py_settled :: nat
  py_forgiven :: nat

record rolling =
  rg_ledger :: "(string, payer_rec) jsmap"
  rg_disk :: "(string, payer_rec) jsmap"
  rg_persist :: bool

definition MAX_PAYERS :: nat where
  "MAX_PAYERS = 10000"

definition fresh_payer :: payer_rec where
  "fresh_payer = \<lparr>py_pending = None, py_settled = 0, py_forgiven = 0\<rparr>"

datatype 'a reply = Threw | Replied 'a

definition set_payer :: "string \<Rightarrow> payer_rec \<Rightarrow> rolling \<Rightarrow> rolling" where
  "set_payer i r s = s\<lparr>rg_ledger := jm_set i r (rg_ledger s)\<rparr>"

text \<open>The write goes to a temporary file that then replaces the payer's file, so it is done as a whole or not.\<close>

definition persistPayer :: "bool \<Rightarrow> string \<Rightarrow> payer_rec \<Rightarrow> rolling \<Rightarrow> rolling \<times> bool" where
  "persistPayer wr i r s =
     (if \<not> rg_persist s then (s, True)
      else if wr then (s\<lparr>rg_disk := jm_set i r (rg_disk s)\<rparr>, True)
      else (s, False))"

definition loadPayer :: "bool \<Rightarrow> string \<Rightarrow> rolling \<Rightarrow> payer_rec option" where
  "loadPayer rd i s = (if rg_persist s \<and> rd then jm_get (rg_disk s) i else None)"

definition prune :: "rolling \<Rightarrow> rolling" where
  "prune s =
     (let left = filter (\<lambda>(i, r). py_pending r \<noteq> None) (rg_ledger s)
      in s\<lparr>rg_ledger := (if MAX_PAYERS \<le> length left then [] else left)\<rparr>)"

definition readPayer :: "bool \<Rightarrow> string \<Rightarrow> rolling \<Rightarrow> rolling \<times> payer_rec" where
  "readPayer rd i s =
     (case jm_get (rg_ledger s) i of
        Some r \<Rightarrow> (s, r)
      | None \<Rightarrow>
          (case loadPayer rd i s of
             Some r \<Rightarrow> (set_payer i r s, r)
           | None \<Rightarrow>
               (let s' = (if MAX_PAYERS \<le> length (rg_ledger s) then prune s else s)
                in (set_payer i fresh_payer s', fresh_payer))))"

definition getPending :: "bool \<Rightarrow> string \<Rightarrow> rolling \<Rightarrow> rolling \<times> charge option" where
  "getPending rd i s =
     (case jm_get (rg_ledger s) i of
        Some r \<Rightarrow> (s, py_pending r)
      | None \<Rightarrow>
          (case loadPayer rd i s of
             Some r \<Rightarrow> (set_payer i r s, py_pending r)
           | None \<Rightarrow> (s, None)))"

text \<open>The entry of a served call; the larger of two debts stays.\<close>

definition new_charge :: "nat \<Rightarrow> string \<Rightarrow> string \<Rightarrow> int \<Rightarrow> int \<Rightarrow> jsval \<Rightarrow> int \<Rightarrow> charge" where
  "new_charge amount task model prompt completion quote now =
     \<lparr>pc_amount = amount, pc_task = task, pc_model = model, pc_prompt = prompt, pc_completion = completion,
      pc_quote = quote, pc_route = ''/task-request'', pc_at = now, pc_attempts = 0\<rparr>"

definition recordPending :: "bool \<Rightarrow> bool \<Rightarrow> string \<Rightarrow> charge \<Rightarrow> rolling \<Rightarrow> rolling \<times> charge reply" where
  "recordPending rd wr i c s =
     (case readPayer rd i s of
        (s1, r) \<Rightarrow>
          (case py_pending r of
             Some old \<Rightarrow>
               if pc_amount c \<le> pc_amount old then (s1, Replied old)
               else (case persistPayer wr i (r\<lparr>py_pending := Some c\<rparr>) s1 of
                   (s2, True) \<Rightarrow> (set_payer i (r\<lparr>py_pending := Some c\<rparr>) s2, Replied c)
                 | (s2, False) \<Rightarrow> (s2, Threw))
           | None \<Rightarrow>
               (case persistPayer wr i (r\<lparr>py_pending := Some c\<rparr>) s1 of
                  (s2, True) \<Rightarrow> (set_payer i (r\<lparr>py_pending := Some c\<rparr>) s2, Replied c)
                | (s2, False) \<Rightarrow> (s2, Threw))))"

definition known_payer :: "bool \<Rightarrow> string \<Rightarrow> rolling \<Rightarrow> payer_rec option" where
  "known_payer rd i s = (case jm_get (rg_ledger s) i of Some r \<Rightarrow> Some r | None \<Rightarrow> loadPayer rd i s)"

definition markSettled :: "bool \<Rightarrow> bool \<Rightarrow> string \<Rightarrow> rolling \<Rightarrow> rolling \<times> charge option reply" where
  "markSettled rd wr i s =
     (case known_payer rd i s of
        None \<Rightarrow> (s, Replied None)
      | Some r \<Rightarrow>
          (let r' = r\<lparr>py_pending := None, py_settled := py_settled r + 1\<rparr>
           in case persistPayer wr i r' (set_payer i r s) of
                (s2, True) \<Rightarrow> (set_payer i r' s2, Replied (py_pending r))
              | (s2, False) \<Rightarrow> (s2, Threw)))"

definition markSettleFailed :: "bool \<Rightarrow> bool \<Rightarrow> string \<Rightarrow> rolling \<Rightarrow> rolling \<times> charge option reply" where
  "markSettleFailed rd wr i s =
     (case known_payer rd i s of
        None \<Rightarrow> (s, Replied None)
      | Some r \<Rightarrow>
          (case py_pending r of
             None \<Rightarrow> (s, Replied None)
           | Some c \<Rightarrow>
               (let c' = c\<lparr>pc_attempts := pc_attempts c + 1\<rparr>; r' = r\<lparr>py_pending := Some c'\<rparr>
                in case persistPayer wr i r' (set_payer i r s) of
                     (s2, True) \<Rightarrow> (set_payer i r' s2, Replied (Some c'))
                   | (s2, False) \<Rightarrow> (s2, Threw))))"

text \<open>\<open>rollingStatus\<close> loads the files that it can read; what it reports is a sum over the ledger.\<close>

definition load_files :: "(string \<Rightarrow> bool) \<Rightarrow> rolling \<Rightarrow> rolling" where
  "load_files rd s =
     (if rg_persist s
      then foldl (\<lambda>s (i, r). if rd i \<and> \<not> jm_has (rg_ledger s) i then set_payer i r s else s) s (rg_disk s)
      else s)"

definition unsettled_units :: "rolling \<Rightarrow> nat" where
  "unsettled_units s = jm_sum (\<lambda>r. case py_pending r of Some c \<Rightarrow> pc_amount c | None \<Rightarrow> 0) (rg_ledger s)"

definition rollingStatus :: "(string \<Rightarrow> bool) \<Rightarrow> rolling \<Rightarrow> rolling \<times> nat \<times> nat \<times> nat" where
  "rollingStatus rd s =
     (let s' = load_files rd s
      in (s', unsettled_units s', length (filter (\<lambda>(i, r). py_pending r \<noteq> None) (rg_ledger s')), jm_sum py_settled (rg_ledger s')))"

text \<open>A restart keeps the files only; \<open>resetRollingSettlement\<close> with \<open>wipePersist: false\<close> does the same.\<close>

definition restart :: "rolling \<Rightarrow> rolling" where
  "restart s = s\<lparr>rg_ledger := []\<rparr>"

definition resetRollingSettlement :: "bool \<Rightarrow> rolling \<Rightarrow> rolling" where
  "resetRollingSettlement wipePersist s = (restart s)\<lparr>rg_disk := (if wipePersist \<and> rg_persist s then [] else rg_disk s)\<rparr>"

section \<open>Decisions\<close>

datatype rolling_action = Serve_free | Prepay | Settle_first nat | Settle_then_serve nat

definition decideRolling :: "charge option \<Rightarrow> bool \<Rightarrow> int \<Rightarrow> int \<Rightarrow> rolling_action" where
  "decideRolling pending hasPayment ceiling maxUnsettled =
     (case pending of
        Some c \<Rightarrow> if hasPayment then Settle_then_serve (pc_amount c) else Settle_first (pc_amount c)
      | None \<Rightarrow>
          if hasPayment then Settle_then_serve 0
          else if 0 < maxUnsettled \<and> maxUnsettled < ceiling then Prepay
          else Serve_free)"

definition rollingDecision :: "bool \<Rightarrow> string \<Rightarrow> bool \<Rightarrow> jsval \<Rightarrow> int \<Rightarrow> rolling \<Rightarrow> rolling \<times> rolling_action \<times> charge option \<times> int" where
  "rollingDecision rd i hasPayment ceiling maxUnsettled s =
     (case getPending rd i s of
        (s', pending) \<Rightarrow>
          (let ceil = (case js_BigInt ceiling of Some n \<Rightarrow> n | None \<Rightarrow> 0)
           in (s', decideRolling pending hasPayment ceil maxUnsettled, pending, ceil)))"

record rolling_payment =
  rp_task :: string
  rp_quoted :: jsval
  rp_settled :: jsval
  rp_route :: string

definition paymentBindsDebt :: "(string \<Rightarrow> string option) \<Rightarrow> charge option \<Rightarrow> rolling_payment \<Rightarrow> bool" where
  "paymentBindsDebt url_path pending payment =
     (case pending of
        None \<Rightarrow> False
      | Some c \<Rightarrow>
          (let price = JStr (dec_string (pc_amount c));
               route = canonicalPaidRoute url_path (rp_route payment);
               dueRoute = canonicalPaidRoute url_path (if pc_route c = [] then ''/task-request'' else pc_route c)
           in \<not> (rp_task payment \<noteq> [] \<and> pc_task c \<noteq> [] \<and> rp_task payment \<noteq> pc_task c) \<and>
              sameQuotedPrice (rp_quoted payment) price \<and> chainCoversPrice (rp_settled payment) price \<and>
              route \<noteq> [] \<and> route = dueRoute))"

section \<open>The request that pays a debt\<close>

text \<open>
  What the branch of server.js does after its handshake, for a debt \<open>pending\<close> that it read before: \<open>None\<close>
  when the handshake did not settle, else the payment and whether its payee is ours.
\<close>

datatype settle_reply = Paid | Mismatch | Not_settled | Failed_write

definition settle_pending ::
    "(string \<Rightarrow> string option) \<Rightarrow> bool \<Rightarrow> bool \<Rightarrow> string \<Rightarrow> charge \<Rightarrow> (rolling_payment \<times> bool) option \<Rightarrow> rolling \<Rightarrow> rolling \<times> settle_reply" where
  "settle_pending url_path rd wr i pending hs s =
     (case hs of
        None \<Rightarrow> (case markSettleFailed rd wr i s of (s', Threw) \<Rightarrow> (s', Failed_write) | (s', Replied x) \<Rightarrow> (s', Not_settled))
      | Some (payment, ours) \<Rightarrow>
          if paymentBindsDebt url_path (Some pending) payment \<and> ours
          then (case markSettled rd wr i s of (s', Threw) \<Rightarrow> (s', Failed_write) | (s', Replied x) \<Rightarrow> (s', Paid))
          else (case markSettleFailed rd wr i s of (s', Threw) \<Rightarrow> (s', Failed_write) | (s', Replied x) \<Rightarrow> (s', Mismatch)))"

section \<open>Debts across runs\<close>

datatype rolling_op =
    Look string bool
  | Record string charge bool bool
  | Settled string bool bool
  | Failed string bool bool
  | Status "string \<Rightarrow> bool"
  | Restart

fun rolling_step :: "rolling \<Rightarrow> rolling_op \<Rightarrow> rolling" where
  "rolling_step s (Look i rd) = fst (getPending rd i s)"
| "rolling_step s (Record i c rd wr) = fst (recordPending rd wr i c s)"
| "rolling_step s (Settled i rd wr) = fst (markSettled rd wr i s)"
| "rolling_step s (Failed i rd wr) = fst (markSettleFailed rd wr i s)"
| "rolling_step s (Status rd) = fst (rollingStatus rd s)"
| "rolling_step s Restart = restart s"

text \<open>The specification: a map from payers to what they owe. Only a write that succeeds changes it.\<close>

fun debt_step :: "(string \<Rightarrow> charge option) \<Rightarrow> rolling_op \<Rightarrow> string \<Rightarrow> charge option" where
  "debt_step d (Record i c rd wr) =
     (if wr \<and> (case d i of Some old \<Rightarrow> pc_amount old < pc_amount c | None \<Rightarrow> True) then d(i := Some c) else d)"
| "debt_step d (Settled i rd wr) = (if wr then d(i := None) else d)"
| "debt_step d (Failed i rd wr) =
     (if wr then d(i := map_option (\<lambda>c. c\<lparr>pc_attempts := pc_attempts c + 1\<rparr>) (d i)) else d)"
| "debt_step d _ = d"

fun reads_ok :: "rolling_op \<Rightarrow> bool" where
  "reads_ok (Record i c rd wr) = rd"
| "reads_ok (Settled i rd wr) = rd"
| "reads_ok (Failed i rd wr) = rd"
| "reads_ok _ = True"

definition owed :: "rolling \<Rightarrow> string \<Rightarrow> charge option" where
  "owed s i = snd (getPending True i s)"

text \<open>The ledger caches the files: an entry is its file, or a new payer who has no file yet.\<close>

definition cached :: "rolling \<Rightarrow> bool" where
  "cached s \<longleftrightarrow> rg_persist s \<and> jm_ok (rg_ledger s) \<and> jm_ok (rg_disk s) \<and>
     (\<forall>i r. jm_get (rg_ledger s) i = Some r \<longrightarrow>
        jm_get (rg_disk s) i = Some r \<or> (jm_get (rg_disk s) i = None \<and> r = fresh_payer))"

locale simulated_run = invariant_run +
  fixes abstraction :: "'a \<Rightarrow> 'c" and abstract_step :: "'c \<Rightarrow> 'b \<Rightarrow> 'c"
  assumes simulates: "inv s \<Longrightarrow> allowed x \<Longrightarrow> abstraction (step s x) = abstract_step (abstraction s) x"
begin

lemma run_simulates: "inv s \<Longrightarrow> list_all allowed xs \<Longrightarrow> abstraction (foldl step s xs) = foldl abstract_step (abstraction s) xs"
  by (induction xs arbitrary: s) (simp_all add: simulates step_inv)

end

lemma cachedD: "cached s \<Longrightarrow> jm_get (rg_ledger s) i = Some r \<Longrightarrow>
    jm_get (rg_disk s) i = Some r \<or> (jm_get (rg_disk s) i = None \<and> r = fresh_payer)"
  by (simp add: cached_def)

lemma fresh_owes_nothing [simp]: "py_pending fresh_payer = None"
  by (simp add: fresh_payer_def)

lemma cached_owed: "cached s \<Longrightarrow> owed s i = Option.bind (jm_get (rg_disk s) i) py_pending"
proof (cases "jm_get (rg_ledger s) i")
  case None
  then show "cached s \<Longrightarrow> ?thesis" by (auto simp: owed_def getPending_def loadPayer_def cached_def split: option.splits)
next
  case (Some r)
  then show "cached s \<Longrightarrow> ?thesis" using cachedD [of s i r] by (auto simp: owed_def getPending_def)
qed

lemma cached_set: "cached s \<Longrightarrow> jm_get (rg_disk s) i = Some r \<or> (jm_get (rg_disk s) i = None \<and> r = fresh_payer) \<Longrightarrow> cached (set_payer i r s)"
  by (auto simp: cached_def set_payer_def jsmap_simps)

lemma get_filter: "jm_ok m \<Longrightarrow> jm_get (filter P m) i = Some r \<Longrightarrow> jm_get m i = Some r"
  by (rule map_of_is_SomeI) (auto simp: jm_ok_def dest: map_of_SomeD)

lemma cached_prune: "cached s \<Longrightarrow> cached (prune s) \<and> rg_disk (prune s) = rg_disk s"
  using get_filter distinct_map_filter by (fastforce simp: cached_def prune_def Let_def jm_ok_def)

lemma cached_known: "cached s \<Longrightarrow> known_payer True i s = Some r \<Longrightarrow>
    jm_get (rg_disk s) i = Some r \<or> (jm_get (rg_disk s) i = None \<and> r = fresh_payer)"
  using cachedD [of s i] by (auto simp: known_payer_def loadPayer_def split: option.splits if_splits)

lemma cached_read:
  assumes "cached s" "readPayer True i s = (s', r)"
  shows "cached s' \<and> rg_disk s' = rg_disk s \<and> jm_get (rg_ledger s') i = Some r \<and>
    (jm_get (rg_disk s) i = Some r \<or> (jm_get (rg_disk s) i = None \<and> r = fresh_payer))"
proof (cases "jm_get (rg_ledger s) i")
  case (Some x)
  with assms show ?thesis by (auto simp: readPayer_def cached_def)
next
  case None
  show ?thesis
  proof (cases "jm_get (rg_disk s) i")
    case (Some x)
    with None assms have "s' = set_payer i x s" "r = x" by (auto simp: readPayer_def loadPayer_def cached_def)
    with Some cached_set [OF assms(1), of i x] show ?thesis by (auto simp: set_payer_def jsmap_simps)
  next
    case n: None
    define t where "t = (if MAX_PAYERS \<le> length (rg_ledger s) then prune s else s)"
    have t: "cached t" "rg_disk t = rg_disk s" using cached_prune [OF assms(1)] assms(1) by (auto simp: t_def)
    have "loadPayer True i s = None" using n by (simp add: loadPayer_def)
    with None assms(2) have "s' = set_payer i fresh_payer t" "r = fresh_payer"
      by (simp_all add: readPayer_def t_def Let_def)
    with n t cached_set [OF t(1), of i fresh_payer] show ?thesis by (auto simp: set_payer_def jsmap_simps)
  qed
qed

text \<open>Writing an entry and its file together.\<close>

lemma cached_write:
  assumes "cached s" "persistPayer True i r s = (s', b)"
  shows "b \<and> cached (set_payer i r s') \<and> rg_disk (set_payer i r s') = jm_set i r (rg_disk s)"
proof -
  have s': "b" "s' = s\<lparr>rg_disk := jm_set i r (rg_disk s)\<rparr>" using assms by (auto simp: persistPayer_def cached_def)
  have "cached (set_payer i r s')"
    using assms(1) cachedD [OF assms(1)] by (simp add: cached_def set_payer_def s' jsmap_simps)
  with s' show ?thesis by (simp add: set_payer_def)
qed

lemma write_refused: "cached s \<Longrightarrow> persistPayer False i r s = (s, False)"
  by (simp add: persistPayer_def cached_def)

lemma owed_disk: "cached s \<Longrightarrow> cached t \<Longrightarrow> rg_disk t = rg_disk s \<Longrightarrow> owed t = owed s"
  by (rule ext) (simp add: cached_owed)

lemma owed_write: "cached s \<Longrightarrow> cached t \<Longrightarrow> rg_disk t = jm_set i r (rg_disk s) \<Longrightarrow> owed t = (owed s)(i := py_pending r)"
  by (rule ext) (simp add: cached_owed jsmap_simps)

lemma look_step: "cached s \<Longrightarrow> cached (fst (getPending rd i s)) \<and> rg_disk (fst (getPending rd i s)) = rg_disk s"
  using cached_set [of s i] by (auto simp: getPending_def loadPayer_def set_payer_def split: option.splits if_splits)

lemma record_step:
  assumes "cached s"
  shows "cached (fst (recordPending True wr i c s)) \<and> owed (fst (recordPending True wr i c s)) = debt_step (owed s) (Record i c True wr)"
proof -
  obtain s1 r where r: "readPayer True i s = (s1, r)" by (cases "readPayer True i s")
  note read = cached_read [OF assms r]
  have pend: "owed s i = py_pending r" using read cached_owed [OF assms, of i] by auto
  have same: "owed s1 = owed s" using read owed_disk assms by blast
  let ?r = "r\<lparr>py_pending := Some c\<rparr>"
  show ?thesis
  proof (cases "case py_pending r of Some old \<Rightarrow> pc_amount old < pc_amount c | None \<Rightarrow> True")
    case cond: True
    then have rec: "recordPending True wr i c s = (case persistPayer wr i ?r s1 of
        (s2, True) \<Rightarrow> (set_payer i ?r s2, Replied c) | (s2, False) \<Rightarrow> (s2, Threw))"
      by (auto simp: recordPending_def r split: option.splits)
    show ?thesis
    proof (cases wr)
      case True: True
      obtain s2 b where w: "persistPayer True i ?r s1 = (s2, b)" by (cases "persistPayer True i ?r s1")
      from cached_write [OF _ w] read have c: "b" "cached (set_payer i ?r s2)" "rg_disk (set_payer i ?r s2) = jm_set i ?r (rg_disk s1)" by auto
      have "owed (set_payer i ?r s2) = (owed s)(i := Some c)"
        using owed_write [OF _ c(2,3)] read same by simp
      with rec w c True pend cond show ?thesis by simp
    next
      case False
      with rec read write_refused [of s1] same show ?thesis by simp
    qed
  next
    case False
    then obtain old where "py_pending r = Some old" "pc_amount c \<le> pc_amount old" by (auto split: option.splits)
    with read same pend show ?thesis by (simp add: recordPending_def r)
  qed
qed

text \<open>Replacing the entry of a known payer.\<close>

lemma replace_write:
  assumes "cached s" "known_payer True i s = Some r"
  obtains s2 where "persistPayer True i r' (set_payer i r s) = (s2, True)" "cached (set_payer i r' s2)"
    "owed (set_payer i r' s2) = (owed s)(i := py_pending r')"
proof -
  have c: "cached (set_payer i r s)" using cached_set [OF assms(1) cached_known [OF assms]] .
  have d: "rg_disk (set_payer i r s) = rg_disk s" by (simp add: set_payer_def)
  obtain s2 b where w: "persistPayer True i r' (set_payer i r s) = (s2, b)" by (cases "persistPayer True i r' (set_payer i r s)")
  note written = cached_write [OF c w]
  show thesis using that [of s2] w written owed_write [OF assms(1), of "set_payer i r' s2" i r'] d by simp
qed

lemma replace_refused:
  assumes "cached s" "known_payer True i s = Some r"
  shows "persistPayer False i r' (set_payer i r s) = (set_payer i r s, False)" "cached (set_payer i r s)"
    "owed (set_payer i r s) = owed s"
proof -
  show c: "cached (set_payer i r s)" using cached_set [OF assms(1) cached_known [OF assms]] .
  show "persistPayer False i r' (set_payer i r s) = (set_payer i r s, False)" by (rule write_refused [OF c])
  show "owed (set_payer i r s) = owed s" by (rule owed_disk [OF assms(1) c]) (simp add: set_payer_def)
qed

lemma known_owes: "cached s \<Longrightarrow> known_payer True i s = Some r \<Longrightarrow> owed s i = py_pending r"
  using cached_known [of s i r] by (auto simp: cached_owed)

lemma unknown_owes: "cached s \<Longrightarrow> known_payer True i s = None \<Longrightarrow> owed s i = None"
  by (auto simp: known_payer_def loadPayer_def cached_owed cached_def split: option.splits)

lemma settled_step:
  assumes "cached s"
  shows "cached (fst (markSettled True wr i s)) \<and> owed (fst (markSettled True wr i s)) = debt_step (owed s) (Settled i True wr)"
proof (cases "known_payer True i s")
  case None
  with unknown_owes [OF assms None] assms show ?thesis by (auto simp: markSettled_def)
next
  case (Some r)
  obtain s2 where "persistPayer True i (r\<lparr>py_pending := None, py_settled := py_settled r + 1\<rparr>) (set_payer i r s) = (s2, True)"
      "cached (set_payer i (r\<lparr>py_pending := None, py_settled := py_settled r + 1\<rparr>) s2)"
      "owed (set_payer i (r\<lparr>py_pending := None, py_settled := py_settled r + 1\<rparr>) s2) = (owed s)(i := None)"
    by (rule replace_write [OF assms Some, of "r\<lparr>py_pending := None, py_settled := py_settled r + 1\<rparr>"]) simp
  with replace_refused [OF assms Some] show ?thesis by (cases wr) (simp_all add: markSettled_def Some Let_def)
qed

lemma failed_step:
  assumes "cached s"
  shows "cached (fst (markSettleFailed True wr i s)) \<and> owed (fst (markSettleFailed True wr i s)) = debt_step (owed s) (Failed i True wr)"
proof (cases "known_payer True i s")
  case None
  with unknown_owes [OF assms None] assms show ?thesis by (auto simp: markSettleFailed_def fun_upd_idem)
next
  case (Some r)
  note o = known_owes [OF assms Some]
  show ?thesis
  proof (cases "py_pending r")
    case None
    with assms o Some show ?thesis by (simp add: markSettleFailed_def fun_upd_idem)
  next
    case p: (Some c)
    let ?c = "c\<lparr>pc_attempts := pc_attempts c + 1\<rparr>"
    obtain s2 where "persistPayer True i (r\<lparr>py_pending := Some ?c\<rparr>) (set_payer i r s) = (s2, True)"
        "cached (set_payer i (r\<lparr>py_pending := Some ?c\<rparr>) s2)"
        "owed (set_payer i (r\<lparr>py_pending := Some ?c\<rparr>) s2) = (owed s)(i := Some ?c)"
      by (rule replace_write [OF assms Some, of "r\<lparr>py_pending := Some ?c\<rparr>"]) simp
    with replace_refused [OF assms Some] show ?thesis
      by (cases wr) (simp_all add: markSettleFailed_def Some p Let_def o)
  qed
qed

lemma load_step: "cached s \<Longrightarrow> cached (load_files rd s) \<and> rg_disk (load_files rd s) = rg_disk s"
proof -
  let ?f = "\<lambda>s (i, r). if rd i \<and> \<not> jm_has (rg_ledger s) i then set_payer i r s else s"
  have "\<forall>(i, r)\<in>set m. jm_get (rg_disk t) i = Some r \<Longrightarrow> cached t \<Longrightarrow>
      cached (foldl ?f t m) \<and> rg_disk (foldl ?f t m) = rg_disk t" for m t
  proof (induction m arbitrary: t)
    case (Cons p m)
    obtain i r where p: "p = (i, r)" by (cases p)
    have "cached (?f t p)" "rg_disk (?f t p) = rg_disk t"
      using Cons.prems p cached_set [of t i r] by (auto simp: set_payer_def)
    with Cons.IH [of "?f t p"] Cons.prems show ?case by simp
  qed simp
  note files = this [of "rg_disk s" s]
  show "cached s \<Longrightarrow> ?thesis"
  proof -
    assume c: "cached s"
    then have "\<forall>(i, r)\<in>set (rg_disk s). jm_get (rg_disk s) i = Some r" by (auto simp: cached_def jm_ok_def)
    from files [OF this c] c show ?thesis by (simp add: load_files_def)
  qed
qed

lemma restart_step: "cached s \<Longrightarrow> cached (restart s) \<and> rg_disk (restart s) = rg_disk s"
  by (simp add: cached_def restart_def)

lemma rolling_step_simulates:
  assumes "cached s" "reads_ok x"
  shows "cached (rolling_step s x) \<and> owed (rolling_step s x) = debt_step (owed s) x"
  using assms
proof (cases x)
  case (Look i rd)
  with look_step [OF assms(1), of rd i] owed_disk [OF assms(1)] show ?thesis by simp
next
  case (Record i c rd wr)
  with record_step [OF assms(1), of wr i c] assms(2) show ?thesis by simp
next
  case (Settled i rd wr)
  with settled_step [OF assms(1), of wr i] assms(2) show ?thesis by simp
next
  case (Failed i rd wr)
  with failed_step [OF assms(1), of wr i] assms(2) show ?thesis by simp
next
  case (Status rd)
  with load_step [OF assms(1), of rd] owed_disk [OF assms(1)] show ?thesis by (simp add: rollingStatus_def Let_def)
next
  case Restart
  with restart_step [OF assms(1)] owed_disk [OF assms(1)] show ?thesis by simp
qed

interpretation rolling_debts: simulated_run rolling_step cached reads_ok owed debt_step
  by unfold_locales (simp_all add: rolling_step_simulates)


lemma debt_stays:
  "d i = Some c \<Longrightarrow> (\<And>rd wr. Settled i rd wr \<notin> set ops) \<Longrightarrow> \<exists>c'. foldl debt_step d ops i = Some c' \<and> pc_amount c \<le> pc_amount c'"
proof (induction ops arbitrary: d c)
  case (Cons x ops)
  have "\<exists>c1. debt_step d x i = Some c1 \<and> pc_amount c \<le> pc_amount c1"
    using Cons.prems by (cases x) auto
  then obtain c1 where c1: "debt_step d x i = Some c1" "pc_amount c \<le> pc_amount c1" by blast
  from Cons.IH [of "debt_step d x" c1, OF c1(1)] Cons.prems(2) c1(2) show ?case by fastforce
qed auto

text \<open>
  No debt is forgiven: as long as the payer's debt is not settled, no run of other operations,
  restarts and failed writes included, loses it or makes it smaller.
\<close>

theorem debt_not_forgiven:
  assumes "cached s" "list_all reads_ok ops" "owed s i = Some c" "\<And>rd wr. Settled i rd wr \<notin> set ops"
  shows "\<exists>c'. owed (foldl rolling_step s ops) i = Some c' \<and> pc_amount c \<le> pc_amount c'"
  unfolding rolling_debts.run_simulates [OF assms(1,2)] by (rule debt_stays [of "owed s" i c, OF assms(3)]) (rule assms(4))

text \<open>
  Nobody who owes is served free: the decision sees the debt that the payer has, and a call is
  served before it is paid only when nothing is owed, no payment was sent, and its estimate is below the
  bound for an unpaid call, where there is one.
\<close>

theorem rolling_no_free_ride:
  assumes "cached s" "rollingDecision True i hasPayment ceiling maxUnsettled s = (s', act, pending, ceil)"
  shows "pending = owed s i \<and> owed s' = owed s \<and>
    (act = Serve_free \<longrightarrow> owed s i = None \<and> \<not> hasPayment \<and> (maxUnsettled \<le> 0 \<or> ceil \<le> maxUnsettled))"
proof -
  obtain t p where g: "getPending True i s = (t, p)" by (cases "getPending True i s")
  then have "p = owed s i" by (simp add: owed_def)
  moreover have "owed t = owed s" using look_step [OF assms(1), of True i] g owed_disk [OF assms(1)] by simp
  ultimately show ?thesis using assms(2) g
    by (auto simp: rollingDecision_def Let_def decideRolling_def split: option.splits if_splits)
qed



lemma owed_after:
  assumes "cached s"
  shows "owed (fst (markSettled True wr i s)) = (if wr then (owed s)(i := None) else owed s)"
    "\<exists>c. owed (fst (markSettleFailed True wr i s)) = (if wr then (owed s)(i := c) else owed s) \<and> (owed s i \<noteq> None \<longrightarrow> c \<noteq> None)"
  using settled_step [OF assms, of wr i] failed_step [OF assms, of wr i] by auto



section \<open>Debts that are lost\<close>

text \<open>
  A debt that a slower call records while a payment is under way is cleared with the payment of the
  earlier, smaller one.
\<close>

lemma later_debt_cleared:
  assumes "cached s" "owed s i = Some small" "pc_amount small < pc_amount big"
    and "paymentBindsDebt url_path (Some small) payment"
  shows "owed (fst (recordPending True True i big s)) i = Some big \<and>
    owed (fst (settle_pending url_path True True i small (Some (payment, True)) (fst (recordPending True True i big s)))) i = None"
proof -
  note r = record_step [OF assms(1), of True i big]
  obtain t a where m: "markSettled True True i (fst (recordPending True True i big s)) = (t, a)"
    by (cases "markSettled True True i (fst (recordPending True True i big s))")
  have "owed t i = None" using owed_after(1) [of "fst (recordPending True True i big s)" True i] r m by auto
  with r assms(2-4) m show ?thesis by (simp add: settle_pending_def split: reply.splits)
qed

text \<open>A file that is there and cannot be read once is taken for a payer who owes nothing, and is overwritten.\<close>

lemma unread_debt_overwritten:
  assumes "cached s" "jm_get (rg_ledger s) i = None" "length (rg_ledger s) < MAX_PAYERS"
  shows "owed (fst (recordPending False True i c s)) i = Some c"
  using assms by (simp add: recordPending_def readPayer_def loadPayer_def persistPayer_def cached_def set_payer_def owed_def getPending_def
      fresh_payer_def jsmap_simps)

section \<open>Examples\<close>

definition sample_charge :: "nat \<Rightarrow> charge" where
  "sample_charge n = new_charge n ''task-1'' ''model'' 10 20 JNull 0"

definition sample_rolling :: rolling where
  "sample_rolling = \<lparr>rg_ledger = [],
     rg_disk = [(''key:a'', \<lparr>py_pending = Some (sample_charge 2000), py_settled = 1, py_forgiven = 0\<rparr>)], rg_persist = True\<rparr>"


lemma sample_cached: "cached sample_rolling"
  by (simp add: cached_def sample_rolling_def jm_ok_def)

lemma sample_owed: "owed sample_rolling ''key:a'' = Some (sample_charge 2000)"
  using cached_owed [OF sample_cached, of "''key:a''"] by (simp add: sample_rolling_def)


theorem debt_not_forgiven_witness:
  "\<exists>c. owed (foldl rolling_step sample_rolling [Restart, Record ''key:a'' (sample_charge 9000) True False, Restart]) ''key:a'' = Some c \<and> 2000 \<le> pc_amount c"
  using debt_not_forgiven [OF sample_cached _ sample_owed, of "[Restart, Record ''key:a'' (sample_charge 9000) True False, Restart]"]
  by (simp add: sample_charge_def new_charge_def)

theorem rolling_no_free_ride_witness:
  "\<exists>s act ceil. rollingDecision True ''key:a'' False (JStr ''100'') 1000000 sample_rolling = (s, act, Some (sample_charge 2000), ceil) \<and> act \<noteq> Serve_free"
proof -
  obtain s act pending ceil where d: "rollingDecision True ''key:a'' False (JStr ''100'') 1000000 sample_rolling = (s, act, pending, ceil)"
    by (cases "rollingDecision True ''key:a'' False (JStr ''100'') 1000000 sample_rolling")
  from rolling_no_free_ride [OF sample_cached d] d show ?thesis by (auto simp: sample_owed)
qed



end
