(* ===== verification/Issuer_History.thy ===== *)
theory Issuer_History
  imports Complex_Main Canonical_Preimage
begin

text \<open>
  services/gateway/src/issuer-history.js, the documents: entries that name a key and the time it may sign,
  chained by their hashes, the check of a document, the window of a key, and the snapshot that a receipt carries.
  Documents are values as parsed from JSON. \<open>Date.parse\<close> is the parameter \<open>dp\<close> (milliseconds), a time is
  a rational number of milliseconds, and the verdict on a JWS is the parameter \<open>jws\<close>. A throw of the canonicalizer is
  the reason \<open>not_canonical\<close>. \<open>===\<close> between two values that are no texts or numbers is equality of their terms.
  \<open>Number\<close> of a text does not strip white space beyond the code unit 255.
\<close>

section \<open>Values\<close>

abbreviation str :: "string \<Rightarrow> cval" where
  "str s \<equiv> CStr (ascii s)"

definition nullish :: "cval \<Rightarrow> bool" where
  "nullish v \<longleftrightarrow> v = CUndefined \<or> v = CNull"

definition or_null :: "cval \<Rightarrow> cval" where
  "or_null v = (if nullish v then CNull else v)"

definition plain :: "text16 \<Rightarrow> string option" where
  "plain t = (if list_all (\<lambda>u. u < 256) t then Some (map (\<lambda>u. char_of (unat u)) t) else None)"

definition text_number :: "text16 \<Rightarrow> jsnum" where
  "text_number t = (case plain t of Some s \<Rightarrow> string_number s | None \<Rightarrow> JNaN)"

fun to_number :: "cval \<Rightarrow> jsnum" where
  "to_number CNull = JInt 0"
| "to_number (CBool b) = JInt (if b then 1 else 0)"
| "to_number (CNum n) = (case n of Finite t \<Rightarrow> text_number t | Negative_zero \<Rightarrow> JNegZero | Infinite \<Rightarrow> JInf True | Not_a_number \<Rightarrow> JNaN)"
| "to_number (CStr s) = text_number s"
| "to_number (CArr []) = JInt 0"
| "to_number (CArr [v]) = (case v of CUndefined \<Rightarrow> JInt 0 | CBool b \<Rightarrow> JNaN | _ \<Rightarrow> to_number v)"
| "to_number _ = JNaN"

text \<open>\<open>String\<close> of a value from JSON.\<close>

fun value_text :: "cval \<Rightarrow> text16" where
  "value_text CUndefined = ascii ''undefined''"
| "value_text CNull = ascii ''null''"
| "value_text (CBool b) = ascii (if b then ''true'' else ''false'')"
| "value_text (CNum n) = (case n of Finite t \<Rightarrow> t | Negative_zero \<Rightarrow> ascii ''0'' | Infinite \<Rightarrow> ascii ''Infinity'' | Not_a_number \<Rightarrow> ascii ''NaN'')"
| "value_text (CStr s) = s"
| "value_text (CArr vs) = joined (map (\<lambda>v. if nullish v then [] else value_text v) vs)"
| "value_text (CObj kvs) = ascii ''[object Object]''"
| "value_text COther = []"

definition lower_hex16 :: "nat \<Rightarrow> text16 \<Rightarrow> bool" where
  "lower_hex16 n t \<longleftrightarrow> length t = n \<and> list_all (\<lambda>u. (48 \<le> u \<and> u \<le> 57) \<or> (97 \<le> u \<and> u \<le> 102)) t"

section \<open>Entries\<close>

definition publicJwk :: "cval \<Rightarrow> cval" where
  "publicJwk jwk =
     (if get jwk ''kty'' \<noteq> str ''EC'' then CNull
      else CObj [(ascii ''kty'', get jwk ''kty''), (ascii ''crv'', get jwk ''crv''), (ascii ''x'', get jwk ''x''),
        (ascii ''y'', get jwk ''y''), (ascii ''kid'', get jwk ''kid''),
        (ascii ''alg'', either (get jwk ''alg'') (str ''ES256'')), (ascii ''use'', either (get jwk ''use'') (str ''sig''))])"

definition guardianSetHashField :: "cval \<Rightarrow> text16 option" where
  "guardianSetHashField entry =
     (case get entry ''guardian_set_hash'' of
        CStr s \<Rightarrow> (let h = map lower_unit s in if lower_hex16 64 h then Some h else None)
      | _ \<Rightarrow> None)"

text \<open>The printed text of a number that is an integer and not below zero.\<close>

definition whole_text :: "text16 \<Rightarrow> bool" where
  "whole_text t \<longleftrightarrow> t \<noteq> [] \<and> hd t \<noteq> 45 \<and> (list_all (\<lambda>u. 48 \<le> u \<and> u \<le> 57) t \<or> 43 \<in> set t)"

definition retirementBlockField :: "cval \<Rightarrow> cval option" where
  "retirementBlockField entry =
     (case get entry ''retirement_block'' of
        CNum (Finite t) \<Rightarrow> if whole_text t then Some (CNum (Finite t)) else None
      | CNum Negative_zero \<Rightarrow> Some (CNum Negative_zero)
      | _ \<Rightarrow> None)"

text \<open>The members that stand only when the entry has them.\<close>

definition extra_members :: "cval \<Rightarrow> (text16 \<times> cval) list" where
  "extra_members entry =
     (case get entry ''custody'' of CStr s \<Rightarrow> if s \<noteq> [] then [(ascii ''custody'', CStr s)] else [] | _ \<Rightarrow> []) @
     (case guardianSetHashField entry of Some h \<Rightarrow> [(ascii ''guardian_set_hash'', CStr h)] | None \<Rightarrow> []) @
     (case retirementBlockField entry of Some b \<Rightarrow> [(ascii ''retirement_block'', b)] | None \<Rightarrow> [])"

definition issuerHistoryEntryBody :: "cval \<Rightarrow> cval" where
  "issuerHistoryEntryBody entry =
     CObj ([(ascii ''kid'', get entry ''kid''), (ascii ''jwk'', publicJwk (get entry ''jwk'')),
       (ascii ''alg'', either (get entry ''alg'') (str ''ES256'')), (ascii ''not_before'', get entry ''not_before''),
       (ascii ''not_after'', or_null (get entry ''not_after'')), (ascii ''status'', get entry ''status''),
       (ascii ''revoked_at'', or_null (get entry ''revoked_at'')), (ascii ''reason'', or_null (get entry ''reason'')),
       (ascii ''prev_hash'', or_null (get entry ''prev_hash''))] @ extra_members entry)"

definition issuerHistoryEntryHash :: "cval \<Rightarrow> text16 option" where
  "issuerHistoryEntryHash entry = map_option sha256Hex (jcsCanonicalize (issuerHistoryEntryBody entry))"

definition with_member :: "string \<Rightarrow> cval \<Rightarrow> cval \<Rightarrow> cval" where
  "with_member k v obj = CObj (AList.update (ascii k) v (entries obj))"

fun prev_value :: "text16 option \<Rightarrow> cval" where
  "prev_value None = CNull"
| "prev_value (Some h) = CStr h"

text \<open>\<open>None\<close> when the canonicalizer throws.\<close>

fun chainFrom :: "text16 option \<Rightarrow> cval list \<Rightarrow> cval list option" where
  "chainFrom prev [] = Some []"
| "chainFrom prev (raw # raws) =
     (let body = issuerHistoryEntryBody (with_member ''prev_hash'' (prev_value prev) raw)
      in case issuerHistoryEntryHash body of
           None \<Rightarrow> None
         | Some h \<Rightarrow> map_option (\<lambda>es. with_member ''entry_hash'' (CStr h) body # es) (chainFrom (Some h) raws))"

definition chainEntries :: "cval list \<Rightarrow> cval list option" where
  "chainEntries raws = chainFrom None raws"

section \<open>Times\<close>

definition number_value :: "text16 \<Rightarrow> rat option" where
  "number_value t =
     (case plain t of
        None \<Rightarrow> None
      | Some s \<Rightarrow>
          (let neg = (s \<noteq> [] \<and> hd s = CHR ''-''); body = (if neg then tl s else s)
           in map_option (\<lambda>(m, e). (if neg then - 1 else 1) * of_nat m * (if 0 \<le> e then 10 ^ nat e else 1 / 10 ^ nat (- e)))
                (decimal_literal body)))"

definition parseTime :: "(text16 \<Rightarrow> int option) \<Rightarrow> cval \<Rightarrow> rat option" where
  "parseTime dp value =
     (if nullish value \<or> value = CStr [] then None
      else case value of
          CNum (Finite t) \<Rightarrow> map_option (\<lambda>x. if 10 ^ 12 < x then x else x * 1000) (number_value t)
        | CNum Negative_zero \<Rightarrow> Some 0
        | v \<Rightarrow> map_option of_int (dp (value_text v)))"

definition notBeforeMoved :: "(text16 \<Rightarrow> int option) \<Rightarrow> cval \<Rightarrow> cval \<Rightarrow> bool" where
  "notBeforeMoved dp previous nxt =
     (case (parseTime dp previous, parseTime dp nxt) of
        (Some l, Some r) \<Rightarrow> l \<noteq> r
      | _ \<Rightarrow> (if nullish previous then [] else value_text previous) \<noteq> (if nullish nxt then [] else value_text nxt))"

section \<open>The rules of a history\<close>

text \<open>\<open>prior\<close> has the last status and start of each key that was seen.\<close>

fun regressed :: "(text16 \<Rightarrow> int option) \<Rightarrow> (cval \<times> cval \<times> cval) list \<Rightarrow> cval list \<Rightarrow> bool" where
  "regressed dp prior [] = False"
| "regressed dp prior (entry # es) =
     ((case map_of prior (get entry ''kid'') of
         None \<Rightarrow> False
       | Some (status, notBefore) \<Rightarrow>
           status = str ''revoked'' \<or> (status = str ''retired'' \<and> get entry ''status'' = str ''active'') \<or>
           notBeforeMoved dp notBefore (get entry ''not_before'')) \<or>
      regressed dp (AList.update (get entry ''kid'') (get entry ''status'', get entry ''not_before'') prior) es)"

definition kidStatusRegression :: "(text16 \<Rightarrow> int option) \<Rightarrow> cval list \<Rightarrow> bool" where
  "kidStatusRegression dp es = regressed dp [] es"

fun inherits :: "(text16 \<Rightarrow> int option) \<Rightarrow> cval list \<Rightarrow> rat option \<Rightarrow> cval list \<Rightarrow> bool" where
  "inherits dp seen maxPrior [] = False"
| "inherits dp seen maxPrior (entry # es) =
     (let start = parseTime dp (get entry ''not_before''); kid = get entry ''kid'';
          later = (case (start, maxPrior) of (Some t, Some m) \<Rightarrow> if m < t then Some t else Some m | (Some t, None) \<Rightarrow> Some t | (None, m) \<Rightarrow> m)
      in if kid \<notin> set seen \<and> seen \<noteq> [] \<and> (case (start, maxPrior) of (Some t, Some m) \<Rightarrow> t \<le> m | _ \<Rightarrow> False) then True
         else inherits dp (if kid \<in> set seen then seen else kid # seen) later es)"

definition inheritedKeyWindow :: "(text16 \<Rightarrow> int option) \<Rightarrow> cval list \<Rightarrow> bool" where
  "inheritedKeyWindow dp es = inherits dp [] None es"

definition signedOnlyByIntroducedKey :: "cval list \<Rightarrow> cval \<Rightarrow> bool" where
  "signedOnlyByIntroducedKey es signerKid \<longleftrightarrow>
     truthy signerKid \<and> 2 \<le> length es \<and> get (hd es) ''kid'' \<noteq> signerKid \<and> list_ex (\<lambda>e. get e ''kid'' = signerKid) es"

definition entriesExtend :: "cval list \<Rightarrow> cval list \<Rightarrow> bool" where
  "entriesExtend prev nxt \<longleftrightarrow> length prev \<le> length nxt \<and>
     list_all2 (\<lambda>a b. get a ''entry_hash'' = get b ''entry_hash'') prev (take (length prev) nxt)"

section \<open>The check of a document\<close>

datatype fault = Refused string | Threw

definition key_statuses :: "cval list" where
  "key_statuses = [str ''active'', str ''retired'', str ''revoked'']"

text \<open>The loop over the entries: the previous hash, and the entries left.\<close>

fun chain_fault :: "cval \<Rightarrow> cval list \<Rightarrow> fault option" where
  "chain_fault prev [] = None"
| "chain_fault prev (entry # es) =
     (if nullish entry then Some Threw
      else if or_null (get entry ''prev_hash'') \<noteq> prev then Some (Refused ''prev_hash_mismatch'')
      else case issuerHistoryEntryHash entry of
          None \<Rightarrow> Some Threw
        | Some h \<Rightarrow>
            if CStr h \<noteq> get entry ''entry_hash'' then Some (Refused ''entry_hash_mismatch'')
            else if \<not> truthy (get entry ''kid'') \<or> \<not> truthy (get entry ''jwk'') \<or> get entry ''alg'' \<noteq> str ''ES256''
            then Some (Refused ''entry_incomplete'')
            else if get entry ''status'' \<notin> set key_statuses then Some (Refused ''bad_status'')
            else chain_fault (get entry ''entry_hash'') es)"

record jws_verdict =
  jv_valid :: bool
  jv_reason :: string
  jv_payload :: cval
  jv_kid :: cval

datatype history_verdict = Valid cval cval | Invalid string | Verify_threw

definition array_of :: "cval \<Rightarrow> cval list option" where
  "array_of v = (case v of CArr vs \<Rightarrow> Some vs | _ \<Rightarrow> None)"

definition same_number :: "cval \<Rightarrow> cval \<Rightarrow> bool" where
  "same_number a b = num_same (to_number a) (to_number b)"

definition root_kid_fault :: "cval \<Rightarrow> cval \<Rightarrow> bool" where
  "root_kid_fault payload signedKid \<longleftrightarrow>
     (let root = get payload ''issuer_root''
      in truthy root \<and> (\<not> truthy (get root ''kid'') \<or> get root ''kid'' \<noteq> signedKid))"

definition verifyIssuerHistory :: "(text16 \<Rightarrow> int option) \<Rightarrow> (cval \<Rightarrow> jws_verdict) \<Rightarrow> cval \<Rightarrow> history_verdict" where
  "verifyIssuerHistory dp jws doc =
     (if \<not> truthy doc \<or> get doc ''schema'' \<noteq> str ''chit402.issuer_history.v1'' then Invalid ''not_issuer_history''
      else case array_of (get doc ''entries'') of
        None \<Rightarrow> Invalid ''not_issuer_history''
      | Some es \<Rightarrow>
          if es = [] then Invalid ''not_issuer_history''
          else case chain_fault CNull es of
              Some (Refused r) \<Rightarrow> Invalid r
            | Some Threw \<Rightarrow> Verify_threw
            | None \<Rightarrow>
                (let head = get (last es) ''entry_hash''; sig = get doc ''issuer_signature''; result = jws (get sig ''jws'');
                     payload = either (jv_payload result) (CObj []); signer = either (either (jv_kid result) (get sig ''kid'')) CNull
                 in if kidStatusRegression dp es then Invalid ''kid_status_regression''
                    else if get doc ''head_hash'' \<noteq> head then Invalid ''head_hash_mismatch''
                    else if \<not> truthy (get sig ''jws'') then Invalid ''no_signature''
                    else if \<not> jv_valid result then Invalid (if jv_reason result = [] then ''signature_invalid'' else jv_reason result)
                    else if get payload ''schema'' \<noteq> str ''chit402.issuer_history.v1'' then Invalid ''schema_mismatch''
                    else if \<not> num_same (to_number (get payload ''entry_count'')) (JInt (int (length es))) then Invalid ''entry_count_mismatch''
                    else if get payload ''head_hash'' \<noteq> head then Invalid ''signed_head_mismatch''
                    else if root_kid_fault payload signer then Invalid ''issuer_root_kid_mismatch''
                    else if \<not> nullish (get payload ''version'') \<and> \<not> same_number (get payload ''version'') (get doc ''version'')
                    then Invalid ''version_mismatch''
                    else if \<not> nullish (get payload ''seq'') \<and> \<not> same_number (get payload ''seq'') (get doc ''seq'')
                    then Invalid ''seq_mismatch''
                    else if inheritedKeyWindow dp es then Invalid ''inherited_key_window''
                    else if signedOnlyByIntroducedKey es signer then Invalid ''introduced_key_signature''
                    else Valid payload signer))"

section \<open>The window of a key\<close>

definition blank :: "cval \<Rightarrow> bool" where
  "blank v \<longleftrightarrow> nullish v \<or> v = CStr []"

type_synonym stamp = "rat \<times> cval"

definition earlier :: "stamp option \<Rightarrow> rat \<Rightarrow> cval \<Rightarrow> stamp option" where
  "earlier acc t v = (case acc of None \<Rightarrow> Some (t, v) | Some (m, w) \<Rightarrow> if t < m then Some (t, v) else Some (m, w))"

fun earliest_end :: "(text16 \<Rightarrow> int option) \<Rightarrow> stamp option \<Rightarrow> cval list \<Rightarrow> stamp option option" where
  "earliest_end dp acc [] = Some acc"
| "earliest_end dp acc (row # rows) =
     (let v = get row ''not_after''
      in if blank v then earliest_end dp acc rows
         else case parseTime dp v of None \<Rightarrow> None | Some t \<Rightarrow> earliest_end dp (earlier acc t v) rows)"

fun revocation :: "(text16 \<Rightarrow> int option) \<Rightarrow> bool \<Rightarrow> stamp option \<Rightarrow> cval list \<Rightarrow> (bool \<times> stamp option) option" where
  "revocation dp revoked acc [] = Some (revoked, acc)"
| "revocation dp revoked acc (row # rows) =
     (let v = get row ''revoked_at''; revoked' = (revoked \<or> get row ''status'' = str ''revoked'' \<or> \<not> blank v)
      in if blank v then revocation dp revoked' acc rows
         else case parseTime dp v of None \<Rightarrow> None | Some t \<Rightarrow> revocation dp revoked' (earlier acc t v) rows)"

fun latest_start :: "(text16 \<Rightarrow> int option) \<Rightarrow> rat option \<Rightarrow> cval list \<Rightarrow> rat option" where
  "latest_start dp acc [] = acc"
| "latest_start dp acc (row # rows) =
     (case parseTime dp (get row ''not_before'') of
        None \<Rightarrow> None
      | Some t \<Rightarrow> latest_start dp (case acc of None \<Rightarrow> Some t | Some m \<Rightarrow> if m < t then Some t else Some m) rows)"

datatype window = In_window cval cval | Outside string | Window_threw

definition rows_of :: "cval list \<Rightarrow> cval \<Rightarrow> cval list" where
  "rows_of es kid = filter (\<lambda>row. truthy row \<and> get row ''kid'' = kid) es"

definition issuerKeyWindow :: "(text16 \<Rightarrow> int option) \<Rightarrow> cval \<Rightarrow> cval \<Rightarrow> cval \<Rightarrow> window" where
  "issuerKeyWindow dp doc kid issuedAt =
     (case (let es = get doc ''entries'' in if truthy es then array_of es else Some []) of
        None \<Rightarrow> Window_threw
      | Some es \<Rightarrow>
          (let rows = rows_of es kid
           in if rows = [] then Outside ''kid_not_in_history''
              else case earliest_end dp None rows of
                  None \<Rightarrow> Outside ''not_after_invalid''
                | Some notAfter \<Rightarrow>
              (case revocation dp False None rows of
                  None \<Rightarrow> Outside ''revoked_at_missing''
                | Some (revoked, revokedAt) \<Rightarrow>
              if revoked \<and> revokedAt = None then Outside ''revoked_at_missing''
              else case parseTime dp issuedAt of
                  None \<Rightarrow> Outside ''issued_at_missing''
                | Some issued \<Rightarrow>
              (case latest_start dp None rows of
                  None \<Rightarrow> Outside ''not_before_missing''
                | Some notBefore \<Rightarrow>
              if issued < notBefore then Outside ''issued_before_not_before''
              else if (case notAfter of Some (t, _) \<Rightarrow> t < issued | None \<Rightarrow> False) then Outside ''issued_after_not_after''
              else if revoked \<and> (case revokedAt of Some (t, _) \<Rightarrow> t \<le> issued | None \<Rightarrow> True) then Outside ''kid_revoked_before_issuance''
              else In_window (if revoked then str ''revoked'' else get (last rows) ''status'')
                (case notAfter of Some (_, v) \<Rightarrow> v | None \<Rightarrow> CNull)))))"

section \<open>The snapshot in a receipt\<close>

definition historyEmbedEntry :: "cval \<Rightarrow> cval" where
  "historyEmbedEntry entry =
     CObj ([(ascii ''kid'', get entry ''kid''), (ascii ''jwk'', get entry ''jwk''), (ascii ''alg'', get entry ''alg''),
       (ascii ''not_before'', get entry ''not_before''), (ascii ''not_after'', or_null (get entry ''not_after'')),
       (ascii ''status'', get entry ''status''), (ascii ''revoked_at'', or_null (get entry ''revoked_at'')),
       (ascii ''reason'', or_null (get entry ''reason'')), (ascii ''prev_hash'', or_null (get entry ''prev_hash'')),
       (ascii ''entry_hash'', get entry ''entry_hash'')] @ extra_members entry)"

definition historyEntriesSnapshotHash :: "cval list \<Rightarrow> text16 option" where
  "historyEntriesSnapshotHash es =
     (if list_ex nullish es then None else map_option sha256Hex (jcsRfc8785 (CArr (map historyEmbedEntry es))))"

definition claimsBindHistorySnapshot :: "cval \<Rightarrow> bool" where
  "claimsBindHistorySnapshot claims \<longleftrightarrow> is_object claims \<and>
     (let version = to_number (get claims ''payload_version''); kind = get claims ''kind''
      in get claims ''schema'' = str ''chit402.refusal.v2'' \<or> (kind = str ''refusal'' \<and> num_same version (JInt 3)) \<or>
         (num_finite version \<and> \<not> num_lt version (JInt 11) \<and> kind \<noteq> str ''refusal''))"

definition canonicalization_ok :: "cval \<Rightarrow> bool" where
  "canonicalization_ok canon \<longleftrightarrow> truthy canon \<and> get canon ''hash_alg'' = str ''sha-256'' \<and> get canon ''jcs'' = str ''RFC8785'' \<and>
     map_of (entries canon) (ascii ''string_escaping'') = None"

definition pin_ok :: "cval \<Rightarrow> bool" where
  "pin_ok pin \<longleftrightarrow> truthy pin \<and> (case get pin ''hash'' of CStr s \<Rightarrow> lower_hex16 64 s | _ \<Rightarrow> False) \<and>
     \<not> nullish (get pin ''version'') \<and> \<not> nullish (get pin ''seq'')"

text \<open>The loop over the entries of a snapshot: only the hashes are looked at.\<close>

fun snapshot_fault :: "cval \<Rightarrow> cval list \<Rightarrow> fault option" where
  "snapshot_fault prev [] = None"
| "snapshot_fault prev (entry # es) =
     (if nullish entry then Some Threw
      else if or_null (get entry ''prev_hash'') \<noteq> prev then Some (Refused ''prev_hash_mismatch'')
      else case issuerHistoryEntryHash entry of
          None \<Rightarrow> Some Threw
        | Some h \<Rightarrow> if CStr h \<noteq> get entry ''entry_hash'' then Some (Refused ''entry_hash_mismatch'')
                    else snapshot_fault (get entry ''entry_hash'') es)"

datatype snapshot_verdict = Unchecked | Snapshot_ok text16 | Snapshot_bad string | Snapshot_threw

definition verifyHistorySnapshotClaims :: "cval \<Rightarrow> cval list option \<Rightarrow> snapshot_verdict" where
  "verifyHistorySnapshotClaims claims publishedEntries =
     (if \<not> claimsBindHistorySnapshot claims then Unchecked
      else (let snap = get claims ''issuer_history_snapshot''; pin = get claims ''issuer_history''
        in if \<not> truthy snap \<or> get snap ''schema'' \<noteq> str ''chit402.issuer_history_embed.v1'' then Snapshot_bad ''history_snapshot_missing''
           else case array_of (get snap ''entries'') of
               None \<Rightarrow> Snapshot_bad ''history_snapshot_missing''
             | Some es \<Rightarrow>
                 if \<not> canonicalization_ok (get claims ''canonicalization'') then Snapshot_bad ''canonicalization_mismatch''
                 else if \<not> pin_ok pin then Snapshot_bad ''issuer_history_pin_missing''
                 else if \<not> same_number (get pin ''version'') (get snap ''version'') \<or> \<not> same_number (get pin ''seq'') (get snap ''seq'')
                 then Snapshot_bad ''snapshot_pin_mismatch''
                 else case snapshot_fault CNull es of
                     Some (Refused r) \<Rightarrow> Snapshot_bad r
                   | Some Threw \<Rightarrow> Snapshot_threw
                   | None \<Rightarrow>
                       if get snap ''head_hash'' \<noteq> (if es = [] then CNull else get (last es) ''entry_hash'') then Snapshot_bad ''head_hash_mismatch''
                       else case historyEntriesSnapshotHash es of
                           None \<Rightarrow> Snapshot_threw
                         | Some computed \<Rightarrow>
                             if CStr computed \<noteq> get snap ''snapshot_hash'' then Snapshot_bad ''snapshot_hash_mismatch''
                             else if get pin ''hash'' \<noteq> get snap ''snapshot_hash'' then Snapshot_bad ''snapshot_pin_mismatch''
                             else case publishedEntries of
                                 None \<Rightarrow> Snapshot_ok computed
                               | Some ps \<Rightarrow>
                                   (case historyEntriesSnapshotHash ps of
                                      None \<Rightarrow> Snapshot_threw
                                    | Some published \<Rightarrow>
                                        if CStr published \<noteq> get pin ''hash'' then Snapshot_bad ''snapshot_pin_mismatch''
                                        else Snapshot_ok computed)))"

section \<open>The window is what the rows say\<close>

text \<open>A bound that is absent allows all times; \<open>P\<close> is a bound that later times keep, or for starts earlier ones.\<close>

definition holds :: "(rat \<Rightarrow> bool) \<Rightarrow> stamp option \<Rightarrow> bool" where
  "holds P acc = (case acc of None \<Rightarrow> True | Some (t, v) \<Rightarrow> P t)"

lemma holds_simps [simp]: "holds P None" "holds P (Some (t, v)) = P t"
  by (simp_all add: holds_def)

lemma holds_earlier:
  assumes "\<And>a b. a < b \<Longrightarrow> P a \<Longrightarrow> P b"
  shows "holds P (earlier acc t v) \<longleftrightarrow> holds P acc \<and> P t"
proof (cases acc)
  case (Some p)
  then show ?thesis using assms [of t "fst p"] assms [of "fst p" t]
    by (cases p; cases t "fst p" rule: linorder_cases) (auto simp: earlier_def)
qed (simp add: earlier_def)

definition meets :: "(text16 \<Rightarrow> int option) \<Rightarrow> (rat \<Rightarrow> bool) \<Rightarrow> cval \<Rightarrow> bool" where
  "meets dp P v \<longleftrightarrow> (\<exists>t. parseTime dp v = Some t \<and> P t)"

lemma meets_cases [simp]: "parseTime dp v = None \<Longrightarrow> \<not> meets dp P v" "parseTime dp v = Some t \<Longrightarrow> meets dp P v = P t"
  by (simp_all add: meets_def)

lemma end_holds:
  assumes "\<And>a b. a < b \<Longrightarrow> P a \<Longrightarrow> P b"
  shows "(\<exists>r. earliest_end dp acc rows = Some r \<and> holds P r) \<longleftrightarrow>
    holds P acc \<and> (\<forall>row\<in>set rows. blank (get row ''not_after'') \<or> meets dp P (get row ''not_after''))"
  by (induction rows arbitrary: acc) (auto simp: Let_def holds_earlier [OF assms] split: option.splits)

lemma revocation_holds:
  assumes "\<And>a b. a < b \<Longrightarrow> P a \<Longrightarrow> P b"
  shows "(\<exists>b r. revocation dp rv acc rows = Some (b, r) \<and> holds P r) \<longleftrightarrow>
    holds P acc \<and> (\<forall>row\<in>set rows. blank (get row ''revoked_at'') \<or> meets dp P (get row ''revoked_at''))"
  by (induction rows arbitrary: acc rv) (auto simp: Let_def holds_earlier [OF assms] split: option.splits)

lemma earlier_Some: "earlier acc t v \<noteq> None"
  by (auto simp: earlier_def split: option.splits)

lemma revocation_shape: "revocation dp rv acc rows = Some (b, r) \<Longrightarrow>
   (b \<longleftrightarrow> rv \<or> (\<exists>row\<in>set rows. get row ''status'' = str ''revoked'' \<or> \<not> blank (get row ''revoked_at''))) \<and>
   (r = None \<longleftrightarrow> acc = None \<and> (\<forall>row\<in>set rows. blank (get row ''revoked_at'')))"
proof (induction rows arbitrary: acc rv)
  case (Cons row rows)
  show ?case
  proof (cases "blank (get row ''revoked_at'')")
    case True
    with Cons.prems Cons.IH [of "rv \<or> get row ''status'' = str ''revoked''" acc] show ?thesis by auto
  next
    case False
    with Cons.prems obtain t where "parseTime dp (get row ''revoked_at'') = Some t"
      "revocation dp True (earlier acc t (get row ''revoked_at'')) rows = Some (b, r)" by (auto simp: Let_def split: option.splits)
    with False Cons.IH [of True "earlier acc t (get row ''revoked_at'')"] show ?thesis using earlier_Some by auto
  qed
qed auto

lemma start_holds:
  assumes "\<And>a b. a < b \<Longrightarrow> Q b \<Longrightarrow> Q a"
  shows "(\<exists>s. latest_start dp acc rows = Some s \<and> Q s) \<longleftrightarrow>
    (acc \<noteq> None \<or> rows \<noteq> []) \<and> (\<forall>m. acc = Some m \<longrightarrow> Q m) \<and> (\<forall>row\<in>set rows. meets dp Q (get row ''not_before''))"
proof (induction rows arbitrary: acc)
  case (Cons row rows)
  show ?case
  proof (cases "parseTime dp (get row ''not_before'')")
    case (Some t)
    then have "(\<exists>s. latest_start dp acc (row # rows) = Some s \<and> Q s) \<longleftrightarrow>
        Q (case acc of None \<Rightarrow> t | Some m \<Rightarrow> if m < t then t else m) \<and> (\<forall>row\<in>set rows. meets dp Q (get row ''not_before''))"
      using Cons by (auto split: option.splits)
    moreover have "Q (case acc of None \<Rightarrow> t | Some m \<Rightarrow> if m < t then t else m) \<longleftrightarrow> (\<forall>m. acc = Some m \<longrightarrow> Q m) \<and> Q t"
      using assms [of _ t] assms [of t] by (cases acc) (auto, metis linorder_neqE)
    ultimately show ?thesis using Some by auto
  qed auto
qed auto

text \<open>The rows of a key at one time, without an order.\<close>

definition row_allows :: "(text16 \<Rightarrow> int option) \<Rightarrow> cval \<Rightarrow> rat \<Rightarrow> bool" where
  "row_allows dp row i \<longleftrightarrow> meets dp (\<lambda>s. s \<le> i) (get row ''not_before'') \<and>
     (blank (get row ''not_after'') \<or> meets dp (\<lambda>e. i \<le> e) (get row ''not_after'')) \<and>
     (blank (get row ''revoked_at'') \<or> meets dp (\<lambda>r. i < r) (get row ''revoked_at''))"

definition stamped :: "cval list \<Rightarrow> bool" where
  "stamped rows \<longleftrightarrow> list_ex (\<lambda>row. get row ''status'' = str ''revoked'') rows \<longrightarrow> list_ex (\<lambda>row. \<not> blank (get row ''revoked_at'')) rows"

definition inside_window :: "window \<Rightarrow> bool" where
  "inside_window w = (case w of In_window s a \<Rightarrow> True | _ \<Rightarrow> False)"

lemma window_steps:
  assumes "array_of (get doc ''entries'') = Some es" "rows_of es kid = rows" "rows \<noteq> []"
  shows "inside_window (issuerKeyWindow dp doc kid t) \<longleftrightarrow>
    (\<exists>e b r i s. earliest_end dp None rows = Some e \<and> revocation dp False None rows = Some (b, r) \<and>
       (b \<longrightarrow> r \<noteq> None) \<and> parseTime dp t = Some i \<and> latest_start dp None rows = Some s \<and>
       s \<le> i \<and> holds (\<lambda>x. i \<le> x) e \<and> (b \<longrightarrow> holds (\<lambda>x. i < x) r))"
proof -
  have "truthy (get doc ''entries'')" using assms(1) by (auto simp: array_of_def truthy_def split: cval.splits)
  then have w: "issuerKeyWindow dp doc kid t =
     (case earliest_end dp None rows of
        None \<Rightarrow> Outside ''not_after_invalid''
      | Some e \<Rightarrow> (case revocation dp False None rows of
        None \<Rightarrow> Outside ''revoked_at_missing''
      | Some (b, r) \<Rightarrow> if b \<and> r = None then Outside ''revoked_at_missing'' else case parseTime dp t of
        None \<Rightarrow> Outside ''issued_at_missing''
      | Some i \<Rightarrow> (case latest_start dp None rows of
        None \<Rightarrow> Outside ''not_before_missing''
      | Some s \<Rightarrow> if i < s then Outside ''issued_before_not_before''
          else if (case e of Some (t, _) \<Rightarrow> t < i | None \<Rightarrow> False) then Outside ''issued_after_not_after''
          else if b \<and> (case r of Some (t, _) \<Rightarrow> t \<le> i | None \<Rightarrow> True) then Outside ''kid_revoked_before_issuance''
          else In_window (if b then str ''revoked'' else get (last rows) ''status'') (case e of Some (_, v) \<Rightarrow> v | None \<Rightarrow> CNull))))"
    using assms by (simp add: issuerKeyWindow_def Let_def)
  show ?thesis
  proof (cases "earliest_end dp None rows = None \<or> revocation dp False None rows = None \<or> parseTime dp t = None \<or> latest_start dp None rows = None")
    case True
    then show ?thesis unfolding w by (auto simp: inside_window_def split: option.splits if_splits)
  next
    case False
    then obtain e b r i s where f: "earliest_end dp None rows = Some e" "revocation dp False None rows = Some (b, r)"
      "parseTime dp t = Some i" "latest_start dp None rows = Some s" by fastforce
    have "inside_window (issuerKeyWindow dp doc kid t) \<longleftrightarrow>
        (b \<longrightarrow> r \<noteq> None) \<and> s \<le> i \<and> holds (\<lambda>x. i \<le> x) e \<and> (b \<longrightarrow> holds (\<lambda>x. i < x) r)"
      unfolding w f by (cases e; cases r; cases b) (simp_all add: inside_window_def split: prod.split)
    then show ?thesis using f by simp
  qed
qed

lemma window_iff:
  assumes "array_of (get doc ''entries'') = Some es"
  shows "inside_window (issuerKeyWindow dp doc kid t) \<longleftrightarrow> rows_of es kid \<noteq> [] \<and> stamped (rows_of es kid) \<and>
    (\<exists>i. parseTime dp t = Some i \<and> list_all (\<lambda>row. row_allows dp row i) (rows_of es kid))"
proof (cases "rows_of es kid = []")
  case True
  have "truthy (get doc ''entries'')" using assms by (auto simp: array_of_def truthy_def split: cval.splits)
  with True assms show ?thesis by (simp add: issuerKeyWindow_def inside_window_def)
next
  case False
  let ?rows = "rows_of es kid"
  have b: "(b \<longrightarrow> r \<noteq> None) \<longleftrightarrow> stamped ?rows" "b \<or> r = None" if "revocation dp False None ?rows = Some (b, r)" for b r
    using revocation_shape [OF that] by (auto simp: stamped_def list_ex_iff)
  have e: "(\<exists>e. earliest_end dp None ?rows = Some e \<and> holds (\<lambda>x. i \<le> x) e) \<longleftrightarrow>
      (\<forall>row\<in>set ?rows. blank (get row ''not_after'') \<or> meets dp (\<lambda>x. i \<le> x) (get row ''not_after''))" for i
    using end_holds [of "\<lambda>x. i \<le> x" dp None ?rows] by simp
  have r: "(\<exists>b r. revocation dp False None ?rows = Some (b, r) \<and> holds (\<lambda>x. i < x) r) \<longleftrightarrow>
      (\<forall>row\<in>set ?rows. blank (get row ''revoked_at'') \<or> meets dp (\<lambda>x. i < x) (get row ''revoked_at''))" for i
    using revocation_holds [of "\<lambda>x. i < x" dp False None ?rows] by simp
  have s: "(\<exists>s. latest_start dp None ?rows = Some s \<and> s \<le> i) \<longleftrightarrow> (\<forall>row\<in>set ?rows. meets dp (\<lambda>s. s \<le> i) (get row ''not_before''))" for i
    using start_holds [of "\<lambda>s. s \<le> i" dp None ?rows] False by simp
  have "inside_window (issuerKeyWindow dp doc kid t) \<longleftrightarrow> (\<exists>i. parseTime dp t = Some i \<and>
      (\<exists>e. earliest_end dp None ?rows = Some e \<and> holds (\<lambda>x. i \<le> x) e) \<and>
      (\<exists>b r. revocation dp False None ?rows = Some (b, r) \<and> holds (\<lambda>x. i < x) r) \<and> stamped ?rows \<and>
      (\<exists>s. latest_start dp None ?rows = Some s \<and> s \<le> i))"
  proof (cases "revocation dp False None ?rows")
    case (Some p)
    then obtain b' r' where "revocation dp False None ?rows = Some (b', r')" by (cases p) simp
    with b [OF this] show ?thesis unfolding window_steps [OF assms refl False] by auto
  qed (simp add: window_steps [OF assms refl False])
  also have "\<dots> \<longleftrightarrow> stamped ?rows \<and> (\<exists>i. parseTime dp t = Some i \<and> list_all (\<lambda>row. row_allows dp row i) ?rows)"
    unfolding e r s by (auto simp: row_allows_def list_all_iff)
  finally show ?thesis using False by simp
qed

text \<open>
  Property C17. A key may have signed at a time exactly when the document has a row for it and every row of the key
  allows the time: from its \<open>not_before\<close>, up to its \<open>not_after\<close> and before its \<open>revoked_at\<close>, where a row that is
  called revoked needs a time of revocation in some row. The order of the rows does not matter.
\<close>

theorem key_window_exact:
  assumes "array_of (get doc ''entries'') = Some es"
  shows "inside_window (issuerKeyWindow dp doc kid t) \<longleftrightarrow> rows_of es kid \<noteq> [] \<and> stamped (rows_of es kid) \<and>
    (\<exists>i. parseTime dp t = Some i \<and> list_all (\<lambda>row. row_allows dp row i) (rows_of es kid))"
  by (rule window_iff [OF assms])

text \<open>
  Entries that are added to a document narrow the time of a key and never widen it: a time that an
  earlier row excludes stays excluded, a revocation among them, whatever is appended.
\<close>

theorem extension_never_widens:
  assumes "array_of (get doc ''entries'') = Some es" "array_of (get doc' ''entries'') = Some (es @ added)"
    "row \<in> set (rows_of es kid)" "parseTime dp t = Some i" "\<not> row_allows dp row i"
  shows "\<not> inside_window (issuerKeyWindow dp doc kid t) \<and> \<not> inside_window (issuerKeyWindow dp doc' kid t)"
proof -
  have "row \<in> set (rows_of (es @ added) kid)" using assms(3) by (simp add: rows_of_def)
  with assms show ?thesis by (auto simp: window_iff [OF assms(1)] window_iff [OF assms(2)] list_all_iff)
qed

section \<open>What the hash of an entry says\<close>











section \<open>The head hash determines the chain\<close>

definition head_of :: "cval \<Rightarrow> cval list \<Rightarrow> cval" where
  "head_of p es = (if es = [] then p else get (last es) ''entry_hash'')"



lemma chain_snapshot: "chain_fault p es = None \<Longrightarrow> snapshot_fault p es = None"
  by (induction es arbitrary: p) (auto split: option.splits if_splits)



text \<open>What the verdict on a document rests on.\<close>

lemma verdict_facts:
  assumes "verifyIssuerHistory dp jws doc = Valid payload signer"
  shows "\<exists>es. array_of (get doc ''entries'') = Some es \<and> es \<noteq> [] \<and> chain_fault CNull es = None \<and>
    \<not> kidStatusRegression dp es \<and> \<not> inheritedKeyWindow dp es \<and> \<not> signedOnlyByIntroducedKey es signer \<and>
    jv_valid (jws (get (get doc ''issuer_signature'') ''jws'')) \<and>
    num_same (to_number (get payload ''entry_count'')) (JInt (int (length es))) \<and>
    get payload ''head_hash'' = head_of CNull es"
proof -
  obtain es where es: "array_of (get doc ''entries'') = Some es" "es \<noteq> []" "chain_fault CNull es = None"
  proof (cases "array_of (get doc ''entries'')")
    case None
    with assms show ?thesis by (simp add: verifyIssuerHistory_def split: if_splits)
  next
    case (Some es)
    with assms show ?thesis
      by (cases "chain_fault CNull es") (auto simp: verifyIssuerHistory_def that split: if_splits fault.splits)
  qed
  with assms show ?thesis by (simp add: verifyIssuerHistory_def Let_def head_of_def split: if_splits)
qed


section \<open>A chain that is built is accepted\<close>

lemma get_with_member [simp]: "get (with_member k v (CObj kvs)) k' = (if k = k' then v else get (CObj kvs) k')"
  by (simp add: with_member_def get_def lookup_def entries_def update_conv' ascii_inject)

lemma get_append: "get (CObj (xs @ ys)) k = (case map_of xs (ascii k) of Some v \<Rightarrow> v | None \<Rightarrow> get (CObj ys) k)"
  by (auto simp: get_def lookup_def map_add_def split: option.splits)

lemma either_again [simp]: "either (either a b) b = either a b"
  by (simp add: either_def)

lemma or_null_again [simp]: "or_null (or_null v) = or_null v"
  by (simp add: or_null_def nullish_def)

lemma public_again: "publicJwk (publicJwk j) = publicJwk j"
  by (simp add: publicJwk_def get_def lookup_def ascii_inject either_def truthy_def)

lemma lower_again: "lower_hex16 n h \<Longrightarrow> map lower_unit h = h"
proof -
  have "lower_unit u = u" if "(48 \<le> u \<and> u \<le> 57) \<or> (97 \<le> u \<and> u \<le> 102)" for u :: unit16
    using that by (auto simp: lower_unit_def word_le_nat_alt)
  then show "lower_hex16 n h \<Longrightarrow> map lower_unit h = h" by (auto simp: lower_hex16_def list_all_iff intro!: map_idI)
qed

lemma extra_get:
  "get (CObj (extra_members e)) ''custody'' = (case get e ''custody'' of CStr s \<Rightarrow> if s \<noteq> [] then CStr s else CUndefined | _ \<Rightarrow> CUndefined)"
  "get (CObj (extra_members e)) ''guardian_set_hash'' = (case guardianSetHashField e of Some h \<Rightarrow> CStr h | None \<Rightarrow> CUndefined)"
  "get (CObj (extra_members e)) ''retirement_block'' = (case retirementBlockField e of Some b \<Rightarrow> b | None \<Rightarrow> CUndefined)"
  by (auto simp: extra_members_def get_def lookup_def ascii_inject split: option.splits cval.splits)

lemma guardian_again: "guardianSetHashField e = Some h \<Longrightarrow> lower_hex16 64 h"
  by (auto simp: guardianSetHashField_def Let_def split: cval.splits if_splits)

lemma block_again:
  assumes "retirementBlockField e = Some b"
  shows "(\<exists>t. b = CNum (Finite t) \<and> whole_text t) \<or> b = CNum Negative_zero"
proof (cases "get e ''retirement_block''")
  case (CNum n)
  show ?thesis using assms unfolding retirementBlockField_def CNum by (cases n) (auto split: if_splits)
qed (use assms in \<open>simp_all add: retirementBlockField_def\<close>)

lemma extra_again:
  assumes "get x ''custody'' = get (CObj (extra_members e)) ''custody''"
    "get x ''guardian_set_hash'' = get (CObj (extra_members e)) ''guardian_set_hash''"
    "get x ''retirement_block'' = get (CObj (extra_members e)) ''retirement_block''"
  shows "extra_members x = extra_members e"
proof -
  have g: "guardianSetHashField x = guardianSetHashField e"
    unfolding guardianSetHashField_def [of x] assms(2) extra_get
    by (cases "guardianSetHashField e") (auto simp: Let_def lower_again dest!: guardian_again)
  have b: "retirementBlockField x = retirementBlockField e"
    unfolding retirementBlockField_def [of x] assms(3) extra_get
    by (cases "retirementBlockField e") (auto dest!: block_again)
  have c: "(case get x ''custody'' of CStr s \<Rightarrow> if s \<noteq> [] then [(ascii ''custody'', CStr s)] else [] | _ \<Rightarrow> []) =
      (case get e ''custody'' of CStr s \<Rightarrow> if s \<noteq> [] then [(ascii ''custody'', CStr s)] else [] | _ \<Rightarrow> [])"
    unfolding assms(1) extra_get by (cases "get e ''custody''") simp_all
  show ?thesis unfolding extra_members_def [of x] extra_members_def [of e] g b c ..
qed

lemma body_get:
  "get (issuerHistoryEntryBody e) ''kid'' = get e ''kid''"
  "get (issuerHistoryEntryBody e) ''jwk'' = publicJwk (get e ''jwk'')"
  "get (issuerHistoryEntryBody e) ''alg'' = either (get e ''alg'') (str ''ES256'')"
  "get (issuerHistoryEntryBody e) ''not_before'' = get e ''not_before''"
  "get (issuerHistoryEntryBody e) ''not_after'' = or_null (get e ''not_after'')"
  "get (issuerHistoryEntryBody e) ''status'' = get e ''status''"
  "get (issuerHistoryEntryBody e) ''revoked_at'' = or_null (get e ''revoked_at'')"
  "get (issuerHistoryEntryBody e) ''reason'' = or_null (get e ''reason'')"
  "get (issuerHistoryEntryBody e) ''prev_hash'' = or_null (get e ''prev_hash'')"
  "get (issuerHistoryEntryBody e) ''custody'' = get (CObj (extra_members e)) ''custody''"
  "get (issuerHistoryEntryBody e) ''guardian_set_hash'' = get (CObj (extra_members e)) ''guardian_set_hash''"
  "get (issuerHistoryEntryBody e) ''retirement_block'' = get (CObj (extra_members e)) ''retirement_block''"
  by (simp_all add: issuerHistoryEntryBody_def get_append ascii_inject del: append_Cons)

lemma body_object: "\<exists>kvs. issuerHistoryEntryBody e = CObj kvs"
  by (simp add: issuerHistoryEntryBody_def)

lemma body_get_other: "get (with_member ''entry_hash'' h (issuerHistoryEntryBody e)) k =
    (if k = ''entry_hash'' then h else get (issuerHistoryEntryBody e) k)"
  using body_object [of e] by auto

lemma body_again: "issuerHistoryEntryBody (with_member ''entry_hash'' h (issuerHistoryEntryBody e)) = issuerHistoryEntryBody e"
proof -
  let ?x = "with_member ''entry_hash'' h (issuerHistoryEntryBody e)"
  have "extra_members ?x = extra_members e" by (rule extra_again) (simp_all add: body_get_other body_get)
  then show ?thesis unfolding issuerHistoryEntryBody_def [of ?x] body_get_other body_get
    by (simp add: public_again issuerHistoryEntryBody_def [of e])
qed

lemma body_hash_again: "issuerHistoryEntryHash (issuerHistoryEntryBody e) = issuerHistoryEntryHash e"
proof -
  have "issuerHistoryEntryBody (issuerHistoryEntryBody e) = issuerHistoryEntryBody e"
    unfolding issuerHistoryEntryBody_def [of "issuerHistoryEntryBody e"] body_get extra_again [OF body_get(10-12)]
    by (simp add: public_again issuerHistoryEntryBody_def [of e])
  then show ?thesis by (simp add: issuerHistoryEntryHash_def)
qed

text \<open>A row that the loop of the check accepts once it is chained.\<close>

definition row_complete :: "cval \<Rightarrow> bool" where
  "row_complete raw \<longleftrightarrow> truthy (get raw ''kid'') \<and> get (get raw ''jwk'') ''kty'' = str ''EC'' \<and>
     either (get raw ''alg'') (str ''ES256'') = str ''ES256'' \<and> get raw ''status'' \<in> set key_statuses \<and> (\<exists>kvs. raw = CObj kvs)"

lemma chained_row:
  assumes "row_complete raw" "issuerHistoryEntryHash (issuerHistoryEntryBody (with_member ''prev_hash'' (prev_value prev) raw)) = Some h"
  shows "chain_fault (prev_value prev) (with_member ''entry_hash'' (CStr h) (issuerHistoryEntryBody (with_member ''prev_hash'' (prev_value prev) raw)) # es)
    = chain_fault (CStr h) es"
proof -
  let ?p = "with_member ''prev_hash'' (prev_value prev) raw"
  let ?e = "with_member ''entry_hash'' (CStr h) (issuerHistoryEntryBody ?p)"
  obtain kvs where raw: "raw = CObj kvs" using assms(1) by (auto simp: row_complete_def)
  have "issuerHistoryEntryHash ?e = Some h"
    using assms(2) unfolding body_hash_again by (simp only: issuerHistoryEntryHash_def body_again)
  moreover have "\<not> nullish ?e" by (simp add: nullish_def with_member_def)
  moreover have "or_null (get ?e ''prev_hash'') = prev_value prev" "get ?e ''entry_hash'' = CStr h"
    using raw by (cases prev; simp add: body_get_other body_get or_null_def nullish_def)+
  moreover have "truthy (get ?e ''kid'')" "truthy (get ?e ''jwk'')" "get ?e ''alg'' = str ''ES256''" "get ?e ''status'' \<in> set key_statuses"
    using assms(1) raw by (auto simp: row_complete_def body_get_other body_get publicJwk_def truthy_def)
  ultimately show ?thesis by simp
qed

lemma chain_from_accepted:
  "chainFrom prev raws = Some es \<Longrightarrow> list_all row_complete raws \<Longrightarrow> chain_fault (prev_value prev) es = None \<and> length es = length raws"
proof (induction prev raws arbitrary: es rule: chainFrom.induct)
  case (2 prev raw raws)
  then obtain h ds where h: "issuerHistoryEntryHash (issuerHistoryEntryBody (with_member ''prev_hash'' (prev_value prev) raw)) = Some h"
    "chainFrom (Some h) raws = Some ds"
    "es = with_member ''entry_hash'' (CStr h) (issuerHistoryEntryBody (with_member ''prev_hash'' (prev_value prev) raw)) # ds"
    by (auto simp: Let_def split: option.splits)
  with 2 chained_row [OF _ h(1), of ds] show ?case by (simp del: chain_fault.simps)
qed simp

text \<open>
  The chain that is built from complete rows passes the loop of the check, with one entry for each row:
  hashing an entry again, with its hash attached and the fields normalised, gives the same hash.
\<close>

theorem built_chain_accepted:
  assumes "chainEntries raws = Some es" "list_all row_complete raws"
  shows "chain_fault CNull es = None \<and> length es = length raws"
  using chain_from_accepted [of None raws es] assms by (simp add: chainEntries_def)

section \<open>What a snapshot pins\<close>

lemma snapshot_facts:
  assumes "verifyHistorySnapshotClaims claims published = Snapshot_ok h"
  shows "\<exists>es. array_of (get (get claims ''issuer_history_snapshot'') ''entries'') = Some es \<and> snapshot_fault CNull es = None \<and>
    historyEntriesSnapshotHash es = Some h \<and> get (get claims ''issuer_history'') ''hash'' = CStr h \<and>
    (\<forall>ps. published = Some ps \<longrightarrow> historyEntriesSnapshotHash ps = Some h)"
proof -
  let ?snap = "get claims ''issuer_history_snapshot''"
  obtain es where es: "array_of (get ?snap ''entries'') = Some es" "snapshot_fault CNull es = None"
  proof (cases "array_of (get ?snap ''entries'')")
    case None
    with assms show ?thesis by (simp add: verifyHistorySnapshotClaims_def Let_def split: if_splits)
  next
    case (Some es)
    with assms show ?thesis
      by (cases "snapshot_fault CNull es") (auto simp: verifyHistorySnapshotClaims_def Let_def that split: if_splits fault.splits)
  qed
  obtain c where c: "historyEntriesSnapshotHash es = Some c"
    using assms es by (cases "historyEntriesSnapshotHash es") (simp_all add: verifyHistorySnapshotClaims_def Let_def split: if_splits)
  have k: "CStr c = get ?snap ''snapshot_hash''" "get (get claims ''issuer_history'') ''hash'' = get ?snap ''snapshot_hash''"
    using assms es c by (simp_all add: verifyHistorySnapshotClaims_def Let_def split: if_splits)
  have p: "historyEntriesSnapshotHash ps = Some c" if "published = Some ps" for ps
    using assms es c k that
    by (cases "historyEntriesSnapshotHash ps"; simp add: verifyHistorySnapshotClaims_def Let_def split: if_splits) (metis cval.inject(3))+
  have "h = c" using assms es c
    by (simp add: verifyHistorySnapshotClaims_def Let_def split: if_splits option.splits)
  with es c k p show ?thesis by auto
qed

definition embedded :: "cval list \<Rightarrow> cval" where
  "embedded es = CArr (map historyEmbedEntry es)"

text \<open>
  Property C31. A receipt that carries a snapshot of the key history carries the published one: when the claims are
  accepted against published entries, the entries in the receipt are, field by field as JSON, those that were published, unless
  the two canonical texts are a collision of SHA-256.
\<close>

theorem snapshot_pins_published:
  assumes "verifyHistorySnapshotClaims claims (Some ps) = Snapshot_ok h"
    "array_of (get (get claims ''issuer_history_snapshot'') ''entries'') = Some es"
    "numbers_ok (embedded es)" "numbers_ok (embedded ps)"
  shows "json_of (embedded es) = json_of (embedded ps) \<or>
    (\<exists>t u. jcsRfc8785 (embedded es) = Some t \<and> jcsRfc8785 (embedded ps) = Some u \<and> sha_collision (utf8 t) (utf8 u))"
proof -
  obtain t u where t: "jcsRfc8785 (embedded es) = Some t" "jcsRfc8785 (embedded ps) = Some u" "sha256Hex t = h" "sha256Hex u = h"
    using snapshot_facts [OF assms(1)] assms(2) by (auto simp: historyEntriesSnapshotHash_def embedded_def split: if_splits)
  then have "sha256Hex t = sha256Hex u" by simp
  then have "sha256 (utf8 t) = sha256 (utf8 u)" by (simp add: sha256Hex_def ascii_inject to_hex_inject)
  with rfc8785_digest_binds [OF assms(3,4) t(1,2)] t show ?thesis by blast
qed

section \<open>Keys that are revoked or retired\<close>

text \<open>In a document that is accepted a revoked entry is the last of its key, and a retired key is never active again.\<close>

lemma regressed_prior:
  assumes "\<not> regressed dp prior es" "map_of prior kid = Some (s, nb)" "e \<in> set es" "get e ''kid'' = kid"
  shows "s \<noteq> str ''revoked''"
  using assms
proof (induction es arbitrary: prior s nb)
  case (Cons a es)
  show ?case
  proof (cases "get a ''kid'' = kid")
    case True
    with Cons.prems show ?thesis by auto
  next
    case False
    with Cons.prems have "map_of (AList.update (get a ''kid'') (get a ''status'', get a ''not_before'') prior) kid = Some (s, nb)"
      by (simp add: update_conv')
    with Cons.IH [OF _ this] Cons.prems False show ?thesis by auto
  qed
qed simp

lemma revoked_last:
  "\<not> regressed dp prior (xs @ e # ys) \<Longrightarrow> get e ''status'' = str ''revoked'' \<Longrightarrow> d \<in> set ys \<Longrightarrow> get d ''kid'' \<noteq> get e ''kid''"
proof (induction xs arbitrary: prior)
  case Nil
  then have "\<not> regressed dp (AList.update (get e ''kid'') (get e ''status'', get e ''not_before'') prior) ys" by simp
  from regressed_prior [OF this, of "get e ''kid''" "get e ''status''" "get e ''not_before''" d] Nil.prems
  show ?case by (auto simp: update_conv')
next
  case (Cons a xs)
  then have "\<not> regressed dp (AList.update (get a ''kid'') (get a ''status'', get a ''not_before'') prior) (xs @ e # ys)" by simp
  from Cons.IH [OF this] Cons.prems show ?case by simp
qed

text \<open>
  Revocation is final in a history that is accepted: no entry after a revoked one names the same key, so a
  document that activates the key again, or changes its window, is refused.
\<close>

theorem revoked_key_ends:
  assumes "verifyIssuerHistory dp jws doc = Valid payload signer" "array_of (get doc ''entries'') = Some (xs @ e # ys)"
    "get e ''status'' = str ''revoked''"
  shows "\<forall>d\<in>set ys. get d ''kid'' \<noteq> get e ''kid''"
  using verdict_facts [OF assms(1)] assms(2) revoked_last [of dp "[]" xs e ys, OF _ assms(3)]
  by (auto simp: kidStatusRegression_def)

section \<open>A small history\<close>

text \<open>A key with a start, a row that retires it, and a time of revocation; times are numbers of seconds.\<close>

definition seconds :: "string \<Rightarrow> cval" where
  "seconds s = CNum (Finite (ascii s))"

definition key_row :: "string \<Rightarrow> string \<Rightarrow> cval \<Rightarrow> cval" where
  "key_row kid status revoked = CObj [(ascii ''kid'', str kid), (ascii ''jwk'', CObj [(ascii ''kty'', str ''EC'')]),
     (ascii ''not_before'', seconds ''1000''), (ascii ''status'', str status), (ascii ''revoked_at'', revoked)]"

definition key_doc :: "cval list \<Rightarrow> cval" where
  "key_doc es = CObj [(ascii ''entries'', CArr es)]"

lemma second_digits:
  "plain (ascii ''1000'') = Some ''1000''" "decimal_literal ''1000'' = Some (1000, 0)"
  "plain (ascii ''1500'') = Some ''1500''" "decimal_literal ''1500'' = Some (1500, 0)"
  "plain (ascii ''2000'') = Some ''2000''" "decimal_literal ''2000'' = Some (2000, 0)"
  "plain (ascii ''2500'') = Some ''2500''" "decimal_literal ''2500'' = Some (2500, 0)"
  by code_simp+

lemma second_times:
  "parseTime dp (seconds ''1000'') = Some 1000000" "parseTime dp (seconds ''1500'') = Some 1500000"
  "parseTime dp (seconds ''2000'') = Some 2000000" "parseTime dp (seconds ''2500'') = Some 2500000"
  by (simp_all add: parseTime_def seconds_def nullish_def number_value_def second_digits)

lemma key_row_get:
  "get (key_row k s r) ''kid'' = str k" "get (key_row k s r) ''status'' = str s" "get (key_row k s r) ''not_before'' = seconds ''1000''"
  "get (key_row k s r) ''not_after'' = CUndefined" "get (key_row k s r) ''revoked_at'' = r" "truthy (key_row k s r)"
  by (simp_all add: key_row_def get_def lookup_def ascii_inject truthy_def)

lemma key_doc_entries: "array_of (get (key_doc es) ''entries'') = Some es"
  by (simp add: key_doc_def get_def lookup_def array_of_def)

lemma blank_simps: "\<not> blank (seconds s)" "blank CNull" "blank CUndefined"
  by (simp_all add: blank_def nullish_def seconds_def)

theorem key_window_exact_witness:
  "inside_window (issuerKeyWindow (\<lambda>t. None) (key_doc [key_row ''k'' ''active'' CNull]) (str ''k'') (seconds ''1500'')) \<and>
   \<not> inside_window (issuerKeyWindow (\<lambda>t. None)
       (key_doc [key_row ''k'' ''active'' CNull, key_row ''k'' ''revoked'' (seconds ''2000'')]) (str ''k'') (seconds ''2500''))"
  unfolding key_window_exact [OF key_doc_entries]
  by (simp add: rows_of_def key_row_get second_times stamped_def row_allows_def blank_simps meets_def ascii_inject)

theorem extension_never_widens_witness:
  "\<not> inside_window (issuerKeyWindow (\<lambda>t. None)
       (key_doc ([key_row ''k'' ''revoked'' (seconds ''2000'')] @ [key_row ''k'' ''active'' CNull])) (str ''k'') (seconds ''2500''))"
proof -
  let ?r = "key_row ''k'' ''revoked'' (seconds ''2000'')"
  have "?r \<in> set (rows_of [?r] (str ''k''))" by (simp add: rows_of_def key_row_get)
  moreover have "\<not> row_allows (\<lambda>t. None) ?r 2500000"
    by (simp add: row_allows_def key_row_get second_times meets_def blank_simps)
  ultimately show ?thesis using extension_never_widens [OF key_doc_entries key_doc_entries _ second_times(4)] by blast
qed

text \<open>The row as a chain of one entry, and a document around it; the digest stays symbolic.\<close>

definition first_raw :: cval where
  "first_raw = key_row ''k'' ''active'' CNull"

definition first_body :: cval where
  "first_body = issuerHistoryEntryBody (with_member ''prev_hash'' CNull first_raw)"

lemma first_body_text: "jcsCanonicalize first_body = Some (ascii
    ''{\"alg\":\"ES256\",\"jwk\":{\"alg\":\"ES256\",\"kty\":\"EC\",\"use\":\"sig\"},\"kid\":\"k\",\"not_after\":null,\"not_before\":1000,\"prev_hash\":null,\"reason\":null,\"revoked_at\":null,\"status\":\"active\"}'')"
  by code_simp

definition first_text :: text16 where
  "first_text = the (jcsCanonicalize first_body)"

definition first_entry :: cval where
  "first_entry = with_member ''entry_hash'' (CStr (sha256Hex first_text)) first_body"

lemma first_hash: "issuerHistoryEntryHash first_body = Some (sha256Hex first_text)"
  using first_body_text by (simp add: first_text_def first_body_def body_hash_again)
    (simp add: issuerHistoryEntryHash_def)

lemma first_chain: "chainEntries [first_raw] = Some [first_entry]"
  using first_hash by (simp add: chainEntries_def first_body_def first_entry_def Let_def)

lemma first_raw_complete: "row_complete first_raw"
  by (simp add: row_complete_def first_raw_def key_row_get)
    (simp add: key_row_def get_def lookup_def truthy_def either_def key_statuses_def ascii_def)

theorem built_chain_accepted_witness: "chain_fault CNull [first_entry] = None \<and> length [first_entry] = length [first_raw]"
  by (rule built_chain_accepted [OF first_chain]) (simp add: first_raw_complete)


definition signed_claims :: "string \<Rightarrow> text16 \<Rightarrow> cval" where
  "signed_claims n h = CObj [(ascii ''schema'', str ''chit402.issuer_history.v1''), (ascii ''entry_count'', seconds n), (ascii ''head_hash'', CStr h)]"

definition signed_verdict :: "cval \<Rightarrow> jws_verdict" where
  "signed_verdict payload = \<lparr>jv_valid = True, jv_reason = [], jv_payload = payload, jv_kid = str ''k''\<rparr>"

definition signed_doc :: "text16 \<Rightarrow> cval list \<Rightarrow> cval" where
  "signed_doc h es = CObj [(ascii ''schema'', str ''chit402.issuer_history.v1''), (ascii ''entries'', CArr es),
     (ascii ''head_hash'', CStr h), (ascii ''issuer_signature'', CObj [(ascii ''jws'', str ''j'')])]"







lemma signed_accepted:
  assumes "chain_fault CNull es = None" "es \<noteq> []" "get (last es) ''entry_hash'' = CStr h"
    "num_same (to_number (seconds n)) (JInt (int (length es)))"
    "\<not> kidStatusRegression dp es" "\<not> inheritedKeyWindow dp es" "\<not> signedOnlyByIntroducedKey es (str ''k'')"
  shows "verifyIssuerHistory dp (\<lambda>j. signed_verdict (signed_claims n h)) (signed_doc h es) = Valid (signed_claims n h) (str ''k'')"
proof -
  have d: "truthy (signed_doc h es) = True" by (simp add: signed_doc_def truthy_def)
  have g: "get (signed_doc h es) ''schema'' = str ''chit402.issuer_history.v1''" "get (signed_doc h es) ''entries'' = CArr es"
    "get (signed_doc h es) ''head_hash'' = CStr h" "get (get (signed_doc h es) ''issuer_signature'') ''jws'' = str ''j''"
    by (simp_all add: signed_doc_def get_def lookup_def ascii_inject)
  have c: "get (signed_claims n h) ''schema'' = str ''chit402.issuer_history.v1''" "get (signed_claims n h) ''entry_count'' = seconds n"
    "get (signed_claims n h) ''head_hash'' = CStr h" "get (signed_claims n h) ''issuer_root'' = CUndefined"
    "get (signed_claims n h) ''version'' = CUndefined" "get (signed_claims n h) ''seq'' = CUndefined" "truthy (signed_claims n h)"
    by (simp_all add: signed_claims_def get_def lookup_def ascii_inject) (simp add: truthy_def)
  have k: "truthy (str ''j'')" "truthy (str ''k'')" "\<not> truthy CUndefined" by (simp_all add: truthy_def ascii_def)
  show ?thesis unfolding verifyIssuerHistory_def Let_def g d
    by (simp add: array_of_def assms signed_verdict_def either_def c k root_kid_fault_def nullish_def del: chain_fault.simps)
qed





section \<open>A history of two keys and a receipt that carries it\<close>

text \<open>Values that both canonicalizers print.\<close>

fun printable :: "cval \<Rightarrow> bool" where
  "printable (CNum n) = (case n of Finite t \<Rightarrow> True | Negative_zero \<Rightarrow> True | _ \<Rightarrow> False)"
| "printable (CStr s) = assertWellFormedUtf16 s"
| "printable (CArr vs) = list_all printable vs"
| "printable (CObj kvs) = list_all (\<lambda>(k, v). assertWellFormedUtf16 k \<and> printable v) kvs"
| "printable COther = False"
| "printable v = True"

lemma those_printed: "(\<And>x. x \<in> set xs \<Longrightarrow> f x \<noteq> None) \<Longrightarrow> those (map f xs) \<noteq> None"
  by (induction xs) (auto split: option.splits)

lemma canonical_printable: "printable v \<Longrightarrow> \<forall>s. assertWellFormedUtf16 s \<longrightarrow> w s \<noteq> None \<Longrightarrow> canonical w v \<noteq> None"
proof (induction w v rule: canonical.induct)
  case (4 w n)
  then show ?case by (cases n) auto
next
  case (6 w vs)
  then have "those (map (canonical w) vs) \<noteq> None" by (intro those_printed) (auto simp: list_all_iff)
  then show ?case by auto
next
  case (7 w kvs)
  have "those (map (\<lambda>(k, v). case w k of None \<Rightarrow> None | Some t \<Rightarrow> map_option (\<lambda>x. t @ 58 # x) (canonical w v)) (members kvs)) \<noteq> None"
  proof (rule those_printed)
    fix p assume p: "p \<in> set (members kvs)"
    then have k: "assertWellFormedUtf16 (fst p)" "printable (snd p)" using 7(2) members_subset by (fastforce simp: list_all_iff)+
    then obtain t where t: "w (fst p) = Some t" using 7(3) by blast
    from 7(1) [OF p _ t k(2) 7(3)] t show "(case p of (k, v) \<Rightarrow> case w k of None \<Rightarrow> None | Some t \<Rightarrow> map_option (\<lambda>x. t @ 58 # x) (canonical w v)) \<noteq> None"
      by (cases p) auto
  qed
  then show ?case by auto
qed auto

lemma printable_texts: "printable v \<Longrightarrow> jcsCanonicalize v \<noteq> None \<and> jcsRfc8785 v \<noteq> None"
  unfolding jcsCanonicalize_def jcsRfc8785_def using canonical_printable [of v]
  by (auto simp: jcsString_def rfc8785String_def)

lemma ascii_well_formed: "assertWellFormedUtf16 (ascii s)"
proof (rule plain_units, unfold list_all_iff, intro ballI)
  fix c assume "c \<in> set (ascii s)"
  then have "unat c < 256" by (auto simp: ascii_def unat_of_nat intro: le_less_trans [OF mod_less_eq_dividend nat_of_char_less_256])
  then show "\<not> high_surrogate c \<and> \<not> low_surrogate c"
    by (simp add: high_surrogate_def low_surrogate_def word_le_nat_alt)
qed

lemma hash_well_formed: "assertWellFormedUtf16 (sha256Hex t)"
  by (simp add: sha256Hex_def ascii_well_formed)

definition revoked_raw :: cval where
  "revoked_raw = key_row ''k'' ''revoked'' (seconds ''2000'')"

definition second_raw :: cval where
  "second_raw = CObj [(ascii ''kid'', str ''m''), (ascii ''jwk'', CObj [(ascii ''kty'', str ''EC'')]),
     (ascii ''not_before'', seconds ''1500''), (ascii ''status'', str ''active'')]"

lemmas entry_unfold = issuerHistoryEntryBody_def with_member_def entries_def get_def lookup_def extra_members_def guardianSetHashField_def
  retirementBlockField_def publicJwk_def either_def truthy_def or_null_def nullish_def seconds_def ascii_inject

lemma two_rows_printable:
  "printable (issuerHistoryEntryBody (with_member ''prev_hash'' CNull revoked_raw))"
  "printable (issuerHistoryEntryBody (with_member ''prev_hash'' (CStr (sha256Hex t)) second_raw))"
  by (simp_all add: revoked_raw_def second_raw_def key_row_def entry_unfold ascii_well_formed hash_well_formed)

lemma hash_exists: "printable (issuerHistoryEntryBody x) \<Longrightarrow> \<exists>t. issuerHistoryEntryHash (issuerHistoryEntryBody x) = Some (sha256Hex t)"
  unfolding body_hash_again using printable_texts [of "issuerHistoryEntryBody x"] by (auto simp: issuerHistoryEntryHash_def)

lemma rows_complete: "row_complete revoked_raw" "row_complete second_raw"
  by (simp_all add: row_complete_def revoked_raw_def second_raw_def key_row_def get_def lookup_def truthy_def either_def key_statuses_def ascii_inject)
    (simp_all add: ascii_def)

lemma row_gets:
  "get revoked_raw ''kid'' = str ''k''" "get revoked_raw ''status'' = str ''revoked''" "get revoked_raw ''not_before'' = seconds ''1000''"
  "get second_raw ''kid'' = str ''m''" "get second_raw ''not_before'' = seconds ''1500''"
  by (simp_all add: revoked_raw_def second_raw_def key_row_def get_def lookup_def ascii_inject)

lemma raw_object: "\<exists>kvs. revoked_raw = CObj kvs" "\<exists>kvs. second_raw = CObj kvs"
  by (simp_all add: revoked_raw_def second_raw_def key_row_def)

text \<open>The chain of the two rows, with what the rules look at.\<close>

definition two_entries :: "cval \<Rightarrow> cval \<Rightarrow> bool" where
  "two_entries e d \<longleftrightarrow> chain_fault CNull [e, d] = None \<and> get e ''kid'' = str ''k'' \<and> get d ''kid'' = str ''m'' \<and>
     get e ''status'' = str ''revoked'' \<and> get e ''not_before'' = seconds ''1000'' \<and> get d ''not_before'' = seconds ''1500'' \<and>
     (\<exists>h. get d ''entry_hash'' = CStr (sha256Hex h)) \<and> printable (embedded [e, d]) \<and> numbers_ok (embedded [e, d])"

lemma embedded_printable:
  assumes "printable (issuerHistoryEntryBody x)"
  shows "printable (historyEmbedEntry (with_member ''entry_hash'' (CStr (sha256Hex t)) (issuerHistoryEntryBody x)))"
proof -
  let ?e = "with_member ''entry_hash'' (CStr (sha256Hex t)) (issuerHistoryEntryBody x)"
  have m: "extra_members ?e = extra_members x" by (rule extra_again) (simp_all add: body_get_other body_get)
  have "list_all (\<lambda>(k, v). assertWellFormedUtf16 k \<and> printable v) (extra_members x)"
    using assms by (simp add: issuerHistoryEntryBody_def)
  with assms show ?thesis unfolding historyEmbedEntry_def m
    by (simp add: body_get_other body_get hash_well_formed ascii_well_formed) (simp add: issuerHistoryEntryBody_def)
qed

lemma embedded_numbers:
  assumes "numbers_ok (issuerHistoryEntryBody x)"
  shows "numbers_ok (historyEmbedEntry (with_member ''entry_hash'' h (issuerHistoryEntryBody x))) \<or> \<not> numbers_ok h"
proof -
  let ?e = "with_member ''entry_hash'' h (issuerHistoryEntryBody x)"
  have m: "extra_members ?e = extra_members x" by (rule extra_again) (simp_all add: body_get_other body_get)
  show ?thesis using assms unfolding historyEmbedEntry_def m
    by (simp add: body_get_other body_get) (simp add: issuerHistoryEntryBody_def)
qed

lemma two_rows_numbers:
  "numbers_ok (issuerHistoryEntryBody (with_member ''prev_hash'' CNull revoked_raw))"
  "numbers_ok (issuerHistoryEntryBody (with_member ''prev_hash'' (CStr h) second_raw))"
  by (simp_all add: revoked_raw_def second_raw_def key_row_def entry_unfold) (simp_all add: ascii_def number_units_def)

lemma two_rows_chain: "\<exists>e d. two_entries e d"
proof -
  let ?b = "with_member ''prev_hash'' CNull revoked_raw"
  obtain h where h: "issuerHistoryEntryHash (issuerHistoryEntryBody ?b) = Some (sha256Hex h)"
    using hash_exists [OF two_rows_printable(1)] by blast
  let ?c = "with_member ''prev_hash'' (CStr (sha256Hex h)) second_raw"
  obtain g where g: "issuerHistoryEntryHash (issuerHistoryEntryBody ?c) = Some (sha256Hex g)"
    using hash_exists [OF two_rows_printable(2) [of h]] by blast
  let ?e = "with_member ''entry_hash'' (CStr (sha256Hex h)) (issuerHistoryEntryBody ?b)"
  let ?d = "with_member ''entry_hash'' (CStr (sha256Hex g)) (issuerHistoryEntryBody ?c)"
  obtain kvs kws where o: "revoked_raw = CObj kvs" "second_raw = CObj kws" using raw_object by blast
  have "chainFrom None [revoked_raw, second_raw] = Some [?e, ?d]" by (simp add: Let_def h g)
  then have "chain_fault CNull [?e, ?d] = None" using chain_from_accepted [of None] rows_complete by fastforce
  moreover have "printable (embedded [?e, ?d])"
    using embedded_printable two_rows_printable by (simp add: embedded_def)
  moreover have "numbers_ok (embedded [?e, ?d])"
    using embedded_numbers two_rows_numbers by (fastforce simp: embedded_def)
  ultimately have "two_entries ?e ?d" unfolding two_entries_def using row_gets
    by (auto simp: body_get_other body_get o simp del: chain_fault.simps)
  then show ?thesis by blast
qed

lemma two_entries_numbers: "two_entries e d \<Longrightarrow> \<not> kidStatusRegression dp [e, d] \<and> \<not> inheritedKeyWindow dp [e, d] \<and> \<not> signedOnlyByIntroducedKey [e, d] (str ''k'')"
  by (simp add: two_entries_def kidStatusRegression_def inheritedKeyWindow_def signedOnlyByIntroducedKey_def Let_def second_times ascii_inject)

lemma two_accepted: "two_entries e d \<Longrightarrow> \<exists>h. verifyIssuerHistory dp (\<lambda>j. signed_verdict (signed_claims ''2'' h)) (signed_doc h [e, d])
    = Valid (signed_claims ''2'' h) (str ''k'')"
proof -
  assume t: "two_entries e d"
  have "num_same (to_number (seconds ''2'')) (JInt 2)" by code_simp
  then have n: "num_same (to_number (seconds ''2'')) (JInt (int (length [e, d])))" by simp
  from t obtain h where "get (last [e, d]) ''entry_hash'' = CStr (sha256Hex h)" by (auto simp: two_entries_def)
  from signed_accepted [OF _ _ this n] t two_entries_numbers [OF t] show ?thesis unfolding two_entries_def by blast
qed

theorem revoked_key_ends_witness:
  "\<exists>e d. get e ''status'' = str ''revoked'' \<and> (\<forall>x\<in>set [d]. get x ''kid'' \<noteq> get e ''kid'') \<and>
     (\<exists>h. array_of (get (signed_doc h [e, d]) ''entries'') = Some [e, d])"
proof -
  obtain e d where t: "two_entries e d" using two_rows_chain by blast
  obtain h where v: "verifyIssuerHistory (\<lambda>t. None) (\<lambda>j. signed_verdict (signed_claims ''2'' h)) (signed_doc h [e, d])
    = Valid (signed_claims ''2'' h) (str ''k'')" using two_accepted [OF t] by blast
  have a: "array_of (get (signed_doc h [e, d]) ''entries'') = Some ([] @ e # [d])"
    by (simp add: signed_doc_def get_def lookup_def ascii_inject array_of_def)
  have s: "get e ''status'' = str ''revoked''" using t by (simp add: two_entries_def)
  from revoked_key_ends [OF v a s] s a show ?thesis by auto
qed

text \<open>A receipt of the eleventh version that pins the two entries.\<close>

definition pinning :: "text16 \<Rightarrow> cval \<Rightarrow> cval list \<Rightarrow> cval" where
  "pinning s h es = CObj [(ascii ''payload_version'', seconds ''11''),
     (ascii ''canonicalization'', CObj [(ascii ''hash_alg'', str ''sha-256''), (ascii ''jcs'', str ''RFC8785'')]),
     (ascii ''issuer_history'', CObj [(ascii ''hash'', CStr s), (ascii ''version'', seconds ''1''), (ascii ''seq'', seconds ''1'')]),
     (ascii ''issuer_history_snapshot'', CObj [(ascii ''schema'', str ''chit402.issuer_history_embed.v1''), (ascii ''version'', seconds ''1''),
        (ascii ''seq'', seconds ''1''), (ascii ''entries'', CArr es), (ascii ''head_hash'', h), (ascii ''snapshot_hash'', CStr s)])]"

lemma hex_digits16: "lower_hex16 64 (sha256Hex t)"
proof -
  have "(48 \<le> u \<and> u \<le> 57) \<or> (97 \<le> u \<and> u \<le> 102)" if "hex_digit c \<noteq> None" "u = word_of_nat (of_char c)" for c and u :: unit16
  proof -
    have "unat u = of_char c" unfolding that(2) by (intro unit_value less_trans [OF nat_of_char_less_256]) simp
    with that(1) show ?thesis by (auto simp: hex_digit_def Let_def word_le_nat_alt split: if_splits)
  qed
  then show ?thesis using is_hex_to_hex [of "sha256 (utf8 t)"]
    by (auto simp: lower_hex16_def sha256Hex_def ascii_def list_all_iff is_hex_def)
qed

lemma pinning_accepted:
  assumes "snapshot_fault CNull es = None" "es \<noteq> []" "historyEntriesSnapshotHash es = Some (sha256Hex t)"
  shows "verifyHistorySnapshotClaims (pinning (sha256Hex t) (get (last es) ''entry_hash'') es) (Some es) = Snapshot_ok (sha256Hex t)"
proof -
  let ?c = "pinning (sha256Hex t) (get (last es) ''entry_hash'') es"
  let ?n = "get ?c ''issuer_history_snapshot''" and ?p = "get ?c ''issuer_history''"
  have v: "num_finite (to_number (seconds ''11'')) \<and> \<not> num_lt (to_number (seconds ''11'')) (JInt 11)"
    "num_same (to_number (seconds ''1'')) (to_number (seconds ''1''))" by code_simp+
  have g: "get ?c ''payload_version'' = seconds ''11''" "get ?c ''kind'' = CUndefined" "get ?c ''schema'' = CUndefined" "is_object ?c"
    "get ?c ''canonicalization'' = CObj [(ascii ''hash_alg'', str ''sha-256''), (ascii ''jcs'', str ''RFC8785'')]"
    "get ?p ''hash'' = CStr (sha256Hex t)" "get ?p ''version'' = seconds ''1''" "get ?p ''seq'' = seconds ''1''" "truthy ?p"
    "get ?n ''version'' = seconds ''1''" "get ?n ''seq'' = seconds ''1''" "get ?n ''entries'' = CArr es" "truthy ?n"
    "get ?n ''schema'' = str ''chit402.issuer_history_embed.v1''" "get ?n ''head_hash'' = get (last es) ''entry_hash''"
    "get ?n ''snapshot_hash'' = CStr (sha256Hex t)"
    by (simp_all add: pinning_def get_def lookup_def ascii_inject is_object_def truthy_def)
  have b: "claimsBindHistorySnapshot ?c" using v by (simp add: claimsBindHistorySnapshot_def Let_def g)
  have c: "canonicalization_ok (CObj [(ascii ''hash_alg'', str ''sha-256''), (ascii ''jcs'', str ''RFC8785'')])"
    by (simp add: canonicalization_ok_def truthy_def get_def lookup_def ascii_inject entries_def)
  have p: "pin_ok ?p" by (simp add: pin_ok_def g hex_digits16 nullish_def seconds_def)
  show ?thesis unfolding verifyHistorySnapshotClaims_def Let_def
    by (simp add: b c p g same_number_def v array_of_def assms)
qed

theorem snapshot_pins_published_witness:
  "\<exists>e d t. verifyHistorySnapshotClaims (pinning t (get d ''entry_hash'') [e, d]) (Some [e, d]) = Snapshot_ok t \<and> get e ''kid'' = str ''k'' \<and>
     (json_of (embedded [e, d]) = json_of (embedded [e, d]) \<or>
      (\<exists>t u. jcsRfc8785 (embedded [e, d]) = Some t \<and> jcsRfc8785 (embedded [e, d]) = Some u \<and> sha_collision (utf8 t) (utf8 u)))"
proof -
  obtain e d where t: "two_entries e d" using two_rows_chain by blast
  then obtain u where u: "jcsRfc8785 (embedded [e, d]) = Some u" using printable_texts unfolding two_entries_def by blast
  have c: "chain_fault CNull [e, d] = None" "numbers_ok (embedded [e, d])" "get e ''kid'' = str ''k''" using t by (simp_all only: two_entries_def)
  from chain_snapshot [OF c(1)] have s: "snapshot_fault CNull [e, d] = None" .
  then have "\<not> list_ex nullish [e, d]" by (auto split: if_splits option.splits)
  with u have "historyEntriesSnapshotHash [e, d] = Some (sha256Hex u)" by (simp add: historyEntriesSnapshotHash_def embedded_def)
  from pinning_accepted [OF s _ this] have v: "verifyHistorySnapshotClaims (pinning (sha256Hex u) (get d ''entry_hash'') [e, d]) (Some [e, d]) = Snapshot_ok (sha256Hex u)"
    by simp
  have "array_of (get (get (pinning (sha256Hex u) (get d ''entry_hash'') [e, d]) ''issuer_history_snapshot'') ''entries'') = Some [e, d]"
    by (simp add: pinning_def get_def lookup_def ascii_inject array_of_def)
  from snapshot_pins_published [OF v this c(2,2)] v c(3) show ?thesis by blast
qed

end
