(* ===== verification/Book_Policy.thy ===== *)
theory Book_Policy
  imports Js_Store Js_Values
begin

text \<open>
  services/gateway/src/book-policy.js: the rules a treasury sets on an agent's book, their file, the check of a
  spend and the approval of a session act. Times are milliseconds since 1970, or seconds for approvals; a stored
  date is its time. One clock value holds for one call. The file holds what the store wrote; \<open>wr\<close> says whether a write
  succeeds. \<open>offered\<close> is \<open>settlementProofEnabled\<close>. The sums of a period come from the ledger of receipts.
\<close>

section \<open>State\<close>

record cap =
  cp_limit :: int
  cp_reset :: int

record policy =
  pl_created :: int
  pl_updated :: "int option"
  pl_daily :: "cap option"
  pl_hourly :: "cap option"
  pl_models :: "string list option"
  pl_kill :: "bool option"
  pl_ref :: "bool option"
  pl_tier2 :: "int option"
  pl_ttl :: "int option"
  pl_risk :: "(string list \<times> string list) option"

record policy_store =
  bp_byAgent :: "(int, policy) jsmap"
  bp_persist :: bool
  bp_disk :: "(int, policy) jsmap option"

definition new_policy :: "int \<Rightarrow> policy" where
  "new_policy now = \<lparr>pl_created = now, pl_updated = None, pl_daily = None, pl_hourly = None, pl_models = None, pl_kill = None,
     pl_ref = None, pl_tier2 = None, pl_ttl = None, pl_risk = None\<rparr>"

definition policy_load :: "policy_store \<Rightarrow> policy_store" where
  "policy_load s = s\<lparr>bp_byAgent := (if bp_persist s then (case bp_disk s of None \<Rightarrow> [] | Some m \<Rightarrow> m) else [])\<rparr>"

text \<open>\<open>None\<close> when \<open>_save\<close> throws.\<close>

definition policy_save :: "bool \<Rightarrow> policy_store \<Rightarrow> policy_store option" where
  "policy_save wr s =
     (if \<not> bp_persist s then Some s
      else if wr then Some (s\<lparr>bp_disk := Some (bp_byAgent s)\<rparr>) else None)"

definition policy_get :: "policy_store \<Rightarrow> int \<Rightarrow> policy option" where
  "policy_get s i = jm_get (bp_byAgent s) i"

section \<open>Periods\<close>

definition hour_ms :: int where "hour_ms = 3600000"
definition day_ms :: int where "day_ms = 86400000"

definition nextMidnightUTC :: "int \<Rightarrow> int" where
  "nextMidnightUTC now = (now div day_ms + 1) * day_ms"

definition nextHourUTC :: "int \<Rightarrow> int" where
  "nextHourUTC now = (now div hour_ms + 1) * hour_ms"

definition currentHourStartUTC :: "int \<Rightarrow> int" where
  "currentHourStartUTC now = now div hour_ms * hour_ms"

definition currentDayStartUTC :: "int \<Rightarrow> int" where
  "currentDayStartUTC now = now div day_ms * day_ms"

section \<open>Setting a rule\<close>

definition POLICY_TYPES :: "string list" where
  "POLICY_TYPES = [''daily_cap'', ''hourly_cap'', ''model_allowlist'', ''kill_switch'', ''require_payment_ref'',
     ''tier2_above'', ''approval_ttl'', ''risk_tiers'']"

definition APPROVAL_TTL_SEC_MIN :: int where "APPROVAL_TTL_SEC_MIN = 60"
definition APPROVAL_TTL_SEC_MAX :: int where "APPROVAL_TTL_SEC_MAX = 604800"

definition clampApprovalTtlSec :: "jsval \<Rightarrow> int option" where
  "clampApprovalTtlSec value =
     (if js_nullish value \<or> value = JStr [] then None
      else (let raw = (case value of JObj ps \<Rightarrow> js_coalesce (jget value ''seconds'') value | _ \<Rightarrow> value);
                n = js_Number raw
            in if \<not> num_finite n \<or> \<not> num_lt (JInt 0) n then None
               else (let sec = (case n of JInt i \<Rightarrow> i | JFrac f t \<Rightarrow> f | _ \<Rightarrow> 0)
                     in if sec < APPROVAL_TTL_SEC_MIN \<or> APPROVAL_TTL_SEC_MAX < sec then None else Some sec)))"

definition normalizeSessionActAction :: "jsval \<Rightarrow> string" where
  "normalizeSessionActAction action = js_lower (js_trim (js_String (js_or action (JStr []))))"

definition tier_list :: "jsval \<Rightarrow> string list" where
  "tier_list v = (case v of JArr vs \<Rightarrow> filter (\<lambda>a. a \<noteq> []) (map normalizeSessionActAction vs) | _ \<Rightarrow> [])"

definition big_value :: "jsval \<Rightarrow> int option" where
  "big_value v = js_BigInt (JStr (js_trim (js_String v)))"

text \<open>A bound that is not negative, or the reason.\<close>

definition bound_value :: "string \<Rightarrow> jsval \<Rightarrow> string + int" where
  "bound_value name v =
     (case big_value v of
        None \<Rightarrow> Inl (''invalid '' @ name @ '' value'')
      | Some n \<Rightarrow> if n < 0 then Inl (name @ '' must be non-negative'') else Inr n)"

definition clear_field :: "string \<Rightarrow> policy \<Rightarrow> policy" where
  "clear_field k p =
     (if k = ''daily_cap'' then p\<lparr>pl_daily := None\<rparr>
      else if k = ''hourly_cap'' then p\<lparr>pl_hourly := None\<rparr>
      else if k = ''model_allowlist'' then p\<lparr>pl_models := None\<rparr>
      else if k = ''kill_switch'' then p\<lparr>pl_kill := None\<rparr>
      else if k = ''require_payment_ref'' then p\<lparr>pl_ref := None\<rparr>
      else if k = ''tier2_above'' then p\<lparr>pl_tier2 := None\<rparr>
      else if k = ''approval_ttl'' then p\<lparr>pl_ttl := None\<rparr>
      else p\<lparr>pl_risk := None\<rparr>)"

definition set_risk :: "jsval \<Rightarrow> policy \<Rightarrow> string + policy" where
  "set_risk v p =
     (if \<not> (case v of JObj ps \<Rightarrow> True | JBytes bs \<Rightarrow> True | _ \<Rightarrow> False)
      then Inl ''risk_tiers must be an object with high/low arrays''
      else (let high = tier_list (jget v ''high''); low = tier_list (jget v ''low'')
            in if high = [] \<and> low = [] then Inl ''risk_tiers requires at least one high or low action''
               else Inr (p\<lparr>pl_risk := Some (high, low)\<rparr>)))"

definition set_field :: "bool \<Rightarrow> int \<Rightarrow> string \<Rightarrow> jsval \<Rightarrow> policy \<Rightarrow> string + policy" where
  "set_field offered now k v p =
     (if k = ''daily_cap'' then
        (case bound_value k v of Inl r \<Rightarrow> Inl r | Inr n \<Rightarrow> Inr (p\<lparr>pl_daily := Some \<lparr>cp_limit = n, cp_reset = nextMidnightUTC now\<rparr>\<rparr>))
      else if k = ''hourly_cap'' then
        (case bound_value k v of Inl r \<Rightarrow> Inl r | Inr n \<Rightarrow> Inr (p\<lparr>pl_hourly := Some \<lparr>cp_limit = n, cp_reset = nextHourUTC now\<rparr>\<rparr>))
      else if k = ''model_allowlist'' then
        (case v of JArr vs \<Rightarrow> Inr (p\<lparr>pl_models := Some (map js_String vs)\<rparr>) | _ \<Rightarrow> Inl ''model_allowlist must be an array'')
      else if k = ''kill_switch'' then Inr (p\<lparr>pl_kill := Some (js_truthy v)\<rparr>)
      else if k = ''require_payment_ref'' then Inr (p\<lparr>pl_ref := Some (js_truthy v)\<rparr>)
      else if k = ''tier2_above'' then
        (if \<not> offered then Inl ''settlement_proof_not_offered''
         else case bound_value k v of Inl r \<Rightarrow> Inl r | Inr n \<Rightarrow> Inr (p\<lparr>pl_tier2 := Some n\<rparr>))
      else if k = ''approval_ttl'' then
        (case clampApprovalTtlSec v of None \<Rightarrow> Inl ''invalid approval_ttl value'' | Some sec \<Rightarrow> Inr (p\<lparr>pl_ttl := Some sec\<rparr>))
      else set_risk v p)"

datatype set_reply = Set_ok policy | Set_refused string | Set_threw

definition policy_set :: "bool \<Rightarrow> int \<Rightarrow> bool \<Rightarrow> jsval \<Rightarrow> string \<Rightarrow> jsval \<Rightarrow> policy_store \<Rightarrow> policy_store \<times> set_reply" where
  "policy_set offered now wr agentId k v s =
     (case num_int (js_Number agentId) of
        None \<Rightarrow> (s, Set_refused ''invalid agent_id'')
      | Some i \<Rightarrow>
          if i < 1 then (s, Set_refused ''invalid agent_id'')
          else if k \<notin> set POLICY_TYPES then (s, Set_refused (''unknown policy type: '' @ k))
          else (let p = (case policy_get s i of Some p \<Rightarrow> p | None \<Rightarrow> new_policy now);
                    s1 = s\<lparr>bp_byAgent := jm_set i p (bp_byAgent s)\<rparr>
                in case (if js_nullish v then Inr (clear_field k p) else set_field offered now k v p) of
                     Inl r \<Rightarrow> (s1, Set_refused r)
                   | Inr q \<Rightarrow>
                       (let q' = q\<lparr>pl_updated := Some now\<rparr>; s2 = s\<lparr>bp_byAgent := jm_set i q' (bp_byAgent s)\<rparr>
                        in case policy_save wr s2 of None \<Rightarrow> (s2, Set_threw) | Some s3 \<Rightarrow> (s3, Set_ok q'))))"

datatype clear_reply = Cleared | Nothing_to_clear | Clear_threw

definition policy_clear :: "bool \<Rightarrow> int \<Rightarrow> policy_store \<Rightarrow> policy_store \<times> clear_reply" where
  "policy_clear wr i s =
     (if \<not> jm_has (bp_byAgent s) i then (s, Nothing_to_clear)
      else (let s1 = s\<lparr>bp_byAgent := jm_delete i (bp_byAgent s)\<rparr>
            in case policy_save wr s1 of None \<Rightarrow> (s1, Clear_threw) | Some s2 \<Rightarrow> (s2, Cleared)))"

section \<open>Checking a spend\<close>

record spend =
  sp_model :: jsval
  sp_amount :: jsval
  sp_tier :: jsval

record ledger_view =
  lv_hour :: int
  lv_day :: int
  lv_gap :: bool

record cap_block =
  cb_key :: string
  cb_spent :: int
  cb_cap :: int
  cb_period :: int
  cb_remaining :: int

definition capBlockSnapshot :: "string \<Rightarrow> int \<Rightarrow> int \<Rightarrow> int \<Rightarrow> cap_block" where
  "capBlockSnapshot k spent limit period =
     \<lparr>cb_key = k, cb_spent = spent, cb_cap = limit, cb_period = period, cb_remaining = (if spent < limit then limit - spent else 0)\<rparr>"

datatype policy_verdict =
    Policy_allowed
  | Policy_blocked string
  | Cap_blocked string cap_block
  | Policy_threw

definition spend_amount :: "jsval \<Rightarrow> int option" where
  "spend_amount v = (if js_truthy v then js_BigInt (JStr (js_String v)) else Some 0)"

definition tier2ProofRequested :: "jsval \<Rightarrow> bool" where
  "tier2ProofRequested v \<longleftrightarrow> js_truthy v \<and>
     js_trim (js_lower (js_String v)) \<in> {''settlement'', ''inference'', ''tee'', ''zk-spotcheck'', ''spotcheck'', ''t3a'', ''t3b'', ''t3c'', ''zk-full'', ''full''}"

definition rule_block :: "policy \<Rightarrow> spend \<Rightarrow> ledger_view \<Rightarrow> string option" where
  "rule_block p sp lv =
     (if pl_kill p = Some True then Some ''kill_switch''
      else if (case pl_models p of
                 None \<Rightarrow> False
               | Some ms \<Rightarrow> js_truthy (sp_model sp) \<and> js_lower (js_String (sp_model sp)) \<notin> set (map js_lower ms))
      then Some ''model_not_allowed''
      else if pl_ref p = Some True \<and> lv_gap lv then Some ''payment_ref_required''
      else None)"

text \<open>One cap: a period that is over is renewed first. \<open>None\<close> as verdict goes on to the next rule.\<close>

definition check_cap :: "bool \<Rightarrow> int \<Rightarrow> bool \<Rightarrow> int \<Rightarrow> string \<Rightarrow> string \<Rightarrow> cap option \<Rightarrow> int \<Rightarrow> int \<Rightarrow> spend \<Rightarrow> policy_store \<Rightarrow>
    policy_store \<times> policy_verdict option" where
  "check_cap offered now wr i k code c spent period sp s =
     (case c of
        None \<Rightarrow> (s, None)
      | Some cap \<Rightarrow>
          (case (if cp_reset cap \<le> now then policy_set offered now wr (JNum (JInt i)) k (JStr (int_string (cp_limit cap))) s
                 else (s, Set_refused [])) of
             (s1, Set_threw) \<Rightarrow> (s1, Some Policy_threw)
           | (s1, _) \<Rightarrow>
               (case spend_amount (sp_amount sp) of
                  None \<Rightarrow> (s1, Some Policy_threw)
                | Some a \<Rightarrow>
                    if cp_limit cap < spent + a then (s1, Some (Cap_blocked code (capBlockSnapshot k spent (cp_limit cap) period)))
                    else (s1, None))))"

definition check_tier2 :: "bool \<Rightarrow> int option \<Rightarrow> spend \<Rightarrow> policy_verdict" where
  "check_tier2 offered threshold sp =
     (case threshold of
        None \<Rightarrow> Policy_allowed
      | Some t \<Rightarrow>
          (case spend_amount (sp_amount sp) of
             None \<Rightarrow> Policy_threw
           | Some a \<Rightarrow>
               if 0 < t \<and> t \<le> a \<and> \<not> offered then Policy_blocked ''tier2_unavailable''
               else if 0 < t \<and> t \<le> a \<and> \<not> tier2ProofRequested (sp_tier sp) then Policy_blocked ''tier2_required''
               else Policy_allowed))"

definition enforcePolicy :: "bool \<Rightarrow> int \<Rightarrow> bool \<Rightarrow> int \<Rightarrow> spend \<Rightarrow> ledger_view \<Rightarrow> policy_store \<Rightarrow> policy_store \<times> policy_verdict" where
  "enforcePolicy offered now wr i sp lv s =
     (case policy_get s i of
        None \<Rightarrow> (s, Policy_allowed)
      | Some p \<Rightarrow>
          (case rule_block p sp lv of
             Some code \<Rightarrow> (s, Policy_blocked code)
           | None \<Rightarrow>
               (case check_cap offered now wr i ''hourly_cap'' ''hourly_cap_exceeded'' (pl_hourly p) (lv_hour lv) (currentHourStartUTC now) sp s of
                  (s1, Some v) \<Rightarrow> (s1, v)
                | (s1, None) \<Rightarrow>
                    (case check_cap offered now wr i ''daily_cap'' ''daily_cap_exceeded'' (pl_daily p) (lv_day lv) (currentDayStartUTC now) sp s1 of
                       (s2, Some v) \<Rightarrow> (s2, v)
                     | (s2, None) \<Rightarrow> (s2, check_tier2 offered (pl_tier2 p) sp)))))"

section \<open>Approval of session acts\<close>

definition DEFAULT_RISK_TIERS :: "string list \<times> string list" where
  "DEFAULT_RISK_TIERS = ([''handoff'', ''redeem''], [''read_private''])"

definition riskTiersOf :: "policy option \<Rightarrow> string list \<times> string list" where
  "riskTiersOf p =
     (case Option.bind p pl_risk of
        Some (high, low) \<Rightarrow>
          if high \<noteq> [] \<or> low \<noteq> []
          then (map (\<lambda>a. normalizeSessionActAction (JStr a)) high, map (\<lambda>a. normalizeSessionActAction (JStr a)) low)
          else DEFAULT_RISK_TIERS
      | None \<Rightarrow> DEFAULT_RISK_TIERS)"

datatype risk = High | Low | Unknown_risk

definition classifySessionActRisk :: "jsval \<Rightarrow> policy option \<Rightarrow> risk" where
  "classifySessionActRisk action p =
     (let act = normalizeSessionActAction action; tiers = riskTiersOf p
      in if act = [] then Unknown_risk
         else if act \<in> set (fst tiers) then High
         else if act \<in> set (snd tiers) then Low
         else Unknown_risk)"

definition approvalTtlSecOf :: "policy option \<Rightarrow> int option" where
  "approvalTtlSecOf p = (case Option.bind p pl_ttl of None \<Rightarrow> None | Some sec \<Rightarrow> clampApprovalTtlSec (JNum (JInt sec)))"

type_synonym approvals = "(string, int) jsmap"

definition getLastHighBlastAt :: "approvals \<Rightarrow> string \<Rightarrow> int option" where
  "getLastHighBlastAt st hash = jm_get st (js_lower hash)"

definition recordHighBlast :: "string \<Rightarrow> int \<Rightarrow> approvals \<Rightarrow> approvals" where
  "recordHighBlast hash now st = jm_set (js_lower hash) now st"

datatype act_verdict = Act_allowed | Act_refreshes | Act_denied "int option"

definition enforceSessionActApproval :: "policy option \<Rightarrow> jsval \<Rightarrow> bool \<Rightarrow> string \<Rightarrow> int \<Rightarrow> approvals \<Rightarrow> act_verdict" where
  "enforceSessionActApproval p action fresh hash now st =
     (case approvalTtlSecOf p of
        None \<Rightarrow> Act_allowed
      | Some ttl \<Rightarrow>
          if classifySessionActRisk action p \<noteq> High then Act_allowed
          else if fresh then Act_refreshes
          else (case (if hash = [] then None else getLastHighBlastAt st hash) of
                  None \<Rightarrow> Act_denied None
                | Some lastAt \<Rightarrow> if now - lastAt \<le> ttl then Act_refreshes else Act_denied (Some lastAt)))"

text \<open>\<open>recordSessionActApproval\<close> of server.js, for an act that was accepted.\<close>

definition recordSessionActApproval :: "policy option \<Rightarrow> jsval \<Rightarrow> string \<Rightarrow> int \<Rightarrow> approvals \<Rightarrow> approvals" where
  "recordSessionActApproval p action hash now st =
     (if hash = [] \<or> \<not> js_truthy action then st
      else if classifySessionActRisk action p = High then recordHighBlast hash now st
      else st)"

section \<open>What a spend needs\<close>

definition cap_allows :: "cap option \<Rightarrow> int \<Rightarrow> int \<Rightarrow> bool" where
  "cap_allows c spent a \<longleftrightarrow> (case c of None \<Rightarrow> True | Some cap \<Rightarrow> spent + a \<le> cp_limit cap)"

definition tier2_allows :: "bool \<Rightarrow> int option \<Rightarrow> int \<Rightarrow> jsval \<Rightarrow> bool" where
  "tier2_allows offered threshold a tier \<longleftrightarrow>
     (case threshold of None \<Rightarrow> True | Some t \<Rightarrow> 0 < t \<and> t \<le> a \<longrightarrow> offered \<and> tier2ProofRequested tier)"

definition within_rules :: "bool \<Rightarrow> policy \<Rightarrow> spend \<Rightarrow> ledger_view \<Rightarrow> int \<Rightarrow> bool" where
  "within_rules offered p sp lv a \<longleftrightarrow> rule_block p sp lv = None \<and> cap_allows (pl_hourly p) (lv_hour lv) a \<and>
     cap_allows (pl_daily p) (lv_day lv) a \<and> tier2_allows offered (pl_tier2 p) a (sp_tier sp)"

lemma set_throws: "policy_set offered now wr ag k v s = (s', Set_threw) \<Longrightarrow> \<not> wr \<and> bp_persist s"
  by (auto simp: policy_set_def policy_save_def Let_def split: option.splits if_splits sum.splits)

lemma set_persist: "policy_set offered now wr ag k v s = (s', r) \<Longrightarrow> bp_persist s' = bp_persist s"
  by (auto simp: policy_set_def policy_save_def Let_def split: option.splits if_splits sum.splits)

lemma check_cap_allows:
  assumes "check_cap offered now wr i k code c spent period sp s = (s', None)" "spend_amount (sp_amount sp) = Some a"
  shows "cap_allows c spent a"
  using assms by (auto simp: check_cap_def cap_allows_def split: option.splits prod.splits set_reply.splits if_splits)

lemma check_cap_passes:
  assumes "cap_allows c spent a" "spend_amount (sp_amount sp) = Some a" "wr \<or> \<not> bp_persist s"
  shows "\<exists>s'. check_cap offered now wr i k code c spent period sp s = (s', None) \<and> bp_persist s' = bp_persist s"
proof (cases c)
  case (Some cap)
  obtain s1 r where r: "(if cp_reset cap \<le> now then policy_set offered now wr (JNum (JInt i)) k (JStr (int_string (cp_limit cap))) s
      else (s, Set_refused [])) = (s1, r)" by fastforce
  then have "r \<noteq> Set_threw" "bp_persist s1 = bp_persist s"
    using set_throws [of offered now wr "JNum (JInt i)"] set_persist [of offered now wr "JNum (JInt i)"] assms(3) by (auto split: if_splits)
  with Some r assms(1,2) show ?thesis by (cases r) (auto simp: check_cap_def cap_allows_def)
qed (simp add: check_cap_def)

lemma spend_allowed_rules:
  assumes "policy_get s i = Some p" "spend_amount (sp_amount sp) = Some a"
  shows "(snd (enforcePolicy offered now wr i sp lv s) = Policy_allowed \<longrightarrow> within_rules offered p sp lv a) \<and>
    (wr \<or> \<not> bp_persist s \<longrightarrow> (snd (enforcePolicy offered now wr i sp lv s) = Policy_allowed \<longleftrightarrow> within_rules offered p sp lv a))"
proof -
  have tier: "check_tier2 offered (pl_tier2 p) sp = Policy_allowed \<longleftrightarrow> tier2_allows offered (pl_tier2 p) a (sp_tier sp)"
    using assms(2) by (auto simp: check_tier2_def tier2_allows_def split: option.splits)
  have no: "v \<noteq> Policy_allowed" if "check_cap offered now wr i k code c spent period sp t = (t', Some v)" for k code c spent period t t' v
    using that by (auto simp: check_cap_def split: option.splits prod.splits set_reply.splits if_splits)
  have only: "within_rules offered p sp lv a" if "snd (enforcePolicy offered now wr i sp lv s) = Policy_allowed"
    using that assms tier no check_cap_allows [OF _ assms(2)]
    by (fastforce simp: enforcePolicy_def within_rules_def split: option.splits prod.splits)
  moreover have "snd (enforcePolicy offered now wr i sp lv s) = Policy_allowed" if w: "wr \<or> \<not> bp_persist s" and r: "within_rules offered p sp lv a"
  proof -
    obtain s1 where s1: "check_cap offered now wr i ''hourly_cap'' ''hourly_cap_exceeded'' (pl_hourly p) (lv_hour lv) (currentHourStartUTC now) sp s = (s1, None)"
      "bp_persist s1 = bp_persist s" using check_cap_passes [OF _ assms(2) w] r unfolding within_rules_def by blast
    then have w1: "wr \<or> \<not> bp_persist s1" using w by simp
    obtain s2 where "check_cap offered now wr i ''daily_cap'' ''daily_cap_exceeded'' (pl_daily p) (lv_day lv) (currentDayStartUTC now) sp s1 = (s2, None)"
      using check_cap_passes [OF _ assms(2) w1] r unfolding within_rules_def by blast
    with s1(1) assms(1) r tier show ?thesis by (simp add: enforcePolicy_def within_rules_def)
  qed
  ultimately show ?thesis by blast
qed


section \<open>A cap over the calls of a period\<close>

lemma digits_big: "js_BigInt (JStr (dec_string n)) = Some (int n)"
proof -
  note d = all_digits_dec_string [of n]
  have "js_trim (dec_string n) = dec_string n" "dec_string n \<noteq> []" "\<not> is_sign (hd (dec_string n))" "hd (dec_string n) \<noteq> CHR ''-''"
    using js_trim_digits [OF d] all_digits_head [OF d] by (auto simp: is_sign_def)
  with d show ?thesis by (simp add: js_BigInt_def Let_def)
qed

lemma limit_kept: "0 \<le> n \<Longrightarrow> bound_value name (JStr (int_string n)) = Inr n"
  using js_trim_digits [OF all_digits_dec_string [of "nat n"]] digits_big [of "nat n"]
  by (simp add: bound_value_def big_value_def int_string_def)

text \<open>The rules of an agent without the times; no policy and a policy without rules are the same.\<close>

definition bare_cap :: "cap \<Rightarrow> cap" where
  "bare_cap c = c\<lparr>cp_reset := 0\<rparr>"

definition bare :: "policy \<Rightarrow> policy" where
  "bare p = p\<lparr>pl_created := 0, pl_updated := None, pl_daily := map_option bare_cap (pl_daily p), pl_hourly := map_option bare_cap (pl_hourly p)\<rparr>"

definition rules :: "policy_store \<Rightarrow> int \<Rightarrow> policy" where
  "rules s i = (case policy_get s i of None \<Rightarrow> new_policy 0 | Some p \<Rightarrow> bare p)"

definition caps_ok :: "policy \<Rightarrow> bool" where
  "caps_ok p \<longleftrightarrow> (case pl_daily p of None \<Rightarrow> True | Some c \<Rightarrow> 0 \<le> cp_limit c) \<and> (case pl_hourly p of None \<Rightarrow> True | Some c \<Rightarrow> 0 \<le> cp_limit c)"

definition store_ok :: "policy_store \<Rightarrow> bool" where
  "store_ok s \<longleftrightarrow> (\<forall>i p. policy_get s i = Some p \<longrightarrow> 1 \<le> i \<and> caps_ok p)"

lemma store_okD: "store_ok s \<Longrightarrow> policy_get s i = Some p \<Longrightarrow> 1 \<le> i \<and> caps_ok p"
  by (auto simp: store_ok_def)

lemma bare_new: "bare (new_policy now) = new_policy 0"
  by (simp add: bare_def new_policy_def)

lemma rules_set: "rules (s\<lparr>bp_byAgent := jm_set i p m\<rparr>) j = (if j = i then bare p else rules (s\<lparr>bp_byAgent := m\<rparr>) j)"
  by (simp add: rules_def policy_get_def jsmap_simps)

lemma rules_same: "bp_byAgent s = bp_byAgent t \<Longrightarrow> rules s = rules t"
  by (simp add: rules_def policy_get_def fun_eq_iff)

lemma save_memory: "policy_save wr s = Some s' \<Longrightarrow> bp_byAgent s' = bp_byAgent s"
  by (auto simp: policy_save_def split: if_splits)

text \<open>What a call of \<open>set\<close> leaves in memory.\<close>

definition set_memory :: "bool \<Rightarrow> int \<Rightarrow> int \<Rightarrow> string \<Rightarrow> jsval \<Rightarrow> policy_store \<Rightarrow> policy" where
  "set_memory offered now i k v s =
     (let p = (case policy_get s i of Some p \<Rightarrow> p | None \<Rightarrow> new_policy now)
      in case (if js_nullish v then Inr (clear_field k p) else set_field offered now k v p) of
           Inl r \<Rightarrow> p | Inr q \<Rightarrow> q\<lparr>pl_updated := Some now\<rparr>)"

lemma set_effect:
  assumes "policy_set offered now wr ag k v s = (s', r)"
  shows "bp_byAgent s' = bp_byAgent s \<or>
    (\<exists>i. num_int (js_Number ag) = Some i \<and> 1 \<le> i \<and> bp_byAgent s' = jm_set i (set_memory offered now i k v s) (bp_byAgent s))"
  using assms by (auto simp: policy_set_def set_memory_def Let_def dest!: save_memory split: option.splits if_splits sum.splits)

lemma set_caps: "caps_ok p \<Longrightarrow> set_field offered now k v p = Inr q \<Longrightarrow> caps_ok q"
  by (auto simp: set_field_def set_risk_def caps_ok_def bound_value_def Let_def split: if_splits sum.splits option.splits jsval.splits)

lemma clear_caps: "caps_ok p \<Longrightarrow> caps_ok (clear_field k p)"
  by (auto simp: clear_field_def caps_ok_def)

lemma set_memory_caps: "store_ok s \<Longrightarrow> caps_ok (set_memory offered now i k v s)"
proof -
  assume s: "store_ok s"
  let ?p = "case policy_get s i of Some p \<Rightarrow> p | None \<Rightarrow> new_policy now"
  have p: "caps_ok ?p" using store_okD [OF s] by (cases "policy_get s i") (auto simp: caps_ok_def new_policy_def)
  then have "caps_ok q" if "(if js_nullish v then Inr (clear_field k ?p) else set_field offered now k v ?p) = Inr q" for q
    using that set_caps [of ?p] clear_caps [of ?p] by (auto split: if_splits)
  then have "caps_ok (q\<lparr>pl_updated := Some now\<rparr>)" if "(if js_nullish v then Inr (clear_field k ?p) else set_field offered now k v ?p) = Inr q" for q
    using that by (simp add: caps_ok_def)
  with p show ?thesis unfolding set_memory_def Let_def by (simp only: split: sum.split) blast
qed

lemma store_ok_memory: "bp_byAgent s = bp_byAgent t \<Longrightarrow> store_ok s = store_ok t"
  by (simp add: store_ok_def policy_get_def)

lemma set_ok_store:
  assumes "store_ok s" "policy_set offered now wr ag k v s = (s', r)"
  shows "store_ok s'"
  using set_effect [OF assms(2)]
proof
  assume "bp_byAgent s' = bp_byAgent s"
  with assms(1) store_ok_memory show ?thesis by blast
next
  assume "\<exists>i. num_int (js_Number ag) = Some i \<and> 1 \<le> i \<and> bp_byAgent s' = jm_set i (set_memory offered now i k v s) (bp_byAgent s)"
  with assms(1) set_memory_caps [OF assms(1)] show ?thesis by (auto simp: store_ok_def policy_get_def jsmap_simps split: if_splits)
qed

text \<open>Renewing a cap keeps the rules.\<close>

lemma bare_limits: "bare p = bare q \<Longrightarrow> map_option cp_limit (pl_daily p) = map_option cp_limit (pl_daily q) \<and>
    map_option cp_limit (pl_hourly p) = map_option cp_limit (pl_hourly q)"
proof -
  assume "bare p = bare q"
  then have "map_option cp_limit (pl_daily (bare p)) = map_option cp_limit (pl_daily (bare q))"
    "map_option cp_limit (pl_hourly (bare p)) = map_option cp_limit (pl_hourly (bare q))" by simp_all
  then show ?thesis by (simp add: bare_def bare_cap_def option.map_comp comp_def)
qed

lemma bare_limit: "cp_limit c = l \<Longrightarrow> bare_cap c = \<lparr>cp_limit = l, cp_reset = 0\<rparr>"
  by (cases c) (simp add: bare_cap_def)

definition limit_of :: "string \<Rightarrow> policy \<Rightarrow> int option" where
  "limit_of k p = map_option cp_limit (if k = ''hourly_cap'' then pl_hourly p else pl_daily p)"

lemma limit_nonneg: "store_ok s \<Longrightarrow> policy_get s i = Some p \<Longrightarrow> limit_of k p = Some l \<Longrightarrow> 0 \<le> l"
  using store_okD [of s i p] by (auto simp: limit_of_def caps_ok_def split: if_splits)

lemma renewed_rules:
  assumes "store_ok s" "policy_get s i = Some p" "k \<in> {''hourly_cap'', ''daily_cap''}" "limit_of k p = Some l"
    "policy_set offered now wr (JNum (JInt i)) k (JStr (int_string l)) s = (s', r)"
  shows "rules s' = rules s \<and> policy_get s' i \<noteq> None"
proof -
  have l: "0 \<le> l" using limit_nonneg assms(1,2,4) by blast
  let ?q = "set_memory offered now i k (JStr (int_string l)) s"
  have "bare ?q = bare p" using assms(3)
  proof (elim insertE emptyE)
    assume "k = ''hourly_cap''"
    with assms(2,4) limit_kept [OF l] show ?thesis
      by (auto simp: set_memory_def set_field_def js_nullish_def bare_def limit_of_def bare_limit)
  next
    assume "k = ''daily_cap''"
    with assms(2,4) limit_kept [OF l] show ?thesis
      by (auto simp: set_memory_def set_field_def js_nullish_def bare_def limit_of_def bare_limit)
  qed
  moreover have "rules s i = bare p" using assms(2) by (simp add: rules_def)
  moreover have "num_int (js_Number (JNum (JInt i))) = Some i" by (simp add: num_int_def)
  ultimately have "bp_byAgent s' = bp_byAgent s \<or> (bp_byAgent s' = jm_set i ?q (bp_byAgent s) \<and> bare ?q = rules s i)"
    using set_effect [OF assms(5)] by auto
  then show ?thesis using assms(2) by (auto simp: rules_def policy_get_def jsmap_simps fun_eq_iff)
qed

lemma check_cap_state:
  assumes "check_cap offered now wr i k code c spent period sp s = (s', v)" "store_ok s" "policy_get s i = Some p"
    "k \<in> {''hourly_cap'', ''daily_cap''}" "limit_of k p = map_option cp_limit c"
  shows "store_ok s' \<and> rules s' = rules s \<and> policy_get s' i \<noteq> None"
proof (cases c)
  case (Some cap)
  obtain s1 r where r: "(if cp_reset cap \<le> now then policy_set offered now wr (JNum (JInt i)) k (JStr (int_string (cp_limit cap))) s
      else (s, Set_refused [])) = (s1, r)" by fastforce
  have "s' = s1" using assms(1) Some r by (auto simp: check_cap_def split: set_reply.splits option.splits if_splits)
  moreover have "store_ok s1 \<and> rules s1 = rules s \<and> policy_get s1 i \<noteq> None"
    using r assms(2-5) Some renewed_rules [of s i p k "cp_limit cap"] set_ok_store [of s] by (auto split: if_splits)
  ultimately show ?thesis by simp
qed (use assms in \<open>auto simp: check_cap_def\<close>)

lemma enforce_state:
  assumes "store_ok s"
  shows "store_ok (fst (enforcePolicy offered now wr i sp lv s)) \<and> rules (fst (enforcePolicy offered now wr i sp lv s)) = rules s"
proof (cases "policy_get s i")
  case (Some p)
  show ?thesis
  proof (cases "rule_block p sp lv")
    case None
    obtain s1 v where h: "check_cap offered now wr i ''hourly_cap'' ''hourly_cap_exceeded'' (pl_hourly p) (lv_hour lv) (currentHourStartUTC now) sp s = (s1, v)"
      by fastforce
    from check_cap_state [OF h assms Some] have s1: "store_ok s1" "rules s1 = rules s" "policy_get s1 i \<noteq> None"
      by (auto simp: limit_of_def)
    show ?thesis
    proof (cases v)
      case (Some w)
      with \<open>policy_get s i = Some p\<close> None h s1 show ?thesis by (simp add: enforcePolicy_def)
    next
      case v: None
      obtain p1 where p1: "policy_get s1 i = Some p1" using s1(3) by auto
      with fun_cong [OF s1(2), of i] Some have b: "bare p1 = bare p" by (simp add: rules_def)
      then have l: "limit_of ''daily_cap'' p1 = map_option cp_limit (pl_daily p)"
        using bare_limits [OF b] by (simp add: limit_of_def)
      obtain s2 w where d: "check_cap offered now wr i ''daily_cap'' ''daily_cap_exceeded'' (pl_daily p) (lv_day lv) (currentDayStartUTC now) sp s1 = (s2, w)"
        by fastforce
      have "fst (enforcePolicy offered now wr i sp lv s) = s2"
        using Some None h d unfolding v by (cases w) (simp_all add: enforcePolicy_def)
      with check_cap_state [OF d s1(1) p1 _ l] s1(2) show ?thesis by simp
    qed
  qed (use Some assms in \<open>simp add: enforcePolicy_def\<close>)
qed (use assms in \<open>simp add: enforcePolicy_def\<close>)

text \<open>The calls of one hour for one agent, each booked before the next one is checked.\<close>

record call =
  cl_now :: int
  cl_wr :: bool
  cl_spend :: spend
  cl_ledger :: ledger_view

definition booked :: "call \<Rightarrow> int" where
  "booked c = (case spend_amount (sp_amount (cl_spend c)) of Some a \<Rightarrow> a | None \<Rightarrow> 0)"

definition spend_step :: "bool \<Rightarrow> int \<Rightarrow> policy_store \<times> int \<Rightarrow> call \<Rightarrow> policy_store \<times> int" where
  "spend_step offered i st c =
     (case enforcePolicy offered (cl_now c) (cl_wr c) i (cl_spend c) ((cl_ledger c)\<lparr>lv_hour := snd st\<rparr>) (fst st) of
        (s', v) \<Rightarrow> (s', if v = Policy_allowed then snd st + booked c else snd st))"

definition under_cap :: "int \<Rightarrow> int \<Rightarrow> policy_store \<times> int \<Rightarrow> bool" where
  "under_cap i l st \<longleftrightarrow> store_ok (fst st) \<and> map_option cp_limit (pl_hourly (rules (fst st) i)) = Some l \<and> snd st \<le> l"

lemma capped_policy: "map_option cp_limit (pl_hourly (rules s i)) = Some l \<Longrightarrow> \<exists>p. policy_get s i = Some p \<and> limit_of ''hourly_cap'' p = Some l"
  by (auto simp: rules_def new_policy_def bare_def bare_cap_def limit_of_def split: option.splits)

lemma allowed_amount:
  assumes "snd (enforcePolicy offered now wr i sp lv s) = Policy_allowed" "policy_get s i = Some p" "pl_hourly p = Some cap"
  shows "lv_hour lv + (case spend_amount (sp_amount sp) of Some a \<Rightarrow> a | None \<Rightarrow> 0) \<le> cp_limit cap"
proof (cases "spend_amount (sp_amount sp)")
  case None
  with assms show ?thesis
    by (auto simp: enforcePolicy_def check_cap_def split: option.splits prod.splits set_reply.splits if_splits)
next
  case (Some a)
  with spend_allowed_rules [OF assms(2) Some] assms(1,3) show ?thesis by (auto simp: within_rules_def cap_allows_def)
qed

lemma spend_step_cap: "under_cap i l st \<Longrightarrow> under_cap i l (spend_step offered i st c)"
proof -
  assume u: "under_cap i l st"
  then obtain p cap where p: "policy_get (fst st) i = Some p" "pl_hourly p = Some cap" "cp_limit cap = l"
    using capped_policy [of "fst st" i l] by (auto simp: under_cap_def limit_of_def)
  let ?r = "enforcePolicy offered (cl_now c) (cl_wr c) i (cl_spend c) ((cl_ledger c)\<lparr>lv_hour := snd st\<rparr>) (fst st)"
  have "snd st + booked c \<le> l" if "snd ?r = Policy_allowed"
    using allowed_amount [OF that p(1,2)] p(3) by (simp add: booked_def)
  moreover have "store_ok (fst ?r) \<and> rules (fst ?r) = rules (fst st)"
    using enforce_state u by (simp add: under_cap_def)
  ultimately show ?thesis using u by (cases ?r) (simp add: spend_step_def under_cap_def)
qed

interpretation hour_calls: invariant_run "spend_step offered i" "under_cap i l" "\<lambda>c. True" for offered i l
  by unfold_locales (rule spend_step_cap)

text \<open>
  Property C25. The hourly cap bounds what an agent spends: of any calls in one hour, each booked before the next is
  checked, those that are allowed add up to no more than the cap, whether or not the renewals of the caps can be written.
\<close>

theorem hour_within_cap:
  assumes "store_ok s" "policy_get s i = Some p" "limit_of ''hourly_cap'' p = Some l" "spent \<le> l"
  shows "snd (foldl (spend_step offered i) (s, spent) calls) \<le> l"
proof -
  have "under_cap i l (s, spent)"
    using assms by (auto simp: under_cap_def rules_def bare_def bare_cap_def limit_of_def)
  then have "under_cap i l (foldl (spend_step offered i) (s, spent) calls)"
    by (rule hour_calls.run_inv) (simp add: list_all_iff)
  then show ?thesis by (simp add: under_cap_def)
qed

section \<open>The file\<close>

datatype policy_op =
    Op_set bool int bool jsval string jsval
  | Op_clear bool int
  | Op_enforce bool int bool int spend ledger_view
  | Op_restart

fun policy_step :: "policy_store \<Rightarrow> policy_op \<Rightarrow> policy_store" where
  "policy_step s (Op_set offered now wr ag k v) = fst (policy_set offered now wr ag k v s)"
| "policy_step s (Op_clear wr i) = fst (policy_clear wr i s)"
| "policy_step s (Op_enforce offered now wr i sp lv) = fst (enforcePolicy offered now wr i sp lv s)"
| "policy_step s Op_restart = policy_load s"

fun op_saves :: "policy_op \<Rightarrow> bool" where
  "op_saves (Op_set offered now wr ag k v) = wr"
| "op_saves (Op_clear wr i) = wr"
| "op_saves (Op_enforce offered now wr i sp lv) = wr"
| "op_saves Op_restart = True"

definition synced :: "policy_store \<Rightarrow> bool" where
  "synced s \<longleftrightarrow> bp_persist s \<and> store_ok s \<and> store_ok (policy_load s) \<and> rules (policy_load s) = rules s"

lemma load_load: "policy_load (policy_load s) = policy_load s"
  by (simp add: policy_load_def)

lemma synced_saved: "bp_persist s \<Longrightarrow> store_ok s \<Longrightarrow> bp_disk s = Some (bp_byAgent s) \<Longrightarrow> synced s"
  by (simp add: synced_def policy_load_def store_ok_def rules_def policy_get_def fun_eq_iff)

lemma set_new_rules:
  "policy_get s i = None \<Longrightarrow> rules (s\<lparr>bp_byAgent := jm_set i (new_policy now) (bp_byAgent s)\<rparr>) = rules s"
  "policy_get s i = Some p \<Longrightarrow> rules (s\<lparr>bp_byAgent := jm_set i p (bp_byAgent s)\<rparr>) = rules s"
  by (auto simp: rules_def policy_get_def jsmap_simps bare_new fun_eq_iff)

lemma disk_kept: "bp_disk t = bp_disk s \<Longrightarrow> bp_persist t = bp_persist s \<Longrightarrow> bp_byAgent (policy_load t) = bp_byAgent (policy_load s)"
  by (simp add: policy_load_def)

lemma synced_memory: "synced s \<Longrightarrow> bp_disk t = bp_disk s \<Longrightarrow> bp_persist t = bp_persist s \<Longrightarrow> store_ok t \<Longrightarrow> rules t = rules s \<Longrightarrow> synced t"
  using disk_kept [of t s] rules_same [of "policy_load t" "policy_load s"] store_ok_memory [of "policy_load t" "policy_load s"]
  by (simp add: synced_def)

lemma set_disk:
  assumes "policy_set offered now True ag k v s = (s', r)" "bp_persist s"
  shows "(bp_disk s' = Some (bp_byAgent s') \<or> (bp_disk s' = bp_disk s \<and> rules s' = rules s)) \<and> bp_persist s'"
  using assms by (auto simp: policy_set_def policy_save_def Let_def set_new_rules split: option.splits if_splits sum.splits)

lemma set_synced:
  assumes "synced s" "policy_set offered now True ag k v s = (s', r)"
  shows "synced s'"
  using set_disk [OF assms(2)] set_ok_store [OF _ assms(2)] assms(1) synced_saved [of s'] synced_memory [OF assms(1), of s']
  by (auto simp: synced_def)

lemma clear_synced:
  assumes "synced s" "policy_clear True i s = (s', r)"
  shows "synced s'"
proof (cases "jm_has (bp_byAgent s) i")
  case True
  have "store_ok (s\<lparr>bp_byAgent := jm_delete i (bp_byAgent s)\<rparr>)"
    using assms(1) by (auto simp: synced_def store_ok_def policy_get_def jsmap_simps split: if_splits)
  moreover have "s' = s\<lparr>bp_byAgent := jm_delete i (bp_byAgent s), bp_disk := Some (jm_delete i (bp_byAgent s))\<rparr>"
    using assms True by (auto simp: policy_clear_def policy_save_def Let_def synced_def)
  ultimately show ?thesis using assms(1) synced_saved [of s'] store_ok_memory [of s' "s\<lparr>bp_byAgent := jm_delete i (bp_byAgent s)\<rparr>"]
    by (simp add: synced_def)
qed (use assms in \<open>simp add: policy_clear_def\<close>)

lemma check_cap_synced:
  assumes "synced s" "check_cap offered now True i k code c spent period sp s = (s', v)"
  shows "synced s'"
proof (cases c)
  case (Some cap)
  obtain s1 r where r: "(if cp_reset cap \<le> now then policy_set offered now True (JNum (JInt i)) k (JStr (int_string (cp_limit cap))) s
      else (s, Set_refused [])) = (s1, r)" by fastforce
  have "s' = s1" using assms(2) Some r by (auto simp: check_cap_def split: set_reply.splits option.splits if_splits)
  with r assms(1) set_synced show ?thesis by (auto split: if_splits)
qed (use assms in \<open>simp add: check_cap_def\<close>)

lemma enforce_synced: "synced s \<Longrightarrow> synced (fst (enforcePolicy offered now True i sp lv s))"
proof -
  assume s: "synced s"
  have "synced s2" if "check_cap offered now True i k code c spent period sp s = (s1, v)"
    "check_cap offered now True i k' code' c' spent' period' sp s1 = (s2, w)" for k code c spent period s1 v k' code' c' spent' period' s2 w
    using check_cap_synced [OF check_cap_synced [OF s that(1)] that(2)] .
  with s check_cap_synced [OF s] show ?thesis
    by (simp add: enforcePolicy_def split: option.split prod.split)
qed

interpretation policy_files: invariant_run policy_step synced op_saves
proof unfold_locales
  fix s :: policy_store and x
  assume s: "synced s" "op_saves x"
  show "synced (policy_step s x)"
  proof (cases x)
    case (Op_set offered now wr ag k v)
    with s show ?thesis using set_synced [of s offered now ag k v] by (cases "policy_set offered now True ag k v s") simp
  next
    case (Op_clear wr i)
    with s show ?thesis using clear_synced [of s i] by (cases "policy_clear True i s") simp
  next
    case (Op_enforce offered now wr i sp lv)
    with s enforce_synced show ?thesis by simp
  next
    case Op_restart
    have "bp_persist (policy_load s) = bp_persist s" by (simp add: policy_load_def)
    with s Op_restart load_load [of s] show ?thesis by (simp add: synced_def)
  qed
qed

text \<open>
  Property C24. While its writes succeed, a restart leaves the rules of every agent as they were, after any settings,
  clearings, checks and restarts: also a refused setting, which keeps an empty policy in memory, and a renewed cap.
\<close>

theorem rules_survive_restart:
  assumes "synced s" "list_all op_saves ops"
  shows "rules (policy_load (foldl policy_step s ops)) = rules (foldl policy_step s ops)"
  using policy_files.run_inv [OF assms] by (simp add: synced_def)

text \<open>A setting whose write fails is answered as an error, and holds in memory until the next restart: here a kill switch is lifted.\<close>

lemma failed_write_lifts_kill_switch:
  assumes "bp_persist s" "policy_get s i = Some p" "1 \<le> i"
  shows "\<exists>s'. policy_set offered now False (JNum (JInt i)) ''kill_switch'' JNull s = (s', Set_threw) \<and>
    policy_get s' i = Some (p\<lparr>pl_kill := None, pl_updated := Some now\<rparr>) \<and> bp_disk s' = bp_disk s"
proof -
  have "num_int (js_Number (JNum (JInt i))) = Some i" by (simp add: num_int_def)
  moreover have "''kill_switch'' \<in> set POLICY_TYPES" by (simp add: POLICY_TYPES_def)
  ultimately show ?thesis using assms
    by (simp add: policy_set_def Let_def js_nullish_def clear_field_def policy_save_def policy_get_def jsmap_simps)
qed

section \<open>Approvals\<close>

text \<open>
  Where the book sets a time for approvals, an act of high risk passes without a fresh challenge exactly when
  the last act of high risk that was accepted under this delegation, in any spelling of its hash, is no older than that time.
\<close>

theorem high_act_needs_recent:
  assumes "approvalTtlSecOf p = Some ttl" "classifySessionActRisk action p = High" "hash \<noteq> []"
  shows "enforceSessionActApproval p action False hash now st = Act_refreshes \<longleftrightarrow>
    (\<exists>t. jm_get st (js_lower hash) = Some t \<and> now \<le> t + ttl)"
  using assms by (auto simp: enforceSessionActApproval_def getLastHighBlastAt_def split: option.splits)

text \<open>Acts that follow each other within the time refresh each other, so that no challenge is ever asked for again.\<close>

fun acts_pass :: "policy option \<Rightarrow> jsval \<Rightarrow> string \<Rightarrow> int list \<Rightarrow> approvals \<Rightarrow> bool" where
  "acts_pass p action hash [] st = True"
| "acts_pass p action hash (t # ts) st =
     (enforceSessionActApproval p action False hash t st = Act_refreshes \<and>
      acts_pass p action hash ts (recordSessionActApproval p action hash t st))"

fun within_ttl :: "int \<Rightarrow> int \<Rightarrow> int list \<Rightarrow> bool" where
  "within_ttl ttl t [] = True"
| "within_ttl ttl t (u # us) = (u \<le> t + ttl \<and> within_ttl ttl u us)"

lemma high_truthy: "classifySessionActRisk action p = High \<Longrightarrow> js_truthy action"
  by (rule ccontr) (simp add: classifySessionActRisk_def normalizeSessionActAction_def js_or_def js_trim_def js_lower_def)

lemma approval_slides:
  assumes "approvalTtlSecOf p = Some ttl" "classifySessionActRisk action p = High" "hash \<noteq> []"
  shows "jm_get st (js_lower hash) = Some t \<Longrightarrow> within_ttl ttl t ts \<Longrightarrow> acts_pass p action hash ts st"
proof (induction ts arbitrary: st t)
  case (Cons u us)
  have "enforceSessionActApproval p action False hash u st = Act_refreshes"
    using assms Cons.prems by (simp add: enforceSessionActApproval_def getLastHighBlastAt_def)
  moreover have "jm_get (recordSessionActApproval p action hash u st) (js_lower hash) = Some u"
    using assms high_truthy [OF assms(2)] by (simp add: recordSessionActApproval_def recordHighBlast_def jsmap_simps)
  ultimately show ?case using Cons by simp
qed simp

section \<open>A small book\<close>

definition sample_policy :: policy where
  "sample_policy = (new_policy 0)\<lparr>pl_hourly := Some \<lparr>cp_limit = 5000, cp_reset = 3600000\<rparr>, pl_ttl := Some 60\<rparr>"

definition sample_store :: policy_store where
  "sample_store = \<lparr>bp_byAgent = [(7, sample_policy)], bp_persist = True, bp_disk = Some [(7, sample_policy)]\<rparr>"

definition sample_spend :: spend where
  "sample_spend = \<lparr>sp_model = JStr ''m'', sp_amount = JStr ''2000'', sp_tier = JNull\<rparr>"

definition sample_sums :: "int \<Rightarrow> ledger_view" where
  "sample_sums n = \<lparr>lv_hour = n, lv_day = n, lv_gap = False\<rparr>"


lemma sample_get: "policy_get sample_store 7 = Some sample_policy"
  by (simp add: sample_store_def policy_get_def)

lemma sample_ok: "store_ok sample_store"
  by (auto simp: store_ok_def policy_get_def sample_store_def caps_ok_def sample_policy_def new_policy_def split: if_splits)

lemma sample_synced: "synced sample_store"
  using synced_saved [of sample_store] sample_ok by (simp add: sample_store_def)


theorem hour_within_cap_witness:
  "snd (foldl (spend_step False 7) (sample_store, 0) (replicate 4 \<lparr>cl_now = 1000, cl_wr = False, cl_spend = sample_spend, cl_ledger = sample_sums 0\<rparr>)) \<le> 5000"
  using hour_within_cap [OF sample_ok sample_get] by (simp add: limit_of_def sample_policy_def)

theorem rules_survive_restart_witness:
  "let s = foldl policy_step sample_store [Op_set False 2000 True (JStr ''8'') ''kill_switch'' (JBool True),
       Op_set False 2000 True (JStr ''9'') ''daily_cap'' (JStr ''-1''), Op_enforce False 7200000 True 7 sample_spend (sample_sums 0), Op_clear True 7]
   in rules (policy_load s) = rules s"
  unfolding Let_def by (rule rules_survive_restart [OF sample_synced]) simp

theorem high_act_needs_recent_witness:
  "enforceSessionActApproval (Some sample_policy) (JStr ''Handoff '') False ''0xA'' 160 [(''0xa'', 100)] = Act_refreshes \<and>
   enforceSessionActApproval (Some sample_policy) (JStr ''Handoff '') False ''0xA'' 161 [(''0xa'', 100)] \<noteq> Act_refreshes"
proof -
  have t: "approvalTtlSecOf (Some sample_policy) = Some 60" and c: "classifySessionActRisk (JStr ''Handoff '') (Some sample_policy) = High"
    by code_simp+
  have l: "js_lower ''0xA'' = ''0xa''" by code_simp
  have h: "''0xA'' \<noteq> ([] :: string)" by simp
  show ?thesis unfolding high_act_needs_recent [OF t c h] l by simp
qed

text \<open>Two calls that are checked before either is booked pass a cap that holds only one of them.\<close>

lemma unbooked_calls_pass_cap:
  "snd (enforcePolicy False 1000 True 7 (sample_spend\<lparr>sp_amount := JStr ''3000''\<rparr>) (sample_sums 0) sample_store) = Policy_allowed \<and>
   snd (enforcePolicy False 1000 True 7 (sample_spend\<lparr>sp_amount := JStr ''3000''\<rparr>) (sample_sums 0)
     (fst (enforcePolicy False 1000 True 7 (sample_spend\<lparr>sp_amount := JStr ''3000''\<rparr>) (sample_sums 0) sample_store))) = Policy_allowed"
  by code_simp

end
