(* ===== verification/Session_Act.thy ===== *)
theory Session_Act
  imports Session_Delegation Book_Policy
begin

text \<open>
  Session acts, services/gateway/src/session-act.js: the typed data of an act, the check of its
  signature, the store of challenges and spent nonces, \<open>acceptSessionAct\<close>, and the routes of
  server.js that issue a challenge and prove a key. The functions of ethers and the sessions are
  those of \<open>Session_Delegation\<close>; a stored session has its fields at their types. One clock value,
  in seconds, holds for one request. \<open>draw k\<close> are the nonces that the request draws. A thrown
  error is its reason: \<open>bad_act_fields\<close> where the code returns its message, \<open>verification_error\<close>
  where it returns it with that prefix, \<open>threw\<close> where the error leaves the function. A stored challenge
  has no target of its own. The published copy of the proof in a reply, and the typed data that a reply with a
  challenge offers, are not modelled; \<open>va_message\<close> is the signed message.
\<close>

section \<open>Constants\<close>

definition ZERO_ADDRESS :: string where
  "ZERO_ADDRESS = ''0x'' @ replicate 40 CHR ''0''"

definition ZERO_BYTES32 :: string where
  "ZERO_BYTES32 = ''0x'' @ replicate 64 CHR ''0''"

definition SESSION_ACT_ACTIONS :: "string list" where
  "SESSION_ACT_ACTIONS = [''handoff'', ''read_private'', ''redeem'']"

definition SESSION_ACT_TYPES :: jsval where
  "SESSION_ACT_TYPES = JObj [(''SessionAct'', JArr
     [typed_field ''delegationHash'' ''bytes32'', typed_field ''nonce'' ''bytes32'',
      typed_field ''action'' ''string'', typed_field ''resource'' ''string'',
      typed_field ''deadline'' ''uint256'', typed_field ''targetAgent'' ''address'',
      typed_field ''payloadHash'' ''bytes32''])]"

definition TTL_DEFAULT :: int where "TTL_DEFAULT = 180"
definition TTL_MIN :: int where "TTL_MIN = 120"
definition TTL_MAX :: int where "TTL_MAX = 300"

definition clampChallengeTtlSec :: "jsval \<Rightarrow> int" where
  "clampChallengeTtlSec v =
     (if js_nullish v \<or> v = JStr [] then TTL_DEFAULT
      else (let n = js_Number v
            in if \<not> num_finite n \<or> \<not> num_lt (JInt 0) n then TTL_DEFAULT
               else min TTL_MAX (max TTL_MIN (case n of JInt i \<Rightarrow> i | JFrac f t \<Rightarrow> f | _ \<Rightarrow> 0))))"

definition checkOneshotDeadlineWindow :: "jsnum \<Rightarrow> int \<Rightarrow> string option" where
  "checkOneshotDeadlineWindow dl clock =
     (if \<not> num_finite dl then Some ''missing_deadline''
      else if num_lt dl (JInt clock) then Some ''deadline_expired''
      else if num_lt (JInt (clock + TTL_MAX)) dl then Some ''deadline_too_far'' else None)"

section \<open>Addresses and hashes\<close>

text \<open>
  A value that is no text is drawn afresh by \<open>normalizeSessionNonce\<close>, so it equals nothing;
  when the other one is no hash either, both are compared as texts.
\<close>

definition hash_text :: "string \<Rightarrow> string option" where
  "hash_text t =
     (let h = (if take 2 t = ''0x'' then drop 2 t else t)
      in if h = [] \<or> \<not> is_hex (js_lower h) \<or> 64 < length h then None
         else Some (''0x'' @ replicate (64 - length h) CHR ''0'' @ h))"

definition hashesEqual :: "jsval \<Rightarrow> jsval \<Rightarrow> bool" where
  "hashesEqual a b =
     (let norm = (\<lambda>v. case v of JStr t \<Rightarrow> map_option Some (hash_text t) | _ \<Rightarrow> Some None);
          plain = (js_lower (js_String a) = js_lower (js_String b))
      in if \<not> js_truthy a \<or> \<not> js_truthy b then False
         else (case (norm a, norm b) of
                 (Some (Some x), Some (Some y)) \<Rightarrow> js_lower x = js_lower y
               | (Some _, Some _) \<Rightarrow> False
               | _ \<Rightarrow> plain))"

definition addressesEqual :: "ethers \<Rightarrow> jsval \<Rightarrow> jsval \<Rightarrow> bool" where
  "addressesEqual el a b =
     (if \<not> js_truthy a \<or> \<not> js_truthy b then False
      else (case (el_getAddress el a, el_getAddress el b) of
              (Some x, Some y) \<Rightarrow> x = y
            | _ \<Rightarrow> js_lower (js_String a) = js_lower (js_String b)))"

definition isZeroAddress :: "ethers \<Rightarrow> jsval \<Rightarrow> bool" where
  "isZeroAddress el v =
     (if \<not> js_truthy v then True
      else (case el_getAddress el v of
              Some a \<Rightarrow> a = ZERO_ADDRESS
            | None \<Rightarrow> js_lower (js_String v) = ZERO_ADDRESS))"

definition usable_address :: "ethers \<Rightarrow> jsval \<Rightarrow> bool" where
  "usable_address el v \<longleftrightarrow> js_truthy v \<and> el_isAddress el v \<and> \<not> isZeroAddress el v"

definition resolveSessionActTarget :: "ethers \<Rightarrow> jsval \<Rightarrow> jsval \<Rightarrow> string option" where
  "resolveSessionActTarget el v fallback =
     (if usable_address el v then el_getAddress el v
      else if usable_address el fallback then el_getAddress el fallback
      else Some ZERO_ADDRESS)"

definition normalizePayloadHash :: "ethers \<Rightarrow> jsval \<Rightarrow> string option" where
  "normalizePayloadHash el v = (if \<not> js_truthy v then Some ZERO_BYTES32 else normalizeSessionNonce el v)"

definition isKnownSessionAct :: "jsval \<Rightarrow> bool" where
  "isKnownSessionAct a \<longleftrightarrow> normalizeSessionActAction a \<in> set SESSION_ACT_ACTIONS"

section \<open>The session of an act\<close>

text \<open>The agent and the hash that a stored session binds.\<close>

definition sessionBindsAgent :: "ethers \<Rightarrow> session option \<Rightarrow> jsval \<Rightarrow> string + string \<times> string" where
  "sessionBindsAgent el sess expected =
     (case sess of
        None \<Rightarrow> Inl ''session_not_bound''
      | Some x \<Rightarrow>
          if vs_agent x = [] \<or> \<not> el_isAddress el (JStr (vs_agent x)) then Inl ''session_not_bound''
          else if vs_hash x = [] then Inl ''session_not_bound''
          else if js_truthy expected \<and> \<not> hashesEqual (JStr (vs_hash x)) expected then Inl ''delegation_hash_mismatch''
          else (case (el_getAddress el (JStr (vs_agent x)), hash_text (vs_hash x)) of
                  (Some a, Some h) \<Rightarrow> Inr (a, h)
                | _ \<Rightarrow> Inl ''threw''))"

definition sessionIsActive :: "ethers \<Rightarrow> session option \<Rightarrow> int \<Rightarrow> bool \<Rightarrow> string + string \<times> string" where
  "sessionIsActive el sess clock revoked =
     (if revoked then Inl ''session_revoked''
      else (case (sess, sessionBindsAgent el sess JNull) of
              (Some x, Inr b) \<Rightarrow>
                if num_finite (vs_validAfter x) \<and> num_lt (JInt clock) (vs_validAfter x) then Inl ''session_not_yet_valid''
                else if \<not> num_finite (vs_validUntil x) then Inl ''session_expired''
                else if num_lt (vs_validUntil x) (JInt clock) then Inl ''session_expired''
                else Inr b
            | (_, Inl e) \<Rightarrow> Inl e
            | (None, Inr b) \<Rightarrow> Inl ''session_not_bound''))"

section \<open>The typed data of an act\<close>

record act_params =
  tp_hash :: jsval
  tp_nonce :: jsval
  tp_action :: jsval
  tp_resource :: jsval
  tp_deadline :: jsval
  tp_target :: jsval
  tp_payload :: jsval
  tp_chainId :: jsval
  tp_contract :: jsval

definition drawn :: "ethers \<Rightarrow> (nat \<Rightarrow> string) \<Rightarrow> nat \<Rightarrow> ethers" where
  "drawn el draw k = el\<lparr>el_nonce := draw k\<rparr>"

definition buildSessionActTypedData :: "ethers \<Rightarrow> (nat \<Rightarrow> string) \<Rightarrow> act_params \<Rightarrow> jsval option" where
  "buildSessionActTypedData el draw p =
     (case (normalizeSessionNonce (drawn el draw 1) (tp_hash p), normalizeSessionNonce (drawn el draw 2) (tp_nonce p),
            toUint (tp_deadline p), resolveSessionActTarget el (tp_target p) JNull,
            normalizePayloadHash (drawn el draw 3) (tp_payload p)) of
        (Some h, Some n, Some dl, Some tgt, Some ph) \<Rightarrow>
          (let action = normalizeSessionActAction (tp_action p);
               resource = js_trim (js_String (js_coalesce (tp_resource p) (JStr [])))
           in if action = [] \<or> resource = [] then None
              else Some (JObj
                [(''domain'', domain_val (sessionEip712Domain el (tp_chainId p) (tp_contract p))),
                 (''types'', SESSION_ACT_TYPES), (''primaryType'', JStr ''SessionAct''),
                 (''message'', JObj [(''delegationHash'', JStr h), (''nonce'', JStr n), (''action'', JStr action),
                    (''resource'', JStr resource), (''deadline'', JStr dl), (''targetAgent'', JStr tgt),
                    (''payloadHash'', JStr ph)])]))
      | _ \<Rightarrow> None)"

section \<open>The signature of an act\<close>

record expected_act =
  xa_agent :: jsval
  xa_hash :: jsval
  xa_nonce :: jsval
  xa_action :: jsval
  xa_resource :: jsval

record verified_act =
  va_agent :: string
  va_hash :: "string option"
  va_nonce :: "string option"
  va_action :: string
  va_resource :: string
  va_deadline :: jsnum
  va_target :: string
  va_payload :: string
  va_domain :: eip_domain
  va_types :: jsval
  va_message :: jsval

text \<open>The names of the fields of the act type; \<open>None\<close> when they cannot be read.\<close>

definition act_fields :: "jsval \<Rightarrow> jsval list option" where
  "act_fields types =
     (case jget types ''SessionAct'' of
        JArr fs \<Rightarrow> if \<exists>f \<in> set fs. js_nullish f then None else Some (map (\<lambda>f. jget f ''name'') fs)
      | _ \<Rightarrow> None)"

definition opt_val :: "string option \<Rightarrow> jsval" where
  "opt_val v = (case v of None \<Rightarrow> JNull | Some t \<Rightarrow> JStr t)"

text \<open>The comparisons with what is expected, in their order: the reason of a refusal.\<close>

definition act_mismatch :: "expected_act \<Rightarrow> verified_act \<Rightarrow> int \<Rightarrow> string option" where
  "act_mismatch x v clock =
     (if js_truthy (xa_hash x) \<and> (va_hash v = None \<or> \<not> hashesEqual (opt_val (va_hash v)) (xa_hash x))
      then Some ''delegation_hash_mismatch''
      else if js_truthy (xa_nonce x) \<and> (va_nonce v = None \<or> \<not> hashesEqual (opt_val (va_nonce v)) (xa_nonce x))
      then Some ''nonce_mismatch''
      else if \<not> js_nullish (xa_action x) \<and> va_action v \<noteq> normalizeSessionActAction (xa_action x) then Some ''action_mismatch''
      else if \<not> js_nullish (xa_resource x) \<and> va_resource v \<noteq> js_trim (js_String (xa_resource x)) then Some ''resource_mismatch''
      else if \<not> num_finite (va_deadline v) then Some ''missing_deadline''
      else if num_lt (va_deadline v) (JInt clock) then Some ''deadline_expired'' else None)"

definition verifySessionAct ::
    "ethers \<Rightarrow> (nat \<Rightarrow> string) \<Rightarrow> jsval \<Rightarrow> jsval \<Rightarrow> expected_act \<Rightarrow> jsval \<Rightarrow> int \<Rightarrow> string + verified_act" where
  "verifySessionAct el draw typedData signature x verifyingContract clock =
     (if \<not> js_truthy typedData \<or> \<not> js_truthy signature then Inl ''missing_typed_data_or_signature''
      else (case canonicalizeSessionDomain el (jget typedData ''domain'') verifyingContract of
              Inl e \<Rightarrow> Inl e
            | Inr dmn \<Rightarrow>
                (let msg = js_or (jget typedData ''message'') (JObj []);
                     types = js_or (jget typedData ''types'') SESSION_ACT_TYPES
                 in if \<not> js_truthy (jget types ''SessionAct'') then Inl ''missing_session_act_types''
                    else (case recovered_payer el dmn types msg signature of
                            None \<Rightarrow> Inl ''verification_error''
                          | Some signer \<Rightarrow>
                              if js_truthy (xa_agent x)
                                 \<and> (\<not> el_isAddress el (xa_agent x) \<or> el_getAddress el (xa_agent x) \<noteq> Some signer)
                              then Inl ''signer_mismatch''
                              else (case act_fields types of
                                      None \<Rightarrow> Inl ''verification_error''
                                    | Some fs \<Rightarrow>
                                        if JStr ''targetAgent'' \<notin> set fs \<or> JStr ''payloadHash'' \<notin> set fs
                                        then Inl ''missing_session_act_types''
                                        else (case (nonce_or_null (drawn el draw 4) (jget msg ''delegationHash''),
                                                    nonce_or_null (drawn el draw 5) (jget msg ''nonce''),
                                                    resolveSessionActTarget el (jget msg ''targetAgent'') JNull,
                                                    normalizePayloadHash (drawn el draw 6) (jget msg ''payloadHash'')) of
                                                (Some h, Some n, Some tgt, Some ph) \<Rightarrow>
                                                  (let v = \<lparr>va_agent = signer, va_hash = h, va_nonce = n,
                                                         va_action = normalizeSessionActAction (jget msg ''action''),
                                                         va_resource = js_trim (js_String (js_coalesce (jget msg ''resource'') (JStr []))),
                                                         va_deadline = js_Number (jget msg ''deadline''), va_target = tgt, va_payload = ph,
                                                         va_domain = dmn, va_types = types, va_message = msg\<rparr>
                                                   in case act_mismatch x v clock of None \<Rightarrow> Inr v | Some e \<Rightarrow> Inl e)
                                              | _ \<Rightarrow> Inl ''verification_error'')))))) "

section \<open>The store of challenges\<close>

record challenge =
  ch_id :: string
  ch_nonce :: string
  ch_hash :: string
  ch_expires :: int
  ch_resources :: jsval
  ch_resource :: jsval
  ch_created :: int

record act_store =
  as_ttl :: int
  as_rows :: "(string, challenge) jsmap"
  as_spent :: "string set"

definition new_act_store :: "jsval \<Rightarrow> act_store" where
  "new_act_store ttlSec = \<lparr>as_ttl = clampChallengeTtlSec ttlSec, as_rows = [], as_spent = {}\<rparr>"

definition store_gc :: "int \<Rightarrow> act_store \<Rightarrow> act_store" where
  "store_gc clock st = st\<lparr>as_rows := filter (\<lambda>(k, row). \<not> ch_expires row < clock) (as_rows st)\<rparr>"

text \<open>Both random texts of \<open>issue\<close> are drawn: the nonce is \<open>draw 0\<close>, the id \<open>draw 1\<close>.\<close>

definition store_issue ::
    "ethers \<Rightarrow> (nat \<Rightarrow> string) \<Rightarrow> jsval \<Rightarrow> jsval \<Rightarrow> jsval \<Rightarrow> jsval \<Rightarrow> int \<Rightarrow> act_store \<Rightarrow> act_store \<times> challenge option" where
  "store_issue el draw hash resources ttlSec resource clock st =
     (let st1 = store_gc clock st
      in case (normalizeSessionNonce (drawn el draw 2) hash, normalizeSessionNonce (drawn el draw 0) JNull,
               normalizeSessionNonce (drawn el draw 3) (JStr (''0x'' @ draw 1))) of
           (Some h, Some n, Some cid) \<Rightarrow>
             (let ttl = (if js_nullish ttlSec then as_ttl st1 else clampChallengeTtlSec ttlSec);
                  row = \<lparr>ch_id = cid, ch_nonce = n, ch_hash = h, ch_expires = clock + ttl,
                         ch_resources = (case resources of
                            JArr (r # rs) \<Rightarrow> resources | _ \<Rightarrow> JArr (map JStr SESSION_ACT_ACTIONS)),
                         ch_resource = js_or resource JNull, ch_created = clock\<rparr>
              in (st1\<lparr>as_rows := jm_set (js_lower cid) row (as_rows st1)\<rparr>, Some row))
         | _ \<Rightarrow> (st1, None))"

definition store_peek :: "jsval \<Rightarrow> act_store \<Rightarrow> challenge option" where
  "store_peek cid st = (if \<not> js_truthy cid then None else jm_get (as_rows st) (js_lower (js_String cid)))"

text \<open>A nonce that is no text is drawn afresh, so it is not spent.\<close>

definition store_isSpent :: "jsval \<Rightarrow> jsval \<Rightarrow> act_store \<Rightarrow> bool" where
  "store_isSpent cid nonce st \<longleftrightarrow>
     js_truthy cid \<and> js_lower (js_String cid) \<in> as_spent st
     \<or> (case nonce of JStr t \<Rightarrow> (case hash_text t of Some n \<Rightarrow> js_lower n \<in> as_spent st | None \<Rightarrow> False) | _ \<Rightarrow> False)"

definition store_getLive :: "jsval \<Rightarrow> jsval \<Rightarrow> int \<Rightarrow> act_store \<Rightarrow> act_store \<times> (string + challenge)" where
  "store_getLive cid expected clock st =
     (if store_isSpent cid JNull st then (st, Inl ''nonce_reused'')
      else (case store_peek cid st of
              None \<Rightarrow> (st, Inl ''challenge_not_found'')
            | Some row \<Rightarrow>
                if store_isSpent (JStr (ch_id row)) (JStr (ch_nonce row)) st then (st, Inl ''nonce_reused'')
                else if ch_expires row < clock
                then (st\<lparr>as_rows := jm_delete (js_lower (ch_id row)) (as_rows st)\<rparr>, Inl ''challenge_expired'')
                else if js_truthy expected \<and> \<not> hashesEqual (JStr (ch_hash row)) expected
                then (st, Inl ''delegation_hash_mismatch'')
                else (st, Inr row)))"

definition store_consume :: "jsval \<Rightarrow> int \<Rightarrow> act_store \<Rightarrow> act_store \<times> (string + challenge)" where
  "store_consume cid clock st =
     (case store_getLive cid JNull clock st of
        (st1, Inl e) \<Rightarrow> (st1, Inl e)
      | (st1, Inr row) \<Rightarrow>
          (st1\<lparr>as_spent := insert (js_lower (ch_nonce row)) (insert (js_lower (ch_id row)) (as_spent st1)),
               as_rows := jm_delete (js_lower (ch_id row)) (as_rows st1)\<rparr>, Inr row))"

definition store_consumeNonce :: "string \<Rightarrow> act_store \<Rightarrow> act_store \<times> string option" where
  "store_consumeNonce nonce st =
     (if nonce = [] then (st, Some ''invalid_nonce'')
      else (case hash_text nonce of
              None \<Rightarrow> (st, Some ''invalid_nonce'')
            | Some n \<Rightarrow>
                if js_lower n \<in> as_spent st then (st, Some ''nonce_reused'')
                else (st\<lparr>as_spent := insert (js_lower n) (as_spent st)\<rparr>, None)))"

text \<open>What a test forces, and a restart: the store is in memory only.\<close>

definition store_expire :: "jsval \<Rightarrow> int \<Rightarrow> act_store \<Rightarrow> act_store" where
  "store_expire cid clock st =
     (case store_peek cid st of
        None \<Rightarrow> st
      | Some row \<Rightarrow> st\<lparr>as_rows := map (\<lambda>(k, r). (k, if r = row then r\<lparr>ch_expires := clock - 1\<rparr> else r)) (as_rows st)\<rparr>)"

section \<open>Accepting an act\<close>

definition challenge_field :: "(challenge \<Rightarrow> jsval) \<Rightarrow> challenge option \<Rightarrow> jsval" where
  "challenge_field f ch = (case ch of None \<Rightarrow> JUndef | Some c \<Rightarrow> f c)"

definition oneshot_ready :: "jsval \<Rightarrow> bool" where
  "oneshot_ready prf' \<longleftrightarrow>
     js_truthy (jget prf' ''nonce'') \<and> \<not> js_nullish (jget prf' ''deadline'') \<and> js_truthy (jget prf' ''action'')
     \<and> \<not> js_nullish (jget prf' ''resource'') \<and> js_trim (js_String (jget prf' ''resource'')) \<noteq> []"

definition typedDataFromActRequest ::
    "ethers \<Rightarrow> (nat \<Rightarrow> string) \<Rightarrow> jsval \<Rightarrow> challenge option \<Rightarrow> jsval \<Rightarrow> string + jsval" where
  "typedDataFromActRequest el draw prf' ch verifyingContract =
     (let td = js_or (jget prf' ''typed_data'') (js_or (jget prf' ''typedData'') JNull)
      in if js_truthy td then Inr td
         else if js_truthy (jget prf' ''message'')
         then Inr (JObj
           [(''domain'', js_or (jget prf' ''domain'') (domain_val (sessionEip712Domain el JUndef verifyingContract))),
            (''types'', js_or (jget prf' ''types'') SESSION_ACT_TYPES),
            (''primaryType'', js_or (jget prf' ''primaryType'') (js_or (jget prf' ''primary_type'') (JStr ''SessionAct''))),
            (''message'', jget prf' ''message'')])
         else if ch \<noteq> None \<or> oneshot_ready prf'
         then (case buildSessionActTypedData el draw
                 \<lparr>tp_hash = js_or (jget prf' ''delegation_hash'') (js_or (jget prf' ''delegationHash'')
                    (challenge_field (\<lambda>c. JStr (ch_hash c)) ch)),
                  tp_nonce = js_or (jget prf' ''nonce'') (challenge_field (\<lambda>c. JStr (ch_nonce c)) ch),
                  tp_action = jget prf' ''action'',
                  tp_resource = js_or (jget prf' ''resource'') (challenge_field ch_resource ch),
                  tp_deadline = js_coalesce (jget prf' ''deadline'') (challenge_field (\<lambda>c. JNum (JInt (ch_expires c))) ch),
                  tp_target = js_or (jget prf' ''target_agent'') (jget prf' ''targetAgent''),
                  tp_payload = js_or (jget prf' ''payload_hash'') (jget prf' ''payloadHash''),
                  tp_chainId = jget (jget prf' ''domain'') ''chainId'',
                  tp_contract = (if jget (jget prf' ''domain'') ''verifyingContract'' = JUndef then verifyingContract
                                 else jget (jget prf' ''domain'') ''verifyingContract'')\<rparr> of
                 Some t \<Rightarrow> Inr t
               | None \<Rightarrow> Inl ''bad_act_fields'')
         else Inl ''missing_typed_data_or_signature'')"

record accepted_act =
  ac_session :: session
  ac_agent :: string
  ac_hash :: string
  ac_action :: string
  ac_resource :: string
  ac_nonce :: "string option"
  ac_challenge :: "string option"
  ac_oneshot :: bool
  ac_signature :: jsval
  ac_target :: string
  ac_payload :: string
  ac_domain :: eip_domain
  ac_types :: jsval
  ac_message :: jsval

text \<open>Why the challenge at hand cannot carry the act.\<close>

definition challenge_refusal :: "challenge \<Rightarrow> string \<Rightarrow> int \<Rightarrow> act_store \<Rightarrow> string option" where
  "challenge_refusal c h clock st =
     (if store_isSpent (JStr (ch_id c)) (JStr (ch_nonce c)) st then Some ''nonce_reused''
      else if ch_expires c < clock then Some ''challenge_expired''
      else if \<not> hashesEqual (JStr (ch_hash c)) (JStr h) then Some ''delegation_hash_mismatch'' else None)"

text \<open>The proof object with the fields that the request or the session supplies.\<close>

definition filled_proof :: "jsval \<Rightarrow> challenge option \<Rightarrow> string \<Rightarrow> string \<Rightarrow> string \<Rightarrow> string \<Rightarrow> string option \<Rightarrow> jsval" where
  "filled_proof prf' ch agent h action resource clientNonce =
     JObj ((case prf' of JObj ps \<Rightarrow> ps | _ \<Rightarrow> [])
       @ [(''action'', JStr action), (''resource'', JStr resource),
          (''nonce'', case clientNonce of Some n \<Rightarrow> JStr n
             | None \<Rightarrow> js_or (jget prf' ''nonce'') (challenge_field (\<lambda>c. JStr (ch_nonce c)) ch)),
          (''deadline'', if clientNonce \<noteq> None then jget prf' ''deadline''
             else js_coalesce (jget prf' ''deadline'') (challenge_field (\<lambda>c. JNum (JInt (ch_expires c))) ch)),
          (''delegation_hash'', js_or (jget prf' ''delegation_hash'') (js_or (jget prf' ''delegationHash'') (JStr h))),
          (''target_agent'', js_or (jget prf' ''target_agent'') (js_or (jget prf' ''targetAgent'')
             (JStr (if clientNonce \<noteq> None then ZERO_ADDRESS else agent))))])"

text \<open>The nonce of an act without a challenge: \<open>None\<close> with a challenge.\<close>

definition client_nonce :: "ethers \<Rightarrow> challenge option \<Rightarrow> jsval \<Rightarrow> act_store \<Rightarrow> string + string option" where
  "client_nonce el ch prf' st =
     (case ch of
        Some c \<Rightarrow> Inr None
      | None \<Rightarrow> (case normalizeSessionNonce el (jget prf' ''nonce'') of
                   None \<Rightarrow> Inl ''invalid_nonce''
                 | Some n \<Rightarrow> if store_isSpent JNull (JStr n) st then Inl ''nonce_reused'' else Inr (Some n)))"

text \<open>The bound on the deadline, and the use of the challenge or of the nonce.\<close>

definition spend_act :: "challenge option \<Rightarrow> string option \<Rightarrow> jsnum \<Rightarrow> int \<Rightarrow> act_store \<Rightarrow> act_store \<times> string option" where
  "spend_act ch clientNonce dl clock st =
     (case ch of
        Some c \<Rightarrow>
          if num_lt (JInt (ch_expires c)) dl then (st, Some ''deadline_after_challenge'')
          else (case store_consume (JStr (ch_id c)) clock st of
                  (st1, Inl e) \<Rightarrow> (st1, Some e)
                | (st1, Inr row) \<Rightarrow> (st1, None))
      | None \<Rightarrow>
          (case checkOneshotDeadlineWindow dl clock of
             Some e \<Rightarrow> (st, Some e)
           | None \<Rightarrow> store_consumeNonce (case clientNonce of Some n \<Rightarrow> n | None \<Rightarrow> []) st))"

definition accepted_of :: "ethers \<Rightarrow> session \<Rightarrow> string \<Rightarrow> string \<Rightarrow> challenge option \<Rightarrow> jsval \<Rightarrow> verified_act \<Rightarrow> string + accepted_act" where
  "accepted_of el x agent h ch signature v =
     (case resolveSessionActTarget el (JStr (va_target v)) (JStr agent) of
        None \<Rightarrow> Inl ''threw''
      | Some tgt \<Rightarrow>
          Inr \<lparr>ac_session = x, ac_agent = agent, ac_hash = h, ac_action = va_action v, ac_resource = va_resource v,
             ac_nonce = va_nonce v, ac_challenge = map_option ch_id ch, ac_oneshot = (ch = None),
             ac_signature = signature, ac_target = tgt, ac_payload = va_payload v, ac_domain = va_domain v,
             ac_types = va_types v, ac_message = va_message v\<rparr>)"

definition acceptSessionAct ::
    "ethers \<Rightarrow> (nat \<Rightarrow> string) \<Rightarrow> session option \<Rightarrow> bool \<Rightarrow> challenge option \<Rightarrow> jsval \<Rightarrow> jsval \<Rightarrow> jsval \<Rightarrow> int \<Rightarrow> act_store
       \<Rightarrow> act_store \<times> (string + accepted_act)" where
  "acceptSessionAct el draw sess revoked ch prf' delegationHash verifyingContract clock st =
     (case (sess, sessionBindsAgent el sess delegationHash, sessionIsActive el sess clock revoked) of
        (_, Inl e, _) \<Rightarrow> (st, Inl e)
      | (_, Inr b, Inl e) \<Rightarrow> (st, Inl e)
      | (None, Inr b, Inr c) \<Rightarrow> (st, Inl ''session_not_bound'')
      | (Some x, Inr (agent, h), Inr c) \<Rightarrow>
          (let action = normalizeSessionActAction (jget prf' ''action'');
               resource = js_trim (js_String (js_coalesce (jget prf' ''resource'')
                 (js_coalesce (challenge_field ch_resource ch) (JStr []))));
               signature = js_or (jget prf' ''signature'') (js_or (jget prf' ''sig'') JNull)
           in if ch = None \<and> (js_nullish (jget prf' ''nonce'') \<or> js_nullish (jget prf' ''deadline''))
              then (st, Inl ''challenge_or_nonce_required'')
              else (case Option.bind ch (\<lambda>c. challenge_refusal c h clock st) of
                      Some e \<Rightarrow> (st, Inl e)
                    | None \<Rightarrow>
                        if action = [] then (st, Inl ''action_required'')
                        else if resource = [] then (st, Inl ''resource_required'')
                        else (case client_nonce (drawn el draw 0) ch prf' st of
                                Inl e \<Rightarrow> (st, Inl e)
                              | Inr cn \<Rightarrow>
                                  (case typedDataFromActRequest el draw (filled_proof prf' ch agent h action resource cn) ch verifyingContract of
                                     Inl e \<Rightarrow> (st, Inl e)
                                   | Inr td \<Rightarrow>
                                       (case verifySessionAct el draw td signature
                                          \<lparr>xa_agent = JStr agent, xa_hash = JStr h,
                                           xa_nonce = (case cn of Some n \<Rightarrow> JStr n | None \<Rightarrow> challenge_field (\<lambda>c. JStr (ch_nonce c)) ch),
                                           xa_action = JStr action, xa_resource = JStr resource\<rparr> verifyingContract clock of
                                          Inl e \<Rightarrow> (st, Inl e)
                                        | Inr v \<Rightarrow>
                                            (case spend_act ch cn (va_deadline v) clock st of
                                               (st1, Some e) \<Rightarrow> (st1, Inl e)
                                             | (st1, None) \<Rightarrow> (st1, accepted_of el x agent h ch signature v)))))))) "

section \<open>The routes\<close>

text \<open>The proof object that the route reads from the body.\<close>

definition request_proof :: "jsval \<Rightarrow> jsval \<Rightarrow> jsval \<Rightarrow> string \<Rightarrow> jsval" where
  "request_proof body action resource h = JObj
     [(''action'', js_or action (jget body ''action'')), (''resource'', js_or resource (jget body ''resource'')),
      (''signature'', js_or (jget body ''signature'') (jget body ''sig'')),
      (''typed_data'', js_or (jget body ''typed_data'') (jget body ''typedData'')),
      (''message'', jget body ''message''), (''domain'', jget body ''domain''), (''types'', jget body ''types''),
      (''nonce'', jget body ''nonce''), (''deadline'', jget body ''deadline''),
      (''target_agent'', js_or (jget body ''target_agent'') (jget body ''targetAgent'')),
      (''payload_hash'', js_or (jget body ''payload_hash'') (jget body ''payloadHash'')),
      (''delegation_hash'', JStr h)]"

record act_request =
  rq_hash :: string
  rq_body :: jsval
  rq_header :: jsval
  rq_action :: jsval
  rq_resource :: jsval

definition proveKeyFromRequest ::
    "ethers \<Rightarrow> (nat \<Rightarrow> string) \<Rightarrow> session_store \<Rightarrow> jsval \<Rightarrow> int \<Rightarrow> act_request \<Rightarrow> act_store \<Rightarrow> act_store \<times> (string + accepted_act)" where
  "proveKeyFromRequest el draw ss verifyingContract clock rq st =
     (let h = rq_hash rq; body = rq_body rq;
          prf' = request_proof body (rq_action rq) (rq_resource rq) h;
          cid = js_or (jget body ''challenge_id'') (js_or (jget body ''challengeId'') (rq_header rq));
          accept = (\<lambda>ch s. acceptSessionAct el draw (store_get h ss) (store_isRevoked h ss) ch prf' (JStr h) verifyingContract clock s)
      in if store_get h ss = None then (st, Inl ''unknown_session'')
         else if js_truthy cid
         then (case store_getLive cid (JStr h) clock st of
                 (st1, Inl e) \<Rightarrow> (st1, Inl e)
               | (st1, Inr row) \<Rightarrow> accept (Some row) st1)
         else if \<not> js_nullish (jget prf' ''nonce'') \<and> \<not> js_nullish (jget prf' ''deadline'') \<and> js_truthy (jget prf' ''signature'')
         then accept None st
         else (st, Inl ''challenge_or_nonce_required''))"

text \<open>\<open>POST /v1/sessions/:delegation_hash/challenge\<close>: the challenge it issues, or the reason.\<close>

definition challenge_route ::
    "ethers \<Rightarrow> (nat \<Rightarrow> string) \<Rightarrow> session_store \<Rightarrow> int \<Rightarrow> string \<Rightarrow> jsval \<Rightarrow> jsval \<Rightarrow> act_store \<Rightarrow> act_store \<times> (string + challenge)" where
  "challenge_route el draw ss clock h hint resources st =
     (case store_get h ss of
        None \<Rightarrow> (st, Inl ''unknown_session'')
      | Some x \<Rightarrow>
          if store_isRevoked h ss then (st, Inl ''session_revoked'')
          else if num_lt (vs_validUntil x) (JInt clock) then (st, Inl ''session_expired'')
          else if vs_agent x = [] \<or> vs_hash x = [] then (st, Inl ''session_not_bound'')
          else (case store_issue el draw (JStr (vs_hash x)) resources JNull hint clock st of
                  (st1, None) \<Rightarrow> (st1, Inl ''threw'')
                | (st1, Some c) \<Rightarrow> (st1, Inr c)))"

definition receiptBindsSession :: "ethers \<Rightarrow> jsval \<Rightarrow> session option \<Rightarrow> bool" where
  "receiptBindsSession el claims sess =
     (case sess of
        None \<Rightarrow> False
      | Some x \<Rightarrow>
          (let agent = js_or (jget claims ''agent_pubkey'') (js_or (jget (jget claims ''session'') ''agent_pubkey'')
                 (jget (jget claims ''caller_binding'') ''agent_pubkey''));
               h = js_or (jget claims ''delegation_hash'') (jget (jget claims ''session'') ''delegation_hash'')
           in if \<not> js_truthy claims \<or> \<not> js_truthy agent \<or> \<not> js_truthy h then False
              else addressesEqual el agent (JStr (vs_agent x)) \<and> hashesEqual h (JStr (vs_hash x))))"

section \<open>What an accepted act rests on\<close>

lemma normalize_text: "t \<noteq> [] \<Longrightarrow> normalizeSessionNonce el (JStr t) = hash_text t"
  by (simp add: normalizeSessionNonce_def hash_text_def)

lemma spend_act_cases:
  assumes "spend_act ch cn dl clock st = (st', None)"
  shows "(\<exists>c row. ch = Some c \<and> \<not> num_lt (JInt (ch_expires c)) dl \<and> store_consume (JStr (ch_id c)) clock st = (st', Inr row))
     \<or> (ch = None \<and> checkOneshotDeadlineWindow dl clock = None
        \<and> store_consumeNonce (case cn of Some n \<Rightarrow> n | None \<Rightarrow> []) st = (st', None))"
  using assms by (auto simp: spend_act_def split: option.splits if_splits prod.splits sum.splits)

lemma acceptSessionAct_Inr:
  assumes "acceptSessionAct el draw sess revoked ch prf' dh vc clock st = (st', Inr a)"
  obtains x agent h b cn td v action resource where "sess = Some x"
    "sessionBindsAgent el sess dh = Inr (agent, h)" "sessionIsActive el sess clock revoked = Inr b"
    "Option.bind ch (\<lambda>c. challenge_refusal c h clock st) = None"
    "client_nonce (drawn el draw 0) ch prf' st = Inr cn"
    "verifySessionAct el draw td (js_or (jget prf' ''signature'') (js_or (jget prf' ''sig'') JNull))
       \<lparr>xa_agent = JStr agent, xa_hash = JStr h,
        xa_nonce = (case cn of Some n \<Rightarrow> JStr n | None \<Rightarrow> challenge_field (\<lambda>c. JStr (ch_nonce c)) ch),
        xa_action = JStr action, xa_resource = JStr resource\<rparr> vc clock = Inr v"
    "spend_act ch cn (va_deadline v) clock st = (st', None)"
    "accepted_of el x agent h ch (js_or (jget prf' ''signature'') (js_or (jget prf' ''sig'') JNull)) v = Inr a"
    "action = normalizeSessionActAction (jget prf' ''action'')" "action \<noteq> []" "resource \<noteq> []"
  using assms unfolding acceptSessionAct_def Let_def
  by (auto split: option.splits sum.splits if_splits prod.splits)

lemma verifySessionAct_Inr:
  assumes "verifySessionAct el draw td signature x vc clock = Inr v"
  shows "canonicalizeSessionDomain el (jget td ''domain'') vc = Inr (va_domain v)"
    and "recovered_payer el (va_domain v) (va_types v) (va_message v) signature = Some (va_agent v)"
    and "js_truthy (xa_agent x) \<Longrightarrow> el_getAddress el (xa_agent x) = Some (va_agent v)"
    and "act_mismatch x v clock = None"
    and "nonce_or_null (drawn el draw 4) (jget (va_message v) ''delegationHash'') = Some (va_hash v)"
    and "nonce_or_null (drawn el draw 5) (jget (va_message v) ''nonce'') = Some (va_nonce v)"
    and "va_action v = normalizeSessionActAction (jget (va_message v) ''action'')"
    and "va_resource v = js_trim (js_String (js_coalesce (jget (va_message v) ''resource'') (JStr [])))"
    and "va_deadline v = js_Number (jget (va_message v) ''deadline'')"
  using assms unfolding verifySessionAct_def Let_def
  by (auto split: option.splits sum.splits if_splits)

lemma no_mismatch:
  assumes "act_mismatch x v clock = None"
  shows "js_truthy (xa_hash x) \<Longrightarrow> va_hash v \<noteq> None \<and> hashesEqual (opt_val (va_hash v)) (xa_hash x)"
    and "js_truthy (xa_nonce x) \<Longrightarrow> va_nonce v \<noteq> None \<and> hashesEqual (opt_val (va_nonce v)) (xa_nonce x)"
    and "xa_action x = JStr t \<Longrightarrow> va_action v = normalizeSessionActAction (JStr t)"
    and "xa_resource x = JStr t \<Longrightarrow> va_resource v = js_trim t"
    and "num_finite (va_deadline v) \<and> \<not> num_lt (va_deadline v) (JInt clock)"
  using assms unfolding act_mismatch_def by (simp_all add: js_nullish_def split: if_splits)



lemma hash_text_shape:
  assumes "hash_text t = Some n"
  shows "length n = 66" "n \<noteq> []" "take 2 n = ''0x''" "is_hex (js_lower (drop 2 n))"
proof -
  have zeros: "is_hex (js_lower (replicate k CHR ''0'' @ h))" if "is_hex (js_lower h)" for k h
  proof -
    have "hex_digit (lower_char CHR ''0'') \<noteq> None" by (simp add: lower_char_def hex_digit_def)
    with that show ?thesis by (auto simp: is_hex_def js_lower_def list_all_iff simp del: not_None_eq)
  qed
  show "length n = 66" "n \<noteq> []" "take 2 n = ''0x''" "is_hex (js_lower (drop 2 n))"
    using assms zeros by (auto simp: hash_text_def Let_def split: if_splits)
qed

lemma hash_text_fixed:
  assumes "length n = 66" "take 2 n = ''0x''" "is_hex (js_lower (drop 2 n))"
  shows "hash_text n = Some n"
proof -
  have "drop 2 n \<noteq> []" "length (drop 2 n) = 64" using assms(1) by auto
  moreover have "n = ''0x'' @ drop 2 n" using assms(2) append_take_drop_id [of 2 n] by simp
  ultimately show ?thesis using assms(2,3) by (simp add: hash_text_def Let_def)
qed

text \<open>What \<open>randomBytes(32).toString('hex')\<close> draws.\<close>

definition draw_ok :: "(nat \<Rightarrow> string) \<Rightarrow> bool" where
  "draw_ok draw \<longleftrightarrow> (\<forall>k. length (draw k) = 64 \<and> is_hex (js_lower (draw k)))"

lemma drawn_fixed: "draw_ok draw \<Longrightarrow> hash_text (''0x'' @ draw k) = Some (''0x'' @ draw k)"
  by (rule hash_text_fixed) (auto simp: draw_ok_def)

lemma normalized_fixed:
  assumes "draw_ok draw" "normalizeSessionNonce (drawn el draw k) v = Some n"
  shows "hash_text n = Some n"
proof -
  have "n = ''0x'' @ draw k \<or> (\<exists>t. hash_text t = Some n)"
    using assms(2) by (auto simp: normalizeSessionNonce_def hash_text_def drawn_def Let_def split: jsval.splits if_splits)
  then show ?thesis
    using drawn_fixed [OF assms(1)] hash_text_fixed hash_text_shape by metis
qed

lemma hashes_equal_fixed:
  assumes "hashesEqual (JStr a) (JStr b)" "hash_text a = Some a" "hash_text b = Some b"
  shows "js_lower a = js_lower b"
  using assms by (auto simp: hashesEqual_def split: if_splits)

section \<open>Single use over a run\<close>

text \<open>
  The contract of \<open>single_use\<close> where the key is what the operation reports: a reported key was
  not used before, is used afterwards, and stays used.
\<close>

fun reported :: "('s \<Rightarrow> 'o \<Rightarrow> 's \<times> 'k option) \<Rightarrow> 's \<Rightarrow> 'o list \<Rightarrow> 'k list" where
  "reported act s [] = []"
| "reported act s (x # xs) =
     (let (s', r) = act s x; ks = reported act s' xs in case r of None \<Rightarrow> ks | Some k \<Rightarrow> k # ks)"

locale single_report =
  fixes act :: "'s \<Rightarrow> 'o \<Rightarrow> 's \<times> 'k option" and used :: "'s \<Rightarrow> 'k \<Rightarrow> bool" and inv :: "'s \<Rightarrow> bool"
    and allowed :: "'o \<Rightarrow> bool"
  assumes keep: "inv s \<Longrightarrow> allowed x \<Longrightarrow> act s x = (s', r) \<Longrightarrow> inv s'"
    and fresh: "inv s \<Longrightarrow> allowed x \<Longrightarrow> act s x = (s', Some k) \<Longrightarrow> \<not> used s k \<and> used s' k"
    and mono: "inv s \<Longrightarrow> allowed x \<Longrightarrow> act s x = (s', r) \<Longrightarrow> used s k \<Longrightarrow> used s' k"
begin

lemma reported_unused: "inv s \<Longrightarrow> list_all allowed xs \<Longrightarrow> k \<in> set (reported act s xs) \<Longrightarrow> \<not> used s k"
proof (induction xs arbitrary: s)
  case (Cons x xs)
  obtain s' r where c: "act s x = (s', r)" by (cases "act s x")
  have a: "allowed x" "list_all allowed xs" using Cons.prems(2) by simp_all
  have i: "inv s'" using keep [OF Cons.prems(1) a(1) c] .
  show ?case
  proof (cases "r = Some k")
    case True
    with c fresh [OF Cons.prems(1) a(1)] show ?thesis by blast
  next
    case False
    with Cons.prems(3) c have "k \<in> set (reported act s' xs)" by (auto simp: Let_def split: option.splits)
    with Cons.IH [OF i a(2)] have "\<not> used s' k" by blast
    with mono [OF Cons.prems(1) a(1) c] show ?thesis by blast
  qed
qed simp

lemma reported_once: "inv s \<Longrightarrow> list_all allowed xs \<Longrightarrow> distinct (reported act s xs)"
proof (induction xs arbitrary: s)
  case (Cons x xs)
  obtain s' r where c: "act s x = (s', r)" by (cases "act s x")
  have a: "allowed x" "list_all allowed xs" using Cons.prems(2) by simp_all
  have i: "inv s'" using keep [OF Cons.prems(1) a(1) c] .
  have "k \<notin> set (reported act s' xs)" if "r = Some k" for k
    using reported_unused [OF i a(2)] fresh [OF Cons.prems(1) a(1)] c that by blast
  with Cons.IH [OF i a(2)] c show ?case by (auto simp: Let_def split: option.splits)
qed simp

end

text \<open>The older contract is the case in which the operation names its key.\<close>

sublocale single_use \<subseteq> report: single_report "\<lambda>s x. let (s', b) = consume s x in (s', if b then Some (key x) else None)" used inv "\<lambda>x. True"
proof unfold_locales
  fix s x s' r
  assume i: "inv s" and a: "(let (s', b) = consume s x in (s', if b then Some (key x) else None)) = (s', r)"
  then obtain b where c: "consume s x = (s', b)" "r = (if b then Some (key x) else None)"
    by (cases "consume s x") auto
  show "inv s'" using keep [OF i c(1)] .
  show "used s k \<Longrightarrow> used s' k" for k using mono [OF i c(1)] .
next
  fix s x s' k
  assume i: "inv s" and a: "(let (s', b) = consume s x in (s', if b then Some (key x) else None)) = (s', Some k)"
  then have "consume s x = (s', True)" "k = key x" by (auto split: prod.splits if_splits)
  with fresh [OF i] spent [OF i] show "\<not> used s k \<and> used s' k" by blast
qed

text \<open>A run: challenges asked for, keys proved, challenges that a test expires.\<close>

datatype act_event =
    Ask "nat \<Rightarrow> string" session_store int string jsval jsval
  | Prove "nat \<Rightarrow> string" session_store int act_request
  | Lapse jsval int

definition act_step :: "ethers \<Rightarrow> jsval \<Rightarrow> act_store \<Rightarrow> act_event \<Rightarrow> act_store \<times> string option" where
  "act_step el vc st x =
     (case x of
        Ask draw ss clock h hint resources \<Rightarrow> (fst (challenge_route el draw ss clock h hint resources st), None)
      | Prove draw ss clock rq \<Rightarrow>
          (case proveKeyFromRequest el draw ss vc clock rq st of
             (st', Inr a) \<Rightarrow> (st', map_option js_lower (ac_nonce a))
           | (st', Inl e) \<Rightarrow> (st', None))
      | Lapse cid clock \<Rightarrow> (store_expire cid clock st, None))"

definition act_event_ok :: "act_event \<Rightarrow> bool" where
  "act_event_ok x = (case x of Ask draw _ _ _ _ _ \<Rightarrow> draw_ok draw | Prove draw _ _ _ \<Rightarrow> draw_ok draw | Lapse _ _ \<Rightarrow> True)"

definition act_store_ok :: "act_store \<Rightarrow> bool" where
  "act_store_ok st \<longleftrightarrow> jm_all (\<lambda>k r. k = js_lower (ch_id r) \<and> hash_text (ch_nonce r) = Some (ch_nonce r)) (as_rows st)"

lemma getLive_state:
  assumes "store_getLive cid dh clock st = (st1, r)"
  shows "act_store_ok st \<Longrightarrow> act_store_ok st1" "as_spent st1 = as_spent st"
  using assms
  by (auto simp: store_getLive_def act_store_ok_def split: if_splits option.splits intro: jm_all_delete)

lemma getLive_Inr:
  assumes "store_getLive cid dh clock st = (st1, Inr row)"
  shows "st1 = st" "store_peek cid st = Some row" "\<not> store_isSpent (JStr (ch_id row)) (JStr (ch_nonce row)) st"
    "\<not> ch_expires row < clock" "js_truthy dh \<Longrightarrow> hashesEqual (JStr (ch_hash row)) dh"
  using assms by (auto simp: store_getLive_def split: if_splits option.splits)

lemma peek_row:
  assumes "act_store_ok st" "store_peek cid st = Some row"
  shows "js_lower (js_String cid) = js_lower (ch_id row)" "hash_text (ch_nonce row) = Some (ch_nonce row)"
  using assms by (auto simp: act_store_ok_def store_peek_def split: if_splits dest!: jm_all_get)

lemma consume_state:
  assumes "store_consume cid clock st = (st1, r)"
  shows "act_store_ok st \<Longrightarrow> act_store_ok st1" "as_spent st \<subseteq> as_spent st1"
  using assms getLive_state
  by (auto simp: store_consume_def act_store_ok_def split: prod.splits sum.splits intro!: jm_all_delete)

lemma consumeNonce_state:
  assumes "store_consumeNonce n st = (st1, r)"
  shows "as_rows st1 = as_rows st" "as_spent st \<subseteq> as_spent st1"
  using assms by (auto simp: store_consumeNonce_def split: if_splits option.splits)

lemma spend_state:
  assumes "spend_act ch cn dl clock st = (st1, r)"
  shows "act_store_ok st \<Longrightarrow> act_store_ok st1" "as_spent st \<subseteq> as_spent st1"
  using assms consume_state consumeNonce_state
  by (fastforce simp: spend_act_def act_store_ok_def split: option.splits if_splits prod.splits sum.splits)+

lemma accept_states:
  assumes "acceptSessionAct el draw sess revoked ch prf' dh vc clock st = (st1, r)"
  shows "st1 = st \<or> (\<exists>cn dl r'. spend_act ch cn dl clock st = (st1, r'))"
  using assms unfolding acceptSessionAct_def Let_def
  by (auto split: option.splits sum.splits if_splits prod.splits)

lemma accept_state:
  assumes "acceptSessionAct el draw sess revoked ch prf' dh vc clock st = (st1, r)"
  shows "act_store_ok st \<Longrightarrow> act_store_ok st1" "as_spent st \<subseteq> as_spent st1"
  using accept_states [OF assms] spend_state by blast+

text \<open>The nonce of an accepted act is the one that the store spends.\<close>

lemma client_nonce_Inr:
  assumes "client_nonce el ch prf' st = Inr cn"
  shows "cn = None \<longleftrightarrow> ch \<noteq> None"
    and "cn = Some n \<Longrightarrow> normalizeSessionNonce el (jget prf' ''nonce'') = Some n \<and> n \<noteq> []"
  using assms
  by (auto simp: client_nonce_def normalizeSessionNonce_def Let_def split: option.splits if_splits jsval.splits)

lemma nonce_or_null_fixed:
  "nonce_or_null (drawn el draw k) v = Some (Some n) \<Longrightarrow> draw_ok draw \<Longrightarrow> hash_text n = Some n"
  by (auto simp: nonce_or_null_def intro: normalized_fixed split: if_splits)

lemma accepted_fields:
  "accepted_of el x agent h ch signature v = Inr a \<Longrightarrow>
    ac_session a = x \<and> ac_agent a = agent \<and> ac_hash a = h \<and> ac_action a = va_action v \<and> ac_resource a = va_resource v \<and>
    ac_nonce a = va_nonce v \<and> ac_oneshot a = (ch = None) \<and> ac_signature a = signature \<and> ac_domain a = va_domain v \<and>
    ac_types a = va_types v \<and> ac_message a = va_message v \<and> ac_payload a = va_payload v"
  by (auto simp: accepted_of_def split: option.splits)

lemma accepted_nonce:
  assumes "acceptSessionAct el draw sess revoked ch prf' dh vc clock st = (st1, Inr a)"
    and "draw_ok draw" "\<And>c. ch = Some c \<Longrightarrow> hash_text (ch_nonce c) = Some (ch_nonce c)"
  obtains n m where "ac_nonce a = Some n" "js_lower n = js_lower m" "hash_text m = Some m"
    "case ch of Some c \<Rightarrow> m = ch_nonce c \<and> (\<exists>row. store_consume (JStr (ch_id c)) clock st = (st1, Inr row))
     | None \<Rightarrow> store_consumeNonce m st = (st1, None)"
proof -
  obtain x agent h cn td v action resource where cn: "client_nonce (drawn el draw 0) ch prf' st = Inr cn"
    and v: "verifySessionAct el draw td (js_or (jget prf' ''signature'') (js_or (jget prf' ''sig'') JNull))
       \<lparr>xa_agent = JStr agent, xa_hash = JStr h,
        xa_nonce = (case cn of Some n \<Rightarrow> JStr n | None \<Rightarrow> challenge_field (\<lambda>c. JStr (ch_nonce c)) ch),
        xa_action = JStr action, xa_resource = JStr resource\<rparr> vc clock = Inr v"
    and sp: "spend_act ch cn (va_deadline v) clock st = (st1, None)"
    and ac: "accepted_of el x agent h ch (js_or (jget prf' ''signature'') (js_or (jget prf' ''sig'') JNull)) v = Inr a"
    using acceptSessionAct_Inr [OF assms(1)] by metis
  define m where "m = (case cn of Some n \<Rightarrow> n | None \<Rightarrow> (case ch of Some c \<Rightarrow> ch_nonce c | None \<Rightarrow> []))"
  have m: "hash_text m = Some m \<and> (case cn of Some n \<Rightarrow> JStr n | None \<Rightarrow> challenge_field (\<lambda>c. JStr (ch_nonce c)) ch) = JStr m"
    using client_nonce_Inr [OF cn] assms(3) normalized_fixed [OF assms(2)]
    by (auto simp: m_def challenge_field_def split: option.splits)
  then have ne: "m \<noteq> []" using hash_text_shape by blast
  from no_mismatch(2) [OF verifySessionAct_Inr(4) [OF v]] m ne
  obtain n where n: "va_nonce v = Some n" "hashesEqual (JStr n) (JStr m)" by (auto simp: opt_val_def)
  have "hash_text n = Some n"
    using nonce_or_null_fixed [OF _ assms(2)] verifySessionAct_Inr(6) [OF v] n(1) by metis
  with n(2) m have low: "js_lower n = js_lower m" by (blast intro: hashes_equal_fixed)
  have act: "case ch of Some c \<Rightarrow> m = ch_nonce c \<and> (\<exists>row. store_consume (JStr (ch_id c)) clock st = (st1, Inr row))
     | None \<Rightarrow> store_consumeNonce m st = (st1, None)"
    using spend_act_cases [OF sp] client_nonce_Inr(1) [OF cn] by (auto simp: m_def split: option.splits)
  have "ac_nonce a = Some n" using accepted_fields [OF ac] n(1) by simp
  from that [OF this low _ act] m show ?thesis by blast
qed

lemma accepted_spends:
  assumes "acceptSessionAct el draw sess revoked ch prf' dh vc clock st = (st1, Inr a)" "draw_ok draw"
    and "act_store_ok st" "\<And>c. ch = Some c \<Longrightarrow> \<exists>cid. store_peek cid st = Some c"
  obtains n where "ac_nonce a = Some n" "js_lower n \<notin> as_spent st" "js_lower n \<in> as_spent st1"
proof -
  have rows: "hash_text (ch_nonce c) = Some (ch_nonce c)" if "ch = Some c" for c
    using assms(4) [OF that] peek_row [OF assms(3)] by blast
  obtain n m where n: "ac_nonce a = Some n" "js_lower n = js_lower m" "hash_text m = Some m"
    "case ch of Some c \<Rightarrow> m = ch_nonce c \<and> (\<exists>row. store_consume (JStr (ch_id c)) clock st = (st1, Inr row))
     | None \<Rightarrow> store_consumeNonce m st = (st1, None)"
    using accepted_nonce [OF assms(1,2) rows] by blast
  have "js_lower m \<notin> as_spent st \<and> js_lower m \<in> as_spent st1"
  proof (cases ch)
    case None
    with n(3,4) show ?thesis by (auto simp: store_consumeNonce_def split: if_splits)
  next
    case (Some c)
    with n(4) obtain row where c: "m = ch_nonce c" "store_consume (JStr (ch_id c)) clock st = (st1, Inr row)" by auto
    then obtain s1 where l: "store_getLive (JStr (ch_id c)) JNull clock st = (s1, Inr row)"
      and s1: "st1 = s1\<lparr>as_spent := insert (js_lower (ch_nonce row)) (insert (js_lower (ch_id row)) (as_spent s1)),
        as_rows := jm_delete (js_lower (ch_id row)) (as_rows s1)\<rparr>"
      by (auto simp: store_consume_def split: prod.splits sum.splits)
    note g = getLive_Inr [OF l]
    obtain cid where "store_peek cid st = Some c" using assms(4) [OF Some] by blast
    then have k: "jm_get (as_rows st) (js_lower (ch_id c)) = Some c"
      using peek_row(1) [OF assms(3)] by (auto simp: store_peek_def split: if_splits)
    with g(2) have "row = c" by (simp add: store_peek_def split: if_splits)
    with g(1,3) s1 c(1) n(3) show ?thesis by (simp add: store_isSpent_def)
  qed
  with n that show ?thesis by metis
qed

lemma prove_spends:
  assumes "proveKeyFromRequest el draw ss vc clock rq st = (st1, Inr a)" "draw_ok draw" "act_store_ok st"
  obtains n where "ac_nonce a = Some n" "js_lower n \<notin> as_spent st" "js_lower n \<in> as_spent st1"
proof -
  from assms(1) obtain ch sess revoked prf' dh where
    acc: "acceptSessionAct el draw sess revoked ch prf' dh vc clock st = (st1, Inr a)"
    and peek: "\<And>c. ch = Some c \<Longrightarrow> \<exists>cid. store_peek cid st = Some c"
    unfolding proveKeyFromRequest_def Let_def
    by (fastforce split: if_splits prod.splits sum.splits dest: getLive_Inr)
  from accepted_spends [OF acc assms(2,3) peek] that show ?thesis by blast
qed

lemma prove_accepts:
  assumes "proveKeyFromRequest el draw ss vc clock rq st = (st1, r)"
  shows "st1 = st \<or> (\<exists>cid dh e. store_getLive cid dh clock st = (st1, Inl e)) \<or>
    (\<exists>ch. acceptSessionAct el draw (store_get (rq_hash rq) ss) (store_isRevoked (rq_hash rq) ss) ch
       (request_proof (rq_body rq) (rq_action rq) (rq_resource rq) (rq_hash rq)) (JStr (rq_hash rq)) vc clock st = (st1, r))"
proof -
  let ?cid = "js_or (jget (rq_body rq) ''challenge_id'') (js_or (jget (rq_body rq) ''challengeId'') (rq_header rq))"
  obtain s l where g: "store_getLive ?cid (JStr (rq_hash rq)) clock st = (s, l)" by (cases "store_getLive ?cid (JStr (rq_hash rq)) clock st")
  show ?thesis
  proof (cases l)
    case (Inl e)
    with assms g show ?thesis unfolding proveKeyFromRequest_def Let_def by (auto split: if_splits)
  next
    case (Inr row)
    with g have "s = st" using getLive_Inr(1) by blast
    with Inr assms g show ?thesis unfolding proveKeyFromRequest_def Let_def by (auto split: if_splits)
  qed
qed

lemma prove_state:
  assumes "proveKeyFromRequest el draw ss vc clock rq st = (st1, r)"
  shows "act_store_ok st \<Longrightarrow> act_store_ok st1" "as_spent st \<subseteq> as_spent st1"
proof -
  have "(act_store_ok st \<longrightarrow> act_store_ok st1) \<and> as_spent st \<subseteq> as_spent st1"
    using prove_accepts [OF assms]
  proof (elim disjE exE)
    show "st1 = st \<Longrightarrow> (act_store_ok st \<longrightarrow> act_store_ok st1) \<and> as_spent st \<subseteq> as_spent st1" by simp
  next
    fix cid dh e
    assume "store_getLive cid dh clock st = (st1, Inl e)"
    from getLive_state [OF this] show "(act_store_ok st \<longrightarrow> act_store_ok st1) \<and> as_spent st \<subseteq> as_spent st1" by simp
  next
    fix ch
    assume "acceptSessionAct el draw (store_get (rq_hash rq) ss) (store_isRevoked (rq_hash rq) ss) ch
       (request_proof (rq_body rq) (rq_action rq) (rq_resource rq) (rq_hash rq)) (JStr (rq_hash rq)) vc clock st = (st1, r)"
    from accept_state [OF this] show "(act_store_ok st \<longrightarrow> act_store_ok st1) \<and> as_spent st \<subseteq> as_spent st1" by simp
  qed
  then show "act_store_ok st \<Longrightarrow> act_store_ok st1" "as_spent st \<subseteq> as_spent st1" by blast+
qed

lemma gc_ok: "act_store_ok st \<Longrightarrow> act_store_ok (store_gc clock st)"
  by (auto simp: act_store_ok_def store_gc_def jm_all_def list_all_iff)

lemma issue_state:
  assumes "draw_ok draw" "act_store_ok st"
  shows "act_store_ok (fst (store_issue el draw hash resources ttlSec resource clock st))"
    and "as_spent (fst (store_issue el draw hash resources ttlSec resource clock st)) = as_spent st"
  using gc_ok [OF assms(2)] normalized_fixed [OF assms(1)]
  by (auto simp: store_issue_def Let_def act_store_ok_def store_gc_def split: option.splits intro!: jm_all_set)

lemma challenge_state:
  assumes "draw_ok draw" "act_store_ok st"
  shows "act_store_ok (fst (challenge_route el draw ss clock h hint resources st))"
    and "as_spent (fst (challenge_route el draw ss clock h hint resources st)) = as_spent st"
proof -
  have "fst (challenge_route el draw ss clock h hint resources st) = st \<or>
      fst (challenge_route el draw ss clock h hint resources st) =
        fst (store_issue el draw (JStr (vs_hash (the (store_get h ss)))) resources JNull hint clock st)"
    by (auto simp: challenge_route_def split: option.splits prod.splits)
  with issue_state [OF assms] assms(2)
  show "act_store_ok (fst (challenge_route el draw ss clock h hint resources st))"
    "as_spent (fst (challenge_route el draw ss clock h hint resources st)) = as_spent st" by metis+
qed

lemma expire_state:
  "act_store_ok st \<Longrightarrow> act_store_ok (store_expire cid clock st)" "as_spent (store_expire cid clock st) = as_spent st"
  by (auto simp: store_expire_def act_store_ok_def jm_all_def list_all_iff split: option.splits if_splits)

interpretation acts: single_report "act_step el vc" "\<lambda>st k. k \<in> as_spent st" act_store_ok act_event_ok
proof unfold_locales
  fix st x st' r
  assume i: "act_store_ok st" "act_event_ok x" and a: "act_step el vc st x = (st', r)"
  show "act_store_ok st'"
  proof (cases x)
    case (Prove draw ss clock rq)
    with a have "\<exists>r'. proveKeyFromRequest el draw ss vc clock rq st = (st', r')"
      by (auto simp: act_step_def split: prod.splits sum.splits)
    with prove_state(1) i(1) show ?thesis by blast
  qed (use i a challenge_state(1) expire_state(1) in \<open>auto simp: act_step_def act_event_ok_def\<close>)
  show "k \<in> as_spent st \<Longrightarrow> k \<in> as_spent st'" for k
  proof (cases x)
    case (Prove draw ss clock rq)
    with a have "\<exists>r'. proveKeyFromRequest el draw ss vc clock rq st = (st', r')"
      by (auto simp: act_step_def split: prod.splits sum.splits)
    then show "k \<in> as_spent st \<Longrightarrow> k \<in> as_spent st'" using prove_state(2) by blast
  qed (use i a challenge_state(2) expire_state(2) in \<open>auto simp: act_step_def act_event_ok_def\<close>)
next
  fix st x st' k
  assume i: "act_store_ok st" "act_event_ok x" and a: "act_step el vc st x = (st', Some k)"
  then obtain draw ss clock rq y where p: "proveKeyFromRequest el draw ss vc clock rq st = (st', Inr y)"
    and k: "map_option js_lower (ac_nonce y) = Some k" and d: "draw_ok draw"
    by (auto simp: act_step_def act_event_ok_def split: act_event.splits prod.splits sum.splits)
  from prove_spends [OF p d i(1)] k show "k \<notin> as_spent st \<and> k \<in> as_spent st'" by (metis option.sel option.simps(9))
qed

section \<open>Properties\<close>

text \<open>
  Property C22. An act is accepted at most once: over any run of challenges, proofs of keys (with a challenge
  or with a nonce of the client) and lapses, the nonces of the accepted acts are distinct in
  every letter case.
\<close>

theorem act_nonces_once:
  assumes "list_all act_event_ok evs"
  shows "distinct (reported (act_step el vc) (new_act_store ttl) evs)"
  by (rule acts.reported_once [OF _ assms]) (simp add: act_store_ok_def new_act_store_def)



text \<open>
  The spent nonces are in memory only. A request that was accepted with a nonce of the client is accepted again, with the
  same result, by a gateway that has restarted, as long as its deadline has not passed.
\<close>

lemma unspent_again:
  assumes "acceptSessionAct el draw sess revoked None prf' dh vc clock st = (st', Inr a)" "as_spent s0 = {}"
  shows "\<exists>s1. acceptSessionAct el draw sess revoked None prf' dh vc clock s0 = (s1, Inr a)"
proof -
  have c: "client_nonce e None prf' s0 = Inr cn" if "client_nonce e None prf' st = Inr cn" for e cn
    using that assms(2) by (auto simp: client_nonce_def store_isSpent_def split: option.splits if_splits jsval.splits)
  have s: "\<exists>s1. spend_act None cn dl clock s0 = (s1, None)" if "spend_act None cn dl clock st = (s', None)" for cn dl s'
    using that assms(2) by (auto simp: spend_act_def store_consumeNonce_def split: option.splits if_splits)
  show ?thesis
    using assms(1) unfolding acceptSessionAct_def Let_def
    by (auto dest!: c s split: option.splits sum.splits if_splits prod.splits)
qed

theorem restart_forgets_nonce:
  assumes "proveKeyFromRequest el draw ss vc clock rq st = (st', Inr a)" "ac_oneshot a"
  shows "\<exists>s1. proveKeyFromRequest el draw ss vc clock rq (new_act_store ttl) = (s1, Inr a)"
proof -
  have "as_spent (new_act_store ttl) = {}" by (simp add: new_act_store_def)
  note again = unspent_again [OF _ this]
  have one: False if "acceptSessionAct el draw sess revoked (Some c) prf' dh vc clock s = (st', Inr a)" for sess revoked c prf' dh s
    using acceptSessionAct_Inr [OF that] accepted_fields assms(2) by (metis option.distinct(1))
  have no_id: "\<not> js_truthy (js_or (jget (rq_body rq) ''challenge_id'') (js_or (jget (rq_body rq) ''challengeId'') (rq_header rq)))"
    using assms(1) one unfolding proveKeyFromRequest_def Let_def by (auto split: if_splits prod.splits sum.splits)
  with assms(1) show ?thesis
    unfolding proveKeyFromRequest_def Let_def by (auto split: if_splits intro: again)
qed

section \<open>Witnesses\<close>

definition act_ethers :: ethers where
  "act_ethers = \<lparr>el_isAddress = (\<lambda>v. case v of JStr t \<Rightarrow> t \<noteq> [] | _ \<Rightarrow> False),
     el_getAddress = (\<lambda>v. case v of JStr t \<Rightarrow> if t = [] then None else Some t | _ \<Rightarrow> None),
     el_recover = (\<lambda>d t m x. Some ''0xaa''), el_hash = (\<lambda>d t m. Some ''0xab''), el_nonce = ''7''\<rparr>"

definition act_session :: session where
  "act_session = \<lparr>vs_payer = ''0xbb'', vs_agent = ''0xaa'', vs_hash = ''0xab'', vs_validAfter = JInt 0, vs_validUntil = JInt 9000,
     vs_maxSpend = ''5'', vs_routes = ''*'', vs_nonce = ''0x1'',
     vs_domain = sessionEip712Domain act_ethers JUndef JUndef, ss_signature = JStr ''s'', ss_lookup = [], ss_recorded = 1\<rparr>"

definition act_sessions :: session_store where
  "act_sessions = \<lparr>st_persist = True, st_sessions = [(''0xab'', act_session)], st_revocations = [], st_disk = ([], [])\<rparr>"

definition act_draw :: "nat \<Rightarrow> string" where
  "act_draw k = replicate 64 CHR ''a''"

definition act_rq :: act_request where
  "act_rq = \<lparr>rq_hash = ''0xAB'', rq_body = JObj [(''nonce'', JStr ''0x1F''), (''deadline'', JNum (JInt 1100)),
     (''action'', JStr ''handoff''), (''resource'', JStr ''task''), (''signature'', JStr ''s'')],
     rq_header = JUndef, rq_action = JNull, rq_resource = JNull\<rparr>"

lemma act_draw_ok: "draw_ok act_draw"
proof -
  have "is_hex (js_lower (replicate 64 CHR ''a''))" by code_simp
  then show ?thesis by (simp add: draw_ok_def act_draw_def)
qed

theorem act_nonces_once_witness:
  "distinct (reported (act_step act_ethers JNull) (new_act_store JNull)
     [Ask act_draw act_sessions 1000 ''0xab'' JNull JNull, Prove act_draw act_sessions 1000 act_rq,
      Prove act_draw act_sessions 1001 act_rq])
   \<and> reported (act_step act_ethers JNull) (new_act_store JNull)
     [Prove act_draw act_sessions 1000 act_rq, Prove act_draw act_sessions 1001 act_rq]
     = [''0x'' @ replicate 62 CHR ''0'' @ ''1f'']"
proof -
  have "reported (act_step act_ethers JNull) (new_act_store JNull)
     [Prove act_draw act_sessions 1000 act_rq, Prove act_draw act_sessions 1001 act_rq]
     = [''0x'' @ replicate 62 CHR ''0'' @ ''1f'']" by code_simp
  moreover have "list_all act_event_ok [Ask act_draw act_sessions 1000 ''0xab'' JNull JNull,
      Prove act_draw act_sessions 1000 act_rq, Prove act_draw act_sessions 1001 act_rq]"
    by (simp add: act_event_ok_def act_draw_ok)
  ultimately show ?thesis using act_nonces_once by blast
qed

lemma act_accepted:
  obtains st a where "proveKeyFromRequest act_ethers act_draw act_sessions JNull 1000 act_rq (new_act_store JNull) = (st, Inr a)"
    "ac_oneshot a" "ac_agent a = ''0xaa''" "ac_action a = ''handoff''"
proof -
  have "case snd (proveKeyFromRequest act_ethers act_draw act_sessions JNull 1000 act_rq (new_act_store JNull)) of
      Inr a \<Rightarrow> ac_oneshot a \<and> ac_agent a = ''0xaa'' \<and> ac_action a = ''handoff'' | Inl e \<Rightarrow> False" by code_simp
  then show ?thesis
    using that by (cases "proveKeyFromRequest act_ethers act_draw act_sessions JNull 1000 act_rq (new_act_store JNull)")
      (auto split: sum.splits)
qed


theorem restart_forgets_nonce_witness:
  "\<exists>st a s1. proveKeyFromRequest act_ethers act_draw act_sessions JNull 1000 act_rq (new_act_store JNull) = (st, Inr a) \<and>
     proveKeyFromRequest act_ethers act_draw act_sessions JNull 1000 act_rq (new_act_store (JNum (JInt 200))) = (s1, Inr a)"
proof -
  obtain st a where p: "proveKeyFromRequest act_ethers act_draw act_sessions JNull 1000 act_rq (new_act_store JNull) = (st, Inr a)"
    and a: "ac_oneshot a" by (rule act_accepted) blast
  from restart_forgets_nonce [OF p a] p show ?thesis by blast
qed

end
