(* ===== verification/Receipt_Lock.thy ===== *)
theory Receipt_Lock
  imports Js_Store
begin

text \<open>
  services/gateway/src/receipt-log-lock.js: the lock of the receipt log directory, over a model of
  what the kernel keeps: the file at the lock path, the open file descriptions with their inodes,
  and the exclusive \<open>flock\<close> of an inode. Any number of processes take the lock; a step is one system
  call of one of them, so that their calls interleave, and the path may be deleted, replaced
  or put back at any time. An inode number stands for the pair (dev, ino). It is free for a new
  file when no open description has it. \<open>honest\<close> says that the helper really locks: one that does not
  exits with 0 and takes no lock.
\<close>

section \<open>State\<close>

datatype node = Regular nat | Not_regular

text \<open>How far a process is inside \<open>acquireReceiptLogLock\<close>: its open descriptor, and the one of the probe.\<close>

datatype stage = Idle | Stated | Opened nat | Flocked nat | Probing nat nat | Conflicted nat

record lock_world =
  lw_path :: "node option"
  lw_open :: "nat \<rightharpoonup> nat"
  lw_flock :: "nat \<rightharpoonup> nat"
  lw_held :: "nat \<rightharpoonup> nat"
  lw_stage :: "nat \<Rightarrow> stage"
  lw_next :: nat

datatype lock_reply = Took bool | Refused string

definition closeQuietly :: "nat \<Rightarrow> lock_world \<Rightarrow> lock_world" where
  "closeQuietly d w = w\<lparr>lw_open := (lw_open w)(d := None),
     lw_flock := (\<lambda>i. if lw_flock w i = Some d then None else lw_flock w i)\<rparr>"

definition open_file :: "nat \<Rightarrow> lock_world \<Rightarrow> nat \<times> lock_world" where
  "open_file i w = (lw_next w, w\<lparr>lw_open := (lw_open w)(lw_next w \<mapsto> i), lw_next := lw_next w + 1\<rparr>)"

text \<open>The helper: \<open>True\<close> is the exit code 0, \<open>False\<close> the code of a conflict.\<close>

definition runFlock :: "bool \<Rightarrow> nat \<Rightarrow> lock_world \<Rightarrow> lock_world \<times> bool" where
  "runFlock honest d w =
     (case lw_open w d of
        None \<Rightarrow> (w, False)
      | Some i \<Rightarrow>
          if \<not> honest then (w, True)
          else (case lw_flock w i of
                  None \<Rightarrow> (w\<lparr>lw_flock := (lw_flock w)(i \<mapsto> d)\<rparr>, True)
                | Some d' \<Rightarrow> (w, d' = d)))"

definition sameInode :: "lock_world \<Rightarrow> nat \<Rightarrow> bool" where
  "sameInode w d \<longleftrightarrow> (case (lw_open w d, lw_path w) of (Some i, Some (Regular j)) \<Rightarrow> i = j | _ \<Rightarrow> False)"

section \<open>Taking the lock\<close>

abbreviation to_stage :: "nat \<Rightarrow> stage \<Rightarrow> lock_world \<Rightarrow> lock_world" where
  "to_stage p g w \<equiv> w\<lparr>lw_stage := (lw_stage w)(p := g)\<rparr>"

definition give_up :: "nat \<Rightarrow> string \<Rightarrow> lock_world \<Rightarrow> lock_world \<times> lock_reply option" where
  "give_up p reason w = (to_stage p Idle w, Some (Refused reason))"

text \<open>A new file gets the inode \<open>i\<close>, when no open description has it.\<close>

definition inode_free :: "lock_world \<Rightarrow> nat \<Rightarrow> bool" where
  "inode_free w i = list_all (\<lambda>d. lw_open w d \<noteq> Some i) [0..<lw_next w]"

definition open_lock :: "nat \<Rightarrow> nat \<Rightarrow> lock_world \<Rightarrow> lock_world \<times> lock_reply option" where
  "open_lock p i w =
     (case lw_path w of
        Some Not_regular \<Rightarrow> give_up p ''log_lock_unavailable'' w
      | Some (Regular j) \<Rightarrow> (let (d, w1) = open_file j w in (to_stage p (Opened d) w1, None))
      | None \<Rightarrow>
          if \<not> inode_free w i then (w, None)
          else (let (d, w1) = open_file i (w\<lparr>lw_path := Some (Regular i)\<rparr>) in (to_stage p (Opened d) w1, None)))"

definition acquire_call :: "bool \<Rightarrow> nat \<Rightarrow> nat \<Rightarrow> lock_world \<Rightarrow> lock_world \<times> lock_reply option" where
  "acquire_call honest p i w =
     (case lw_stage w p of
        Idle \<Rightarrow>
          (case lw_held w p of
             Some d \<Rightarrow> (w, Some (if sameInode w d then Took True else Refused ''log_lock_lost''))
           | None \<Rightarrow> (if lw_path w = Some Not_regular then (w, Some (Refused ''log_lock_unavailable''))
                      else (to_stage p Stated w, None)))
      | Stated \<Rightarrow> open_lock p i w
      | Opened d \<Rightarrow>
          (let (w1, ok) = runFlock honest d w
           in if ok then (to_stage p (Flocked d) w1, None) else give_up p ''log_locked'' (closeQuietly d w1))
      | Flocked d \<Rightarrow>
          (case lw_path w of
             Some (Regular j) \<Rightarrow> (let (b, w1) = open_file j w in (to_stage p (Probing d b) w1, None))
           | _ \<Rightarrow> give_up p ''log_lock_unavailable'' (closeQuietly d w))
      | Probing d b \<Rightarrow>
          (let (w1, ok) = runFlock honest b w; w2 = closeQuietly b w1
           in if ok then give_up p ''log_lock_unavailable'' (closeQuietly d w2) else (to_stage p (Conflicted d) w2, None))
      | Conflicted d \<Rightarrow>
          (if sameInode w d then (to_stage p Idle (w\<lparr>lw_held := (lw_held w)(p \<mapsto> d)\<rparr>), Some (Took False))
           else give_up p ''log_lock_unavailable'' (closeQuietly d w)))"

definition verifyReceiptLogLock :: "lock_world \<Rightarrow> nat \<Rightarrow> string option" where
  "verifyReceiptLogLock w p =
     (case lw_held w p of
        None \<Rightarrow> Some ''log_lock_missing''
      | Some d \<Rightarrow> if sameInode w d then None else Some ''log_lock_lost'')"

definition holdsReceiptLogLock :: "lock_world \<Rightarrow> nat \<Rightarrow> bool" where
  "holdsReceiptLogLock w p \<longleftrightarrow> verifyReceiptLogLock w p = None"

section \<open>Steps\<close>

definition stage_files :: "stage \<Rightarrow> nat list" where
  "stage_files g = (case g of Idle \<Rightarrow> [] | Stated \<Rightarrow> [] | Opened d \<Rightarrow> [d] | Flocked d \<Rightarrow> [d]
     | Probing d b \<Rightarrow> [b, d] | Conflicted d \<Rightarrow> [d])"

definition held_files :: "lock_world \<Rightarrow> nat \<Rightarrow> nat list" where
  "held_files w p = (case lw_held w p of None \<Rightarrow> [] | Some d \<Rightarrow> [d])"

definition closeAll :: "nat list \<Rightarrow> lock_world \<Rightarrow> lock_world" where
  "closeAll ds w = fold closeQuietly ds w"

text \<open>
  One call of the process \<open>p\<close>; an error of a call (an open that fails, a helper that dies or times out);
  the end of a process, or the release of its locks in a test; and any change of the path.
\<close>

datatype lock_event = Call nat nat | Fail_call nat | Exit nat | Move "node option"

definition lock_do :: "bool \<Rightarrow> lock_world \<Rightarrow> lock_event \<Rightarrow> lock_world" where
  "lock_do honest w x =
     (case x of
        Call p i \<Rightarrow> fst (acquire_call honest p i w)
      | Fail_call p \<Rightarrow> to_stage p Idle (closeAll (stage_files (lw_stage w p)) w)
      | Exit p \<Rightarrow> to_stage p Idle (closeAll (held_files w p @ stage_files (lw_stage w p)) w\<lparr>lw_held := (lw_held w)(p := None)\<rparr>)
      | Move n \<Rightarrow> w\<lparr>lw_path := n\<rparr>)"

definition boot_world :: "node option \<Rightarrow> lock_world" where
  "boot_world n = \<lparr>lw_path = n, lw_open = Map.empty, lw_flock = Map.empty, lw_held = Map.empty, lw_stage = (\<lambda>p. Idle), lw_next = 0\<rparr>"

section \<open>The invariant\<close>

text \<open>The descriptors of a process, and those on which it has the lock.\<close>

definition owned :: "lock_world \<Rightarrow> nat \<Rightarrow> nat set" where
  "owned w p = set (held_files w p) \<union> set (stage_files (lw_stage w p))"

definition locked_files :: "lock_world \<Rightarrow> nat \<Rightarrow> nat set" where
  "locked_files w p = set (held_files w p) \<union>
     (case lw_stage w p of Flocked d \<Rightarrow> {d} | Probing d b \<Rightarrow> {d} | Conflicted d \<Rightarrow> {d} | _ \<Rightarrow> {})"

definition kernel_ok :: "lock_world \<Rightarrow> bool" where
  "kernel_ok w \<longleftrightarrow> (\<forall>d i. lw_open w d = Some i \<longrightarrow> d < lw_next w) \<and> (\<forall>i d. lw_flock w i = Some d \<longrightarrow> lw_open w d = Some i)"

definition files_ok :: "lock_world \<Rightarrow> bool" where
  "files_ok w \<longleftrightarrow> (\<forall>p. \<forall>d \<in> owned w p. lw_open w d \<noteq> None) \<and> (\<forall>p q. p \<noteq> q \<longrightarrow> owned w p \<inter> owned w q = {})
     \<and> (\<forall>p. lw_stage w p = Idle \<or> lw_held w p = None)
     \<and> (\<forall>p d b. lw_stage w p = Probing d b \<longrightarrow> d \<noteq> b)"

definition locks_ok :: "bool \<Rightarrow> lock_world \<Rightarrow> bool" where
  "locks_ok honest w \<longleftrightarrow>
     (if honest then \<forall>p. \<forall>d \<in> locked_files w p. \<forall>i. lw_open w d = Some i \<longrightarrow> lw_flock w i = Some d
      else lw_flock w = Map.empty \<and> lw_held w = Map.empty \<and> (\<forall>p d. lw_stage w p \<noteq> Conflicted d))"

definition lock_inv :: "bool \<Rightarrow> lock_world \<Rightarrow> bool" where
  "lock_inv honest w \<longleftrightarrow> kernel_ok w \<and> files_ok w \<and> locks_ok honest w"

lemmas owned_simps = owned_def held_files_def stage_files_def locked_files_def

lemma inode_free: "kernel_ok w \<Longrightarrow> inode_free w i \<longleftrightarrow> i \<notin> ran (lw_open w)"
  by (auto simp: inode_free_def kernel_ok_def list_all_iff ran_def)

lemma kernel_close: "kernel_ok w \<Longrightarrow> kernel_ok (closeQuietly d w)"
  by (auto simp: kernel_ok_def closeQuietly_def)

lemma kernel_open: "kernel_ok w \<Longrightarrow> kernel_ok (snd (open_file i w))"
  by (fastforce simp: kernel_ok_def open_file_def)

lemma kernel_flock: "kernel_ok w \<Longrightarrow> kernel_ok (fst (runFlock honest d w))"
  by (auto simp: kernel_ok_def runFlock_def split: option.splits)

lemma kernel_closeAll: "kernel_ok w \<Longrightarrow> kernel_ok (closeAll ds w)"
  unfolding closeAll_def by (induction ds arbitrary: w) (auto intro: kernel_close)

lemma kernel_same: "lw_open w' = lw_open w \<Longrightarrow> lw_flock w' = lw_flock w \<Longrightarrow> lw_next w' = lw_next w \<Longrightarrow> kernel_ok w \<Longrightarrow> kernel_ok w'"
  by (simp add: kernel_ok_def)

lemma owned_old: "lock_inv honest w \<Longrightarrow> d \<in> owned w p \<Longrightarrow> d < lw_next w"
  by (auto simp: lock_inv_def kernel_ok_def files_ok_def)

lemma owned_disj: "lock_inv honest w \<Longrightarrow> d \<in> owned w p \<Longrightarrow> e \<in> owned w q \<Longrightarrow> p \<noteq> q \<Longrightarrow> d \<noteq> e"
  unfolding lock_inv_def files_ok_def by blast

lemma stage_held: "lock_inv honest w \<Longrightarrow> lw_stage w p \<noteq> Idle \<Longrightarrow> lw_held w p = None"
  unfolding lock_inv_def files_ok_def by blast

text \<open>What a step of one process leaves to the others.\<close>

definition spares :: "lock_world \<Rightarrow> lock_world \<Rightarrow> nat \<Rightarrow> bool" where
  "spares w w' p \<longleftrightarrow> (\<forall>q. q \<noteq> p \<longrightarrow> lw_held w' q = lw_held w q \<and> lw_stage w' q = lw_stage w q \<and>
     (\<forall>d \<in> owned w q. lw_open w' d = lw_open w d \<and> (\<forall>i. lw_flock w i = Some d \<longrightarrow> lw_flock w' i = Some d)))"

definition own_ok :: "bool \<Rightarrow> lock_world \<Rightarrow> nat \<Rightarrow> bool" where
  "own_ok honest w p \<longleftrightarrow> (\<forall>d \<in> owned w p. lw_open w d \<noteq> None) \<and> (lw_stage w p = Idle \<or> lw_held w p = None) \<and>
     (\<forall>d b. lw_stage w p = Probing d b \<longrightarrow> d \<noteq> b) \<and>
     (if honest then \<forall>d \<in> locked_files w p. \<forall>i. lw_open w d = Some i \<longrightarrow> lw_flock w i = Some d
      else lw_flock w = Map.empty \<and> lw_held w p = None \<and> (\<forall>d. lw_stage w p \<noteq> Conflicted d))"

lemma owned_same: "lw_held w' q = lw_held w q \<Longrightarrow> lw_stage w' q = lw_stage w q \<Longrightarrow> owned w' q = owned w q \<and> locked_files w' q = locked_files w q"
  by (simp add: owned_simps)

lemma locked_owned: "locked_files w q \<subseteq> owned w q"
  by (auto simp: owned_simps split: stage.splits)

lemma step_inv:
  assumes inv: "lock_inv honest w" and kernel: "kernel_ok w'" and others: "spares w w' p"
    and mine: "owned w' p \<subseteq> insert (lw_next w) (owned w p)" and own: "own_ok honest w' p"
  shows "lock_inv honest w'"
proof -
  have same: "owned w' q = owned w q \<and> locked_files w' q = locked_files w q" if "q \<noteq> p" for q
    using others that by (intro owned_same) (simp_all add: spares_def)
  have open': "lw_open w' d = lw_open w d" if "q \<noteq> p" "d \<in> owned w q" for q d
    using others that by (simp add: spares_def)
  have fresh: "lw_next w \<notin> owned w q" for q using owned_old [OF inv, of "lw_next w"] by blast
  have disj: "owned w q \<inter> owned w r = {}" if "q \<noteq> r" for q r
    using inv that by (auto simp: lock_inv_def files_ok_def)
  have mine': "owned w' p \<inter> owned w r = {}" if "r \<noteq> p" for r
    using mine fresh disj that by blast
  have "files_ok w'"
    unfolding files_ok_def
  proof (intro conjI allI impI ballI)
    fix q d assume "d \<in> owned w' q"
    then show "lw_open w' d \<noteq> None"
      using inv same open' own by (cases "q = p") (auto simp: lock_inv_def files_ok_def own_ok_def)
  next
    fix q r :: nat assume "q \<noteq> r"
    then show "owned w' q \<inter> owned w' r = {}"
      using same [of q] same [of r] disj [of q r] mine' [of q] mine' [of r] by (cases "q = p"; cases "r = p") auto
  next
    fix q show "lw_stage w' q = Idle \<or> lw_held w' q = None"
      using inv others own by (cases "q = p") (auto simp: lock_inv_def files_ok_def spares_def own_ok_def)
  next
    fix q d b assume "lw_stage w' q = Probing d b"
    then show "d \<noteq> b"
      using inv others own by (cases "q = p") (auto simp: lock_inv_def files_ok_def spares_def own_ok_def)
  qed
  moreover have "locks_ok honest w'"
  proof (cases honest)
    case True
    have "lw_flock w' i = Some d" if d: "d \<in> locked_files w' q" "lw_open w' d = Some i" for q d i
    proof (cases "q = p")
      case False
      have l: "d \<in> locked_files w q" using same [OF False] d(1) by simp
      then have o1: "d \<in> owned w q" using locked_owned by blast
      then have "lw_open w d = Some i" using open' [OF False] d(2) by simp
      with l inv True have "lw_flock w i = Some d" by (auto simp: lock_inv_def locks_ok_def)
      with others False o1 show ?thesis by (auto simp: spares_def)
    next
      case here: True
      with own d \<open>honest\<close> show ?thesis by (auto simp: own_ok_def)
    qed
    with True show ?thesis by (simp add: locks_ok_def)
  next
    case False
    have "lw_held w' q = None \<and> (\<forall>d. lw_stage w' q \<noteq> Conflicted d)" for q
      using inv others own False by (cases "q = p") (auto simp: lock_inv_def locks_ok_def spares_def own_ok_def)
    with own False show ?thesis by (auto simp: locks_ok_def own_ok_def)
  qed
  ultimately show ?thesis using kernel by (simp add: lock_inv_def)
qed

lemma spares_close: "lock_inv honest w \<Longrightarrow> d \<in> owned w p \<Longrightarrow> spares w (closeQuietly d w) p"
  using owned_disj by (fastforce simp: spares_def closeQuietly_def)

lemma spares_open: "lock_inv honest w \<Longrightarrow> spares w (snd (open_file i w)) p"
  using owned_old by (fastforce simp: spares_def open_file_def)

lemma spares_flock: "spares w (fst (runFlock honest d w)) p"
  by (auto simp: spares_def runFlock_def split: option.splits)

lemma idle_owned: "owned (to_stage p Idle w) p = set (held_files w p)"
  by (simp add: owned_simps)

lemma open_inv:
  assumes "lock_inv honest w" "lw_stage w p = Stated"
  shows "lock_inv honest (fst (open_lock p i w))"
proof -
  have held: "lw_held w p = None" using stage_held [OF assms(1)] assms(2) by simp
  have k: "kernel_ok w" using assms(1) by (simp add: lock_inv_def)
  show ?thesis
  proof (rule step_inv [OF assms(1), of _ p])
    show "kernel_ok (fst (open_lock p i w))"
      using k kernel_open [OF k] kernel_open [of "w\<lparr>lw_path := Some (Regular i)\<rparr>" i]
      by (auto simp: open_lock_def give_up_def open_file_def Let_def kernel_ok_def split: option.splits node.splits)
    show "spares w (fst (open_lock p i w)) p"
      using owned_old [OF assms(1)]
      by (fastforce simp: spares_def open_lock_def give_up_def open_file_def Let_def split: option.splits node.splits)
    show "owned (fst (open_lock p i w)) p \<subseteq> insert (lw_next w) (owned w p)"
      using held assms(2)
      by (auto simp: owned_simps open_lock_def give_up_def open_file_def Let_def split: option.splits node.splits)
    show "own_ok honest (fst (open_lock p i w)) p"
      using held assms
      by (auto simp: own_ok_def owned_simps open_lock_def give_up_def open_file_def Let_def lock_inv_def locks_ok_def
          split: option.splits node.splits)
  qed
qed

lemma closeAll_fields:
  "lw_held (closeAll ds w) = lw_held w" "lw_stage (closeAll ds w) = lw_stage w" "lw_next (closeAll ds w) = lw_next w"
  "lw_path (closeAll ds w) = lw_path w"
  "lw_open (closeAll ds w) d = (if d \<in> set ds then None else lw_open w d)"
  "lw_flock (closeAll ds w) i = (case lw_flock w i of None \<Rightarrow> None | Some e \<Rightarrow> if e \<in> set ds then None else Some e)"
  unfolding closeAll_def
  by (induction ds arbitrary: w) (auto simp: closeQuietly_def split: option.splits)

lemma spares_closeAll: "lock_inv honest w \<Longrightarrow> set ds \<subseteq> owned w p \<Longrightarrow> spares w (closeAll ds w) p"
  using owned_disj by (fastforce simp: spares_def closeAll_fields)

lemma stage_owned: "set (stage_files (lw_stage w p)) \<subseteq> owned w p" "set (held_files w p) \<subseteq> owned w p"
  by (auto simp: owned_def)

lemma quit_inv:
  assumes "lock_inv honest w" "lw_stage w p \<noteq> Idle"
  shows "lock_inv honest (to_stage p Idle (closeAll (stage_files (lw_stage w p)) w))"
proof (rule step_inv [OF assms(1), of _ p])
  let ?w = "closeAll (stage_files (lw_stage w p)) w"
  have k: "kernel_ok ?w" using assms(1) kernel_closeAll by (auto simp: lock_inv_def)
  then show "kernel_ok (to_stage p Idle ?w)" by (rule kernel_same [rotated 3]) simp_all
  show "spares w (to_stage p Idle ?w) p"
    using spares_closeAll [OF assms(1) stage_owned(1)] by (auto simp: spares_def)
  show "owned (to_stage p Idle ?w) p \<subseteq> insert (lw_next w) (owned w p)"
    by (auto simp: owned_simps closeAll_fields)
  show "own_ok honest (to_stage p Idle ?w) p"
    using stage_held [OF assms] assms(1)
    by (auto simp: own_ok_def owned_simps closeAll_fields lock_inv_def locks_ok_def split: option.splits)
qed

lemma exit_inv:
  assumes "lock_inv honest w"
  shows "lock_inv honest (lock_do honest w (Exit p))"
proof (rule step_inv [OF assms, of _ p])
  let ?ds = "held_files w p @ stage_files (lw_stage w p)"
  let ?w = "closeAll ?ds w\<lparr>lw_held := (lw_held w)(p := None)\<rparr>"
  have e: "lock_do honest w (Exit p) = to_stage p Idle ?w" by (simp add: lock_do_def)
  have k: "kernel_ok (closeAll ?ds w)" using assms kernel_closeAll by (auto simp: lock_inv_def)
  then show "kernel_ok (lock_do honest w (Exit p))" unfolding e by (rule kernel_same [rotated 3]) simp_all
  have "set ?ds \<subseteq> owned w p" by (simp add: owned_def)
  from spares_closeAll [OF assms this] show "spares w (lock_do honest w (Exit p)) p"
    unfolding e by (simp add: spares_def closeAll_fields)
  show "owned (lock_do honest w (Exit p)) p \<subseteq> insert (lw_next w) (owned w p)"
    unfolding e by (simp add: owned_simps)
  show "own_ok honest (lock_do honest w (Exit p)) p"
    using assms unfolding e
    by (auto simp: own_ok_def owned_simps closeAll_fields lock_inv_def locks_ok_def split: option.splits)
qed

lemma flock_inv:
  assumes "lock_inv honest w" "lw_stage w p \<noteq> Idle" "d \<in> owned w p"
  shows "lock_inv honest (fst (runFlock honest d w))"
proof (rule step_inv [OF assms(1) _ spares_flock, of _ _ p])
  let ?w = "fst (runFlock honest d w)"
  have k: "kernel_ok w" using assms(1) by (simp add: lock_inv_def)
  show "kernel_ok ?w" by (rule kernel_flock [OF k])
  have f: "lw_held ?w = lw_held w" "lw_stage ?w = lw_stage w" "lw_open ?w = lw_open w"
    by (auto simp: runFlock_def split: option.splits)
  then have o1: "owned ?w p = owned w p" "locked_files ?w p = locked_files w p" using owned_same by metis+
  then show "owned ?w p \<subseteq> insert (lw_next w) (owned w p)" by blast
  have "lw_flock ?w i = Some e" if "lw_flock w i = Some e" for i e
    using that by (auto simp: runFlock_def split: option.splits)
  moreover have "\<not> honest \<Longrightarrow> lw_flock ?w = lw_flock w" by (auto simp: runFlock_def split: option.splits)
  ultimately show "own_ok honest ?w p"
    using assms(1) f o1
    by (auto simp: own_ok_def lock_inv_def files_ok_def locks_ok_def)
qed

lemma flock_fields: "lw_held (fst (runFlock honest d w)) = lw_held w" "lw_stage (fst (runFlock honest d w)) = lw_stage w"
    "lw_open (fst (runFlock honest d w)) = lw_open w" "lw_next (fst (runFlock honest d w)) = lw_next w"
    "lw_path (fst (runFlock honest d w)) = lw_path w"
  by (auto simp: runFlock_def split: option.splits)

lemma flock_taken: "snd (runFlock honest d w) \<Longrightarrow> honest \<Longrightarrow> lw_open w d = Some i \<Longrightarrow> lw_flock (fst (runFlock honest d w)) i = Some d"
  by (auto simp: runFlock_def split: option.splits)

lemma stage_own:
  assumes "lock_inv honest w"
  shows "d \<in> owned w p \<Longrightarrow> lw_open w d \<noteq> None"
    and "honest \<Longrightarrow> d \<in> locked_files w p \<Longrightarrow> lw_open w d = Some i \<Longrightarrow> lw_flock w i = Some d"
    and "\<not> honest \<Longrightarrow> lw_flock w = Map.empty \<and> lw_held w = Map.empty \<and> (\<forall>p d. lw_stage w p \<noteq> Conflicted d)"
    and "lw_stage w p = Probing d b \<Longrightarrow> d \<noteq> b"
  using assms by (auto simp: lock_inv_def files_ok_def locks_ok_def)

lemma own_of_inv: "lock_inv honest w \<Longrightarrow> own_ok honest w p"
  by (auto simp: own_ok_def lock_inv_def files_ok_def locks_ok_def)

lemma opened_inv:
  assumes "lock_inv honest w" "lw_stage w p = Opened d"
  shows "lock_inv honest (fst (acquire_call honest p i w))"
proof -
  let ?w = "fst (runFlock honest d w)"
  have d: "d \<in> owned w p" using assms(2) by (simp add: owned_simps)
  have i1: "lock_inv honest ?w" using flock_inv [OF assms(1) _ d] assms(2) by simp
  have st: "lw_stage ?w p = Opened d" using flock_fields(2) assms(2) by simp
  have held: "lw_held ?w p = None" using stage_held [OF i1] st by simp
  show ?thesis
  proof (cases "snd (runFlock honest d w)")
    case True
    then have e: "fst (acquire_call honest p i w) = to_stage p (Flocked d) ?w"
      using assms(2) by (simp add: acquire_call_def case_prod_beta)
    have "lock_inv honest (to_stage p (Flocked d) ?w)"
    proof (rule step_inv [OF i1, of _ p])
      show "kernel_ok (to_stage p (Flocked d) ?w)" using i1 by (simp add: lock_inv_def kernel_ok_def)
      show "spares ?w (to_stage p (Flocked d) ?w) p" by (simp add: spares_def)
      show "owned (to_stage p (Flocked d) ?w) p \<subseteq> insert (lw_next ?w) (owned ?w p)"
        using st by (auto simp: owned_simps)
      have "lw_open ?w d \<noteq> None" using stage_own(1) [OF assms(1) d] by (simp add: flock_fields)
      then show "own_ok honest (to_stage p (Flocked d) ?w) p"
        using held flock_taken [OF True] stage_own(3) [OF i1] by (auto simp: own_ok_def owned_simps flock_fields)
    qed
    with e show ?thesis by simp
  next
    case False
    then have "fst (acquire_call honest p i w) = to_stage p Idle (closeAll (stage_files (lw_stage ?w p)) ?w)"
      using assms(2) st by (simp add: acquire_call_def give_up_def stage_files_def closeAll_def case_prod_beta)
    with quit_inv [OF i1, of p] st show ?thesis by simp
  qed
qed

lemma flocked_inv:
  assumes "lock_inv honest w" "lw_stage w p = Flocked d"
  shows "lock_inv honest (fst (acquire_call honest p i w))"
proof (cases "\<exists>j. lw_path w = Some (Regular j)")
  case True
  then obtain j where j: "lw_path w = Some (Regular j)" by blast
  let ?w = "to_stage p (Probing d (lw_next w)) (snd (open_file j w))"
  have e: "fst (acquire_call honest p i w) = ?w"
    using assms(2) j by (simp add: acquire_call_def open_file_def)
  have d: "d \<in> owned w p" "d \<in> locked_files w p" using assms(2) by (simp_all add: owned_simps)
  have lt: "d < lw_next w" by (rule owned_old [OF assms(1) d(1)])
  have k: "kernel_ok w" using assms(1) by (simp add: lock_inv_def)
  have "lock_inv honest ?w"
  proof (rule step_inv [OF assms(1), of _ p])
    from kernel_open [OF k] show "kernel_ok ?w" by (simp add: kernel_ok_def)
    show "spares w ?w p" using spares_open [OF assms(1)] by (simp add: spares_def)
    show "owned ?w p \<subseteq> insert (lw_next w) (owned w p)"
      using assms(2) by (auto simp: owned_simps open_file_def)
    show "own_ok honest ?w p"
      using stage_held [OF assms(1), of p] stage_own(1) [OF assms(1) d(1)] stage_own(2) [OF assms(1) _ d(2)]
        stage_own(3) [OF assms(1)] lt assms(2)
      by (auto simp: own_ok_def owned_simps open_file_def)
  qed
  with e show ?thesis by simp
next
  case False
  then have "fst (acquire_call honest p i w) = to_stage p Idle (closeAll (stage_files (lw_stage w p)) w)"
    using assms(2) by (auto simp: acquire_call_def give_up_def stage_files_def closeAll_def split: option.splits node.splits)
  with quit_inv [OF assms(1), of p] assms(2) show ?thesis by simp
qed

lemma probing_inv:
  assumes "lock_inv honest w" "lw_stage w p = Probing d b"
  shows "lock_inv honest (fst (acquire_call honest p i w))"
proof -
  let ?w = "fst (runFlock honest b w)"
  have db: "d \<in> owned w p" "b \<in> owned w p" "d \<in> locked_files w p" using assms(2) by (simp_all add: owned_simps)
  have ne: "d \<noteq> b" by (rule stage_own(4) [OF assms])
  have i1: "lock_inv honest ?w" using flock_inv [OF assms(1) _ db(2)] assms(2) by simp
  have st: "lw_stage ?w p = Probing d b" using flock_fields(2) assms(2) by simp
  have held: "lw_held ?w p = None" using stage_held [OF i1] st by simp
  show ?thesis
  proof (cases "snd (runFlock honest b w)")
    case True
    then have "fst (acquire_call honest p i w) = to_stage p Idle (closeAll (stage_files (lw_stage ?w p)) ?w)"
      using assms(2) st by (simp add: acquire_call_def give_up_def stage_files_def closeAll_def Let_def case_prod_beta)
    with quit_inv [OF i1, of p] st show ?thesis by simp
  next
    case False
    let ?v = "to_stage p (Conflicted d) (closeQuietly b ?w)"
    from False have e: "fst (acquire_call honest p i w) = ?v"
      using assms(2) by (simp add: acquire_call_def Let_def case_prod_beta)
    have h: "honest"
    proof (rule ccontr)
      assume "\<not> honest"
      with False stage_own(1) [OF assms(1) db(2)] show False by (auto simp: runFlock_def)
    qed
    have b: "b \<in> owned ?w p" "d \<in> owned ?w p" "d \<in> locked_files ?w p" using st by (simp_all add: owned_simps)
    have "lock_inv honest ?v"
    proof (rule step_inv [OF i1, of _ p])
      have "kernel_ok (closeQuietly b ?w)" using i1 by (intro kernel_close) (simp add: lock_inv_def)
      then show "kernel_ok ?v" by (simp add: kernel_ok_def)
      show "spares ?w ?v p" using spares_close [OF i1 b(1)] by (simp add: spares_def)
      show "owned ?v p \<subseteq> insert (lw_next ?w) (owned ?w p)" using st by (auto simp: owned_simps closeQuietly_def)
      show "own_ok honest ?v p"
        using h held ne stage_own(1) [OF i1 b(2)] stage_own(2) [OF i1 h b(3)]
        by (auto simp: own_ok_def owned_simps closeQuietly_def)
    qed
    with e show ?thesis by simp
  qed
qed

lemma conflicted_inv:
  assumes "lock_inv honest w" "lw_stage w p = Conflicted d"
  shows "lock_inv honest (fst (acquire_call honest p i w))"
proof (cases "sameInode w d")
  case True
  let ?w = "to_stage p Idle (w\<lparr>lw_held := (lw_held w)(p \<mapsto> d)\<rparr>)"
  have d: "d \<in> owned w p" "d \<in> locked_files w p" using assms(2) by (simp_all add: owned_simps)
  have h: honest using stage_own(3) [OF assms(1)] assms(2) by blast
  have "lock_inv honest ?w"
  proof (rule step_inv [OF assms(1), of _ p])
    show "kernel_ok ?w" using assms(1) by (simp add: lock_inv_def kernel_ok_def)
    show "spares w ?w p" by (simp add: spares_def)
    show "owned ?w p \<subseteq> insert (lw_next w) (owned w p)" using assms(2) by (simp add: owned_simps)
    show "own_ok honest ?w p"
      using h stage_own(1) [OF assms(1) d(1)] stage_own(2) [OF assms(1) h d(2)] by (simp add: own_ok_def owned_simps)
  qed
  with True assms(2) show ?thesis by (simp add: acquire_call_def)
next
  case False
  then have "fst (acquire_call honest p i w) = to_stage p Idle (closeAll (stage_files (lw_stage w p)) w)"
    using assms(2) by (simp add: acquire_call_def give_up_def stage_files_def closeAll_def)
  with quit_inv [OF assms(1), of p] assms(2) show ?thesis by simp
qed

lemma idle_inv:
  assumes "lock_inv honest w" "lw_stage w p = Idle"
  shows "lock_inv honest (fst (acquire_call honest p i w))"
proof (cases "lw_held w p = None \<and> lw_path w \<noteq> Some Not_regular")
  case True
  have "lock_inv honest (to_stage p Stated w)"
  proof (rule step_inv [OF assms(1), of _ p])
    show "kernel_ok (to_stage p Stated w)" using assms(1) by (simp add: lock_inv_def kernel_ok_def)
    show "own_ok honest (to_stage p Stated w) p"
      using True stage_own(3) [OF assms(1)] by (simp add: own_ok_def owned_simps)
  qed (use True in \<open>simp_all add: spares_def owned_simps\<close>)
  with True assms(2) show ?thesis by (simp add: acquire_call_def)
next
  case False
  with assms show ?thesis by (auto simp: acquire_call_def split: option.splits)
qed

lemma step_lock_inv:
  assumes "lock_inv honest w"
  shows "lock_inv honest (lock_do honest w x)"
proof (cases x)
  case (Call p i)
  have "lock_inv honest (fst (acquire_call honest p i w))"
  proof (cases "lw_stage w p")
    case Stated
    with open_inv [OF assms] show ?thesis by (simp add: acquire_call_def)
  next
    case Idle then show ?thesis by (rule idle_inv [OF assms])
  next
    case (Opened d) then show ?thesis by (rule opened_inv [OF assms])
  next
    case (Flocked d) then show ?thesis by (rule flocked_inv [OF assms])
  next
    case (Probing d b) then show ?thesis by (rule probing_inv [OF assms])
  next
    case (Conflicted d) then show ?thesis by (rule conflicted_inv [OF assms])
  qed
  with Call show ?thesis by (simp add: lock_do_def)
next
  case (Fail_call p)
  show ?thesis
  proof (cases "lw_stage w p = Idle")
    case True
    then have "lock_do honest w x = w" using Fail_call by (simp add: lock_do_def stage_files_def closeAll_def fun_upd_idem)
    with assms show ?thesis by simp
  next
    case False
    with quit_inv [OF assms] Fail_call show ?thesis by (simp add: lock_do_def)
  qed
next
  case (Exit p)
  with exit_inv [OF assms] show ?thesis by simp
next
  case (Move n)
  have "lock_inv honest (w\<lparr>lw_path := n\<rparr>)"
  proof (rule step_inv [OF assms, of _ 0])
    show "kernel_ok (w\<lparr>lw_path := n\<rparr>)" using assms by (simp add: lock_inv_def kernel_ok_def)
    show "own_ok honest (w\<lparr>lw_path := n\<rparr>) 0"
      using own_of_inv [OF assms, of 0] by (simp add: own_ok_def owned_simps)
  qed (auto simp: spares_def owned_def held_files_def)
  with Move show ?thesis by (simp add: lock_do_def)
qed

interpretation lock_steps: invariant_run "lock_do honest" "lock_inv honest" "\<lambda>x. True"
  by unfold_locales (rule step_lock_inv)

section \<open>A holder and the steps of the others\<close>

lemma boot_inv: "lock_inv honest (boot_world n)"
  by (simp add: lock_inv_def boot_world_def kernel_ok_def files_ok_def locks_ok_def owned_simps)

lemma held_file:
  assumes "lock_inv honest w" "lw_held w p = Some d"
  obtains i where "lw_open w d = Some i" "lw_flock w i = Some d" "d \<in> owned w p" honest "lw_stage w p = Idle"
proof -
  have h: honest by (rule ccontr) (use stage_own(3) [OF assms(1)] assms(2) in simp)
  have d: "d \<in> owned w p" "d \<in> locked_files w p" using assms(2) by (simp_all add: owned_simps)
  obtain i where i: "lw_open w d = Some i" using stage_own(1) [OF assms(1) d(1)] by blast
  have "lw_stage w p = Idle" using stage_held [OF assms(1), of p] assms(2) by auto
  with that i d h stage_own(2) [OF assms(1) h d(2) i] show ?thesis by blast
qed

lemma two_holders:
  assumes "lock_inv honest w" "lw_held w p = Some d" "lw_held w q = Some e" "lw_open w d = lw_open w e"
  shows "p = q"
proof -
  obtain i where i: "lw_open w d = Some i" "lw_flock w i = Some d" "d \<in> owned w p" by (rule held_file [OF assms(1,2)])
  obtain j where j: "lw_open w e = Some j" "lw_flock w j = Some e" "e \<in> owned w q" by (rule held_file [OF assms(1,3)])
  from i(1,2) j(1,2) assms(4) have "d = e" by simp
  with owned_disj [OF assms(1) i(3) j(3)] show ?thesis by blast
qed

lemma call_keeps:
  assumes "lock_inv honest w" "lw_held w p = Some d"
  shows "lw_held (fst (acquire_call honest q i w)) p = Some d \<and> lw_open (fst (acquire_call honest q i w)) d = lw_open w d"
proof (cases "q = p")
  case True
  obtain k where "lw_stage w p = Idle" by (rule held_file [OF assms])
  with True assms(2) show ?thesis by (simp add: acquire_call_def)
next
  case False
  obtain k where d: "d \<in> owned w p" by (rule held_file [OF assms])
  have lt: "d < lw_next w" by (rule owned_old [OF assms(1) d])
  have other: "e \<noteq> d" if "e \<in> owned w q" for e using owned_disj [OF assms(1) that d] False by blast
  have f: "e \<in> set (stage_files (lw_stage w q)) \<Longrightarrow> e \<noteq> d" for e using other stage_owned by blast
  show ?thesis
  proof (cases "lw_stage w q")
    case Idle
    with assms(2) show ?thesis by (simp add: acquire_call_def split: option.splits)
  next
    case Stated
    with assms(2) lt show ?thesis
      by (auto simp: acquire_call_def open_lock_def give_up_def open_file_def split: option.splits node.splits)
  next
    case (Opened e)
    with assms(2) f show ?thesis
      by (simp add: acquire_call_def give_up_def case_prod_beta flock_fields closeQuietly_def stage_files_def)
  next
    case (Flocked e)
    with assms(2) f lt show ?thesis
      by (simp add: acquire_call_def give_up_def open_file_def closeQuietly_def stage_files_def split: option.splits node.splits)
  next
    case (Probing e b)
    with f [of e] f [of b] have "e \<noteq> d" "b \<noteq> d" by (simp_all add: stage_files_def)
    with assms(2) Probing show ?thesis
      by (simp add: acquire_call_def give_up_def case_prod_beta Let_def flock_fields closeQuietly_def)
  next
    case (Conflicted e)
    with assms(2) f False show ?thesis
      by (simp add: acquire_call_def give_up_def closeQuietly_def stage_files_def)
  qed
qed

lemma holder_kept:
  assumes "lock_inv honest w" "lw_held w p = Some d" "x \<noteq> Exit p"
  shows "lw_held (lock_do honest w x) p = Some d \<and> lw_open (lock_do honest w x) d = lw_open w d"
proof -
  obtain k where d: "d \<in> owned w p" and idle: "lw_stage w p = Idle" by (rule held_file [OF assms(1,2)])
  have other: "d \<notin> owned w q" if "q \<noteq> p" for q using owned_disj [OF assms(1) _ d that] by blast
  show ?thesis
  proof (cases x)
    case (Call q i)
    with call_keeps [OF assms(1,2)] show ?thesis by (simp add: lock_do_def)
  next
    case (Fail_call q)
    then show ?thesis
      using other [of q] idle assms(2)
      by (cases "q = p") (auto simp: lock_do_def closeAll_fields owned_def stage_files_def)
  next
    case (Exit q)
    then show ?thesis using other [of q] assms(2,3) by (simp add: lock_do_def closeAll_fields owned_def)
  next
    case (Move n)
    with assms(2) show ?thesis by (simp add: lock_do_def)
  qed
qed

lemma step_path:
  assumes "lock_inv honest w" "\<nexists>n. x = Move n"
  shows "lw_path (lock_do honest w x) = lw_path w \<or>
     (lw_path w = None \<and> (\<exists>j. lw_path (lock_do honest w x) = Some (Regular j) \<and> j \<notin> ran (lw_open w)))"
  using inode_free [of w] assms
  by (cases x)
    (auto simp: lock_inv_def lock_do_def acquire_call_def open_lock_def give_up_def open_file_def closeAll_fields closeQuietly_def
      case_prod_beta flock_fields Let_def split: stage.splits option.splits node.splits)

lemma holds_file:
  assumes "holdsReceiptLogLock w p"
  obtains d where "lw_held w p = Some d" "sameInode w d"
  using assms by (auto simp: holdsReceiptLogLock_def verifyReceiptLogLock_def split: option.splits if_splits)

section \<open>Properties\<close>

text \<open>
  Property C9. One writer at a time. However the system calls of any number of processes interleave, with helpers
  that fail, processes that end and a lock path that is deleted, replaced or put back, at most one
  process passes \<open>verifyReceiptLogLock\<close> at a time; with a helper that takes no lock none does.
\<close>

theorem lock_exclusive:
  assumes "holdsReceiptLogLock (foldl (lock_do honest) (boot_world n) evs) p"
    and "holdsReceiptLogLock (foldl (lock_do honest) (boot_world n) evs) q"
  shows "p = q \<and> honest"
proof -
  let ?w = "foldl (lock_do honest) (boot_world n) evs"
  have inv: "lock_inv honest ?w" by (rule lock_steps.run_inv [OF boot_inv]) (simp add: list_all_iff)
  obtain d where d: "lw_held ?w p = Some d" "sameInode ?w d" by (rule holds_file [OF assms(1)])
  obtain e where e: "lw_held ?w q = Some e" "sameInode ?w e" by (rule holds_file [OF assms(2)])
  have "lw_open ?w d = lw_open ?w e"
    using d(2) e(2) by (auto simp: sameInode_def split: option.splits node.splits)
  with two_holders [OF inv d(1) e(1)] have "p = q" by blast
  moreover obtain i where honest by (rule held_file [OF inv d(1)])
  ultimately show ?thesis by blast
qed

lemma sameInode_iff: "sameInode w d \<longleftrightarrow> (\<exists>i. lw_open w d = Some i \<and> lw_path w = Some (Regular i))"
  by (auto simp: sameInode_def split: option.splits node.splits)

lemma verify_cases:
  "lw_held w p = Some d \<Longrightarrow> verifyReceiptLogLock w p = (if sameInode w d then None else Some ''log_lock_lost'')"
  by (simp add: verifyReceiptLogLock_def)

text \<open>Deletions of the lock file only, and the process does not end.\<close>

definition only_deleted :: "nat \<Rightarrow> lock_event \<Rightarrow> bool" where
  "only_deleted p x = (case x of Move n \<Rightarrow> n = None | Exit q \<Rightarrow> q \<noteq> p | _ \<Rightarrow> True)"

definition path_kept :: "nat \<Rightarrow> lock_event \<Rightarrow> bool" where
  "path_kept p x = (case x of Move n \<Rightarrow> False | Exit q \<Rightarrow> q \<noteq> p | _ \<Rightarrow> True)"

definition cut_from :: "bool \<Rightarrow> nat \<Rightarrow> nat \<Rightarrow> nat \<Rightarrow> lock_world \<Rightarrow> bool" where
  "cut_from honest p d i w \<longleftrightarrow> lock_inv honest w \<and> lw_held w p = Some d \<and> lw_open w d = Some i \<and> lw_path w \<noteq> Some (Regular i)"

definition firm :: "bool \<Rightarrow> nat \<Rightarrow> nat \<Rightarrow> nat \<Rightarrow> lock_world \<Rightarrow> bool" where
  "firm honest p d i w \<longleftrightarrow> lock_inv honest w \<and> lw_held w p = Some d \<and> lw_open w d = Some i \<and> lw_path w = Some (Regular i)"

lemma cut_from_step:
  assumes "cut_from honest p d i w" "only_deleted p x"
  shows "cut_from honest p d i (lock_do honest w x)"
proof -
  have a: "lock_inv honest w" "lw_held w p = Some d" "lw_open w d = Some i" "lw_path w \<noteq> Some (Regular i)"
    using assms(1) by (simp_all add: cut_from_def)
  have x: "x \<noteq> Exit p" using assms(2) by (auto simp: only_deleted_def)
  have "lw_path (lock_do honest w x) \<noteq> Some (Regular i)"
  proof (cases "\<exists>n. x = Move n")
    case True
    with assms(2) show ?thesis by (auto simp: only_deleted_def lock_do_def)
  next
    case False
    from step_path [OF a(1) this] a(3,4) show ?thesis by (auto simp: ran_def)
  qed
  with step_lock_inv [OF a(1)] holder_kept [OF a(1,2) x] a(3) show ?thesis by (simp add: cut_from_def)
qed

lemma firm_step:
  assumes "firm honest p d i w" "path_kept p x"
  shows "firm honest p d i (lock_do honest w x)"
proof -
  have a: "lock_inv honest w" "lw_held w p = Some d" "lw_open w d = Some i" "lw_path w = Some (Regular i)"
    using assms(1) by (simp_all add: firm_def)
  have x: "x \<noteq> Exit p" "\<nexists>n. x = Move n" using assms(2) by (auto simp: path_kept_def)
  from step_path [OF a(1) x(2)] a(4) have "lw_path (lock_do honest w x) = Some (Regular i)" by auto
  with step_lock_inv [OF a(1)] holder_kept [OF a(1,2) x(1)] a(3) show ?thesis by (simp add: firm_def)
qed

interpretation cut_runs: invariant_run "lock_do honest" "cut_from honest p d i" "only_deleted p"
  by unfold_locales (rule cut_from_step)

interpretation firm_runs: invariant_run "lock_do honest" "firm honest p d i" "path_kept p"
  by unfold_locales (rule firm_step)

text \<open>
  Property C26. A lost lock stays lost. When the check of a process that has the lock once says \<open>log_lock_lost\<close>, it says so
  after any further calls of any process and any deletions of the lock file: the inode of its open file is not
  used again while it is open.
\<close>

theorem lost_lock_final:
  assumes "lock_inv honest w" "verifyReceiptLogLock w p = Some ''log_lock_lost''" "list_all (only_deleted p) evs"
  shows "verifyReceiptLogLock (foldl (lock_do honest) w evs) p = Some ''log_lock_lost''"
proof -
  obtain d where d: "lw_held w p = Some d" "\<not> sameInode w d"
    using assms(2) by (auto simp: verifyReceiptLogLock_def split: option.splits if_splits)
  obtain i where i: "lw_open w d = Some i" by (rule held_file [OF assms(1) d(1)])
  with d assms(1) have "cut_from honest p d i w" by (simp add: cut_from_def sameInode_iff)
  then have "cut_from honest p d i (foldl (lock_do honest) w evs)" by (rule cut_runs.run_inv [OF _ assms(3)])
  then show ?thesis by (simp add: cut_from_def verifyReceiptLogLock_def sameInode_iff)
qed

text \<open>
  A check holds until the path changes. After a check that passed, and any calls of any process while
  the lock path is left alone and the process runs, the same check passes and every other process fails it, so that a
  write between two checks is the only one.
\<close>

theorem checked_lock_holds:
  assumes "lock_inv honest w" "holdsReceiptLogLock w p" "list_all (path_kept p) evs"
  shows "holdsReceiptLogLock (foldl (lock_do honest) w evs) q = (q = p)"
proof -
  obtain d where d: "lw_held w p = Some d" "sameInode w d" by (rule holds_file [OF assms(2)])
  from d(2) obtain i where i: "lw_open w d = Some i" "lw_path w = Some (Regular i)" by (auto simp: sameInode_iff)
  with d assms(1) have "firm honest p d i w" by (simp add: firm_def)
  then have f: "firm honest p d i (foldl (lock_do honest) w evs)" by (rule firm_runs.run_inv [OF _ assms(3)])
  have "q = p" if h: "holdsReceiptLogLock (foldl (lock_do honest) w evs) q"
  proof -
    obtain e where e: "lw_held (foldl (lock_do honest) w evs) q = Some e" "sameInode (foldl (lock_do honest) w evs) e"
      by (rule holds_file [OF h])
    with f two_holders [of honest "foldl (lock_do honest) w evs" q e p d] show ?thesis by (auto simp: firm_def sameInode_iff)
  qed
  with f show ?thesis by (auto simp: firm_def holdsReceiptLogLock_def verifyReceiptLogLock_def sameInode_iff)
qed

text \<open>
  A free lock is taken. A process that is not taking or keeping the lock, and finds at the lock path no file or a
  regular one that nobody has locked, has the lock after its six calls when nothing comes between them and the helper
  really locks.
\<close>

theorem free_lock_taken:
  assumes "lock_inv True w" "lw_stage w p = Idle" "lw_held w p = None"
    and "case lw_path w of None \<Rightarrow> inode_free w i | Some (Regular j) \<Rightarrow> lw_flock w j = None | Some Not_regular \<Rightarrow> False"
  shows "holdsReceiptLogLock (foldl (lock_do True) w (replicate 6 (Call p i))) p"
proof -
  have k: "kernel_ok w" using assms(1) by (simp add: lock_inv_def)
  have run: "replicate 6 (Call p i) = [Call p i, Call p i, Call p i, Call p i, Call p i, Call p i]"
    by (simp add: numeral_eq_Suc)
  have six: "holdsReceiptLogLock (foldl (lock_do True) (to_stage p (Opened (lw_next v))
      (v\<lparr>lw_open := (lw_open v)(lw_next v \<mapsto> j), lw_next := lw_next v + 1\<rparr>)) [Call p i, Call p i, Call p i, Call p i]) p"
    if "lw_path v = Some (Regular j)" "lw_flock v j = None" for v j
    using that
    by (simp add: lock_do_def acquire_call_def runFlock_def open_file_def closeQuietly_def Let_def sameInode_def
        holdsReceiptLogLock_def verifyReceiptLogLock_def)
  show ?thesis
  proof (cases "lw_path w")
    case None
    let ?v = "w\<lparr>lw_path := Some (Regular i), lw_stage := (lw_stage w)(p := Stated)\<rparr>"
    have free: "inode_free w i" "inode_free (to_stage p Stated w) i" using assms(4) None by (simp_all add: inode_free_def)
    have "lw_flock w i \<noteq> Some d" for d using k inode_free [OF k, of i] free(1) unfolding kernel_ok_def ran_def by blast
    then have "lw_flock w i = None" by blast
    with six [of ?v i] show ?thesis
      using None free assms(2,3) unfolding run
      by (simp add: lock_do_def acquire_call_def open_lock_def open_file_def)
  next
    case (Some n)
    with assms(4) obtain j where j: "n = Regular j" "lw_flock w j = None" by (cases n) auto
    with six [of "to_stage p Stated w" j] show ?thesis
      using Some assms(2,3) unfolding run
      by (simp add: lock_do_def acquire_call_def open_lock_def open_file_def)
  qed
qed

section \<open>Witnesses\<close>

text \<open>Two processes race for the lock; the file is then deleted and the second process takes the new one.\<close>

definition race :: "lock_event list" where
  "race = [Call 1 7, Call 2 7, Call 1 7, Call 2 8, Call 1 7, Call 2 7, Call 1 7, Call 1 7, Call 1 7]"

definition takeover :: "lock_event list" where
  "takeover = Move None # replicate 6 (Call 2 8)"

theorem lock_exclusive_witness:
  "holdsReceiptLogLock (foldl (lock_do True) (boot_world None) race) 1 \<and>
   \<not> holdsReceiptLogLock (foldl (lock_do True) (boot_world None) race) 2 \<and>
   verifyReceiptLogLock (foldl (lock_do True) (boot_world None) (race @ takeover)) 1 = Some ''log_lock_lost'' \<and>
   holdsReceiptLogLock (foldl (lock_do True) (boot_world None) (race @ takeover)) 2"
proof -
  have a: "holdsReceiptLogLock (foldl (lock_do True) (boot_world None) race) 1"
      "verifyReceiptLogLock (foldl (lock_do True) (boot_world None) (race @ takeover)) 1 = Some ''log_lock_lost''"
      "holdsReceiptLogLock (foldl (lock_do True) (boot_world None) (race @ takeover)) 2"
    by code_simp+
  with lock_exclusive [OF a(1), of 2] show ?thesis by auto
qed

lemma run_lock_inv: "lock_inv honest (foldl (lock_do honest) (boot_world n) evs)"
  by (rule lock_steps.run_inv [OF boot_inv]) (simp add: list_all_iff)

theorem lost_lock_final_witness:
  "verifyReceiptLogLock (foldl (lock_do True) (foldl (lock_do True) (boot_world None) (race @ takeover))
     [Move None, Call 1 7, Exit 2, Call 3 7, Call 3 7, Call 3 9]) 1 = Some ''log_lock_lost''"
proof -
  have "verifyReceiptLogLock (foldl (lock_do True) (boot_world None) (race @ takeover)) 1 = Some ''log_lock_lost''" by code_simp
  moreover have "list_all (only_deleted 1) [Move None, Call 1 7, Exit 2, Call 3 7, Call 3 7, Call 3 9]"
    by (simp add: only_deleted_def)
  ultimately show ?thesis by (rule lost_lock_final [OF run_lock_inv])
qed

theorem checked_lock_holds_witness:
  "holdsReceiptLogLock (foldl (lock_do True) (foldl (lock_do True) (boot_world None) race)
     [Call 2 7, Exit 2, Call 3 9, Call 1 7, Call 3 9, Fail_call 3]) 1"
proof -
  have "holdsReceiptLogLock (foldl (lock_do True) (boot_world None) race) 1" by code_simp
  moreover have "list_all (path_kept 1) [Call 2 7, Exit 2, Call 3 9, Call 1 7, Call 3 9, Fail_call 3]"
    by (simp add: path_kept_def)
  ultimately show ?thesis using checked_lock_holds [OF run_lock_inv] by blast
qed

theorem free_lock_taken_witness:
  "holdsReceiptLogLock (foldl (lock_do True) (boot_world (Some (Regular 4))) (replicate 6 (Call 9 1))) 9"
  by (rule free_lock_taken [OF boot_inv]) (simp_all add: boot_world_def)

end
