(* ===== verification/Book_Seq.thy ===== *)
theory Book_Seq
  imports Js_Store Js_Values
begin

text \<open>
  The append position of a book: services/gateway/src/book-seq.js (the hash of a row and the analysis of a chain)
  and the part of services/gateway/src/usage-settled.js that gives a row its position (\<open>_stampSeq\<close>, \<open>_remember\<close>,
  \<open>_forget\<close> and the queue of the writers). A row has the fields that these read, as JavaScript values. The
  code of one writer runs in three pieces with an \<open>await\<close> between them, the signature and the refusal; other writers may
  run there unless the queue holds them. SHA-256 is a parameter. The indexes by task and by payment
  reference, and the file, are not part of this theory.
\<close>

section \<open>Rows\<close>

record brow =
  br_agent :: jsval
  br_seq :: jsval
  br_task :: jsval
  br_prev :: jsval
  br_hash :: jsval
  br_event :: jsval
  br_evidence :: jsval

definition joined :: "jsval \<Rightarrow> string" where
  "joined v = (if js_nullish v then [] else js_String v)"

definition bookRowPreimage :: "brow \<Rightarrow> string" where
  "bookRowPreimage r = join_with ''|''
     [joined (br_agent r), joined (br_seq r), joined (br_task r), joined (js_or (br_prev r) (JStr [])),
      joined (js_or (br_event r) (js_or (br_evidence r) (JStr [])))]"

definition bookRowHash :: "(string \<Rightarrow> string) \<Rightarrow> brow \<Rightarrow> string" where
  "bookRowHash sha r = sha (bookRowPreimage r)"

definition prevOf :: "brow \<Rightarrow> string option" where
  "prevOf r = (if js_nullish (br_prev r) \<or> br_prev r = JStr [] then None else Some (js_String (br_prev r)))"

definition hashOf :: "brow \<Rightarrow> string option" where
  "hashOf r = (if js_truthy (br_hash r) then Some (js_String (br_hash r)) else None)"

section \<open>The analysis of a chain\<close>

definition seq_of :: "brow \<Rightarrow> int option" where
  "seq_of r = (case num_int (js_Number (br_seq r)) of Some n \<Rightarrow> if 0 < n then Some n else None | None \<Rightarrow> None)"

definition numbered :: "brow list \<Rightarrow> (int \<times> brow) list" where
  "numbered rows = List.map_filter (\<lambda>r. map_option (\<lambda>n. (n, r)) (seq_of r)) rows"

record seq_scan =
  sc_bySeq :: "(int, brow) jsmap"
  sc_duplicates :: "int list"
  sc_seenPrev :: "(string, int list) jsmap"

definition scan_row :: "int \<times> brow \<Rightarrow> seq_scan \<Rightarrow> seq_scan" where
  "scan_row x sc =
     (let n = fst x; r = snd x;
          sc1 = (if jm_has (sc_bySeq sc) n
                 then (if n \<in> set (sc_duplicates sc) then sc else sc\<lparr>sc_duplicates := sc_duplicates sc @ [n]\<rparr>)
                 else sc\<lparr>sc_bySeq := jm_set n r (sc_bySeq sc)\<rparr>)
      in case prevOf r of
           None \<Rightarrow> sc1
         | Some p \<Rightarrow> if p = [] then sc1
                     else sc1\<lparr>sc_seenPrev := jm_set p ((case jm_get (sc_seenPrev sc1) p of Some hs \<Rightarrow> hs | None \<Rightarrow> []) @ [n]) (sc_seenPrev sc1)\<rparr>)"

definition scan :: "brow list \<Rightarrow> seq_scan" where
  "scan rows = fold scan_row (numbered rows) \<lparr>sc_bySeq = [], sc_duplicates = [], sc_seenPrev = []\<rparr>"

definition gap_step :: "int \<Rightarrow> int list \<times> int \<Rightarrow> int list \<times> int" where
  "gap_step n x = (let gaps = fst x; e = snd x; e1 = max e n in (gaps @ [e..n - 1], if n = e1 then e1 + 1 else e1))"

record seq_mismatch =
  mm_seq :: int
  mm_expected :: "string option"
  mm_actual :: "string option"

definition link_fault :: "(int, brow) jsmap \<Rightarrow> int list \<Rightarrow> int \<Rightarrow> seq_mismatch option" where
  "link_fault bySeq unique n =
     (let actual = Option.bind (jm_get bySeq n) prevOf
      in if n = hd unique \<and> n = 1
         then (if actual \<noteq> None then Some \<lparr>mm_seq = n, mm_expected = None, mm_actual = actual\<rparr> else None)
         else (case jm_get bySeq (n - 1) of
                 None \<Rightarrow> Some \<lparr>mm_seq = n, mm_expected = None, mm_actual = actual\<rparr>
               | Some parent \<Rightarrow>
                   if actual \<noteq> hashOf parent then Some \<lparr>mm_seq = n, mm_expected = hashOf parent, mm_actual = actual\<rparr> else None))"

definition once :: "int list \<Rightarrow> int list" where
  "once ns = rev (remdups (rev ns))"

record seq_analysis =
  sq_gapless :: bool
  sq_gaps :: "int list"
  sq_next :: int
  sq_count :: nat
  sq_max :: int
  sq_forked :: bool
  sq_status :: string
  sq_duplicates :: "int list"
  sq_mismatches :: "seq_mismatch list"
  sq_shared :: "(string \<times> int list) list"

definition analyzeSeq :: "brow list \<Rightarrow> seq_analysis" where
  "analyzeSeq rows =
     (let sc = scan rows;
          unique = sort (jm_keys (sc_bySeq sc));
          gaps = fst (fold gap_step unique ([], 1));
          mismatches = List.map_filter (link_fault (sc_bySeq sc) unique) unique;
          shared = List.map_filter (\<lambda>(p, hs). if 1 < length (once hs) then Some (p, once hs) else None) (sc_seenPrev sc);
          mx = (if unique = [] then 0 else last unique);
          forked = (sc_duplicates sc \<noteq> [] \<or> mismatches \<noteq> [] \<or> shared \<noteq> [])
      in \<lparr>sq_gapless = (gaps = [] \<and> \<not> forked), sq_gaps = gaps, sq_next = mx + 1, sq_count = length (numbered rows),
          sq_max = mx, sq_forked = forked,
          sq_status = (if forked then ''FORKED'' else if gaps \<noteq> [] then ''gapped'' else ''ok''),
          sq_duplicates = sc_duplicates sc, sq_mismatches = mismatches, sq_shared = shared\<rparr>)"

section \<open>What a chain in order is\<close>

definition linear_chain :: "brow list \<Rightarrow> bool" where
  "linear_chain rows \<longleftrightarrow>
     (let xs = numbered rows; ns = map fst xs
      in distinct ns \<and> set ns = {1..int (length ns)} \<and>
         (\<forall>x \<in> set xs. if fst x = 1 then prevOf (snd x) = None
            else (\<forall>y \<in> set xs. fst y = fst x - 1 \<longrightarrow> prevOf (snd x) = hashOf (snd y))) \<and>
         (\<forall>x \<in> set xs. \<forall>y \<in> set xs. prevOf (snd x) = prevOf (snd y) \<and> prevOf (snd x) \<notin> {None, Some []} \<longrightarrow> x = y))"

abbreviation empty_scan :: seq_scan where
  "empty_scan \<equiv> \<lparr>sc_bySeq = [], sc_duplicates = [], sc_seenPrev = []\<rparr>"

lemma scan_keys: "fst ` set (sc_bySeq (fold scan_row xs empty_scan)) = fst ` set xs"
proof (induction xs rule: rev_induct)
  case (snoc x xs)
  then show ?case
    by (auto simp: scan_row_def Let_def jm_has_dom dom_update split: option.splits)
qed simp

lemma scan_duplicates: "sc_duplicates (fold scan_row xs empty_scan) = [] \<longleftrightarrow> distinct (map fst xs)"
proof (induction xs rule: rev_induct)
  case (snoc x xs)
  let ?s = "fold scan_row xs empty_scan"
  have k: "jm_has (sc_bySeq ?s) (fst x) \<longleftrightarrow> fst x \<in> fst ` set xs" using scan_keys [of xs] by (simp add: jm_has_dom)
  have "sc_duplicates (scan_row x ?s) = [] \<longleftrightarrow> sc_duplicates ?s = [] \<and> fst x \<notin> fst ` set xs"
    using k by (cases "prevOf (snd x)") (auto simp: scan_row_def Let_def)
  with snoc show ?case by auto
qed simp

lemma update_new: "jm_get m k = None \<Longrightarrow> jm_set k v m = m @ [(k, v)]"
  by (induction m) (auto split: if_splits)

lemma scan_distinct:
  "distinct (map fst xs) \<Longrightarrow> sc_bySeq (fold scan_row xs empty_scan) = xs \<and>
     jm_ok (sc_seenPrev (fold scan_row xs empty_scan)) \<and>
     (\<forall>p. jm_get (sc_seenPrev (fold scan_row xs empty_scan)) p =
       (let hs = map fst (filter (\<lambda>x. prevOf (snd x) = Some p) xs) in if p = [] \<or> hs = [] then None else Some hs))"
proof (induction xs rule: rev_induct)
  case (snoc x xs)
  let ?s = "fold scan_row xs empty_scan"
  have ih: "sc_bySeq ?s = xs" "jm_ok (sc_seenPrev ?s)"
    "\<And>p. jm_get (sc_seenPrev ?s) p =
       (let hs = map fst (filter (\<lambda>x. prevOf (snd x) = Some p) xs) in if p = [] \<or> hs = [] then None else Some hs)"
    using snoc by auto
  have n: "jm_get xs (fst x) = None" using snoc.prems by (auto simp: map_of_eq_None_iff)
  have "sc_bySeq (scan_row x ?s) = xs @ [x]"
    using ih(1) n update_new [OF n, of "snd x"] by (cases "prevOf (snd x)") (auto simp: scan_row_def Let_def jm_has_def)
  moreover have "jm_ok (sc_seenPrev (scan_row x ?s))"
    using ih(2) n ih(1) by (cases "prevOf (snd x)") (auto simp: scan_row_def Let_def jm_has_def)
  moreover have "jm_get (sc_seenPrev (scan_row x ?s)) p =
      (let hs = map fst (filter (\<lambda>x. prevOf (snd x) = Some p) (xs @ [x])) in if p = [] \<or> hs = [] then None else Some hs)" for p
    using ih(3) [of p] n ih(1)
    by (cases "prevOf (snd x)") (auto simp: scan_row_def Let_def jm_has_def jsmap_simps)
  ultimately show ?case by simp
qed simp

lemma once_distinct: "distinct hs \<Longrightarrow> once hs = hs"
  by (simp add: once_def distinct_remdups_id)

lemma map_filter_none: "List.map_filter f xs = [] \<longleftrightarrow> (\<forall>x \<in> set xs. f x = None)"
  by (induction xs) (auto simp: List.map_filter_simps split: option.splits)

lemma ball_pair: "(\<forall>x \<in> A. P x) \<longleftrightarrow> (\<forall>a b. (a, b) \<in> A \<longrightarrow> P (a, b))"
  by auto

lemma numbered_pos: "x \<in> set (numbered rows) \<Longrightarrow> 1 \<le> fst x"
  by (auto simp: numbered_def List.map_filter_def seq_of_def split: option.splits if_splits)

lemma at_most_one: "distinct ys \<Longrightarrow> length ys \<le> 1 \<longleftrightarrow> (\<forall>x \<in> set ys. \<forall>y \<in> set ys. x = y)"
proof (cases ys)
  case (Cons a zs)
  assume "distinct ys"
  with Cons show ?thesis by (cases zs) auto
qed simp

lemma shared_none:
  assumes "distinct (map fst xs)"
  shows "List.map_filter (\<lambda>(p, hs). if 1 < length (once hs) then Some (p, once hs) else None) (sc_seenPrev (fold scan_row xs empty_scan)) = []
    \<longleftrightarrow> (\<forall>x \<in> set xs. \<forall>y \<in> set xs. prevOf (snd x) = prevOf (snd y) \<and> prevOf (snd x) \<notin> {None, Some []} \<longrightarrow> x = y)"
  (is "?l \<longleftrightarrow> ?r")
proof -
  let ?m = "sc_seenPrev (fold scan_row xs empty_scan)" and ?hs = "\<lambda>p. filter (\<lambda>x. prevOf (snd x) = Some p) xs"
  have d: "distinct xs" using assms by (simp add: distinct_map)
  have inj: "inj_on fst (set xs)" using assms by (simp add: distinct_map)
  have ok: "jm_ok ?m" and get: "jm_get ?m p = (if p = [] \<or> ?hs p = [] then None else Some (map fst (?hs p)))" for p
    using scan_distinct [OF assms] by (auto simp: Let_def)
  have dh: "distinct (map fst (?hs p))" for p
    using d inj by (simp add: distinct_map inj_on_def)
  have "?l \<longleftrightarrow> (\<forall>p hs. (p, hs) \<in> set ?m \<longrightarrow> length (once hs) \<le> 1)"
    unfolding map_filter_none ball_pair not_less [symmetric] by auto
  also have "\<dots> \<longleftrightarrow> (\<forall>p hs. jm_get ?m p = Some hs \<longrightarrow> length (once hs) \<le> 1)"
    using ok by (simp add: jm_ok_def)
  also have "\<dots> \<longleftrightarrow> (\<forall>p. p \<noteq> [] \<longrightarrow> length (?hs p) \<le> 1)"
    by (auto simp: get once_distinct [OF dh])
  also have "\<dots> \<longleftrightarrow> (\<forall>p. p \<noteq> [] \<longrightarrow> (\<forall>x \<in> set (?hs p). \<forall>y \<in> set (?hs p). x = y))"
    using at_most_one d by (metis distinct_filter)
  also have "\<dots> \<longleftrightarrow> ?r"
  proof
    assume l: "\<forall>p. p \<noteq> [] \<longrightarrow> (\<forall>x \<in> set (?hs p). \<forall>y \<in> set (?hs p). x = y)"
    show ?r
    proof (intro ballI impI)
      fix x y assume x: "x \<in> set xs" "y \<in> set xs" and e: "prevOf (snd x) = prevOf (snd y) \<and> prevOf (snd x) \<notin> {None, Some []}"
      then have "prevOf (snd x) \<noteq> None" by (metis insertI1)
      then obtain p where "prevOf (snd x) = Some p" by blast
      with e have p: "prevOf (snd x) = Some p" "prevOf (snd y) = Some p" "p \<noteq> []" by simp_all
      then have "x \<in> set (?hs p)" "y \<in> set (?hs p)" using x by simp_all
      with l p(3) show "x = y" by blast
    qed
  next
    assume r: ?r
    show "\<forall>p. p \<noteq> [] \<longrightarrow> (\<forall>x \<in> set (?hs p). \<forall>y \<in> set (?hs p). x = y)"
    proof (intro allI impI ballI)
      fix p :: string and x y assume p: "p \<noteq> []" and h: "x \<in> set (?hs p)" "y \<in> set (?hs p)"
      then have "prevOf (snd x) = prevOf (snd y) \<and> prevOf (snd x) \<notin> {None, Some []}" by simp
      with r h show "x = y" by (metis filter_is_subset subsetD)
    qed
  qed
  finally show ?thesis .
qed

text \<open>No faulty link: every number but the first has its parent, so that the numbers are \<open>1\<close> to the last.\<close>

lemma links_ok:
  assumes "distinct (map fst xs)" "\<forall>x \<in> set xs. 1 \<le> fst x" "\<forall>n \<in> fst ` set xs. link_fault xs (sort (map fst xs)) n = None"
  shows "fst ` set xs = {1..int (length xs)}"
proof -
  let ?N = "fst ` set xs"
  have down: "n - 1 \<in> ?N" if "n \<in> ?N" "n \<noteq> 1" for n
    using assms(3) that by (force simp: link_fault_def Let_def map_of_eq_None_iff split: if_splits option.splits)
  have below: "{1..n} \<subseteq> ?N" if "n \<in> ?N" for n
    using that
  proof (induction "nat n" arbitrary: n)
    case 0
    then show ?case using assms(2) by fastforce
  next
    case (Suc k)
    have n: "1 \<le> n" using assms(2) Suc.prems by auto
    show ?case
    proof (cases "n = 1")
      case True
      with Suc.prems show ?thesis by auto
    next
      case False
      from Suc.hyps(1) [OF _ down [OF Suc.prems False]] Suc.hyps(2) have "{1..n - 1} \<subseteq> ?N" by simp
      moreover have "{1..n} = insert n {1..n - 1}" using n by auto
      ultimately show ?thesis using Suc.prems by auto
    qed
  qed
  show ?thesis
  proof (cases "xs = []")
    case False
    let ?M = "Max ?N"
    have m: "?M \<in> ?N" using False by simp
    have "?N \<subseteq> {1..?M}"
    proof
      fix k assume k: "k \<in> ?N"
      then have "1 \<le> k" "k \<le> ?M" using assms(2) by auto
      then show "k \<in> {1..?M}" by simp
    qed
    with below [OF m] have "?N = {1..?M}" by blast
    moreover have "card ?N = length xs" using assms(1) by (metis distinct_card length_map list.set_map)
    moreover have "card {1..?M} = nat ?M" by simp
    ultimately have "int (length xs) = ?M" using assms(2) m by auto
    with \<open>?N = {1..?M}\<close> show ?thesis by simp
  qed simp
qed

lemma link_exact:
  assumes d: "distinct (map fst xs)" and N: "fst ` set xs = {1..int (length xs)}" and n: "(n, r) \<in> set xs"
  shows "link_fault xs (sort (map fst xs)) n = None \<longleftrightarrow>
    (if n = 1 then prevOf r = None else (\<forall>y \<in> set xs. fst y = n - 1 \<longrightarrow> prevOf r = hashOf (snd y)))"
proof -
  have get: "jm_get xs k = Some q \<longleftrightarrow> (k, q) \<in> set xs" for k q using d by (metis map_of_eq_Some_iff)
  have gn: "jm_get xs n = Some r" using get n by blast
  have ne: "xs \<noteq> []" using n by auto
  have hd1: "hd (sort (map fst xs)) = 1"
  proof -
    have s: "sort (map fst xs) \<noteq> []" using ne by (metis length_0_conv length_map length_sort)
    have "1 \<in> fst ` set xs" unfolding N using ne by (cases xs) auto
    then have "1 \<in> set (sort (map fst xs))" by simp
    moreover have "hd (sort (map fst xs)) \<in> fst ` set xs" using hd_in_set [OF s] by simp
    then have "1 \<le> hd (sort (map fst xs))" unfolding N by simp
    moreover have "hd (sort (map fst xs)) \<le> k" if "k \<in> set (sort (map fst xs))" for k
      using sorted_sort [of "map fst xs"] s that by (cases "sort (map fst xs)") auto
    ultimately show ?thesis by force
  qed
  show ?thesis
  proof (cases "n = 1")
    case True
    with hd1 gn show ?thesis by (simp add: link_fault_def Let_def)
  next
    case False
    have "n \<in> fst ` set xs" using n by force
    then have "n - 1 \<in> fst ` set xs" using False unfolding N by simp
    then obtain q where q: "(n - 1, q) \<in> set xs" by force
    then have g1: "jm_get xs (n - 1) = Some q" using get by blast
    have u: "snd y = q" if "y \<in> set xs" "fst y = n - 1" for y
      using get [of "n - 1" "snd y"] that g1 by (cases y) auto
    have "(\<forall>y \<in> set xs. fst y = n - 1 \<longrightarrow> prevOf r = hashOf (snd y)) \<longleftrightarrow> prevOf r = hashOf q" (is "?l \<longleftrightarrow> ?r")
    proof
      assume ?l
      from bspec [OF this q] show ?r by simp
    next
      assume ?r
      then show ?l using u by simp
    qed
    moreover have "link_fault xs (sort (map fst xs)) n = None \<longleftrightarrow> prevOf r = hashOf q"
      by (simp add: link_fault_def Let_def False gn g1)
    ultimately show ?thesis using False by simp
  qed
qed

lemma no_gaps: "fold gap_step [1..int n] ([], 1) = ([], int n + 1)"
proof (induction n)
  case (Suc n)
  have "[1..int (Suc n)] = [1..int n] @ [int (Suc n)]" by (simp add: upto_rec2)
  with Suc show ?case by (simp add: gap_step_def)
qed simp

text \<open>The status of an analysis. A missing position leaves the row after it without its parent.\<close>

lemma chain_status:
  "(sq_status (analyzeSeq rows) = ''ok'') = linear_chain rows \<and> sq_status (analyzeSeq rows) \<noteq> ''gapped''"
proof -
  let ?xs = "numbered rows"
  have pos: "\<forall>x \<in> set ?xs. 1 \<le> fst x" using numbered_pos by blast
  show ?thesis
  proof (cases "distinct (map fst ?xs)")
    case False
    then have "sc_duplicates (scan rows) \<noteq> []" using scan_duplicates [of ?xs] by (simp add: scan_def)
    with False show ?thesis by (simp add: analyzeSeq_def Let_def linear_chain_def)
  next
    case True
    have dup: "sc_duplicates (scan rows) = []" using True scan_duplicates [of ?xs] by (simp add: scan_def)
    have by_seq: "sc_bySeq (scan rows) = ?xs" using scan_distinct [OF True] by (simp add: scan_def)
    let ?u = "sort (map fst ?xs)"
    let ?mm = "List.map_filter (link_fault ?xs ?u) ?u"
    let ?sh = "List.map_filter (\<lambda>(p, hs). if 1 < length (once hs) then Some (p, once hs) else None) (sc_seenPrev (scan rows))"
    have mm: "?mm = [] \<longleftrightarrow> (\<forall>n \<in> fst ` set ?xs. link_fault ?xs ?u n = None)" by (simp add: map_filter_none)
    have lin: "linear_chain rows \<longleftrightarrow> ?mm = [] \<and> ?sh = []"
    proof (cases "fst ` set ?xs = {1..int (length ?xs)}")
      case N: True
      have "?mm = [] \<longleftrightarrow> (\<forall>x \<in> set ?xs. if fst x = 1 then prevOf (snd x) = None
          else (\<forall>y \<in> set ?xs. fst y = fst x - 1 \<longrightarrow> prevOf (snd x) = hashOf (snd y)))"
        unfolding mm using link_exact [OF True N] by force
      with N True shared_none [OF True] show ?thesis by (simp add: linear_chain_def Let_def scan_def)
    next
      case N: False
      have "?mm \<noteq> []"
      proof
        assume "?mm = []"
        then have "\<forall>n \<in> fst ` set ?xs. link_fault ?xs ?u n = None" using mm by (rule iffD1 [rotated])
        from links_ok [OF True pos this] N show False by contradiction
      qed
      with N show ?thesis by (simp add: linear_chain_def Let_def)
    qed
    have gaps: "fst (fold gap_step ?u ([], 1)) = []" if e: "?mm = []"
    proof -
      have "\<forall>n \<in> fst ` set ?xs. link_fault ?xs ?u n = None" using e mm by (rule iffD1 [rotated])
      from links_ok [OF True pos this] have "set (map fst ?xs) = {1..int (length ?xs)}" by simp
      then have "?u = [1..int (length ?xs)]"
        using True by (intro sorted_distinct_set_unique) simp_all
      then show ?thesis by (simp add: no_gaps)
    qed
    have "sq_status (analyzeSeq rows) = (if ?mm \<noteq> [] \<or> ?sh \<noteq> [] then ''FORKED'' else if fst (fold gap_step ?u ([], 1)) \<noteq> [] then ''gapped'' else ''ok'')"
      by (simp add: analyzeSeq_def Let_def dup by_seq)
    with lin gaps show ?thesis by auto
  qed
qed

section \<open>Giving a row its position\<close>

text \<open>A row whose signature is awaited, and one whose refusal is awaited; the flag says that the queue holds its writer.\<close>

datatype work = Signing brow | Placed brow

record book =
  bk_entries :: "brow list"
  bk_next :: "(int, int) jsmap"
  bk_tip :: "(int, int) jsmap"
  bk_last :: "(int, string) jsmap"
  bk_work :: "(nat, bool \<times> work) jsmap"

definition new_book :: book where
  "new_book = \<lparr>bk_entries = [], bk_next = [], bk_tip = [], bk_last = [], bk_work = []\<rparr>"

definition get_or :: "int \<Rightarrow> (int, int) jsmap \<Rightarrow> int \<Rightarrow> int" where
  "get_or d m i = (case jm_get m i of None \<Rightarrow> d | Some n \<Rightarrow> if n = 0 then d else n)"

definition prepareSeq :: "brow \<Rightarrow> int option" where
  "prepareSeq r = (case num_int (js_Number (br_agent r)) of Some i \<Rightarrow> if i < 1 then None else Some i | None \<Rightarrow> None)"

definition last_val :: "book \<Rightarrow> int \<Rightarrow> jsval" where
  "last_val b i = (case jm_get (bk_last b) i of None \<Rightarrow> JNull | Some h \<Rightarrow> if h = [] then JNull else JStr h)"

definition place_row :: "(string \<Rightarrow> string) \<Rightarrow> book \<Rightarrow> int \<Rightarrow> brow \<Rightarrow> brow" where
  "place_row sha b i r =
     (let r1 = r\<lparr>br_seq := JNum (JInt (get_or 1 (bk_next b) i)), br_prev := last_val b i\<rparr>
      in r1\<lparr>br_hash := JStr (bookRowHash sha r1)\<rparr>)"

definition queue_busy :: "book \<Rightarrow> bool" where
  "queue_busy b = list_ex (\<lambda>(k, s, x). s) (bk_work b)"

text \<open>A writer that the queue serializes waits while another one runs.\<close>

definition begin_row :: "(string \<Rightarrow> string) \<Rightarrow> nat \<Rightarrow> bool \<Rightarrow> brow \<Rightarrow> book \<Rightarrow> book" where
  "begin_row sha k serial r b =
     (if jm_has (bk_work b) k \<or> serial \<and> queue_busy b then b
      else (case prepareSeq r of
              None \<Rightarrow> b\<lparr>bk_work := jm_set k (serial, Placed r) (bk_work b)\<rparr>
            | Some i \<Rightarrow> b\<lparr>bk_work := jm_set k (serial, Signing (place_row sha b i r)) (bk_work b)\<rparr>))"

definition row_seq :: "brow \<Rightarrow> int" where
  "row_seq r = (case num_int (js_Number (br_seq r)) of Some n \<Rightarrow> n | None \<Rightarrow> 0)"

definition set_last :: "int \<Rightarrow> jsval \<Rightarrow> book \<Rightarrow> book" where
  "set_last i v b = (if js_truthy v then b\<lparr>bk_last := jm_set i (js_String v) (bk_last b)\<rparr> else b\<lparr>bk_last := jm_delete i (bk_last b)\<rparr>)"

text \<open>The signature arrives, or signing fails.\<close>

definition sign_row :: "nat \<Rightarrow> bool \<Rightarrow> book \<Rightarrow> book" where
  "sign_row k ok b =
     (case jm_get (bk_work b) k of
        Some (s, Signing r) \<Rightarrow>
          if \<not> ok then b\<lparr>bk_work := jm_delete k (bk_work b)\<rparr>
          else (case prepareSeq r of
                  None \<Rightarrow> b
                | Some i \<Rightarrow> b\<lparr>bk_next := jm_set i (row_seq r + 1) (bk_next b), bk_tip := jm_set i (row_seq r) (bk_tip b),
                    bk_last := jm_set i (js_String (br_hash r)) (bk_last b), bk_work := jm_set k (s, Placed r) (bk_work b)\<rparr>)
      | _ \<Rightarrow> b)"

definition undo_place :: "brow \<Rightarrow> book \<Rightarrow> book" where
  "undo_place r b =
     (case prepareSeq r of
        None \<Rightarrow> b
      | Some i \<Rightarrow> set_last i (br_prev r) (b\<lparr>bk_next := jm_set i (row_seq r) (bk_next b), bk_tip := jm_set i (row_seq r - 1) (bk_tip b)\<rparr>))"

text \<open>\<open>_forget\<close> of a row that the file did not take, which is the last entry.\<close>

definition forget_row :: "brow \<Rightarrow> book \<Rightarrow> book" where
  "forget_row r b =
     (let b1 = b\<lparr>bk_entries := butlast (bk_entries b)\<rparr>
      in case prepareSeq r of
           None \<Rightarrow> b1
         | Some i \<Rightarrow>
             if jm_get (bk_tip b1) i \<noteq> Some (row_seq r) then b1
             else if 1 \<le> row_seq r - 1
             then set_last i (br_prev r) (b1\<lparr>bk_tip := jm_set i (row_seq r - 1) (bk_tip b1), bk_next := jm_set i (row_seq r) (bk_next b1)\<rparr>)
             else b1\<lparr>bk_tip := jm_delete i (bk_tip b1), bk_next := jm_set i 1 (bk_next b1), bk_last := jm_delete i (bk_last b1)\<rparr>)"

datatype ending = Kept | Not_bound | Not_written

definition finish_row :: "nat \<Rightarrow> ending \<Rightarrow> book \<Rightarrow> book" where
  "finish_row k e b =
     (case jm_get (bk_work b) k of
        Some (s, Placed r) \<Rightarrow>
          (let b1 = b\<lparr>bk_work := jm_delete k (bk_work b)\<rparr>;
               b2 = b1\<lparr>bk_entries := bk_entries b1 @ [r]\<rparr>
           in case e of Kept \<Rightarrow> b2 | Not_bound \<Rightarrow> undo_place r b1 | Not_written \<Rightarrow> forget_row r b2)
      | _ \<Rightarrow> b)"

datatype book_event = Begin_row nat bool brow | Sign_row nat bool | Finish_row nat ending

definition book_do :: "(string \<Rightarrow> string) \<Rightarrow> book \<Rightarrow> book_event \<Rightarrow> book" where
  "book_do sha b x =
     (case x of
        Begin_row k serial r \<Rightarrow> begin_row sha k serial r b
      | Sign_row k ok \<Rightarrow> sign_row k ok b
      | Finish_row k e \<Rightarrow> finish_row k e b)"

definition rowsForAgent :: "int \<Rightarrow> book \<Rightarrow> brow list" where
  "rowsForAgent i b = filter (\<lambda>r. num_int (js_Number (br_agent r)) = Some i) (bk_entries b)"

definition seqReport :: "int \<Rightarrow> book \<Rightarrow> seq_analysis" where
  "seqReport i b = analyzeSeq (filter (\<lambda>r. \<not> js_nullish (br_seq r)) (rowsForAgent i b))"

section \<open>The positions that the queue keeps\<close>

fun chained :: "(string \<Rightarrow> string) \<Rightarrow> int \<Rightarrow> int \<Rightarrow> jsval \<Rightarrow> brow list \<Rightarrow> bool" where
  "chained sha i n p [] = True"
| "chained sha i n p (r # rs) =
     (br_agent r = JNum (JInt i) \<and> br_seq r = JNum (JInt n) \<and> br_prev r = p \<and> br_hash r = JStr (bookRowHash sha r)
      \<and> chained sha i (n + 1) (br_hash r) rs)"

definition tail_hash :: "brow list \<Rightarrow> jsval" where
  "tail_hash rs = (if rs = [] then JNull else br_hash (last rs))"

lemma chained_snoc:
  "chained sha i n p (rs @ [r]) \<longleftrightarrow> chained sha i n p rs \<and> chained sha i (n + int (length rs)) (if rs = [] then p else br_hash (last rs)) [r]"
  by (induction rs arbitrary: n p) (auto simp: algebra_simps)

definition at_tail :: "book \<Rightarrow> int \<Rightarrow> brow list \<Rightarrow> bool" where
  "at_tail b i rs \<longleftrightarrow> get_or 1 (bk_next b) i = int (length rs) + 1 \<and> get_or 0 (bk_tip b) i = int (length rs) \<and> last_val b i = tail_hash rs"

definition follows :: "(string \<Rightarrow> string) \<Rightarrow> int \<Rightarrow> brow list \<Rightarrow> brow \<Rightarrow> bool" where
  "follows sha i rs r \<longleftrightarrow> chained sha i (int (length rs) + 1) (tail_hash rs) [r]"

text \<open>One book, with the row of that book that is in flight, if any.\<close>

definition book_inv :: "(string \<Rightarrow> string) \<Rightarrow> int \<Rightarrow> book \<Rightarrow> bool" where
  "book_inv sha i b \<longleftrightarrow>
     (let rs = rowsForAgent i b
      in chained sha i 1 JNull rs \<and>
         (case bk_work b of
            [] \<Rightarrow> at_tail b i rs
          | [(k, s, Signing r)] \<Rightarrow> s \<and> prepareSeq r \<noteq> None \<and> at_tail b i rs \<and> (prepareSeq r = Some i \<longrightarrow> follows sha i rs r)
          | [(k, s, Placed r)] \<Rightarrow>
              s \<and> (if prepareSeq r = Some i then follows sha i rs r \<and> at_tail b i (rs @ [r]) else at_tail b i rs)
          | _ \<Rightarrow> False))"

text \<open>A writer puts the number of the agent, or none.\<close>

definition queued :: "book_event \<Rightarrow> bool" where
  "queued x = (case x of Begin_row k serial r \<Rightarrow> serial \<and> (case br_agent r of JNum (JInt i) \<Rightarrow> True | JNull \<Rightarrow> True | _ \<Rightarrow> False)
     | _ \<Rightarrow> True)"

lemma chained_last: "chained sha i n p rs \<Longrightarrow> rs \<noteq> [] \<Longrightarrow> \<exists>q. br_hash (last rs) = JStr (sha q)"
  by (induction rs arbitrary: n p) (auto simp: bookRowHash_def)

lemma rows_append: "1 \<le> i \<Longrightarrow> rowsForAgent i (b\<lparr>bk_entries := bk_entries b @ [r]\<rparr>) = rowsForAgent i b @ (if prepareSeq r = Some i then [r] else [])"
  by (auto simp: rowsForAgent_def prepareSeq_def split: option.splits)

lemma rows_fields [simp]:
  "rowsForAgent i (b\<lparr>bk_next := x\<rparr>) = rowsForAgent i b" "rowsForAgent i (b\<lparr>bk_tip := x\<rparr>) = rowsForAgent i b"
  "rowsForAgent i (b\<lparr>bk_last := y\<rparr>) = rowsForAgent i b" "rowsForAgent i (b\<lparr>bk_work := z\<rparr>) = rowsForAgent i b"
  by (simp_all add: rowsForAgent_def)

lemma tail_fields [simp]:
  "at_tail (b\<lparr>bk_work := z\<rparr>) i rs = at_tail b i rs" "at_tail (b\<lparr>bk_entries := es\<rparr>) i rs = at_tail b i rs"
  by (simp_all add: at_tail_def last_val_def)

lemma set_last_fields:
  "bk_entries (set_last j v b) = bk_entries b" "bk_next (set_last j v b) = bk_next b" "bk_tip (set_last j v b) = bk_tip b"
  "bk_work (set_last j v b) = bk_work b" "i \<noteq> j \<Longrightarrow> jm_get (bk_last (set_last j v b)) i = jm_get (bk_last b) i"
  by (simp_all add: set_last_def jsmap_simps)

lemma set_last_val:
  assumes "\<forall>x. sha x \<noteq> []" "chained sha i 1 JNull rs"
  shows "last_val (set_last i (tail_hash rs) b) i = tail_hash rs"
proof (cases "rs = []")
  case False
  from chained_last [OF assms(2) this] obtain q where "br_hash (last rs) = JStr (sha q)" by blast
  with False assms(1) show ?thesis by (simp add: tail_hash_def set_last_def last_val_def jsmap_simps)
qed (simp add: tail_hash_def set_last_def last_val_def jsmap_simps)

lemma follows_fields:
  assumes "follows sha i rs r"
  shows "row_seq r = int (length rs) + 1" "br_prev r = tail_hash rs" "br_hash r = JStr (bookRowHash sha r)"
  using assms by (simp_all add: follows_def row_seq_def num_int_def)

lemma placed_follows:
  assumes "at_tail b i rs" "br_agent r = JNum (JInt i)"
  shows "follows sha i rs (place_row sha b i r)"
  using assms by (simp add: follows_def place_row_def at_tail_def Let_def bookRowHash_def bookRowPreimage_def)

lemma inv_work:
  assumes "book_inv sha i b"
  obtains (idle) "bk_work b = []" | (one) k w where "bk_work b = [(k, True, w)]"
proof (cases "bk_work b")
  case (Cons x xs)
  obtain k s w where x: "x = (k, s, w)" by (cases x)
  have "xs = []" using assms Cons x by (cases xs; cases w) (simp_all add: book_inv_def Let_def)
  moreover have s using assms Cons x calculation by (cases w) (simp_all add: book_inv_def Let_def)
  ultimately show ?thesis using one Cons x by simp
qed (rule idle)

lemma begin_inv:
  assumes "book_inv sha i b" "1 \<le> i" "queued (Begin_row k serial r)"
  shows "book_inv sha i (begin_row sha k serial r b)"
proof (cases "bk_work b")
  case Nil
  let ?rs = "rowsForAgent i b"
  have c: "chained sha i 1 JNull ?rs" "at_tail b i ?rs" using assms(1) Nil by (simp_all add: book_inv_def Let_def)
  have serial using assms(3) by (simp add: queued_def)
  show ?thesis
  proof (cases "prepareSeq r")
    case None
    with Nil c \<open>serial\<close> show ?thesis
      by (simp add: begin_row_def queue_busy_def book_inv_def Let_def)
  next
    case (Some j)
    let ?r = "place_row sha b j r"
    have p: "prepareSeq ?r = Some j" using Some by (simp add: prepareSeq_def place_row_def Let_def)
    have a: "br_agent r = JNum (JInt j)"
      using Some assms(3) by (auto simp: prepareSeq_def queued_def num_int_def split: if_splits jsval.splits jsnum.splits)
    then have "j = i \<Longrightarrow> follows sha i ?rs ?r" using placed_follows [OF c(2)] by simp
    with Nil c p Some \<open>serial\<close> show ?thesis
      by (simp add: begin_row_def queue_busy_def book_inv_def Let_def)
  qed
next
  case (Cons x xs)
  then obtain k' w where "bk_work b = [(k', True, w)]" using inv_work [OF assms(1)] by (metis list.distinct(1))
  then have "begin_row sha k serial r b = b" using assms(3) by (simp add: begin_row_def queue_busy_def queued_def)
  with assms(1) show ?thesis by simp
qed

lemma sign_inv:
  assumes "book_inv sha i b" "\<forall>x. sha x \<noteq> []"
  shows "book_inv sha i (sign_row k ok b)"
proof (cases "\<exists>s r. bk_work b = [(k, s, Signing r)]")
  case False
  then have "sign_row k ok b = b"
    by (cases rule: inv_work [OF assms(1)]) (auto simp: sign_row_def split: option.splits work.splits)
  with assms(1) show ?thesis by simp
next
  case True
  then obtain s r where w: "bk_work b = [(k, s, Signing r)]" by blast
  let ?rs = "rowsForAgent i b"
  have c: "chained sha i 1 JNull ?rs" "at_tail b i ?rs" "s" "prepareSeq r \<noteq> None" "prepareSeq r = Some i \<Longrightarrow> follows sha i ?rs r"
    using assms(1) w by (simp_all add: book_inv_def Let_def)
  then obtain j where j: "prepareSeq r = Some j" by blast
  show ?thesis
  proof (cases "ok \<and> j = i")
    case True
    note f = follows_fields [OF c(5)]
    let ?b = "sign_row k ok b"
    have b: "?b = b\<lparr>bk_next := jm_set i (row_seq r + 1) (bk_next b), bk_tip := jm_set i (row_seq r) (bk_tip b),
        bk_last := jm_set i (js_String (br_hash r)) (bk_last b), bk_work := [(k, s, Placed r)]\<rparr>"
      using True w j by (simp add: sign_row_def)
    have "at_tail ?b i (?rs @ [r])"
      using True j f assms(2) unfolding b
      by (simp add: at_tail_def get_or_def last_val_def tail_hash_def jsmap_simps bookRowHash_def)
    moreover have "bk_work ?b = [(k, s, Placed r)]" "rowsForAgent i ?b = ?rs" unfolding b by simp_all
    ultimately show ?thesis using c True j by (simp add: book_inv_def Let_def)
  next
    case False
    then have "at_tail (sign_row k ok b) i ?rs"
      using c(2) w j by (auto simp: sign_row_def at_tail_def get_or_def last_val_def jsmap_simps)
    with c w j False show ?thesis by (auto simp: sign_row_def book_inv_def Let_def)
  qed
qed

lemma undo_tail:
  assumes "follows sha i rs r" "chained sha i 1 JNull rs" "\<forall>x. sha x \<noteq> []" "prepareSeq r = Some i"
  shows "at_tail (undo_place r b) i rs"
  using follows_fields [OF assms(1)] set_last_val [OF assms(3,2)] assms(4)
  by (simp add: undo_place_def at_tail_def set_last_fields get_or_def jsmap_simps)

lemma forget_tail:
  assumes "follows sha i rs r" "chained sha i 1 JNull rs" "\<forall>x. sha x \<noteq> []" "prepareSeq r = Some i"
    and "at_tail b i (rs @ [r])"
  shows "at_tail (forget_row r b) i rs"
proof -
  note f = follows_fields [OF assms(1)]
  have t: "jm_get (bk_tip b) i = Some (row_seq r)"
    using assms(5) f(1) by (auto simp: at_tail_def get_or_def split: option.splits if_splits)
  show ?thesis
  proof (cases "rs = []")
    case True
    with f t assms(4) show ?thesis
      by (simp add: forget_row_def Let_def at_tail_def get_or_def last_val_def tail_hash_def jsmap_simps)
  next
    case False
    then have "1 \<le> row_seq r - 1" using f(1) by (cases rs) simp_all
    with f t assms(4) set_last_val [OF assms(3,2)] show ?thesis
      by (simp add: forget_row_def Let_def at_tail_def set_last_fields get_or_def jsmap_simps)
  qed
qed

lemma undo_other: "prepareSeq r \<noteq> Some i \<Longrightarrow> at_tail (undo_place r b) i rs = at_tail b i rs"
  by (auto simp: undo_place_def at_tail_def last_val_def get_or_def set_last_fields jsmap_simps split: option.splits)

lemma forget_other: "prepareSeq r \<noteq> Some i \<Longrightarrow> at_tail (forget_row r b) i rs = at_tail b i rs"
  by (auto simp: forget_row_def Let_def at_tail_def last_val_def get_or_def set_last_fields jsmap_simps split: option.splits if_splits)

lemma undo_fields: "bk_entries (undo_place r b) = bk_entries b" "bk_work (undo_place r b) = bk_work b"
  by (simp_all add: undo_place_def set_last_fields split: option.splits)

lemma forget_fields: "bk_entries (forget_row r b) = butlast (bk_entries b)" "bk_work (forget_row r b) = bk_work b"
  by (simp_all add: forget_row_def Let_def set_last_fields split: option.splits)

lemma rows_entries: "bk_entries b' = bk_entries b \<Longrightarrow> rowsForAgent i b' = rowsForAgent i b"
  by (simp add: rowsForAgent_def)

lemma finish_inv:
  assumes "book_inv sha i b" "1 \<le> i" "\<forall>x. sha x \<noteq> []"
  shows "book_inv sha i (finish_row k e b)"
proof (cases "\<exists>s r. bk_work b = [(k, s, Placed r)]")
  case False
  then have "finish_row k e b = b"
    by (cases rule: inv_work [OF assms(1)]) (auto simp: finish_row_def split: option.splits work.splits)
  with assms(1) show ?thesis by simp
next
  case True
  then obtain s r where w: "bk_work b = [(k, s, Placed r)]" by blast
  let ?rs = "rowsForAgent i b" and ?b1 = "b\<lparr>bk_work := []\<rparr>"
  let ?b2 = "?b1\<lparr>bk_entries := bk_entries ?b1 @ [r]\<rparr>"
  have c: "chained sha i 1 JNull ?rs"
    and mine: "prepareSeq r = Some i \<Longrightarrow> follows sha i ?rs r \<and> at_tail b i (?rs @ [r])"
    and other: "prepareSeq r \<noteq> Some i \<Longrightarrow> at_tail b i ?rs"
    using assms(1) w by (simp_all add: book_inv_def Let_def)
  have rows2: "rowsForAgent i ?b2 = ?rs @ (if prepareSeq r = Some i then [r] else [])"
    using rows_append [OF assms(2), of ?b1 r] by simp
  have f: "finish_row k e b = (case e of Kept \<Rightarrow> ?b2 | Not_bound \<Rightarrow> undo_place r ?b1 | Not_written \<Rightarrow> forget_row r ?b2)"
    using w by (simp add: finish_row_def Let_def)
  show ?thesis
  proof (cases e)
    case Kept
    have "chained sha i 1 JNull (?rs @ (if prepareSeq r = Some i then [r] else []))"
      using c mine by (auto simp: chained_snoc follows_def tail_hash_def add.commute)
    moreover have "at_tail ?b2 i (?rs @ (if prepareSeq r = Some i then [r] else []))"
      using mine other by simp
    ultimately show ?thesis using rows2 f Kept by (simp add: book_inv_def Let_def)
  next
    case Not_bound
    have "at_tail (undo_place r ?b1) i ?rs"
      using undo_tail [OF _ c assms(3)] undo_other [of r i ?b1 ?rs] mine other by (cases "prepareSeq r = Some i") simp_all
    moreover have "rowsForAgent i (undo_place r ?b1) = ?rs" by (rule rows_entries) (simp add: undo_fields)
    ultimately show ?thesis using f Not_bound c by (simp add: book_inv_def Let_def undo_fields)
  next
    case Not_written
    have "at_tail (forget_row r ?b2) i ?rs"
      using forget_tail [OF _ c assms(3), of r ?b2] forget_other [of r i ?b2 ?rs] mine other
      by (cases "prepareSeq r = Some i") simp_all
    moreover have "rowsForAgent i (forget_row r ?b2) = ?rs" by (rule rows_entries) (simp add: forget_fields)
    ultimately show ?thesis using f Not_written c by (simp add: book_inv_def Let_def forget_fields)
  qed
qed

lemma book_step_inv:
  assumes "book_inv sha i b" "1 \<le> i" "\<forall>x. sha x \<noteq> []" "queued x"
  shows "book_inv sha i (book_do sha b x)"
  using assms begin_inv sign_inv finish_inv by (cases x) (auto simp: book_do_def)

text \<open>The contract of the queue: for a hash that is never empty, and one book.\<close>

interpretation queued_book: invariant_run "book_do sha" "\<lambda>b. (\<forall>x. sha x \<noteq> []) \<and> 1 \<le> i \<and> book_inv sha i b" queued
  by unfold_locales (use book_step_inv in blast)

section \<open>The report of a queued book\<close>

lemma chained_numbered:
  "chained sha i n p rs \<Longrightarrow> 1 \<le> n \<Longrightarrow> map fst (numbered rs) = [n..n + int (length rs) - 1] \<and> map snd (numbered rs) = rs"
proof (induction rs arbitrary: n p)
  case (Cons r rs)
  then have "numbered (r # rs) = (n, r) # numbered rs"
    by (simp add: numbered_def List.map_filter_simps seq_of_def num_int_def)
  moreover have "[n..n + int (length (r # rs)) - 1] = n # [n + 1..n + 1 + int (length rs) - 1]"
    by (simp add: upto_rec1)
  moreover have "chained sha i (n + 1) (br_hash r) rs" using Cons.prems(1) unfolding chained.simps by blast
  from Cons.IH [OF this] Cons.prems(2)
  have "map fst (numbered rs) = [n + 1..n + 1 + int (length rs) - 1] \<and> map snd (numbered rs) = rs" by simp
  ultimately show ?case by simp
qed (simp add: numbered_def List.map_filter_simps)

lemma chained_present: "chained sha i n p rs \<Longrightarrow> filter (\<lambda>r. \<not> js_nullish (br_seq r)) rs = rs"
  by (induction rs arbitrary: n p) (auto simp: js_nullish_def)

lemma chain_entry:
  "chained sha i n p rs \<Longrightarrow> x \<in> set (numbered rs) \<Longrightarrow> 1 \<le> n \<Longrightarrow>
    n \<le> fst x \<and> br_agent (snd x) = JNum (JInt i) \<and> br_seq (snd x) = JNum (JInt (fst x)) \<and>
    br_hash (snd x) = JStr (bookRowHash sha (snd x)) \<and>
    (if fst x = n then br_prev (snd x) = p else (\<exists>y \<in> set (numbered rs). fst y = fst x - 1 \<and> br_prev (snd x) = br_hash (snd y)))"
proof (induction rs arbitrary: n p)
  case (Cons r rs)
  then have num: "numbered (r # rs) = (n, r) # numbered rs"
    by (simp add: numbered_def List.map_filter_simps seq_of_def num_int_def)
  have c: "chained sha i (n + 1) (br_hash r) rs" using Cons.prems(1) unfolding chained.simps by blast
  have c2: "1 \<le> n + 1" using Cons.prems(3) by simp
  show ?case
  proof (cases "x = (n, r)")
    case True
    with Cons.prems show ?thesis by simp
  next
    case False
    with Cons.prems(2) num have x: "x \<in> set (numbered rs)" by simp
    from Cons.IH [OF c x c2] have ih: "n + 1 \<le> fst x" "br_agent (snd x) = JNum (JInt i)" "br_seq (snd x) = JNum (JInt (fst x))"
      "br_hash (snd x) = JStr (bookRowHash sha (snd x))"
      "if fst x = n + 1 then br_prev (snd x) = br_hash r
       else (\<exists>y \<in> set (numbered rs). fst y = fst x - 1 \<and> br_prev (snd x) = br_hash (snd y))"
      by blast+
    have "\<exists>y \<in> set (numbered (r # rs)). fst y = fst x - 1 \<and> br_prev (snd x) = br_hash (snd y)"
      using ih(5) num by (cases "fst x = n + 1") auto
    with ih show ?thesis by simp
  qed
qed (simp add: numbered_def List.map_filter_simps)

lemma no_bar: "CHR ''|'' \<notin> set (dec_string n)"
  using all_digits_dec_string [of n] by (auto simp: all_digits_def list_all_iff is_digit_def)

lemma before_bar: "c \<notin> set t \<Longrightarrow> takeWhile (\<lambda>d. d \<noteq> c) (t @ c # x) = t"
  by (induction t) auto

lemma preimage_position:
  assumes "bookRowPreimage r = bookRowPreimage r'" "br_agent r = br_agent r'"
    and "br_seq r = JNum (JInt a)" "br_seq r' = JNum (JInt b)" "1 \<le> a" "1 \<le> b"
  shows "a = b"
proof -
  have s: "joined (br_seq r) = dec_string (nat a)" "joined (br_seq r') = dec_string (nat b)"
    using assms(3-6) by (simp_all add: joined_def js_nullish_def int_string_def)
  from assms(1,2) obtain x y where "dec_string (nat a) @ CHR ''|'' # x = dec_string (nat b) @ CHR ''|'' # y"
    unfolding bookRowPreimage_def s by auto
  from arg_cong [OF this, of "takeWhile (\<lambda>c. c \<noteq> CHR ''|'')"] have "dec_string (nat a) = dec_string (nat b)"
    by (simp only: before_bar [OF no_bar])
  with assms(5,6) show ?thesis by (simp add: dec_string_inject)
qed

text \<open>Two rows with different preimages and one hash.\<close>

definition rows_collide :: "(string \<Rightarrow> string) \<Rightarrow> brow list \<Rightarrow> bool" where
  "rows_collide sha rs \<longleftrightarrow>
     list_ex (\<lambda>r. list_ex (\<lambda>q. bookRowPreimage r \<noteq> bookRowPreimage q \<and> bookRowHash sha r = bookRowHash sha q) rs) rs"

lemma chained_linear:
  assumes c: "chained sha i 1 JNull rs" and ne: "\<forall>x. sha x \<noteq> []" and inj: "\<not> rows_collide sha rs"
  shows "linear_chain rs"
proof -
  let ?xs = "numbered rs"
  note row = chain_entry [OF c]
  have m: "map fst ?xs = [1..int (length rs)]" "map snd ?xs = rs" using chained_numbered [OF c] by simp_all
  have num: "map fst ?xs = [1..int (length rs)]" "length ?xs = length rs"
    using m(1) arg_cong [OF m(2), of length] by simp_all
  have d: "distinct (map fst ?xs)" using num(1) by simp
  have s: "fst ` set ?xs = {1..int (length rs)}" using arg_cong [OF num(1), of set] by simp
  have uniq: "y = z" if "y \<in> set ?xs" "z \<in> set ?xs" "fst y = fst z" for y z
    using d that by (auto simp: distinct_map dest: inj_onD)
  have hash: "hashOf (snd y) = Some (sha (bookRowPreimage (snd y)))" if "y \<in> set ?xs" for y
    using row [OF that] ne by (simp add: hashOf_def bookRowHash_def)
  have prev: "prevOf (snd x) = hashOf (snd y)" if "x \<in> set ?xs" "y \<in> set ?xs" "fst y = fst x - 1" for x y
  proof -
    have "1 \<le> fst y" using row [OF that(2)] by simp
    then have "fst x \<noteq> 1" using that(3) by simp
    with row [OF that(1)] obtain z where z: "z \<in> set ?xs" "fst z = fst x - 1" "br_prev (snd x) = br_hash (snd z)" by auto
    then have "z = y" using uniq that by simp
    then have "br_prev (snd x) = JStr (sha (bookRowPreimage (snd y)))" using z(3) row [OF that(2)] by (simp add: bookRowHash_def)
    with hash [OF that(2)] ne show ?thesis by (simp add: prevOf_def js_nullish_def)
  qed
  have first: "prevOf (snd x) = None" if "x \<in> set ?xs" "fst x = 1" for x
    using row [OF that(1)] that(2) by (simp add: prevOf_def js_nullish_def)
  have parent: "\<exists>y \<in> set ?xs. fst y = fst x - 1" if "x \<in> set ?xs" "prevOf (snd x) \<noteq> None" for x
    using row [OF that(1)] first [OF that(1)] that(2) by (cases "fst x = 1") auto
  have shared: "x = z" if xz: "x \<in> set ?xs" "z \<in> set ?xs" "prevOf (snd x) = prevOf (snd z)" "prevOf (snd x) \<noteq> None" for x z
  proof -
    obtain y where y: "y \<in> set ?xs" "fst y = fst x - 1" using parent [OF xz(1,4)] by blast
    have "prevOf (snd z) \<noteq> None" using xz(3,4) by metis
    from parent [OF xz(2) this] obtain w where w: "w \<in> set ?xs" "fst w = fst z - 1" by blast
    have "hashOf (snd y) = hashOf (snd w)" using prev [OF xz(1) y] prev [OF xz(2) w] xz(3) by metis
    then have "sha (bookRowPreimage (snd y)) = sha (bookRowPreimage (snd w))" using hash y(1) w(1) by simp
    moreover have "snd y \<in> set rs" "snd w \<in> set rs"
      using arg_cong [OF m(2), of set] y(1) w(1) by auto
    ultimately have "bookRowPreimage (snd y) = bookRowPreimage (snd w)"
      using inj by (auto simp: rows_collide_def list_ex_iff bookRowHash_def)
    then have "fst y = fst w"
      using preimage_position [of "snd y" "snd w"] row [OF y(1)] row [OF w(1)] by simp
    then show ?thesis using uniq xz(1,2) y(2) w(2) by simp
  qed
  show ?thesis
    unfolding linear_chain_def Let_def
  proof (intro conjI)
    show "set (map fst ?xs) = {1..int (length (map fst ?xs))}" using s num(2) by simp
    show "\<forall>x \<in> set ?xs. if fst x = 1 then prevOf (snd x) = None
        else (\<forall>y \<in> set ?xs. fst y = fst x - 1 \<longrightarrow> prevOf (snd x) = hashOf (snd y))"
      using first prev by simp
    show "\<forall>x \<in> set ?xs. \<forall>y \<in> set ?xs. prevOf (snd x) = prevOf (snd y) \<and> prevOf (snd x) \<notin> {None, Some []} \<longrightarrow> x = y"
      using shared by blast
  qed (rule d)
qed

section \<open>Properties\<close>


text \<open>
  Property C10. The queue keeps every book in order. However the steps of the queued writers interleave, with signatures
  that fail, refusals that are not bound and rows that the file does not take, the report of every book says
  \<open>ok\<close>: its rows have the positions \<open>1, 2, 3, \<dots>\<close> and each names the hash of the row before it; or two of
  its rows with different preimages have one hash. The hash is never the empty text.
\<close>

theorem queued_book_in_order:
  assumes "1 \<le> i" "\<forall>x. sha x \<noteq> []" "list_all queued evs"
  shows "sq_status (seqReport i (foldl (book_do sha) new_book evs)) = ''ok'' \<or>
    rows_collide sha (rowsForAgent i (foldl (book_do sha) new_book evs))"
proof -
  let ?b = "foldl (book_do sha) new_book evs"
  have "book_inv sha i new_book"
    by (simp add: book_inv_def new_book_def Let_def rowsForAgent_def at_tail_def get_or_def last_val_def tail_hash_def)
  then have "(\<forall>x. sha x \<noteq> []) \<and> 1 \<le> i \<and> book_inv sha i ?b"
    using assms(1,2) by (intro queued_book.run_inv [OF _ assms(3)]) simp
  then have c: "chained sha i 1 JNull (rowsForAgent i ?b)" by (simp add: book_inv_def Let_def)
  have "linear_chain (rowsForAgent i ?b)" if "\<not> rows_collide sha (rowsForAgent i ?b)"
    by (rule chained_linear [OF c assms(2) that])
  then show ?thesis unfolding seqReport_def chained_present [OF c] using chain_status by blast
qed

section \<open>Witnesses, and writers outside the queue\<close>

text \<open>A row of a writer, and the hash that is the text itself.\<close>

definition plain_row :: "string \<Rightarrow> brow" where
  "plain_row t = \<lparr>br_agent = JNum (JInt 7), br_seq = JUndef, br_task = JStr t, br_prev = JUndef, br_hash = JUndef,
     br_event = JStr ''collected'', br_evidence = JNull\<rparr>"

definition plain_hash :: "string \<Rightarrow> string" where
  "plain_hash x = CHR ''h'' # x"

definition queued_run :: "book_event list" where
  "queued_run = [Begin_row 1 True (plain_row ''a''), Begin_row 2 True (plain_row ''b''), Sign_row 1 True, Finish_row 1 Kept,
     Begin_row 2 True (plain_row ''b''), Sign_row 2 True, Finish_row 2 Not_written,
     Begin_row 3 True (plain_row ''c''), Sign_row 3 True, Finish_row 3 Kept]"

theorem queued_book_in_order_witness:
  "sq_status (seqReport 7 (foldl (book_do plain_hash) new_book queued_run)) = ''ok'' \<and>
   length (rowsForAgent 7 (foldl (book_do plain_hash) new_book queued_run)) = 2"
proof -
  have "list_all queued queued_run" by (simp add: queued_run_def queued_def plain_row_def)
  moreover have "\<forall>x. plain_hash x \<noteq> []" by (simp add: plain_hash_def)
  moreover have "\<not> rows_collide plain_hash rs" for rs by (simp add: rows_collide_def list_ex_iff bookRowHash_def plain_hash_def)
  moreover have "length (rowsForAgent 7 (foldl (book_do plain_hash) new_book queued_run)) = 2" by code_simp
  ultimately show ?thesis using queued_book_in_order [of 7 plain_hash queued_run] by simp
qed

text \<open>
  The writer of an escrow event of a job between agents (\<open>recordA2aEscrowEvent\<close>) is not in the list of the queued
  ones. When it starts while the signature of another row of the book is awaited, both rows get the same position, and
  the report of the book says \<open>FORKED\<close> from then on.
\<close>

definition unqueued_run :: "book_event list" where
  "unqueued_run = [Begin_row 1 True (plain_row ''a''), Begin_row 2 False (plain_row ''a2aesc-1''), Sign_row 1 True, Sign_row 2 True,
     Finish_row 1 Kept, Finish_row 2 Kept]"

theorem unqueued_writer_forks:
  "sq_status (seqReport 7 (foldl (book_do plain_hash) new_book unqueued_run)) = ''FORKED'' \<and>
   sq_duplicates (seqReport 7 (foldl (book_do plain_hash) new_book unqueued_run)) = [1]"
  by code_simp

text \<open>A bar inside a field is not escaped: two different rows at one position have one hash.\<close>

theorem preimage_not_injective:
  "bookRowPreimage ((plain_row ''a|b'')\<lparr>br_prev := JNull\<rparr>) = bookRowPreimage ((plain_row ''a'')\<lparr>br_prev := JStr ''b|''\<rparr>)"
  by code_simp

end
