(* ===== verification/Spec2Isabelle.thy ===== *)
theory Spec2Isabelle
  imports Merkle Spend_Hold Rlp Eip1559 Claim_Settlement Issuance_Cap Relayer_Auth Ecdsa_Der A2a_Escrow
    X402_Challenge Receipt_Log Late_Receipts Session_Delegation Tier_Policy Free_Tier Revenue_Split
    Canonical_Preimage Served_Replay Legacy_Set Rolling_Ledger Issuer_History
    Book_Policy Session_Act Receipt_Lock Book_Seq
begin

text \<open>
  A verification development of the gateway of Chit402 (services/gateway/src) and of its core package
  (packages/cs2-core). The gateway sells model calls for payments over HTTP (x402), holds money and jobs
  between agents, signs a receipt for what was paid and done, and appends each receipt to a log that
  anybody can audit. This theory imports all others and holds no definitions of its own.

  How the parts work together. A call is quoted as a challenge and paid by a transfer; the challenge store
  (X402_Challenge) admits each nonce, authorization and transfer once. The spend store (Spend_Hold),
  the free tier (Free_Tier), the sessions (Session_Delegation) and the relayers (Relayer_Auth) decide who
  may call and how much; a book has rules of its own for what is spent (Book_Policy), an agent signs its
  privileged acts (Session_Act), each row of a book has a position (Book_Seq), and what a call cost more
  than was paid is a debt (Rolling_Ledger over Cost_Plus). After the call the claims of the receipt are locked and hashed
  (Canonical_Preimage over Canonical_Json), the number of signatures is capped (Issuance_Cap), a claim id
  settles once (Claim_Settlement), and the receipt becomes a leaf of the log (Receipt_Log over Log_Replay
  over Log_Tree), written by the one process that has the lock of the log directory (Receipt_Lock). The set
  of receipts from before the log is frozen (Legacy_Set), and the keys that sign have a history of
  their own (Issuer_History). A payment without an answer is looked up later and gets its receipt from a
  resolver (Late_Issue over Late_Store, X402_Challenge and Payment_Ref). Jobs between agents run on an
  escrow with a dispute (A2a_Escrow over Book_Escrow over Book_Dispute). A second, independent hash tree
  (Merkle) and the codecs of transactions and signatures (Rlp, Eip1559, Ecdsa_Der) are the core package.
\<close>

section \<open>Theories and sources\<close>

text \<open>
  Shared: Chit_Prelude (bytes, hexadecimal and decimal text, JavaScript values), Js_Store (the
  insertion-ordered \<open>Map\<close>, and the locales of runs), Js_Values (\<open>String\<close>, \<open>Number\<close>, \<open>BigInt\<close>, truthiness,
  dates), Sha256 (executable), Pairing and Tree_Proofs (hash trees and the two
  verification walks for any node combiner), Hash_Domain (from trees to SHA-256 collisions).

  Core package: Merkle (merkle/index.js: \<open>mth\<close>, \<open>inclusionProof\<close>, \<open>verifyInclusion\<close>, \<open>consistencyProof\<close>,
  \<open>verifyConsistency\<close>), Byte_Ints (ecdsa/bytes.js), Rlp (ecdsa/rlp.js), Eip1559 (ecdsa/eip1559.js),
  Ecdsa_Der (ecdsa/der.js, \<open>modPow\<close> of recover.js, the DER writer of sign.js).

  Receipts: Canonical_Json (\<open>jcsCanonicalize\<close> and \<open>jcsRfc8785\<close> of offer-receipt.js), Canonical_Preimage
  (canonical-preimage.js), Issuance_Cap (issuance-cap.js), Claim_Settlement (claim-settlement.js),
  Log_Tree (tree functions of receipt-merkle.js), Log_Replay (receipt-log-store.js, receipt-log-epoch.js),
  Receipt_Log (class \<open>ReceiptMerkleTree\<close> of receipt-merkle.js), Receipt_Lock (receipt-log-lock.js),
  Legacy_Set (legacy-receipt-merkle.js and the checks of issuer-root.js), Issuer_History (the documents of
  issuer-history.js).

  Payments: Payment_Ref (payment-ref.js with names of x402-facilitator.js and arc-rail.js), X402_Challenge
  and Late_Store (class \<open>ChallengeStore\<close> of x402-adapter.js), Late_Issue and Late_Receipts
  (late-issue.js), Served_Replay (paid-response-replay.js), Spend_Hold (spend-hold.js), Free_Tier
  (free-tier.js), Revenue_Split (revenue-split.js), Tier_Policy (tier-policy.js), Cost_Plus (the
  cost-plus price of pricing.js), Rolling_Ledger (rolling-settlement.js and paid-route.js).

  Books: Book_Policy (book-policy.js and \<open>recordSessionActApproval\<close> of server.js), Book_Seq (book-seq.js
  and the positions of usage-settled.js).

  Parties: Session_Delegation (session-delegation.js), Session_Act (session-act.js, \<open>proveKeyFromRequest\<close> and the
  challenge route of server.js), Relayer_Auth (relayer-auth.js), Book_Dispute
  (book-dispute.js), Book_Escrow (book-escrow.js), A2a_Escrow (book-a2a-escrow.js).
\<close>

section \<open>How code becomes definitions\<close>

text \<open>
  A class is a record of its fields and a method is a function from the state, the clock and the other
  inputs of the environment to the new state and the answer. A \<open>Map\<close> is an association list in insertion
  order. A throw, a refusal and an early return are values of an option or a sum. An operation that awaits
  is split at the await, and operations of others may run there; everything between two awaits is one
  step, as in the single thread of the source. Where a file is written, a flag or a value
  says whether the write succeeded, and the model keeps in memory what the source keeps. \<open>bigint\<close> and safe
  integers are \<open>int\<close> or \<open>nat\<close>; bytes and UTF-16 code units are words.

  Parameters are what the source calls and does not contain: signature recovery and hashing of the ethers
  package, verdicts on signatures, facilitators and chain nodes, the clock, random ids, the outcome
  of a write, parsed JSON, environment variables. SHA-256 is a definition; no theorem assumes that
  it has no collisions, the theorems give the colliding inputs instead. The lock of the log directory runs
  over a model of what the kernel keeps (descriptors, inodes, locks), one step a system call.

  Loops are recursive functions that are proved total. The decoder of RLP carries fuel for the nesting
  depth and \<open>rlpDecode\<close> starts it with the length of its input, which is shown to be enough. The
  level loop and the split loop of the log tree are also given as \<open>while_option\<close>, as the source runs
  them, and \<open>log_loops_end\<close> shows that they end with the results of the recursive definitions.
\<close>

section \<open>Interfaces\<close>

text \<open>
  \<open>tree_hash\<close> (Hash_Domain) is what a hash tree needs of its leaf and node hashes, interpreted on the core
  package (\<open>rfc9162\<close>), on the receipt log (\<open>receipt_log\<close>) and on the earlier tree (\<open>legacy_tree\<close>). \<open>invariant_run\<close> (Js_Store) lifts a property
  that each operation keeps to all runs; every store interprets it on its own step function. \<open>single_use\<close>
  (Js_Store) says that a key is written at most once, for claims and for disputes; \<open>single_report\<close>
  (Session_Act) is its general form, where the operation reports the key, interpreted on the runs of session acts.
  \<open>simulated_run\<close> (Rolling_Ledger) extends \<open>invariant_run\<close> by an abstract state that every step follows,
  interpreted on the ledger of debts. \<open>late_stable\<close>
  (Late_Issue) is a property of rows that the compare-and-set keeps, lifted to the resolvers; it is
  interpreted for the quoted tuples and for the closed rows. \<open>text_form\<close> and \<open>unit_code\<close> (Canonical_Json) say
  when a way of writing texts can be read back, interpreted on both canonicalizers.
\<close>

section \<open>What is shown\<close>

text \<open>
  Trees and log: an accepted inclusion or consistency proof is about the tree it names, or two inputs of
  SHA-256 collide; the honest prover is accepted; both trees are the tree of RFC 9162; the log only
  grows, its old roots stay, what was acknowledged survives a restart, a replay of any journal ends in a
  sound log, and a lost lock does not leave two rows for one receipt. However the system calls of the processes
  interleave, at most one process passes the check of the lock, and a lost lock stays lost. The set
  of the earlier receipts is bound by its root and checked at boot. An accepted history of keys binds its
  signed head to every entry, the window of a key is exactly what the history says, and an extension
  never widens one.

  Payments: one claimant per challenge, spent stays spent in every spelling, one lease per transfer; the
  committed amount of a payer stays below the ceiling, also across a restart; a late receipt
  is signed only for a transfer that the chain shows final, with the right amount and parties, a spent
  transfer is never signed for, and a resolver that is left alone issues the receipt; two references get
  one key exactly when chain and transfer agree; base58 is exact; a replay is served only from the last
  commit in time, within the bounds of memory. A debt survives restarts and is cleared by a payment that covers it.

  Receipts: one canonical text exactly per JSON value; the payload hash binds the body; nothing private is
  sealed; a claim settles once; the caps of signatures per hour and day.

  Parties: a bound session was signed for by its owner for this domain and time; revoked stays revoked; a
  relayer nonce is used once in its window; an accepted act of a session is signed by its agent, inside its
  deadline, and its nonce is accepted once in a run; a spend passes exactly within the rules of the book,
  the calls of an hour that are booked in time stay below the cap, and rules survive a restart; the analysis
  of a book says \<open>ok\<close> exactly for a chain in order, which the queue of its writers keeps; one open escrow and one dispute per task; a release needs its
  evidence; a request to a job moves it as the job machine allows; the tier answered is one that holds.

  Codecs: the RLP decoder accepts exactly the encoder's output; strict DER is exact; the modular power.
\<close>

section \<open>What modelling showed\<close>

text \<open>
  Where the code does not do what it says, the theory of the component states what it does as a theorem
  or a lemma with a concrete run: among others two retries of one late payment that both
  sign (Late_Receipts), an escrow that releases and claws back (Book_Escrow), a consistency
  verifier that takes short nodes (Log_Tree), a log that refuses its own journal at boot (Receipt_Log), a
  relayer nonce that can be replayed when its timestamp is ahead (Relayer_Auth), a session window that is
  compared as text (Session_Delegation), a writer of the book outside the queue that forks it (Book_Seq), spent
  nonces of acts that a restart forgets (Session_Act), a failed write that lifts a kill switch (Book_Policy),
  and two claims with one payload hash (Canonical_Json).
\<close>

section \<open>What is not modelled\<close>

text \<open>
  Routing, request parsing and response writing; network calls to model providers, facilitators and
  chain nodes; key custody; external provers; the assembly of receipt claims and their JWS; publication of
  heads; views and listings; the TypeScript verifier; contracts, user interface and scripts. Curve
  arithmetic and Keccak would need a specification of their own. Rounding of doubles is not
  modelled: numbers are exact, and a number inside canonical JSON is the text printed for it.
\<close>

end
